(* ===== verification/Prelude.thy ===== *)
theory Prelude
  imports Complex_Main "HOL-Library.AList" "HOL-Library.List_Lexorder"
    "HOL-Library.Product_Lexorder" "HOL-Library.Sublist"
begin

text \<open>
  Shared vocabulary of the development. It fixes how the Python values that every component
  uses are represented and collects the lemmas the component proofs rest on:

  \<^item> a Python \<open>str\<close> is the list of its Unicode code points (\<open>pystr\<close>), so that
    \<open>len\<close> counts code points and \<open>utf8_len\<close> counts the bytes of \<open>s.encode("utf-8")\<close>;
    \<open>u ''abc''\<close> embeds an ASCII literal;
  \<^item> a \<open>dict\<close> or \<open>OrderedDict\<close> is an association list in insertion order with
    distinct keys: \<open>d[k] = v\<close> is \<open>AList.update\<close>, \<open>del d[k]\<close> is
    \<open>AList.delete\<close>, \<open>move_to_end\<close> and \<open>popitem(last=False)\<close> are below;
  \<^item> a \<open>heapq\<close> heap is the sorted list of its elements: \<open>heap[0]\<close>,
    \<open>heappush\<close>, \<open>heappop\<close>, \<open>heapify\<close> and \<open>len\<close> are all the code
    observes of it, and for a total order they do not depend on the array layout;
  \<^item> a raised exception is the \<open>Inl\<close> side of a sum.
\<close>

section \<open>Proof-automation collections\<close>

named_theorems inv_intros \<open>introduction rules for component invariants\<close>
named_theorems step_simps \<open>unfolding rules for component operations\<close>

section \<open>Strings\<close>

type_synonym pystr = "nat list"

definition u :: "string \<Rightarrow> pystr" where
  "u s = map of_char s"

lemma u_inject [simp]: "u s = u t \<longleftrightarrow> s = t"
proof -
  have "inj (of_char :: char \<Rightarrow> nat)" by (rule injI) simp
  then show ?thesis by (auto simp: u_def dest: map_injective)
qed

lemma u_Nil [simp]: "u [] = []" and u_eq_Nil [simp]: "u s = [] \<longleftrightarrow> s = []"
  and Nil_eq_u [simp]: "[] = u s \<longleftrightarrow> s = []" and length_u [simp]: "length (u s) = length s"
  by (auto simp: u_def)

text \<open>Bytes of the UTF-8 encoding of one code point and of a string.\<close>

definition utf8_width :: "nat \<Rightarrow> nat" where
  "utf8_width c = (if c < 128 then 1 else if c < 2048 then 2 else if c < 65536 then 3 else 4)"

definition utf8_len :: "pystr \<Rightarrow> nat" where
  "utf8_len s = sum_list (map utf8_width s)"

lemma utf8_len_append [simp]: "utf8_len (s @ t) = utf8_len s + utf8_len t"
  by (simp add: utf8_len_def)

lemma utf8_len_Nil [simp]: "utf8_len [] = 0"
  by (simp add: utf8_len_def)

lemma utf8_len_Cons [simp]: "utf8_len (c # s) = utf8_width c + utf8_len s"
  by (simp add: utf8_len_def)

lemma utf8_len_ge_length: "length s \<le> utf8_len s"
proof (induction s)
  case (Cons c s)
  have "1 \<le> utf8_width c" by (simp add: utf8_width_def)
  with Cons show ?case by simp
qed simp

text \<open>The characters Python's \<open>str.strip()\<close> removes (\<open>str.isspace\<close>).\<close>

definition py_isspace :: "nat \<Rightarrow> bool" where
  "py_isspace c \<longleftrightarrow> (9 \<le> c \<and> c \<le> 13) \<or> (28 \<le> c \<and> c \<le> 32) \<or> c = 133 \<or> c = 160 \<or> c = 5760
     \<or> (8192 \<le> c \<and> c \<le> 8202) \<or> c = 8232 \<or> c = 8233 \<or> c = 8239 \<or> c = 8287 \<or> c = 12288"

definition lstrip :: "pystr \<Rightarrow> pystr" where
  "lstrip s = dropWhile py_isspace s"

definition rstrip :: "pystr \<Rightarrow> pystr" where
  "rstrip s = rev (dropWhile py_isspace (rev s))"

definition strip :: "pystr \<Rightarrow> pystr" where
  "strip s = rstrip (lstrip s)"

definition startswith :: "pystr \<Rightarrow> pystr \<Rightarrow> bool" where
  "startswith s p = (take (length p) s = p)"

definition endswith :: "pystr \<Rightarrow> pystr \<Rightarrow> bool" where
  "endswith s p = (length p \<le> length s \<and> drop (length s - length p) s = p)"

lemma startswith_append [simp]: "startswith (p @ s) p"
  by (simp add: startswith_def)

lemma startswith_prefix: "startswith s p \<longleftrightarrow> prefix p s"
  by (auto simp: startswith_def prefix_def) (metis append_take_drop_id)

text \<open>\<open>str.lower()\<close> on ASCII letters; other code points are left alone.\<close>

definition ascii_lower_char :: "nat \<Rightarrow> nat" where
  "ascii_lower_char c = (if 65 \<le> c \<and> c \<le> 90 then c + 32 else c)"

definition ascii_lower :: "pystr \<Rightarrow> pystr" where
  "ascii_lower s = map ascii_lower_char s"

lemma ascii_lower_idem [simp]: "ascii_lower (ascii_lower s) = ascii_lower s"
  by (simp add: ascii_lower_def ascii_lower_char_def)

lemma length_ascii_lower [simp]: "length (ascii_lower s) = length s"
  by (simp add: ascii_lower_def)

text \<open>\<open>sep.join(parts)\<close> and \<open>s.split(sep)\<close> for a one-character separator.\<close>

fun join :: "pystr \<Rightarrow> pystr list \<Rightarrow> pystr" where
  "join sep [] = []"
| "join sep [x] = x"
| "join sep (x # y # xs) = x @ sep @ join sep (y # xs)"

fun split_on :: "nat \<Rightarrow> pystr \<Rightarrow> pystr list" where
  "split_on c [] = [[]]"
| "split_on c (x # xs) =
     (if x = c then [] # split_on c xs
      else (case split_on c xs of [] \<Rightarrow> [[x]] | l # ls \<Rightarrow> (x # l) # ls))"

abbreviation newline :: nat where "newline \<equiv> 10"

lemma split_on_nonempty [simp]: "split_on c s \<noteq> []"
  by (cases s) (auto split: list.splits)

lemma join_Cons: "xs \<noteq> [] \<Longrightarrow> join sep (x # xs) = x @ sep @ join sep xs"
  by (cases xs) auto

lemma join_split_on: "join [c] (split_on c s) = s"
proof (induction s)
  case (Cons x s)
  obtain l ls where "split_on c s = l # ls" by (cases "split_on c s") auto
  with Cons show ?case by (cases ls) auto
qed simp

lemma join_append: "xs \<noteq> [] \<Longrightarrow> ys \<noteq> [] \<Longrightarrow> join sep (xs @ ys) = join sep xs @ sep @ join sep ys"
proof (induction xs)
  case (Cons x xs)
  then show ?case by (cases xs) (auto simp: join_Cons)
qed simp

lemma set_split_on: "l \<in> set (split_on c s) \<Longrightarrow> set l \<subseteq> set s"
proof (induction s arbitrary: l)
  case (Cons x s)
  obtain l' ls where s: "split_on c s = l' # ls" by (cases "split_on c s") auto
  with Cons.IH have "set l' \<subseteq> set s" "\<And>l. l \<in> set ls \<Longrightarrow> set l \<subseteq> set s" by simp_all
  with Cons.prems s show ?case by (auto split: if_splits)
qed simp

lemma sep_notin_split_on: "l \<in> set (split_on c s) \<Longrightarrow> c \<notin> set l"
proof (induction s arbitrary: l)
  case (Cons x s)
  obtain l' ls where "split_on c s = l' # ls" by (cases "split_on c s") auto
  with Cons show ?case by (auto split: if_splits)
qed simp

lemma split_on_join:
  "ls \<noteq> [] \<Longrightarrow> \<forall>l \<in> set ls. c \<notin> set l \<Longrightarrow> split_on c (join [c] ls) = ls"
proof (induction "[c]" ls rule: join.induct)
  case (2 x)
  then show ?case
  proof (induction x)
    case (Cons y x)
    then show ?case by (cases "split_on c x") auto
  qed simp
next
  case (3 x y xs)
  have "split_on c (x @ c # r) = x # split_on c r" if "c \<notin> set x" for r
    using that
  proof (induction x)
    case (Cons z x)
    then show ?case by simp
  qed simp
  with 3 show ?case by simp
qed simp

text \<open>Stripping.\<close>

lemma set_strip: "set (strip s) \<subseteq> set s"
  unfolding strip_def lstrip_def rstrip_def by (auto dest!: set_dropWhileD)

lemma dropWhile_idem [simp]: "dropWhile P (dropWhile P xs) = dropWhile P xs"
  by (induction xs) auto

lemma strip_idem [simp]: "strip (strip s) = strip s"
proof -
  define y where "y = lstrip s"
  have ly: "lstrip y = y" by (simp add: y_def lstrip_def)
  have "rev y = takeWhile py_isspace (rev y) @ dropWhile py_isspace (rev y)" by simp
  then have "rev (rev y) = rev (takeWhile py_isspace (rev y) @ dropWhile py_isspace (rev y))"
    by (rule arg_cong)
  then have yz: "y = rstrip y @ rev (takeWhile py_isspace (rev y))"
    by (simp only: rstrip_def rev_append rev_rev_ident)
  have "lstrip (rstrip y) = rstrip y"
  proof (cases "rstrip y")
    case (Cons c w)
    then obtain z where "y = c # z" using yz by simp
    then have "\<not> py_isspace c"
      using ly dropWhile_eq_Cons_conv [of py_isspace y c z] by (simp add: lstrip_def)
    then show ?thesis by (simp add: Cons lstrip_def)
  qed (simp add: lstrip_def)
  moreover have "rstrip (rstrip y) = rstrip y" by (simp add: rstrip_def)
  ultimately show ?thesis by (simp add: strip_def flip: y_def)
qed

section \<open>Ordered dictionaries\<close>

type_synonym ('k, 'v) odict = "('k \<times> 'v) list"

text \<open>\<open>d.move_to_end(k)\<close>; the callers only use it on a key that is present.\<close>

definition move_to_end :: "'k \<Rightarrow> ('k, 'v) odict \<Rightarrow> ('k, 'v) odict" where
  "move_to_end k d = (case map_of d k of None \<Rightarrow> d | Some v \<Rightarrow> AList.delete k d @ [(k, v)])"

text \<open>\<open>while len(d) > n: d.popitem(last=False)\<close>.\<close>

fun trim_oldest :: "nat \<Rightarrow> ('k, 'v) odict \<Rightarrow> ('k, 'v) odict" where
  "trim_oldest n [] = []"
| "trim_oldest n (p # ps) = (if n < length (p # ps) then trim_oldest n ps else p # ps)"

lemma trim_oldest_drop: "trim_oldest n d = drop (length d - n) d"
  by (induction d) (auto simp: Suc_diff_le not_less drop_Cons' split: if_splits)

lemma length_trim_oldest [simp]: "length (trim_oldest n d) = min n (length d)"
  by (simp add: trim_oldest_drop)

lemma distinct_fst_drop: "distinct (map fst d) \<Longrightarrow> distinct (map fst (drop n d))"
  by (simp add: drop_map [symmetric])

lemma distinct_trim_oldest [intro]: "distinct (map fst d) \<Longrightarrow> distinct (map fst (trim_oldest n d))"
  by (simp add: trim_oldest_drop distinct_fst_drop)

lemma trim_oldest_last: "0 < n \<Longrightarrow> p \<in> set (trim_oldest n (d @ [p]))"
  by (cases n) (auto simp: trim_oldest_drop)

lemma set_trim_oldest: "set (trim_oldest n d) \<subseteq> set d"
  by (simp add: trim_oldest_drop set_drop_subset)

lemma trim_oldest_id [simp]: "length d \<le> n \<Longrightarrow> trim_oldest n d = d"
  by (simp add: trim_oldest_drop)

lemma distinct_update_fst [intro]:
  "distinct (map fst d) \<Longrightarrow> distinct (map fst (AList.update k v d))"
  by (rule distinct_update)

lemma distinct_delete_fst [intro]:
  "distinct (map fst d) \<Longrightarrow> distinct (map fst (AList.delete k d))"
  by (rule distinct_delete)

lemma delete_not_in: "k \<notin> fst ` set (AList.delete k d)"
  by (rule delete_notin_dom)

lemma length_delete_present:
  "distinct (map fst d) \<Longrightarrow> map_of d k = Some v \<Longrightarrow> Suc (length (AList.delete k d)) = length d"
  by (induction d) (auto simp: delete_notin_dom dom_map_of_conv_image_fst image_iff
      delete_idem split: if_splits)

lemma length_delete_absent: "map_of d k = None \<Longrightarrow> AList.delete k d = d"
  by (simp add: delete_idem map_of_eq_None_iff)

lemma distinct_move_to_end [intro]:
  assumes "distinct (map fst d)"
  shows "distinct (map fst (move_to_end k d))"
proof (cases "map_of d k")
  case (Some v)
  then show ?thesis
    using distinct_delete [OF assms] delete_notin_dom [of k d] by (simp add: move_to_end_def)
qed (simp add: move_to_end_def assms)

lemma map_of_move_to_end [simp]: "map_of (move_to_end k d) = map_of d"
  by (auto simp: move_to_end_def fun_eq_iff map_of_append delete_conv' map_add_def
      split: option.splits)

lemma length_move_to_end [simp]:
  "distinct (map fst d) \<Longrightarrow> length (move_to_end k d) = length d"
  by (auto simp: move_to_end_def length_delete_present split: option.splits)

lemma length_update:
  "length (AList.update k v d) = (if map_of d k = None then Suc (length d) else length d)"
  by (induction d) auto

section \<open>Priority heaps\<close>

text \<open>\<open>heapq.heappush\<close> and \<open>heapq.heapify\<close> on the sorted-list view of a heap.\<close>

definition heappush :: "'a::linorder \<Rightarrow> 'a list \<Rightarrow> 'a list" where
  "heappush x h = insort x h"

definition heapify :: "'a::linorder list \<Rightarrow> 'a list" where
  "heapify xs = sort xs"

lemma set_heappush [simp]: "set (heappush x h) = insert x (set h)"
  by (simp add: heappush_def set_insort_key)

lemma sorted_heappush [simp]: "sorted (heappush x h) = sorted h"
  by (simp add: heappush_def sorted_insort)

lemma length_heappush [simp]: "length (heappush x h) = Suc (length h)"
  by (simp add: heappush_def)

lemma heapify_simps [simp]:
  "set (heapify xs) = set xs" "sorted (heapify xs)" "length (heapify xs) = length xs"
  by (simp_all add: heapify_def)

section \<open>Results\<close>

definition bindR :: "'e + 'a \<Rightarrow> ('a \<Rightarrow> 'e + 'b) \<Rightarrow> 'e + 'b" where
  "bindR r f = (case r of Inl e \<Rightarrow> Inl e | Inr x \<Rightarrow> f x)"

lemma bindR_simps [simp]: "bindR (Inl e) f = Inl e" "bindR (Inr x) f = f x"
  by (simp_all add: bindR_def)

lemma bindR_eq_Inr: "bindR r f = Inr y \<longleftrightarrow> (\<exists>x. r = Inr x \<and> f x = Inr y)"
  by (cases r) auto

end
