(* ===== verification/Store_Backend.thy ===== *)
theory Store_Backend
  imports Prelude
begin

text \<open>
  The entry type of the CCR (compress-cache-retrieve) store and the storage backends behind it.

  \<^item> \<open>compression_entry\<close> and \<open>retrieval_event\<close> are the dataclasses of
    \<open>headroom/cache/compression_store.py\<close>.
  \<^item> \<open>backend_ops\<close> is the \<open>CompressionStoreBackend\<close> protocol of
    \<open>headroom/cache/backends/base.py\<close>, a record of the operations the store calls, with the
    optional attributes it probes by \<open>getattr\<close>.
  \<^item> \<open>memory_ops\<close> is \<open>InMemoryBackend\<close> (\<open>headroom/cache/backends/memory.py\<close>).
  \<^item> The locale \<open>ccr_backend\<close> states the laws the store relies on; the interpretation
    \<open>mem\<close> discharges them for \<open>memory_ops\<close>.

  Timestamps are exact reals: the code's floats are read without rounding. Locks do not appear,
  since every operation of the store and of the backend runs under its lock and is one atomic
  step here.
\<close>

section \<open>Entries and events\<close>

record compression_entry =
  ce_hash :: pystr
  original_content :: pystr
  compressed_content :: pystr
  original_tokens :: int
  compressed_tokens :: int
  original_item_count :: int
  compressed_item_count :: int
  ce_tool_name :: "pystr option"
  ce_tool_call_id :: "pystr option"
  ce_query_context :: "pystr option"
  created_at :: real
  ce_ttl :: int
  ce_tool_signature_hash :: "pystr option"
  ce_compression_strategy :: "pystr option"
  retrieval_count :: int
  search_queries :: "pystr list"
  last_accessed :: "real option"

definition is_expired :: "real \<Rightarrow> compression_entry \<Rightarrow> bool" where
  "is_expired now e \<longleftrightarrow> now - created_at e > real_of_int (ce_ttl e)"

text \<open>A falsy query (\<open>None\<close> or \<open>""\<close>) is not recorded; only the last ten are kept.\<close>

definition record_access :: "real \<Rightarrow> pystr option \<Rightarrow> compression_entry \<Rightarrow> compression_entry" where
  "record_access now query e =
     (let e1 = e\<lparr>retrieval_count := retrieval_count e + 1, last_accessed := Some now\<rparr> in
      case query of
        None \<Rightarrow> e1
      | Some q \<Rightarrow>
          if q \<noteq> [] \<and> q \<notin> set (search_queries e1)
          then let qs = search_queries e1 @ [q] in
               e1\<lparr>search_queries := (if length qs > 10 then drop (length qs - 10) qs else qs)\<rparr>
          else e1)"

lemma record_access_frame [simp]:
  "original_content (record_access now q e) = original_content e"
  "compressed_content (record_access now q e) = compressed_content e"
  "created_at (record_access now q e) = created_at e"
  "ce_ttl (record_access now q e) = ce_ttl e"
  "ce_hash (record_access now q e) = ce_hash e"
  "ce_tool_name (record_access now q e) = ce_tool_name e"
  "original_item_count (record_access now q e) = original_item_count e"
  "ce_tool_signature_hash (record_access now q e) = ce_tool_signature_hash e"
  "ce_compression_strategy (record_access now q e) = ce_compression_strategy e"
  "retrieval_count (record_access now q e) = retrieval_count e + 1"
  by (auto simp: record_access_def Let_def split: option.splits)

lemma is_expired_record_access [simp]:
  "is_expired t (record_access now q e) = is_expired t e"
  by (simp add: is_expired_def)

lemma record_access_query_bound:
  "length (search_queries e) \<le> 10 \<Longrightarrow> length (search_queries (record_access now q e)) \<le> 10"
  by (auto simp: record_access_def Let_def split: option.splits)

record retrieval_event =
  ev_hash :: pystr
  ev_query :: "pystr option"
  ev_items_retrieved :: int
  ev_total_items :: int
  ev_tool_name :: "pystr option"
  ev_timestamp :: real
  ev_retrieval_type :: pystr
  ev_tool_signature_hash :: "pystr option"

section \<open>The backend protocol\<close>

record 'b backend_ops =
  b_get :: "'b \<Rightarrow> pystr \<Rightarrow> compression_entry option"
  b_set :: "'b \<Rightarrow> pystr \<Rightarrow> compression_entry \<Rightarrow> 'b \<times> bool option"
  b_delete :: "'b \<Rightarrow> pystr \<Rightarrow> 'b \<times> bool"
  b_clear :: "'b \<Rightarrow> 'b"
  b_count :: "'b \<Rightarrow> nat"
  b_items :: "'b \<Rightarrow> (pystr \<times> compression_entry) list"
  b_expires_entries :: bool
  b_external_revision :: "('b \<Rightarrow> int option) option"
  b_purge_expired :: "(real \<Rightarrow> 'b \<Rightarrow> 'b \<times> nat) option"

text \<open>
  The contract of the protocol: \<open>get\<close> sees exactly what \<open>set\<close> kept and
  \<open>delete\<close> removed, \<open>items\<close> lists each key once, \<open>count\<close> counts them. A
  \<open>set\<close> that reports \<open>False\<close> may have kept nothing, so only accepted writes are
  described.
\<close>

locale ccr_backend =
  fixes B :: "'b backend_ops"
    and bwf :: "'b \<Rightarrow> bool"
  assumes get_set: "bwf b \<Longrightarrow> b_set B b k e = (b', r) \<Longrightarrow> r \<noteq> Some False \<Longrightarrow>
      b_get B b' = (b_get B b)(k \<mapsto> e)"
    and wf_set: "bwf b \<Longrightarrow> bwf (fst (b_set B b k e))"
    and get_delete: "bwf b \<Longrightarrow> b_get B (fst (b_delete B b k)) = (b_get B b)(k := None)"
    and delete_result: "bwf b \<Longrightarrow> snd (b_delete B b k) \<longleftrightarrow> b_get B b k \<noteq> None"
    and wf_delete: "bwf b \<Longrightarrow> bwf (fst (b_delete B b k))"
    and get_clear: "b_get B (b_clear B b) = Map.empty"
    and wf_clear: "bwf (b_clear B b)"
    and items_get: "bwf b \<Longrightarrow> map_of (b_items B b) = b_get B b"
    and items_distinct: "bwf b \<Longrightarrow> distinct (map fst (b_items B b))"
    and count_items: "bwf b \<Longrightarrow> b_count B b = length (b_items B b)"
begin

lemma in_items_iff: "bwf b \<Longrightarrow> (k, e) \<in> set (b_items B b) \<longleftrightarrow> b_get B b k = Some e"
  using items_get [of b] items_distinct [of b] by (metis map_of_eq_Some_iff)

lemma finite_dom_get: "bwf b \<Longrightarrow> finite (dom (b_get B b))"
  using items_get [of b] by (metis finite_dom_map_of)

lemma count_dom: "bwf b \<Longrightarrow> b_count B b = card (dom (b_get B b))"
  using items_get [of b] items_distinct [of b] count_items [of b]
  by (metis distinct_card dom_map_of_conv_image_fst length_map list.set_map)

lemma count_delete_present:
  assumes "bwf b" and "b_get B b k = Some e"
  shows "Suc (b_count B (fst (b_delete B b k))) = b_count B b"
proof -
  have k: "k \<in> dom (b_get B b)" using assms(2) by auto
  have "dom (b_get B (fst (b_delete B b k))) = dom (b_get B b) - {k}"
    by (auto simp: get_delete assms(1))
  then have "b_count B (fst (b_delete B b k)) = card (dom (b_get B b) - {k})"
    by (simp add: count_dom assms(1) wf_delete)
  with k show ?thesis
    by (metis assms(1) card_Suc_Diff1 count_dom finite_dom_get)
qed

lemma count_set_le:
  assumes "bwf b" and "b_set B b k e = (b', r)" and "r \<noteq> Some False"
  shows "b_count B b' \<le> Suc (b_count B b)"
proof -
  have "bwf b'" using wf_set [OF assms(1), of k e] assms(2) by simp
  then have "b_count B b' = card (insert k (dom (b_get B b)))"
    using get_set [OF assms] by (simp add: count_dom)
  with finite_dom_get [OF assms(1)] show ?thesis
    by (simp add: count_dom assms(1) card_insert_if)
qed

lemma count_set_present:
  assumes "bwf b" and "b_set B b k e = (b', r)" and "r \<noteq> Some False" and "b_get B b k \<noteq> None"
  shows "b_count B b' = b_count B b"
proof -
  have "bwf b'" using wf_set [OF assms(1), of k e] assms(2) by simp
  moreover have "insert k (dom (b_get B b)) = dom (b_get B b)" using assms(4) by auto
  ultimately show ?thesis
    using get_set [OF assms(1,2,3)] by (simp add: count_dom assms(1))
qed

end

section \<open>The in-memory backend\<close>

type_synonym mem_store = "(pystr, compression_entry) odict"

definition mem_get :: "mem_store \<Rightarrow> pystr \<Rightarrow> compression_entry option" where
  "mem_get st hash_key = map_of st hash_key"

definition mem_set :: "mem_store \<Rightarrow> pystr \<Rightarrow> compression_entry \<Rightarrow> mem_store \<times> bool option" where
  "mem_set st hash_key entry = (AList.update hash_key entry st, None)"

definition mem_delete :: "mem_store \<Rightarrow> pystr \<Rightarrow> mem_store \<times> bool" where
  "mem_delete st hash_key =
     (if map_of st hash_key \<noteq> None then (AList.delete hash_key st, True) else (st, False))"

definition mem_exists :: "mem_store \<Rightarrow> pystr \<Rightarrow> bool" where
  "mem_exists st hash_key \<longleftrightarrow> map_of st hash_key \<noteq> None"

definition mem_clear :: "mem_store \<Rightarrow> mem_store" where
  "mem_clear st = []"

definition mem_count :: "mem_store \<Rightarrow> nat" where
  "mem_count st = length st"

definition mem_keys :: "mem_store \<Rightarrow> pystr list" where
  "mem_keys st = map fst st"

definition mem_items :: "mem_store \<Rightarrow> (pystr \<times> compression_entry) list" where
  "mem_items st = st"

definition memory_ops :: "mem_store backend_ops" where
  "memory_ops = \<lparr>b_get = mem_get, b_set = mem_set, b_delete = mem_delete, b_clear = mem_clear,
     b_count = mem_count, b_items = mem_items, b_expires_entries = False,
     b_external_revision = None, b_purge_expired = None\<rparr>"

definition mem_wf :: "mem_store \<Rightarrow> bool" where
  "mem_wf st \<longleftrightarrow> distinct (map fst st)"

lemmas mem_defs = mem_get_def mem_set_def mem_delete_def mem_clear_def mem_count_def mem_items_def

lemma memory_ops_simps [simp]:
  "b_get memory_ops = mem_get" "b_set memory_ops = mem_set" "b_delete memory_ops = mem_delete"
  "b_clear memory_ops = mem_clear" "b_count memory_ops = mem_count"
  "b_items memory_ops = mem_items" "b_expires_entries memory_ops = False"
  "b_external_revision memory_ops = None" "b_purge_expired memory_ops = None"
  by (simp_all add: memory_ops_def)

interpretation mem: ccr_backend memory_ops mem_wf
proof
  fix b b' :: mem_store and k e r
  assume "b_set memory_ops b k e = (b', r)"
  then show "b_get memory_ops b' = (b_get memory_ops b)(k \<mapsto> e)"
    by (auto simp: mem_defs fun_eq_iff update_conv')
qed (auto simp: mem_defs mem_wf_def fun_eq_iff delete_conv' map_of_eq_None_iff
    intro: distinct_update distinct_delete)

text \<open>\<open>exists\<close>, \<open>keys\<close> and \<open>items\<close> agree with \<open>get\<close>.\<close>

lemma mem_exists_iff: "mem_exists st k \<longleftrightarrow> mem_get st k \<noteq> None"
  by (simp add: mem_exists_def mem_get_def)

lemma mem_keys_items: "mem_keys st = map fst (mem_items st)"
  by (simp add: mem_keys_def mem_items_def)

end
