(* ===== verification/Py_Text.thy ===== *)
theory Py_Text
  imports Prelude
begin

text \<open>
  Python text primitives the transforms rely on: decimal rendering of integers, \<open>repr\<close> of a
  string, UTF-8 encoding (which fails on lone surrogates). What depends on the Unicode character
  database is a record \<open>ucd\<close> that the functions take as an argument: which code points
  \<open>str.isprintable\<close> accepts and the value of each decimal digit (\<open>\d\<close> in a regular
  expression and \<open>int()\<close> accept all of them, not only ASCII ones).
\<close>

section \<open>Integers as text\<close>

fun show_nat :: "nat \<Rightarrow> pystr" where
  "show_nat n = (if n < 10 then [48 + n] else show_nat (n div 10) @ [48 + n mod 10])"

declare show_nat.simps [simp del]

definition show_int :: "int \<Rightarrow> pystr" where
  "show_int i = (if i < 0 then 45 # show_nat (nat (- i)) else show_nat (nat i))"

text \<open>\<open>f"{i:+d}"\<close>.\<close>

definition show_signed :: "int \<Rightarrow> pystr" where
  "show_signed i = (if i < 0 then show_int i else 43 # show_int i)"

section \<open>The character database\<close>

record ucd =
  uc_printable :: "nat \<Rightarrow> bool"
  uc_decimal :: "nat \<Rightarrow> nat option"

text \<open>The ASCII digits have their values and no other ASCII character is a digit.\<close>

definition ucd_ok :: "ucd \<Rightarrow> bool" where
  "ucd_ok U \<longleftrightarrow> (\<forall>c < 128. uc_decimal U c = (if 48 \<le> c \<and> c \<le> 57 then Some (c - 48) else None))"

definition is_decimal :: "ucd \<Rightarrow> nat \<Rightarrow> bool" where
  "is_decimal U c \<longleftrightarrow> uc_decimal U c \<noteq> None"

text \<open>\<open>int(s)\<close> of a string of decimal digits.\<close>

definition dec_value :: "ucd \<Rightarrow> pystr \<Rightarrow> nat" where
  "dec_value U s = foldl (\<lambda>acc c. 10 * acc + (case uc_decimal U c of Some d \<Rightarrow> d | None \<Rightarrow> 0)) 0 s"

text \<open>Two instances: ASCII only, and ASCII with the Arabic-Indic digits U+0660 to U+0669.\<close>

definition ascii_ucd :: ucd where
  "ascii_ucd = \<lparr>uc_printable = (\<lambda>c. 32 \<le> c \<and> c < 127),
     uc_decimal = (\<lambda>c. if 48 \<le> c \<and> c \<le> 57 then Some (c - 48) else None)\<rparr>"

definition arabic_ucd :: ucd where
  "arabic_ucd = \<lparr>uc_printable = (\<lambda>c. 32 \<le> c \<and> c < 127 \<or> 1632 \<le> c \<and> c \<le> 1641),
     uc_decimal = (\<lambda>c. if 48 \<le> c \<and> c \<le> 57 then Some (c - 48)
                      else if 1632 \<le> c \<and> c \<le> 1641 then Some (c - 1632) else None)\<rparr>"

lemma ascii_ucd_ok: "ucd_ok ascii_ucd"
  by (simp add: ucd_ok_def ascii_ucd_def)

lemma arabic_ucd_ok: "ucd_ok arabic_ucd"
  by (simp add: ucd_ok_def arabic_ucd_def)

section \<open>repr\<close>

definition hex_digit :: "nat \<Rightarrow> nat" where
  "hex_digit d = (if d < 10 then 48 + d else 87 + d)"

fun hex_padded :: "nat \<Rightarrow> nat \<Rightarrow> pystr" where
  "hex_padded 0 c = []"
| "hex_padded (Suc w) c = hex_padded w (c div 16) @ [hex_digit (c mod 16)]"

definition repr_char :: "ucd \<Rightarrow> nat \<Rightarrow> nat \<Rightarrow> pystr" where
  "repr_char U quote c =
     (if c = quote \<or> c = 92 then [92, c]
      else if c = 9 then [92, 116] else if c = 10 then [92, 110] else if c = 13 then [92, 114]
      else if c < 32 \<or> c = 127 then [92, 120] @ hex_padded 2 c
      else if c < 127 then [c]
      else if uc_printable U c then [c]
      else if c < 256 then [92, 120] @ hex_padded 2 c
      else if c < 65536 then [92, 117] @ hex_padded 4 c
      else [92, 85] @ hex_padded 8 c)"

definition py_repr :: "ucd \<Rightarrow> pystr \<Rightarrow> pystr" where
  "py_repr U s =
     (let quote = (if 39 \<in> set s \<and> 34 \<notin> set s then 34 else 39) in
      [quote] @ concat (map (repr_char U quote) s) @ [quote])"

section \<open>UTF-8\<close>

definition is_surrogate :: "nat \<Rightarrow> bool" where
  "is_surrogate c \<longleftrightarrow> 55296 \<le> c \<and> c \<le> 57343"

text \<open>\<open>len(s.encode("utf-8"))\<close>, \<open>None\<close> for the \<open>UnicodeEncodeError\<close> on a lone
  surrogate.\<close>

definition encoded_len :: "pystr \<Rightarrow> nat option" where
  "encoded_len s = (if list_ex is_surrogate s then None else Some (utf8_len s))"

section \<open>Rendering what was read\<close>

text \<open>A digit string without leading zero is the rendering of its value.\<close>

lemma show_nat_snoc: "0 < n \<Longrightarrow> d < 10 \<Longrightarrow> show_nat (10 * n + d) = show_nat n @ [48 + d]"
  by (subst show_nat.simps) simp

lemma show_dec_value:
  assumes "s \<noteq> []" and "49 \<le> hd s" and "hd s \<le> 57" and "\<forall>c \<in> set s. 48 \<le> c \<and> c \<le> 57" and "ucd_ok U"
  shows "0 < dec_value U s \<and> show_nat (dec_value U s) = s"
  using assms(1-4)
proof (induction s rule: rev_induct)
  case (snoc c s)
  have c: "uc_decimal U c = Some (c - 48)" "c - 48 < 10" "48 + (c - 48) = c"
    using snoc.prems(4) assms(5) by (auto simp: ucd_ok_def)
  show ?case
  proof (cases "s = []")
    case True
    then show ?thesis using snoc.prems c by (simp add: dec_value_def show_nat.simps)
  next
    case False
    then have "0 < dec_value U s \<and> show_nat (dec_value U s) = s"
      using snoc by simp
    moreover have "dec_value U (s @ [c]) = 10 * dec_value U s + (c - 48)"
      using c by (simp add: dec_value_def)
    ultimately show ?thesis using c show_nat_snoc [of "dec_value U s" "c - 48"] by simp
  qed
qed simp

section \<open>Reading what was rendered\<close>

lemma show_nat_digits: "c \<in> set (show_nat n) \<Longrightarrow> 48 \<le> c \<and> c \<le> 57"
proof (induction n rule: show_nat.induct)
  case (1 n)
  then show ?case by (subst (asm) (2) show_nat.simps) (auto split: if_splits)
qed

lemma show_nat_nonempty [simp]: "show_nat n \<noteq> []"
  by (subst show_nat.simps) simp

lemma show_nat_decimal:
  assumes "ucd_ok U"
  shows "list_all (is_decimal U) (show_nat n)"
  using assms show_nat_digits [of _ n] by (fastforce simp: list_all_iff is_decimal_def ucd_ok_def)

lemma dec_value_show_nat:
  assumes "ucd_ok U"
  shows "dec_value U (show_nat n) = n"
proof (induction n rule: show_nat.induct)
  case (1 n)
  have d: "uc_decimal U (48 + m) = Some m" if "m < 10" for m
    using that assms by (simp add: ucd_ok_def)
  show ?case
  proof (cases "n < 10")
    case True
    then show ?thesis by (subst show_nat.simps) (simp add: dec_value_def d)
  next
    case False
    then have "dec_value U (show_nat n) = 10 * dec_value U (show_nat (n div 10)) + n mod 10"
      by (subst show_nat.simps) (simp add: dec_value_def d)
    then show ?thesis using 1 False by simp
  qed
qed

lemma show_nat_inject: "show_nat m = show_nat n \<Longrightarrow> m = n"
  using dec_value_show_nat [OF ascii_ucd_ok] by metis

end
