(* ===== verification/Compression_Store.thy ===== *)
theory Compression_Store
  imports Store_Backend Py_Text
begin

text \<open>
  \<open>CompressionStore\<close> of \<open>headroom/cache/compression_store.py\<close>: the reversible half of
  the compressor. Every original the compressors replace is kept here under a hash, with a TTL, a
  capacity bound, a lazily maintained eviction heap and expiration heap, and a queue of feedback
  events.

  The store is parameterised by the backend protocol \<open>B\<close> of \<open>Store_Backend\<close>, the
  way the class is by its \<open>backend\<close> argument. Each public method is a function of the state
  and of \<open>now\<close>, the value of \<open>time.time()\<close> during the call (the method's clock
  reads are identified). \<open>sha\<close> stands for \<open>hashlib.sha256(s.encode()).hexdigest()\<close> on the strings
  \<open>encode\<close> accepts; the \<open>UnicodeEncodeError\<close> for a lone surrogate is a \<open>ValueError\<close>.
  Log lines are not modelled. The field \<open>notified\<close> collects what
  \<open>process_pending_feedback\<close> hands to the feedback, telemetry and TOIN objects.
\<close>

section \<open>State\<close>

datatype store_error = ValueError | StorageError

definition DEFAULT_CCR_TTL_SECONDS :: int where
  "DEFAULT_CCR_TTL_SECONDS = 1800"

definition MAX_EVENTS :: nat where
  "MAX_EVENTS = 1000"

text \<open>What one pending event turns into: the event with the entry's tool name, signature hash,
  strategy and compressed content, or four times \<open>None\<close> when the entry is gone.\<close>

type_synonym event_data =
  "retrieval_event \<times> pystr option \<times> pystr option \<times> pystr option \<times> pystr option"

record 'b cstore =
  backend :: 'b
  max_entries :: int
  default_ttl :: int
  enable_feedback :: bool
  retrieval_events :: "retrieval_event list"
  pending_feedback_events :: "retrieval_event list"
  eviction_heap :: "(real \<times> pystr) list"
  expiration_heap :: "(real \<times> real \<times> pystr) list"
  stale_heap_entries :: int
  stale_expiration_heap_entries :: int
  own_totals :: "int \<times> int \<times> int"
  backend_revision :: "int option"
  notified :: "event_data list"

text \<open>The keyword arguments of \<open>CompressionStore.store\<close>.\<close>

record store_args =
  a_original :: pystr
  a_compressed :: pystr
  a_original_tokens :: int
  a_compressed_tokens :: int
  a_original_item_count :: int
  a_compressed_item_count :: int
  a_tool_name :: "pystr option"
  a_tool_call_id :: "pystr option"
  a_query_context :: "pystr option"
  a_tool_signature_hash :: "pystr option"
  a_compression_strategy :: "pystr option"
  a_ttl :: "int option"
  a_explicit_hash :: "pystr option"

section \<open>Heap maintenance\<close>

definition expiration_time :: "compression_entry \<Rightarrow> real" where
  "expiration_time e = created_at e + real_of_int (ce_ttl e)"

definition read_backend_revision :: "'b backend_ops \<Rightarrow> 'b \<Rightarrow> int option" where
  "read_backend_revision B b =
     (case b_external_revision B of None \<Rightarrow> None | Some reader \<Rightarrow> reader b)"

definition new_store ::
  "'b backend_ops \<Rightarrow> 'b \<Rightarrow> int \<Rightarrow> int \<Rightarrow> bool \<Rightarrow> 'b cstore" where
  "new_store B b mx ttl fb =
     \<lparr>backend = b, max_entries = mx, default_ttl = ttl, enable_feedback = fb,
      retrieval_events = [], pending_feedback_events = [], eviction_heap = [],
      expiration_heap = [], stale_heap_entries = 0, stale_expiration_heap_entries = 0,
      own_totals = (0, 0, 0), backend_revision = read_backend_revision B b, notified = []\<rparr>"

definition mark_heap_entries_stale :: "'b backend_ops \<Rightarrow> 'b cstore \<Rightarrow> 'b cstore" where
  "mark_heap_entries_stale B s =
     (if b_expires_entries B then s
      else s\<lparr>stale_heap_entries := stale_heap_entries s + 1,
             stale_expiration_heap_entries := stale_expiration_heap_entries s + 1\<rparr>)"

definition rebuild_heap :: "'b backend_ops \<Rightarrow> 'b cstore \<Rightarrow> 'b cstore" where
  "rebuild_heap B s =
     (let entries = b_items B (backend s) in
      s\<lparr>eviction_heap := heapify (map (\<lambda>(k, e). (created_at e, k)) entries),
        expiration_heap := heapify (map (\<lambda>(k, e). (expiration_time e, created_at e, k)) entries),
        stale_heap_entries := 0, stale_expiration_heap_entries := 0\<rparr>)"

definition stale_ratio :: "int \<Rightarrow> nat \<Rightarrow> real" where
  "stale_ratio stale n = (if n \<noteq> 0 then real_of_int stale / real n else 0)"

definition rebuild_heap_if_needed :: "'b backend_ops \<Rightarrow> 'b cstore \<Rightarrow> 'b cstore" where
  "rebuild_heap_if_needed B s =
     (if b_expires_entries B then s
      else if stale_ratio (stale_heap_entries s) (length (eviction_heap s)) \<ge> 1 / 2
           \<or> stale_ratio (stale_expiration_heap_entries s) (length (expiration_heap s)) \<ge> 1 / 2
      then rebuild_heap B s else s)"

definition record_eviction_success :: "real \<Rightarrow> compression_entry \<Rightarrow> 'b cstore \<Rightarrow> 'b cstore" where
  "record_eviction_success now e s =
     (if ce_tool_signature_hash e \<noteq> None \<and> ce_compression_strategy e \<noteq> None
      then s\<lparr>pending_feedback_events := pending_feedback_events s @
        [\<lparr>ev_hash = ce_hash e, ev_query = None, ev_items_retrieved = 0,
          ev_total_items = original_item_count e, ev_tool_name = ce_tool_name e,
          ev_timestamp = now, ev_retrieval_type = u ''eviction_success'',
          ev_tool_signature_hash = ce_tool_signature_hash e\<rparr>]\<rparr>
      else s)"

section \<open>Eviction\<close>

text \<open>
  The first loop of \<open>_evict_if_needed\<close> pops expired roots of the expiration heap.
  \<open>expire_pop\<close> is what it does with a popped tuple: delete the entry if the tuple still
  describes it, else account for a stale tuple. The flag of \<open>expire_loop\<close> says that the
  method returned from inside the loop.
\<close>

definition expire_pop ::
  "'b backend_ops \<Rightarrow> 'b cstore \<Rightarrow> real \<Rightarrow> real \<Rightarrow> pystr \<Rightarrow> compression_entry option \<Rightarrow> 'b cstore"
where
  "expire_pop B s expires created k entry =
     (if (case entry of Some e \<Rightarrow> created_at e = created \<and> expiration_time e = expires
          | None \<Rightarrow> False)
      then s\<lparr>backend := fst (b_delete B (backend s) k),
             stale_heap_entries := stale_heap_entries s + 1\<rparr>
      else if stale_expiration_heap_entries s > 0
      then s\<lparr>stale_expiration_heap_entries := stale_expiration_heap_entries s - 1\<rparr>
      else s\<lparr>stale_heap_entries := stale_heap_entries s + 1\<rparr>)"

fun expire_loop ::
  "'b backend_ops \<Rightarrow> real \<Rightarrow> bool \<Rightarrow> 'b cstore \<Rightarrow> (real \<times> real \<times> pystr) list \<Rightarrow> bool \<times> 'b cstore"
where
  "expire_loop B now at_capacity s [] = (False, s\<lparr>expiration_heap := []\<rparr>)"
| "expire_loop B now at_capacity s ((expires, created, k) # h) =
     (if expires \<ge> now then (False, s\<lparr>expiration_heap := (expires, created, k) # h\<rparr>)
      else
        let entry1 = b_get B (backend s) k;
            entry = (if entry1 = None \<and> at_capacity then b_get B (backend s) k else entry1) in
        if entry1 = None \<and> at_capacity \<and> entry = None
        then (True, s\<lparr>expiration_heap := (expires, created, k) # h\<rparr>)
        else
          let s2 = expire_pop B (s\<lparr>expiration_heap := h\<rparr>) expires created k entry in
          if \<not> at_capacity \<or> int (b_count B (backend s2)) < max_entries s2 then (True, s2)
          else expire_loop B now at_capacity s2 h)"

text \<open>
  The second loop pops the eviction heap, oldest entry first, while at capacity; a live entry that
  was never retrieved is reported as a successful compression.
\<close>

definition evict_pop ::
  "'b backend_ops \<Rightarrow> real \<Rightarrow> 'b cstore \<Rightarrow> real \<Rightarrow> pystr \<Rightarrow> 'b cstore"
where
  "evict_pop B now s created k =
     (case b_get B (backend s) k of
        Some e \<Rightarrow>
          if created_at e = created then
            let s' = (if \<not> is_expired now e \<and> enable_feedback s \<and> retrieval_count e = 0
                      then record_eviction_success now e s else s) in
            s'\<lparr>backend := fst (b_delete B (backend s') k),
               stale_expiration_heap_entries := stale_expiration_heap_entries s' + 1\<rparr>
          else if stale_heap_entries s > 0
               then s\<lparr>stale_heap_entries := stale_heap_entries s - 1\<rparr> else s
      | None \<Rightarrow> if stale_heap_entries s > 0
                then s\<lparr>stale_heap_entries := stale_heap_entries s - 1\<rparr> else s)"

fun evict_loop ::
  "'b backend_ops \<Rightarrow> real \<Rightarrow> 'b cstore \<Rightarrow> (real \<times> pystr) list \<Rightarrow> 'b cstore"
where
  "evict_loop B now s [] = s\<lparr>eviction_heap := []\<rparr>"
| "evict_loop B now s ((created, k) # h) =
     (if int (b_count B (backend s)) \<ge> max_entries s
      then evict_loop B now (evict_pop B now (s\<lparr>eviction_heap := h\<rparr>) created k) h
      else s\<lparr>eviction_heap := (created, k) # h\<rparr>)"

definition evict_prepare :: "'b backend_ops \<Rightarrow> 'b cstore \<Rightarrow> bool \<times> 'b cstore" where
  "evict_prepare B s =
     (let backend_count = int (b_count B (backend s));
          indexed_count = max 0 (int (length (eviction_heap s)) - stale_heap_entries s);
          at_capacity = (backend_count \<ge> max_entries s) in
      if at_capacity then
        let rev = read_backend_revision B (backend s);
            changed = (b_external_revision B \<noteq> None \<and> (rev = None \<or> rev \<noteq> backend_revision s));
            s1 = (if indexed_count \<noteq> backend_count \<or> changed then rebuild_heap B s
                  else rebuild_heap_if_needed B s) in
        (True, if rev \<noteq> None then s1\<lparr>backend_revision := rev\<rparr> else s1)
      else (False, rebuild_heap_if_needed B s))"

definition evict_if_needed :: "'b backend_ops \<Rightarrow> real \<Rightarrow> 'b cstore \<Rightarrow> 'b cstore" where
  "evict_if_needed B now s =
     (let (at_capacity, s1) = evict_prepare B s;
          (returned, s2) = expire_loop B now at_capacity s1 (expiration_heap s1) in
      if returned \<or> \<not> at_capacity then s2 else evict_loop B now s2 (eviction_heap s2))"

section \<open>Feedback\<close>

definition event_data_of :: "'b backend_ops \<Rightarrow> 'b \<Rightarrow> retrieval_event \<Rightarrow> event_data" where
  "event_data_of B b ev =
     (case b_get B b (ev_hash ev) of
        Some e \<Rightarrow> (ev, ce_tool_name e, ce_tool_signature_hash e, ce_compression_strategy e,
                   Some (compressed_content e))
      | None \<Rightarrow> (ev, None, None, None, None))"

definition process_pending_feedback :: "'b backend_ops \<Rightarrow> 'b cstore \<Rightarrow> 'b cstore" where
  "process_pending_feedback B s =
     s\<lparr>pending_feedback_events := [],
       notified := notified s @ map (event_data_of B (backend s)) (pending_feedback_events s)\<rparr>"

text \<open>Appending to a \<open>deque(maxlen=1000)\<close> drops the oldest event once it is full.\<close>

definition log_retrieval ::
  "real \<Rightarrow> pystr \<Rightarrow> pystr option \<Rightarrow> int \<Rightarrow> int \<Rightarrow> pystr option \<Rightarrow> pystr \<Rightarrow> pystr option
    \<Rightarrow> 'b cstore \<Rightarrow> 'b cstore" where
  "log_retrieval now k query items total_items tool rtype sig s =
     (let ev = \<lparr>ev_hash = k, ev_query = query, ev_items_retrieved = items, ev_total_items = total_items,
                ev_tool_name = tool, ev_timestamp = now, ev_retrieval_type = rtype,
                ev_tool_signature_hash = sig\<rparr>;
          evs = retrieval_events s @ [ev] in
      s\<lparr>retrieval_events := drop (length evs - MAX_EVENTS) evs,
        pending_feedback_events := pending_feedback_events s @ [ev]\<rparr>)"

section \<open>Storing\<close>

definition is_hex :: "pystr \<Rightarrow> bool" where
  "is_hex s \<longleftrightarrow> s \<noteq> [] \<and> (\<forall>c \<in> set s. c \<in> set (u ''0123456789abcdefABCDEF''))"

text \<open>The storage key: the caller's hex hash in lower case, or the first 24 digits of the SHA-256 of
  the content, which cannot be encoded when it has a lone surrogate.\<close>

definition hash_key_of ::
  "(pystr \<Rightarrow> pystr) \<Rightarrow> pystr \<Rightarrow> pystr option \<Rightarrow> store_error + pystr" where
  "hash_key_of sha original explicit =
     (case explicit of
        Some h \<Rightarrow> if is_hex h then Inr (ascii_lower h) else Inl ValueError
      | None \<Rightarrow>
          if list_ex is_surrogate original then Inl ValueError else Inr (take 24 (sha original)))"

definition is_bare_marker :: "pystr \<Rightarrow> bool" where
  "is_bare_marker original =
     (let stripped = strip original in
      startswith stripped (u ''<<ccr:'') \<and> endswith stripped (u ''>>'')
      \<and> newline \<notin> set stripped)"

definition entry_of :: "real \<Rightarrow> int \<Rightarrow> pystr \<Rightarrow> store_args \<Rightarrow> compression_entry" where
  "entry_of now dttl k a =
     \<lparr>ce_hash = k, original_content = a_original a, compressed_content = a_compressed a,
      original_tokens = a_original_tokens a, compressed_tokens = a_compressed_tokens a,
      original_item_count = a_original_item_count a,
      compressed_item_count = a_compressed_item_count a,
      ce_tool_name = a_tool_name a, ce_tool_call_id = a_tool_call_id a,
      ce_query_context = a_query_context a, created_at = now,
      ce_ttl = (case a_ttl a of Some t \<Rightarrow> t | None \<Rightarrow> dttl),
      ce_tool_signature_hash = a_tool_signature_hash a,
      ce_compression_strategy = a_compression_strategy a,
      retrieval_count = 0, search_queries = [], last_accessed = None\<rparr>"

text \<open>The locked part of \<open>store\<close>: make room for a new key, write, index.\<close>

definition store_locked ::
  "'b backend_ops \<Rightarrow> real \<Rightarrow> 'b cstore \<Rightarrow> pystr \<Rightarrow> compression_entry
    \<Rightarrow> (store_error + pystr) \<times> 'b cstore" where
  "store_locked B now s k entry =
     (let existing = b_get B (backend s) k;
          s1 = (if existing = None
                then (if b_expires_entries B then s else evict_if_needed B now s)
                else mark_heap_entries_stale B s);
          (b', kept) = b_set B (backend s1) k entry;
          s2 = s1\<lparr>backend := b'\<rparr> in
      if kept = Some False then (Inl StorageError, s2)
      else if b_expires_entries B then
        (Inr k,
         if existing = None
         then s2\<lparr>own_totals := (case own_totals s2 of (o1, c1, r1) \<Rightarrow>
                (o1 + original_tokens entry, c1 + compressed_tokens entry, r1))\<rparr>
         else s2)
      else
        let s3 = s2\<lparr>eviction_heap := heappush (created_at entry, k) (eviction_heap s2),
                    expiration_heap := heappush (expiration_time entry, created_at entry, k)
                      (expiration_heap s2)\<rparr> in
        (Inr k, if existing \<noteq> None then rebuild_heap_if_needed B s3 else s3))"

definition store ::
  "'b backend_ops \<Rightarrow> (pystr \<Rightarrow> pystr) \<Rightarrow> real \<Rightarrow> 'b cstore \<Rightarrow> store_args
    \<Rightarrow> (store_error + pystr) \<times> 'b cstore" where
  "store B sha now s a =
     (case hash_key_of sha (a_original a) (a_explicit_hash a) of
        Inl err \<Rightarrow> (Inl err, s)
      | Inr k \<Rightarrow>
          if is_bare_marker (a_original a) then (Inr k, s)
          else
            let entry = entry_of now (default_ttl s) k a;
                s0 = (if enable_feedback s then process_pending_feedback B s else s) in
            store_locked B now s0 k entry)"

section \<open>Reading\<close>

text \<open>Every reader that meets an expired entry deletes it and marks its heap tuples stale.\<close>

definition drop_expired :: "'b backend_ops \<Rightarrow> 'b cstore \<Rightarrow> pystr \<Rightarrow> 'b cstore" where
  "drop_expired B s k =
     mark_heap_entries_stale B (s\<lparr>backend := fst (b_delete B (backend s) k)\<rparr>)"

definition retrieve ::
  "'b backend_ops \<Rightarrow> real \<Rightarrow> 'b cstore \<Rightarrow> pystr \<Rightarrow> pystr option
    \<Rightarrow> compression_entry option \<times> 'b cstore" where
  "retrieve B now s k query =
     (case b_get B (backend s) k of
        None \<Rightarrow> (None, s)
      | Some e \<Rightarrow>
          if is_expired now e
          then (None, drop_expired B s k)
          else
            let e1 = record_access now query e;
                s1 = (if b_expires_entries B
                      then s\<lparr>own_totals := (case own_totals s of (o1, c1, r1) \<Rightarrow> (o1, c1, r1 + 1))\<rparr>
                      else s\<lparr>backend := fst (b_set B (backend s) k e1)\<rparr>);
                s2 = (if enable_feedback s1
                      then log_retrieval now k query (original_item_count e1)
                             (original_item_count e1) (ce_tool_name e1) (u ''full'')
                             (ce_tool_signature_hash e1) s1
                      else s1);
                s3 = (if enable_feedback s2 then process_pending_feedback B s2 else s2) in
            (Some e1, s3))"

text \<open>\<open>get_metadata\<close>: what it reads of a live entry, without touching the counters.\<close>

record metadata =
  md_hash :: pystr
  md_tool_name :: "pystr option"
  md_original_item_count :: int
  md_compressed_item_count :: int
  md_query_context :: "pystr option"
  md_compressed_content :: pystr
  md_original_content_preview :: pystr
  md_created_at :: real
  md_ttl :: int

definition get_metadata ::
  "'b backend_ops \<Rightarrow> real \<Rightarrow> 'b cstore \<Rightarrow> pystr \<Rightarrow> metadata option \<times> 'b cstore" where
  "get_metadata B now s k =
     (case b_get B (backend s) k of
        None \<Rightarrow> (None, s)
      | Some e \<Rightarrow>
          if is_expired now e then (None, drop_expired B s k)
          else (Some \<lparr>md_hash = ce_hash e, md_tool_name = ce_tool_name e,
                 md_original_item_count = original_item_count e,
                 md_compressed_item_count = compressed_item_count e,
                 md_query_context = ce_query_context e,
                 md_compressed_content = compressed_content e,
                 md_original_content_preview = take 2000 (original_content e),
                 md_created_at = created_at e, md_ttl = ce_ttl e\<rparr>, s))"

definition exists_entry ::
  "'b backend_ops \<Rightarrow> real \<Rightarrow> 'b cstore \<Rightarrow> pystr \<Rightarrow> bool \<Rightarrow> bool \<times> 'b cstore" where
  "exists_entry B now s k clean_expired =
     (case b_get B (backend s) k of
        None \<Rightarrow> (False, s)
      | Some e \<Rightarrow>
          if is_expired now e then (False, if clean_expired then drop_expired B s k else s)
          else (True, s))"

datatype entry_status =
    Missing int
  | Status (st_expired: bool) (st_ttl: int) (st_default_ttl: int) (st_created_at: real)
      (st_expires_at: real) (st_age: real)

definition get_entry_status ::
  "'b backend_ops \<Rightarrow> real \<Rightarrow> 'b cstore \<Rightarrow> pystr \<Rightarrow> bool \<Rightarrow> entry_status \<times> 'b cstore" where
  "get_entry_status B now s k clean_expired =
     (case b_get B (backend s) k of
        None \<Rightarrow> (Missing (default_ttl s), s)
      | Some e \<Rightarrow>
          let age = now - created_at e;
              expired = (age > real_of_int (ce_ttl e)) in
          (Status expired (ce_ttl e) (default_ttl s) (created_at e)
             (created_at e + real_of_int (ce_ttl e)) age,
           if expired \<and> clean_expired then drop_expired B s k else s))"

section \<open>Maintenance, statistics, restart\<close>

fun delete_keys_stale :: "'b backend_ops \<Rightarrow> 'b cstore \<Rightarrow> pystr list \<Rightarrow> 'b cstore" where
  "delete_keys_stale B s [] = s"
| "delete_keys_stale B s (k # ks) = delete_keys_stale B (drop_expired B s k) ks"

definition clean_expired :: "'b backend_ops \<Rightarrow> real \<Rightarrow> 'b cstore \<Rightarrow> 'b cstore" where
  "clean_expired B now s =
     (case b_purge_expired B of
        Some purge \<Rightarrow>
          (case purge now (backend s) of (b', n) \<Rightarrow>
             s\<lparr>backend := b', stale_heap_entries := stale_heap_entries s + int n\<rparr>)
      | None \<Rightarrow>
          delete_keys_stale B s
            (map fst (filter (\<lambda>(k, e). is_expired now e) (b_items B (backend s)))))"

text \<open>\<open>get_stats\<close> without the backend's own statistics: entry count, the two token totals,
  retrievals, logged events.\<close>

definition get_stats ::
  "'b backend_ops \<Rightarrow> real \<Rightarrow> 'b cstore \<Rightarrow> (nat \<times> int \<times> int \<times> int \<times> nat) \<times> 'b cstore" where
  "get_stats B now s =
     (if b_expires_entries B then
        (case own_totals s of (o1, c1, r1) \<Rightarrow>
           ((b_count B (backend s), o1, c1, r1, length (retrieval_events s)), s))
      else
        let s1 = clean_expired B now s;
            entries = map snd (b_items B (backend s1)) in
        ((b_count B (backend s1), sum_list (map original_tokens entries),
          sum_list (map compressed_tokens entries), sum_list (map retrieval_count entries),
          length (retrieval_events s1)), s1))"

text \<open>\<open>xs[-limit:]\<close> for an arbitrary Python integer \<open>limit\<close>.\<close>

definition py_last :: "int \<Rightarrow> 'a list \<Rightarrow> 'a list" where
  "py_last limit xs =
     (let start = - limit in
      if start < 0 then drop (nat (max 0 (int (length xs) + start))) xs
      else drop (nat start) xs)"

definition get_retrieval_events ::
  "'b cstore \<Rightarrow> int \<Rightarrow> pystr option \<Rightarrow> retrieval_event list" where
  "get_retrieval_events s limit tool =
     (let evs = (case tool of
                   Some t \<Rightarrow> if t \<noteq> [] then filter (\<lambda>e. ev_tool_name e = Some t) (retrieval_events s)
                            else retrieval_events s
                 | None \<Rightarrow> retrieval_events s) in
      rev (py_last limit evs))"

definition export_entries ::
  "'b backend_ops \<Rightarrow> real \<Rightarrow> 'b cstore \<Rightarrow> pystr list \<Rightarrow> compression_entry list" where
  "export_entries B now s hashes =
     filter (\<lambda>e. \<not> is_expired now e) (List.map_filter (b_get B (backend s)) hashes)"

text \<open>\<open>int(x)\<close> truncates towards zero.\<close>

definition py_trunc :: "real \<Rightarrow> int" where
  "py_trunc x = (if x \<ge> 0 then \<lfloor>x\<rfloor> else \<lceil>x\<rceil>)"

definition import_args :: "real \<Rightarrow> compression_entry \<Rightarrow> store_args" where
  "import_args now e =
     \<lparr>a_original = original_content e, a_compressed = compressed_content e,
      a_original_tokens = original_tokens e, a_compressed_tokens = compressed_tokens e,
      a_original_item_count = original_item_count e,
      a_compressed_item_count = compressed_item_count e,
      a_tool_name = ce_tool_name e, a_tool_call_id = ce_tool_call_id e,
      a_query_context = ce_query_context e, a_tool_signature_hash = ce_tool_signature_hash e,
      a_compression_strategy = ce_compression_strategy e,
      a_ttl = Some (py_trunc (created_at e + real_of_int (ce_ttl e) - now)),
      a_explicit_hash = Some (ce_hash e)\<rparr>"

fun import_entries ::
  "'b backend_ops \<Rightarrow> (pystr \<Rightarrow> pystr) \<Rightarrow> real \<Rightarrow> 'b cstore \<Rightarrow> compression_entry list \<Rightarrow> nat
    \<Rightarrow> (store_error + nat) \<times> 'b cstore" where
  "import_entries B sha now s [] stored = (Inr stored, s)"
| "import_entries B sha now s (e # es) stored =
     (if py_trunc (created_at e + real_of_int (ce_ttl e) - now) \<le> 0
         \<or> fst (exists_entry B now s (ce_hash e) False)
      then import_entries B sha now s es stored
      else (case store B sha now s (import_args now e) of
              (Inl err, s') \<Rightarrow> (Inl err, s')
            | (Inr _, s') \<Rightarrow> import_entries B sha now s' es (Suc stored)))"

definition clear_store :: "'b backend_ops \<Rightarrow> 'b cstore \<Rightarrow> 'b cstore" where
  "clear_store B s =
     s\<lparr>backend := b_clear B (backend s), retrieval_events := [], pending_feedback_events := [],
       eviction_heap := [], expiration_heap := [], stale_heap_entries := 0,
       stale_expiration_heap_entries := 0\<rparr>"

end
