(* ===== verification/Compression_Store_Correct.thy ===== *)
theory Compression_Store_Correct
  imports Compression_Store
begin

text \<open>
  Correctness of \<open>CompressionStore\<close>. The lemmas about eviction, storing and reading are proved
  once for any backend that satisfies \<open>ccr_backend\<close>; the properties of the manifest state them
  for the in-memory backend through the interpretation \<open>mem\<close>.
\<close>

section \<open>Invariants\<close>

definition idx_evict :: "'b backend_ops \<Rightarrow> 'b \<Rightarrow> (real \<times> pystr) list \<Rightarrow> bool" where
  "idx_evict B b h \<longleftrightarrow> (\<forall>k e. b_get B b k = Some e \<longrightarrow> (created_at e, k) \<in> set h)"

definition idx_expire :: "'b backend_ops \<Rightarrow> 'b \<Rightarrow> (real \<times> real \<times> pystr) list \<Rightarrow> bool" where
  "idx_expire B b h \<longleftrightarrow>
     (\<forall>k e. b_get B b k = Some e \<longrightarrow> (expiration_time e, created_at e, k) \<in> set h)"

text \<open>Every stored entry has its tuple in both heaps, both heaps are ordered, and the stale
  counters are not negative.\<close>

definition store_inv :: "'b backend_ops \<Rightarrow> ('b \<Rightarrow> bool) \<Rightarrow> 'b cstore \<Rightarrow> bool" where
  "store_inv B bwf s \<longleftrightarrow>
     bwf (backend s) \<and> idx_evict B (backend s) (eviction_heap s)
     \<and> idx_expire B (backend s) (expiration_heap s)
     \<and> sorted (eviction_heap s) \<and> sorted (expiration_heap s)
     \<and> 0 \<le> stale_heap_entries s \<and> 0 \<le> stale_expiration_heap_entries s"

lemma store_invI [inv_intros]:
  "bwf (backend s) \<Longrightarrow> idx_evict B (backend s) (eviction_heap s) \<Longrightarrow>
   idx_expire B (backend s) (expiration_heap s) \<Longrightarrow> sorted (eviction_heap s) \<Longrightarrow>
   sorted (expiration_heap s) \<Longrightarrow> 0 \<le> stale_heap_entries s \<Longrightarrow>
   0 \<le> stale_expiration_heap_entries s \<Longrightarrow> store_inv B bwf s"
  by (simp add: store_inv_def)

lemma expired_iff: "is_expired now e \<longleftrightarrow> expiration_time e < now"
  by (auto simp: is_expired_def expiration_time_def)

section \<open>Frame facts\<close>

lemma mark_stale_frame [simp]:
  "backend (mark_heap_entries_stale B s) = backend s"
  "max_entries (mark_heap_entries_stale B s) = max_entries s"
  "default_ttl (mark_heap_entries_stale B s) = default_ttl s"
  "enable_feedback (mark_heap_entries_stale B s) = enable_feedback s"
  "eviction_heap (mark_heap_entries_stale B s) = eviction_heap s"
  "expiration_heap (mark_heap_entries_stale B s) = expiration_heap s"
  "pending_feedback_events (mark_heap_entries_stale B s) = pending_feedback_events s"
  "retrieval_events (mark_heap_entries_stale B s) = retrieval_events s"
  "notified (mark_heap_entries_stale B s) = notified s"
  by (simp_all add: mark_heap_entries_stale_def)

lemma record_eviction_success_frame [simp]:
  "backend (record_eviction_success now e s) = backend s"
  "max_entries (record_eviction_success now e s) = max_entries s"
  "default_ttl (record_eviction_success now e s) = default_ttl s"
  "enable_feedback (record_eviction_success now e s) = enable_feedback s"
  "eviction_heap (record_eviction_success now e s) = eviction_heap s"
  "expiration_heap (record_eviction_success now e s) = expiration_heap s"
  "stale_heap_entries (record_eviction_success now e s) = stale_heap_entries s"
  "stale_expiration_heap_entries (record_eviction_success now e s) = stale_expiration_heap_entries s"
  by (simp_all add: record_eviction_success_def)

lemma expire_pop_frame [simp]:
  "max_entries (expire_pop B s x c k en) = max_entries s"
  "default_ttl (expire_pop B s x c k en) = default_ttl s"
  "enable_feedback (expire_pop B s x c k en) = enable_feedback s"
  "eviction_heap (expire_pop B s x c k en) = eviction_heap s"
  "expiration_heap (expire_pop B s x c k en) = expiration_heap s"
  "pending_feedback_events (expire_pop B s x c k en) = pending_feedback_events s"
  by (simp_all add: expire_pop_def)

lemma evict_pop_frame [simp]:
  "max_entries (evict_pop B now s c k) = max_entries s"
  "default_ttl (evict_pop B now s c k) = default_ttl s"
  "enable_feedback (evict_pop B now s c k) = enable_feedback s"
  "eviction_heap (evict_pop B now s c k) = eviction_heap s"
  "expiration_heap (evict_pop B now s c k) = expiration_heap s"
  by (simp_all add: evict_pop_def Let_def split: option.splits)

lemma process_pending_frame [simp]:
  "backend (process_pending_feedback B s) = backend s"
  "max_entries (process_pending_feedback B s) = max_entries s"
  "default_ttl (process_pending_feedback B s) = default_ttl s"
  "enable_feedback (process_pending_feedback B s) = enable_feedback s"
  "eviction_heap (process_pending_feedback B s) = eviction_heap s"
  "expiration_heap (process_pending_feedback B s) = expiration_heap s"
  "stale_heap_entries (process_pending_feedback B s) = stale_heap_entries s"
  "stale_expiration_heap_entries (process_pending_feedback B s) = stale_expiration_heap_entries s"
  "pending_feedback_events (process_pending_feedback B s) = []"
  by (simp_all add: process_pending_feedback_def)

lemma log_retrieval_frame [simp]:
  "backend (log_retrieval now k q i t n r g s) = backend s"
  "max_entries (log_retrieval now k q i t n r g s) = max_entries s"
  "default_ttl (log_retrieval now k q i t n r g s) = default_ttl s"
  "enable_feedback (log_retrieval now k q i t n r g s) = enable_feedback s"
  "eviction_heap (log_retrieval now k q i t n r g s) = eviction_heap s"
  "expiration_heap (log_retrieval now k q i t n r g s) = expiration_heap s"
  "stale_heap_entries (log_retrieval now k q i t n r g s) = stale_heap_entries s"
  "stale_expiration_heap_entries (log_retrieval now k q i t n r g s) = stale_expiration_heap_entries s"
  by (simp_all add: log_retrieval_def Let_def)

lemma rebuild_heap_frame [simp]:
  "backend (rebuild_heap B s) = backend s" "max_entries (rebuild_heap B s) = max_entries s"
  "default_ttl (rebuild_heap B s) = default_ttl s"
  "enable_feedback (rebuild_heap B s) = enable_feedback s"
  "pending_feedback_events (rebuild_heap B s) = pending_feedback_events s"
  by (simp_all add: rebuild_heap_def Let_def)

lemma rebuild_if_needed_frame [simp]:
  "backend (rebuild_heap_if_needed B s) = backend s"
  "max_entries (rebuild_heap_if_needed B s) = max_entries s"
  "default_ttl (rebuild_heap_if_needed B s) = default_ttl s"
  "enable_feedback (rebuild_heap_if_needed B s) = enable_feedback s"
  "pending_feedback_events (rebuild_heap_if_needed B s) = pending_feedback_events s"
  by (simp_all add: rebuild_heap_if_needed_def)

lemma evict_prepare_frame:
  "evict_prepare B s = (c, s1) \<Longrightarrow>
   backend s1 = backend s \<and> max_entries s1 = max_entries s \<and> default_ttl s1 = default_ttl s
   \<and> enable_feedback s1 = enable_feedback s
   \<and> c = (int (b_count B (backend s)) \<ge> max_entries s)"
  by (auto simp: evict_prepare_def Let_def split: if_splits)

text \<open>The four ways an iteration of the first loop can go.\<close>

lemma expire_loop_Cons_cases:
  assumes "expire_loop B now c s ((x, c0, k0) # h) = (r, s')"
  obtains (fresh) "now \<le> x" "\<not> r" "s' = s\<lparr>expiration_heap := (x, c0, k0) # h\<rparr>"
  | (orphan) "x < now" "c" "b_get B (backend s) k0 = None" "r"
      "s' = s\<lparr>expiration_heap := (x, c0, k0) # h\<rparr>"
  | (stop) s2 where "x < now" "r" "s' = s2" "c \<longrightarrow> b_get B (backend s) k0 \<noteq> None"
      "\<not> c \<or> int (b_count B (backend s')) < max_entries s"
      "s2 = expire_pop B (s\<lparr>expiration_heap := h\<rparr>) x c0 k0 (b_get B (backend s) k0)"
  | (more) s2 where "x < now" "c" "b_get B (backend s) k0 \<noteq> None"
      "expire_loop B now c s2 h = (r, s')" "max_entries s \<le> int (b_count B (backend s2))"
      "s2 = expire_pop B (s\<lparr>expiration_heap := h\<rparr>) x c0 k0 (b_get B (backend s) k0)"
  using assms by (auto simp: Let_def split: if_splits)

lemma expire_loop_frame:
  "expire_loop B now c s h = (r, s') \<Longrightarrow>
   eviction_heap s' = eviction_heap s \<and> max_entries s' = max_entries s
   \<and> default_ttl s' = default_ttl s \<and> enable_feedback s' = enable_feedback s"
proof (induction h arbitrary: s)
  case (Cons t h)
  obtain x c0 k0 where t: "t = (x, c0, k0)" by (cases t) auto
  from Cons.prems [unfolded t] show ?case
  proof (cases rule: expire_loop_Cons_cases)
    case (more s2)
    from Cons.IH [OF more(4)] more(6) show ?thesis by simp
  qed auto
qed auto

lemma evict_loop_frame [simp]:
  "max_entries (evict_loop B now s h) = max_entries s"
  "default_ttl (evict_loop B now s h) = default_ttl s"
  "enable_feedback (evict_loop B now s h) = enable_feedback s"
  "expiration_heap (evict_loop B now s h) = expiration_heap s"
  by (induction B now s h rule: evict_loop.induct) auto

lemma evict_if_needed_frame [simp]:
  "max_entries (evict_if_needed B now s) = max_entries s"
  "default_ttl (evict_if_needed B now s) = default_ttl s"
  "enable_feedback (evict_if_needed B now s) = enable_feedback s"
  by (auto simp: evict_if_needed_def split: prod.splits
      dest!: evict_prepare_frame expire_loop_frame)

text \<open>Writing an entry and pushing its two heap tuples.\<close>

definition pushed :: "'b cstore \<Rightarrow> 'b \<Rightarrow> pystr \<Rightarrow> compression_entry \<Rightarrow> 'b cstore" where
  "pushed s b k entry =
     s\<lparr>backend := b, eviction_heap := heappush (created_at entry, k) (eviction_heap s),
       expiration_heap := heappush (expiration_time entry, created_at entry, k) (expiration_heap s)\<rparr>"

lemma store_locked_plain:
  assumes "\<not> b_expires_entries B"
    and "s1 = (if b_get B (backend s) k = None then evict_if_needed B now s
               else mark_heap_entries_stale B s)"
    and "b_set B (backend s1) k entry = (b', kp)"
  shows "store_locked B now s k entry =
    (if kp = Some False then (Inl StorageError, s1\<lparr>backend := b'\<rparr>)
     else (Inr k, if b_get B (backend s) k \<noteq> None then rebuild_heap_if_needed B (pushed s1 b' k entry)
                  else pushed s1 b' k entry))"
  using assms(1,3) unfolding assms(2)
  by (cases "b_get B (backend s) k") (simp_all add: store_locked_def pushed_def Let_def)

section \<open>The eviction loops over a lawful backend\<close>

context ccr_backend
begin

lemma wf_expire_pop: "bwf (backend s) \<Longrightarrow> bwf (backend (expire_pop B s x c k en))"
  by (simp add: expire_pop_def wf_delete)

lemma get_expire_pop:
  "bwf (backend s) \<Longrightarrow>
   b_get B (backend (expire_pop B (s\<lparr>expiration_heap := h\<rparr>) x c k (b_get B (backend s) k))) =
     (if \<exists>e. b_get B (backend s) k = Some e \<and> created_at e = c \<and> expiration_time e = x
      then (b_get B (backend s))(k := None) else b_get B (backend s))"
  by (auto simp: expire_pop_def get_delete split: option.splits)

lemma wf_evict_pop: "bwf (backend s) \<Longrightarrow> bwf (backend (evict_pop B now s c k))"
  by (auto simp: evict_pop_def Let_def wf_delete split: option.splits)

lemma get_evict_pop:
  "bwf (backend s) \<Longrightarrow>
   b_get B (backend (evict_pop B now (s\<lparr>eviction_heap := h\<rparr>) c k)) =
     (if \<exists>e. b_get B (backend s) k = Some e \<and> created_at e = c
      then (b_get B (backend s))(k := None) else b_get B (backend s))"
  by (auto simp: evict_pop_def Let_def get_delete split: option.splits)

lemma idx_expire_pop:
  assumes "bwf (backend s)" and "idx_expire B (backend s) ((x, c, k) # h)"
  shows "idx_expire B (backend (expire_pop B (s\<lparr>expiration_heap := h\<rparr>) x c k (b_get B (backend s) k))) h"
  using assms get_expire_pop [of s h x c k]
  by (auto simp: idx_expire_def split: if_splits)

lemma idx_evict_pop:
  assumes "bwf (backend s)" and "idx_evict B (backend s) ((c, k) # h)"
  shows "idx_evict B (backend (evict_pop B now (s\<lparr>eviction_heap := h\<rparr>) c k)) h"
  using assms get_evict_pop [of s now h c k]
  by (auto simp: idx_evict_def split: if_splits)

lemma wf_expire_loop:
  "expire_loop B now c s h = (r, s') \<Longrightarrow> bwf (backend s) \<Longrightarrow> bwf (backend s')"
proof (induction h arbitrary: s)
  case (Cons t h)
  obtain x c0 k0 where t: "t = (x, c0, k0)" by (cases t) auto
  from Cons.prems(1) [unfolded t] show ?case
    by (cases rule: expire_loop_Cons_cases) (use Cons in \<open>auto simp: wf_expire_pop\<close>)
qed auto

lemma get_expire_loop_aux:
  assumes "expire_loop B now c s h = (r, s')" and "bwf (backend s)"
  shows "b_get B (backend s') \<subseteq>\<^sub>m b_get B (backend s) \<and>
    (\<forall>k e. b_get B (backend s) k = Some e \<longrightarrow> b_get B (backend s') k = None \<longrightarrow> is_expired now e)"
  using assms
proof (induction h arbitrary: s)
  case (Cons t h)
  obtain x c0 k0 where t: "t = (x, c0, k0)" by (cases t) auto
  note g = get_expire_pop [OF Cons.prems(2), of h x c0 k0]
  from Cons.prems(1) [unfolded t] show ?case
  proof (cases rule: expire_loop_Cons_cases)
    case (stop s2)
    with g show ?thesis by (auto simp: expired_iff map_le_def split: if_splits)
  next
    case (more s2)
    have "bwf (backend s2)" using Cons.prems(2) more(6) by (simp add: wf_expire_pop)
    from Cons.IH [OF more(4) this] g more(1,6) show ?thesis
      by (auto simp: expired_iff map_le_def dom_def split: if_splits)
        (metis domI option.distinct(1) option.sel fun_upd_apply)+
  qed auto
qed auto

lemmas get_expire_loop_le = get_expire_loop_aux [THEN conjunct1]

lemma expire_loop_only_expired:
  "expire_loop B now c s h = (r, s') \<Longrightarrow> bwf (backend s) \<Longrightarrow> b_get B (backend s) k = Some e \<Longrightarrow>
   b_get B (backend s') k = None \<Longrightarrow> is_expired now e"
  using get_expire_loop_aux by blast

lemma expire_loop_idx:
  "expire_loop B now c s h = (r, s') \<Longrightarrow> bwf (backend s) \<Longrightarrow> sorted h \<Longrightarrow>
   idx_expire B (backend s) h \<Longrightarrow>
   idx_expire B (backend s') (expiration_heap s') \<and> sorted (expiration_heap s')"
proof (induction h arbitrary: s)
  case (Cons t h)
  obtain x c0 k0 where t: "t = (x, c0, k0)" by (cases t) auto
  note i = idx_expire_pop [OF Cons.prems(2), of x c0 k0 h] Cons.prems(3,4)
  from Cons.prems(1) [unfolded t] show ?case
  proof (cases rule: expire_loop_Cons_cases)
    case (more s2)
    with Cons.prems(2) i t show ?thesis
      by (intro Cons.IH [OF more(4)]) (auto simp: wf_expire_pop)
  qed (use i t in auto)
qed auto

lemma idx_evict_mono:
  "b_get B b' \<subseteq>\<^sub>m b_get B b \<Longrightarrow> idx_evict B b h \<Longrightarrow> idx_evict B b' h"
  unfolding idx_evict_def map_le_def by (metis domI)

lemma idx_expire_mono:
  "b_get B b' \<subseteq>\<^sub>m b_get B b \<Longrightarrow> idx_expire B b h \<Longrightarrow> idx_expire B b' h"
  unfolding idx_expire_def map_le_def by (metis domI)

lemma wf_evict_loop: "bwf (backend s) \<Longrightarrow> bwf (backend (evict_loop B now s h))"
  by (induction h arbitrary: s) (auto simp: wf_evict_pop)

lemma get_evict_loop_le:
  "bwf (backend s) \<Longrightarrow> b_get B (backend (evict_loop B now s h)) \<subseteq>\<^sub>m b_get B (backend s)"
proof (induction h arbitrary: s)
  case (Cons t h)
  obtain c k where t: "t = (c, k)" by (cases t)
  let ?s2 = "evict_pop B now (s\<lparr>eviction_heap := h\<rparr>) c k"
  have "b_get B (backend (evict_loop B now ?s2 h)) \<subseteq>\<^sub>m b_get B (backend ?s2)"
    using Cons by (simp add: wf_evict_pop)
  also have "b_get B (backend ?s2) \<subseteq>\<^sub>m b_get B (backend s)"
    using get_evict_pop [OF Cons.prems, of now h c k] by (auto simp: map_le_def)
  finally show ?case by (simp add: t)
qed auto

lemma evict_loop_idx:
  "bwf (backend s) \<Longrightarrow> sorted h \<Longrightarrow> idx_evict B (backend s) h \<Longrightarrow>
   idx_evict B (backend (evict_loop B now s h)) (eviction_heap (evict_loop B now s h))
   \<and> sorted (eviction_heap (evict_loop B now s h))"
proof (induction h arbitrary: s)
  case (Cons t h)
  obtain c k where t: "t = (c, k)" by (cases t)
  let ?s2 = "evict_pop B now (s\<lparr>eviction_heap := h\<rparr>) c k"
  have "bwf (backend ?s2)" "idx_evict B (backend ?s2) h" "sorted h"
    using Cons.prems by (simp_all add: t wf_evict_pop idx_evict_pop)
  from Cons.IH [OF this(1,3,2)] Cons.prems show ?case by (simp add: t)
qed auto

text \<open>With every live entry indexed, the second loop ends below capacity.\<close>

lemma evict_loop_makes_room:
  assumes "bwf (backend s)" and "idx_evict B (backend s) h" and "0 < max_entries s"
  shows "int (b_count B (backend (evict_loop B now s h))) < max_entries s"
  using assms
proof (induction h arbitrary: s)
  case Nil
  then have "b_get B (backend s) = Map.empty" by (auto simp: idx_evict_def)
  with Nil show ?case by (simp add: count_dom)
next
  case (Cons t h)
  obtain c k where t: "t = (c, k)" by (cases t)
  let ?s2 = "evict_pop B now (s\<lparr>eviction_heap := h\<rparr>) c k"
  have "int (b_count B (backend (evict_loop B now ?s2 h))) < max_entries ?s2"
    using Cons.prems by (intro Cons.IH) (auto simp: t wf_evict_pop idx_evict_pop)
  then show ?case by (auto simp: t)
qed

text \<open>What the second loop removed is at least as old as anything it kept.\<close>

lemma evict_loop_oldest:
  assumes "bwf (backend s)" and "sorted h" and "idx_evict B (backend s) h"
    and "b_get B (backend s) k1 = Some e1" and "b_get B (backend (evict_loop B now s h)) k1 = None"
    and "b_get B (backend (evict_loop B now s h)) k2 = Some e2"
  shows "created_at e1 \<le> created_at e2"
  using assms
proof (induction h arbitrary: s)
  case (Cons t h)
  obtain c k where t: "t = (c, k)" by (cases t)
  let ?s2 = "evict_pop B now (s\<lparr>eviction_heap := h\<rparr>) c k"
  show ?case
  proof (cases "int (b_count B (backend s)) \<ge> max_entries s")
    case True
    note g = get_evict_pop [OF Cons.prems(1), of now h c k]
    have w: "bwf (backend ?s2)" using Cons.prems(1) by (simp add: wf_evict_pop)
    have l: "evict_loop B now s (t # h) = evict_loop B now ?s2 h" using True by (simp add: t)
    have i: "idx_evict B (backend ?s2) h"
      using idx_evict_pop Cons.prems(1,3) by (simp add: t)
    have e2: "b_get B (backend ?s2) k2 = Some e2"
      using get_evict_loop_le [OF w] Cons.prems(6) unfolding l map_le_def by (metis domI)
    show ?thesis
    proof (cases "b_get B (backend ?s2) k1")
      case None
      with g Cons.prems(4) have "created_at e1 = c" by (auto split: if_splits)
      moreover have "(created_at e2, k2) \<in> set h" using i e2 by (auto simp: idx_evict_def)
      ultimately show ?thesis using Cons.prems(2) by (fastforce simp: t less_eq_prod_def)
    next
      case (Some e)
      then have "e = e1" using g Cons.prems(4) by (auto split: if_splits)
      with Some Cons.prems(2,5,6) w i show ?thesis by (intro Cons.IH [of ?s2]) (auto simp: l)
    qed
  qed (use Cons.prems in \<open>simp add: t\<close>)
qed simp

lemma count_mono:
  "bwf b \<Longrightarrow> bwf b' \<Longrightarrow> b_get B b' \<subseteq>\<^sub>m b_get B b \<Longrightarrow> b_count B b' \<le> b_count B b"
  by (simp add: count_dom card_mono finite_dom_get map_le_implies_dom_le)

lemma rebuild_heap_inv: "bwf (backend s) \<Longrightarrow> store_inv B bwf (rebuild_heap B s)"
  by (rule inv_intros)
    (auto simp: rebuild_heap_def Let_def idx_evict_def idx_expire_def in_items_iff [symmetric]
      image_iff intro: bexI [rotated])

lemma rebuild_if_needed_inv:
  "store_inv B bwf s \<Longrightarrow> store_inv B bwf (rebuild_heap_if_needed B s)"
  using rebuild_heap_inv by (auto simp: rebuild_heap_if_needed_def store_inv_def)

lemma store_inv_revision [simp]:
  "store_inv B bwf (s\<lparr>backend_revision := r\<rparr>) = store_inv B bwf s"
  by (simp add: store_inv_def)

lemma evict_prepare_inv:
  "evict_prepare B s = (c, s1) \<Longrightarrow> store_inv B bwf s \<Longrightarrow> store_inv B bwf s1"
  using rebuild_heap_inv [of s] rebuild_if_needed_inv [of s]
  by (auto simp: evict_prepare_def Let_def store_inv_def [of B bwf s] split: if_splits)

lemma expire_loop_stale:
  "expire_loop B now c s h = (r, s') \<Longrightarrow> 0 \<le> stale_heap_entries s \<Longrightarrow>
   0 \<le> stale_expiration_heap_entries s \<Longrightarrow>
   0 \<le> stale_heap_entries s' \<and> 0 \<le> stale_expiration_heap_entries s'"
proof (induction h arbitrary: s)
  case (Cons t h)
  obtain x c0 k0 where t: "t = (x, c0, k0)" by (cases t) auto
  from Cons.prems(1) [unfolded t] show ?case
  proof (cases rule: expire_loop_Cons_cases)
    case (more s2)
    then show ?thesis
      using Cons.prems by (intro Cons.IH [OF more(4)]) (auto simp: expire_pop_def)
  qed (use Cons.prems in \<open>auto simp: expire_pop_def\<close>)
qed auto

lemma expire_loop_inv:
  assumes "expire_loop B now c s (expiration_heap s) = (r, s')" and "store_inv B bwf s"
  shows "store_inv B bwf s'"
  using assms expire_loop_frame [OF assms(1)] expire_loop_idx [OF assms(1)]
    expire_loop_stale [OF assms(1)] wf_expire_loop [OF assms(1)] get_expire_loop_le [OF assms(1)]
  by (auto simp: store_inv_def intro: idx_evict_mono)

lemma evict_pop_stale:
  "0 \<le> stale_heap_entries s \<Longrightarrow> 0 \<le> stale_expiration_heap_entries s \<Longrightarrow>
   0 \<le> stale_heap_entries (evict_pop B now s c k)
   \<and> 0 \<le> stale_expiration_heap_entries (evict_pop B now s c k)"
  by (auto simp: evict_pop_def Let_def split: option.splits)

lemma evict_loop_stale:
  assumes "0 \<le> stale_heap_entries s" and "0 \<le> stale_expiration_heap_entries s"
  shows "0 \<le> stale_heap_entries (evict_loop B now s h)
    \<and> 0 \<le> stale_expiration_heap_entries (evict_loop B now s h)"
  using assms
proof (induction h arbitrary: s)
  case (Cons t h)
  then show ?case by (cases t) (simp add: evict_pop_stale)
qed simp

lemma evict_loop_inv:
  assumes "store_inv B bwf s"
  shows "store_inv B bwf (evict_loop B now s (eviction_heap s))"
  using assms evict_loop_idx [of s "eviction_heap s" now] evict_loop_stale [of s now]
    wf_evict_loop [of s] get_evict_loop_le [of s now "eviction_heap s"]
  by (auto simp: store_inv_def intro: idx_expire_mono)

lemma evict_if_needed_inv:
  assumes "store_inv B bwf s"
  shows "store_inv B bwf (evict_if_needed B now s)"
  using assms by (auto simp: evict_if_needed_def split: prod.splits
      intro!: evict_loop_inv dest: evict_prepare_inv expire_loop_inv)

lemma get_evict_le:
  assumes "bwf (backend s)"
  shows "b_get B (backend (evict_if_needed B now s)) \<subseteq>\<^sub>m b_get B (backend s)"
proof -
  obtain c s1 where p: "evict_prepare B s = (c, s1)" by (cases "evict_prepare B s")
  obtain r s2 where l: "expire_loop B now c s1 (expiration_heap s1) = (r, s2)"
    by (cases "expire_loop B now c s1 (expiration_heap s1)")
  have b: "backend s1 = backend s" using evict_prepare_frame [OF p] by simp
  have w: "bwf (backend s2)" and le: "b_get B (backend s2) \<subseteq>\<^sub>m b_get B (backend s)"
    using wf_expire_loop [OF l] get_expire_loop_le [OF l] assms b by simp_all
  show ?thesis
    using le get_evict_loop_le [OF w, of now "eviction_heap s2"]
    by (auto simp: evict_if_needed_def p l intro: map_le_trans)
qed

text \<open>Below capacity only expired entries go; at capacity a surviving entry outlives every live
  one that was evicted.\<close>

lemma evict_below_capacity_keeps_live:
  assumes "bwf (backend s)" and "int (b_count B (backend s)) < max_entries s"
    and "b_get B (backend s) k = Some e" and "\<not> is_expired now e"
  shows "b_get B (backend (evict_if_needed B now s)) k = Some e"
proof -
  obtain c s1 where p: "evict_prepare B s = (c, s1)" by (cases "evict_prepare B s")
  obtain r s2 where l: "expire_loop B now c s1 (expiration_heap s1) = (r, s2)"
    by (cases "expire_loop B now c s1 (expiration_heap s1)")
  have f: "backend s1 = backend s" "\<not> c" using evict_prepare_frame [OF p] assms(2) by simp_all
  have "b_get B (backend s2) k \<noteq> None"
    using expire_loop_only_expired [OF l] assms f by auto
  then have "b_get B (backend s2) k = Some e"
    using get_expire_loop_le [OF l] assms f by (auto simp: map_le_def) (metis domI option.inject)
  then show ?thesis using l f(2) by (simp add: evict_if_needed_def p)
qed

lemma evict_oldest_first:
  assumes inv: "store_inv B bwf s"
    and "b_get B (backend s) k1 = Some e1" and "\<not> is_expired now e1"
    and "b_get B (backend (evict_if_needed B now s)) k1 = None"
    and "b_get B (backend (evict_if_needed B now s)) k2 = Some e2"
  shows "created_at e1 \<le> created_at e2"
proof -
  obtain c s1 where p: "evict_prepare B s = (c, s1)" by (cases "evict_prepare B s")
  obtain r s2 where l: "expire_loop B now c s1 (expiration_heap s1) = (r, s2)"
    by (cases "expire_loop B now c s1 (expiration_heap s1)")
  have i2: "store_inv B bwf s2"
    using expire_loop_inv [OF l] evict_prepare_inv [OF p inv] by simp
  have w: "bwf (backend s)" using inv by (simp add: store_inv_def)
  have b: "backend s1 = backend s" using evict_prepare_frame [OF p] by simp
  have k1: "b_get B (backend s2) k1 = Some e1"
    using expire_loop_only_expired [OF l] get_expire_loop_le [OF l] assms(2,3) w b
    by (auto simp: map_le_def) (metis domI option.exhaust)
  have e: "evict_if_needed B now s = evict_loop B now s2 (eviction_heap s2)"
    using assms(4) k1 by (auto simp: evict_if_needed_def p l split: if_splits)
  show ?thesis
    using evict_loop_oldest [of s2 "eviction_heap s2" k1 e1 now k2 e2] i2 k1 assms(4,5)
    by (simp add: e store_inv_def)
qed

text \<open>
  An expired tuple whose entry is gone stops the first loop at capacity without making room.
  Where there is none, eviction leaves space for one more entry.
\<close>

lemma expire_loop_makes_room:
  assumes "expire_loop B now c s h = (r, s')" and "r" and "c" and "bwf (backend s)"
    and "int (b_count B (backend s)) \<le> max_entries s"
    and "\<forall>(x, c0, k) \<in> set h. x < now \<longrightarrow> b_get B (backend s) k \<noteq> None"
  shows "int (b_count B (backend s')) < max_entries s"
  using assms
proof (induction h arbitrary: s)
  case (Cons t h)
  obtain x c0 k0 where t: "t = (x, c0, k0)" by (cases t) auto
  from Cons.prems(1) [unfolded t] show ?case
  proof (cases rule: expire_loop_Cons_cases)
    case (more s2)
    have "\<not> (\<exists>e. b_get B (backend s) k0 = Some e \<and> created_at e = c0 \<and> expiration_time e = x)"
    proof
      assume "\<exists>e. b_get B (backend s) k0 = Some e \<and> created_at e = c0 \<and> expiration_time e = x"
      then obtain e where e: "b_get B (backend s) k0 = Some e" and "backend s2 = fst (b_delete B (backend s) k0)"
        by (auto simp: more(6) expire_pop_def)
      with count_delete_present [OF Cons.prems(4) e] Cons.prems(5) more(5) show False by simp
    qed
    then have b: "backend s2 = backend s" by (auto simp: more(6) expire_pop_def split: option.splits)
    have m: "max_entries s2 = max_entries s" by (simp add: more(6))
    from Cons.prems(6) have "\<forall>(x, c0, k) \<in> set h. x < now \<longrightarrow> b_get B (backend s) k \<noteq> None"
      by simp
    with Cons.IH [OF more(4) Cons.prems(2,3)] Cons.prems(4,5) show ?thesis by (simp add: b m)
  qed (use Cons.prems t in auto)
qed auto

lemma evict_prepare_no_orphans:
  assumes "evict_prepare B s = (c, s1)" and "bwf (backend s)"
    and "\<forall>(x, c0, k) \<in> set (expiration_heap s). x < now \<longrightarrow> b_get B (backend s) k \<noteq> None"
  shows "\<forall>(x, c0, k) \<in> set (expiration_heap s1). x < now \<longrightarrow> b_get B (backend s1) k \<noteq> None"
proof -
  have "\<forall>(x, c0, k) \<in> set (expiration_heap (rebuild_heap B s)). b_get B (backend s) k \<noteq> None"
    by (auto simp: rebuild_heap_def Let_def in_items_iff [OF assms(2)])
  with assms show ?thesis
    by (auto simp: evict_prepare_def Let_def rebuild_heap_if_needed_def split: if_splits)
qed

lemma evict_makes_room:
  assumes inv: "store_inv B bwf s" and "0 < max_entries s"
    and cap: "int (b_count B (backend s)) \<le> max_entries s"
    and orph: "\<forall>(x, c0, k) \<in> set (expiration_heap s). x < now \<longrightarrow> b_get B (backend s) k \<noteq> None"
  shows "int (b_count B (backend (evict_if_needed B now s))) < max_entries s"
proof -
  obtain c s1 where p: "evict_prepare B s = (c, s1)" by (cases "evict_prepare B s")
  obtain r s2 where l: "expire_loop B now c s1 (expiration_heap s1) = (r, s2)"
    by (cases "expire_loop B now c s1 (expiration_heap s1)")
  note f = evict_prepare_frame [OF p] expire_loop_frame [OF l]
  have m: "max_entries s1 = max_entries s" "max_entries s2 = max_entries s" using f by simp_all
  have w: "bwf (backend s)" using inv by (simp add: store_inv_def)
  show ?thesis
  proof (cases c)
    case True
    show ?thesis
    proof (cases r)
      case rT: True
      have "int (b_count B (backend s2)) < max_entries s1"
        using expire_loop_makes_room [OF l rT True] f w cap evict_prepare_no_orphans [OF p w orph]
        by simp
      then show ?thesis by (simp add: evict_if_needed_def p l rT m)
    next
      case False
      have i2: "store_inv B bwf s2" using expire_loop_inv [OF l] evict_prepare_inv [OF p inv] .
      then have "int (b_count B (backend (evict_loop B now s2 (eviction_heap s2)))) < max_entries s2"
        using f assms(2) by (intro evict_loop_makes_room) (auto simp: store_inv_def)
      then show ?thesis using l True False by (simp add: evict_if_needed_def p m)
    qed
  next
    case False
    then have "int (b_count B (backend s)) < max_entries s" using f by simp
    moreover have "b_count B (backend s2) \<le> b_count B (backend s)"
      using count_mono get_expire_loop_le [OF l] wf_expire_loop [OF l] w f by auto
    ultimately show ?thesis using l False by (simp add: evict_if_needed_def p)
  qed
qed

section \<open>Storing and reading over a lawful backend\<close>

lemma store_locked_cases:
  assumes inv: "store_inv B bwf s" and nx: "\<not> b_expires_entries B"
    and res: "store_locked B now s k entry = (res, s')"
  obtains (refused) b1 where "res = Inl StorageError" "snd (b_set B b1 k entry) = Some False"
  | (kept) b1 where "res = Inr k" "store_inv B bwf s'"
      "b1 = backend (if b_get B (backend s) k = None then evict_if_needed B now s else s)"
      "b_get B (backend s') = (b_get B b1)(k \<mapsto> entry)"
      "max_entries s' = max_entries s" "b_count B (backend s') \<le> Suc (b_count B b1)"
      "b_get B (backend s) k \<noteq> None \<Longrightarrow> b_count B (backend s') = b_count B (backend s)"
proof -
  define s1 where "s1 = (if b_get B (backend s) k = None then evict_if_needed B now s
    else mark_heap_entries_stale B s)"
  obtain b' kp where bs: "b_set B (backend s1) k entry = (b', kp)"
    by (cases "b_set B (backend s1) k entry")
  note pl = store_locked_plain [OF nx s1_def bs]
  have i1: "store_inv B bwf s1"
    using inv evict_if_needed_inv [OF inv]
    by (auto simp: s1_def store_inv_def mark_heap_entries_stale_def)
  then have w1: "bwf (backend s1)" by (simp add: store_inv_def)
  have w': "bwf b'" using wf_set [OF w1, of k entry] bs by simp
  show ?thesis
  proof (cases "kp = Some False")
    case True
    then show ?thesis using res bs by (intro refused [of "backend s1"]) (simp_all add: pl)
  next
    case False
    have g: "b_get B b' = (b_get B (backend s1))(k \<mapsto> entry)" by (rule get_set [OF w1 bs False])
    have i3: "store_inv B bwf (pushed s1 b' k entry)"
      using i1 w' by (auto simp: store_inv_def pushed_def idx_evict_def idx_expire_def g)
    have s': "res = Inr k" "s' = (if b_get B (backend s) k \<noteq> None
        then rebuild_heap_if_needed B (pushed s1 b' k entry) else pushed s1 b' k entry)"
      using res False by (simp_all add: pl)
    have "backend s' = b'" "max_entries s' = max_entries s" "store_inv B bwf s'"
      using i3 rebuild_if_needed_inv [OF i3] by (auto simp: s' pushed_def s1_def)
    moreover have "b_count B b' \<le> Suc (b_count B (backend s1))"
      by (rule count_set_le [OF w1 bs False])
    moreover have "b_get B (backend s) k \<noteq> None \<Longrightarrow> b_count B b' = b_count B (backend s)"
      using count_set_present [OF w1 bs False] by (auto simp: s1_def)
    ultimately show ?thesis using s' g
      by (intro kept [of "backend s1"]) (auto simp: s1_def)
  qed
qed

lemma store_inv_feedback:
  "store_inv B bwf s \<Longrightarrow> store_inv B bwf (if fb then process_pending_feedback B s else s)"
  by (simp add: store_inv_def)

lemma store_preserves_inv:
  assumes inv: "store_inv B bwf s" and nx: "\<not> b_expires_entries B"
    and acc: "\<And>b k e. snd (b_set B b k e) \<noteq> Some False"
  shows "store_inv B bwf (snd (store B sha now s a))"
proof (cases "hash_key_of sha (a_original a) (a_explicit_hash a)")
  case (Inr k)
  let ?s0 = "if enable_feedback s then process_pending_feedback B s else s"
  obtain res s' where r: "store_locked B now ?s0 k (entry_of now (default_ttl s) k a) = (res, s')"
    by (cases "store_locked B now ?s0 k (entry_of now (default_ttl s) k a)")
  have "store_inv B bwf s'"
    using store_inv_feedback [OF inv] nx r by (cases rule: store_locked_cases) (use acc in auto)
  with inv Inr r show ?thesis by (simp add: store_def Let_def split: if_splits)
qed (use inv in \<open>simp add: store_def\<close>)

lemma drop_expired_inv: "store_inv B bwf s \<Longrightarrow> store_inv B bwf (drop_expired B s k)"
  by (auto simp: store_inv_def drop_expired_def mark_heap_entries_stale_def wf_delete get_delete
      idx_evict_def idx_expire_def)

lemma get_drop_expired [simp]:
  "bwf (backend s) \<Longrightarrow> b_get B (backend (drop_expired B s k)) = (b_get B (backend s))(k := None)"
  by (simp add: drop_expired_def get_delete)

lemma retrieve_preserves_inv:
  assumes inv: "store_inv B bwf s" and acc: "\<And>b k e. snd (b_set B b k e) \<noteq> Some False"
  shows "store_inv B bwf (snd (retrieve B now s k q))"
proof (cases "b_get B (backend s) k")
  case (Some e)
  let ?e = "record_access now q e"
  have w: "bwf (backend s)" using inv by (simp add: store_inv_def)
  obtain b' r where bs: "b_set B (backend s) k ?e = (b', r)" by (cases "b_set B (backend s) k ?e")
  have g: "b_get B b' = (b_get B (backend s))(k \<mapsto> ?e)"
    using get_set [OF w bs] acc [of "backend s" k ?e] bs by simp
  have w': "bwf b'" using wf_set [OF w, of k ?e] bs by simp
  have i: "store_inv B bwf (s\<lparr>backend := b'\<rparr>)"
    using inv Some w' by (auto simp: store_inv_def idx_evict_def idx_expire_def g expiration_time_def)
  have "store_inv B bwf (s\<lparr>own_totals := z\<rparr>)" for z using inv by (simp add: store_inv_def)
  with i show ?thesis
    using Some inv drop_expired_inv [OF inv] bs
    by (simp add: retrieve_def Let_def) (simp add: store_inv_def)
qed (simp add: retrieve_def inv)

lemma delete_keys_stale_inv:
  "store_inv B bwf s \<Longrightarrow> store_inv B bwf (delete_keys_stale B s ks)"
  by (induction ks arbitrary: s) (auto simp: drop_expired_inv)

lemma clean_expired_inv:
  "b_purge_expired B = None \<Longrightarrow> store_inv B bwf s \<Longrightarrow> store_inv B bwf (clean_expired B now s)"
  by (simp add: clean_expired_def delete_keys_stale_inv)

lemma import_entries_inv:
  assumes "\<not> b_expires_entries B" and "\<And>b k e. snd (b_set B b k e) \<noteq> Some False"
  shows "store_inv B bwf s \<Longrightarrow> store_inv B bwf (snd (import_entries B sha now s es n))"
proof (induction es arbitrary: s n)
  case (Cons e es)
  obtain r s' where st: "store B sha now s (import_args now e) = (r, s')"
    by (cases "store B sha now s (import_args now e)")
  have "store_inv B bwf s'"
    using store_preserves_inv [OF Cons.prems assms, of sha now "import_args now e"] st by simp
  with Cons st show ?case by (cases r) auto
qed simp

lemma clear_store_inv: "store_inv B bwf (clear_store B s)"
  by (auto simp: store_inv_def clear_store_def wf_clear get_clear idx_evict_def idx_expire_def)

end

section \<open>Runs of the store over the in-memory backend\<close>

datatype store_op =
    OpStore store_args | OpRetrieve pystr "pystr option" | OpMetadata pystr
  | OpExists pystr bool | OpStatus pystr bool | OpStats | OpImport "compression_entry list"
  | OpFeedback | OpClear

fun apply_op ::
  "'b backend_ops \<Rightarrow> (pystr \<Rightarrow> pystr) \<Rightarrow> real \<Rightarrow> 'b cstore \<Rightarrow> store_op \<Rightarrow> 'b cstore" where
  "apply_op B sha now s (OpStore a) = snd (store B sha now s a)"
| "apply_op B sha now s (OpRetrieve k q) = snd (retrieve B now s k q)"
| "apply_op B sha now s (OpMetadata k) = snd (get_metadata B now s k)"
| "apply_op B sha now s (OpExists k c) = snd (exists_entry B now s k c)"
| "apply_op B sha now s (OpStatus k c) = snd (get_entry_status B now s k c)"
| "apply_op B sha now s OpStats = snd (get_stats B now s)"
| "apply_op B sha now s (OpImport es) = snd (import_entries B sha now s es 0)"
| "apply_op B sha now s OpFeedback = process_pending_feedback B s"
| "apply_op B sha now s OpClear = clear_store B s"

text \<open>Any interleaving of the public methods, at any sequence of clock values (the clock may even
  step back).\<close>

inductive reachable_store :: "(pystr \<Rightarrow> pystr) \<Rightarrow> mem_store cstore \<Rightarrow> bool" for sha where
  start: "reachable_store sha (new_store memory_ops [] mx ttl fb)"
| step: "reachable_store sha s \<Longrightarrow> reachable_store sha (apply_op memory_ops sha now s op)"

lemma mem_set_accepts [simp]: "snd (mem_set b k e) \<noteq> Some False"
  by (simp add: mem_set_def)

lemma mem_accepts: "snd (b_set memory_ops b k e) \<noteq> Some False"
  by simp

lemma apply_op_inv:
  assumes inv: "store_inv memory_ops mem_wf s"
  shows "store_inv memory_ops mem_wf (apply_op memory_ops sha now s op)"
proof (cases op)
  case (OpStore a)
  then show ?thesis using mem.store_preserves_inv [OF inv _ mem_accepts] by simp
next
  case (OpRetrieve k q)
  then show ?thesis using mem.retrieve_preserves_inv [OF inv mem_accepts] by simp
next
  case (OpImport es)
  then show ?thesis using mem.import_entries_inv [OF _ mem_accepts inv] by simp
next
  case OpStats
  then show ?thesis using mem.clean_expired_inv [OF _ inv] by (simp add: get_stats_def Let_def)
next
  case OpFeedback
  then show ?thesis using mem.store_inv_feedback [OF inv, of True] by simp
next
  case OpClear
  then show ?thesis using mem.clear_store_inv by simp
qed (use inv mem.drop_expired_inv [OF inv] in
    \<open>auto simp: get_metadata_def exists_entry_def get_entry_status_def Let_def split: option.splits\<close>)

lemma reachable_store_inv: "reachable_store sha s \<Longrightarrow> store_inv memory_ops mem_wf s"
proof (induction rule: reachable_store.induct)
  case (start mx ttl fb)
  show ?case by (rule inv_intros) (simp_all add: new_store_def mem_wf_def mem_get_def idx_evict_def idx_expire_def)
next
  case (step s now op)
  then show ?case by (intro apply_op_inv)
qed

text \<open>Storing in the in-memory backend never fails, and the state it leaves is known.\<close>

lemma mem_store_result:
  assumes inv: "store_inv memory_ops mem_wf s"
    and key: "hash_key_of sha (a_original a) (a_explicit_hash a) = Inr k"
    and "\<not> is_bare_marker (a_original a)"
  obtains s' b1 where "store memory_ops sha now s a = (Inr k, s')"
    "b1 = backend (if mem_get (backend s) k = None
        then evict_if_needed memory_ops now (if enable_feedback s then process_pending_feedback memory_ops s else s)
        else s)"
    "mem_get (backend s') = (mem_get b1)(k \<mapsto> entry_of now (default_ttl s) k a)"
    "max_entries s' = max_entries s" "mem_count (backend s') \<le> Suc (mem_count b1)"
    "mem_get (backend s) k \<noteq> None \<Longrightarrow> mem_count (backend s') = mem_count (backend s)"
    "mem_get b1 \<subseteq>\<^sub>m mem_get (backend s)" "store_inv memory_ops mem_wf s'"
proof -
  let ?s0 = "if enable_feedback s then process_pending_feedback memory_ops s else s"
  let ?e = "entry_of now (default_ttl s) k a"
  have i0: "store_inv memory_ops mem_wf ?s0" by (rule mem.store_inv_feedback [OF inv])
  have b0: "backend ?s0 = backend s" and m0: "max_entries ?s0 = max_entries s" by simp_all
  obtain res s' where r: "store_locked memory_ops now ?s0 k ?e = (res, s')"
    by (cases "store_locked memory_ops now ?s0 k ?e")
  have st: "store memory_ops sha now s a = (res, s')"
    using key assms(3) r by (simp add: store_def Let_def)
  have w: "mem_wf (backend ?s0)" using i0 by (simp add: store_inv_def)
  have nx: "\<not> b_expires_entries memory_ops" by simp
  from i0 nx r show ?thesis
  proof (cases rule: mem.store_locked_cases)
    case (kept b1)
    have b1: "b1 = backend (if mem_get (backend s) k = None
        then evict_if_needed memory_ops now ?s0 else s)"
      using kept(3) b0 by simp
    have le: "mem_get b1 \<subseteq>\<^sub>m mem_get (backend s)"
      using mem.get_evict_le [OF w, of now] b0 by (simp add: b1)
    show ?thesis
      by (rule that [OF _ b1 _ _ _ _ le]) (use kept(1,2,4-7) st b0 m0 in simp_all)
  qed simp_all
qed

section \<open>What every stored entry satisfies\<close>

text \<open>
  A predicate that holds of each freshly built entry and survives \<open>record_access\<close> holds of
  every entry in every reachable state: the only other thing the store does to entries is to drop
  them.
\<close>

definition all_entries :: "(pystr \<Rightarrow> compression_entry \<Rightarrow> bool) \<Rightarrow> mem_store cstore \<Rightarrow> bool" where
  "all_entries P s \<longleftrightarrow> (\<forall>k e. mem_get (backend s) k = Some e \<longrightarrow> P k e)"

locale entry_predicate =
  fixes P :: "pystr \<Rightarrow> compression_entry \<Rightarrow> bool" and sha :: "pystr \<Rightarrow> pystr"
  assumes P_new: "hash_key_of sha (a_original a) (a_explicit_hash a) = Inr k \<Longrightarrow>
      \<not> is_bare_marker (a_original a) \<Longrightarrow> P k (entry_of now dttl k a)"
    and P_access: "P k e \<Longrightarrow> P k (record_access now q e)"
begin

lemma store_sat:
  assumes inv: "store_inv memory_ops mem_wf s" and sat: "all_entries P s"
  shows "all_entries P (snd (store memory_ops sha now s a))"
proof (cases "hash_key_of sha (a_original a) (a_explicit_hash a)")
  case (Inr k)
  show ?thesis
  proof (cases "is_bare_marker (a_original a)")
    case False
    with inv Inr obtain s' b1 where st: "store memory_ops sha now s a = (Inr k, s')"
      and g: "mem_get (backend s') = (mem_get b1)(k \<mapsto> entry_of now (default_ttl s) k a)"
      and le: "mem_get b1 \<subseteq>\<^sub>m mem_get (backend s)"
      using mem_store_result [of s sha a k now] by blast
    have "P k' e" if "mem_get b1 k' = Some e" for k' e
      using le that sat unfolding map_le_def all_entries_def by (metis domI)
    then show ?thesis using P_new [OF Inr False] by (simp add: st g all_entries_def)
  qed (use sat Inr in \<open>simp add: store_def\<close>)
qed (use sat in \<open>simp add: store_def\<close>)

lemma import_sat:
  "store_inv memory_ops mem_wf s \<Longrightarrow> all_entries P s \<Longrightarrow>
   all_entries P (snd (import_entries memory_ops sha now s es n))"
proof (induction es arbitrary: s n)
  case (Cons e es)
  obtain r s' where st: "store memory_ops sha now s (import_args now e) = (r, s')"
    by (cases "store memory_ops sha now s (import_args now e)")
  have "store_inv memory_ops mem_wf s'" "all_entries P s'"
    using store_sat [OF Cons.prems, of now "import_args now e"]
      mem.store_preserves_inv [OF Cons.prems(1) _ mem_accepts, of sha now "import_args now e"] st
    by simp_all
  from Cons.IH [OF this] Cons.IH [OF Cons.prems] Cons.prems(2) this(2) st show ?case
    by (cases r) simp_all
qed simp

lemma drop_sat:
  "store_inv memory_ops mem_wf s \<Longrightarrow> all_entries P s \<Longrightarrow> all_entries P (drop_expired memory_ops s k)"
  using mem.get_drop_expired [of s k] by (auto simp: store_inv_def all_entries_def)

lemma delete_keys_sat:
  "store_inv memory_ops mem_wf s \<Longrightarrow> all_entries P s \<Longrightarrow> all_entries P (delete_keys_stale memory_ops s ks)"
proof (induction ks arbitrary: s)
  case (Cons k ks)
  show ?case
    using Cons.IH [OF mem.drop_expired_inv [OF Cons.prems(1)] drop_sat [OF Cons.prems]] by simp
qed simp

lemma retrieve_sat:
  assumes "store_inv memory_ops mem_wf s" and "all_entries P s"
  shows "all_entries P (snd (retrieve memory_ops now s k q))"
  using drop_sat [OF assms, of k] assms(2)
  by (auto simp: retrieve_def Let_def all_entries_def mem_set_def mem_get_def update_conv'
      intro!: P_access split: option.splits)

lemma apply_op_sat:
  assumes "store_inv memory_ops mem_wf s" and "all_entries P s"
  shows "all_entries P (apply_op memory_ops sha now s op)"
proof (cases op)
  case OpStats
  then show ?thesis using delete_keys_sat [OF assms] by (simp add: get_stats_def clean_expired_def Let_def)
next
  case OpClear
  then show ?thesis by (simp add: clear_store_def mem_defs all_entries_def)
next
  case OpFeedback
  then show ?thesis using assms(2) by (simp add: all_entries_def)
next
  case (OpStore a)
  then show ?thesis using store_sat [OF assms] by simp
next
  case (OpRetrieve k q)
  then show ?thesis using retrieve_sat [OF assms] by simp
next
  case (OpImport es)
  then show ?thesis using import_sat [OF assms] by simp
qed (use assms(2) drop_sat [OF assms] in
    \<open>auto simp: get_metadata_def exists_entry_def get_entry_status_def Let_def split: option.splits\<close>)

lemma reachable_sat: "reachable_store sha s \<Longrightarrow> all_entries P s"
proof (induction rule: reachable_store.induct)
  case (start mx ttl fb)
  show ?case by (simp add: new_store_def mem_get_def all_entries_def)
next
  case (step s now op)
  then show ?case by (intro apply_op_sat reachable_store_inv)
qed

end

definition entry_ok :: "pystr \<Rightarrow> compression_entry \<Rightarrow> bool" where
  "entry_ok k e \<longleftrightarrow> ce_hash e = k \<and> \<not> is_bare_marker (original_content e)
     \<and> length (search_queries e) \<le> 10 \<and> 0 \<le> retrieval_count e"

interpretation ok: entry_predicate entry_ok sha for sha
  by unfold_locales (simp_all add: entry_ok_def entry_of_def record_access_query_bound)

text \<open>\<open>hexdigest\<close> yields lower-case hexadecimal digits; then so is every key.\<close>

definition hexdigest_ok :: "(pystr \<Rightarrow> pystr) \<Rightarrow> bool" where
  "hexdigest_ok sha \<longleftrightarrow> (\<forall>x. is_hex (sha x) \<and> ascii_lower (sha x) = sha x)"

definition hex_key :: "pystr \<Rightarrow> bool" where
  "hex_key k \<longleftrightarrow> is_hex k \<and> ascii_lower k = k"

lemma is_hex_lower: "is_hex h \<Longrightarrow> is_hex (ascii_lower h)"
  by (auto simp: is_hex_def ascii_lower_def ascii_lower_char_def u_def)

lemma digest_key:
  assumes "hexdigest_ok sha"
  shows "hex_key (take 24 (sha x))"
proof -
  have "is_hex (take 24 (sha x))"
    using assms by (auto simp: hexdigest_ok_def is_hex_def dest: in_set_takeD)
  moreover have "ascii_lower (take 24 (sha x)) = take 24 (sha x)"
    using assms by (metis hexdigest_ok_def ascii_lower_def take_map)
  ultimately show ?thesis by (simp add: hex_key_def)
qed

lemma hex_key_of:
  assumes "hexdigest_ok sha" and "hash_key_of sha x h = Inr k"
  shows "hex_key k"
proof (cases h)
  case None
  then show ?thesis using assms(2) digest_key [OF assms(1), of x]
    by (auto simp: hash_key_of_def split: if_splits)
next
  case (Some h')
  then show ?thesis using assms(2)
    by (auto simp: hash_key_of_def hex_key_def is_hex_lower split: if_splits)
qed

interpretation hexkey: entry_predicate "\<lambda>k e. hexdigest_ok sha \<longrightarrow> hex_key k" sha for sha
  by unfold_locales (auto intro: hex_key_of)

end
