(* ===== verification/Compression_Store_Props.thy ===== *)
theory Compression_Store_Props
  imports Compression_Store_Correct
begin

text \<open>
  The properties of \<open>CompressionStore\<close> over the in-memory backend that the rest of the program
  relies on, with concrete instances. \<open>demo_args\<close> and the states \<open>demo0\<close>, \<open>demo1\<close>,
  \dots are a run of the store used by the instances: three entries fill it, a fourth evicts.
\<close>

section \<open>A concrete run\<close>

definition demo_args :: "string \<Rightarrow> int \<Rightarrow> store_args" where
  "demo_args h t = \<lparr>a_original = u h, a_compressed = [], a_original_tokens = 10,
     a_compressed_tokens = 1, a_original_item_count = 0, a_compressed_item_count = 0,
     a_tool_name = None, a_tool_call_id = None, a_query_context = None,
     a_tool_signature_hash = Some (u ''sig''), a_compression_strategy = Some (u ''lossy''),
     a_ttl = Some t, a_explicit_hash = Some (u h)\<rparr>"

definition demo_entry :: "string \<Rightarrow> real \<Rightarrow> int \<Rightarrow> compression_entry" where
  "demo_entry h t ttl = entry_of t 1800 (u h) (demo_args h ttl)"

lemma demo_entry_simps [simp]:
  "created_at (demo_entry h t ttl) = t" "expiration_time (demo_entry h t ttl) = t + real_of_int ttl"
  "retrieval_count (demo_entry h t ttl) = 0" "ce_hash (demo_entry h t ttl) = u h"
  "ce_tool_signature_hash (demo_entry h t ttl) = Some (u ''sig'')"
  "ce_compression_strategy (demo_entry h t ttl) = Some (u ''lossy'')"
  "original_item_count (demo_entry h t ttl) = 0" "ce_tool_name (demo_entry h t ttl) = None"
  "original_content (demo_entry h t ttl) = u h" "compressed_content (demo_entry h t ttl) = []"
  "is_expired now (demo_entry h t ttl) = (t + real_of_int ttl < now)"
  by (simp_all add: demo_entry_def entry_of_def demo_args_def expiration_time_def is_expired_def
      algebra_simps)

lemma demo_key:
  "h \<in> {''aa'', ''bb'', ''cc'', ''dd'', ''ee''} \<Longrightarrow>
   hash_key_of sha (a_original (demo_args h t)) (a_explicit_hash (demo_args h t)) = Inr (u h)
   \<and> \<not> is_bare_marker (a_original (demo_args h t))"
  by (auto simp: hash_key_of_def is_hex_def ascii_lower_def ascii_lower_char_def u_def demo_args_def
      is_bare_marker_def Let_def strip_def lstrip_def rstrip_def py_isspace_def startswith_def)

lemma demo_store:
  assumes "h \<in> {''aa'', ''bb'', ''cc'', ''dd'', ''ee''}" and "default_ttl s = 1800"
    and "enable_feedback s"
  shows "store memory_ops sha now s (demo_args h t) =
    store_locked memory_ops now (process_pending_feedback memory_ops s) (u h) (demo_entry h now t)"
  using demo_key [OF assms(1), of sha t] assms(2,3) by (simp add: store_def demo_entry_def)

lemmas demo_run = store_locked_def Let_def evict_if_needed_def evict_prepare_def mem_defs
  process_pending_feedback_def event_data_of_def read_backend_revision_def
  rebuild_heap_if_needed_def stale_ratio_def rebuild_heap_def new_store_def heappush_def
  less_eq_prod_simp expire_pop_def evict_pop_def record_eviction_success_def
  mark_heap_entries_stale_def

definition demo0 :: "mem_store cstore" where
  "demo0 = new_store memory_ops [] 3 1800 True"

definition demo1 :: "mem_store cstore" where
  "demo1 = demo0\<lparr>backend := [(u ''aa'', demo_entry ''aa'' 0 10)], eviction_heap := [(0, u ''aa'')],
     expiration_heap := [(10, 0, u ''aa'')]\<rparr>"

definition demo2 :: "mem_store cstore" where
  "demo2 = demo1\<lparr>
     backend := [(u ''aa'', demo_entry ''aa'' 0 10), (u ''bb'', demo_entry ''bb'' 1 1000)],
     eviction_heap := [(0, u ''aa''), (1, u ''bb'')],
     expiration_heap := [(10, 0, u ''aa''), (1001, 1, u ''bb'')]\<rparr>"

definition demo3 :: "mem_store cstore" where
  "demo3 = demo2\<lparr>
     backend := [(u ''aa'', demo_entry ''aa'' 0 10), (u ''bb'', demo_entry ''bb'' 1 1000),
       (u ''cc'', demo_entry ''cc'' 2 1000)],
     eviction_heap := [(0, u ''aa''), (1, u ''bb''), (2, u ''cc'')],
     expiration_heap := [(10, 0, u ''aa''), (1001, 1, u ''bb''), (1002, 2, u ''cc'')]\<rparr>"

definition demo4 :: "mem_store cstore" where
  "demo4 = demo3\<lparr>
     backend := [(u ''bb'', demo_entry ''bb'' 1 1000), (u ''cc'', demo_entry ''cc'' 2 1000),
       (u ''dd'', demo_entry ''dd'' 3 1000)],
     eviction_heap := [(1, u ''bb''), (2, u ''cc''), (3, u ''dd'')],
     expiration_heap := [(10, 0, u ''aa''), (1001, 1, u ''bb''), (1002, 2, u ''cc''),
       (1003, 3, u ''dd'')],
     stale_expiration_heap_entries := 1,
     pending_feedback_events := [\<lparr>ev_hash = u ''aa'', ev_query = None, ev_items_retrieved = 0,
       ev_total_items = 0, ev_tool_name = None, ev_timestamp = 3,
       ev_retrieval_type = u ''eviction_success'', ev_tool_signature_hash = Some (u ''sig'')\<rparr>]\<rparr>"

lemmas demo_states = demo0_def demo1_def demo2_def demo3_def demo4_def

lemma demo_step1: "store memory_ops sha 0 demo0 (demo_args ''aa'' 10) = (Inr (u ''aa''), demo1)"
  by (subst demo_store) (simp_all add: demo_states demo_run)

lemma demo_step2: "store memory_ops sha 1 demo1 (demo_args ''bb'' 1000) = (Inr (u ''bb''), demo2)"
  by (subst demo_store) (simp_all add: demo_states demo_run)

lemma demo_step3: "store memory_ops sha 2 demo2 (demo_args ''cc'' 1000) = (Inr (u ''cc''), demo3)"
  by (subst demo_store) (simp_all add: demo_states demo_run)

lemma demo_step4: "store memory_ops sha 3 demo3 (demo_args ''dd'' 1000) = (Inr (u ''dd''), demo4)"
  by (subst demo_store) (simp_all add: demo_states demo_run)

lemma demo_reachable:
  "reachable_store sha demo0" "reachable_store sha demo1" "reachable_store sha demo2"
  "reachable_store sha demo3" "reachable_store sha demo4"
proof -
  show 0: "reachable_store sha demo0" unfolding demo0_def by (rule reachable_store.start)
  show 1: "reachable_store sha demo1"
    using reachable_store.step [OF 0, of 0 "OpStore (demo_args ''aa'' 10)"] by (simp add: demo_step1)
  show 2: "reachable_store sha demo2"
    using reachable_store.step [OF 1, of 1 "OpStore (demo_args ''bb'' 1000)"] by (simp add: demo_step2)
  show 3: "reachable_store sha demo3"
    using reachable_store.step [OF 2, of 2 "OpStore (demo_args ''cc'' 1000)"] by (simp add: demo_step3)
  show 4: "reachable_store sha demo4"
    using reachable_store.step [OF 3, of 3 "OpStore (demo_args ''dd'' 1000)"] by (simp add: demo_step4)
qed

section \<open>Reversibility\<close>

lemma is_expired_entry_of:
  "is_expired t (entry_of now dttl k a) \<longleftrightarrow>
     t - now > real_of_int (case a_ttl a of Some x \<Rightarrow> x | None \<Rightarrow> dttl)"
  by (simp add: is_expired_def entry_of_def)

lemma retrieve_live:
  assumes "mem_get (backend s) k = Some e" and "\<not> is_expired now e"
  shows "\<exists>s'. retrieve memory_ops now s k q = (Some (record_access now q e), s')
    \<and> mem_get (backend s') = (mem_get (backend s))(k \<mapsto> record_access now q e)"
  using assms
  by (simp add: retrieve_def Let_def mem_set_def mem_get_def fun_eq_iff update_conv')

text \<open>C1: what is stored can be retrieved unchanged until its TTL passes: in every reachable
  state of the store over the in-memory backend, \<open>store\<close> accepts content that has a key (a
  hexadecimal explicit hash, or without one content that can be encoded) and is no bare marker, and
  returns its key, and \<open>retrieve\<close> with that key, up to the TTL later, returns an entry with the same
  original and compressed content, whatever was evicted to make room.\<close>

theorem store_retrieve_roundtrip:
  assumes "reachable_store sha s"
    and "hash_key_of sha (a_original a) (a_explicit_hash a) = Inr k"
    and "\<not> is_bare_marker (a_original a)"
    and "later - now \<le> real_of_int (case a_ttl a of Some t \<Rightarrow> t | None \<Rightarrow> default_ttl s)"
  shows "\<exists>s1 e s2. store memory_ops sha now s a = (Inr k, s1)
    \<and> retrieve memory_ops later s1 k q = (Some e, s2)
    \<and> original_content e = a_original a \<and> compressed_content e = a_compressed a
    \<and> retrieval_count e = 1"
proof -
  let ?e = "entry_of now (default_ttl s) k a"
  obtain s1 b1 where st: "store memory_ops sha now s a = (Inr k, s1)"
    and g: "mem_get (backend s1) = (mem_get b1)(k \<mapsto> ?e)"
    using mem_store_result [OF reachable_store_inv [OF assms(1)] assms(2,3)] by metis
  have "\<not> is_expired later ?e" using assms(4) by (simp add: is_expired_entry_of)
  with g retrieve_live [of s1 k ?e later q] obtain s2
    where "retrieve memory_ops later s1 k q = (Some (record_access later q ?e), s2)" by auto
  with st show ?thesis by (auto simp: entry_of_def)
qed

theorem store_retrieve_roundtrip_witness:
  "\<exists>s1 e s2. store memory_ops id 3 demo3 (demo_args ''dd'' 1000) = (Inr (u ''dd''), s1)
    \<and> retrieve memory_ops 900 s1 (u ''dd'') None = (Some e, s2)
    \<and> original_content e = a_original (demo_args ''dd'' 1000)
    \<and> compressed_content e = a_compressed (demo_args ''dd'' 1000) \<and> retrieval_count e = 1"
  by (rule store_retrieve_roundtrip [where sha = id and later = 900 and now = 3])
    (use demo_reachable demo_key [of "''dd''" id 1000] in \<open>auto simp: demo_args_def\<close>)

section \<open>The state invariant\<close>



section \<open>Capacity and eviction\<close>

definition no_expired_orphans :: "real \<Rightarrow> mem_store cstore \<Rightarrow> bool" where
  "no_expired_orphans now s \<longleftrightarrow>
     (\<forall>(x, c, k) \<in> set (expiration_heap s). x < now \<longrightarrow> mem_get (backend s) k \<noteq> None)"

text \<open>\<open>store\<close> keeps the number of entries within \<open>max_entries\<close>, as long as no
  expired tuple of the expiration heap has lost its entry.\<close>

theorem store_capacity:
  assumes "reachable_store sha s" and "0 < max_entries s"
    and "int (mem_count (backend s)) \<le> max_entries s" and "no_expired_orphans now s"
  shows "int (mem_count (backend (snd (store memory_ops sha now s a)))) \<le> max_entries s"
proof (cases "hash_key_of sha (a_original a) (a_explicit_hash a)")
  case (Inr k)
  let ?s0 = "if enable_feedback s then process_pending_feedback memory_ops s else s"
  have inv: "store_inv memory_ops mem_wf s" by (rule reachable_store_inv [OF assms(1)])
  show ?thesis
  proof (cases "is_bare_marker (a_original a)")
    case False
    obtain s' b1 where st: "store memory_ops sha now s a = (Inr k, s')"
      and b1: "b1 = backend (if mem_get (backend s) k = None
        then evict_if_needed memory_ops now ?s0 else s)"
      and n: "mem_count (backend s') \<le> Suc (mem_count b1)"
      and n': "mem_get (backend s) k \<noteq> None \<Longrightarrow> mem_count (backend s') = mem_count (backend s)"
      using mem_store_result [OF inv Inr False, where now = now] by metis
    have "int (mem_count (backend (evict_if_needed memory_ops now ?s0))) < max_entries ?s0"
      using mem.evict_makes_room [OF mem.store_inv_feedback [OF inv, of "enable_feedback s"]] assms(2-4)
      by (simp add: no_expired_orphans_def)
    then have "mem_get (backend s) k = None \<Longrightarrow> int (mem_count b1) < max_entries s"
      by (simp add: b1 split: if_splits)
    with n n' assms(3) st show ?thesis by fastforce
  qed (use Inr assms(3) in \<open>simp add: store_def\<close>)
qed (use assms(3) in \<open>simp add: store_def\<close>)

theorem store_capacity_witness:
  "int (mem_count (backend (snd (store memory_ops id 3 demo3 (demo_args ''dd'' 1000)))))
     \<le> max_entries demo3"
  by (rule store_capacity [OF demo_reachable(4)])
    (simp_all add: demo_states new_store_def mem_defs no_expired_orphans_def)

text \<open>C24: eviction policy. Storing below capacity drops no unexpired entry; at capacity, an
  unexpired entry that is dropped is at least as old as every other entry that stays; storing under
  an existing key drops nothing at all.\<close>

theorem store_evicts_oldest_live:
  assumes "reachable_store sha s"
    and "store memory_ops sha now s a = (Inr k, s')"
    and "mem_get (backend s) k1 = Some e1" and "k1 \<noteq> k" and "\<not> is_expired now e1"
    and "mem_get (backend s') k1 = None"
  shows "mem_get (backend s) k = None \<and> max_entries s \<le> int (mem_count (backend s))
    \<and> (\<forall>k2 e2. mem_get (backend s') k2 = Some e2 \<longrightarrow> k2 \<noteq> k \<longrightarrow> created_at e1 \<le> created_at e2)"
proof -
  let ?s0 = "if enable_feedback s then process_pending_feedback memory_ops s else s"
  have inv: "store_inv memory_ops mem_wf s" by (rule reachable_store_inv [OF assms(1)])
  have inv0: "store_inv memory_ops mem_wf ?s0" by (rule mem.store_inv_feedback [OF inv])
  have b0: "backend ?s0 = backend s" and m0: "max_entries ?s0 = max_entries s" by simp_all
  have w0: "mem_wf (backend ?s0)" using inv0 by (simp add: store_inv_def)
  have key: "hash_key_of sha (a_original a) (a_explicit_hash a) = Inr k"
    "\<not> is_bare_marker (a_original a)"
    using assms(2,3,6)
    by (auto simp: store_def store_locked_def Let_def split: sum.splits if_splits prod.splits)
  obtain b1 where b1: "b1 = backend (if mem_get (backend s) k = None
        then evict_if_needed memory_ops now ?s0 else s)"
    and g: "mem_get (backend s') = (mem_get b1)(k \<mapsto> entry_of now (default_ttl s) k a)"
    using mem_store_result [OF inv key, where now = now] assms(2) by (metis Pair_inject)
  have gone: "mem_get b1 k1 = None" using assms(4,6) g by simp
  then have new: "mem_get (backend s) k = None" using assms(3) b1 by (auto split: if_splits)
  then have b1': "b1 = backend (evict_if_needed memory_ops now ?s0)" using b1 by simp
  have "\<not> int (mem_count (backend s)) < max_entries s"
    using mem.evict_below_capacity_keeps_live [OF w0, of k1 e1 now] assms(3,5) gone b0 m0
    by (auto simp: b1')
  moreover have "created_at e1 \<le> created_at e2" if "mem_get b1 k2 = Some e2" for k2 e2
    using mem.evict_oldest_first [OF inv0, of k1 e1 now k2 e2] assms(3,5) gone that b0
    by (simp add: b1')
  ultimately show ?thesis using new g by (auto split: if_splits)
qed

theorem store_evicts_oldest_live_witness:
  "mem_get (backend demo3) (u ''dd'') = None \<and> max_entries demo3 \<le> int (mem_count (backend demo3))
    \<and> created_at (demo_entry ''aa'' 0 10) \<le> created_at (demo_entry ''bb'' 1 1000)"
proof -
  have a: "mem_get (backend demo3) (u ''aa'') = Some (demo_entry ''aa'' 0 10)"
    and a': "mem_get (backend demo4) (u ''aa'') = None"
    and b: "mem_get (backend demo4) (u ''bb'') = Some (demo_entry ''bb'' 1 1000)"
    by (simp_all add: demo_states mem_defs)
  show ?thesis
    using store_evicts_oldest_live [OF demo_reachable(4) [of id] demo_step4 a _ _ a'] b by simp
qed

text \<open>The capacity bound can be exceeded. From an empty store with \<open>max_entries = 3\<close>,
  five stores under distinct keys leave four entries: when the expired root of the expiration heap
  describes an entry that was already evicted, \<open>_evict_if_needed\<close> returns before making room.
  The tuple stays at the root, so the next store finds it again.\<close>

theorem store_exceeds_capacity:
  "reachable_store sha demo4
   \<and> int (mem_count (backend demo4)) = max_entries demo4
   \<and> (let s5 = snd (store memory_ops sha 20 demo4 (demo_args ''ee'' 1000)) in
      int (mem_count (backend s5)) = max_entries s5 + 1
      \<and> hd (expiration_heap s5) = (10, 0, u ''aa'') \<and> mem_get (backend s5) (u ''aa'') = None)"
proof -
  have "snd (store memory_ops sha 20 demo4 (demo_args ''ee'' 1000)) =
    demo4\<lparr>backend := backend demo4 @ [(u ''ee'', demo_entry ''ee'' 20 1000)],
      eviction_heap := eviction_heap demo4 @ [(20, u ''ee'')],
      expiration_heap := expiration_heap demo4 @ [(1020, 20, u ''ee'')],
      pending_feedback_events := [],
      notified := [(hd (pending_feedback_events demo4), None, None, None, None)]\<rparr>"
    by (subst demo_store) (simp_all add: demo_states demo_run)
  then show ?thesis
    using demo_reachable(5) by (simp add: demo_states new_store_def mem_defs)
qed

section \<open>Reading\<close>

text \<open>The readers agree on which entries are live. A key is retrievable, has metadata, exists
  and has an unexpired status exactly when it is stored and its age is at most its TTL; a successful
  \<open>retrieve\<close> returns the stored entry with its access recorded and changes no other entry, and
  a failed one changes nothing but the expired entry it drops.\<close>

theorem readers_agree:
  fixes s :: "mem_store cstore" and now :: real and k :: pystr
  defines "live \<equiv> (\<exists>e. mem_get (backend s) k = Some e \<and> now - created_at e \<le> real_of_int (ce_ttl e))"
  shows "(fst (retrieve memory_ops now s k q) \<noteq> None) = live
    \<and> (fst (get_metadata memory_ops now s k) \<noteq> None) = live
    \<and> fst (exists_entry memory_ops now s k c) = live
    \<and> (\<exists>ttl d cr ex age. fst (get_entry_status memory_ops now s k c) = Status False ttl d cr ex age) = live
    \<and> mem_get (backend (snd (retrieve memory_ops now s k q))) =
        (if live then (mem_get (backend s))(k \<mapsto> record_access now q (the (mem_get (backend s) k)))
         else (mem_get (backend s))(k := None))
    \<and> (live \<longrightarrow> fst (retrieve memory_ops now s k q) =
        Some (record_access now q (the (mem_get (backend s) k))))"
proof (cases "mem_get (backend s) k")
  case None
  then show ?thesis
    by (simp add: live_def retrieve_def get_metadata_def exists_entry_def get_entry_status_def fun_eq_iff)
next
  case (Some e)
  have l: "live = (\<not> is_expired now e)" using Some by (auto simp: live_def is_expired_def)
  have d: "mem_get (fst (mem_delete (backend s) k)) = (mem_get (backend s))(k := None)"
    by (simp add: mem_defs fun_eq_iff delete_conv' map_of_eq_None_iff)
  from Some d show ?thesis
    by (simp add: l retrieve_def get_metadata_def exists_entry_def get_entry_status_def Let_def
        drop_expired_def is_expired_def)
      (simp add: mem_set_def mem_get_def update_conv' fun_eq_iff)
qed

theorem readers_agree_witness:
  "fst (exists_entry memory_ops 9 demo4 (u ''bb'') False)
   \<and> fst (retrieve memory_ops 9 demo4 (u ''bb'') None) =
       Some (record_access 9 None (demo_entry ''bb'' 1 1000))"
proof -
  have g: "mem_get (backend demo4) (u ''bb'') = Some (demo_entry ''bb'' 1 1000)"
    by (simp add: demo_states mem_get_def)
  moreover have "ce_ttl (demo_entry ''bb'' 1 1000) = 1000"
    by (simp add: demo_entry_def entry_of_def demo_args_def)
  ultimately have "\<exists>e. mem_get (backend demo4) (u ''bb'') = Some e \<and> 9 - created_at e \<le> real_of_int (ce_ttl e)"
    by simp
  then show ?thesis using readers_agree [where s = demo4 and k = "u ''bb''" and now = 9 and q = None and c = False] g
    by simp
qed

section \<open>Errors\<close>

text \<open>Making room, as far as the indexes are concerned: every tuple in them was there before or
  describes an entry the backend had.\<close>

definition indexed_only :: "'b backend_ops \<Rightarrow> 'b cstore \<Rightarrow> 'b cstore \<Rightarrow> bool" where
  "indexed_only B s s' \<longleftrightarrow>
     (\<forall>(c, k) \<in> set (eviction_heap s').
        (c, k) \<in> set (eviction_heap s) \<or> (\<exists>e. b_get B (backend s) k = Some e \<and> created_at e = c))
     \<and> (\<forall>(x, c, k) \<in> set (expiration_heap s').
        (x, c, k) \<in> set (expiration_heap s)
        \<or> (\<exists>e. b_get B (backend s) k = Some e \<and> created_at e = c \<and> expiration_time e = x))"

lemma indexed_only_simps [simp]:
  "indexed_only B s (s'\<lparr>backend_revision := r\<rparr>) = indexed_only B s s'"
  "indexed_only B s (s'\<lparr>backend := b\<rparr>) = indexed_only B s s'"
  "indexed_only B s (mark_heap_entries_stale B s)" "indexed_only B s s"
  "indexed_only B (process_pending_feedback B s) s' = indexed_only B s s'"
  by (auto simp: indexed_only_def mark_heap_entries_stale_def process_pending_feedback_def)

context ccr_backend
begin

lemma rebuild_indexed: "bwf (backend s) \<Longrightarrow> indexed_only B s (rebuild_heap B s)"
  by (auto simp: indexed_only_def rebuild_heap_def Let_def in_items_iff)

lemma rebuild_if_needed_indexed: "bwf (backend s) \<Longrightarrow> indexed_only B s (rebuild_heap_if_needed B s)"
  using rebuild_indexed [of s] by (auto simp: rebuild_heap_if_needed_def indexed_only_def)

lemma evict_prepare_indexed: "evict_prepare B s = (c, s1) \<Longrightarrow> bwf (backend s) \<Longrightarrow> indexed_only B s s1"
  using rebuild_indexed [of s] rebuild_if_needed_indexed [of s]
  by (auto simp: evict_prepare_def Let_def split: if_splits)

lemma expire_loop_indexed: "expire_loop B now c s h = (r, s') \<Longrightarrow> set (expiration_heap s') \<subseteq> set h"
proof (induction h arbitrary: s)
  case (Cons t h)
  obtain x c0 k0 where t: "t = (x, c0, k0)" by (cases t) auto
  from Cons.prems [unfolded t] show ?case
  proof (cases rule: expire_loop_Cons_cases)
    case (more s2)
    then show ?thesis using Cons.IH [OF more(4)] by auto
  qed (auto simp: t)
qed auto

lemma evict_loop_indexed: "set (eviction_heap (evict_loop B now s h)) \<subseteq> set h"
  by (induction B now s h rule: evict_loop.induct) auto

lemma evict_indexed:
  assumes "bwf (backend s)"
  shows "indexed_only B s (evict_if_needed B now s)"
proof -
  obtain c s1 where p: "evict_prepare B s = (c, s1)" by (cases "evict_prepare B s")
  obtain r s2 where l: "expire_loop B now c s1 (expiration_heap s1) = (r, s2)"
    by (cases "expire_loop B now c s1 (expiration_heap s1)")
  have "set (expiration_heap s2) \<subseteq> set (expiration_heap s1)" "eviction_heap s2 = eviction_heap s1"
    using expire_loop_indexed [OF l] expire_loop_frame [OF l] by simp_all
  then show ?thesis
    using evict_prepare_indexed [OF p assms] evict_loop_indexed [of now s2 "eviction_heap s2"]
    by (auto simp: evict_if_needed_def p l indexed_only_def)
qed

lemma wf_evict: "bwf (backend s) \<Longrightarrow> bwf (backend (evict_if_needed B now s))"
  using wf_expire_loop wf_evict_loop
  by (auto simp: evict_if_needed_def split: prod.splits dest!: evict_prepare_frame)

lemma store_locked_result:
  assumes w: "bwf (backend s)" and res: "store_locked B now s k entry = (res, s')"
  shows "res = Inl StorageError \<and> indexed_only B s s' \<or> res = Inr k \<and> b_get B (backend s') k = Some entry"
proof -
  let ?s1 = "if b_get B (backend s) k = None
      then (if b_expires_entries B then s else evict_if_needed B now s) else mark_heap_entries_stale B s"
  obtain b' kp where bs: "b_set B (backend ?s1) k entry = (b', kp)" by (cases "b_set B (backend ?s1) k entry")
  have w1: "bwf (backend ?s1)" using w wf_evict by simp
  have i1: "indexed_only B s ?s1" using evict_indexed [OF w] by simp
  show ?thesis
  proof (cases "kp = Some False")
    case True
    then have "res = Inl StorageError" "s' = ?s1\<lparr>backend := b'\<rparr>"
      using res bs by (auto simp: store_locked_def Let_def split: prod.splits if_splits)
    then show ?thesis using i1 by simp
  next
    case False
    have "b_get B b' k = Some entry" using get_set [OF w1 bs False] by simp
    moreover have "res = Inr k" "backend s' = b'"
      using res bs False by (auto simp: store_locked_def Let_def split: prod.splits if_splits)
    ultimately show ?thesis by simp
  qed
qed

end

text \<open>C30: how \<open>store\<close> fails, with any backend that keeps the protocol, expiring ones included. It
  raises \<open>ValueError\<close>, and changes nothing, exactly when the explicit hash is not hexadecimal or,
  without one, the content cannot be encoded. When the backend keeps nothing it raises
  \<open>StorageError\<close>, and neither index has a tuple that is new and describes no entry the backend had. A
  key is returned only when the backend now holds the content under it, or for a bare marker, which
  is not stored.\<close>

theorem store_errors:
  assumes "ccr_backend B bwf" and "bwf (backend s)" and "store B sha now s a = (res, s')"
  shows "(res = Inl ValueError \<longleftrightarrow>
      (case a_explicit_hash a of Some h \<Rightarrow> \<not> is_hex h | None \<Rightarrow> list_ex is_surrogate (a_original a)))
    \<and> (res = Inl ValueError \<longrightarrow> s' = s)
    \<and> (res = Inl StorageError \<longrightarrow> indexed_only B s s')
    \<and> (\<forall>k. res = Inr k \<longrightarrow> is_bare_marker (a_original a) \<and> s' = s
         \<or> b_get B (backend s') k = Some (entry_of now (default_ttl s) k a))"
proof (cases "hash_key_of sha (a_original a) (a_explicit_hash a)")
  case (Inl err)
  then show ?thesis using assms(3)
    by (auto simp: store_def hash_key_of_def split: option.splits if_splits)
next
  case (Inr k)
  then have ok: "\<not> (case a_explicit_hash a of Some h \<Rightarrow> \<not> is_hex h | None \<Rightarrow> list_ex is_surrogate (a_original a))"
    by (auto simp: hash_key_of_def split: option.splits if_splits)
  show ?thesis
  proof (cases "is_bare_marker (a_original a)")
    case True
    then show ?thesis using Inr assms(3) ok by (auto simp: store_def)
  next
    case False
    let ?s0 = "if enable_feedback s then process_pending_feedback B s else s"
    have r: "store_locked B now ?s0 k (entry_of now (default_ttl s) k a) = (res, s')"
      using Inr False assms(3) by (simp add: store_def Let_def)
    have "bwf (backend ?s0)" using assms(2) by simp
    from ccr_backend.store_locked_result [OF assms(1) this r]
    have "res = Inl StorageError \<and> indexed_only B s s'
        \<or> res = Inr k \<and> b_get B (backend s') k = Some (entry_of now (default_ttl s) k a)"
      by (simp split: if_splits)
    then show ?thesis using ok by auto
  qed
qed

text \<open>An instance: the in-memory backend made to keep nothing keeps the protocol.\<close>

definition refusing_ops :: "mem_store backend_ops" where
  "refusing_ops = memory_ops\<lparr>b_set := \<lambda>b k e. (b, Some False), b_expires_entries := True\<rparr>"

lemma refusing_backend: "ccr_backend refusing_ops mem_wf"
  using mem.get_delete mem.delete_result mem.wf_delete mem.get_clear mem.wf_clear mem.items_get
    mem.items_distinct mem.count_items
  by unfold_locales (simp_all add: refusing_ops_def)

theorem store_errors_witness:
  "fst (store refusing_ops id 5 demo4 (demo_args ''aa'' 10)) = Inl StorageError
    \<and> indexed_only refusing_ops demo4 (snd (store refusing_ops id 5 demo4 (demo_args ''aa'' 10)))
    \<and> store refusing_ops id 5 demo4 ((demo_args ''aa'' 10)\<lparr>a_explicit_hash := Some (u ''xyz'')\<rparr>)
        = (Inl ValueError, demo4)"
proof -
  have w: "mem_wf (backend demo4)" by (simp add: demo_states mem_wf_def)
  have x: "\<not> is_hex (u ''xyz'')" by (simp add: is_hex_def u_def)
  have r: "fst (store refusing_ops id 5 demo4 (demo_args ''aa'' 10)) = Inl StorageError"
    using demo_key [of "''aa''" id 10] by (simp add: store_def store_locked_def refusing_ops_def Let_def)
  obtain res s' where b: "store refusing_ops id 5 demo4 ((demo_args ''aa'' 10)\<lparr>a_explicit_hash := Some (u ''xyz'')\<rparr>) = (res, s')"
    by (cases "store refusing_ops id 5 demo4 ((demo_args ''aa'' 10)\<lparr>a_explicit_hash := Some (u ''xyz'')\<rparr>)")
  show ?thesis
    using store_errors [OF refusing_backend w prod.collapse [symmetric], of id 5 "demo_args ''aa'' 10"] r
      store_errors [OF refusing_backend w b] x b by simp
qed

section \<open>Feedback\<close>

text \<open>Each retrieval is reported once. A successful \<open>retrieve\<close> with feedback enabled
  hands the consumers exactly the events that were pending followed by its own event, looked up in
  the current entries, and leaves nothing pending; the log of events keeps the most recent 1000.\<close>

theorem retrieve_feedback_once:
  assumes "enable_feedback s" and "mem_get (backend s) k = Some e" and "\<not> is_expired now e"
  shows "\<exists>ev s' d. retrieve memory_ops now s k q = (Some (record_access now q e), s')
    \<and> ev_hash ev = k \<and> ev_query ev = q \<and> ev_timestamp ev = now
    \<and> pending_feedback_events s' = []
    \<and> notified s' = notified s @ d
    \<and> map fst d = pending_feedback_events s @ [ev]
    \<and> snd (last d) = (ce_tool_name e, ce_tool_signature_hash e, ce_compression_strategy e,
                      Some (compressed_content e))
    \<and> retrieval_events s' = drop (Suc (length (retrieval_events s)) - 1000) (retrieval_events s @ [ev])"
proof -
  let ?e = "record_access now q e"
  let ?ev = "\<lparr>ev_hash = k, ev_query = q, ev_items_retrieved = original_item_count e,
      ev_total_items = original_item_count e, ev_tool_name = ce_tool_name e, ev_timestamp = now,
      ev_retrieval_type = u ''full'', ev_tool_signature_hash = ce_tool_signature_hash e\<rparr>"
  let ?b = "AList.update k ?e (backend s)"
  let ?d = "map (event_data_of memory_ops ?b) (pending_feedback_events s @ [?ev])"
  have "map fst ?d = pending_feedback_events s @ [?ev]"
    by (simp add: event_data_of_def comp_def split: option.splits)
      (auto simp: map_idI split: option.splits)
  moreover have "snd (last ?d) = (ce_tool_name e, ce_tool_signature_hash e,
      ce_compression_strategy e, Some (compressed_content e))"
    by (simp add: event_data_of_def mem_get_def update_conv')
  ultimately show ?thesis using assms
    by (intro exI [of _ ?ev] exI [of _ "snd (retrieve memory_ops now s k q)"] exI [of _ ?d])
      (simp add: retrieve_def Let_def log_retrieval_def process_pending_feedback_def mem_set_def
        MAX_EVENTS_def)
qed

theorem retrieve_feedback_once_witness:
  "\<exists>ev s' d. retrieve memory_ops 9 demo4 (u ''bb'') None
       = (Some (record_access 9 None (demo_entry ''bb'' 1 1000)), s')
    \<and> ev_hash ev = u ''bb'' \<and> ev_query ev = None \<and> ev_timestamp ev = 9
    \<and> pending_feedback_events s' = [] \<and> notified s' = notified demo4 @ d
    \<and> map fst d = pending_feedback_events demo4 @ [ev]
    \<and> snd (last d) = (ce_tool_name (demo_entry ''bb'' 1 1000),
         ce_tool_signature_hash (demo_entry ''bb'' 1 1000),
         ce_compression_strategy (demo_entry ''bb'' 1 1000),
         Some (compressed_content (demo_entry ''bb'' 1 1000)))
    \<and> retrieval_events s' = drop (Suc (length (retrieval_events demo4)) - 1000) (retrieval_events demo4 @ [ev])"
  by (rule retrieve_feedback_once) (simp_all add: demo_states new_store_def mem_get_def)

text \<open>The report of an eviction without retrieval never carries the compression strategy it is
  meant to credit: the event is queued because the entry has a strategy and a signature, but the
  entry is deleted before \<open>process_pending_feedback\<close> looks it up, and the consumers receive
  four times \<open>None\<close>.\<close>

theorem eviction_feedback_loses_strategy:
  "reachable_store sha demo3
   \<and> ce_compression_strategy (demo_entry ''aa'' 0 10) = Some (u ''lossy'')
   \<and> mem_get (backend demo3) (u ''aa'') = Some (demo_entry ''aa'' 0 10)
   \<and> (let s4 = snd (store memory_ops sha 3 demo3 (demo_args ''dd'' 1000));
          s5 = process_pending_feedback memory_ops s4 in
      map ev_retrieval_type (pending_feedback_events s4) = [u ''eviction_success'']
      \<and> map snd (notified s5) = [(None, None, None, None)])"
  using demo_reachable(4)
  by (simp add: demo_step4)
    (simp add: demo_states new_store_def mem_defs process_pending_feedback_def event_data_of_def)

section \<open>Restart\<close>

definition imported :: "real \<Rightarrow> compression_entry \<Rightarrow> compression_entry" where
  "imported now e = entry_of now 0 (ce_hash e) (import_args now e)"

lemma imported_simps [simp]:
  "ce_hash (imported now e) = ce_hash e"
  "original_content (imported now e) = original_content e"
  "compressed_content (imported now e) = compressed_content e"
  "created_at (imported now e) = now"
  "ce_ttl (imported now e) = py_trunc (created_at e + real_of_int (ce_ttl e) - now)"
  by (simp_all add: imported_def entry_of_def import_args_def)

lemma entry_of_import: "entry_of now d (ce_hash e) (import_args now e) = imported now e"
  by (simp add: imported_def entry_of_def import_args_def)

text \<open>What every stored entry is: a key \<open>store\<close> accepts as it is, storable content. An entry that
  is importable has in addition at least one whole second left.\<close>

definition storable :: "compression_entry \<Rightarrow> bool" where
  "storable e \<longleftrightarrow> hex_key (ce_hash e) \<and> \<not> is_bare_marker (original_content e)"

definition lasting :: "real \<Rightarrow> compression_entry \<Rightarrow> bool" where
  "lasting now e \<longleftrightarrow> 0 < py_trunc (created_at e + real_of_int (ce_ttl e) - now)"

definition importable :: "real \<Rightarrow> compression_entry \<Rightarrow> bool" where
  "importable now e \<longleftrightarrow> storable e \<and> lasting now e"

lemmas importable_defs = importable_def storable_def lasting_def

lemma imported_live: "importable now e \<Longrightarrow> \<not> is_expired now (imported now e)"
  by (simp add: importable_defs is_expired_def)

text \<open>Importing one entry below capacity adds it and keeps the imported ones.\<close>

lemma import_step:
  assumes inv: "store_inv memory_ops mem_wf s" and "importable now e"
    and "mem_get (backend s) (ce_hash e) = None"
    and "int (mem_count (backend s)) < max_entries s"
    and live: "\<And>k x. mem_get (backend s) k = Some x \<Longrightarrow> \<not> is_expired now x"
  obtains s' where "store memory_ops sha now s (import_args now e) = (Inr (ce_hash e), s')"
    "mem_get (backend s') = (mem_get (backend s))(ce_hash e \<mapsto> imported now e)"
    "max_entries s' = max_entries s" "mem_count (backend s') \<le> Suc (mem_count (backend s))"
    "store_inv memory_ops mem_wf s'"
proof -
  let ?a = "import_args now e" and ?k = "ce_hash e"
  let ?s0 = "if enable_feedback s then process_pending_feedback memory_ops s else s"
  have key: "hash_key_of sha (a_original ?a) (a_explicit_hash ?a) = Inr ?k"
    and nb: "\<not> is_bare_marker (a_original ?a)"
    using assms(2) by (simp_all add: importable_defs import_args_def hash_key_of_def hex_key_def)
  have w: "mem_wf (backend s)" using inv by (simp add: store_inv_def)
  obtain s' b1 where st: "store memory_ops sha now s ?a = (Inr ?k, s')"
    and b1: "b1 = backend (if mem_get (backend s) ?k = None
      then evict_if_needed memory_ops now ?s0 else s)"
    and g: "mem_get (backend s') = (mem_get b1)(?k \<mapsto> entry_of now (default_ttl s) ?k ?a)"
    and m: "max_entries s' = max_entries s" and n: "mem_count (backend s') \<le> Suc (mem_count b1)"
    and le: "mem_get b1 \<subseteq>\<^sub>m mem_get (backend s)" and i: "store_inv memory_ops mem_wf s'"
    using mem_store_result [OF inv key nb, where now = now] by metis
  have b1': "b1 = backend (evict_if_needed memory_ops now ?s0)" using b1 assms(3) by simp
  have keep: "mem_get b1 k = Some x" if "mem_get (backend s) k = Some x" for k x
    using mem.evict_below_capacity_keeps_live [of ?s0 k x now] w assms(4) live that
    by (simp add: b1')
  have "mem_get (backend s) \<subseteq>\<^sub>m mem_get b1" using keep by (auto simp: map_le_def)
  with le have e: "mem_get b1 = mem_get (backend s)" by (rule map_le_antisym)
  have "mem_wf b1"
    using mem.evict_if_needed_inv [OF mem.store_inv_feedback [OF inv, of "enable_feedback s"], of now]
    by (simp add: b1' store_inv_def)
  then have "mem_count b1 \<le> mem_count (backend s)"
    using mem.count_mono [OF w, of b1] e by simp
  with st g m n i e show ?thesis by (intro that [of s']) (auto simp: entry_of_import)
qed

lemma import_entries_all:
  assumes "store_inv memory_ops mem_wf s" and "\<forall>e \<in> set es. storable e"
    and "int (mem_count (backend s)) + int (length (filter (lasting now) es)) \<le> max_entries s"
    and "\<forall>k x. mem_get (backend s) k = Some x \<longrightarrow> (\<exists>e \<in> E. lasting now e \<and> k = ce_hash e \<and> x = imported now e)"
    and "set es \<subseteq> E" and "\<forall>e \<in> E. storable e" and "inj_on ce_hash E"
  shows "\<exists>n s'. import_entries memory_ops sha now s es stored = (Inr n, s')
    \<and> (\<forall>e \<in> set es. lasting now e \<longrightarrow> mem_get (backend s') (ce_hash e) = Some (imported now e))
    \<and> mem_get (backend s) \<subseteq>\<^sub>m mem_get (backend s')
    \<and> (\<forall>k x. mem_get (backend s') k = Some x \<longrightarrow> (\<exists>e \<in> E. lasting now e \<and> k = ce_hash e \<and> x = imported now e))"
  using assms
proof (induction es arbitrary: s stored)
  case (Cons e es)
  note I = Cons.prems
  have eE: "e \<in> E" using I(5) by auto
  have live: "\<not> is_expired now x" if "mem_get (backend s) k = Some x" for k x
    using I(4,6) that imported_live by (metis importable_def)
  show ?case
  proof (cases "lasting now e")
    case False
    then have "import_entries memory_ops sha now s (e # es) stored =
        import_entries memory_ops sha now s es stored" by (simp add: lasting_def)
    then show ?thesis using Cons.IH [OF I(1), of stored] I(2-7) False by auto
  next
    case lasting: True
    then have imp: "importable now e" using I(2) by (simp add: importable_def)
    show ?thesis
    proof (cases "mem_get (backend s) (ce_hash e)")
      case (Some x)
      then obtain e' where "e' \<in> E" "ce_hash e = ce_hash e'" "x = imported now e'" using I(4) by blast
      with eE I(7) have x: "x = imported now e" by (metis inj_onD)
      have "fst (exists_entry memory_ops now s (ce_hash e) False)"
        using Some live by (simp add: exists_entry_def)
      then have eq: "import_entries memory_ops sha now s (e # es) stored =
          import_entries memory_ops sha now s es stored" by simp
      obtain n s' where r: "import_entries memory_ops sha now s es stored = (Inr n, s')"
        "\<forall>e \<in> set es. lasting now e \<longrightarrow> mem_get (backend s') (ce_hash e) = Some (imported now e)"
        "mem_get (backend s) \<subseteq>\<^sub>m mem_get (backend s')"
        "\<forall>k x. mem_get (backend s') k = Some x \<longrightarrow> (\<exists>e \<in> E. lasting now e \<and> k = ce_hash e \<and> x = imported now e)"
        using Cons.IH [OF I(1), of stored] I(2-7) lasting by auto
      have "mem_get (backend s') (ce_hash e) = Some (imported now e)"
        using r(3) Some x by (metis domI map_le_def)
      then show ?thesis using r unfolding eq by auto
    next
      case None
      have c: "int (mem_count (backend s)) < max_entries s" using I(3) lasting by simp
      obtain s1 where st: "store memory_ops sha now s (import_args now e) = (Inr (ce_hash e), s1)"
        and g: "mem_get (backend s1) = (mem_get (backend s))(ce_hash e \<mapsto> imported now e)"
        and m: "max_entries s1 = max_entries s"
        and n: "mem_count (backend s1) \<le> Suc (mem_count (backend s))"
        and i: "store_inv memory_ops mem_wf s1"
        by (rule import_step [OF I(1) imp None c live])
      have "\<not> fst (exists_entry memory_ops now s (ce_hash e) False)"
        using None by (simp add: exists_entry_def)
      with lasting st have eq: "import_entries memory_ops sha now s (e # es) stored =
          import_entries memory_ops sha now s1 es (Suc stored)" by (simp add: lasting_def)
      have "\<forall>k x. mem_get (backend s1) k = Some x \<longrightarrow>
          (\<exists>e \<in> E. lasting now e \<and> k = ce_hash e \<and> x = imported now e)"
        using I(4) eE lasting by (auto simp: g)
      then obtain k s' where r: "import_entries memory_ops sha now s1 es (Suc stored) = (Inr k, s')"
        "\<forall>e \<in> set es. lasting now e \<longrightarrow> mem_get (backend s') (ce_hash e) = Some (imported now e)"
        "mem_get (backend s1) \<subseteq>\<^sub>m mem_get (backend s')"
        "\<forall>k x. mem_get (backend s') k = Some x \<longrightarrow> (\<exists>e \<in> E. lasting now e \<and> k = ce_hash e \<and> x = imported now e)"
        using Cons.IH [OF i, of "Suc stored"] I(2,3,5-7) m n lasting by auto
      have "mem_get (backend s') (ce_hash e) = Some (imported now e)"
        using r(3) g by (metis domI fun_upd_same map_le_def)
      moreover have "mem_get (backend s) \<subseteq>\<^sub>m mem_get (backend s')"
        using r(3) None g by (auto simp: map_le_def dom_def)
      ultimately show ?thesis using r unfolding eq by auto
    qed
  qed
qed simp

lemma py_trunc_bounds: "0 < py_trunc x \<Longrightarrow> x - 1 < real_of_int (py_trunc x) \<and> real_of_int (py_trunc x) \<le> x"
  by (auto simp: py_trunc_def split: if_splits)

lemma export_entries_iff:
  "e \<in> set (export_entries memory_ops now s ks) \<longleftrightarrow>
     (\<exists>k \<in> set ks. mem_get (backend s) k = Some e) \<and> \<not> is_expired now e"
  by (force simp: export_entries_def List.map_filter_def)

text \<open>C10: a restart keeps what the markers in the conversation still need. Importing into a fresh
  in-memory store what \<open>export_entries\<close> produced succeeds, and the store then has exactly the
  exported keys whose entry has at least a whole second left, each with the same contents and its
  time of expiry kept to within a second; the others are skipped. The fresh store must have room for
  the entries that are kept.\<close>

theorem export_import_roundtrip:
  assumes "reachable_store sha s" and "hexdigest_ok sha"
    and "es = export_entries memory_ops now s hashes"
    and "int (length (filter (\<lambda>e. 0 < py_trunc (expiration_time e - later)) es)) \<le> mx"
  shows "\<exists>n s'. import_entries memory_ops sha later (new_store memory_ops [] mx ttl fb) es 0 = (Inr n, s')
    \<and> (\<forall>k. mem_get (backend s') k \<noteq> None \<longleftrightarrow> k \<in> set hashes
        \<and> (\<exists>e. mem_get (backend s) k = Some e \<and> \<not> is_expired now e \<and> 0 < py_trunc (expiration_time e - later)))
    \<and> (\<forall>k e'. mem_get (backend s') k = Some e' \<longrightarrow>
        (\<exists>e. mem_get (backend s) k = Some e \<and> original_content e' = original_content e
          \<and> compressed_content e' = compressed_content e
          \<and> expiration_time e - 1 < expiration_time e' \<and> expiration_time e' \<le> expiration_time e))"
proof -
  have ok: "entry_ok k e \<and> hex_key k" if "mem_get (backend s) k = Some e" for k e
    using ok.reachable_sat [OF assms(1)] hexkey.reachable_sat [OF assms(1)] assms(2) that
    by (auto simp: all_entries_def)
  have mem: "mem_get (backend s) (ce_hash e) = Some e \<and> storable e \<and> ce_hash e \<in> set hashes \<and> \<not> is_expired now e"
    if "e \<in> set es" for e
    using that ok by (fastforce simp: assms(3) export_entries_iff entry_ok_def storable_def)
  have lasting: "lasting later e \<longleftrightarrow> 0 < py_trunc (expiration_time e - later)" for e
    by (simp add: lasting_def expiration_time_def)
  let ?s0 = "new_store memory_ops [] mx ttl fb"
  have i: "store_inv memory_ops mem_wf ?s0"
    by (rule reachable_store_inv [OF reachable_store.start])
  have inj: "inj_on ce_hash (set es)" using mem by (metis (no_types, lifting) inj_onI option.inject)
  have "lasting later = (\<lambda>e. 0 < py_trunc (expiration_time e - later))" by (simp add: fun_eq_iff lasting)
  then obtain n s' where r: "import_entries memory_ops sha later ?s0 es 0 = (Inr n, s')"
    and g: "\<forall>e \<in> set es. lasting later e \<longrightarrow> mem_get (backend s') (ce_hash e) = Some (imported later e)"
    and only: "\<forall>k x. mem_get (backend s') k = Some x \<longrightarrow>
      (\<exists>e \<in> set es. lasting later e \<and> k = ce_hash e \<and> x = imported later e)"
    using import_entries_all [OF i, of es later "set es" sha 0] mem inj assms(4)
    by (auto simp: new_store_def mem_defs)
  have 1: "mem_get (backend s') k \<noteq> None"
    if "k \<in> set hashes" "mem_get (backend s) k = Some e" "\<not> is_expired now e" "lasting later e" for k e
  proof -
    have "e \<in> set es" "ce_hash e = k" using that ok by (auto simp: assms(3) export_entries_iff entry_ok_def)
    then show ?thesis using g that(4) by auto
  qed
  have 2: "k \<in> set hashes \<and> mem_get (backend s) k = Some e \<and> \<not> is_expired now e \<and> lasting later e
      \<and> x = imported later e" if "e \<in> set es" "lasting later e" "k = ce_hash e" "x = imported later e" for k x e
    using mem [OF that(1)] that by simp
  have 3: "expiration_time e - 1 < expiration_time (imported later e) \<and> expiration_time (imported later e) \<le> expiration_time e"
    if "lasting later e" for e
    using py_trunc_bounds [of "expiration_time e - later"] that
    by (auto simp: lasting expiration_time_def algebra_simps)
  show ?thesis
  proof (intro exI conjI allI)
    show "import_entries memory_ops sha later ?s0 es 0 = (Inr n, s')" by (rule r)
    show "mem_get (backend s') k \<noteq> None \<longleftrightarrow> k \<in> set hashes \<and> (\<exists>e. mem_get (backend s) k = Some e
        \<and> \<not> is_expired now e \<and> 0 < py_trunc (expiration_time e - later))" for k
      using 1 2 only unfolding lasting by (metis not_None_eq)
    show "mem_get (backend s') k = Some e' \<longrightarrow> (\<exists>e. mem_get (backend s) k = Some e
        \<and> original_content e' = original_content e \<and> compressed_content e' = compressed_content e
        \<and> expiration_time e - 1 < expiration_time e' \<and> expiration_time e' \<le> expiration_time e)" for k e'
      using 2 3 only imported_simps by metis
  qed
qed

theorem export_import_roundtrip_witness:
  "\<exists>n s'. import_entries memory_ops (\<lambda>_. u ''ab'') (19 / 2) (new_store memory_ops [] 1 1800 False)
        (export_entries memory_ops 5 demo3 [u ''aa'', u ''bb'']) 0 = (Inr n, s')
    \<and> mem_get (backend s') (u ''aa'') = None
    \<and> (\<exists>e'. mem_get (backend s') (u ''bb'') = Some e' \<and> original_content e' = u ''bb'' \<and> 1000 < expiration_time e')"
proof -
  let ?sha = "\<lambda>_::pystr. u ''ab''"
  have h: "hexdigest_ok ?sha"
    by (simp add: hexdigest_ok_def is_hex_def u_def ascii_lower_def ascii_lower_char_def)
  have e: "export_entries memory_ops 5 demo3 [u ''aa'', u ''bb''] = [demo_entry ''aa'' 0 10, demo_entry ''bb'' 1 1000]"
    by (simp add: export_entries_def demo_states mem_get_def List.map_filter_simps)
  have g: "mem_get (backend demo3) (u ''bb'') = Some (demo_entry ''bb'' 1 1000)"
    "mem_get (backend demo3) (u ''aa'') = Some (demo_entry ''aa'' 0 10)"
    by (simp_all add: demo_states mem_defs)
  have "int (length (filter (\<lambda>e. 0 < py_trunc (expiration_time e - 19 / 2))
      [demo_entry ''aa'' 0 10, demo_entry ''bb'' 1 1000])) \<le> 1"
    by (simp add: py_trunc_def)
  from export_import_roundtrip [OF demo_reachable(4) h e [symmetric] this, of 1800 False]
  obtain n s' where r: "import_entries memory_ops ?sha (19 / 2) (new_store memory_ops [] 1 1800 False)
      [demo_entry ''aa'' 0 10, demo_entry ''bb'' 1 1000] 0 = (Inr n, s')"
    and d: "\<And>k. mem_get (backend s') k \<noteq> None \<longleftrightarrow> k \<in> set [u ''aa'', u ''bb''] \<and> (\<exists>e. mem_get (backend demo3) k = Some e
        \<and> \<not> is_expired 5 e \<and> 0 < py_trunc (expiration_time e - 19 / 2))"
    and c: "\<And>k e'. mem_get (backend s') k = Some e' \<Longrightarrow> (\<exists>e. mem_get (backend demo3) k = Some e
        \<and> original_content e' = original_content e \<and> expiration_time e - 1 < expiration_time e')"
    by blast
  have "mem_get (backend s') (u ''aa'') = None" using d [of "u ''aa''"] g by (simp add: py_trunc_def)
  moreover have "mem_get (backend s') (u ''bb'') \<noteq> None" using d [of "u ''bb''"] g by (simp add: py_trunc_def)
  then obtain e' where e': "mem_get (backend s') (u ''bb'') = Some e'" by blast
  ultimately show ?thesis using r c [OF e'] g e' by (auto simp: e)
qed

end
