(* ===== verification/Json.thy ===== *)
theory Json
  imports Prelude
begin

text \<open>
  The values a request body is made of after \<open>json.loads\<close>, and the dictionary operations the
  components use on them. A JSON object is a Python \<open>dict\<close>: an association list in insertion
  order with distinct keys. Floats are exact rationals.
\<close>

datatype json =
    JNull
  | JBool bool
  | JInt int
  | JFloat rat
  | JStr pystr
  | JList "json list"
  | JObj "(pystr \<times> json) list"

type_synonym pydict = "(pystr \<times> json) list"
type_synonym message = pydict

text \<open>Exceptions the modelled code can raise on ill-typed values.\<close>

datatype py_error = PyTypeError | PyAttributeError | PyKeyError | PyValueError

text \<open>\<open>d.get(k)\<close> with \<open>None\<close> for a missing key is \<open>JNull\<close>; \<open>d.get(k, x)\<close> is
  \<open>dget_default\<close>.\<close>

definition dget :: "pydict \<Rightarrow> string \<Rightarrow> json" where
  "dget d k = (case map_of d (u k) of Some v \<Rightarrow> v | None \<Rightarrow> JNull)"

definition dget_default :: "pydict \<Rightarrow> string \<Rightarrow> json \<Rightarrow> json" where
  "dget_default d k x = (case map_of d (u k) of Some v \<Rightarrow> v | None \<Rightarrow> x)"

definition dset :: "pydict \<Rightarrow> string \<Rightarrow> json \<Rightarrow> pydict" where
  "dset d k v = AList.update (u k) v d"

lemma dget_dset [simp]: "dget (dset d k v) k' = (if k = k' then v else dget d k')"
  by (simp add: dget_def dset_def update_conv')

lemma dget_Nil [simp]: "dget [] k = JNull"
  by (simp add: dget_def)

lemma dget_Cons [simp]: "dget ((u k, v) # d) k' = (if k = k' then v else dget d k')"
  by (simp add: dget_def)

lemma dget_default_Nil [simp]: "dget_default [] k x = x"
  by (simp add: dget_default_def)

lemma dget_default_Cons [simp]:
  "dget_default ((u k, v) # d) k' x = (if k = k' then v else dget_default d k' x)"
  by (simp add: dget_default_def)

lemma dset_Nil [simp]: "dset [] k v = [(u k, v)]"
  by (simp add: dset_def)

lemma dset_Cons [simp]:
  "dset ((u k', v') # d) k v = (if k = k' then (u k, v) # d else (u k', v') # dset d k v)"
  by (simp add: dset_def)

lemma map_fst_dset [simp]:
  "map_of d (u k) \<noteq> None \<Longrightarrow> map fst (dset d k v) = map fst d"
  by (induction d) (auto simp: dset_def)

lemma dget_not_null: "dget d k \<noteq> JNull \<Longrightarrow> map_of d (u k) \<noteq> None"
  by (auto simp: dget_def split: option.splits)

lemma dset_same: "map_of d (u k) = Some v \<Longrightarrow> dset d k v = d"
  by (induction d) (auto simp: dset_def)

text \<open>\<open>d.get(k) == s\<close> for a string literal, and whether a list element is a dictionary with
  \<open>type == t\<close>.\<close>

definition is_block :: "string \<Rightarrow> json \<Rightarrow> bool" where
  "is_block t b = (case b of JObj d \<Rightarrow> dget d ''type'' = JStr (u t) | _ \<Rightarrow> False)"

lemma is_block_simps [simp]:
  "is_block t (JObj d) = (dget d ''type'' = JStr (u t))" "\<not> is_block t JNull"
  "\<not> is_block t (JBool b)" "\<not> is_block t (JInt i)" "\<not> is_block t (JFloat f)"
  "\<not> is_block t (JStr s)" "\<not> is_block t (JList l)"
  by (simp_all add: is_block_def)

lemma is_blockE:
  assumes "is_block t b"
  obtains d where "b = JObj d" "dget d ''type'' = JStr (u t)"
  using assms by (cases b) auto

definition is_str :: "json \<Rightarrow> bool" where
  "is_str v = (case v of JStr s \<Rightarrow> True | _ \<Rightarrow> False)"

lemma is_str_simps [simp]:
  "is_str (JStr s)" "\<not> is_str JNull" "\<not> is_str (JBool b)" "\<not> is_str (JInt i)" "\<not> is_str (JFloat f)"
  "\<not> is_str (JList l)" "\<not> is_str (JObj d)"
  by (simp_all add: is_str_def)

text \<open>The truth value of a Python object, \<open>bool(x)\<close>.\<close>

definition truthy :: "json \<Rightarrow> bool" where
  "truthy v = (case v of JNull \<Rightarrow> False | JBool b \<Rightarrow> b | JInt i \<Rightarrow> i \<noteq> 0 | JFloat f \<Rightarrow> f \<noteq> 0
     | JStr s \<Rightarrow> s \<noteq> [] | JList l \<Rightarrow> l \<noteq> [] | JObj d \<Rightarrow> d \<noteq> [])"

lemma truthy_simps [simp]:
  "\<not> truthy JNull" "truthy (JBool b) = b" "truthy (JInt i) = (i \<noteq> 0)"
  "truthy (JFloat f) = (f \<noteq> 0)" "truthy (JStr s) = (s \<noteq> [])" "truthy (JList l) = (l \<noteq> [])"
  "truthy (JObj d) = (d \<noteq> [])"
  by (simp_all add: truthy_def)

text \<open>\<open>xs[:n]\<close> and \<open>xs[n:]\<close> for an arbitrary Python integer.\<close>

definition py_take :: "int \<Rightarrow> 'a list \<Rightarrow> 'a list" where
  "py_take n xs = (if 0 \<le> n then take (nat n) xs else take (nat (int (length xs) + n)) xs)"

definition py_drop :: "int \<Rightarrow> 'a list \<Rightarrow> 'a list" where
  "py_drop n xs = (if 0 \<le> n then drop (nat n) xs else drop (nat (int (length xs) + n)) xs)"

lemma py_take_drop [simp]: "py_take n xs @ py_drop n xs = xs"
  by (simp add: py_take_def py_drop_def)

lemma py_take_of_nat [simp]: "py_take (int n) xs = take n xs"
  and py_drop_of_nat [simp]: "py_drop (int n) xs = drop n xs"
  by (simp_all add: py_take_def py_drop_def)

section \<open>Python equality, ordering and addition\<close>

text \<open>Booleans and numbers compare by value (\<open>True == 1 == 1.0\<close>).\<close>

fun num_of :: "json \<Rightarrow> rat option" where
  "num_of (JBool b) = Some (of_bool b)"
| "num_of (JInt i) = Some (of_int i)"
| "num_of (JFloat f) = Some f"
| "num_of v = None"

text \<open>\<open>==\<close>: dictionaries compare as maps, whatever their insertion order.\<close>

fun json_eq :: "json \<Rightarrow> json \<Rightarrow> bool"
  and list_eq :: "json list \<Rightarrow> json list \<Rightarrow> bool"
  and dict_sub :: "pydict \<Rightarrow> pydict \<Rightarrow> bool" where
  "json_eq (JStr s) w = (w = JStr s)"
| "json_eq JNull w = (w = JNull)"
| "json_eq (JList xs) w = (case w of JList ys \<Rightarrow> list_eq xs ys | _ \<Rightarrow> False)"
| "json_eq (JObj d) w = (case w of JObj d' \<Rightarrow> length d = length d' \<and> dict_sub d d' | _ \<Rightarrow> False)"
| "json_eq v w = (num_of w = num_of v)"
| "list_eq [] ys = (ys = [])"
| "list_eq (x # xs) ys = (case ys of [] \<Rightarrow> False | y # ys' \<Rightarrow> json_eq x y \<and> list_eq xs ys')"
| "dict_sub [] d' = True"
| "dict_sub ((k, v) # d) d' =
     (case map_of d' k of None \<Rightarrow> False | Some w \<Rightarrow> json_eq v w \<and> dict_sub d d')"

text \<open>\<open>a <= b\<close> and \<open>a + b\<close>; a combination without that operator raises
  \<open>TypeError\<close>.\<close>

fun py_le :: "json \<Rightarrow> json \<Rightarrow> py_error + bool"
  and list_le :: "json list \<Rightarrow> json list \<Rightarrow> py_error + bool" where
  "py_le (JStr a) w = (case w of JStr b \<Rightarrow> Inr (a \<le> b) | _ \<Rightarrow> Inl PyTypeError)"
| "py_le (JList xs) w = (case w of JList ys \<Rightarrow> list_le xs ys | _ \<Rightarrow> Inl PyTypeError)"
| "py_le JNull w = Inl PyTypeError"
| "py_le (JObj d) w = Inl PyTypeError"
| "py_le v w = (case (num_of v, num_of w) of (Some x, Some y) \<Rightarrow> Inr (x \<le> y) | _ \<Rightarrow> Inl PyTypeError)"
| "list_le [] ys = Inr True"
| "list_le (x # xs) ys =
     (case ys of
        [] \<Rightarrow> Inr False
      | y # ys' \<Rightarrow> if json_eq x y then list_le xs ys' else py_le x y)"

definition py_add :: "json \<Rightarrow> json \<Rightarrow> py_error + json" where
  "py_add a b =
     (case (a, b) of
        (JStr x, JStr y) \<Rightarrow> Inr (JStr (x @ y))
      | (JList x, JList y) \<Rightarrow> Inr (JList (x @ y))
      | _ \<Rightarrow>
          (case (num_of a, num_of b) of
             (Some x, Some y) \<Rightarrow>
               Inr (case (a, b) of
                      (JFloat _, _) \<Rightarrow> JFloat (x + y)
                    | (_, JFloat _) \<Rightarrow> JFloat (x + y)
                    | _ \<Rightarrow> JInt \<lfloor>x + y\<rfloor>)
           | _ \<Rightarrow> Inl PyTypeError))"

lemma py_add_int [simp]: "py_add (JInt x) (JInt y) = Inr (JInt (x + y))"
  by (simp add: py_add_def flip: of_int_add)

section \<open>Values as dictionary keys, and iteration\<close>

text \<open>A list or dictionary is unhashable; numbers that are equal are the same key.\<close>

definition hashable :: "json \<Rightarrow> bool" where
  "hashable v = (case v of JList _ \<Rightarrow> False | JObj _ \<Rightarrow> False | _ \<Rightarrow> True)"

definition key_norm :: "json \<Rightarrow> json" where
  "key_norm v = (case num_of v of
     Some x \<Rightarrow> if x = of_int \<lfloor>x\<rfloor> then JInt \<lfloor>x\<rfloor> else JFloat x | None \<Rightarrow> v)"

lemma key_norm_simps [simp]:
  "key_norm (JStr s) = JStr s" "key_norm JNull = JNull" "key_norm (JInt i) = JInt i"
  "key_norm (JList l) = JList l" "key_norm (JObj d) = JObj d"
  by (simp_all add: key_norm_def)

lemma hashable_simps [simp]:
  "hashable (JStr s)" "hashable JNull" "hashable (JInt i)" "\<not> hashable (JList l)" "\<not> hashable (JObj d)"
  by (simp_all add: hashable_def)

text \<open>\<open>for x in v or []\<close>: a dictionary yields its keys, a string its characters, a number raises.\<close>

definition iter_or_empty :: "json \<Rightarrow> py_error + json list" where
  "iter_or_empty v =
     (if \<not> truthy v then Inr []
      else case v of
             JList xs \<Rightarrow> Inr xs
           | JObj d \<Rightarrow> Inr (map (JStr \<circ> fst) d)
           | JStr s \<Rightarrow> Inr (map (\<lambda>c. JStr [c]) s)
           | _ \<Rightarrow> Inl PyTypeError)"

lemma iter_or_empty_simps [simp]:
  "iter_or_empty JNull = Inr []" "iter_or_empty (JList xs) = Inr xs"
  by (simp_all add: iter_or_empty_def)

end
