(* ===== verification/Compression_Cache.thy ===== *)
theory Compression_Cache
  imports Json Py_Text
begin

text \<open>
  \<open>headroom/cache/compression_cache.py\<close>: the content-addressed cache that replays, turn after
  turn, the compressed form of each tool result, so that the bytes a provider has cached do not
  change. \<open>md5\<close> stands for \<open>hashlib.md5(s.encode("utf-8")).hexdigest()\<close> on the strings that
  \<open>encode\<close> accepts; the \<open>UnicodeEncodeError\<close> for a lone surrogate is a \<open>ValueError\<close>. A call that
  fails with a Python exception is an \<open>Inl\<close>, next to the state it leaves. \<open>max_entries\<close>
  is a natural number; locks are omitted since every method runs under the instance's lock.
\<close>

section \<open>Tool results in messages\<close>

definition is_tool_result_message :: "message \<Rightarrow> bool" where
  "is_tool_result_message msg =
     (if dget msg ''role'' = JStr (u ''tool'') then True
      else case dget msg ''content'' of
             JList blocks \<Rightarrow> list_ex (is_block ''tool_result'') blocks
           | _ \<Rightarrow> False)"

text \<open>The \<open>text\<close> values of the text blocks; \<open>str.join\<close> raises on one that is not a string.\<close>

fun block_texts :: "json list \<Rightarrow> json list" where
  "block_texts [] = []"
| "block_texts (b # bs) =
     (case b of
        JObj d \<Rightarrow> if dget d ''type'' = JStr (u ''text'')
                 then dget_default d ''text'' (JStr []) # block_texts bs else block_texts bs
      | _ \<Rightarrow> block_texts bs)"

fun all_strings :: "json list \<Rightarrow> py_error + pystr list" where
  "all_strings [] = Inr []"
| "all_strings (t # ts) =
     (case t of JStr s \<Rightarrow> bindR (all_strings ts) (\<lambda>r. Inr (s # r)) | _ \<Rightarrow> Inl PyTypeError)"

definition extract_text_from_blocks :: "json list \<Rightarrow> py_error + pystr option" where
  "extract_text_from_blocks blocks =
     bindR (all_strings (filter (\<lambda>t. t \<noteq> JStr []) (block_texts blocks)))
       (\<lambda>ts. let joined = join [newline] ts in Inr (if joined \<noteq> [] then Some joined else None))"

fun first_tool_result :: "json list \<Rightarrow> py_error + pystr option" where
  "first_tool_result [] = Inr None"
| "first_tool_result (b # bs) =
     (case b of
        JObj d \<Rightarrow>
          if dget d ''type'' = JStr (u ''tool_result'')
          then (case dget d ''content'' of
                  JStr s \<Rightarrow> Inr (Some s)
                | JList inner \<Rightarrow> extract_text_from_blocks inner
                | _ \<Rightarrow> first_tool_result bs)
          else first_tool_result bs
      | _ \<Rightarrow> first_tool_result bs)"

definition extract_tool_result_content :: "message \<Rightarrow> py_error + pystr option" where
  "extract_tool_result_content msg =
     (if dget msg ''role'' = JStr (u ''tool'')
      then (case dget msg ''content'' of
              JStr s \<Rightarrow> Inr (Some s)
            | JList blocks \<Rightarrow> extract_text_from_blocks blocks
            | _ \<Rightarrow> Inr None)
      else (case dget msg ''content'' of
              JList blocks \<Rightarrow> first_tool_result blocks
            | _ \<Rightarrow> Inr None))"

text \<open>A list that holds exactly one text block with a string \<open>text\<close>.\<close>

fun single_text_block :: "json list \<Rightarrow> bool" where
  "single_text_block [JObj d] = (dget d ''type'' = JStr (u ''text'') \<and> is_str (dget d ''text''))"
| "single_text_block bs = False"

definition can_swap_tool_result_content :: "message \<Rightarrow> bool" where
  "can_swap_tool_result_content msg =
     (if dget msg ''role'' \<noteq> JStr (u ''tool'') then True
      else case dget msg ''content'' of
             JStr s \<Rightarrow> True
           | JList bs \<Rightarrow> single_text_block bs
           | _ \<Rightarrow> False)"

text \<open>\<open>any(...)\<close> evaluates its items in order and stops at the first hit.\<close>

fun any_text :: "json list \<Rightarrow> py_error + bool" where
  "any_text [] = Inr False"
| "any_text (c # cs) =
     (case c of
        JStr s \<Rightarrow> Inr True
      | JList inner \<Rightarrow>
          bindR (extract_text_from_blocks inner) (\<lambda>t. if t \<noteq> None then Inr True else any_text cs)
      | _ \<Rightarrow> any_text cs)"

fun tool_result_contents :: "json list \<Rightarrow> json list" where
  "tool_result_contents [] = []"
| "tool_result_contents (b # bs) =
     (case b of
        JObj d \<Rightarrow> if dget d ''type'' = JStr (u ''tool_result'')
                 then dget d ''content'' # tool_result_contents bs else tool_result_contents bs
      | _ \<Rightarrow> tool_result_contents bs)"

text \<open>Iterating over a truthy \<open>content\<close> that is a number raises; over a string or a dictionary
  it meets only strings.\<close>

definition carries_tool_result_text :: "message \<Rightarrow> py_error + bool" where
  "carries_tool_result_text msg =
     (if dget msg ''role'' = JStr (u ''tool'') then any_text [dget msg ''content'']
      else case dget msg ''content'' of
             JList blocks \<Rightarrow> any_text (tool_result_contents blocks)
           | JBool True \<Rightarrow> Inl PyTypeError
           | JInt i \<Rightarrow> if i \<noteq> 0 then Inl PyTypeError else Inr False
           | JFloat f \<Rightarrow> if f \<noteq> 0 then Inl PyTypeError else Inr False
           | _ \<Rightarrow> Inr False)"

text \<open>Replace the first \<open>tool_result\<close> block's content; a list of blocks collapses to one text
  block.\<close>

fun swap_first_tool_result :: "json list \<Rightarrow> pystr \<Rightarrow> json list" where
  "swap_first_tool_result [] new = []"
| "swap_first_tool_result (b # bs) new =
     (case b of
        JObj d \<Rightarrow>
          if dget d ''type'' = JStr (u ''tool_result'')
          then JObj (dset d ''content''
                 (case dget d ''content'' of
                    JList inner \<Rightarrow> JList [JObj [(u ''type'', JStr (u ''text'')), (u ''text'', JStr new)]]
                  | _ \<Rightarrow> JStr new)) # bs
          else b # swap_first_tool_result bs new
      | _ \<Rightarrow> b # swap_first_tool_result bs new)"

fun set_first_text :: "json list \<Rightarrow> pystr \<Rightarrow> json list" where
  "set_first_text (JObj d # rest) new = JObj (dset d ''text'' (JStr new)) # rest"
| "set_first_text bs new = bs"

definition swap_tool_result_content :: "message \<Rightarrow> pystr \<Rightarrow> message" where
  "swap_tool_result_content msg new =
     (if \<not> can_swap_tool_result_content msg then msg
      else if dget msg ''role'' = JStr (u ''tool'')
      then (case dget msg ''content'' of
              JList bs \<Rightarrow> dset msg ''content'' (JList (set_first_text bs new))
            | _ \<Rightarrow> dset msg ''content'' (JStr new))
      else (case dget msg ''content'' of
              JList blocks \<Rightarrow> dset msg ''content'' (JList (swap_first_tool_result blocks new))
            | _ \<Rightarrow> msg))"

section \<open>The cache\<close>

record cache_entry =
  compressed :: pystr
  tokens_saved :: int

record ccache =
  cc_max_entries :: nat
  cc_cache :: "(pystr, cache_entry) odict"
  stable_hashes :: "(pystr, unit) odict"
  first_seen :: "(pystr, real) odict"
  cc_hits :: int
  cc_misses :: int
  total_tokens_saved :: int

definition new_cache :: "nat \<Rightarrow> ccache" where
  "new_cache mx = \<lparr>cc_max_entries = mx, cc_cache = [], stable_hashes = [], first_seen = [],
     cc_hits = 0, cc_misses = 0, total_tokens_saved = 0\<rparr>"

definition get_compressed :: "ccache \<Rightarrow> pystr \<Rightarrow> pystr option \<times> ccache" where
  "get_compressed c h =
     (case map_of (cc_cache c) h of
        None \<Rightarrow> (None, c\<lparr>cc_misses := cc_misses c + 1\<rparr>)
      | Some e \<Rightarrow> (Some (compressed e),
          c\<lparr>cc_hits := cc_hits c + 1, cc_cache := move_to_end h (cc_cache c)\<rparr>))"

text \<open>The eviction loop of \<open>store_compressed\<close>, with the running total.\<close>

fun evict_compressed :: "nat \<Rightarrow> (pystr, cache_entry) odict \<Rightarrow> int \<Rightarrow> (pystr, cache_entry) odict \<times> int" where
  "evict_compressed mx [] tot = ([], tot)"
| "evict_compressed mx ((h, e) # d) tot =
     (if mx < length ((h, e) # d) then evict_compressed mx d (tot - tokens_saved e)
      else ((h, e) # d, tot))"

definition store_compressed :: "ccache \<Rightarrow> pystr \<Rightarrow> pystr \<Rightarrow> int \<Rightarrow> ccache" where
  "store_compressed c h txt saved =
     (let (d1, t1) = (case map_of (cc_cache c) h of
                        Some old \<Rightarrow> (AList.delete h (cc_cache c), total_tokens_saved c - tokens_saved old)
                      | None \<Rightarrow> (cc_cache c, total_tokens_saved c));
          d2 = AList.update h \<lparr>compressed = txt, tokens_saved = saved\<rparr> d1;
          (d3, t3) = evict_compressed (cc_max_entries c) d2 (t1 + saved) in
      c\<lparr>cc_cache := d3, total_tokens_saved := t3\<rparr>)"

definition mark_stable :: "ccache \<Rightarrow> pystr \<Rightarrow> ccache" where
  "mark_stable c h =
     c\<lparr>stable_hashes := trim_oldest (cc_max_entries c)
         (move_to_end h (AList.update h () (stable_hashes c)))\<rparr>"

definition record_first_seen :: "ccache \<Rightarrow> pystr \<Rightarrow> real \<Rightarrow> ccache" where
  "record_first_seen c h t =
     c\<lparr>first_seen := trim_oldest (cc_max_entries c) (move_to_end h (AList.update h t (first_seen c)))\<rparr>"

fun prune_seen :: "real \<Rightarrow> real \<Rightarrow> (pystr, real) odict \<Rightarrow> (pystr, real) odict" where
  "prune_seen now ttl [] = []"
| "prune_seen now ttl ((h, t) # d) = (if now - t < ttl then (h, t) # d else prune_seen now ttl d)"

definition prune_expired_first_seen :: "real \<Rightarrow> real \<Rightarrow> ccache \<Rightarrow> ccache" where
  "prune_expired_first_seen now ttl c = c\<lparr>first_seen := prune_seen now ttl (first_seen c)\<rparr>"

definition should_defer_compression ::
  "real \<Rightarrow> real \<Rightarrow> real \<Rightarrow> ccache \<Rightarrow> pystr \<Rightarrow> bool \<times> ccache" where
  "should_defer_compression now ttl batch_window c h =
     (let c1 = prune_expired_first_seen now ttl c in
      case map_of (first_seen c1) h of
        None \<Rightarrow> (False, record_first_seen c1 h now)
      | Some t \<Rightarrow>
          if now - t \<ge> ttl - batch_window then (False, record_first_seen c1 h now)
          else (True, c1))"

definition cache_stats :: "ccache \<Rightarrow> nat \<times> nat \<times> int \<times> int \<times> int" where
  "cache_stats c = (length (cc_cache c), length (stable_hashes c), cc_hits c, cc_misses c,
     total_tokens_saved c)"

definition content_hash :: "(pystr \<Rightarrow> pystr) \<Rightarrow> pystr \<Rightarrow> py_error + pystr" where
  "content_hash md5 content = (if list_ex is_surrogate content then Inl PyValueError else Inr (take 16 (md5 content)))"

fun mark_stable_list :: "(pystr \<Rightarrow> pystr) \<Rightarrow> ccache \<Rightarrow> message list \<Rightarrow> (py_error + unit) \<times> ccache" where
  "mark_stable_list md5 c [] = (Inr (), c)"
| "mark_stable_list md5 c (msg # msgs) =
     (if is_tool_result_message msg then
        (case extract_tool_result_content msg of
           Inl e \<Rightarrow> (Inl e, c)
         | Inr None \<Rightarrow> mark_stable_list md5 c msgs
         | Inr (Some content) \<Rightarrow>
             (case content_hash md5 content of
                Inl e \<Rightarrow> (Inl e, c)
              | Inr h \<Rightarrow> mark_stable_list md5 (mark_stable c h) msgs))
      else mark_stable_list md5 c msgs)"

definition mark_stable_from_messages ::
  "(pystr \<Rightarrow> pystr) \<Rightarrow> ccache \<Rightarrow> message list \<Rightarrow> int \<Rightarrow> (py_error + unit) \<times> ccache" where
  "mark_stable_from_messages md5 c msgs up_to = mark_stable_list md5 c (py_take up_to msgs)"

text \<open>Whether the walk of \<open>compute_frozen_count\<close> steps over a message.\<close>

definition frozen_step :: "(pystr \<Rightarrow> pystr) \<Rightarrow> ccache \<Rightarrow> message \<Rightarrow> py_error + bool" where
  "frozen_step md5 c msg =
     (if is_tool_result_message msg then
        if \<not> can_swap_tool_result_content msg then Inr False
        else bindR (extract_tool_result_content msg) (\<lambda>content.
          case content of
            Some t \<Rightarrow> bindR (content_hash md5 t) (\<lambda>h.
                      Inr (map_of (cc_cache c) h \<noteq> None \<or> map_of (stable_hashes c) h \<noteq> None))
          | None \<Rightarrow> bindR (carries_tool_result_text msg) (\<lambda>b. Inr (\<not> b)))
      else Inr True)"

fun frozen_walk :: "(pystr \<Rightarrow> pystr) \<Rightarrow> ccache \<Rightarrow> message list \<Rightarrow> nat \<Rightarrow> py_error + nat" where
  "frozen_walk md5 c [] n = Inr n"
| "frozen_walk md5 c (msg # msgs) n =
     bindR (frozen_step md5 c msg) (\<lambda>ok. if ok then frozen_walk md5 c msgs (Suc n) else Inr n)"

definition compute_frozen_count :: "(pystr \<Rightarrow> pystr) \<Rightarrow> ccache \<Rightarrow> message list \<Rightarrow> py_error + nat" where
  "compute_frozen_count md5 c msgs =
     bindR (frozen_walk md5 c msgs 0) (\<lambda>n. Inr (min n (length msgs - 1)))"

definition apply_one :: "(pystr \<Rightarrow> pystr) \<Rightarrow> ccache \<Rightarrow> message \<Rightarrow> (py_error + message) \<times> ccache" where
  "apply_one md5 c msg =
     (if \<not> can_swap_tool_result_content msg \<or> \<not> is_tool_result_message msg then (Inr msg, c)
      else case extract_tool_result_content msg of
             Inl e \<Rightarrow> (Inl e, c)
           | Inr None \<Rightarrow> (Inr msg, c)
           | Inr (Some content) \<Rightarrow>
               (case content_hash md5 content of
                  Inl e \<Rightarrow> (Inl e, c)
                | Inr h \<Rightarrow>
                    (case get_compressed c h of
                       (None, c') \<Rightarrow> (Inr msg, c')
                     | (Some t, c') \<Rightarrow> (Inr (swap_tool_result_content msg t), c'))))"

fun apply_cached ::
  "(pystr \<Rightarrow> pystr) \<Rightarrow> ccache \<Rightarrow> message list \<Rightarrow> (py_error + message list) \<times> ccache" where
  "apply_cached md5 c [] = (Inr [], c)"
| "apply_cached md5 c (msg # msgs) =
     (case apply_one md5 c msg of
        (Inl e, c') \<Rightarrow> (Inl e, c')
      | (Inr m, c') \<Rightarrow>
          (case apply_cached md5 c' msgs of
             (Inl e, c'') \<Rightarrow> (Inl e, c'')
           | (Inr ms, c'') \<Rightarrow> (Inr (m # ms), c'')))"

definition update_one :: "(pystr \<Rightarrow> pystr) \<Rightarrow> ccache \<Rightarrow> pystr \<Rightarrow> pystr \<Rightarrow> py_error + ccache" where
  "update_one md5 c orig_content comp_content =
     bindR (content_hash md5 orig_content) (\<lambda>h.
       if orig_content = comp_content then Inr (mark_stable c h)
       else let saved = int (length orig_content) div 4 - int (length comp_content) div 4 in
            Inr (store_compressed c h comp_content (max saved 0)))"

fun update_pairs ::
  "(pystr \<Rightarrow> pystr) \<Rightarrow> ccache \<Rightarrow> (message \<times> message) list \<Rightarrow> (py_error + unit) \<times> ccache" where
  "update_pairs md5 c [] = (Inr (), c)"
| "update_pairs md5 c ((orig, new) # ps) =
     (case extract_tool_result_content orig of
        Inl e \<Rightarrow> (Inl e, c)
      | Inr oc \<Rightarrow>
          (case extract_tool_result_content new of
             Inl e \<Rightarrow> (Inl e, c)
           | Inr cc \<Rightarrow>
               (case (oc, cc) of
                  (Some x, Some y) \<Rightarrow>
                    (case update_one md5 c x y of
                       Inl e \<Rightarrow> (Inl e, c)
                     | Inr c' \<Rightarrow> update_pairs md5 c' ps)
                | _ \<Rightarrow> update_pairs md5 c ps)))"

definition update_from_result ::
  "(pystr \<Rightarrow> pystr) \<Rightarrow> ccache \<Rightarrow> message list \<Rightarrow> message list \<Rightarrow> (py_error + unit) \<times> ccache" where
  "update_from_result md5 c originals compressed_msgs =
     (if length originals \<noteq> length compressed_msgs then (Inr (), c)
      else update_pairs md5 c (zip originals compressed_msgs))"

end
