(* ===== verification/Compression_Cache_Props.thy ===== *)
theory Compression_Cache_Props
  imports Compression_Cache
begin

text \<open>
  Correctness of the compression cache: the size and accounting invariant over all runs, the round
  trip between rewriting a tool result and reading it back, the replay of cached compressions as a
  pure function of the cached map, and the frozen-prefix walk.
\<close>

section \<open>Reading back a rewritten tool result\<close>

lemma extract_single_text:
  "t \<noteq> [] \<Longrightarrow> dget d ''type'' = JStr (u ''text'') \<Longrightarrow> dget d ''text'' = JStr t \<Longrightarrow>
   extract_text_from_blocks [JObj d] = Inr (Some t)"
  by (auto simp: extract_text_from_blocks_def dget_default_def dget_def split: option.splits)

lemma first_tool_result_swap:
  "new \<noteq> [] \<Longrightarrow> list_ex (is_block ''tool_result'') bs \<Longrightarrow>
   first_tool_result (swap_first_tool_result bs new) = Inr (Some new)"
proof (induction bs)
  case (Cons b bs)
  show ?case
  proof (cases "is_block ''tool_result'' b")
    case True
    then obtain d where "b = JObj d" "dget d ''type'' = JStr (u ''tool_result'')" by (rule is_blockE)
    then show ?thesis using Cons.prems
      by (auto simp: extract_single_text split: json.splits)
  next
    case False
    with Cons show ?thesis by (cases b) auto
  qed
qed simp

lemma swap_other_keys:
  "k \<noteq> ''content'' \<Longrightarrow> dget (swap_tool_result_content msg new) k = dget msg k"
  by (simp add: swap_tool_result_content_def split: json.splits list.splits)

lemma single_text_blockE:
  assumes "single_text_block bs"
  obtains d where "bs = [JObj d]" "dget d ''type'' = JStr (u ''text'')" "is_str (dget d ''text'')"
  using assms by (cases bs rule: single_text_block.cases) auto

lemma extract_swap:
  assumes "can_swap_tool_result_content msg" and "is_tool_result_message msg" and "new \<noteq> []"
  shows "extract_tool_result_content (swap_tool_result_content msg new) = Inr (Some new)"
proof (cases "dget msg ''role'' = JStr (u ''tool'')")
  case True
  show ?thesis
  proof (cases "dget msg ''content''")
    case (JList bs)
    with assms(1) True have "single_text_block bs" by (simp add: can_swap_tool_result_content_def)
    then obtain d where "bs = [JObj d]" "dget d ''type'' = JStr (u ''text'')"
      by (rule single_text_blockE)
    then show ?thesis using assms(1,3) True JList
      by (simp add: swap_tool_result_content_def extract_tool_result_content_def extract_single_text)
  qed (use assms(1) True in
      \<open>simp_all add: can_swap_tool_result_content_def swap_tool_result_content_def
        extract_tool_result_content_def\<close>)
next
  case False
  then obtain bs where "dget msg ''content'' = JList bs" "list_ex (is_block ''tool_result'') bs"
    using assms(2) by (auto simp: is_tool_result_message_def split: json.splits)
  then show ?thesis using False assms(1,3)
    by (simp add: swap_tool_result_content_def extract_tool_result_content_def first_tool_result_swap)
qed

lemma swap_blocks_frame:
  "map (is_block t) (swap_first_tool_result bs new) = map (is_block t) bs"
  "map (is_block t) (set_first_text bs new) = map (is_block t) bs"
proof (induction bs)
  case (Cons b bs)
  show "map (is_block t) (swap_first_tool_result (b # bs) new) = map (is_block t) (b # bs)"
    using Cons(1) by (cases b) (auto split: json.splits)
  show "map (is_block t) (set_first_text (b # bs) new) = map (is_block t) (b # bs)"
    by (cases b) auto
qed simp_all

text \<open>Rewriting a tool result and reading it back. Where the shape allows a rewrite, the text
  extracted from the rewritten message is the (non-empty) replacement; every other key of the
  message and the number and kinds of its content blocks are unchanged; a message whose shape does
  not allow it is returned as it is.\<close>

theorem swap_extract_roundtrip:
  "(can_swap_tool_result_content msg \<and> is_tool_result_message msg \<and> new \<noteq> [] \<longrightarrow>
      extract_tool_result_content (swap_tool_result_content msg new) = Inr (Some new))
   \<and> (k \<noteq> ''content'' \<longrightarrow> dget (swap_tool_result_content msg new) k = dget msg k)
   \<and> (dget msg ''content'' = JList bs \<longrightarrow>
      (\<exists>bs'. dget (swap_tool_result_content msg new) ''content'' = JList bs'
         \<and> map (is_block t) bs' = map (is_block t) bs))
   \<and> (\<not> can_swap_tool_result_content msg \<longrightarrow> swap_tool_result_content msg new = msg)"
proof (intro conjI impI)
  assume "dget msg ''content'' = JList bs"
  then show "\<exists>bs'. dget (swap_tool_result_content msg new) ''content'' = JList bs'
      \<and> map (is_block t) bs' = map (is_block t) bs"
    by (simp add: swap_tool_result_content_def swap_blocks_frame)
next
  assume "\<not> can_swap_tool_result_content msg"
  then show "swap_tool_result_content msg new = msg" by (simp add: swap_tool_result_content_def)
qed (auto simp: swap_other_keys extract_swap)

definition demo_tool_msg :: "string \<Rightarrow> message" where
  "demo_tool_msg txt = [(u ''role'', JStr (u ''user'')), (u ''content'', JList
     [JObj [(u ''type'', JStr (u ''tool_result'')), (u ''tool_use_id'', JStr (u ''t1'')),
            (u ''content'', JStr (u txt))]])]"

theorem swap_extract_roundtrip_witness:
  "extract_tool_result_content (swap_tool_result_content (demo_tool_msg ''long output'') (u ''short''))
     = Inr (Some (u ''short''))
   \<and> dget (swap_tool_result_content (demo_tool_msg ''long output'') (u ''short'')) ''role''
     = dget (demo_tool_msg ''long output'') ''role''"
  using swap_extract_roundtrip [of "demo_tool_msg ''long output''" "u ''short''" "''role''"]
  by (simp add: demo_tool_msg_def can_swap_tool_result_content_def is_tool_result_message_def)

text \<open>A message can carry several tool results, and the text the cache compresses is that of
  the first one that has any, but the replay writes into the first one whatever it holds. With a
  first result without content, the replay puts the second result's compressed text into the first
  result and leaves the second as it was.\<close>

theorem swap_wrong_block:
  "let msg = [(u ''role'', JStr (u ''user'')), (u ''content'', JList
       [JObj [(u ''type'', JStr (u ''tool_result'')), (u ''tool_use_id'', JStr (u ''t1''))],
        JObj [(u ''type'', JStr (u ''tool_result'')), (u ''tool_use_id'', JStr (u ''t2'')),
              (u ''content'', JStr (u ''long output''))]])] in
   extract_tool_result_content msg = Inr (Some (u ''long output''))
   \<and> dget (swap_tool_result_content msg (u ''short'')) ''content'' = JList
       [JObj [(u ''type'', JStr (u ''tool_result'')), (u ''tool_use_id'', JStr (u ''t1'')),
              (u ''content'', JStr (u ''short''))],
        JObj [(u ''type'', JStr (u ''tool_result'')), (u ''tool_use_id'', JStr (u ''t2'')),
              (u ''content'', JStr (u ''long output''))]]"
  by (simp add: Let_def extract_tool_result_content_def swap_tool_result_content_def
      can_swap_tool_result_content_def)

section \<open>Sizes and accounting\<close>

text \<open>Each map has distinct keys and at most \<open>max_entries\<close> of them, and the running total of saved
  tokens is the sum over the entries that are still cached.\<close>

definition cache_inv :: "ccache \<Rightarrow> bool" where
  "cache_inv c \<longleftrightarrow>
     distinct (map fst (cc_cache c)) \<and> length (cc_cache c) \<le> cc_max_entries c
     \<and> distinct (map fst (stable_hashes c)) \<and> length (stable_hashes c) \<le> cc_max_entries c
     \<and> distinct (map fst (first_seen c)) \<and> length (first_seen c) \<le> cc_max_entries c
     \<and> total_tokens_saved c = sum_list (map (tokens_saved \<circ> snd) (cc_cache c))"

lemma evict_compressed_trim:
  "evict_compressed mx d tot = (d', tot') \<Longrightarrow>
   d' = trim_oldest mx d
   \<and> tot' - sum_list (map (tokens_saved \<circ> snd) d') = tot - sum_list (map (tokens_saved \<circ> snd) d)"
  by (induction mx d tot rule: evict_compressed.induct) (auto split: if_splits)

lemma sum_tokens_delete:
  "distinct (map fst d) \<Longrightarrow> map_of d h = Some e \<Longrightarrow>
   sum_list (map (tokens_saved \<circ> snd) (AList.delete h d)) =
   sum_list (map (tokens_saved \<circ> snd) d) - tokens_saved e"
  by (induction d)
    (auto simp: map_of_eq_None_iff [symmetric] length_delete_absent split: if_splits)

lemma update_absent: "map_of d k = None \<Longrightarrow> AList.update k v d = d @ [(k, v)]"
  by (induction d) (auto split: if_splits)

lemma map_of_delete_None: "map_of (AList.delete k d) k = None"
  by (simp add: map_of_eq_None_iff delete_notin_dom)

text \<open>What \<open>store_compressed\<close> leaves: the entry goes to the end and the oldest are trimmed.\<close>

lemma store_compressed_cache:
  "cc_cache (store_compressed c h txt saved) =
     trim_oldest (cc_max_entries c)
       (AList.delete h (cc_cache c) @ [(h, \<lparr>compressed = txt, tokens_saved = saved\<rparr>)])"
proof (cases "map_of (cc_cache c) h")
  case None
  then show ?thesis
    by (auto simp: store_compressed_def update_absent length_delete_absent split: prod.splits
        dest!: evict_compressed_trim)
next
  case (Some e)
  have "AList.update h x (AList.delete h (cc_cache c)) = AList.delete h (cc_cache c) @ [(h, x)]"
    for x :: cache_entry
    by (rule update_absent [OF map_of_delete_None])
  with Some show ?thesis
    by (auto simp: store_compressed_def split: prod.splits dest!: evict_compressed_trim)
qed

lemma store_compressed_total:
  assumes "distinct (map fst (cc_cache c))"
    and "total_tokens_saved c = sum_list (map (tokens_saved \<circ> snd) (cc_cache c))"
  shows "total_tokens_saved (store_compressed c h txt saved) =
    sum_list (map (tokens_saved \<circ> snd) (cc_cache (store_compressed c h txt saved)))"
proof (cases "map_of (cc_cache c) h")
  case None
  then show ?thesis using assms
    by (auto simp: store_compressed_def update_absent length_delete_absent split: prod.splits
        dest!: evict_compressed_trim)
next
  case (Some e)
  have "AList.update h x (AList.delete h (cc_cache c)) = AList.delete h (cc_cache c) @ [(h, x)]"
    for x :: cache_entry
    by (rule update_absent [OF map_of_delete_None])
  with Some assms sum_tokens_delete [OF assms(1) Some] show ?thesis
    by (auto simp: store_compressed_def split: prod.splits dest!: evict_compressed_trim)
qed

lemma store_compressed_frame [simp]:
  "cc_max_entries (store_compressed c h txt saved) = cc_max_entries c"
  "stable_hashes (store_compressed c h txt saved) = stable_hashes c"
  "first_seen (store_compressed c h txt saved) = first_seen c"
  by (auto simp: store_compressed_def split: prod.splits)

lemma store_compressed_inv [inv_intros]:
  "cache_inv c \<Longrightarrow> cache_inv (store_compressed c h txt saved)"
  using delete_notin_dom [of h "cc_cache c"] store_compressed_total [of c h "txt" saved]
  by (auto simp: cache_inv_def store_compressed_cache intro!: distinct_trim_oldest)

lemma trim_move_update_inv:
  "distinct (map fst d) \<Longrightarrow> distinct (map fst (trim_oldest n (move_to_end h (AList.update h v d))))"
  by (intro distinct_trim_oldest distinct_move_to_end distinct_update_fst)

lemma mark_stable_inv [inv_intros]: "cache_inv c \<Longrightarrow> cache_inv (mark_stable c h)"
  by (simp add: cache_inv_def mark_stable_def trim_move_update_inv)

lemma record_first_seen_inv [inv_intros]: "cache_inv c \<Longrightarrow> cache_inv (record_first_seen c h t)"
  by (simp add: cache_inv_def record_first_seen_def trim_move_update_inv)

lemma prune_seen_suffix: "\<exists>n. prune_seen now ttl d = drop n d"
proof (induction now ttl d rule: prune_seen.induct)
  case (2 now ttl h t d)
  show ?case
  proof (cases "now - t < ttl")
    case True
    then show ?thesis by (auto intro: exI [of _ 0])
  next
    case False
    with 2 obtain n where "prune_seen now ttl d = drop n d" by blast
    with False show ?thesis by (auto intro: exI [of _ "Suc n"])
  qed
qed simp

lemma prune_inv [inv_intros]: "cache_inv c \<Longrightarrow> cache_inv (prune_expired_first_seen now ttl c)"
  using prune_seen_suffix [of now ttl "first_seen c"]
  by (auto simp: cache_inv_def prune_expired_first_seen_def distinct_fst_drop)

lemma should_defer_inv: "cache_inv c \<Longrightarrow> cache_inv (snd (should_defer_compression now ttl bw c h))"
  by (auto simp: should_defer_compression_def Let_def intro!: inv_intros split: option.splits)

lemma sum_tokens_move:
  "distinct (map fst d) \<Longrightarrow>
   sum_list (map (tokens_saved \<circ> snd) (move_to_end h d)) = sum_list (map (tokens_saved \<circ> snd) d)"
  by (auto simp: move_to_end_def sum_tokens_delete split: option.splits)

lemma get_compressed_inv: "cache_inv c \<Longrightarrow> cache_inv (snd (get_compressed c h))"
  by (auto simp: get_compressed_def cache_inv_def sum_tokens_move split: option.splits)

lemma mark_stable_list_inv: "cache_inv c \<Longrightarrow> cache_inv (snd (mark_stable_list md5 c msgs))"
  by (induction msgs arbitrary: c) (auto split: sum.splits option.splits intro: inv_intros)

lemma apply_one_inv: "cache_inv c \<Longrightarrow> cache_inv (snd (apply_one md5 c msg))"
  using get_compressed_inv [of c]
  by (auto simp: apply_one_def split: sum.splits option.splits prod.splits) (metis snd_conv)+

lemma apply_cached_inv: "cache_inv c \<Longrightarrow> cache_inv (snd (apply_cached md5 c msgs))"
proof (induction msgs arbitrary: c)
  case (Cons m ms)
  obtain r c' where a: "apply_one md5 c m = (r, c')" by (cases "apply_one md5 c m")
  have "cache_inv c'" using apply_one_inv [OF Cons.prems, of md5 m] a by simp
  from Cons.IH [OF this] this a show ?case by (auto split: sum.splits prod.splits)
qed simp

lemma update_one_inv [inv_intros]: "cache_inv c \<Longrightarrow> update_one md5 c x y = Inr c' \<Longrightarrow> cache_inv c'"
  by (auto simp: update_one_def Let_def bindR_eq_Inr split: if_splits intro: inv_intros)

lemma update_pairs_inv: "cache_inv c \<Longrightarrow> cache_inv (snd (update_pairs md5 c ps))"
proof (induction ps arbitrary: c)
  case (Cons p ps)
  then show ?case by (cases p) (auto split: sum.splits option.splits intro: inv_intros)
qed simp

datatype cache_op =
    CGet pystr | CStore pystr pystr int | CMarkStable pystr | CMarkMessages "message list" int
  | CDefer real real pystr | CApply "message list" | CUpdate "message list" "message list"

fun apply_cache_op :: "(pystr \<Rightarrow> pystr) \<Rightarrow> real \<Rightarrow> ccache \<Rightarrow> cache_op \<Rightarrow> ccache" where
  "apply_cache_op md5 now c (CGet h) = snd (get_compressed c h)"
| "apply_cache_op md5 now c (CStore h txt n) = store_compressed c h txt n"
| "apply_cache_op md5 now c (CMarkStable h) = mark_stable c h"
| "apply_cache_op md5 now c (CMarkMessages ms n) = snd (mark_stable_from_messages md5 c ms n)"
| "apply_cache_op md5 now c (CDefer ttl bw h) = snd (should_defer_compression now ttl bw c h)"
| "apply_cache_op md5 now c (CApply ms) = snd (apply_cached md5 c ms)"
| "apply_cache_op md5 now c (CUpdate os cs) = snd (update_from_result md5 c os cs)"

inductive reachable_cache :: "(pystr \<Rightarrow> pystr) \<Rightarrow> ccache \<Rightarrow> bool" for md5 where
  start: "reachable_cache md5 (new_cache mx)"
| step: "reachable_cache md5 c \<Longrightarrow> reachable_cache md5 (apply_cache_op md5 now c op)"

lemma reachable_cache_inv: "reachable_cache md5 c \<Longrightarrow> cache_inv c"
proof (induction rule: reachable_cache.induct)
  case (start mx)
  show ?case by (simp add: new_cache_def cache_inv_def)
next
  case (step c now op)
  then show ?case
    by (cases op) (auto simp: mark_stable_from_messages_def update_from_result_def
        get_compressed_inv mark_stable_list_inv should_defer_inv apply_cached_inv update_pairs_inv
        intro: inv_intros)
qed

text \<open>C34: in every state the cache can reach, each of its three maps has distinct keys and at most
  \<open>max_entries\<close> of them, and the reported tokens saved are exactly the sum over the entries
  still cached, whatever was overwritten and evicted.\<close>

theorem reachable_cache_bounded:
  assumes "reachable_cache md5 c"
  shows "distinct (map fst (cc_cache c)) \<and> length (cc_cache c) \<le> cc_max_entries c
     \<and> length (stable_hashes c) \<le> cc_max_entries c \<and> length (first_seen c) \<le> cc_max_entries c
     \<and> snd (snd (snd (snd (cache_stats c)))) = sum_list (map (tokens_saved \<circ> snd) (cc_cache c))"
  using reachable_cache_inv [OF assms] by (simp add: cache_inv_def cache_stats_def)

lemma u_not_surrogate: "ch \<in> set (u t) \<Longrightarrow> \<not> is_surrogate ch"
proof -
  have "\<not> is_surrogate (of_char ch)" for ch
    using nat_of_char_less_256 [of ch] unfolding is_surrogate_def by linarith
  then show "ch \<in> set (u t) \<Longrightarrow> \<not> is_surrogate ch" by (auto simp: u_def)
qed

lemma content_hash_u [simp]: "content_hash md5 (u t) = Inr (take 16 (md5 (u t)))"
  using u_not_surrogate by (auto simp: content_hash_def list_ex_iff)

lemma take_u [simp]: "take n (u t) = u (take n t)"
  by (simp add: u_def take_map)

definition demo_cache :: ccache where
  "demo_cache = store_compressed (mark_stable (new_cache 2) (u ''h9'')) (u ''h1'') (u ''short'') 7"

lemma demo_cache_reachable: "reachable_cache md5 demo_cache"
  using reachable_cache.step [OF reachable_cache.step [OF reachable_cache.start [of md5 2], of 0 "CMarkStable (u ''h9'')"],
      of 0 "CStore (u ''h1'') (u ''short'') 7"]
  by (simp add: demo_cache_def)

theorem reachable_cache_bounded_witness:
  "length (cc_cache demo_cache) \<le> cc_max_entries demo_cache
   \<and> snd (snd (snd (snd (cache_stats demo_cache)))) = sum_list (map (tokens_saved \<circ> snd) (cc_cache demo_cache))
   \<and> length (cc_cache demo_cache) = 1"
  using reachable_cache_bounded [OF demo_cache_reachable [of id]]
  by (simp add: demo_cache_def store_compressed_cache new_cache_def mark_stable_def)

section \<open>Replay\<close>

text \<open>The specification of \<open>apply_cached\<close>: each message is rewritten by a pure lookup, and the
  recency order of the cache does not matter.\<close>

definition replay :: "(pystr \<Rightarrow> pystr) \<Rightarrow> (pystr \<Rightarrow> cache_entry option) \<Rightarrow> message \<Rightarrow> py_error + message" where
  "replay md5 lookup msg =
     (if \<not> can_swap_tool_result_content msg \<or> \<not> is_tool_result_message msg then Inr msg
      else bindR (extract_tool_result_content msg) (\<lambda>t.
        case t of
          None \<Rightarrow> Inr msg
        | Some x \<Rightarrow> bindR (content_hash md5 x) (\<lambda>h.
            Inr (case lookup h of None \<Rightarrow> msg | Some e \<Rightarrow> swap_tool_result_content msg (compressed e)))))"

fun mapR :: "('a \<Rightarrow> 'e + 'b) \<Rightarrow> 'a list \<Rightarrow> 'e + 'b list" where
  "mapR f [] = Inr []"
| "mapR f (x # xs) = bindR (f x) (\<lambda>y. bindR (mapR f xs) (\<lambda>ys. Inr (y # ys)))"

lemma mapR_Inr: "mapR f xs = Inr ys \<longleftrightarrow> length ys = length xs \<and> (\<forall>i < length xs. f (xs ! i) = Inr (ys ! i))"
proof (induction xs arbitrary: ys)
  case (Cons x xs)
  show ?case
  proof (cases ys)
    case (Cons y ys')
    have "(\<forall>i < length (x # xs). f ((x # xs) ! i) = Inr ((y # ys') ! i)) \<longleftrightarrow>
        f x = Inr y \<and> (\<forall>i < length xs. f (xs ! i) = Inr (ys' ! i))"
      by (auto simp: nth_Cons split: nat.splits)
    with Cons.IH [of ys'] show ?thesis by (auto simp: Cons bindR_eq_Inr)
  qed (auto simp: bindR_eq_Inr)
qed auto

lemma mapR_total: "(\<And>x. x \<in> set xs \<Longrightarrow> \<exists>y. f x = Inr y) \<Longrightarrow> \<exists>ys. mapR f xs = Inr ys"
proof (induction xs)
  case (Cons x xs)
  then obtain y ys where "f x = Inr y" "mapR f xs = Inr ys" by fastforce
  then show ?case by simp
qed simp

lemma apply_one_replay:
  "fst (apply_one md5 c msg) = replay md5 (map_of (cc_cache c)) msg
   \<and> map_of (cc_cache (snd (apply_one md5 c msg))) = map_of (cc_cache c)"
  by (auto simp: apply_one_def replay_def get_compressed_def split: sum.splits option.splits)

lemma apply_cached_replay:
  "fst (apply_cached md5 c msgs) = mapR (replay md5 (map_of (cc_cache c))) msgs
   \<and> map_of (cc_cache (snd (apply_cached md5 c msgs))) = map_of (cc_cache c)"
proof (induction msgs arbitrary: c)
  case (Cons m ms)
  obtain r c' where a: "apply_one md5 c m = (r, c')" by (cases "apply_one md5 c m")
  have r: "replay md5 (map_of (cc_cache c)) m = r" and c': "map_of (cc_cache c') = map_of (cc_cache c)"
    using apply_one_replay [of md5 c m] a by simp_all
  from Cons.IH [of c'] show ?case
    by (cases r; cases "apply_cached md5 c' ms"; cases "fst (apply_cached md5 c' ms)")
      (simp_all add: a r c')
qed simp

text \<open>C32: \<open>apply_cached\<close> replays the cached compressions and nothing else. It returns one message
  per input message; each is the input rewritten with the entry cached under its content hash, or the
  input itself when it is no tool result, has no text, has a shape that cannot be rewritten, or is not
  cached. The lookups do not change what is cached.\<close>

theorem apply_cached_refines_replay:
  "fst (apply_cached md5 c msgs) = mapR (replay md5 (map_of (cc_cache c))) msgs
   \<and> map_of (cc_cache (snd (apply_cached md5 c msgs))) = map_of (cc_cache c)
   \<and> (fst (apply_cached md5 c msgs) = Inr out \<longrightarrow> length out = length msgs
        \<and> (\<forall>i < length msgs. \<not> is_tool_result_message (msgs ! i) \<longrightarrow> out ! i = msgs ! i))"
  using apply_cached_replay [of md5 c msgs] by (auto simp: mapR_Inr replay_def)

theorem apply_cached_refines_replay_witness:
  "\<exists>out. fst (apply_cached id demo_cache [demo_tool_msg ''h1'', []]) = Inr out \<and> length out = 2
     \<and> out ! 1 = []"
proof -
  let ?ms = "[demo_tool_msg ''h1'', []]"
  have m: "can_swap_tool_result_content (demo_tool_msg ''h1'')"
    "is_tool_result_message (demo_tool_msg ''h1'')"
    "extract_tool_result_content (demo_tool_msg ''h1'') = Inr (Some (u ''h1''))"
    "\<not> is_tool_result_message []"
    by (simp_all add: demo_tool_msg_def can_swap_tool_result_content_def is_tool_result_message_def
        extract_tool_result_content_def)
  then have "\<exists>out. fst (apply_cached id demo_cache ?ms) = Inr out"
    using apply_cached_replay [of id demo_cache ?ms] by (simp add: replay_def split: option.splits)
  then obtain out where out: "fst (apply_cached id demo_cache ?ms) = Inr out" by blast
  have l: "length out = 2 \<and> (\<forall>i < 2. \<not> is_tool_result_message (?ms ! i) \<longrightarrow> out ! i = ?ms ! i)"
    using apply_cached_refines_replay [of id demo_cache ?ms out] out by (simp add: numeral_2_eq_2)
  then have "out ! 1 = ?ms ! 1" using m(4) by simp
  with out l show ?thesis by simp
qed

section \<open>What one turn stores, the next turn replays\<close>

text \<open>The entry for \<open>h\<close> holds text \<open>y\<close> and is among the \<open>n\<close> most recent.\<close>

definition held :: "nat \<Rightarrow> pystr \<Rightarrow> pystr \<Rightarrow> (pystr, cache_entry) odict \<Rightarrow> bool" where
  "held n h y d \<longleftrightarrow> (\<exists>pre e suf. d = pre @ (h, e) # suf \<and> compressed e = y \<and> length suf < n)"

lemma held_mono: "held n h y d \<Longrightarrow> n \<le> m \<Longrightarrow> held m h y d"
  unfolding held_def by (metis order_less_le_trans)

lemma held_lookup:
  "held n h y d \<Longrightarrow> distinct (map fst d) \<Longrightarrow> \<exists>e. map_of d h = Some e \<and> compressed e = y"
  by (auto simp: held_def map_of_append map_of_eq_None_iff)

lemma drop_held:
  assumes "length d - k < n" and "d = pre @ (h, e) # suf" and "length suf < k"
  shows "\<exists>pre'. drop (length d - k) d = pre' @ (h, e) # suf"
proof -
  have "length d - k \<le> length pre" using assms by simp
  then show ?thesis using assms(2) by (intro exI [of _ "drop (length d - k) pre"]) simp
qed

lemma length_delete_le: "length (AList.delete k d) \<le> length d"
  by (rule AList.length_delete_le)

lemma delete_append [simp]: "AList.delete k (xs @ ys) = AList.delete k xs @ AList.delete k ys"
  by (simp add: AList.delete_eq)

lemma held_store_other:
  assumes "held n h y (cc_cache c)" and "h' \<noteq> h" and "Suc n \<le> cc_max_entries c"
  shows "held (Suc n) h y (cc_cache (store_compressed c h' z saved))"
proof -
  let ?x = "(h', \<lparr>compressed = z, tokens_saved = saved\<rparr>)"
  obtain pre e suf where d: "cc_cache c = pre @ (h, e) # suf" "compressed e = y" "length suf < n"
    using assms(1) by (auto simp: held_def)
  let ?d = "AList.delete h' pre @ (h, e) # (AList.delete h' suf @ [?x])"
  have "AList.delete h' (cc_cache c) @ [?x] = ?d" using d(1) assms(2) by simp
  moreover have len: "length (AList.delete h' suf @ [?x]) < Suc n"
    using d(3) length_delete_le [of h' suf] by simp
  moreover have "\<exists>pre'. drop (length ?d - cc_max_entries c) ?d = pre' @ (h, e) # (AList.delete h' suf @ [?x])"
    using len assms(3) by (intro drop_held [OF lessI refl]) simp
  ultimately show ?thesis using d(2)
    unfolding held_def store_compressed_cache trim_oldest_drop by metis
qed

lemma held_store_same:
  assumes "0 < cc_max_entries c"
  shows "held 1 h y (cc_cache (store_compressed c h y saved))"
proof -
  let ?x = "\<lparr>compressed = y, tokens_saved = saved\<rparr>"
  let ?d = "AList.delete h (cc_cache c) @ [(h, ?x)]"
  have "\<exists>pre'. drop (length ?d - cc_max_entries c) ?d = pre' @ (h, ?x) # []"
    using assms by (intro drop_held [OF lessI]) auto
  then show ?thesis
    unfolding held_def store_compressed_cache trim_oldest_drop by fastforce
qed

lemma mark_stable_cache [simp]:
  "cc_cache (mark_stable c h) = cc_cache c" "cc_max_entries (mark_stable c h) = cc_max_entries c"
  by (simp_all add: mark_stable_def)

lemma update_one_max: "update_one md5 c x y = Inr c' \<Longrightarrow> cc_max_entries c' = cc_max_entries c"
  by (auto simp: update_one_def Let_def bindR_eq_Inr split: if_splits)

text \<open>All pairs whose original hashes to \<open>h\<close> have the compressed text \<open>y\<close>.\<close>

definition agrees :: "(pystr \<Rightarrow> pystr) \<Rightarrow> pystr \<Rightarrow> pystr \<Rightarrow> (message \<times> message) list \<Rightarrow> bool" where
  "agrees md5 h y ps \<longleftrightarrow> (\<forall>(m, m') \<in> set ps. \<forall>x. extract_tool_result_content m = Inr (Some x) \<longrightarrow>
     content_hash md5 x = Inr h \<longrightarrow> extract_tool_result_content m' = Inr (Some y))"

lemma update_pairs_step:
  assumes "update_pairs md5 c ((m, m') # ps) = (Inr r, c')"
  obtains (skip) "update_pairs md5 c ps = (Inr r, c')"
      "extract_tool_result_content m = Inr None \<or> extract_tool_result_content m' = Inr None"
  | (pair) x z c1 where "extract_tool_result_content m = Inr (Some x)"
      "extract_tool_result_content m' = Inr (Some z)"
      "update_one md5 c x z = Inr c1" "update_pairs md5 c1 ps = (Inr r, c')"
  using assms by (auto split: sum.splits option.splits)

lemma held_update_pairs:
  assumes "update_pairs md5 c ps = (Inr r, c')" and "held n h y (cc_cache c)"
    and "n + length ps \<le> cc_max_entries c" and "0 < n" and "agrees md5 h y ps"
  shows "held (n + length ps) h y (cc_cache c')"
  using assms
proof (induction ps arbitrary: c n)
  case (Cons p ps)
  obtain m m' where p: "p = (m, m')" by (cases p)
  have ag: "agrees md5 h y ps" using Cons.prems(5) by (simp add: agrees_def)
  from Cons.prems(1) [unfolded p] show ?case
  proof (cases rule: update_pairs_step)
    case skip
    have "held (n + length ps) h y (cc_cache c')"
      using Cons.IH [OF skip(1) Cons.prems(2) _ Cons.prems(4) ag] Cons.prems(3) by simp
    then show ?thesis by (rule held_mono) simp
  next
    case (pair x z c1)
    obtain k where k: "content_hash md5 x = Inr k" using pair(3) by (auto simp: update_one_def bindR_eq_Inr)
    have "held (Suc n) h y (cc_cache c1)"
    proof (cases "x = z")
      case False
      show ?thesis
      proof (cases "k = h")
        case True
        have "z = y" using Cons.prems(5) pair(1,2) k True by (auto simp: p agrees_def)
        then have "held 1 h y (cc_cache c1)"
          using held_store_same [of c h y] Cons.prems(3,4) False True pair(3) k by (auto simp: update_one_def Let_def)
        then show ?thesis by (rule held_mono) simp
      qed (use held_store_other [OF Cons.prems(2)] Cons.prems(3) False pair(3) k in \<open>auto simp: update_one_def Let_def\<close>)
    qed (use held_mono [OF Cons.prems(2)] pair(3) k in \<open>auto simp: update_one_def\<close>)
    then show ?thesis
      using Cons.IH [OF pair(4), of "Suc n"] Cons.prems(3) ag update_one_max [OF pair(3)] by simp
  qed
qed simp

lemma update_pairs_holds:
  assumes "update_pairs md5 c ps = (Inr r, c')" and "(m, m') \<in> set ps"
    and "extract_tool_result_content m = Inr (Some x)"
    and "extract_tool_result_content m' = Inr (Some y)" and "x \<noteq> y"
    and "length ps \<le> cc_max_entries c" and "agrees md5 h y ps" and "content_hash md5 x = Inr h"
  shows "\<exists>n. held n h y (cc_cache c')"
  using assms
proof (induction ps arbitrary: c)
  case (Cons p ps)
  obtain m1 m2 where p: "p = (m1, m2)" by (cases p)
  have ag: "agrees md5 h y ps" using Cons.prems(7) by (simp add: agrees_def)
  show ?case
  proof (cases "p = (m, m')")
    case True
    then obtain c1 where c1: "update_one md5 c x y = Inr c1" and u: "update_pairs md5 c1 ps = (Inr r, c')"
      using Cons.prems(1,3,4) by (auto split: sum.splits)
    have "held 1 h y (cc_cache c1)"
      using held_store_same [of c h y] Cons.prems(5,6,8) c1 by (auto simp: update_one_def Let_def)
    from held_update_pairs [OF u this _ _ ag] Cons.prems(6) update_one_max [OF c1] show ?thesis by auto
  next
    case False
    then have mem: "(m, m') \<in> set ps" using Cons.prems(2) by simp
    from Cons.prems(1) [unfolded p] show ?thesis
      by (cases rule: update_pairs_step)
        (use Cons.IH [OF _ mem Cons.prems(3-5)] Cons.prems(6,8) ag update_one_max in auto)
  qed
qed simp

lemma update_pairs_extracts:
  "update_pairs md5 c ps = (Inr r, c') \<Longrightarrow> (m, m') \<in> set ps \<Longrightarrow> \<exists>t. extract_tool_result_content m = Inr t"
  by (induction ps arbitrary: c) (auto split: sum.splits option.splits)

text \<open>C5: the round trip across turns. After \<open>update_from_result\<close> has recorded a turn, the next
  \<open>apply_cached\<close> on the same original messages returns and rewrites each tool result message whose
  extracted text was changed: its first tool result gets exactly the text of that turn, which is what
  is then extracted from the message. The text of a message is that of its first tool result with a
  string or a list as content, so later tool results of the same message are not covered. Provided the
  message has a shape that can be rewritten, the turn has at most \<open>max_entries\<close> messages, the new text
  is not empty, all messages of the turn whose text has the same hash were given the same new text, and
  no text has a lone surrogate.\<close>

theorem update_then_apply_replays:
  assumes "reachable_cache md5 c"
    and "update_from_result md5 c originals results = (Inr (), c')"
    and "length originals = length results" and "length originals \<le> cc_max_entries c"
    and "i < length originals"
    and "is_tool_result_message (originals ! i)" and "can_swap_tool_result_content (originals ! i)"
    and "extract_tool_result_content (originals ! i) = Inr (Some x)"
    and "extract_tool_result_content (results ! i) = Inr (Some y)" and "x \<noteq> y" and "y \<noteq> []"
    and "agrees md5 (take 16 (md5 x)) y (zip originals results)"
    and "\<forall>m \<in> set originals. \<forall>t. extract_tool_result_content m = Inr (Some t) \<longrightarrow> \<not> list_ex is_surrogate t"
  shows "\<exists>out. fst (apply_cached md5 c' originals) = Inr out \<and> length out = length originals
    \<and> out ! i = swap_tool_result_content (originals ! i) y
    \<and> extract_tool_result_content (out ! i) = Inr (Some y)"
proof -
  have up: "update_pairs md5 c (zip originals results) = (Inr (), c')"
    using assms(2,3) by (simp add: update_from_result_def)
  have mem: "(originals ! i, results ! i) \<in> set (zip originals results)"
    using assms(3,5) by (force simp: set_zip)
  have x: "content_hash md5 x = Inr (take 16 (md5 x))"
    using assms(8,13) nth_mem [OF assms(5)] unfolding content_hash_def by auto
  obtain n where "held n (take 16 (md5 x)) y (cc_cache c')"
    using update_pairs_holds [OF up mem assms(8,9,10) _ assms(12) x] assms(3,4) by auto
  moreover have "distinct (map fst (cc_cache c'))"
    using update_pairs_inv [OF reachable_cache_inv [OF assms(1)], of md5 "zip originals results"] up
    by (simp add: cache_inv_def)
  ultimately obtain e where e: "map_of (cc_cache c') (take 16 (md5 x)) = Some e" "compressed e = y"
    using held_lookup by blast
  have "\<exists>m'. replay md5 (map_of (cc_cache c')) m = Inr m'" if m: "m \<in> set originals" for m
  proof -
    obtain z where z: "extract_tool_result_content m = Inr z"
      using update_pairs_extracts [OF up] m assms(3) by (metis in_set_impl_in_set_zip1)
    then show ?thesis using assms(13) m by (cases z) (auto simp: replay_def content_hash_def)
  qed
  then obtain out where out: "fst (apply_cached md5 c' originals) = Inr out"
    using apply_cached_replay [of md5 c' originals] mapR_total by metis
  then have l: "length out = length originals" "replay md5 (map_of (cc_cache c')) (originals ! i) = Inr (out ! i)"
    using apply_cached_replay [of md5 c' originals] assms(5) by (metis mapR_Inr)+
  then have "out ! i = swap_tool_result_content (originals ! i) y"
    using assms(6-8) x e by (simp add: replay_def)
  then show ?thesis using out l(1) extract_swap [OF assms(7,6,11)] by simp
qed

lemma demo_tool_msg_facts [simp]:
  "can_swap_tool_result_content (demo_tool_msg t)" "is_tool_result_message (demo_tool_msg t)"
  "extract_tool_result_content (demo_tool_msg t) = Inr (Some (u t))"
  by (simp_all add: demo_tool_msg_def can_swap_tool_result_content_def is_tool_result_message_def
      extract_tool_result_content_def)

theorem update_then_apply_replays_witness:
  "\<exists>c' out. update_from_result id demo_cache [demo_tool_msg ''long output''] [demo_tool_msg ''short''] = (Inr (), c')
     \<and> fst (apply_cached id c' [demo_tool_msg ''long output'']) = Inr out
     \<and> extract_tool_result_content (out ! 0) = Inr (Some (u ''short''))"
proof -
  let ?os = "[demo_tool_msg ''long output'']" and ?rs = "[demo_tool_msg ''short'']"
  obtain c' where c': "update_from_result id demo_cache ?os ?rs = (Inr (), c')"
    by (simp add: update_from_result_def update_one_def Let_def)
  have "agrees id (take 16 (id (u ''long output''))) (u ''short'') (zip ?os ?rs)" by (simp add: agrees_def)
  then have "\<exists>out. fst (apply_cached id c' ?os) = Inr out \<and> length out = length ?os
      \<and> out ! 0 = swap_tool_result_content (?os ! 0) (u ''short'') \<and> extract_tool_result_content (out ! 0) = Inr (Some (u ''short''))"
    by (intro update_then_apply_replays [where x = "u ''long output''", OF demo_cache_reachable c'])
      (simp_all add: demo_cache_def new_cache_def list_ex_iff u_not_surrogate)
  with c' show ?thesis by blast
qed

section \<open>The frozen prefix\<close>

lemma frozen_walk_spec:
  "frozen_walk md5 c msgs k = Inr n \<Longrightarrow>
   k \<le> n \<and> n \<le> k + length msgs \<and> (\<forall>i < n - k. frozen_step md5 c (msgs ! i) = Inr True)
   \<and> (n < k + length msgs \<longrightarrow> frozen_step md5 c (msgs ! (n - k)) = Inr False)"
proof (induction msgs arbitrary: k)
  case (Cons m ms)
  then obtain ok where st: "frozen_step md5 c m = Inr ok" by (auto simp: bindR_eq_Inr)
  show ?case
  proof (cases ok)
    case True
    with Cons.prems st have "frozen_walk md5 c ms (Suc k) = Inr n" by simp
    from Cons.IH [OF this] True st show ?thesis
      by (auto simp: nth_Cons Suc_diff_Suc split: nat.splits)
        (metis Suc_diff_Suc Suc_le_lessD diff_Suc_Suc less_Suc_eq_0_disj nat.inject less_antisym not_less_eq)+
  qed (use Cons.prems st in auto)
qed simp

text \<open>The walk over a longer list agrees with the walk over a prefix it does not step off.\<close>

lemma frozen_walk_append:
  "frozen_walk md5 c msgs k = Inr n \<Longrightarrow> frozen_walk md5 c (msgs @ rest) k = Inr m \<Longrightarrow> n \<le> m"
proof (induction msgs arbitrary: k)
  case Nil
  then show ?case using frozen_walk_spec [of md5 c rest k m] by simp
next
  case (Cons x ms)
  then show ?case by (auto simp: bindR_eq_Inr split: if_splits)
qed

text \<open>What a message offers for replay, described without the walk: the contents of its tool results,
  and whether a content holds text.\<close>

definition result_contents :: "message \<Rightarrow> json set" where
  "result_contents msg =
     (if dget msg ''role'' = JStr (u ''tool'') then {dget msg ''content''}
      else {dget d ''content'' | d bs. dget msg ''content'' = JList bs \<and> JObj d \<in> set bs \<and> dget d ''type'' = JStr (u ''tool_result'')})"

definition holds_text :: "json \<Rightarrow> bool" where
  "holds_text v \<longleftrightarrow> is_str v \<or> (\<exists>bs d s. v = JList bs \<and> JObj d \<in> set bs \<and> dget d ''type'' = JStr (u ''text'')
     \<and> dget d ''text'' = JStr s \<and> s \<noteq> [])"

text \<open>What a message becomes when it can be replayed. One without tool results, or without any text in
  them, and one whose text is known not to compress are sent as they are; one whose text is cached is sent
  with the cached text. Cached and stable texts can only be replayed in a shape that can be rewritten.\<close>

inductive replayed :: "(pystr \<Rightarrow> pystr) \<Rightarrow> ccache \<Rightarrow> message \<Rightarrow> message \<Rightarrow> bool" for md5 c where
  plain: "result_contents m = {} \<Longrightarrow> replayed md5 c m m"
| textless: "can_swap_tool_result_content m \<Longrightarrow> \<forall>v \<in> result_contents m. \<not> holds_text v \<Longrightarrow> replayed md5 c m m"
| incompressible: "can_swap_tool_result_content m \<Longrightarrow> extract_tool_result_content m = Inr (Some t) \<Longrightarrow>
    content_hash md5 t = Inr h \<Longrightarrow> map_of (cc_cache c) h = None \<Longrightarrow> map_of (stable_hashes c) h \<noteq> None \<Longrightarrow> replayed md5 c m m"
| cached: "can_swap_tool_result_content m \<Longrightarrow> extract_tool_result_content m = Inr (Some t) \<Longrightarrow>
    content_hash md5 t = Inr h \<Longrightarrow> map_of (cc_cache c) h = Some e \<Longrightarrow>
    replayed md5 c m (swap_tool_result_content m (compressed e))"

text \<open>Why a message cannot be replayed: it is a tool result in a shape that cannot be rewritten, or it holds
  text that is neither cached nor known to be stable, or that comes after a first result without text.\<close>

definition blocked :: "(pystr \<Rightarrow> pystr) \<Rightarrow> ccache \<Rightarrow> message \<Rightarrow> bool" where
  "blocked md5 c m \<longleftrightarrow> result_contents m \<noteq> {} \<and> (\<not> can_swap_tool_result_content m \<or>
     (\<exists>v \<in> result_contents m. holds_text v) \<and> (extract_tool_result_content m = Inr None \<or>
       (\<exists>t h. extract_tool_result_content m = Inr (Some t) \<and> content_hash md5 t = Inr h
          \<and> map_of (cc_cache c) h = None \<and> map_of (stable_hashes c) h = None)))"

lemma all_strings_Inr: "all_strings vs = Inr ts \<longleftrightarrow> vs = map JStr ts"
proof (induction vs arbitrary: ts)
  case (Cons v vs)
  then show ?case by (cases v; cases ts) (auto simp: bindR_eq_Inr)
qed auto

lemma set_block_texts:
  "set (block_texts bs) = {dget_default d ''text'' (JStr []) | d. JObj d \<in> set bs \<and> dget d ''type'' = JStr (u ''text'')}"
proof (induction bs)
  case (Cons b bs)
  then show ?case by (cases b) auto
qed simp

lemma default_text: "s \<noteq> [] \<and> dget_default d k (JStr []) = JStr s \<longleftrightarrow> s \<noteq> [] \<and> dget d k = JStr s"
  by (auto simp: dget_default_def dget_def split: option.splits)

lemma extract_text_some:
  assumes "extract_text_from_blocks bs = Inr r"
  shows "r \<noteq> None \<longleftrightarrow> holds_text (JList bs)"
proof -
  obtain ts where ts: "filter (\<lambda>t. t \<noteq> JStr []) (block_texts bs) = map JStr ts" "r = (if join [newline] ts \<noteq> [] then Some (join [newline] ts) else None)"
    using assms by (auto simp: extract_text_from_blocks_def bindR_eq_Inr all_strings_Inr Let_def)
  have "[] \<notin> set ts"
  proof
    assume "[] \<in> set ts"
    then have "JStr [] \<in> set (filter (\<lambda>t. t \<noteq> JStr []) (block_texts bs))" unfolding ts(1) by auto
    then show False by simp
  qed
  then have "r \<noteq> None \<longleftrightarrow> ts \<noteq> []" by (cases ts; cases "tl ts") (auto simp: ts(2))
  also have "\<dots> \<longleftrightarrow> (\<exists>s. s \<noteq> [] \<and> JStr s \<in> set (block_texts bs))"
  proof
    assume "ts \<noteq> []"
    then have "JStr (hd ts) \<in> set (filter (\<lambda>t. t \<noteq> JStr []) (block_texts bs))" unfolding ts(1) by simp
    then show "\<exists>s. s \<noteq> [] \<and> JStr s \<in> set (block_texts bs)" by auto
  next
    assume "\<exists>s. s \<noteq> [] \<and> JStr s \<in> set (block_texts bs)"
    then obtain s where "JStr s \<in> set (filter (\<lambda>t. t \<noteq> JStr []) (block_texts bs))" by auto
    then show "ts \<noteq> []" unfolding ts(1) by auto
  qed
  also have "\<dots> \<longleftrightarrow> (\<exists>s d. JObj d \<in> set bs \<and> dget d ''type'' = JStr (u ''text'') \<and> s \<noteq> [] \<and> dget_default d ''text'' (JStr []) = JStr s)"
    unfolding set_block_texts mem_Collect_eq by (intro iffI; elim exE conjE) (metis+)
  also have "\<dots> \<longleftrightarrow> holds_text (JList bs)"
    unfolding default_text holds_text_def by (simp add: is_str_def) blast
  finally show ?thesis .
qed

lemma any_text_some: "any_text cs = Inr b \<Longrightarrow> b \<longleftrightarrow> (\<exists>v \<in> set cs. holds_text v)"
proof (induction cs)
  case (Cons v cs)
  show ?case
  proof (cases v)
    case (JList bs)
    then show ?thesis using Cons extract_text_some [of bs] by (auto simp: bindR_eq_Inr split: if_splits)
  qed (use Cons in \<open>auto simp: holds_text_def\<close>)
qed simp

lemma set_tool_result_contents:
  "set (tool_result_contents bs) = {dget d ''content'' | d. JObj d \<in> set bs \<and> dget d ''type'' = JStr (u ''tool_result'')}"
proof (induction bs)
  case (Cons b bs)
  then show ?case by (cases b) auto
qed simp

lemma carries_some:
  assumes "carries_tool_result_text m = Inr b"
  shows "b \<longleftrightarrow> (\<exists>v \<in> result_contents m. holds_text v)"
proof (cases "dget m ''role'' = JStr (u ''tool'')")
  case True
  then have "any_text [dget m ''content''] = Inr b" using assms by (simp add: carries_tool_result_text_def del: any_text.simps)
  from any_text_some [OF this] show ?thesis using True by (simp add: result_contents_def)
next
  case False
  show ?thesis
  proof (cases "dget m ''content''")
    case (JList bs)
    then have "any_text (tool_result_contents bs) = Inr b" using assms False by (simp add: carries_tool_result_text_def)
    from any_text_some [OF this] show ?thesis using False JList by (auto simp: result_contents_def set_tool_result_contents)
  qed (use assms False in \<open>auto simp: carries_tool_result_text_def result_contents_def split: if_splits bool.splits\<close>)
qed

lemma tool_result_contents_empty: "is_tool_result_message m \<longleftrightarrow> result_contents m \<noteq> {}"
  by (cases "dget m ''content''")
    (auto simp: is_tool_result_message_def result_contents_def list_ex_iff is_block_def elim!: is_blockE split: json.splits)

lemma first_result_text:
  "first_tool_result bs = Inr (Some t) \<Longrightarrow> \<exists>d. JObj d \<in> set bs \<and> dget d ''type'' = JStr (u ''tool_result'') \<and> holds_text (dget d ''content'')"
proof (induction bs)
  case (Cons b bs)
  show ?case
  proof (cases "is_block ''tool_result'' b")
    case True
    then obtain d where d: "b = JObj d" "dget d ''type'' = JStr (u ''tool_result'')" by (rule is_blockE)
    show ?thesis
    proof (cases "dget d ''content''")
      case (JList xs)
      then have "extract_text_from_blocks xs = Inr (Some t)" using Cons.prems d by simp
      then have "holds_text (dget d ''content'')" using extract_text_some [of xs "Some t"] JList by simp
      then show ?thesis using d by auto
    qed (use Cons d in \<open>auto simp: holds_text_def\<close>)
  next
    case False
    with Cons show ?thesis by (cases b) auto
  qed
qed simp

lemma extracted_text: "extract_tool_result_content m = Inr (Some t) \<Longrightarrow> \<exists>v \<in> result_contents m. holds_text v"
proof (cases "dget m ''content''")
  case (JList bs)
  assume x: "extract_tool_result_content m = Inr (Some t)"
  show ?thesis
  proof (cases "dget m ''role'' = JStr (u ''tool'')")
    case True
    then have "extract_text_from_blocks bs = Inr (Some t)" using x JList by (simp add: extract_tool_result_content_def)
    then show ?thesis using extract_text_some [of bs "Some t"] True JList by (simp add: result_contents_def)
  next
    case False
    then show ?thesis using first_result_text [of bs t] x JList by (auto simp: extract_tool_result_content_def result_contents_def)
  qed
qed (auto simp: extract_tool_result_content_def result_contents_def holds_text_def split: if_splits)

lemma counted_replayed:
  assumes "frozen_step md5 c m = Inr True"
  shows "\<exists>m'. replay md5 (map_of (cc_cache c)) m = Inr m' \<and> replayed md5 c m m'"
proof (cases "is_tool_result_message m")
  case False
  then show ?thesis by (auto simp: replay_def tool_result_contents_empty intro: replayed.plain)
next
  case True
  then have s: "can_swap_tool_result_content m" using assms by (simp add: frozen_step_def split: if_splits)
  from True s assms obtain z where z: "extract_tool_result_content m = Inr z" by (auto simp: frozen_step_def bindR_eq_Inr)
  show ?thesis
  proof (cases z)
    case None
    then have "carries_tool_result_text m = Inr False" using True s assms z by (auto simp: frozen_step_def bindR_eq_Inr)
    then have "replayed md5 c m m" using carries_some [of m False] s by (auto intro: replayed.textless)
    then show ?thesis using True s z None by (simp add: replay_def)
  next
    case (Some t)
    then obtain h where h: "content_hash md5 t = Inr h" "map_of (cc_cache c) h \<noteq> None \<or> map_of (stable_hashes c) h \<noteq> None"
      using True s assms z by (auto simp: frozen_step_def bindR_eq_Inr)
    then show ?thesis using True s z Some replayed.incompressible [OF s _ h(1)] replayed.cached [OF s _ h(1)]
      by (cases "map_of (cc_cache c) h") (auto simp: replay_def)
  qed
qed

lemma stopped_blocked:
  assumes "frozen_step md5 c m = Inr False"
  shows "blocked md5 c m \<and> replay md5 (map_of (cc_cache c)) m = Inr m"
proof (cases "can_swap_tool_result_content m")
  case False
  then show ?thesis using assms by (auto simp: frozen_step_def blocked_def replay_def tool_result_contents_empty split: if_splits)
next
  case s: True
  then have t: "is_tool_result_message m" using assms by (auto simp: frozen_step_def split: if_splits)
  from t s assms obtain z where z: "extract_tool_result_content m = Inr z" by (auto simp: frozen_step_def bindR_eq_Inr)
  show ?thesis
  proof (cases z)
    case None
    then have "carries_tool_result_text m = Inr True" using t s assms z by (auto simp: frozen_step_def bindR_eq_Inr)
    then show ?thesis using carries_some [of m True] t s z None by (simp add: blocked_def replay_def tool_result_contents_empty)
  next
    case (Some x)
    then obtain h where h: "content_hash md5 x = Inr h" "\<not> (map_of (cc_cache c) h \<noteq> None \<or> map_of (stable_hashes c) h \<noteq> None)"
      using t s assms z by (auto simp: frozen_step_def bindR_eq_Inr)
    then show ?thesis using extracted_text [of m x] t s z Some by (auto simp: blocked_def replay_def tool_result_contents_empty)
  qed
qed

text \<open>C22: the frozen prefix. The count never includes the trailing message. On the messages it counts
  \<open>apply_cached\<close> succeeds and returns for each of them either the message itself, when it has no tool
  result text or its text is known not to compress, or the message rewritten with its cached text. It stops
  before the last message only at a tool result that cannot be replayed, and \<open>apply_cached\<close> indeed leaves
  that one as it is: its shape cannot be rewritten, or it holds text, which is neither cached nor known to
  be stable or comes after a first result without text. And the count does not shrink when the conversation
  grows.\<close>

theorem frozen_count_sound:
  assumes "compute_frozen_count md5 c msgs = Inr n"
  shows "(msgs \<noteq> [] \<longrightarrow> n < length msgs)
    \<and> (\<exists>out. fst (apply_cached md5 c (take n msgs)) = Inr out \<and> list_all2 (replayed md5 c) (take n msgs) out)
    \<and> (Suc n < length msgs \<longrightarrow> blocked md5 c (msgs ! n) \<and> fst (apply_cached md5 c [msgs ! n]) = Inr [msgs ! n])
    \<and> (compute_frozen_count md5 c (msgs @ rest) = Inr m \<longrightarrow> n \<le> m)"
proof -
  obtain k where k: "frozen_walk md5 c msgs 0 = Inr k" "n = min k (length msgs - 1)"
    using assms by (auto simp: compute_frozen_count_def bindR_eq_Inr)
  note spec = frozen_walk_spec [OF k(1)]
  have step: "\<exists>m'. replay md5 (map_of (cc_cache c)) x = Inr m' \<and> replayed md5 c x m'" if "x \<in> set (take n msgs)" for x
    using that spec k(2) counted_replayed by (auto simp: in_set_conv_nth)
  then obtain out where out: "mapR (replay md5 (map_of (cc_cache c))) (take n msgs) = Inr out"
    using mapR_total by meson
  then have "list_all2 (replayed md5 c) (take n msgs) out"
    using step unfolding mapR_Inr list_all2_conv_all_nth by (metis Inr_inject nth_mem)
  then have "\<exists>out. fst (apply_cached md5 c (take n msgs)) = Inr out \<and> list_all2 (replayed md5 c) (take n msgs) out"
    using out by (simp add: apply_cached_replay)
  moreover have "blocked md5 c (msgs ! n) \<and> fst (apply_cached md5 c [msgs ! n]) = Inr [msgs ! n]" if "Suc n < length msgs"
    using stopped_blocked [of md5 c "msgs ! n"] spec k(2) that
    by (auto simp: apply_cached_replay min_def simp del: apply_cached.simps split: if_splits)
  moreover have "n \<le> m" if m: "compute_frozen_count md5 c (msgs @ rest) = Inr m"
  proof -
    obtain k' where "frozen_walk md5 c (msgs @ rest) 0 = Inr k'" "m = min k' (length (msgs @ rest) - 1)"
      using m by (auto simp: compute_frozen_count_def bindR_eq_Inr)
    with frozen_walk_append [OF k(1)] k(2) show ?thesis by fastforce
  qed
  moreover have "n < length msgs" if "msgs \<noteq> []" using k(2) that by (cases msgs) auto
  ultimately show ?thesis by blast
qed

definition image_msg :: message where
  "image_msg = [(u ''role'', JStr (u ''user'')), (u ''content'', JList
     [JObj [(u ''type'', JStr (u ''tool_result'')), (u ''content'', JList [JObj [(u ''type'', JStr (u ''image''))]])]])]"

theorem frozen_count_sound_witness:
  "compute_frozen_count id demo_cache [demo_tool_msg ''h1'', image_msg, demo_tool_msg ''h2'', []] = Inr 2
   \<and> blocked id demo_cache (demo_tool_msg ''h2'')
   \<and> fst (apply_cached id demo_cache [demo_tool_msg ''h2'']) = Inr [demo_tool_msg ''h2'']
   \<and> (\<exists>out. fst (apply_cached id demo_cache [demo_tool_msg ''h1'', image_msg]) = Inr out \<and> length out = 2)"
proof -
  let ?ms = "[demo_tool_msg ''h1'', image_msg, demo_tool_msg ''h2'', []]"
  have c: "map_of (cc_cache demo_cache) (u ''h1'') \<noteq> None" "map_of (cc_cache demo_cache) (u ''h2'') = None"
    "map_of (stable_hashes demo_cache) (u ''h2'') = None"
    by (simp_all add: demo_cache_def store_compressed_cache new_cache_def mark_stable_def move_to_end_def)
  have i: "frozen_step id demo_cache image_msg = Inr True"
    by (simp add: image_msg_def frozen_step_def is_tool_result_message_def can_swap_tool_result_content_def
        extract_tool_result_content_def carries_tool_result_text_def extract_text_from_blocks_def)
  have h: "frozen_step id demo_cache (demo_tool_msg ''h1'') = Inr True" "frozen_step id demo_cache (demo_tool_msg ''h2'') = Inr False"
    using c by (simp_all add: frozen_step_def)
  have f: "compute_frozen_count id demo_cache ?ms = Inr 2"
    by (simp add: compute_frozen_count_def i h)
  note sound = frozen_count_sound [OF f]
  have "blocked id demo_cache (?ms ! 2) \<and> fst (apply_cached id demo_cache [?ms ! 2]) = Inr [?ms ! 2]"
    using sound by (simp del: nth_Cons_numeral)
  moreover have "\<exists>out. fst (apply_cached id demo_cache (take 2 ?ms)) = Inr out \<and> list_all2 (replayed id demo_cache) (take 2 ?ms) out"
    using sound by blast
  ultimately show ?thesis using f by (auto dest: list_all2_lengthD)
qed

section \<open>Deferral\<close>

lemma prune_seen_lookup:
  "distinct (map fst d) \<Longrightarrow> map_of d h = Some s \<Longrightarrow>
   map_of (prune_seen now ttl d) h = Some s \<or>
   map_of (prune_seen now ttl d) h = None \<and> ttl \<le> now - s"
proof (induction now ttl d rule: prune_seen.induct)
  case (2 now ttl h' t d)
  obtain n where n: "prune_seen now ttl d = drop n d" using prune_seen_suffix by blast
  have "map_of (drop n d) h' = None"
    using 2(2) by (auto simp: map_of_eq_None_iff dest: in_set_dropD)
  with 2 n show ?case by (auto split: if_splits)
qed simp

lemma record_first_seen_lookup:
  assumes "cache_inv c" and "0 < cc_max_entries c"
  shows "map_of (first_seen (record_first_seen c h t)) h = Some t"
proof -
  let ?d = "AList.update h t (first_seen c)"
  have m: "move_to_end h ?d = AList.delete h ?d @ [(h, t)]"
    by (simp add: move_to_end_def update_conv')
  have "distinct (map fst (trim_oldest (cc_max_entries c) (move_to_end h ?d)))"
    using assms(1) by (simp add: cache_inv_def trim_move_update_inv)
  moreover have "(h, t) \<in> set (trim_oldest (cc_max_entries c) (move_to_end h ?d))"
    unfolding m by (rule trim_oldest_last [OF assms(2)])
  ultimately show ?thesis by (simp add: record_first_seen_def)
qed

text \<open>Content seen again within the deferral window is deferred, and content seen for the first
  time is not. After a call at time \<open>t\<close> on unseen content, which answers no, the next call for
  it answers yes exactly before \<open>t + ttl - batch_window\<close>.\<close>

theorem defer_window:
  assumes "reachable_cache md5 c" and "0 < cc_max_entries c" and "map_of (first_seen c) h = None"
    and "0 \<le> batch_window"
    and "should_defer_compression t ttl batch_window c h = (d1, c1)"
    and "should_defer_compression t' ttl batch_window c1 h = (d2, c2)"
  shows "\<not> d1 \<and> (d2 \<longleftrightarrow> t' - t < ttl - batch_window)"
proof -
  let ?p = "prune_expired_first_seen t ttl c"
  have inv: "cache_inv c" by (rule reachable_cache_inv [OF assms(1)])
  have p: "map_of (first_seen ?p) h = None"
    using assms(3) prune_seen_suffix [of t ttl "first_seen c"]
    by (auto simp: prune_expired_first_seen_def map_of_eq_None_iff dest!: in_set_dropD)
  then have 1: "\<not> d1" "c1 = record_first_seen ?p h t"
    using assms(5) by (auto simp: should_defer_compression_def Let_def)
  have "cache_inv ?p" using inv by (rule inv_intros)
  then have m: "map_of (first_seen c1) h = Some t" and i1: "cache_inv c1"
    using record_first_seen_lookup [of ?p h t] assms(2)
    by (auto simp: 1(2) prune_expired_first_seen_def intro: inv_intros)
  show ?thesis
    using prune_seen_lookup [of "first_seen c1" h t t' ttl] m i1 1(1) assms(4,6)
    by (auto simp: should_defer_compression_def Let_def prune_expired_first_seen_def cache_inv_def
        split: if_splits option.splits)
qed

theorem defer_window_witness:
  "\<exists>c1 c2. should_defer_compression 100 300 30 demo_cache (u ''h5'') = (False, c1)
     \<and> should_defer_compression 200 300 30 c1 (u ''h5'') = (True, c2)"
proof -
  obtain d1 c1 where 1: "should_defer_compression 100 300 30 demo_cache (u ''h5'') = (d1, c1)"
    by (cases "should_defer_compression 100 300 30 demo_cache (u ''h5'')")
  obtain d2 c2 where 2: "should_defer_compression 200 300 30 c1 (u ''h5'') = (d2, c2)"
    by (cases "should_defer_compression 200 300 30 c1 (u ''h5'')")
  have "\<not> d1 \<and> d2"
    using defer_window [OF demo_cache_reachable [of id] _ _ _ 1 2]
    by (simp add: demo_cache_def new_cache_def mark_stable_def)
  with 1 2 show ?thesis by simp
qed

end
