(* ===== verification/Cross_Turn_Dedup.thy ===== *)
theory Cross_Turn_Dedup
  imports Py_Text
begin

text \<open>
  \<open>headroom/transforms/cross_turn_dedup.py\<close>: spans of a later tool output that already appeared
  verbatim in an earlier one are replaced by a one-line pointer. The model follows the module function
  by function; the Unicode database is the argument \<open>U\<close>. An exception inside the loop (only
  \<open>encode("utf-8")\<close> on a lone surrogate can raise) is \<open>None\<close>, which
  \<open>dedup_blocks\<close> turns into its input, as the \<open>except\<close> clause does. Logging is left out.
\<close>

section \<open>Lines\<close>

definition DEFAULT_MIN_LINES :: int where "DEFAULT_MIN_LINES = 3"
definition DEFAULT_MIN_CHARS :: int where "DEFAULT_MIN_CHARS = 40"
definition MAX_ANCHOR_CANDIDATES :: nat where "MAX_ANCHOR_CANDIDATES = 16"

text \<open>The match of \<open>^([1-9]\d{0,17})(:|\t)(.*)$\<close>: since a separator is not a digit, the number
  is the maximal run of digits at the start of the line.\<close>

definition lineno_match :: "ucd \<Rightarrow> pystr \<Rightarrow> (pystr \<times> nat \<times> pystr) option" where
  "lineno_match U line =
     (let digits = takeWhile (is_decimal U) line; rest = dropWhile (is_decimal U) line in
      case (digits, rest) of
        (d # _, sep # content) \<Rightarrow>
          if 49 \<le> d \<and> d \<le> 57 \<and> length digits \<le> 18 \<and> (sep = 58 \<or> sep = 9)
          then Some (digits, sep, content) else None
      | _ \<Rightarrow> None)"

definition num_and_key :: "ucd \<Rightarrow> pystr \<Rightarrow> int option \<times> pystr \<times> pystr" where
  "num_and_key U line =
     (case lineno_match U line of
        None \<Rightarrow> (None, line, line)
      | Some (digits, sep, content) \<Rightarrow> (Some (int (dec_value U digits)), sep # content, content))"

record dedup_block =
  blk_text :: pystr
  turn :: int
  protected :: bool

definition is_trivial :: "pystr \<Rightarrow> bool" where
  "is_trivial line =
     (let s = strip line in
      length s < 4 \<or> s \<in> set [u ''return'', u ''pass'', u ''else:'', u ''try:'', u ''except:'',
        u ''finally:'', u ''break'', u ''continue'', u ''});'', u ''})'', u ''],'', u ''),'',
        [34, 34, 34], [39, 39, 39], u ''...''])"

text \<open>The first line of the span that is not blank, shortened to 20 characters.\<close>

definition anchor_of :: "ucd \<Rightarrow> pystr list \<Rightarrow> pystr" where
  "anchor_of U spn =
     (let a = (case find (\<lambda>lin. strip lin \<noteq> []) spn of
                 Some lin \<Rightarrow> strip (snd (snd (num_and_key U lin))) | None \<Rightarrow> []) in
      if length a > 20 then take 17 a @ u ''...'' else a)"

definition pointer :: "ucd \<Rightarrow> pystr list \<Rightarrow> int \<Rightarrow> int \<Rightarrow> pystr" where
  "pointer U spn ref_turn delta =
     (let anchor = anchor_of U spn;
          head = [91, 8593] @ show_int (int (length spn)) @ u ''L same as msg '' @ show_int ref_turn in
      if delta \<noteq> 0
      then head @ u '' '' @ show_signed delta @ u ''L: '' @ py_repr U anchor @ u '']''
      else head @ u '': '' @ py_repr U anchor @ u '']'')"

section \<open>The index of earlier lines\<close>

type_synonym anchor_index = "(pystr, (nat \<times> nat) list) odict"
type_synonym corpus = "pystr option list list"

fun index_lines :: "ucd \<Rightarrow> nat \<Rightarrow> nat \<Rightarrow> pystr option list \<Rightarrow> anchor_index \<Rightarrow> anchor_index" where
  "index_lines U bp li [] idx = idx"
| "index_lines U bp li (None # lines) idx = index_lines U bp (Suc li) lines idx"
| "index_lines U bp li (Some lin # lines) idx =
     (let (_, key, content) = num_and_key U lin in
      if is_trivial content then index_lines U bp (Suc li) lines idx
      else
        let bucket = (case map_of idx key of Some b \<Rightarrow> b | None \<Rightarrow> []);
            bucket' = (if length bucket < MAX_ANCHOR_CANDIDATES then bucket @ [(bp, li)] else bucket) in
        index_lines U bp (Suc li) lines (AList.update key bucket' idx))"

text \<open>The inner loop of \<open>_longest_match\<close>: how far the current lines and an earlier block's lines
  agree, and the uniform shift of their line numbers.\<close>

fun run_length ::
  "ucd \<Rightarrow> pystr list \<Rightarrow> pystr option list \<Rightarrow> int option \<Rightarrow> nat \<times> int option" where
  "run_length U (ca # cs) (Some cb # bs) delta =
     (let (na, ka, _) = num_and_key U ca; (nb, kb, _) = num_and_key U cb in
      if ka \<noteq> kb then (0, delta)
      else case (na, nb) of
             (Some x, Some y) \<Rightarrow>
               if delta = None \<or> delta = Some (x - y)
               then (case run_length U cs bs (Some (x - y)) of (k, d) \<Rightarrow> (Suc k, d))
               else (0, delta)
           | _ \<Rightarrow> if ca \<noteq> cb then (0, delta)
                  else (case run_length U cs bs delta of (k, d) \<Rightarrow> (Suc k, d)))"
| "run_length U cs bs delta = (0, delta)"

type_synonym match = "nat \<times> nat \<times> nat \<times> int"

text \<open>Longer wins, on ties the earlier candidate.\<close>

fun best_match ::
  "ucd \<Rightarrow> pystr list \<Rightarrow> corpus \<Rightarrow> (nat \<times> nat) list \<Rightarrow> match option \<Rightarrow> match option" where
  "best_match U cur corp [] best = best"
| "best_match U cur corp ((bp, li) # cands) best =
     (let (k, delta) = run_length U cur (drop li (corp ! bp)) None in
      best_match U cur corp cands
        (if k > (case best of None \<Rightarrow> 0 | Some (b, _) \<Rightarrow> b)
         then Some (k, bp, li, (case delta of Some d \<Rightarrow> d | None \<Rightarrow> 0)) else best))"

text \<open>\<open>_longest_match(cur, start, ...)\<close>, on the lines from \<open>start\<close> on.\<close>

definition longest_match :: "ucd \<Rightarrow> pystr list \<Rightarrow> anchor_index \<Rightarrow> corpus \<Rightarrow> match option" where
  "longest_match U cur idx corp =
     (case cur of
        [] \<Rightarrow> None
      | lin # _ \<Rightarrow>
          (case map_of idx (fst (snd (num_and_key U lin))) of
             None \<Rightarrow> None
           | Some cands \<Rightarrow> best_match U cur corp cands None))"

lemma best_match_pos:
  "(\<And>m. best = Some m \<Longrightarrow> 0 < fst m) \<Longrightarrow> best_match U cur corp cands best = Some m \<Longrightarrow> 0 < fst m"
proof (induction cands arbitrary: best)
  case (Cons c cands)
  obtain bp li where c: "c = (bp, li)" by (cases c)
  obtain k d where r: "run_length U cur (drop li (corp ! bp)) None = (k, d)"
    by (cases "run_length U cur (drop li (corp ! bp)) None")
  let ?best = "if k > (case best of None \<Rightarrow> 0 | Some (b, _) \<Rightarrow> b)
    then Some (k, bp, li, (case d of Some d \<Rightarrow> d | None \<Rightarrow> 0)) else best"
  have "0 < fst m'" if "?best = Some m'" for m'
    using that Cons.prems(1) [of m'] by (auto split: if_splits option.splits)
  with Cons.IH [of ?best] Cons.prems(2) r show ?case by (simp add: c)
qed simp

lemma longest_match_pos: "longest_match U cur idx corp = Some m \<Longrightarrow> 0 < fst m \<and> cur \<noteq> []"
  using best_match_pos [of None U cur corp _ m]
  by (auto simp: longest_match_def split: list.splits option.splits)

section \<open>Folding one block\<close>

record dedup_stats =
  spans_folded :: int
  lines_removed :: int
  chars_removed :: int

text \<open>Whether the code folds a match: at least \<open>min_lines\<close> lines and \<open>min_chars\<close> characters,
  and a pointer shorter than the span in UTF-8 bytes. \<open>None\<close> when an \<open>encode\<close> raises.\<close>

definition worth_folding :: "int \<Rightarrow> pystr \<Rightarrow> pystr \<Rightarrow> bool option" where
  "worth_folding min_chars span_text ptr =
     (if int (length span_text) \<ge> min_chars
      then (case (encoded_len ptr, encoded_len span_text) of
              (Some p, Some s) \<Rightarrow> Some (p < s) | _ \<Rightarrow> None)
      else Some False)"

type_synonym folded = "pystr list \<times> pystr option list \<times> dedup_stats"

definition emit_verbatim :: "pystr \<Rightarrow> folded \<Rightarrow> folded" where
  "emit_verbatim lin r = (case r of (out, verb, st) \<Rightarrow> (lin # out, Some lin # verb, st))"

definition emit_pointer :: "pystr \<Rightarrow> nat \<Rightarrow> int \<Rightarrow> folded \<Rightarrow> folded" where
  "emit_pointer ptr n chars r =
     (case r of (out, verb, st) \<Rightarrow>
        (ptr # out, replicate n None @ verb,
         st\<lparr>spans_folded := spans_folded st + 1, lines_removed := lines_removed st + int n,
            chars_removed := chars_removed st + chars\<rparr>))"

text \<open>The \<open>while i < n\<close> loop on the remaining lines: the emitted lines, the verbatim lines of the
  block for the corpus, and the statistics.\<close>

function (sequential) fold_lines ::
  "ucd \<Rightarrow> int \<Rightarrow> int \<Rightarrow> int list \<Rightarrow> anchor_index \<Rightarrow> corpus \<Rightarrow> dedup_stats \<Rightarrow> pystr list \<Rightarrow> folded option" where
  "fold_lines U ml mc turns idx corp st [] = Some ([], [], st)"
| "fold_lines U ml mc turns idx corp st (lin # lins) =
     (case longest_match U (lin # lins) idx corp of
        Some (n, bp, li, delta) \<Rightarrow>
          if int n \<ge> ml then
            (let spn = take n (lin # lins); span_text = join [newline] spn;
                 ptr = pointer U spn (turns ! bp) delta in
             case worth_folding mc span_text ptr of
               None \<Rightarrow> None
             | Some True \<Rightarrow>
                 map_option (emit_pointer ptr n (int (length span_text) - int (length ptr)))
                   (fold_lines U ml mc turns idx corp st (drop n (lin # lins)))
             | Some False \<Rightarrow>
                 map_option (emit_verbatim lin) (fold_lines U ml mc turns idx corp st lins))
          else map_option (emit_verbatim lin) (fold_lines U ml mc turns idx corp st lins)
      | None \<Rightarrow> map_option (emit_verbatim lin) (fold_lines U ml mc turns idx corp st lins))"
  by pat_completeness auto
termination
  by (relation "measure (\<lambda>(U, ml, mc, turns, idx, corp, st, lins). length lins)")
    (auto dest!: longest_match_pos)

declare fold_lines.simps(2) [simp del]

section \<open>The whole conversation\<close>

record dedup_state =
  ds_corpus :: corpus
  ds_index :: anchor_index
  ds_out :: "dedup_block list"
  ds_stats :: dedup_stats

definition dedup_init :: dedup_state where
  "dedup_init = \<lparr>ds_corpus = [], ds_index = [], ds_out = [],
     ds_stats = \<lparr>spans_folded = 0, lines_removed = 0, chars_removed = 0\<rparr>\<rparr>"

text \<open>One iteration of the loop over the blocks.\<close>

definition dedup_step :: "ucd \<Rightarrow> int \<Rightarrow> int \<Rightarrow> int list \<Rightarrow> dedup_state \<Rightarrow> dedup_block \<Rightarrow> dedup_state option" where
  "dedup_step U ml mc turns s blk =
     (let lines = split_on newline (blk_text blk); pos = length (ds_corpus s) in
      if protected blk then
        let verb = map Some lines in
        Some (s\<lparr>ds_index := index_lines U pos 0 verb (ds_index s), ds_corpus := ds_corpus s @ [verb],
                ds_out := ds_out s @ [blk]\<rparr>)
      else
        (case fold_lines U ml mc turns (ds_index s) (ds_corpus s) (ds_stats s) lines of
           None \<Rightarrow> None
         | Some (out, verb, st) \<Rightarrow>
             Some (s\<lparr>ds_index := index_lines U pos 0 verb (ds_index s), ds_corpus := ds_corpus s @ [verb],
                     ds_out := ds_out s @ [\<lparr>blk_text = join [newline] out, turn = turn blk, protected = False\<rparr>],
                     ds_stats := st\<rparr>)))"

fun dedup_loop :: "ucd \<Rightarrow> int \<Rightarrow> int \<Rightarrow> int list \<Rightarrow> dedup_state \<Rightarrow> dedup_block list \<Rightarrow> dedup_state option" where
  "dedup_loop U ml mc turns s [] = Some s"
| "dedup_loop U ml mc turns s (blk # blks) =
     (case dedup_step U ml mc turns s blk of
        None \<Rightarrow> None | Some s' \<Rightarrow> dedup_loop U ml mc turns s' blks)"

definition dedup_blocks :: "ucd \<Rightarrow> int \<Rightarrow> int \<Rightarrow> dedup_block list \<Rightarrow> dedup_block list \<times> dedup_stats" where
  "dedup_blocks U ml mc blocks =
     (case dedup_loop U ml mc (map turn blocks) dedup_init blocks of
        Some s \<Rightarrow> (ds_out s, ds_stats s)
      | None \<Rightarrow> (blocks, \<lparr>spans_folded = 0, lines_removed = 0, chars_removed = 0\<rparr>))"

definition is_prefix_monotonic :: "ucd \<Rightarrow> int \<Rightarrow> int \<Rightarrow> dedup_block list \<Rightarrow> bool" where
  "is_prefix_monotonic U ml mc blocks =
     (let full_text = map blk_text (fst (dedup_blocks U ml mc blocks)) in
      list_all (\<lambda>k. map blk_text (fst (dedup_blocks U ml mc (take k blocks))) = take k full_text)
        [1..<length blocks + 1])"

end
