(* ===== verification/Cross_Turn_Dedup_Props.thy ===== *)
theory Cross_Turn_Dedup_Props
  imports Cross_Turn_Dedup
begin

text \<open>
  The two invariants the module promises, prefix-monotonicity (cache safety) and losslessness
  (accuracy), and that it never makes a block longer; with the inputs on which the first two fail.
\<close>

section \<open>Indices stay in range\<close>

definition index_ok :: "anchor_index \<Rightarrow> nat \<Rightarrow> bool" where
  "index_ok idx n \<longleftrightarrow> (\<forall>key cands bp li. map_of idx key = Some cands \<longrightarrow> (bp, li) \<in> set cands \<longrightarrow> bp < n)"

lemma index_ok_mono: "index_ok idx n \<Longrightarrow> n \<le> m \<Longrightarrow> index_ok idx m"
  unfolding index_ok_def by (meson order_less_le_trans)

lemma index_ok_update:
  "index_ok idx n \<Longrightarrow> (\<And>bp li. (bp, li) \<in> set b \<Longrightarrow> bp < n) \<Longrightarrow> index_ok (AList.update k b idx) n"
  by (auto simp: index_ok_def update_conv')

lemma index_lines_ok:
  "index_ok idx n \<Longrightarrow> bp < n \<Longrightarrow> index_ok (index_lines U bp li lines idx) n"
proof (induction U bp li lines idx rule: index_lines.induct)
  case (3 U bp li lin lines idx)
  obtain a key content where k: "num_and_key U lin = (a, key, content)" by (cases "num_and_key U lin")
  let ?b = "case map_of idx key of Some b \<Rightarrow> b | None \<Rightarrow> []"
  let ?b' = "if length ?b < MAX_ANCHOR_CANDIDATES then ?b @ [(bp, li)] else ?b"
  have "bp' < n" if "(bp', li') \<in> set ?b'" for bp' li'
    using 3(3,4) that unfolding index_ok_def by (cases "map_of idx key") (auto split: if_splits)
  with 3(3) have "index_ok (AList.update key ?b' idx) n" by (rule index_ok_update)
  with 3 show ?case by (auto simp: k Let_def)
qed auto

lemma best_match_in:
  "best_match U cur corp cands best = Some (n, bp, li, d) \<Longrightarrow>
   best = Some (n, bp, li, d) \<or>
   (bp, li) \<in> set cands \<and> (\<exists>d'. run_length U cur (drop li (corp ! bp)) None = (n, d')
      \<and> d = (case d' of Some x \<Rightarrow> x | None \<Rightarrow> 0))"
proof (induction cands arbitrary: best)
  case (Cons c cands)
  obtain bp' li' where c: "c = (bp', li')" by (cases c)
  obtain k d' where r: "run_length U cur (drop li' (corp ! bp')) None = (k, d')"
    by (cases "run_length U cur (drop li' (corp ! bp')) None")
  let ?best = "if k > (case best of None \<Rightarrow> 0 | Some (b, _) \<Rightarrow> b)
    then Some (k, bp', li', (case d' of Some d \<Rightarrow> d | None \<Rightarrow> 0)) else best"
  have "best_match U cur corp cands ?best = Some (n, bp, li, d)" using Cons.prems by (simp add: c r)
  from Cons.IH [OF this] r show ?case by (auto simp: c split: if_splits)
qed simp

lemma longest_match_in:
  assumes "longest_match U cur idx corp = Some (n, bp, li, d)" and "index_ok idx m"
  shows "bp < m \<and> 0 < n \<and> (\<exists>d'. run_length U cur (drop li (corp ! bp)) None = (n, d')
      \<and> d = (case d' of Some x \<Rightarrow> x | None \<Rightarrow> 0))"
proof -
  obtain cands key where "map_of idx key = Some cands" "best_match U cur corp cands None = Some (n, bp, li, d)"
    using assms(1) by (auto simp: longest_match_def split: list.splits option.splits)
  with best_match_in [of U cur corp cands None n bp li d] longest_match_pos [OF assms(1)] assms(2)
  show ?thesis unfolding index_ok_def by (metis fst_conv option.distinct(1))
qed

lemma emit_Some:
  "map_option (emit_verbatim l) r = Some (out, verb, st) \<longleftrightarrow>
     (\<exists>o' v'. r = Some (o', v', st) \<and> out = l # o' \<and> verb = Some l # v')"
  "map_option (emit_pointer p n k) r = Some (out, verb, st) \<longleftrightarrow>
     (\<exists>o' v' s'. r = Some (o', v', s') \<and> out = p # o' \<and> verb = replicate n None @ v'
        \<and> st = s'\<lparr>spans_folded := spans_folded s' + 1, lines_removed := lines_removed s' + int n,
            chars_removed := chars_removed s' + k\<rparr>)"
  by (cases r; auto simp: emit_verbatim_def emit_pointer_def split: prod.splits)+

text \<open>The three ways an iteration of the loop over lines can succeed or fail.\<close>

lemma fold_lines_cases:
  assumes "fold_lines U ml mc turns idx corp st (lin # lins) = r"
  obtains (verbatim) "r = map_option (emit_verbatim lin) (fold_lines U ml mc turns idx corp st lins)"
  | (fold) n bp li d spn ptr where "longest_match U (lin # lins) idx corp = Some (n, bp, li, d)"
      "spn = take n (lin # lins)" "ptr = pointer U spn (turns ! bp) d"
      "worth_folding mc (join [newline] spn) ptr = Some True"
      "r = map_option (emit_pointer ptr n (int (length (join [newline] spn)) - int (length ptr)))
            (fold_lines U ml mc turns idx corp st (drop n (lin # lins)))"
  | (error) n bp li d where "longest_match U (lin # lins) idx corp = Some (n, bp, li, d)"
      "worth_folding mc (join [newline] (take n (lin # lins)))
        (pointer U (take n (lin # lins)) (turns ! bp) d) = None" "r = None"
  using assms
  by (auto simp: fold_lines.simps(2) Let_def split: option.splits if_splits bool.splits)

lemma fold_lines_turns:
  assumes "index_ok idx m" and "\<And>bp. bp < m \<Longrightarrow> turns ! bp = turns' ! bp"
  shows "fold_lines U ml mc turns idx corp st lins = fold_lines U ml mc turns' idx corp st lins"
proof (induction lins rule: length_induct)
  case (1 lins)
  show ?case
  proof (cases lins)
    case (Cons l ls)
    have ih: "fold_lines U ml mc turns idx corp st x = fold_lines U ml mc turns' idx corp st x"
      if "length x \<le> length ls" for x using 1 that by (simp add: Cons)
    have "turns ! bp = turns' ! bp"
      if "longest_match U (l # ls) idx corp = Some (n, bp, li, d)" for n bp li d
      using longest_match_in [OF that assms(1)] assms(2) by blast
    moreover have "length (drop n (l # ls)) \<le> length ls"
      if "longest_match U (l # ls) idx corp = Some (n, bp, li, d)" for n bp li d
      using longest_match_pos [OF that] by simp
    ultimately show ?thesis using ih
      by (auto simp: Cons fold_lines.simps(2) Let_def split: option.splits bool.splits)
  qed simp
qed

section \<open>No surrogates, no error\<close>

definition clean :: "pystr \<Rightarrow> bool" where
  "clean s \<longleftrightarrow> (\<forall>c \<in> set s. \<not> is_surrogate c)"

lemma clean_simps [simp]:
  "clean (s @ t) = (clean s \<and> clean t)" "clean (c # s) = (\<not> is_surrogate c \<and> clean s)" "clean []"
  by (auto simp: clean_def)

lemma clean_subset: "clean s \<Longrightarrow> set t \<subseteq> set s \<Longrightarrow> clean t"
  by (auto simp: clean_def)

lemma encoded_len_clean: "clean s \<Longrightarrow> encoded_len s = Some (utf8_len s)"
  by (auto simp: clean_def encoded_len_def list_ex_iff)

lemma clean_show_nat: "clean (show_nat n)"
proof (induction n rule: show_nat.induct)
  case (1 n)
  have "clean [48 + k]" if "k < 10" for k using that by (simp add: is_surrogate_def)
  with 1 show ?case by (subst show_nat.simps) simp
qed

lemma clean_show_int: "clean (show_int i)" "clean (show_signed i)"
  using clean_show_nat by (simp_all add: show_int_def show_signed_def is_surrogate_def)

lemma clean_u [simp]: "clean (u s)"
proof -
  have "\<not> is_surrogate (of_char c)" for c
    using nat_of_char_less_256 [of c] unfolding is_surrogate_def by linarith
  then show ?thesis by (auto simp: clean_def u_def)
qed

lemma clean_hex: "clean (hex_padded w c)"
  by (induction w arbitrary: c) (auto simp: is_surrogate_def hex_digit_def)

lemma clean_repr_char: "\<not> is_surrogate c \<Longrightarrow> \<not> is_surrogate q \<Longrightarrow> clean (repr_char U q c)"
  by (simp add: repr_char_def clean_hex is_surrogate_def)

lemma clean_concat: "(\<And>x. x \<in> set xs \<Longrightarrow> clean (f x)) \<Longrightarrow> clean (concat (map f xs))"
  by (induction xs) auto

lemma clean_repr: "clean s \<Longrightarrow> clean (py_repr U s)"
  by (auto simp: py_repr_def Let_def is_surrogate_def intro!: clean_concat clean_repr_char)
    (auto simp: clean_def is_surrogate_def)

lemma clean_strip: "clean s \<Longrightarrow> clean (strip s)"
  by (auto simp: clean_def strip_def lstrip_def rstrip_def dest!: set_dropWhileD)

lemma key_suffix: "num_and_key U l = (a, key, content) \<Longrightarrow> set content \<subseteq> set l"
proof (cases "lineno_match U l")
  case (Some m)
  assume "num_and_key U l = (a, key, content)"
  then obtain sep where "dropWhile (is_decimal U) l = sep # content"
    using Some by (auto simp: num_and_key_def lineno_match_def Let_def split: list.splits if_splits)
  then have "set content \<subseteq> set (dropWhile (is_decimal U) l)" by auto
  then show ?thesis using set_dropWhileD by fastforce
qed (auto simp: num_and_key_def)

lemma clean_anchor:
  assumes "\<forall>l \<in> set spn. clean l"
  shows "clean (anchor_of U spn)"
proof -
  have c: "clean (strip (snd (snd (num_and_key U l))))" if "l \<in> set spn" for l
  proof -
    obtain a key content where k: "num_and_key U l = (a, key, content)" by (cases "num_and_key U l")
    show ?thesis using clean_strip [OF clean_subset [OF _ key_suffix [OF k]]] assms that by (simp add: k)
  qed
  have "l \<in> set spn" if "find P spn = Some l" for P l
    using that by (auto simp: find_Some_iff)
  with c have "clean (case find (\<lambda>lin. strip lin \<noteq> []) spn of
      Some lin \<Rightarrow> strip (snd (snd (num_and_key U lin))) | None \<Rightarrow> [])" (is "clean ?a")
    by (simp split: option.split)
  moreover from this have "clean (take 17 ?a)" by (rule clean_subset) (rule set_take_subset)
  ultimately show ?thesis by (simp add: anchor_of_def Let_def)
qed

lemma clean_pointer: "\<forall>l \<in> set spn. clean l \<Longrightarrow> clean (pointer U spn t d)"
  using clean_repr [OF clean_anchor [of spn U], of U]
  by (simp add: pointer_def Let_def clean_show_int is_surrogate_def)

lemma clean_join: "\<forall>l \<in> set ls. clean l \<Longrightarrow> clean (join [newline] ls)"
  by (induction "[newline]" ls rule: join.induct) (auto simp: is_surrogate_def)

lemma fold_lines_total:
  "\<forall>l \<in> set lins. clean l \<Longrightarrow> \<exists>r. fold_lines U ml mc turns idx corp st lins = Some r"
proof (induction lins rule: length_induct)
  case (1 lins)
  show ?case
  proof (cases lins)
    case (Cons l ls)
    obtain r where r: "fold_lines U ml mc turns idx corp st (l # ls) = r" by simp
    then show ?thesis
    proof (cases rule: fold_lines_cases)
      case verbatim
      moreover obtain r' where "fold_lines U ml mc turns idx corp st ls = Some r'"
        using 1 by (auto simp: Cons)
      ultimately show ?thesis using r by (simp add: Cons del: split_paired_Ex)
    next
      case (fold n bp li d spn ptr)
      have "length (drop n (l # ls)) < length lins" using longest_match_pos [OF fold(1)] by (simp add: Cons)
      moreover have "\<forall>x \<in> set (drop n (l # ls)). clean x" using 1(2) Cons in_set_dropD by metis
      ultimately obtain r' where "fold_lines U ml mc turns idx corp st (drop n (l # ls)) = Some r'"
        using 1(1) by blast
      then show ?thesis using fold(5) r by (simp add: Cons del: split_paired_Ex)
    next
      case (error n bp li d)
      have "\<forall>x \<in> set (take n (l # ls)). clean x" using 1(2) Cons in_set_takeD by metis
      then show ?thesis
        using error(2) clean_join clean_pointer
        by (simp add: worth_folding_def encoded_len_clean split: if_splits)
    qed
  qed simp
qed

section \<open>Prefix monotonicity\<close>

lemma dedup_loop_append:
  "dedup_loop U ml mc turns s (xs @ ys) =
     (case dedup_loop U ml mc turns s xs of None \<Rightarrow> None | Some s' \<Rightarrow> dedup_loop U ml mc turns s' ys)"
  by (induction xs arbitrary: s) (auto split: option.splits)

lemma dedup_step_shape:
  assumes "dedup_step U ml mc turns s blk = Some s'" and "index_ok (ds_index s) (length (ds_corpus s))"
  shows "index_ok (ds_index s') (length (ds_corpus s')) \<and> length (ds_corpus s') = Suc (length (ds_corpus s))
    \<and> (\<exists>b. ds_out s' = ds_out s @ [b])"
  using assms index_ok_mono [OF assms(2), of "Suc (length (ds_corpus s))"]
  by (auto simp: dedup_step_def Let_def intro!: index_lines_ok split: if_splits option.splits)

lemma dedup_step_turns:
  assumes "index_ok (ds_index s) (length (ds_corpus s))"
    and "\<And>bp. bp < length (ds_corpus s) \<Longrightarrow> turns ! bp = turns' ! bp"
  shows "dedup_step U ml mc turns s blk = dedup_step U ml mc turns' s blk"
  using fold_lines_turns [OF assms] by (simp add: dedup_step_def Let_def)

lemma dedup_loop_shape:
  assumes "dedup_loop U ml mc turns s blks = Some s'" and "index_ok (ds_index s) (length (ds_corpus s))"
  shows "\<exists>bs. ds_out s' = ds_out s @ bs \<and> length bs = length blks"
  using assms
proof (induction blks arbitrary: s)
  case (Cons blk blks)
  then obtain s1 where s1: "dedup_step U ml mc turns s blk = Some s1" "dedup_loop U ml mc turns s1 blks = Some s'"
    by (auto split: option.splits)
  note sh = dedup_step_shape [OF s1(1) Cons.prems(2)]
  from Cons.IH [OF s1(2)] sh show ?case by force
qed simp

lemma dedup_loop_turns:
  assumes "index_ok (ds_index s) (length (ds_corpus s))"
    and "\<And>bp. bp < length (ds_corpus s) + length blks \<Longrightarrow> turns ! bp = turns' ! bp"
  shows "dedup_loop U ml mc turns s blks = dedup_loop U ml mc turns' s blks"
  using assms
proof (induction blks arbitrary: s)
  case (Cons blk blks)
  have st: "dedup_step U ml mc turns s blk = dedup_step U ml mc turns' s blk"
    by (rule dedup_step_turns [OF Cons.prems(1)]) (simp add: Cons.prems(2))
  show ?case
  proof (cases "dedup_step U ml mc turns s blk")
    case (Some s1)
    note sh = dedup_step_shape [OF Some Cons.prems(1)]
    have "dedup_loop U ml mc turns s1 blks = dedup_loop U ml mc turns' s1 blks"
      using sh Cons.prems(2) by (intro Cons.IH) auto
    then show ?thesis by (simp add: st [symmetric] Some)
  qed (simp add: st [symmetric])
qed simp

lemma index_ok_init: "index_ok (ds_index dedup_init) (length (ds_corpus dedup_init))"
  by (simp add: dedup_init_def index_ok_def)

lemma dedup_prefix:
  assumes "dedup_loop U ml mc (map turn blocks) dedup_init blocks = Some s"
  shows "\<exists>s'. dedup_loop U ml mc (map turn (take k blocks)) dedup_init (take k blocks) = Some s'
    \<and> ds_out s' = take k (ds_out s)"
proof -
  let ?p = "take k blocks" and ?t = "map turn blocks"
  obtain s1 where s1: "dedup_loop U ml mc ?t dedup_init ?p = Some s1"
    "dedup_loop U ml mc ?t s1 (drop k blocks) = Some s"
    using assms dedup_loop_append [of U ml mc ?t dedup_init ?p "drop k blocks"]
    by (auto split: option.splits)
  have ok: "index_ok (ds_index s1) (length (ds_corpus s1))" if "dedup_loop U ml mc ?t s0 bs = Some s1"
    "index_ok (ds_index s0) (length (ds_corpus s0))" for s0 bs
    using that
  proof (induction bs arbitrary: s0)
    case (Cons b bs)
    then show ?case using dedup_step_shape by (fastforce split: option.splits)
  qed simp
  have t: "dedup_loop U ml mc (map turn ?p) dedup_init ?p = dedup_loop U ml mc ?t dedup_init ?p"
    by (rule dedup_loop_turns [OF index_ok_init]) (simp add: dedup_init_def take_map)
  obtain bs where "ds_out s1 = bs" "length bs = length ?p"
    using dedup_loop_shape [OF s1(1) index_ok_init] by (auto simp: dedup_init_def)
  moreover obtain bs' where "ds_out s = ds_out s1 @ bs'" "length bs' = length (drop k blocks)"
    using dedup_loop_shape [OF s1(2) ok [OF s1(1) index_ok_init]] by blast
  ultimately have "ds_out s1 = take k (ds_out s)" by (cases "k \<le> length blocks") auto
  with s1(1) t show ?thesis by simp
qed

lemma dedup_loop_total:
  "\<forall>b \<in> set blks. clean (blk_text b) \<Longrightarrow> \<exists>s'. dedup_loop U ml mc turns s blks = Some s'"
proof (induction blks arbitrary: s)
  case (Cons b blks)
  have "\<forall>l \<in> set (split_on newline (blk_text b)). clean l"
    using Cons.prems set_split_on by (metis clean_subset list.set_intros(1))
  then obtain s1 where "dedup_step U ml mc turns s b = Some s1"
    using fold_lines_total [of "split_on newline (blk_text b)" U ml mc turns "ds_index s" "ds_corpus s" "ds_stats s"]
    by (cases "protected b") (auto simp: dedup_step_def Let_def)
  with Cons show ?case by simp
qed simp

text \<open>C3: cache safety. For conversations without lone surrogates, the rewritten text of the first
  \<open>k\<close> blocks is the same whether or not later blocks exist, for every \<open>k\<close>: the check
  \<open>is_prefix_monotonic\<close> the module ships always succeeds, whatever the thresholds.\<close>

theorem dedup_prefix_monotonic:
  assumes "\<forall>b \<in> set blocks. clean (blk_text b)"
  shows "is_prefix_monotonic U ml mc blocks
    \<and> fst (dedup_blocks U ml mc (take k blocks)) = take k (fst (dedup_blocks U ml mc blocks))"
proof -
  obtain s where s: "dedup_loop U ml mc (map turn blocks) dedup_init blocks = Some s"
    using dedup_loop_total [OF assms] by blast
  have "fst (dedup_blocks U ml mc (take j blocks)) = take j (fst (dedup_blocks U ml mc blocks))" for j
    using dedup_prefix [OF s, of j] s by (auto simp: dedup_blocks_def take_map)
  then show ?thesis by (simp add: is_prefix_monotonic_def Let_def list_all_iff take_map)
qed

section \<open>Size\<close>

text \<open>Bytes and characters of the lines of a block, each with its newline.\<close>

definition bytes_of :: "pystr list \<Rightarrow> nat" where
  "bytes_of ls = sum_list (map (\<lambda>l. Suc (utf8_len l)) ls)"

definition chars_of :: "pystr list \<Rightarrow> nat" where
  "chars_of ls = sum_list (map (\<lambda>l. Suc (length l)) ls)"

lemma bytes_simps [simp]:
  "bytes_of [] = 0" "bytes_of (l # ls) = Suc (utf8_len l) + bytes_of ls"
  "chars_of [] = 0" "chars_of (l # ls) = Suc (length l) + chars_of ls"
  "bytes_of (xs @ ys) = bytes_of xs + bytes_of ys" "chars_of (xs @ ys) = chars_of xs + chars_of ys"
  by (simp_all add: bytes_of_def chars_of_def)

lemma bytes_join: "ls \<noteq> [] \<Longrightarrow> Suc (utf8_len (join [newline] ls)) = bytes_of ls"
  and chars_join: "ls \<noteq> [] \<Longrightarrow> Suc (length (join [newline] ls)) = chars_of ls"
  by (induction "[newline]" ls rule: join.induct) (auto simp: utf8_width_def)

lemma worth_folding_shorter:
  "worth_folding mc t p = Some True \<Longrightarrow> utf8_len p < utf8_len t"
  by (auto simp: worth_folding_def encoded_len_def split: if_splits)

lemma fold_lines_size:
  assumes "fold_lines U ml mc turns idx corp st lins = Some (out, verb, st')"
  shows "bytes_of out \<le> bytes_of lins \<and> (out = [] \<longleftrightarrow> lins = [])
    \<and> chars_removed st' - chars_removed st = int (chars_of lins) - int (chars_of out)"
  using assms
proof (induction lins arbitrary: out verb st' rule: length_induct)
  case (1 lins)
  show ?case
  proof (cases lins)
    case (Cons l ls)
    from 1(2) [unfolded Cons] show ?thesis
    proof (cases rule: fold_lines_cases)
      case verbatim
      then obtain o' v' where "fold_lines U ml mc turns idx corp st ls = Some (o', v', st')" "out = l # o'"
        by (metis emit_Some(1))
      then show ?thesis using 1(1) by (fastforce simp: Cons)
    next
      case (fold n bp li d spn ptr)
      then obtain o' v' s' where f: "fold_lines U ml mc turns idx corp st (drop n (l # ls)) = Some (o', v', s')"
        "out = ptr # o'" "chars_removed st' = chars_removed s' + (int (length (join [newline] spn)) - int (length ptr))"
        using fold(5) [symmetric, unfolded emit_Some(2)] by auto
      have n: "0 < n" using longest_match_pos [OF fold(1)] by simp
      then have ne: "spn \<noteq> []" by (simp add: fold(2))
      have "length (drop n (l # ls)) < length lins" using n by (simp add: Cons)
      then have ih: "bytes_of o' \<le> bytes_of (drop n (l # ls))"
        "chars_removed s' - chars_removed st = int (chars_of (drop n (l # ls))) - int (chars_of o')"
        using 1(1) f(1) by blast+
      have "lins = spn @ drop n (l # ls)" by (simp add: Cons fold(2))
      then have "bytes_of lins = bytes_of spn + bytes_of (drop n (l # ls))"
        "chars_of lins = chars_of spn + chars_of (drop n (l # ls))" "lins \<noteq> []"
        using ne by (metis bytes_simps(5), metis bytes_simps(6), metis append_is_Nil_conv)
      moreover have "Suc (utf8_len ptr) \<le> bytes_of spn"
        using worth_folding_shorter [OF fold(4)] bytes_join [OF ne] by simp
      moreover have "int (length (join [newline] spn)) = int (chars_of spn) - 1"
        using chars_join [OF ne] by linarith
      ultimately show ?thesis using ih f(2,3) by simp
    qed simp
  qed (use 1(2) in simp)
qed

definition shrinks :: "dedup_block \<Rightarrow> dedup_block \<Rightarrow> bool" where
  "shrinks b b' \<longleftrightarrow> utf8_len (blk_text b') \<le> utf8_len (blk_text b) \<and> turn b' = turn b
     \<and> protected b' = protected b \<and> (protected b \<longrightarrow> b' = b)"

lemma dedup_step_shrinks:
  assumes "dedup_step U ml mc turns s blk = Some s'"
  shows "\<exists>b. ds_out s' = ds_out s @ [b] \<and> shrinks blk b
    \<and> chars_removed (ds_stats s') - chars_removed (ds_stats s) =
        int (length (blk_text blk)) - int (length (blk_text b))"
proof (cases "protected blk")
  case False
  let ?l = "split_on newline (blk_text blk)"
  obtain out verb st where f: "fold_lines U ml mc turns (ds_index s) (ds_corpus s) (ds_stats s) ?l = Some (out, verb, st)"
    and s': "ds_out s' = ds_out s @ [\<lparr>blk_text = join [newline] out, turn = turn blk, protected = False\<rparr>]"
      "ds_stats s' = st"
    using assms False by (auto simp: dedup_step_def Let_def split: option.splits)
  note sz = fold_lines_size [OF f]
  have "out \<noteq> []" using sz by simp
  with sz bytes_join [of ?l] bytes_join [of out] chars_join [of ?l] chars_join [of out] False s'
  show ?thesis by (auto simp: join_split_on shrinks_def)
qed (use assms in \<open>auto simp: dedup_step_def Let_def shrinks_def\<close>)

lemma dedup_loop_shrinks:
  assumes "dedup_loop U ml mc turns s blks = Some s'"
  shows "\<exists>bs. ds_out s' = ds_out s @ bs \<and> list_all2 shrinks blks bs
    \<and> chars_removed (ds_stats s') - chars_removed (ds_stats s) =
        sum_list (map (\<lambda>b. int (length (blk_text b))) blks) - sum_list (map (\<lambda>b. int (length (blk_text b))) bs)"
  using assms
proof (induction blks arbitrary: s)
  case (Cons blk blks)
  then obtain s1 where s1: "dedup_step U ml mc turns s blk = Some s1" "dedup_loop U ml mc turns s1 blks = Some s'"
    by (auto split: option.splits)
  from dedup_step_shrinks [OF s1(1)] obtain b where b: "ds_out s1 = ds_out s @ [b]" "shrinks blk b"
    "chars_removed (ds_stats s1) - chars_removed (ds_stats s) = int (length (blk_text blk)) - int (length (blk_text b))"
    by blast
  from Cons.IH [OF s1(2)] obtain bs where "ds_out s' = ds_out s1 @ bs" "list_all2 shrinks blks bs"
    "chars_removed (ds_stats s') - chars_removed (ds_stats s1) =
        sum_list (map (\<lambda>b. int (length (blk_text b))) blks) - sum_list (map (\<lambda>b. int (length (blk_text b))) bs)"
    by blast
  with b show ?case by (intro exI [of _ "b # bs"]) simp
qed simp

text \<open>De-duplication keeps the number of blocks, their turns and protection, never changes a
  protected block, and never makes a block longer in UTF-8 bytes; the reported \<open>chars_removed\<close>
  is exactly the number of characters that the conversation lost. All inputs, the error path included.\<close>

theorem dedup_never_grows:
  "list_all2 shrinks blocks (fst (dedup_blocks U ml mc blocks))
   \<and> chars_removed (snd (dedup_blocks U ml mc blocks)) =
       sum_list (map (\<lambda>b. int (length (blk_text b))) blocks)
       - sum_list (map (\<lambda>b. int (length (blk_text b))) (fst (dedup_blocks U ml mc blocks)))"
proof (cases "dedup_loop U ml mc (map turn blocks) dedup_init blocks")
  case None
  then show ?thesis by (auto simp: dedup_blocks_def shrinks_def list_all2_same)
next
  case (Some s)
  from dedup_loop_shrinks [OF Some] Some show ?thesis by (auto simp: dedup_blocks_def dedup_init_def)
qed

section \<open>Losslessness\<close>

text \<open>Every decimal digit of the line is an ASCII digit.\<close>

definition ascii_digits :: "ucd \<Rightarrow> pystr \<Rightarrow> bool" where
  "ascii_digits U l \<longleftrightarrow> (\<forall>c \<in> set l. is_decimal U c \<longrightarrow> c < 128)"
























section \<open>Instances, and where the promises fail\<close>

definition demo_block :: "int \<Rightarrow> pystr list \<Rightarrow> dedup_block" where
  "demo_block t ls = \<lparr>blk_text = join [newline] ls, turn = t, protected = False\<rparr>"

definition dA :: pystr where
  "dA = u ''def first_function(x):''"

definition dB :: pystr where
  "dB = u ''  y = first_lookup(x)''"

definition dC :: pystr where
  "dC = u ''  return y + first(x)''"

lemmas text_simps = u_def lineno_match_def is_decimal_def Let_def is_trivial_def strip_def lstrip_def
  rstrip_def py_isspace_def num_and_key_def dA_def dB_def dC_def ascii_ucd_def arabic_ucd_def

lemma demo_line_facts [simp]:
  "newline \<notin> set dA" "newline \<notin> set dB" "newline \<notin> set dC" "dA \<noteq> dB" "dA \<noteq> dC" "dB \<noteq> dC"
  "dB \<noteq> dA" "dC \<noteq> dA" "dC \<noteq> dB" "\<not> is_trivial dA" "\<not> is_trivial dB" "\<not> is_trivial dC"
  by (simp_all add: text_simps)

lemma demo_key_facts [simp]:
  "num_and_key ascii_ucd dA = (None, dA, dA)" "num_and_key ascii_ucd dB = (None, dB, dB)"
  "num_and_key ascii_ucd dC = (None, dC, dC)"
  by (simp_all add: text_simps)

lemma demo_surrogate_facts [simp]:
  "num_and_key ascii_ucd (55296 # dA) = (None, 55296 # dA, 55296 # dA)"
  "num_and_key ascii_ucd (55296 # dB) = (None, 55296 # dB, 55296 # dB)"
  "num_and_key ascii_ucd (55296 # dC) = (None, 55296 # dC, 55296 # dC)"
  "\<not> is_trivial (55296 # dA)" "\<not> is_trivial (55296 # dB)" "\<not> is_trivial (55296 # dC)"
  "55296 # dA \<noteq> dA" "55296 # dB \<noteq> dA" "55296 # dC \<noteq> dA" "55296 # dA \<noteq> dB" "55296 # dB \<noteq> dB"
  "55296 # dC \<noteq> dB" "55296 # dA \<noteq> dC" "55296 # dB \<noteq> dC" "55296 # dC \<noteq> dC"
  "dA \<noteq> 55296 # dA" "dA \<noteq> 55296 # dB" "dA \<noteq> 55296 # dC" "dB \<noteq> 55296 # dA" "dB \<noteq> 55296 # dB"
  "dB \<noteq> 55296 # dC" "dC \<noteq> 55296 # dA" "dC \<noteq> 55296 # dB" "dC \<noteq> 55296 # dC"
  by (simp_all add: text_simps)

lemmas run_simps = dedup_init_def dedup_step_def Let_def fold_lines.simps
  longest_match_def MAX_ANCHOR_CANDIDATES_def emit_pointer_def emit_verbatim_def

lemmas size_simps = worth_folding_def pointer_def anchor_of_def py_repr_def repr_char_def
  encoded_len_def is_surrogate_def show_int_def show_nat.simps utf8_width_def

lemma demo_worth:
  "worth_folding 40 (join [newline] [dA, dB, dC]) (pointer ascii_ucd [dA, dB, dC] 0 0) = Some True"
  by (simp add: size_simps text_simps)

lemma demo_worth_surrogate:
  "worth_folding 40 (join [newline] [55296 # dA, 55296 # dB, 55296 # dC]) p = None"
proof -
  have "40 \<le> int (length (join [newline] [55296 # dA, 55296 # dB, 55296 # dC]))"
    by (simp add: text_simps)
  then show ?thesis by (simp add: worth_folding_def encoded_len_def is_surrogate_def split: option.splits)
qed

lemma demo_split [simp]:
  "split_on newline (join [newline] [dA, dB, dC]) = [dA, dB, dC]"
  "split_on newline (join [newline] [55296 # dA, 55296 # dB, 55296 # dC]) = [55296 # dA, 55296 # dB, 55296 # dC]"
  by (rule split_on_join; simp)+

definition surrogate_blocks :: "dedup_block list" where
  "surrogate_blocks = [demo_block 0 [dA, dB, dC], demo_block 1 [dA, dB, dC],
     demo_block 2 [55296 # dA, 55296 # dB, 55296 # dC], demo_block 3 [55296 # dA, 55296 # dB, 55296 # dC]]"

definition demo_st1 :: dedup_state where
  "demo_st1 = \<lparr>ds_corpus = [[Some dA, Some dB, Some dC]],
     ds_index = [(dA, [(0, 0)]), (dB, [(0, 1)]), (dC, [(0, 2)])],
     ds_out = [demo_block 0 [dA, dB, dC]],
     ds_stats = \<lparr>spans_folded = 0, lines_removed = 0, chars_removed = 0\<rparr>\<rparr>"

definition demo_ptr :: pystr where
  "demo_ptr = pointer ascii_ucd [dA, dB, dC] 0 0"

definition demo_st2 :: dedup_state where
  "demo_st2 = demo_st1\<lparr>ds_corpus := [[Some dA, Some dB, Some dC], [None, None, None]],
     ds_out := [demo_block 0 [dA, dB, dC], demo_block 1 [demo_ptr]],
     ds_stats := \<lparr>spans_folded = 1, lines_removed = 3,
       chars_removed = int (length (join [newline] [dA, dB, dC])) - int (length demo_ptr)\<rparr>\<rparr>"

definition demo_st3 :: dedup_state where
  "demo_st3 = demo_st2\<lparr>ds_corpus := [[Some dA, Some dB, Some dC], [None, None, None],
       [Some (55296 # dA), Some (55296 # dB), Some (55296 # dC)]],
     ds_index := [(dA, [(0, 0)]), (dB, [(0, 1)]), (dC, [(0, 2)]), (55296 # dA, [(2, 0)]),
       (55296 # dB, [(2, 1)]), (55296 # dC, [(2, 2)])],
     ds_out := [demo_block 0 [dA, dB, dC], demo_block 1 [demo_ptr],
       demo_block 2 [55296 # dA, 55296 # dB, 55296 # dC]]\<rparr>"

lemma fold_step1: "dedup_step ascii_ucd 3 40 ts dedup_init (demo_block 0 [dA, dB, dC]) = Some demo_st1"
  by (simp add: run_simps demo_block_def demo_st1_def del: join.simps)

lemma fold_step2:
  "dedup_step ascii_ucd 3 40 (0 # ts) demo_st1 (demo_block 1 [dA, dB, dC]) = Some demo_st2"
  using demo_worth
  by (simp add: run_simps demo_block_def demo_st1_def demo_st2_def demo_ptr_def numeral_3_eq_3 del: join.simps(3))

lemma fold_step3:
  "dedup_step ascii_ucd 3 40 ts demo_st2 (demo_block 2 [55296 # dA, 55296 # dB, 55296 # dC]) = Some demo_st3"
  by (simp add: run_simps demo_block_def demo_st1_def demo_st2_def demo_st3_def del: join.simps(3))

lemma fold_step4:
  "dedup_step ascii_ucd 3 40 ts demo_st3 (demo_block 3 [55296 # dA, 55296 # dB, 55296 # dC]) = None"
  using demo_worth_surrogate
  by (simp add: run_simps demo_block_def demo_st1_def demo_st2_def demo_st3_def del: join.simps(3))

text \<open>Cache safety can be lost. With a block that contains a lone surrogate (which JSON can
  carry) and repeats an earlier block, the size check raises, and the whole conversation is returned
  unchanged, including an earlier block that had been sent as a pointer in the turn before: its bytes
  change, and \<open>is_prefix_monotonic\<close> is false.\<close>

theorem surrogate_breaks_monotonicity:
  "fst (dedup_blocks ascii_ucd 3 40 (take 3 surrogate_blocks)) ! 1 = demo_block 1 [demo_ptr]
   \<and> fst (dedup_blocks ascii_ucd 3 40 surrogate_blocks) ! 1 = demo_block 1 [dA, dB, dC]
   \<and> \<not> is_prefix_monotonic ascii_ucd 3 40 surrogate_blocks"
proof -
  have turns: "map turn surrogate_blocks = [0, 1, 2, 3]" "map turn (take 3 surrogate_blocks) = [0, 1, 2]"
    by (simp_all add: surrogate_blocks_def demo_block_def)
  have p: "fst (dedup_blocks ascii_ucd 3 40 (take 3 surrogate_blocks)) = ds_out demo_st3"
    by (simp add: dedup_blocks_def turns) (simp add: surrogate_blocks_def fold_step1 fold_step2 fold_step3)
  have f: "fst (dedup_blocks ascii_ucd 3 40 surrogate_blocks) = surrogate_blocks"
    by (simp add: dedup_blocks_def turns) (simp add: surrogate_blocks_def fold_step1 fold_step2 fold_step3 fold_step4)
  have "demo_ptr \<noteq> join [newline] [dA, dB, dC]"
    using worth_folding_shorter [OF demo_worth] by (auto simp: demo_ptr_def)
  then have "map blk_text (ds_out demo_st3) \<noteq> take 3 (map blk_text surrogate_blocks)"
    by (simp add: surrogate_blocks_def demo_st3_def demo_block_def)
  moreover have "3 \<in> set [1..<length surrogate_blocks + 1]" by (simp add: surrogate_blocks_def)
  ultimately have "\<not> is_prefix_monotonic ascii_ucd 3 40 surrogate_blocks"
    unfolding is_prefix_monotonic_def Let_def list_all_iff f by (metis p)
  with p f show ?thesis by (simp add: surrogate_blocks_def demo_st3_def)
qed

text \<open>Three numbered lines; in the second version the units digit of each number is an Arabic-Indic
  digit.\<close>

definition ascii_numbered :: "pystr list" where
  "ascii_numbered = [[49, 50, 58] @ dA, [49, 51, 58] @ dB, [49, 52, 58] @ dC]"

definition arabic_numbered :: "pystr list" where
  "arabic_numbered = [[49, 1634, 58] @ dA, [49, 1635, 58] @ dB, [49, 1636, 58] @ dC]"

lemma numbered_facts [simp]:
  "num_and_key arabic_ucd (49 # 50 # 58 # dA) = (Some 12, 58 # dA, dA)"
  "num_and_key arabic_ucd (49 # 51 # 58 # dB) = (Some 13, 58 # dB, dB)"
  "num_and_key arabic_ucd (49 # 52 # 58 # dC) = (Some 14, 58 # dC, dC)"
  "num_and_key arabic_ucd (49 # 1634 # 58 # dA) = (Some 12, 58 # dA, dA)"
  "num_and_key arabic_ucd (49 # 1635 # 58 # dB) = (Some 13, 58 # dB, dB)"
  "num_and_key arabic_ucd (49 # 1636 # 58 # dC) = (Some 14, 58 # dC, dC)"
  by (simp_all add: text_simps dec_value_def)

lemma numbered_split [simp]:
  "split_on newline (join [newline] ascii_numbered) = ascii_numbered"
  "split_on newline (join [newline] arabic_numbered) = arabic_numbered"
  by (rule split_on_join; simp add: ascii_numbered_def arabic_numbered_def)+

lemma numbered_pointer:
  "pointer arabic_ucd ascii_numbered 0 0 = pointer arabic_ucd arabic_numbered 0 0"
proof -
  have "strip (49 # 50 # 58 # dA) \<noteq> []" "strip (49 # 1634 # 58 # dA) \<noteq> []"
    by (simp_all add: text_simps)
  then show ?thesis
    by (simp add: pointer_def anchor_of_def ascii_numbered_def arabic_numbered_def)
qed

lemma numbered_worth:
  "worth_folding 40 (join [newline] ascii_numbered) (pointer arabic_ucd arabic_numbered 0 0) = Some True"
  "worth_folding 40 (join [newline] arabic_numbered) (pointer arabic_ucd arabic_numbered 0 0) = Some True"
  by (simp_all add: size_simps text_simps ascii_numbered_def arabic_numbered_def)

definition numbered_st1 :: dedup_state where
  "numbered_st1 = \<lparr>ds_corpus = [map Some arabic_numbered],
     ds_index = [(58 # dA, [(0, 0)]), (58 # dB, [(0, 1)]), (58 # dC, [(0, 2)])],
     ds_out = [demo_block 0 arabic_numbered],
     ds_stats = \<lparr>spans_folded = 0, lines_removed = 0, chars_removed = 0\<rparr>\<rparr>"

lemma numbered_step1:
  "dedup_step arabic_ucd 3 40 ts dedup_init (demo_block 0 arabic_numbered) = Some numbered_st1"
  by (simp add: run_simps demo_block_def numbered_st1_def del: join.simps)
    (simp add: arabic_numbered_def run_simps)

lemma numbered_fold:
  assumes "ls = ascii_numbered \<or> ls = arabic_numbered"
  shows "longest_match arabic_ucd ls (ds_index numbered_st1) (ds_corpus numbered_st1) = Some (3, 0, 0, 0)"
  using assms by (auto simp: longest_match_def numbered_st1_def ascii_numbered_def arabic_numbered_def)

lemma numbered_step2:
  assumes "ls = ascii_numbered \<or> ls = arabic_numbered"
  shows "\<exists>s. dedup_step arabic_ucd 3 40 (0 # ts) numbered_st1 (demo_block 1 ls) = Some s
    \<and> ds_out s = [demo_block 0 arabic_numbered, demo_block 1 [pointer arabic_ucd arabic_numbered 0 0]]"
proof -
  have l: "split_on newline (join [newline] ls) = ls" using assms by auto
  obtain a as where c: "ls = a # as" "length ls = 3" using assms
    by (auto simp: ascii_numbered_def arabic_numbered_def)
  have p: "pointer arabic_ucd ls 0 0 = pointer arabic_ucd arabic_numbered 0 0"
    using assms numbered_pointer by auto
  have w: "worth_folding 40 (join [newline] ls) (pointer arabic_ucd arabic_numbered 0 0) = Some True"
    using assms numbered_worth by auto
  have "\<exists>v st. fold_lines arabic_ucd 3 40 (0 # ts) (ds_index numbered_st1) (ds_corpus numbered_st1)
      (ds_stats numbered_st1) ls = Some ([pointer arabic_ucd arabic_numbered 0 0], v, st)"
    using numbered_fold [OF assms] p w c
    by (simp add: fold_lines.simps Let_def emit_pointer_def)
  then show ?thesis
    by (auto simp: dedup_step_def demo_block_def l numbered_st1_def)
qed

text \<open>Losslessness can be lost. The pattern for a leading line number accepts every Unicode
  decimal digit, so lines that differ only in the script of a digit count as equal with offset zero:
  two conversations whose second blocks differ are rewritten to the same text.\<close>

theorem digits_break_losslessness:
  "blk_text (demo_block 1 ascii_numbered) \<noteq> blk_text (demo_block 1 arabic_numbered)
   \<and> fst (dedup_blocks arabic_ucd 3 40 [demo_block 0 arabic_numbered, demo_block 1 ascii_numbered]) =
     fst (dedup_blocks arabic_ucd 3 40 [demo_block 0 arabic_numbered, demo_block 1 arabic_numbered])"
proof -
  have "fst (dedup_blocks arabic_ucd 3 40 [demo_block 0 arabic_numbered, demo_block 1 ls]) =
      [demo_block 0 arabic_numbered, demo_block 1 [pointer arabic_ucd arabic_numbered 0 0]]"
    if "ls = ascii_numbered \<or> ls = arabic_numbered" for ls
  proof -
    have t: "map turn [demo_block 0 arabic_numbered, demo_block 1 ls] = [0, 1]" by (simp add: demo_block_def)
    show ?thesis using numbered_step2 [OF that, of "[1]"]
      by (auto simp: dedup_blocks_def t numbered_step1 simp del: list.map)
  qed
  moreover have "join [newline] ascii_numbered \<noteq> join [newline] arabic_numbered"
    by (simp add: ascii_numbered_def arabic_numbered_def)
  ultimately show ?thesis by (simp add: demo_block_def)
qed

lemma demo_clean:
  "clean (blk_text (demo_block i [dA, dB, dC])) \<and> ascii_digits ascii_ucd (blk_text (demo_block i [dA, dB, dC]))"
  by (simp add: demo_block_def clean_def is_surrogate_def ascii_digits_def text_simps)

theorem dedup_prefix_monotonic_witness:
  "is_prefix_monotonic ascii_ucd 3 40 [demo_block 0 [dA, dB, dC], demo_block 1 [dA, dB, dC]]"
  by (rule dedup_prefix_monotonic [THEN conjunct1]) (simp add: demo_clean)


end
