(* ===== verification/Read_Lifecycle.thy ===== *)
theory Read_Lifecycle
  imports Compression_Store Json Py_Text
begin

text \<open>
  \<open>headroom/transforms/read_lifecycle.py\<close>: outputs of a file-read tool whose file was edited
  later (stale) or read again later (superseded) are replaced by a marker, the original being kept in
  the CCR store. The model covers the whole module. The store is the one of
  \<open>Compression_Store\<close>, threaded through as an optional state (\<open>None\<close> for
  \<open>compression_store=None\<close>); \<open>loads\<close> stands for \<open>json.loads\<close> on a string
  (\<open>None\<close> for a decode error), \<open>sha\<close> for the SHA-256 hex digest. An exception is
  \<open>Inl\<close>; logging is left out.
\<close>

section \<open>Data\<close>

definition READ_TOOL_NAMES :: "pystr set" where
  "READ_TOOL_NAMES = {u ''Read'', u ''read''}"

definition MUTATING_TOOL_NAMES :: "pystr set" where
  "MUTATING_TOOL_NAMES = {u ''Edit'', u ''edit'', u ''Write'', u ''write''}"

record read_config =
  cfg_enabled :: bool
  compress_stale :: bool
  compress_superseded :: bool
  min_size_bytes :: int

datatype read_state = Fresh | Stale | Superseded

definition state_value :: "read_state \<Rightarrow> pystr" where
  "state_value s = (case s of Fresh \<Rightarrow> u ''fresh'' | Stale \<Rightarrow> u ''stale'' | Superseded \<Rightarrow> u ''superseded'')"

datatype file_op_kind = ReadOp | EditOp

text \<open>Tool call ids are dictionary keys: hashable JSON values, numbers normalised.\<close>

record file_operation =
  op_msg_index :: nat
  op_tool_call_id :: json
  op_tool_name :: json
  op_file_path :: pystr
  op_kind :: file_op_kind
  op_content_size :: int
  read_offset :: json
  read_limit :: json

record classification =
  cl_msg_index :: nat
  cl_tool_call_id :: json
  cl_file_path :: pystr
  cl_state :: read_state
  cl_content_size :: int

definition format_transform :: "classification \<Rightarrow> pystr" where
  "format_transform c = u ''read_lifecycle:'' @ state_value (cl_state c) @ u '':'' @ cl_file_path c"

record lifecycle_result =
  res_messages :: "message list"
  reads_total :: nat
  reads_stale :: nat
  reads_superseded :: nat
  reads_fresh :: nat
  bytes_before :: nat
  bytes_after :: nat
  transforms_applied :: "pystr list"
  ccr_hashes :: "pystr list"

definition plain_result :: "message list \<Rightarrow> nat \<Rightarrow> lifecycle_result" where
  "plain_result msgs n = \<lparr>res_messages = msgs, reads_total = n, reads_stale = 0, reads_superseded = 0,
     reads_fresh = n, bytes_before = 0, bytes_after = 0, transforms_applied = [], ccr_hashes = []\<rparr>"

section \<open>Tool metadata\<close>

type_synonym tool_meta = "json \<times> pystr option \<times> json \<times> json"
type_synonym tool_metadata = "(json, tool_meta) odict"

text \<open>\<open>a.get("file_path") or a.get("path")\<close>, kept only if it is a string, with offset and limit.\<close>

definition path_args :: "json \<Rightarrow> pystr option \<times> json \<times> json" where
  "path_args args =
     (case args of
        JObj d \<Rightarrow>
          (let p = (if truthy (dget d ''file_path'') then dget d ''file_path'' else dget d ''path'') in
           ((case p of JStr s \<Rightarrow> Some s | _ \<Rightarrow> None), dget d ''offset'', dget d ''limit''))
      | _ \<Rightarrow> (None, JNull, JNull))"

definition put_meta :: "tool_metadata \<Rightarrow> json \<Rightarrow> json \<Rightarrow> json \<Rightarrow> py_error + tool_metadata" where
  "put_meta m tc_id name args =
     (if \<not> truthy tc_id \<or> \<not> truthy name then Inr m
      else if \<not> hashable tc_id then Inl PyTypeError
      else Inr (AList.update (key_norm tc_id) (name, path_args args) m))"

definition openai_call_meta ::
  "(pystr \<Rightarrow> json option) \<Rightarrow> tool_metadata \<Rightarrow> json \<Rightarrow> py_error + tool_metadata" where
  "openai_call_meta loads m tc =
     (case tc of
        JObj d \<Rightarrow>
          (case dget d ''function'' of
             JObj func \<Rightarrow>
               (let args = (case dget_default func ''arguments'' (JStr (u ''{}'')) of
                              JStr t \<Rightarrow> (case loads t of Some v \<Rightarrow> v | None \<Rightarrow> JNull)
                            | _ \<Rightarrow> JNull) in
                put_meta m (dget_default d ''id'' (JStr [])) (dget_default func ''name'' (JStr [])) args)
           | _ \<Rightarrow> Inr m)
      | _ \<Rightarrow> Inr m)"

definition anthropic_block_meta :: "tool_metadata \<Rightarrow> json \<Rightarrow> py_error + tool_metadata" where
  "anthropic_block_meta m block =
     (case block of
        JObj d \<Rightarrow>
          if dget d ''type'' \<noteq> JStr (u ''tool_use'') then Inr m
          else put_meta m (dget_default d ''id'' (JStr [])) (dget_default d ''name'' (JStr []))
                 (dget_default d ''input'' (JObj []))
      | _ \<Rightarrow> Inr m)"

fun foldR :: "('s \<Rightarrow> 'a \<Rightarrow> 'e + 's) \<Rightarrow> 's \<Rightarrow> 'a list \<Rightarrow> 'e + 's" where
  "foldR f s [] = Inr s"
| "foldR f s (x # xs) = bindR (f s x) (\<lambda>s'. foldR f s' xs)"

definition message_meta ::
  "(pystr \<Rightarrow> json option) \<Rightarrow> tool_metadata \<Rightarrow> message \<Rightarrow> py_error + tool_metadata" where
  "message_meta loads m msg =
     (if dget msg ''role'' \<noteq> JStr (u ''assistant'') then Inr m
      else bindR (iter_or_empty (dget msg ''tool_calls'')) (\<lambda>tcs.
           bindR (foldR (openai_call_meta loads) m tcs) (\<lambda>m1.
             case dget_default msg ''content'' (JList []) of
               JList blocks \<Rightarrow> foldR anthropic_block_meta m1 blocks
             | _ \<Rightarrow> Inr m1)))"

definition build_tool_metadata ::
  "(pystr \<Rightarrow> json option) \<Rightarrow> message list \<Rightarrow> py_error + tool_metadata" where
  "build_tool_metadata loads msgs = foldR (message_meta loads) [] msgs"

section \<open>File operations\<close>

definition rejected_before_running :: "json \<Rightarrow> bool" where
  "rejected_before_running content =
     (let c = (case content of
                 JList bs \<Rightarrow> (case find (is_block ''text'') bs of
                               Some (JObj d) \<Rightarrow> dget d ''text'' | _ \<Rightarrow> JNull)
               | _ \<Rightarrow> content) in
      case c of JStr s \<Rightarrow> startswith (lstrip s) (u ''<tool_use_error>'') | _ \<Rightarrow> False)"

fun failed_in_blocks :: "json list \<Rightarrow> pystr list" where
  "failed_in_blocks [] = []"
| "failed_in_blocks (b # bs) =
     (case b of
        JObj d \<Rightarrow>
          (case dget d ''tool_use_id'' of
             JStr i \<Rightarrow>
               if dget d ''type'' = JStr (u ''tool_result'') \<and> truthy (dget d ''is_error'')
                  \<and> rejected_before_running (dget d ''content'')
               then i # failed_in_blocks bs else failed_in_blocks bs
           | _ \<Rightarrow> failed_in_blocks bs)
      | _ \<Rightarrow> failed_in_blocks bs)"

definition failed_tool_use_ids :: "message list \<Rightarrow> pystr set" where
  "failed_tool_use_ids msgs =
     set (concat (map (\<lambda>msg. case dget msg ''content'' of JList bs \<Rightarrow> failed_in_blocks bs | _ \<Rightarrow> []) msgs))"

definition calls_id :: "json \<Rightarrow> json \<Rightarrow> bool" where
  "calls_id tc_id tc = (case tc of JObj d \<Rightarrow> key_norm (dget d ''id'') = tc_id | _ \<Rightarrow> False)"

definition message_calls :: "json \<Rightarrow> message \<Rightarrow> py_error + bool" where
  "message_calls tc_id msg =
     (if dget msg ''role'' \<noteq> JStr (u ''assistant'') then Inr False
      else bindR (iter_or_empty (dget msg ''tool_calls'')) (\<lambda>tcs.
        Inr (list_ex (calls_id tc_id) tcs
             \<or> (case dget_default msg ''content'' (JList []) of
                  JList bs \<Rightarrow> list_ex (\<lambda>b. is_block ''tool_use'' b \<and> calls_id tc_id b) bs
                | _ \<Rightarrow> False))))"

fun find_tool_call_msg_index :: "message list \<Rightarrow> json \<Rightarrow> nat \<Rightarrow> py_error + nat option" where
  "find_tool_call_msg_index [] tc_id i = Inr None"
| "find_tool_call_msg_index (msg # msgs) tc_id i =
     bindR (message_calls tc_id msg) (\<lambda>b.
       if b then Inr (Some i) else find_tool_call_msg_index msgs tc_id (Suc i))"

text \<open>\<open>name in _READ_TOOL_NAMES\<close> and the like: an unhashable name raises.\<close>

definition op_kind_of :: "pystr set \<Rightarrow> json \<Rightarrow> json \<Rightarrow> py_error + file_op_kind option" where
  "op_kind_of failed tc_id name =
     (if \<not> hashable name then Inl PyTypeError
      else Inr (case name of
                  JStr s \<Rightarrow>
                    if s \<in> READ_TOOL_NAMES then Some ReadOp
                    else if s \<in> MUTATING_TOOL_NAMES \<and> \<not> (case tc_id of JStr i \<Rightarrow> i \<in> failed | _ \<Rightarrow> False)
                    then Some EditOp else None
                | _ \<Rightarrow> None))"

definition add_operation ::
  "message list \<Rightarrow> pystr set \<Rightarrow> (pystr, file_operation list) odict \<Rightarrow> json \<times> tool_meta
    \<Rightarrow> py_error + (pystr, file_operation list) odict" where
  "add_operation msgs failed ops item =
     (case item of (tc_id, name, path, offset, limit) \<Rightarrow>
        (case path of
           None \<Rightarrow> Inr ops
         | Some p \<Rightarrow>
             if p = [] then Inr ops
             else bindR (op_kind_of failed tc_id name) (\<lambda>kind.
               case kind of
                 None \<Rightarrow> Inr ops
               | Some kd \<Rightarrow>
                   bindR (find_tool_call_msg_index msgs tc_id 0) (\<lambda>idx.
                     case idx of
                       None \<Rightarrow> Inr ops
                     | Some i \<Rightarrow>
                         let op = \<lparr>op_msg_index = i, op_tool_call_id = tc_id, op_tool_name = name,
                                    op_file_path = p, op_kind = kd, op_content_size = 0,
                                    read_offset = (if kd = ReadOp then offset else JNull),
                                    read_limit = (if kd = ReadOp then limit else JNull)\<rparr>;
                             old = (case map_of ops p of Some os \<Rightarrow> os | None \<Rightarrow> []) in
                         Inr (AList.update p (old @ [op]) ops)))))"

definition build_file_operation_index ::
  "message list \<Rightarrow> tool_metadata \<Rightarrow> py_error + (pystr, file_operation list) odict" where
  "build_file_operation_index msgs meta =
     foldR (add_operation msgs (failed_tool_use_ids msgs)) [] meta"

section \<open>Classification\<close>

text \<open>\<open>x or d\<close>.\<close>

definition or_int :: "json \<Rightarrow> int \<Rightarrow> json" where
  "or_int v d = (if truthy v then v else JInt d)"

definition read_covers :: "file_operation \<Rightarrow> file_operation \<Rightarrow> py_error + bool" where
  "read_covers later earlier =
     (if read_offset later = JNull \<and> read_limit later = JNull then Inr True
      else if read_offset earlier = JNull \<and> read_limit earlier = JNull then Inr False
      else
        let later_start = or_int (read_offset later) 0; earlier_start = or_int (read_offset earlier) 0 in
        bindR (py_add later_start (or_int (read_limit later) 2000)) (\<lambda>later_end.
        bindR (py_add earlier_start (or_int (read_limit earlier) 2000)) (\<lambda>earlier_end.
        bindR (py_le later_start earlier_start) (\<lambda>a.
          if a then py_le earlier_end later_end else Inr False))))"

text \<open>\<open>any(r.msg_index > read.msg_index and covers(r, read) for r in reads)\<close>.\<close>

fun any_covers :: "file_operation \<Rightarrow> file_operation list \<Rightarrow> py_error + bool" where
  "any_covers op [] = Inr False"
| "any_covers op (r # rs) =
     (if op_msg_index op < op_msg_index r
      then bindR (read_covers r op) (\<lambda>b. if b then Inr True else any_covers op rs)
      else any_covers op rs)"

definition classify_read ::
  "read_config \<Rightarrow> pystr \<Rightarrow> file_operation list \<Rightarrow> file_operation list \<Rightarrow> file_operation
    \<Rightarrow> py_error + classification" where
  "classify_read cfg path reads edits op =
     (let stale = (compress_stale cfg \<and> list_ex (\<lambda>e. op_msg_index op < op_msg_index e) edits) in
      bindR (if compress_superseded cfg then any_covers op reads else Inr False) (\<lambda>sup.
        Inr \<lparr>cl_msg_index = op_msg_index op, cl_tool_call_id = op_tool_call_id op, cl_file_path = path,
             cl_state = (if stale then Stale else if sup then Superseded else Fresh),
             cl_content_size = op_content_size op\<rparr>))"

fun mapR_list :: "('a \<Rightarrow> 'e + 'b) \<Rightarrow> 'a list \<Rightarrow> 'e + 'b list" where
  "mapR_list f [] = Inr []"
| "mapR_list f (x # xs) = bindR (f x) (\<lambda>y. bindR (mapR_list f xs) (\<lambda>ys. Inr (y # ys)))"

definition classify_file ::
  "read_config \<Rightarrow> pystr \<times> file_operation list \<Rightarrow> py_error + classification list" where
  "classify_file cfg item =
     (case item of (path, ops) \<Rightarrow>
        let reads = filter (\<lambda>o1. op_kind o1 = ReadOp) ops; edits = filter (\<lambda>o1. op_kind o1 = EditOp) ops in
        mapR_list (classify_read cfg path reads edits) reads)"

definition classify_reads ::
  "read_config \<Rightarrow> (pystr, file_operation list) odict \<Rightarrow> py_error + classification list" where
  "classify_reads cfg ops = bindR (mapR_list (classify_file cfg) ops) (\<lambda>ls. Inr (concat ls))"

section \<open>Replacement\<close>

definition read_store_args :: "pystr \<Rightarrow> classification \<Rightarrow> pystr \<Rightarrow> store_args" where
  "read_store_args content c h =
     \<lparr>a_original = content, a_compressed = [], a_original_tokens = 0, a_compressed_tokens = 0,
      a_original_item_count = 0, a_compressed_item_count = 0, a_tool_name = Some (u ''Read''),
      a_tool_call_id = (case cl_tool_call_id c of JStr i \<Rightarrow> Some i | _ \<Rightarrow> None),
      a_query_context = None, a_tool_signature_hash = None,
      a_compression_strategy = Some (u ''read_lifecycle:'' @ state_value (cl_state c)),
      a_ttl = None, a_explicit_hash = Some h\<rparr>"

definition marker_text :: "classification \<Rightarrow> pystr \<Rightarrow> pystr" where
  "marker_text c h =
     (let disp = (if cl_file_path c \<noteq> [] then cl_file_path c else u ''unknown'') in
      if cl_state c = Stale
      then u ''[Read content stale: '' @ disp @ u '' was modified after this read '' @ [8212]
        @ u '' re-read the file for current content. Retrieve original: hash='' @ h @ u '']''
      else u ''[Read content superseded: '' @ disp @ u '' was re-read later '' @ [8212]
        @ u '' re-read the file if needed. Retrieve original: hash='' @ h @ u '']'')"

text \<open>\<open>Some (marker, hash)\<close> when the content is replaced, \<open>None\<close> when it is kept; the store
  state is returned in either case.\<close>

definition replace_content ::
  "'b backend_ops \<Rightarrow> (pystr \<Rightarrow> pystr) \<Rightarrow> real \<Rightarrow> read_config \<Rightarrow> 'b cstore option \<Rightarrow> pystr \<Rightarrow> classification
    \<Rightarrow> py_error + ((pystr \<times> pystr) option \<times> 'b cstore option)" where
  "replace_content B sha now cfg st content c =
     (case encoded_len content of
        None \<Rightarrow> Inl PyValueError
      | Some n \<Rightarrow>
          if int n < min_size_bytes cfg then Inr (None, st)
          else
            let h = take 24 (sha content) in
            (case st of
               None \<Rightarrow> Inr (Some (marker_text c h, h), None)
             | Some s \<Rightarrow>
                 (case store B sha now s (read_store_args content c h) of
                    (Inl err, s') \<Rightarrow> Inr (None, Some s')
                  | (Inr k, s') \<Rightarrow> Inr (Some (marker_text c k, k), Some s'))))"

record 'b lifecycle_acc =
  acc_store :: "'b cstore option"
  acc_transforms :: "pystr list"
  acc_hashes :: "pystr list"
  acc_before :: nat
  acc_after :: nat

type_synonym replacements = "(json, classification) odict"

definition lookup_repl :: "replacements \<Rightarrow> json \<Rightarrow> py_error + classification option" where
  "lookup_repl rs tc_id = (if hashable tc_id then Inr (map_of rs (key_norm tc_id)) else Inl PyTypeError)"

definition note_replacement :: "classification \<Rightarrow> pystr \<Rightarrow> 'b cstore option \<Rightarrow> 'b lifecycle_acc \<Rightarrow> 'b lifecycle_acc" where
  "note_replacement c h st acc =
     acc\<lparr>acc_store := st, acc_transforms := acc_transforms acc @ [format_transform c],
        acc_hashes := acc_hashes acc @ (if h \<noteq> [] then [h] else [])\<rparr>"

definition process_block ::
  "'b backend_ops \<Rightarrow> (pystr \<Rightarrow> pystr) \<Rightarrow> real \<Rightarrow> read_config \<Rightarrow> replacements \<Rightarrow> 'b lifecycle_acc \<Rightarrow> json
    \<Rightarrow> py_error + (json \<times> bool \<times> 'b lifecycle_acc)" where
  "process_block B sha now cfg rs acc block =
     (case block of
        JObj d \<Rightarrow>
          if dget d ''type'' \<noteq> JStr (u ''tool_result'') then Inr (block, False, acc)
          else bindR (lookup_repl rs (dget_default d ''tool_use_id'' (JStr []))) (\<lambda>cl.
            case (cl, dget_default d ''content'' (JStr [])) of
              (Some c, JStr content) \<Rightarrow>
                bindR (replace_content B sha now cfg (acc_store acc) content c) (\<lambda>r.
                  case r of
                    (Some (marker, h), st) \<Rightarrow>
                      Inr (JObj (dset d ''content'' (JStr marker)), True, note_replacement c h st acc)
                  | (None, st) \<Rightarrow> Inr (block, False, acc\<lparr>acc_store := st\<rparr>))
            | _ \<Rightarrow> Inr (block, False, acc))
      | _ \<Rightarrow> Inr (block, False, acc))"

fun process_anthropic_blocks ::
  "'b backend_ops \<Rightarrow> (pystr \<Rightarrow> pystr) \<Rightarrow> real \<Rightarrow> read_config \<Rightarrow> replacements \<Rightarrow> 'b lifecycle_acc \<Rightarrow> json list
    \<Rightarrow> py_error + (json list \<times> bool \<times> 'b lifecycle_acc)" where
  "process_anthropic_blocks B sha now cfg rs acc [] = Inr ([], False, acc)"
| "process_anthropic_blocks B sha now cfg rs acc (b # bs) =
     bindR (process_block B sha now cfg rs acc b) (\<lambda>(b', r1, acc1).
     bindR (process_anthropic_blocks B sha now cfg rs acc1 bs) (\<lambda>(bs', r2, acc2).
       Inr (b' # bs', r1 \<or> r2, acc2)))"

text \<open>The OpenAI branch of the loop: \<open>Some\<close> the replaced message, or \<open>None\<close> to go on.\<close>

definition replace_tool_message ::
  "'b backend_ops \<Rightarrow> (pystr \<Rightarrow> pystr) \<Rightarrow> real \<Rightarrow> read_config \<Rightarrow> replacements \<Rightarrow> 'b lifecycle_acc \<Rightarrow> message
    \<Rightarrow> py_error + (message option \<times> 'b lifecycle_acc)" where
  "replace_tool_message B sha now cfg rs acc msg =
     (if dget_default msg ''role'' (JStr []) \<noteq> JStr (u ''tool'') then Inr (None, acc)
      else bindR (lookup_repl rs (dget_default msg ''tool_call_id'' (JStr []))) (\<lambda>cl.
        case (cl, dget_default msg ''content'' (JStr [])) of
          (Some c, JStr content) \<Rightarrow>
            bindR (replace_content B sha now cfg (acc_store acc) content c) (\<lambda>r.
              case r of
                (Some (marker, h), st) \<Rightarrow>
                  (case (encoded_len content, encoded_len marker) of
                     (Some x, Some y) \<Rightarrow>
                       let acc1 = note_replacement c h st acc in
                       Inr (Some (dset msg ''content'' (JStr marker)),
                            acc1\<lparr>acc_before := acc_before acc1 + x, acc_after := acc_after acc1 + y\<rparr>)
                   | _ \<Rightarrow> Inl PyValueError)
              | (None, st) \<Rightarrow> Inr (None, acc\<lparr>acc_store := st\<rparr>))
        | _ \<Rightarrow> Inr (None, acc)))"

definition lifecycle_message ::
  "'b backend_ops \<Rightarrow> (pystr \<Rightarrow> pystr) \<Rightarrow> real \<Rightarrow> read_config \<Rightarrow> replacements \<Rightarrow> 'b lifecycle_acc \<Rightarrow> message
    \<Rightarrow> py_error + (message \<times> 'b lifecycle_acc)" where
  "lifecycle_message B sha now cfg rs acc msg =
     bindR (replace_tool_message B sha now cfg rs acc msg) (\<lambda>(m, acc1).
       case m of
         Some msg' \<Rightarrow> Inr (msg', acc1)
       | None \<Rightarrow>
           (case dget_default msg ''content'' (JStr []) of
              JList blocks \<Rightarrow>
                bindR (process_anthropic_blocks B sha now cfg rs acc1 blocks) (\<lambda>(bs, replaced, acc2).
                  Inr (if replaced then dset msg ''content'' (JList bs) else msg, acc2))
            | _ \<Rightarrow> Inr (msg, acc1)))"

fun lifecycle_messages ::
  "'b backend_ops \<Rightarrow> (pystr \<Rightarrow> pystr) \<Rightarrow> real \<Rightarrow> read_config \<Rightarrow> replacements \<Rightarrow> 'b lifecycle_acc \<Rightarrow> message list
    \<Rightarrow> py_error + (message list \<times> 'b lifecycle_acc)" where
  "lifecycle_messages B sha now cfg rs acc [] = Inr ([], acc)"
| "lifecycle_messages B sha now cfg rs acc (m # ms) =
     bindR (lifecycle_message B sha now cfg rs acc m) (\<lambda>(m', acc1).
     bindR (lifecycle_messages B sha now cfg rs acc1 ms) (\<lambda>(ms', acc2). Inr (m' # ms', acc2)))"

definition replacements_of :: "classification list \<Rightarrow> replacements" where
  "replacements_of cs =
     foldl (\<lambda>rs c. if cl_state c \<noteq> Fresh then AList.update (cl_tool_call_id c) c rs else rs) [] cs"

definition count_state :: "read_state \<Rightarrow> classification list \<Rightarrow> nat" where
  "count_state st cs = length (filter (\<lambda>c. cl_state c = st) cs)"

definition apply_lifecycle ::
  "'b backend_ops \<Rightarrow> (pystr \<Rightarrow> pystr) \<Rightarrow> real \<Rightarrow> read_config \<Rightarrow> 'b cstore option \<Rightarrow> message list
    \<Rightarrow> classification list \<Rightarrow> py_error + (lifecycle_result \<times> 'b cstore option)" where
  "apply_lifecycle B sha now cfg st msgs cs =
     (let rs = replacements_of cs in
      if rs = [] then Inr (plain_result msgs (length cs), st)
      else bindR (lifecycle_messages B sha now cfg rs
                    \<lparr>acc_store = st, acc_transforms = [], acc_hashes = [], acc_before = 0, acc_after = 0\<rparr> msgs)
        (\<lambda>(out, acc).
          Inr (\<lparr>res_messages = out, reads_total = length cs, reads_stale = count_state Stale cs,
                reads_superseded = count_state Superseded cs, reads_fresh = count_state Fresh cs,
                bytes_before = acc_before acc, bytes_after = acc_after acc,
                transforms_applied = acc_transforms acc, ccr_hashes = acc_hashes acc\<rparr>, acc_store acc)))"

text \<open>Phase 3: classifications in the frozen prefix count as fresh.\<close>

definition unfreeze :: "int \<Rightarrow> classification list \<Rightarrow> classification list" where
  "unfreeze frozen cs =
     (if frozen > 0
      then map (\<lambda>c. if int (cl_msg_index c) < frozen \<and> cl_state c \<noteq> Fresh then c\<lparr>cl_state := Fresh\<rparr> else c) cs
      else cs)"

definition apply_reads ::
  "'b backend_ops \<Rightarrow> (pystr \<Rightarrow> pystr) \<Rightarrow> (pystr \<Rightarrow> json option) \<Rightarrow> real \<Rightarrow> read_config \<Rightarrow> 'b cstore option
    \<Rightarrow> message list \<Rightarrow> int \<Rightarrow> py_error + (lifecycle_result \<times> 'b cstore option)" where
  "apply_reads B sha loads now cfg st msgs frozen =
     (if \<not> cfg_enabled cfg then Inr (plain_result msgs 0, st)
      else
        bindR (build_tool_metadata loads msgs) (\<lambda>meta.
        bindR (build_file_operation_index msgs meta) (\<lambda>ops.
        bindR (classify_reads cfg ops) (\<lambda>cs.
          if cs = [] then Inr (plain_result msgs 0, st)
          else apply_lifecycle B sha now cfg st msgs (unfreeze frozen cs)))))"

end
