(* ===== verification/Read_Lifecycle_Props.thy ===== *)
theory Read_Lifecycle_Props
  imports Read_Lifecycle Compression_Store_Correct
begin

text \<open>
  What the read lifecycle pass guarantees: which reads it classifies how, that the messages the
  provider has cached are not touched, that every marker it leaves can be resolved in the CCR store,
  and that nothing is replaced when the store cannot keep the original.
\<close>

section \<open>Folds and maps that may fail\<close>

lemma foldR_inv:
  assumes "foldR f s xs = Inr s'" and "P s"
    and "\<And>s x s'. x \<in> set xs \<Longrightarrow> P s \<Longrightarrow> f s x = Inr s' \<Longrightarrow> P s'"
  shows "P s'"
  using assms
proof (induction xs arbitrary: s)
  case (Cons x xs)
  then obtain s1 where "f s x = Inr s1" "foldR f s1 xs = Inr s'" by (auto simp: bindR_eq_Inr)
  moreover from this have "P s1" using Cons.prems(2,3) by auto
  ultimately show ?case using Cons.IH Cons.prems(3) by (metis list.set_intros(2))
qed simp

lemma mapR_list_all2: "mapR_list f xs = Inr ys \<longleftrightarrow> list_all2 (\<lambda>x y. f x = Inr y) xs ys"
  by (induction xs arbitrary: ys) (auto simp: bindR_eq_Inr list_all2_Cons1)

section \<open>Where the classifications come from\<close>

definition ops_located :: "message list \<Rightarrow> (pystr, file_operation list) odict \<Rightarrow> bool" where
  "ops_located msgs ops \<longleftrightarrow> (\<forall>p l op. (p, l) \<in> set ops \<longrightarrow> op \<in> set l \<longrightarrow>
     find_tool_call_msg_index msgs (op_tool_call_id op) 0 = Inr (Some (op_msg_index op)))"

lemma set_update_subset: "set (AList.update k v d) \<subseteq> insert (k, v) (set d)"
  by (induction d) auto

lemma add_operation_located:
  assumes "ops_located msgs ops" and "add_operation msgs failed ops item = Inr ops'"
  shows "ops_located msgs ops'"
proof -
  obtain tc_id name path offset limit where i: "item = (tc_id, name, path, offset, limit)" by (cases item)
  consider "ops' = ops"
    | p op old where "ops' = AList.update p (old @ [op]) ops" "old = (case map_of ops p of Some os \<Rightarrow> os | None \<Rightarrow> [])"
      "find_tool_call_msg_index msgs (op_tool_call_id op) 0 = Inr (Some (op_msg_index op))"
  proof (cases "path = None \<or> path = Some []")
    case True
    then show ?thesis using assms(2) that(1) by (auto simp: add_operation_def i split: option.splits)
  next
    case False
    then obtain p where p: "path = Some p" "p \<noteq> []" by auto
    obtain kind where kd: "op_kind_of failed tc_id name = Inr kind"
      using assms(2) p by (auto simp: add_operation_def i bindR_eq_Inr)
    show ?thesis
    proof (cases kind)
      case None
      then show ?thesis using assms(2) that(1) p kd by (simp add: add_operation_def i)
    next
      case (Some k)
      obtain idx where idx: "find_tool_call_msg_index msgs tc_id 0 = Inr idx"
        using assms(2) p kd Some by (auto simp: add_operation_def i bindR_eq_Inr)
      show ?thesis
      proof (cases idx)
        case None
        then show ?thesis using assms(2) that(1) p kd Some idx by (simp add: add_operation_def i)
      next
        case (Some j)
        show ?thesis using assms(2) p kd \<open>kind = Some k\<close> idx Some
          by (intro that(2) [OF _ refl]) (auto simp: add_operation_def i Let_def)
      qed
    qed
  qed
  then show ?thesis
  proof cases
    case 2
    have "find_tool_call_msg_index msgs (op_tool_call_id o1) 0 = Inr (Some (op_msg_index o1))"
      if "o1 \<in> set old" for o1
      using that assms(1) 2(2) by (auto simp: ops_located_def split: option.splits dest: map_of_SomeD)
    with 2 assms(1) set_update_subset [of p "old @ [op]" ops] show ?thesis
      unfolding ops_located_def by fastforce
  qed (use assms(1) in simp)
qed

lemma index_located:
  "build_file_operation_index msgs meta = Inr ops \<Longrightarrow> ops_located msgs ops"
  unfolding build_file_operation_index_def
  by (rule foldR_inv [where P = "ops_located msgs"]) (auto simp: ops_located_def [of msgs "[]"] add_operation_located)

lemma any_covers_iff:
  "any_covers op rs = Inr b \<Longrightarrow>
   b \<longleftrightarrow> (\<exists>r \<in> set rs. op_msg_index op < op_msg_index r \<and> read_covers r op = Inr True)"
  by (induction rs) (auto simp: bindR_eq_Inr split: if_splits)

definition is_stale :: "read_config \<Rightarrow> file_operation list \<Rightarrow> file_operation \<Rightarrow> bool" where
  "is_stale cfg fops r \<longleftrightarrow> compress_stale cfg \<and>
     (\<exists>e \<in> set fops. op_kind e = EditOp \<and> op_msg_index r < op_msg_index e)"

definition is_superseded :: "read_config \<Rightarrow> file_operation list \<Rightarrow> file_operation \<Rightarrow> bool" where
  "is_superseded cfg fops r \<longleftrightarrow> compress_superseded cfg \<and>
     (\<exists>r' \<in> set fops. op_kind r' = ReadOp \<and> op_msg_index r < op_msg_index r' \<and> read_covers r' r = Inr True)"

definition classifies :: "read_config \<Rightarrow> pystr \<Rightarrow> file_operation list \<Rightarrow> file_operation \<Rightarrow> classification \<Rightarrow> bool" where
  "classifies cfg path fops r c \<longleftrightarrow>
     cl_tool_call_id c = op_tool_call_id r \<and> cl_msg_index c = op_msg_index r \<and> cl_file_path c = path
     \<and> cl_state c = (if is_stale cfg fops r then Stale else if is_superseded cfg fops r then Superseded else Fresh)"

lemma classify_read_spec:
  assumes "classify_read cfg path (filter (\<lambda>o1. op_kind o1 = ReadOp) fops) (filter (\<lambda>o1. op_kind o1 = EditOp) fops) r = Inr c"
  shows "classifies cfg path fops r c"
proof -
  obtain sup where sup: "(if compress_superseded cfg then any_covers r (filter (\<lambda>o1. op_kind o1 = ReadOp) fops)
      else Inr False) = Inr sup"
    using assms by (auto simp: classify_read_def Let_def bindR_eq_Inr)
  have "sup \<longleftrightarrow> is_superseded cfg fops r"
    using any_covers_iff [of r "filter (\<lambda>o1. op_kind o1 = ReadOp) fops" sup] sup
    by (auto simp: is_superseded_def split: if_splits)
  moreover have "compress_stale cfg \<and> list_ex (\<lambda>e. op_msg_index r < op_msg_index e) (filter (\<lambda>o1. op_kind o1 = EditOp) fops)
      \<longleftrightarrow> is_stale cfg fops r"
    by (auto simp: is_stale_def list_ex_iff)
  ultimately show ?thesis using assms sup by (auto simp: classify_read_def Let_def classifies_def)
qed

lemma classify_file_spec:
  "classify_file cfg (path, fops) = Inr cs \<Longrightarrow>
   list_all2 (classifies cfg path fops) (filter (\<lambda>o1. op_kind o1 = ReadOp) fops) cs"
  unfolding classify_file_def
  by (auto simp: Let_def mapR_list_all2 intro: classify_read_spec elim!: list_all2_mono)

lemma list_all2_concat_in:
  assumes "list_all2 (\<lambda>x l. P x l) xs ls" and "x \<in> set xs"
  shows "\<exists>l \<in> set ls. P x l"
  using assms by (metis list_all2_iff list_all2_conv_all_nth in_set_conv_nth)

lemma list_all2_concat_of:
  assumes "list_all2 (\<lambda>x l. P x l) xs ls" and "l \<in> set ls"
  shows "\<exists>x \<in> set xs. P x l"
  using assms by (metis list_all2_conv_all_nth in_set_conv_nth)

lemma classify_reads_files:
  assumes "classify_reads cfg ops = Inr cs"
  shows "\<exists>ls. cs = concat ls \<and>
    list_all2 (\<lambda>(path, fops) l. list_all2 (classifies cfg path fops) (filter (\<lambda>o1. op_kind o1 = ReadOp) fops) l) ops ls"
proof -
  obtain ls where "mapR_list (classify_file cfg) ops = Inr ls" "cs = concat ls"
    using assms by (auto simp: classify_reads_def bindR_eq_Inr)
  moreover from this have "list_all2 (\<lambda>(path, fops) l.
      list_all2 (classifies cfg path fops) (filter (\<lambda>o1. op_kind o1 = ReadOp) fops) l) ops ls"
    unfolding mapR_list_all2 by (auto dest: classify_file_spec elim!: list_all2_mono)
  ultimately show ?thesis by blast
qed

lemma classify_reads_of:
  assumes "classify_reads cfg ops = Inr cs" and "c \<in> set cs"
  shows "\<exists>path fops r. (path, fops) \<in> set ops \<and> r \<in> set fops \<and> op_kind r = ReadOp \<and> classifies cfg path fops r c"
proof -
  obtain ls where cs: "cs = concat ls" and all: "list_all2 (\<lambda>(path, fops) l.
      list_all2 (classifies cfg path fops) (filter (\<lambda>o1. op_kind o1 = ReadOp) fops) l) ops ls"
    using classify_reads_files [OF assms(1)] by blast
  from assms(2) obtain l where l: "l \<in> set ls" "c \<in> set l" unfolding cs set_concat by blast
  obtain path fops where "(path, fops) \<in> set ops"
    "list_all2 (classifies cfg path fops) (filter (\<lambda>o1. op_kind o1 = ReadOp) fops) l"
    using list_all2_concat_of [OF all l(1)] by auto
  moreover obtain r where "r \<in> set (filter (\<lambda>o1. op_kind o1 = ReadOp) fops)" "classifies cfg path fops r c"
    using list_all2_concat_of [OF calculation(2) l(2)] by auto
  ultimately show ?thesis by auto
qed

text \<open>The lines of the file a read with a plain range shows: all of them when it gives neither offset
  nor limit, else \<open>limit\<close> lines (2000 when it is missing or 0) from the offset on.\<close>

definition plain_range :: "file_operation \<Rightarrow> bool" where
  "plain_range r \<longleftrightarrow> (read_offset r = JNull \<or> (\<exists>i. read_offset r = JInt i))
     \<and> (read_limit r = JNull \<or> (\<exists>n. read_limit r = JInt n \<and> 0 \<le> n))"

definition int_or :: "json \<Rightarrow> int \<Rightarrow> int" where
  "int_or v d = (case v of JInt i \<Rightarrow> if i = 0 then d else i | _ \<Rightarrow> d)"

definition lines_read :: "file_operation \<Rightarrow> int set" where
  "lines_read r =
     (if read_offset r = JNull \<and> read_limit r = JNull then UNIV
      else {line. int_or (read_offset r) 0 \<le> line \<and> line < int_or (read_offset r) 0 + int_or (read_limit r) 2000})"

lemma covers_iff_lines:
  assumes "plain_range later" and "plain_range earlier"
  shows "read_covers later earlier = Inr (lines_read earlier \<subseteq> lines_read later)"
proof -
  have oi: "or_int v d = JInt (int_or v d)" if "v = JNull \<or> (\<exists>i. v = JInt i)" for v d
    using that by (auto simp: or_int_def int_or_def truthy_def)
  have o: "or_int (read_offset r) 0 = JInt (int_or (read_offset r) 0)" "or_int (read_limit r) 2000 = JInt (int_or (read_limit r) 2000)"
    and pos: "0 < int_or (read_limit r) 2000" if "plain_range r" for r
    using that by (auto simp: plain_range_def oi int_or_def)
  have sub: "{x::int. a \<le> x \<and> x < a + n} \<subseteq> {x. b \<le> x \<and> x < b + m} \<longleftrightarrow> b \<le> a \<and> a + n \<le> b + m" if "0 < n" for a b n m
  proof
    assume l: "{x. a \<le> x \<and> x < a + n} \<subseteq> {x. b \<le> x \<and> x < b + m}"
    have "a \<in> {x. a \<le> x \<and> x < a + n}" "a + n - 1 \<in> {x. a \<le> x \<and> x < a + n}" using that by auto
    with l have "a \<in> {x. b \<le> x \<and> x < b + m}" "a + n - 1 \<in> {x. b \<le> x \<and> x < b + m}" by blast+
    then show "b \<le> a \<and> a + n \<le> b + m" by auto
  qed auto
  have not_all: "\<not> UNIV \<subseteq> {x::int. a \<le> x \<and> x < b}" for a b by (metis (no_types, lifting) UNIV_I mem_Collect_eq subsetD not_less order_refl)
  show ?thesis
    using sub [OF pos [OF assms(2)]] not_all o [OF assms(1)] o [OF assms(2)]
    by (auto simp: read_covers_def lines_read_def)
qed

text \<open>The classification \<open>c\<close> is the one of the read \<open>r\<close> of a file with operations \<open>fops\<close>.\<close>

definition judged :: "read_config \<Rightarrow> pystr \<Rightarrow> file_operation list \<Rightarrow> file_operation \<Rightarrow> classification \<Rightarrow> bool" where
  "judged cfg path fops r c \<longleftrightarrow>
     cl_tool_call_id c = op_tool_call_id r \<and> cl_msg_index c = op_msg_index r \<and> cl_file_path c = path
     \<and> (cl_state c = Stale \<longleftrightarrow> compress_stale cfg
          \<and> (\<exists>e \<in> set fops. op_kind e = EditOp \<and> op_msg_index r < op_msg_index e))
     \<and> (cl_state c = Superseded \<longleftrightarrow> cl_state c \<noteq> Stale \<and> compress_superseded cfg
          \<and> (\<exists>r' \<in> set fops. op_kind r' = ReadOp \<and> op_msg_index r < op_msg_index r' \<and> lines_read r \<subseteq> lines_read r'))"

lemma any_covers_plain:
  "plain_range r \<Longrightarrow> \<forall>r' \<in> set rs. plain_range r' \<Longrightarrow> \<exists>b. any_covers r rs = Inr b"
  by (induction rs) (auto simp: covers_iff_lines)

lemma classify_read_judged:
  assumes "\<forall>r' \<in> set fops. op_kind r' = ReadOp \<longrightarrow> plain_range r'" and r: "r \<in> set fops" "op_kind r = ReadOp"
  shows "\<exists>c. classify_read cfg path (filter (\<lambda>o1. op_kind o1 = ReadOp) fops) (filter (\<lambda>o1. op_kind o1 = EditOp) fops) r = Inr c
    \<and> judged cfg path fops r c"
proof -
  have "\<exists>b. any_covers r (filter (\<lambda>o1. op_kind o1 = ReadOp) fops) = Inr b"
    using assms by (intro any_covers_plain) auto
  then obtain c where c: "classify_read cfg path (filter (\<lambda>o1. op_kind o1 = ReadOp) fops) (filter (\<lambda>o1. op_kind o1 = EditOp) fops) r = Inr c"
    by (cases "compress_superseded cfg") (auto simp: classify_read_def Let_def)
  have eq: "read_covers r' r = Inr True \<longleftrightarrow> lines_read r \<subseteq> lines_read r'" if "r' \<in> set fops" "op_kind r' = ReadOp" for r'
    using covers_iff_lines [of r' r] that assms by auto
  have cl: "classifies cfg path fops r c" by (rule classify_read_spec [OF c])
  have "is_stale cfg fops r \<longleftrightarrow> compress_stale cfg \<and> (\<exists>e \<in> set fops. op_kind e = EditOp \<and> op_msg_index r < op_msg_index e)"
    by (simp add: is_stale_def)
  moreover have "is_superseded cfg fops r \<longleftrightarrow> compress_superseded cfg
      \<and> (\<exists>r' \<in> set fops. op_kind r' = ReadOp \<and> op_msg_index r < op_msg_index r' \<and> lines_read r \<subseteq> lines_read r')"
    using eq by (auto simp: is_superseded_def)
  ultimately show ?thesis using c cl unfolding classifies_def judged_def by auto
qed

lemma mapR_list_total:
  assumes "\<And>x. x \<in> set xs \<Longrightarrow> \<exists>y. f x = Inr y \<and> P x y"
  shows "\<exists>ys. mapR_list f xs = Inr ys \<and> list_all2 P xs ys"
  using assms by (induction xs) (fastforce simp: list_all2_Cons1)+

text \<open>C37: classification. For reads whose offset and limit are missing or integers, the limit not
  negative, the classification does not fail and gives, file by file and in order, one verdict for each
  read of the index and no other: it is stale exactly when (the option being on) an edit of the same
  file comes in a later message, superseded exactly when it is not stale and (the option being on) a
  later read of the file shows all the lines it showed, a read without offset and limit showing all
  lines there are, and fresh otherwise.\<close>

theorem classify_reads_sound_complete:
  assumes "\<forall>(path, fops) \<in> set ops. \<forall>r \<in> set fops. op_kind r = ReadOp \<longrightarrow> plain_range r"
  shows "\<exists>css. classify_reads cfg ops = Inr (concat css) \<and>
    list_all2 (\<lambda>(path, fops) cs. list_all2 (judged cfg path fops) (filter (\<lambda>r. op_kind r = ReadOp) fops) cs) ops css"
proof -
  have "\<exists>cs. classify_file cfg item = Inr cs \<and> (case item of (path, fops) \<Rightarrow>
      list_all2 (judged cfg path fops) (filter (\<lambda>r. op_kind r = ReadOp) fops) cs)" if i: "item \<in> set ops" for item
  proof -
    obtain path fops where it: "item = (path, fops)" by fastforce
    have "\<forall>r \<in> set fops. op_kind r = ReadOp \<longrightarrow> plain_range r" using assms i it by auto
    from mapR_list_total [OF classify_read_judged [OF this], of "filter (\<lambda>r. op_kind r = ReadOp) fops"]
    show ?thesis by (auto simp: it classify_file_def Let_def)
  qed
  then have item: "\<And>item. item \<in> set ops \<Longrightarrow> \<exists>cs. classify_file cfg item = Inr cs \<and> (case item of (path, fops) \<Rightarrow>
      list_all2 (judged cfg path fops) (filter (\<lambda>r. op_kind r = ReadOp) fops) cs)" by simp
  from mapR_list_total [where xs = ops and f = "classify_file cfg", OF item] obtain css where "mapR_list (classify_file cfg) ops = Inr css"
    "list_all2 (\<lambda>item cs. case item of (path, fops) \<Rightarrow>
      list_all2 (judged cfg path fops) (filter (\<lambda>r. op_kind r = ReadOp) fops) cs) ops css" by blast
  then show ?thesis unfolding classify_reads_def by (intro exI [of _ css]) (auto elim!: list_all2_mono)
qed

section \<open>What the replacement touches\<close>

text \<open>The ids under which a message carries tool results.\<close>

fun block_result_ids :: "json list \<Rightarrow> json list" where
  "block_result_ids [] = []"
| "block_result_ids (b # bs) =
     (case b of
        JObj d \<Rightarrow> if dget d ''type'' = JStr (u ''tool_result'')
                 then key_norm (dget_default d ''tool_use_id'' (JStr [])) # block_result_ids bs
                 else block_result_ids bs
      | _ \<Rightarrow> block_result_ids bs)"

definition result_ids :: "message \<Rightarrow> json list" where
  "result_ids msg =
     (if dget_default msg ''role'' (JStr []) = JStr (u ''tool'')
      then [key_norm (dget_default msg ''tool_call_id'' (JStr []))] else [])
     @ (case dget_default msg ''content'' (JStr []) of JList bs \<Rightarrow> block_result_ids bs | _ \<Rightarrow> [])"

lemma replace_tool_message_cases:
  assumes "replace_tool_message B sha now cfg rs acc msg = Inr (m, acc')"
  obtains (skip) "m = None" "acc' = acc"
  | (hit) c content r st where "dget_default msg ''role'' (JStr []) = JStr (u ''tool'')"
      "map_of rs (key_norm (dget_default msg ''tool_call_id'' (JStr []))) = Some c"
      "dget_default msg ''content'' (JStr []) = JStr content"
      "replace_content B sha now cfg (acc_store acc) content c = Inr (r, st)"
      "case r of None \<Rightarrow> m = None \<and> acc' = acc\<lparr>acc_store := st\<rparr>
       | Some (marker, h) \<Rightarrow> m = Some (dset msg ''content'' (JStr marker))
           \<and> acc_store acc' = st \<and> acc_hashes acc' = acc_hashes acc @ (if h \<noteq> [] then [h] else [])"
proof (cases "dget_default msg ''role'' (JStr []) = JStr (u ''tool'')")
  case True
  let ?id = "dget_default msg ''tool_call_id'' (JStr [])" and ?ct = "dget_default msg ''content'' (JStr [])"
  have hs: "hashable ?id" using assms True by (auto simp: replace_tool_message_def lookup_repl_def split: if_splits)
  show ?thesis
  proof (cases "map_of rs (key_norm ?id)")
    case None
    then show ?thesis using assms True hs skip by (auto simp: replace_tool_message_def lookup_repl_def)
  next
    case (Some c)
    show ?thesis
    proof (cases ?ct)
      case (JStr content)
      obtain r st where r: "replace_content B sha now cfg (acc_store acc) content c = Inr (r, st)"
        using assms True hs Some JStr by (auto simp: replace_tool_message_def lookup_repl_def bindR_eq_Inr)
      have "case r of None \<Rightarrow> m = None \<and> acc' = acc\<lparr>acc_store := st\<rparr>
         | Some (marker, h) \<Rightarrow> m = Some (dset msg ''content'' (JStr marker))
           \<and> acc_store acc' = st \<and> acc_hashes acc' = acc_hashes acc @ (if h \<noteq> [] then [h] else [])"
        using assms True hs Some JStr r
        by (cases r) (auto simp: replace_tool_message_def lookup_repl_def note_replacement_def Let_def split: option.splits)
      with True Some JStr r show ?thesis by (rule hit)
    qed (use assms True hs Some skip in \<open>auto simp: replace_tool_message_def lookup_repl_def\<close>)
  qed
qed (use assms skip in \<open>auto simp: replace_tool_message_def\<close>)

lemma process_block_cases:
  assumes "process_block B sha now cfg rs acc b = Inr (b', replaced, acc')"
  obtains (skip) "b' = b" "\<not> replaced" "acc' = acc"
  | (hit) d c content r st where "b = JObj d" "dget d ''type'' = JStr (u ''tool_result'')"
      "map_of rs (key_norm (dget_default d ''tool_use_id'' (JStr []))) = Some c"
      "dget_default d ''content'' (JStr []) = JStr content"
      "replace_content B sha now cfg (acc_store acc) content c = Inr (r, st)"
      "case r of None \<Rightarrow> b' = b \<and> \<not> replaced \<and> acc' = acc\<lparr>acc_store := st\<rparr>
       | Some (marker, h) \<Rightarrow> b' = JObj (dset d ''content'' (JStr marker)) \<and> replaced
           \<and> acc' = note_replacement c h st acc"
proof (cases "is_block ''tool_result'' b")
  case True
  then obtain d where d: "b = JObj d" "dget d ''type'' = JStr (u ''tool_result'')" by (rule is_blockE)
  let ?id = "dget_default d ''tool_use_id'' (JStr [])" and ?ct = "dget_default d ''content'' (JStr [])"
  have hs: "hashable ?id" using assms d by (auto simp: process_block_def lookup_repl_def split: if_splits)
  show ?thesis
  proof (cases "map_of rs (key_norm ?id)")
    case None
    then show ?thesis using assms d hs skip by (auto simp: process_block_def lookup_repl_def)
  next
    case (Some c)
    show ?thesis
    proof (cases ?ct)
      case (JStr content)
      obtain r st where r: "replace_content B sha now cfg (acc_store acc) content c = Inr (r, st)"
        using assms d hs Some JStr by (auto simp: process_block_def lookup_repl_def bindR_eq_Inr)
      have "case r of None \<Rightarrow> b' = b \<and> \<not> replaced \<and> acc' = acc\<lparr>acc_store := st\<rparr>
       | Some (marker, h) \<Rightarrow> b' = JObj (dset d ''content'' (JStr marker)) \<and> replaced
           \<and> acc' = note_replacement c h st acc"
        using assms d hs Some JStr r by (cases r) (auto simp: process_block_def lookup_repl_def)
      with d Some JStr r show ?thesis by (rule hit)
    qed (use assms d hs Some skip in \<open>auto simp: process_block_def lookup_repl_def\<close>)
  qed
next
  case False
  then show ?thesis using assms skip by (cases b) (auto simp: process_block_def)
qed

lemma process_block_untouched:
  assumes "process_block B sha now cfg rs acc b = Inr (b', r, acc')"
    and "\<forall>t \<in> set (block_result_ids [b]). map_of rs t = None"
  shows "b' = b \<and> \<not> r \<and> acc' = acc"
  using assms(1) by (cases rule: process_block_cases) (use assms(2) in auto)

lemma process_blocks_untouched:
  "process_anthropic_blocks B sha now cfg rs acc bs = Inr (bs', r, acc') \<Longrightarrow>
   \<forall>t \<in> set (block_result_ids bs). map_of rs t = None \<Longrightarrow> bs' = bs \<and> \<not> r \<and> acc' = acc"
proof (induction bs arbitrary: acc bs' r acc')
  case (Cons b bs)
  obtain b1 r1 acc1 where 1: "process_block B sha now cfg rs acc b = Inr (b1, r1, acc1)"
    using Cons.prems(1) by (auto simp: bindR_eq_Inr)
  obtain bs2 r2 acc2 where 2: "process_anthropic_blocks B sha now cfg rs acc1 bs = Inr (bs2, r2, acc2)"
    "bs' = b1 # bs2" "r = (r1 \<or> r2)" "acc' = acc2"
    using Cons.prems(1) 1 by (auto simp: bindR_eq_Inr)
  have "\<forall>t \<in> set (block_result_ids [b]). map_of rs t = None" "\<forall>t \<in> set (block_result_ids bs). map_of rs t = None"
    using Cons.prems(2) by (auto split: json.splits if_splits)
  with process_block_untouched [OF 1] Cons.IH [OF 2(1)] 2 show ?case by auto
qed simp

lemma lifecycle_message_untouched:
  assumes "lifecycle_message B sha now cfg rs acc msg = Inr (msg', acc')"
    and "\<forall>t \<in> set (result_ids msg). map_of rs t = None"
  shows "msg' = msg"
proof -
  obtain m acc1 where 1: "replace_tool_message B sha now cfg rs acc msg = Inr (m, acc1)"
    using assms(1) by (auto simp: lifecycle_message_def bindR_eq_Inr)
  have m: "m = None" using 1
    by (cases rule: replace_tool_message_cases) (use assms(2) in \<open>auto simp: result_ids_def\<close>)
  show ?thesis
  proof (cases "dget_default msg ''content'' (JStr [])")
    case (JList bs)
    then obtain bs' r acc2 where 2: "process_anthropic_blocks B sha now cfg rs acc1 bs = Inr (bs', r, acc2)"
      "msg' = (if r then dset msg ''content'' (JList bs') else msg)"
      using assms(1) 1 m by (auto simp: lifecycle_message_def bindR_eq_Inr)
    with process_blocks_untouched [OF 2(1)] assms(2) JList show ?thesis by (auto simp: result_ids_def)
  qed (use assms(1) 1 m in \<open>auto simp: lifecycle_message_def\<close>)
qed

text \<open>Whatever is replaced, only the \<open>content\<close> of a message changes.\<close>

lemma lifecycle_message_frame:
  assumes "lifecycle_message B sha now cfg rs acc msg = Inr (msg', acc')" and "k \<noteq> ''content''"
  shows "dget msg' k = dget msg k"
proof -
  obtain m acc1 where 1: "replace_tool_message B sha now cfg rs acc msg = Inr (m, acc1)"
    using assms(1) by (auto simp: lifecycle_message_def bindR_eq_Inr)
  show ?thesis
  proof (cases m)
    case None
    then show ?thesis using assms 1
      by (auto simp: lifecycle_message_def bindR_eq_Inr split: json.splits if_splits)
  next
    case (Some m')
    then have "msg' = m'" using assms(1) 1 by (simp add: lifecycle_message_def)
    moreover have "\<exists>x. m' = dset msg ''content'' x"
      using 1 by (cases rule: replace_tool_message_cases) (use Some in \<open>auto split: option.splits\<close>)
    ultimately show ?thesis using assms(2) by auto
  qed
qed

lemma lifecycle_messages_nth:
  assumes "lifecycle_messages B sha now cfg rs acc msgs = Inr (out, acc')"
  shows "length out = length msgs \<and> (\<forall>i < length msgs. \<exists>a a'. lifecycle_message B sha now cfg rs a (msgs ! i) = Inr (out ! i, a'))"
  using assms
proof (induction msgs arbitrary: acc out)
  case (Cons m ms)
  then obtain m' acc1 ms' where 1: "lifecycle_message B sha now cfg rs acc m = Inr (m', acc1)"
    "lifecycle_messages B sha now cfg rs acc1 ms = Inr (ms', acc')" "out = m' # ms'"
    by (auto simp: bindR_eq_Inr)
  from Cons.IH [OF 1(2)] 1 show ?case by (auto simp: nth_Cons split: nat.splits)
qed simp

lemma replacements_of_in:
  assumes "map_of (replacements_of cs) t = Some c"
  shows "c \<in> set cs \<and> cl_state c \<noteq> Fresh \<and> cl_tool_call_id c = t"
proof -
  have "map_of (foldl (\<lambda>rs c. if cl_state c \<noteq> Fresh then AList.update (cl_tool_call_id c) c rs else rs) rs cs) t = Some c
      \<Longrightarrow> map_of rs t = Some c \<or> c \<in> set cs \<and> cl_state c \<noteq> Fresh \<and> cl_tool_call_id c = t" for rs
  proof (induction cs arbitrary: rs)
    case (Cons c0 cs)
    let ?rs = "if cl_state c0 \<noteq> Fresh then AList.update (cl_tool_call_id c0) c0 rs else rs"
    from Cons.IH [of ?rs] Cons.prems show ?case by (auto simp: update_conv' split: if_splits)
  qed simp
  from this [of "[]"] assms show ?thesis by (simp add: replacements_of_def)
qed

lemma unfreeze_in:
  assumes "c \<in> set (unfreeze frozen cs)" and "cl_state c \<noteq> Fresh"
  shows "c \<in> set cs \<and> frozen \<le> int (cl_msg_index c)"
  using assms by (auto simp: unfreeze_def split: if_splits)

text \<open>Every id that is replaced belongs to a call at or after the frozen boundary.\<close>

lemma apply_reads_cases:
  assumes "apply_reads B sha loads now cfg st msgs frozen = Inr (res, st')"
  obtains (same) "res_messages res = msgs" "st' = st" "ccr_hashes res = []"
  | (pass) rs acc where
      "lifecycle_messages B sha now cfg rs
         \<lparr>acc_store = st, acc_transforms = [], acc_hashes = [], acc_before = 0, acc_after = 0\<rparr> msgs
         = Inr (res_messages res, acc)" "st' = acc_store acc" "ccr_hashes res = acc_hashes acc"
      "\<forall>t c. map_of rs t = Some c \<longrightarrow> cl_state c \<noteq> Fresh \<and> (\<exists>j. frozen \<le> int j \<and> find_tool_call_msg_index msgs t 0 = Inr (Some j))"
proof (cases "cfg_enabled cfg")
  case True
  then obtain meta ops cs where p: "build_tool_metadata loads msgs = Inr meta"
    "build_file_operation_index msgs meta = Inr ops" "classify_reads cfg ops = Inr cs"
    using assms by (auto simp: apply_reads_def bindR_eq_Inr)
  let ?rs = "replacements_of (unfreeze frozen cs)"
  show ?thesis
  proof (cases "cs = [] \<or> ?rs = []")
    case t: True
    then have "res = plain_result msgs (reads_total res) \<and> st' = st"
      using assms True p by (cases "cs = []") (auto simp: apply_reads_def apply_lifecycle_def plain_result_def)
    then have "res_messages res = msgs" "st' = st" "ccr_hashes res = []"
      by (metis plain_result_def lifecycle_result.select_convs(1), simp, metis plain_result_def lifecycle_result.select_convs(9))
    then show ?thesis by (rule same)
  next
    case False
    have loc: "find_tool_call_msg_index msgs (cl_tool_call_id c) 0 = Inr (Some (cl_msg_index c))" if "c \<in> set cs" for c
      using classify_reads_of [OF p(3) that] index_located [OF p(2)]
      by (fastforce simp: classifies_def ops_located_def)
    have "cl_state c \<noteq> Fresh \<and> (\<exists>j. frozen \<le> int j \<and> find_tool_call_msg_index msgs t 0 = Inr (Some j))"
      if rt: "map_of ?rs t = Some c" for t c
      using replacements_of_in [OF rt] unfreeze_in [of c frozen cs] loc [of c] by auto
    moreover obtain acc where "lifecycle_messages B sha now cfg ?rs
         \<lparr>acc_store = st, acc_transforms = [], acc_hashes = [], acc_before = 0, acc_after = 0\<rparr> msgs
         = Inr (res_messages res, acc)" "st' = acc_store acc" "ccr_hashes res = acc_hashes acc"
      using assms True p False by (auto simp: apply_reads_def apply_lifecycle_def Let_def bindR_eq_Inr)
    ultimately show ?thesis by (intro pass [of ?rs acc]) auto
  qed
qed (use assms same in \<open>auto simp: apply_reads_def plain_result_def\<close>)

text \<open>Tool results come after the message with the call they answer.\<close>

definition calls_before_results :: "message list \<Rightarrow> bool" where
  "calls_before_results msgs \<longleftrightarrow> (\<forall>i < length msgs. \<forall>t \<in> set (result_ids (msgs ! i)).
     \<forall>j. find_tool_call_msg_index msgs t 0 = Inr (Some j) \<longrightarrow> j < i)"

text \<open>C18: the pass keeps the number of messages and everything but the \<open>content\<close> of each, and in
  a conversation whose tool results follow their calls it leaves each message of the frozen prefix
  exactly as it was.\<close>

theorem lifecycle_frozen_prefix:
  assumes "apply_reads B sha loads now cfg st msgs frozen = Inr (res, st')"
  shows "length (res_messages res) = length msgs
    \<and> (\<forall>i < length msgs. \<forall>k. k \<noteq> ''content'' \<longrightarrow> dget (res_messages res ! i) k = dget (msgs ! i) k)
    \<and> (calls_before_results msgs \<longrightarrow> (\<forall>i < length msgs. int i < frozen \<longrightarrow> res_messages res ! i = msgs ! i))"
  using assms
proof (cases rule: apply_reads_cases)
  case (pass rs acc)
  note nth = lifecycle_messages_nth [OF pass(1)]
  have "res_messages res ! i = msgs ! i"
    if cb: "calls_before_results msgs" "i < length msgs" "int i < frozen" for i
  proof -
    obtain a a' where m: "lifecycle_message B sha now cfg rs a (msgs ! i) = Inr (res_messages res ! i, a')"
      using nth cb(2) by blast
    have "map_of rs t = None" if t: "t \<in> set (result_ids (msgs ! i))" for t
    proof (rule ccontr)
      assume "map_of rs t \<noteq> None"
      then obtain j where "frozen \<le> int j" "find_tool_call_msg_index msgs t 0 = Inr (Some j)" using pass(4) by auto
      then show False using cb t
        by (fastforce simp: calls_before_results_def)
    qed
    then show ?thesis using lifecycle_message_untouched [OF m] by blast
  qed
  moreover have "dget (res_messages res ! i) k = dget (msgs ! i) k" if "i < length msgs" "k \<noteq> ''content''" for i k
    using nth that lifecycle_message_frame by metis
  ultimately show ?thesis using nth by blast
qed simp

section \<open>Markers can be resolved\<close>

lemma store_default_ttl [simp]: "default_ttl (snd (store B sha now s a)) = default_ttl s"
  by (auto simp: store_def store_locked_def Let_def split: sum.splits prod.splits if_splits)

lemma read_key:
  assumes "hexdigest_ok sha"
  shows "hash_key_of sha x (Some (take 24 (sha content))) = Inr (take 24 (sha content))"
  using digest_key [OF assms, of content] by (simp add: hash_key_of_def hex_key_def)

text \<open>With room for \<open>n\<close> more entries, all hashes handed out so far are stored, unexpired, under the
  digest of their content, which is one of the texts \<open>T\<close>.\<close>

definition resolved :: "(pystr \<Rightarrow> pystr) \<Rightarrow> real \<Rightarrow> pystr set \<Rightarrow> nat \<Rightarrow> mem_store cstore option \<Rightarrow> pystr list \<Rightarrow> bool" where
  "resolved sha now T n st hs \<longleftrightarrow> (\<exists>s. st = Some s \<and> store_inv memory_ops mem_wf s \<and> 0 \<le> default_ttl s
     \<and> int (mem_count (backend s)) + int n \<le> max_entries s
     \<and> (\<forall>h \<in> set hs. \<exists>e. mem_get (backend s) h = Some e \<and> take 24 (sha (original_content e)) = h
          \<and> original_content e \<in> T \<and> \<not> is_expired now e))"

lemma resolved_mono: "resolved sha now T n st hs \<Longrightarrow> m \<le> n \<Longrightarrow> resolved sha now T m st hs"
  unfolding resolved_def by force

definition hashes_of :: "(pystr \<times> pystr) option \<Rightarrow> pystr list" where
  "hashes_of r = (case r of None \<Rightarrow> [] | Some (m, h) \<Rightarrow> if h \<noteq> [] then [h] else [])"

text \<open>Storing one more text keeps what was handed out, and adds its digest.\<close>

lemma store_resolved:
  assumes res: "resolved sha now T (Suc n) (Some s) hs"
    and key: "hash_key_of sha (a_original a) (a_explicit_hash a) = Inr (take 24 (sha (a_original a)))"
    and nb: "\<not> is_bare_marker (a_original a)" and no_ttl: "a_ttl a = None" and inT: "a_original a \<in> T"
  shows "\<exists>s'. store memory_ops sha now s a = (Inr (take 24 (sha (a_original a))), s')
    \<and> resolved sha now T n (Some s') (hs @ [take 24 (sha (a_original a))])"
proof -
  have inv: "store_inv memory_ops mem_wf s" and ttl: "0 \<le> default_ttl s"
    and cap: "int (mem_count (backend s)) + int (Suc n) \<le> max_entries s"
    and all: "\<And>h. h \<in> set hs \<Longrightarrow> \<exists>e. mem_get (backend s) h = Some e \<and> take 24 (sha (original_content e)) = h
          \<and> original_content e \<in> T \<and> \<not> is_expired now e"
    using res unfolding resolved_def by auto
  let ?h = "take 24 (sha (a_original a))"
  let ?s0 = "if enable_feedback s then process_pending_feedback memory_ops s else s"
  let ?e = "entry_of now (default_ttl s) ?h a"
  obtain s' b1 where sr: "store memory_ops sha now s a = (Inr ?h, s')"
    and b1: "b1 = backend (if mem_get (backend s) ?h = None then evict_if_needed memory_ops now ?s0 else s)"
    and g: "mem_get (backend s') = (mem_get b1)(?h \<mapsto> ?e)"
    and m: "max_entries s' = max_entries s" and cnt: "mem_count (backend s') \<le> Suc (mem_count b1)"
    and le: "mem_get b1 \<subseteq>\<^sub>m mem_get (backend s)" and i': "store_inv memory_ops mem_wf s'"
    using mem_store_result [OF inv key nb, where now = now] by metis
  have w: "mem_wf (backend s)" using inv by (simp add: store_inv_def)
  have wb: "mem_wf b1"
    using mem.evict_if_needed_inv [OF mem.store_inv_feedback [OF inv, of "enable_feedback s"], of now] w
    by (auto simp: b1 store_inv_def)
  have "mem_count b1 \<le> mem_count (backend s)" using mem.count_mono [OF w wb] le by simp
  with cnt cap m have c1: "int (mem_count (backend s')) + int n \<le> max_entries s'" by simp
  have keep: "mem_get b1 k = Some x" if "mem_get (backend s) k = Some x" "\<not> is_expired now x" for k x
    using mem.evict_below_capacity_keeps_live [of ?s0 k x now] w cap that by (simp add: b1)
  have new: "mem_get (backend s') ?h = Some ?e" "original_content ?e = a_original a" "\<not> is_expired now ?e"
    using ttl no_ttl by (auto simp: g entry_of_def is_expired_def)
  have "\<exists>e. mem_get (backend s') h = Some e \<and> take 24 (sha (original_content e)) = h
      \<and> original_content e \<in> T \<and> \<not> is_expired now e"
    if "h \<in> set hs \<or> h = ?h" for h
  proof (cases "h = ?h")
    case True
    then show ?thesis using new inT by auto
  next
    case False
    then show ?thesis using that all [of h] keep g by fastforce
  qed
  moreover have "default_ttl s' = default_ttl s" using store_default_ttl [of memory_ops sha now s a] sr by simp
  ultimately show ?thesis using sr i' ttl c1 unfolding resolved_def by auto
qed

lemma replace_content_resolved:
  assumes "replace_content memory_ops sha now cfg st content c = Inr (r, st')"
    and res: "resolved sha now T (Suc n) st hs" and hex: "hexdigest_ok sha" and nb: "\<not> is_bare_marker content"
    and inT: "content \<in> T"
  shows "resolved sha now T n st' (hs @ hashes_of r)"
proof -
  obtain s where st: "st = Some s" using res unfolding resolved_def by blast
  obtain len where len: "encoded_len content = Some len"
    using assms(1) by (auto simp: replace_content_def split: option.splits)
  show ?thesis
  proof (cases "int len < min_size_bytes cfg")
    case True
    then have "r = None" "st' = st" using assms(1) len by (auto simp: replace_content_def)
    then show ?thesis using resolved_mono [OF res, of n] by (simp add: hashes_of_def)
  next
    case False
    let ?h = "take 24 (sha content)"
    let ?a = "read_store_args content c ?h"
    have "resolved sha now T (Suc n) (Some s) hs" using res st by simp
    then obtain s' where s': "store memory_ops sha now s ?a = (Inr ?h, s')" "resolved sha now T n (Some s') (hs @ [?h])"
      using store_resolved [of sha now T n s hs ?a] read_key [OF hex] nb inT by (auto simp: read_store_args_def)
    have "r = Some (marker_text c ?h, ?h)" "st' = Some s'"
      using assms(1) st s'(1) False len by (auto simp: replace_content_def Let_def)
    moreover have "?h \<noteq> []" using hex by (auto simp: hexdigest_ok_def is_hex_def)
    ultimately show ?thesis using s'(2) by (simp add: hashes_of_def)
  qed
qed

text \<open>The texts of the tool results a message carries.\<close>

fun block_result_texts :: "json list \<Rightarrow> pystr list" where
  "block_result_texts [] = []"
| "block_result_texts (b # bs) =
     (case b of
        JObj d \<Rightarrow>
          (case dget_default d ''content'' (JStr []) of
             JStr t \<Rightarrow> if dget d ''type'' = JStr (u ''tool_result'') then t # block_result_texts bs
                      else block_result_texts bs
           | _ \<Rightarrow> block_result_texts bs)
      | _ \<Rightarrow> block_result_texts bs)"

definition result_texts :: "message \<Rightarrow> pystr list" where
  "result_texts msg = (case dget_default msg ''content'' (JStr []) of
     JStr t \<Rightarrow> if dget_default msg ''role'' (JStr []) = JStr (u ''tool'') then [t] else []
   | JList bs \<Rightarrow> block_result_texts bs | _ \<Rightarrow> [])"

lemma note_replacement_simps [simp]:
  "acc_store (note_replacement c h st acc) = st"
  "acc_hashes (note_replacement c h st acc) = acc_hashes acc @ hashes_of (Some (m, h))"
  by (simp_all add: note_replacement_def hashes_of_def)

lemma process_block_resolved:
  assumes "process_block memory_ops sha now cfg rs acc b = Inr (b', r, acc')"
    and "resolved sha now T (length (block_result_texts [b]) + n) (acc_store acc) (acc_hashes acc)"
    and "hexdigest_ok sha" and "\<forall>t \<in> set (block_result_texts [b]). \<not> is_bare_marker t \<and> t \<in> T"
  shows "resolved sha now T n (acc_store acc') (acc_hashes acc')"
  using assms(1)
proof (cases rule: process_block_cases)
  case skip
  then show ?thesis using assms(2) resolved_mono by fastforce
next
  case (hit d c content rr st)
  then have t: "block_result_texts [b] = [content]" by simp
  have "resolved sha now T (Suc n) (acc_store acc) (acc_hashes acc)" "\<not> is_bare_marker content" "content \<in> T"
    using assms(2,4) unfolding t by simp_all
  then have "resolved sha now T n st (acc_hashes acc @ hashes_of rr)"
    using replace_content_resolved [OF hit(5) _ assms(3)] by blast
  moreover have "acc_store acc' = st \<and> acc_hashes acc' = acc_hashes acc @ hashes_of rr"
    using hit(6) by (auto simp: hashes_of_def note_replacement_def split: option.splits)
  ultimately show ?thesis by simp
qed

lemma process_blocks_resolved:
  assumes "hexdigest_ok sha"
  shows "process_anthropic_blocks memory_ops sha now cfg rs acc bs = Inr (bs', r, acc') \<Longrightarrow>
   resolved sha now T (length (block_result_texts bs) + n) (acc_store acc) (acc_hashes acc) \<Longrightarrow>
   \<forall>t \<in> set (block_result_texts bs). \<not> is_bare_marker t \<and> t \<in> T \<Longrightarrow>
   resolved sha now T n (acc_store acc') (acc_hashes acc')"
proof (induction bs arbitrary: acc bs' r acc')
  case (Cons b bs)
  obtain b1 r1 acc1 where 1: "process_block memory_ops sha now cfg rs acc b = Inr (b1, r1, acc1)"
    using Cons.prems(1) by (auto simp: bindR_eq_Inr)
  obtain bs2 r2 where 2: "process_anthropic_blocks memory_ops sha now cfg rs acc1 bs = Inr (bs2, r2, acc')"
    using Cons.prems(1) 1 by (auto simp: bindR_eq_Inr)
  have t: "block_result_texts (b # bs) = block_result_texts [b] @ block_result_texts bs"
    by (cases b) (auto split: json.splits)
  have "resolved sha now T (length (block_result_texts bs) + n) (acc_store acc1) (acc_hashes acc1)"
    using process_block_resolved [OF 1 _ assms] Cons.prems(2,3) unfolding t by (simp add: add.assoc)
  then show ?case using Cons.IH [OF 2] Cons.prems(3) t by simp
qed simp

lemma lifecycle_message_resolved:
  assumes "lifecycle_message memory_ops sha now cfg rs acc msg = Inr (msg', acc')" and hex: "hexdigest_ok sha"
    and res: "resolved sha now T (length (result_texts msg) + n) (acc_store acc) (acc_hashes acc)"
    and nb: "\<forall>t \<in> set (result_texts msg). \<not> is_bare_marker t \<and> t \<in> T"
  shows "resolved sha now T n (acc_store acc') (acc_hashes acc')"
proof -
  let ?ct = "dget_default msg ''content'' (JStr [])"
  obtain m acc1 where 1: "replace_tool_message memory_ops sha now cfg rs acc msg = Inr (m, acc1)"
    using assms(1) by (auto simp: lifecycle_message_def bindR_eq_Inr)
  from 1 show ?thesis
  proof (cases rule: replace_tool_message_cases)
    case skip
    show ?thesis
    proof (cases ?ct)
      case (JList bs)
      then obtain bs' r where 2: "process_anthropic_blocks memory_ops sha now cfg rs acc bs = Inr (bs', r, acc')"
        using assms(1) 1 skip by (auto simp: lifecycle_message_def bindR_eq_Inr)
      then show ?thesis using process_blocks_resolved [OF hex 2] res nb JList by (simp add: result_texts_def)
    qed (use assms(1) 1 skip resolved_mono [OF res] in \<open>auto simp: lifecycle_message_def\<close>)
  next
    case (hit c content r st)
    have t: "result_texts msg = [content]" using hit by (simp add: result_texts_def)
    have "resolved sha now T n st (acc_hashes acc @ hashes_of r)"
      using replace_content_resolved [OF hit(4)] hex res nb by (simp add: t)
    moreover have "acc_store acc1 = st \<and> acc_hashes acc1 = acc_hashes acc @ hashes_of r"
      using hit(5) by (auto simp: hashes_of_def split: option.splits)
    moreover have "acc' = acc1" using assms(1) 1 hit(3) by (cases m) (auto simp: lifecycle_message_def)
    ultimately show ?thesis by simp
  qed
qed

lemma lifecycle_messages_resolved:
  assumes "hexdigest_ok sha"
  shows "lifecycle_messages memory_ops sha now cfg rs acc msgs = Inr (out, acc') \<Longrightarrow>
   resolved sha now T (length (concat (map result_texts msgs))) (acc_store acc) (acc_hashes acc) \<Longrightarrow>
   \<forall>t \<in> set (concat (map result_texts msgs)). \<not> is_bare_marker t \<and> t \<in> T \<Longrightarrow>
   resolved sha now T 0 (acc_store acc') (acc_hashes acc')"
proof (induction msgs arbitrary: acc out)
  case (Cons m ms)
  then obtain m' acc1 ms' where 1: "lifecycle_message memory_ops sha now cfg rs acc m = Inr (m', acc1)"
    "lifecycle_messages memory_ops sha now cfg rs acc1 ms = Inr (ms', acc')"
    by (auto simp: bindR_eq_Inr)
  have "resolved sha now T (length (concat (map result_texts ms))) (acc_store acc1) (acc_hashes acc1)"
    using lifecycle_message_resolved [OF 1(1) assms] Cons.prems(2,3) by simp
  then show ?case using Cons.IH [OF 1(2)] Cons.prems(3) by simp
qed (auto elim: resolved_mono)

lemma retrieve_of_live:
  assumes "mem_get (backend s) k = Some e" and "\<not> is_expired now e"
  shows "\<exists>s'. retrieve memory_ops now s k q = (Some (record_access now q e), s')"
  using assms by (simp add: retrieve_def Let_def)

lemma list_all2_mono_in:
  assumes "list_all2 P xs ys" and "\<And>x y. x \<in> set xs \<Longrightarrow> P x y \<Longrightarrow> Q x y"
  shows "list_all2 Q xs ys"
  using assms by (auto simp: list_all2_conv_all_nth)

lemma process_blocks_replaced:
  "process_anthropic_blocks B sha now cfg rs acc bs = Inr (bs', r, acc') \<Longrightarrow> r \<or> bs' = bs"
proof (induction bs arbitrary: acc bs' r acc')
  case (Cons b bs)
  obtain b1 r1 acc1 where 1: "process_block B sha now cfg rs acc b = Inr (b1, r1, acc1)"
    using Cons.prems(1) by (auto simp: bindR_eq_Inr)
  obtain bs2 r2 where 2: "process_anthropic_blocks B sha now cfg rs acc1 bs = Inr (bs2, r2, acc')" "bs' = b1 # bs2" "r = (r1 \<or> r2)"
    using Cons.prems(1) 1 by (auto simp: bindR_eq_Inr)
  have "r1 \<or> b1 = b" using 1 by (cases rule: process_block_cases) (auto split: option.splits)
  with Cons.IH [OF 2(1)] 2 show ?case by auto
qed simp

text \<open>What becomes of one tool result: it stays, or it is replaced by a text that cites its digest,
  which is among the hashes \<open>hs\<close>.\<close>

definition kept_or_cited :: "(pystr \<Rightarrow> pystr) \<Rightarrow> pystr list \<Rightarrow> pystr \<Rightarrow> pystr \<Rightarrow> bool" where
  "kept_or_cited sha hs t t' \<longleftrightarrow> t' = t \<or>
     (\<exists>p. t' = p @ u ''hash='' @ take 24 (sha t) @ u '']'') \<and> take 24 (sha t) \<in> set hs"

lemma kept_or_cited_mono: "kept_or_cited sha hs t t' \<Longrightarrow> set hs \<subseteq> set hs' \<Longrightarrow> kept_or_cited sha hs' t t'"
  by (auto simp: kept_or_cited_def)

lemma all_kept_or_cited_mono:
  "list_all2 (kept_or_cited sha hs) xs ys \<Longrightarrow> set hs \<subseteq> set hs' \<Longrightarrow> list_all2 (kept_or_cited sha hs') xs ys"
  by (erule list_all2_mono) (rule kept_or_cited_mono)

lemma kept_refl [simp]: "list_all2 (kept_or_cited sha hs) xs xs"
  by (simp add: list_all2_refl kept_or_cited_def)

lemma marker_cites: "\<exists>p. marker_text c h = p @ u ''hash='' @ h @ u '']''"
  unfolding marker_text_def Let_def
  by (rule exI [of _ "if cl_state c = Stale
      then u ''[Read content stale: '' @ (if cl_file_path c \<noteq> [] then cl_file_path c else u ''unknown'')
        @ u '' was modified after this read '' @ [8212] @ u '' re-read the file for current content. Retrieve original: ''
      else u ''[Read content superseded: '' @ (if cl_file_path c \<noteq> [] then cl_file_path c else u ''unknown'')
        @ u '' was re-read later '' @ [8212] @ u '' re-read the file if needed. Retrieve original: ''"]) (simp add: u_def)

lemma dget_default_dset [simp]: "dget_default (dset d k v) k' x = (if k = k' then v else dget_default d k' x)"
  by (simp add: dget_default_def dset_def update_conv')

lemma replace_content_has_store:
  "replace_content B sha now cfg (Some s) content c = Inr (r, st') \<Longrightarrow> st' \<noteq> None"
  by (auto simp: replace_content_def Let_def split: option.splits sum.splits prod.splits if_splits)

lemma replace_content_cites:
  assumes "replace_content B sha now cfg (Some s) content c = Inr (Some (marker, h), st')"
    and hex: "hexdigest_ok sha"
  shows "kept_or_cited sha (hs @ hashes_of (Some (marker, h))) content marker"
proof -
  let ?h = "take 24 (sha content)"
  obtain s' k where "store B sha now s (read_store_args content c ?h) = (Inr k, s')" "h = k" "marker = marker_text c k"
    using assms(1) by (auto simp: replace_content_def Let_def split: option.splits sum.splits prod.splits if_splits)
  moreover have "hash_key_of sha content (Some ?h) = Inr ?h" by (rule read_key [OF hex])
  ultimately have "h = ?h"
    by (auto simp: store_def store_locked_def Let_def read_store_args_def split: sum.splits prod.splits if_splits)
  moreover have "?h \<noteq> []" using hex by (auto simp: hexdigest_ok_def is_hex_def)
  ultimately show ?thesis using \<open>h = k\<close> \<open>marker = marker_text c k\<close> marker_cites [of c ?h]
    by (auto simp: kept_or_cited_def hashes_of_def)
qed

lemma process_block_cited:
  assumes "process_block B sha now cfg rs acc b = Inr (b', r, acc')" and "acc_store acc = Some s" and "hexdigest_ok sha"
  shows "list_all2 (kept_or_cited sha (acc_hashes acc')) (block_result_texts [b]) (block_result_texts [b'])
    \<and> set (acc_hashes acc) \<subseteq> set (acc_hashes acc') \<and> acc_store acc' \<noteq> None"
  using assms(1)
proof (cases rule: process_block_cases)
  case (hit d c content rr st)
  show ?thesis
  proof (cases rr)
    case None
    have "st \<noteq> None" by (rule replace_content_has_store [OF hit(5) [unfolded assms(2)]])
    then show ?thesis using hit(6) None by auto
  next
    case (Some mh)
    obtain marker h where mh: "mh = (marker, h)" by fastforce
    have "st \<noteq> None" by (rule replace_content_has_store [OF hit(5) [unfolded assms(2)]])
    then show ?thesis using hit Some mh replace_content_cites [of B sha now cfg s content c marker h st "acc_hashes acc"] assms(2,3)
      by (auto simp: note_replacement_def hashes_of_def dget_default_dset)
  qed
qed (use assms(2) in simp)

lemma process_blocks_cited:
  assumes "hexdigest_ok sha"
  shows "process_anthropic_blocks B sha now cfg rs acc bs = Inr (bs', r, acc') \<Longrightarrow> acc_store acc = Some s \<Longrightarrow>
    list_all2 (kept_or_cited sha (acc_hashes acc')) (block_result_texts bs) (block_result_texts bs')
    \<and> set (acc_hashes acc) \<subseteq> set (acc_hashes acc') \<and> acc_store acc' \<noteq> None"
proof (induction bs arbitrary: acc bs' r acc' s)
  case (Cons b bs)
  obtain b1 r1 acc1 where 1: "process_block B sha now cfg rs acc b = Inr (b1, r1, acc1)"
    using Cons.prems(1) by (auto simp: bindR_eq_Inr)
  obtain bs2 r2 where 2: "process_anthropic_blocks B sha now cfg rs acc1 bs = Inr (bs2, r2, acc')" "bs' = b1 # bs2"
    using Cons.prems(1) 1 by (auto simp: bindR_eq_Inr)
  have t: "block_result_texts (x # xs) = block_result_texts [x] @ block_result_texts xs" for x xs
    by (cases x) (auto split: json.splits)
  note p = process_block_cited [OF 1 Cons.prems(2) assms]
  then obtain s1 where "acc_store acc1 = Some s1" by blast
  note q = Cons.IH [OF 2(1) this]
  show ?case unfolding 2(2) t [of b bs] t [of b1 bs2]
    using p q all_kept_or_cited_mono list_all2_appendI by blast
qed simp

lemma lifecycle_message_cited:
  assumes "lifecycle_message B sha now cfg rs acc msg = Inr (msg', acc')" and hex: "hexdigest_ok sha"
    and st: "acc_store acc = Some s"
  shows "list_all2 (kept_or_cited sha (acc_hashes acc')) (result_texts msg) (result_texts msg')
    \<and> set (acc_hashes acc) \<subseteq> set (acc_hashes acc') \<and> acc_store acc' \<noteq> None"
proof -
  let ?ct = "dget_default msg ''content'' (JStr [])"
  obtain m acc1 where 1: "replace_tool_message B sha now cfg rs acc msg = Inr (m, acc1)"
    using assms(1) by (auto simp: lifecycle_message_def bindR_eq_Inr)
  from 1 show ?thesis
  proof (cases rule: replace_tool_message_cases)
    case skip
    show ?thesis
    proof (cases ?ct)
      case (JList bs)
      then obtain bs' r where 2: "process_anthropic_blocks B sha now cfg rs acc bs = Inr (bs', r, acc')"
        "msg' = (if r then dset msg ''content'' (JList bs') else msg)"
        using assms(1) 1 skip by (auto simp: lifecycle_message_def bindR_eq_Inr)
      have "r \<or> bs' = bs" using process_blocks_replaced [OF 2(1)] by blast
      have "dget_default (dset msg ''content'' (JList bs')) ''content'' (JStr []) = JList bs'"
        by (simp add: dget_default_dset)
      then show ?thesis using process_blocks_cited [OF hex 2(1) st] 2(2) JList \<open>r \<or> bs' = bs\<close> by (auto simp: result_texts_def)
    qed (use assms(1) 1 skip st in \<open>auto simp: lifecycle_message_def\<close>)
  next
    case (hit c content r st1)
    have ne: "st1 \<noteq> None" by (rule replace_content_has_store [OF hit(4) [unfolded st]])
    have t: "result_texts msg = [content]" using hit by (simp add: result_texts_def)
    show ?thesis
    proof (cases r)
      case None
      then have "m = None" "acc1 = acc\<lparr>acc_store := st1\<rparr>" using hit(5) by auto
      then have "msg' = msg" "acc' = acc\<lparr>acc_store := st1\<rparr>" using assms(1) 1 hit(3) by (auto simp: lifecycle_message_def)
      then show ?thesis using ne by simp
    next
      case (Some mh)
      obtain marker h where mh: "mh = (marker, h)" by fastforce
      then have a: "msg' = dset msg ''content'' (JStr marker)" "acc' = acc1"
        "acc_store acc' = st1" "acc_hashes acc' = acc_hashes acc @ hashes_of (Some (marker, h))"
        using assms(1) 1 hit(5) Some by (auto simp: lifecycle_message_def hashes_of_def)
      have "result_texts msg' = [marker]" using hit(1) a(1) by (simp add: result_texts_def dget_default_dset)
      then show ?thesis using replace_content_cites [of B sha now cfg s content c marker h st1 "acc_hashes acc"] hit(4) st hex Some mh a t ne
        by auto
    qed
  qed
qed

lemma lifecycle_messages_cited:
  assumes "hexdigest_ok sha"
  shows "lifecycle_messages B sha now cfg rs acc msgs = Inr (out, acc') \<Longrightarrow> acc_store acc = Some s \<Longrightarrow>
    list_all2 (\<lambda>m m'. list_all2 (kept_or_cited sha (acc_hashes acc')) (result_texts m) (result_texts m')) msgs out
    \<and> set (acc_hashes acc) \<subseteq> set (acc_hashes acc')"
proof (induction msgs arbitrary: acc out s)
  case (Cons m ms)
  then obtain m' acc1 ms' where 1: "lifecycle_message B sha now cfg rs acc m = Inr (m', acc1)"
    "lifecycle_messages B sha now cfg rs acc1 ms = Inr (ms', acc')" "out = m' # ms'"
    by (auto simp: bindR_eq_Inr)
  note p = lifecycle_message_cited [OF 1(1) assms Cons.prems(2)]
  then obtain s1 where "acc_store acc1 = Some s1" by blast
  note q = Cons.IH [OF 1(2) this]
  show ?case using p q 1(3) all_kept_or_cited_mono by auto
qed simp

text \<open>C14: every marker resolves to the output it replaced. With the in-memory CCR store in any
  reachable state and room for the tool results of the conversation, none of which is itself a bare
  retrieval marker, each tool result of the messages sent is the one of the original messages at its
  position, or a text that ends in the hash of the marker, one of the hashes the pass reports, under
  which the store it leaves returns content with the digest of the replaced text: that very text,
  unless two tool results of the conversation share their digest. And every hash reported can be
  retrieved.\<close>

theorem lifecycle_markers_resolve:
  assumes "apply_reads memory_ops sha loads now cfg (Some s) msgs frozen = Inr (res, st')"
    and "reachable_store sha s" and "hexdigest_ok sha" and "0 \<le> default_ttl s"
    and "int (mem_count (backend s)) + int (length (concat (map result_texts msgs))) \<le> max_entries s"
    and "\<forall>t \<in> set (concat (map result_texts msgs)). \<not> is_bare_marker t"
  shows "\<exists>s'. st' = Some s' \<and>
    list_all2 (\<lambda>m m'. list_all2 (\<lambda>t t'. t' = t \<or> (\<exists>p h e s''. t' = p @ u ''hash='' @ h @ u '']''
        \<and> h \<in> set (ccr_hashes res) \<and> retrieve memory_ops now s' h q = (Some e, s'')
        \<and> take 24 (sha (original_content e)) = take 24 (sha t)
        \<and> (inj_on (\<lambda>x. take 24 (sha x)) (set (concat (map result_texts msgs))) \<longrightarrow> original_content e = t)))
      (result_texts m) (result_texts m')) msgs (res_messages res)
    \<and> (\<forall>h \<in> set (ccr_hashes res). \<exists>e s''.
      retrieve memory_ops now s' h q = (Some e, s'') \<and> take 24 (sha (original_content e)) = h)"
  using assms(1)
proof (cases rule: apply_reads_cases)
  case (pass rs acc)
  let ?T = "set (concat (map result_texts msgs))"
  have "resolved sha now ?T (length (concat (map result_texts msgs))) (Some s) []"
    using assms(2,4,5) reachable_store_inv by (auto simp: resolved_def)
  then have "resolved sha now ?T 0 st' (ccr_hashes res)"
    using lifecycle_messages_resolved [OF assms(3) pass(1), of ?T] assms(6) pass(2,3) by simp
  then obtain s' where s': "st' = Some s'" and all: "\<And>h. h \<in> set (ccr_hashes res) \<Longrightarrow> \<exists>e. mem_get (backend s') h = Some e
      \<and> take 24 (sha (original_content e)) = h \<and> original_content e \<in> ?T \<and> \<not> is_expired now e"
    unfolding resolved_def by blast
  have got: "\<exists>e s''. retrieve memory_ops now s' h q = (Some e, s'') \<and> take 24 (sha (original_content e)) = h
      \<and> original_content e \<in> ?T" if "h \<in> set (ccr_hashes res)" for h
    using all [OF that] retrieve_of_live [of s' h _ now q] by (metis record_access_frame(1))
  have cited: "list_all2 (\<lambda>m m'. list_all2 (kept_or_cited sha (ccr_hashes res)) (result_texts m) (result_texts m'))
      msgs (res_messages res)"
    using lifecycle_messages_cited [OF assms(3) pass(1)] pass(3) by simp
  have "list_all2 (\<lambda>t t'. t' = t \<or> (\<exists>p h e s''. t' = p @ u ''hash='' @ h @ u '']''
        \<and> h \<in> set (ccr_hashes res) \<and> retrieve memory_ops now s' h q = (Some e, s'')
        \<and> take 24 (sha (original_content e)) = take 24 (sha t)
        \<and> (inj_on (\<lambda>x. take 24 (sha x)) ?T \<longrightarrow> original_content e = t))) (result_texts m) (result_texts m')"
    if "m \<in> set msgs" and c: "list_all2 (kept_or_cited sha (ccr_hashes res)) (result_texts m) (result_texts m')" for m m'
    using c
  proof (rule list_all2_mono_in)
    fix t t' assume t: "t \<in> set (result_texts m)" and k: "kept_or_cited sha (ccr_hashes res) t t'"
    have "t \<in> ?T" using t that(1) by auto
    with k got [of "take 24 (sha t)"] show "t' = t \<or> (\<exists>p h e s''. t' = p @ u ''hash='' @ h @ u '']''
        \<and> h \<in> set (ccr_hashes res) \<and> retrieve memory_ops now s' h q = (Some e, s'')
        \<and> take 24 (sha (original_content e)) = take 24 (sha t)
        \<and> (inj_on (\<lambda>x. take 24 (sha x)) ?T \<longrightarrow> original_content e = t))"
      unfolding kept_or_cited_def by (metis (no_types, lifting) inj_onD)
  qed
  with cited have "list_all2 (\<lambda>m m'. list_all2 (\<lambda>t t'. t' = t \<or> (\<exists>p h e s''. t' = p @ u ''hash='' @ h @ u '']''
        \<and> h \<in> set (ccr_hashes res) \<and> retrieve memory_ops now s' h q = (Some e, s'')
        \<and> take 24 (sha (original_content e)) = take 24 (sha t)
        \<and> (inj_on (\<lambda>x. take 24 (sha x)) ?T \<longrightarrow> original_content e = t))) (result_texts m) (result_texts m'))
      msgs (res_messages res)"
    by (rule list_all2_mono_in)
  with s' got show ?thesis by blast
qed (use assms in \<open>simp add: list_all2_refl\<close>)

section \<open>No marker without a stored original\<close>

lemma refused_store:
  assumes "\<forall>b k e. snd (b_set B b k e) = Some False"
    and "hash_key_of sha (a_original a) (a_explicit_hash a) = Inr k" and "\<not> is_bare_marker (a_original a)"
  shows "\<exists>s'. store B sha now s a = (Inl StorageError, s')"
proof -
  have "snd (b_set B b k e) = Some False" for b e using assms(1) by blast
  then show ?thesis using assms(2,3)
    by (auto simp: store_def store_locked_def Let_def split: prod.splits) (metis snd_conv)+
qed

lemma replace_content_refused:
  assumes "replace_content B sha now cfg (Some s) content c = Inr (r, st')"
    and "\<forall>b k e. snd (b_set B b k e) = Some False" and "hexdigest_ok sha" and "\<not> is_bare_marker content"
  shows "r = None \<and> (\<exists>s'. st' = Some s')"
proof -
  let ?a = "read_store_args content c (take 24 (sha content))"
  have "hash_key_of sha (a_original ?a) (a_explicit_hash ?a) = Inr (take 24 (sha content))"
    "\<not> is_bare_marker (a_original ?a)"
    using read_key [OF assms(3)] assms(4) by (simp_all add: read_store_args_def)
  then obtain s' where "store B sha now s ?a = (Inl StorageError, s')"
    using refused_store [OF assms(2)] by blast
  then show ?thesis using assms(1)
    by (auto simp: replace_content_def Let_def split: option.splits if_splits)
qed

lemma process_blocks_refused:
  assumes "\<forall>b k e. snd (b_set B b k e) = Some False" and "hexdigest_ok sha"
  shows "process_anthropic_blocks B sha now cfg rs acc bs = Inr (bs', r, acc') \<Longrightarrow>
   acc_store acc = Some s \<Longrightarrow> \<forall>t \<in> set (block_result_texts bs). \<not> is_bare_marker t \<Longrightarrow>
   bs' = bs \<and> \<not> r \<and> acc_hashes acc' = acc_hashes acc \<and> (\<exists>s'. acc_store acc' = Some s')"
proof (induction bs arbitrary: acc bs' r s)
  case (Cons b bs)
  obtain b1 r1 acc1 where 1: "process_block B sha now cfg rs acc b = Inr (b1, r1, acc1)"
    using Cons.prems(1) by (auto simp: bindR_eq_Inr)
  obtain bs2 r2 where 2: "process_anthropic_blocks B sha now cfg rs acc1 bs = Inr (bs2, r2, acc')"
    "bs' = b1 # bs2" "r = (r1 \<or> r2)"
    using Cons.prems(1) 1 by (auto simp: bindR_eq_Inr)
  have t: "block_result_texts (b # bs) = block_result_texts [b] @ block_result_texts bs"
    by (cases b) (auto split: json.splits)
  have "b1 = b \<and> \<not> r1 \<and> acc_hashes acc1 = acc_hashes acc \<and> (\<exists>s'. acc_store acc1 = Some s')"
    using 1
  proof (cases rule: process_block_cases)
    case (hit d c content rr st)
    have "block_result_texts [b] = [content]" using hit by simp
    then have "\<not> is_bare_marker content" using Cons.prems(3) unfolding t by simp
    with replace_content_refused [OF _ assms] hit(5,6) Cons.prems(2) show ?thesis by fastforce
  qed (use Cons.prems(2) in simp)
  with Cons.IH [OF 2(1)] 2 Cons.prems(3) show ?case unfolding t by auto
qed simp

lemma lifecycle_message_refused:
  assumes ref: "\<forall>b k e. snd (b_set B b k e) = Some False" "hexdigest_ok sha"
    and "lifecycle_message B sha now cfg rs acc msg = Inr (msg', acc')"
    and "acc_store acc = Some s" and "\<forall>t \<in> set (result_texts msg). \<not> is_bare_marker t"
  shows "msg' = msg \<and> acc_hashes acc' = acc_hashes acc \<and> (\<exists>s'. acc_store acc' = Some s')"
proof -
  let ?ct = "dget_default msg ''content'' (JStr [])"
  obtain m acc1 where 1: "replace_tool_message B sha now cfg rs acc msg = Inr (m, acc1)"
    using assms(3) by (auto simp: lifecycle_message_def bindR_eq_Inr)
  have m: "m = None \<and> acc_hashes acc1 = acc_hashes acc \<and> (\<exists>s'. acc_store acc1 = Some s')"
    using 1
  proof (cases rule: replace_tool_message_cases)
    case (hit c content r st)
    have "\<not> is_bare_marker content" using assms(5) hit by (simp add: result_texts_def)
    with replace_content_refused [OF _ ref] hit(4,5) assms(4) show ?thesis by fastforce
  qed (use assms(4) in simp)
  show ?thesis
  proof (cases ?ct)
    case (JList bs)
    then obtain bs' r where 2: "process_anthropic_blocks B sha now cfg rs acc1 bs = Inr (bs', r, acc')"
      "msg' = (if r then dset msg ''content'' (JList bs') else msg)"
      using assms(3) 1 m by (auto simp: lifecycle_message_def bindR_eq_Inr)
    with process_blocks_refused [OF ref 2(1)] m assms(5) JList show ?thesis by (auto simp: result_texts_def)
  qed (use assms(3) 1 m in \<open>auto simp: lifecycle_message_def\<close>)
qed

text \<open>When the store cannot keep the originals (a backend that refuses every write), the pass
  leaves every message as it is and reports no hash: no marker ever stands for an original nobody
  stored, bare retrieval markers apart.\<close>

theorem lifecycle_refused_keeps_all:
  assumes "\<forall>b k e. snd (b_set B b k e) = Some False" and "hexdigest_ok sha"
    and "apply_reads B sha loads now cfg (Some s) msgs frozen = Inr (res, st')"
    and "\<forall>t \<in> set (concat (map result_texts msgs)). \<not> is_bare_marker t"
  shows "res_messages res = msgs \<and> ccr_hashes res = []"
proof -
  have *: "lifecycle_messages B sha now cfg rs acc ms = Inr (out, acc') \<Longrightarrow> acc_store acc = Some s0 \<Longrightarrow>
      \<forall>t \<in> set (concat (map result_texts ms)). \<not> is_bare_marker t \<Longrightarrow>
      out = ms \<and> acc_hashes acc' = acc_hashes acc" for rs acc ms out acc' s0
  proof (induction ms arbitrary: acc out s0)
    case (Cons m ms)
    then obtain m' acc1 ms' where 1: "lifecycle_message B sha now cfg rs acc m = Inr (m', acc1)"
      "lifecycle_messages B sha now cfg rs acc1 ms = Inr (ms', acc')" "out = m' # ms'"
      by (auto simp: bindR_eq_Inr)
    with lifecycle_message_refused [OF assms(1,2) 1(1) Cons.prems(2)] Cons.IH [OF 1(2)] Cons.prems(3)
    show ?case by auto
  qed simp
  from assms(3) show ?thesis
    by (cases rule: apply_reads_cases) (use * assms(4) in fastforce)+
qed

text \<open>The exception. For content that is a bare retrieval marker of at least the minimum size,
  \<open>store\<close> returns a hash without storing anything, and the read is replaced by a marker with
  that hash all the same.\<close>

theorem bare_marker_dangles:
  assumes "is_bare_marker content" and "encoded_len content = Some n" and "min_size_bytes cfg \<le> int n"
    and "hexdigest_ok sha"
  shows "replace_content B sha now cfg (Some s) content c =
    Inr (Some (marker_text c (take 24 (sha content)), take 24 (sha content)), Some s)"
  using assms read_key [OF assms(4), of content content]
  by (simp add: replace_content_def Let_def store_def read_store_args_def)

section \<open>A concrete conversation\<close>

definition tool_call_msg :: "string \<Rightarrow> string \<Rightarrow> message" where
  "tool_call_msg i name = [(u ''role'', JStr (u ''assistant'')), (u ''content'', JList
     [JObj [(u ''type'', JStr (u ''tool_use'')), (u ''id'', JStr (u i)), (u ''name'', JStr (u name)),
            (u ''input'', JObj [(u ''file_path'', JStr (u ''a.py''))])]])]"

definition tool_result_msg :: "string \<Rightarrow> string \<Rightarrow> message" where
  "tool_result_msg i x = [(u ''role'', JStr (u ''user'')), (u ''content'', JList
     [JObj [(u ''type'', JStr (u ''tool_result'')), (u ''tool_use_id'', JStr (u i)),
            (u ''content'', JStr (u x))]])]"

text \<open>A file is read, then edited: the read is stale.\<close>

definition demo_conv :: "message list" where
  "demo_conv = [tool_call_msg ''r1'' ''Read'', tool_result_msg ''r1'' ''old file text'',
     tool_call_msg ''e1'' ''Edit'', tool_result_msg ''e1'' ''ok'']"

definition demo_cfg :: read_config where
  "demo_cfg = \<lparr>cfg_enabled = True, compress_stale = True, compress_superseded = False, min_size_bytes = 10\<rparr>"

definition demo_class :: classification where
  "demo_class = \<lparr>cl_msg_index = 0, cl_tool_call_id = JStr (u ''r1''), cl_file_path = u ''a.py'',
     cl_state = Stale, cl_content_size = 0\<rparr>"

definition demo_ops :: "(pystr, file_operation list) odict" where
  "demo_ops = [(u ''a.py'',
     [\<lparr>op_msg_index = 0, op_tool_call_id = JStr (u ''r1''), op_tool_name = JStr (u ''Read''),
       op_file_path = u ''a.py'', op_kind = ReadOp, op_content_size = 0, read_offset = JNull, read_limit = JNull\<rparr>,
      \<lparr>op_msg_index = 2, op_tool_call_id = JStr (u ''e1''), op_tool_name = JStr (u ''Edit''),
       op_file_path = u ''a.py'', op_kind = EditOp, op_content_size = 0, read_offset = JNull, read_limit = JNull\<rparr>])]"

lemma demo_meta:
  "build_tool_metadata loads demo_conv = Inr
     [(JStr (u ''r1''), JStr (u ''Read''), Some (u ''a.py''), JNull, JNull),
      (JStr (u ''e1''), JStr (u ''Edit''), Some (u ''a.py''), JNull, JNull)]"
  by (simp add: build_tool_metadata_def demo_conv_def tool_call_msg_def tool_result_msg_def message_meta_def
      anthropic_block_meta_def put_meta_def path_args_def)

lemma demo_index:
  "build_file_operation_index demo_conv
     [(JStr (u ''r1''), JStr (u ''Read''), Some (u ''a.py''), JNull, JNull),
      (JStr (u ''e1''), JStr (u ''Edit''), Some (u ''a.py''), JNull, JNull)] = Inr demo_ops"
  by (simp add: build_file_operation_index_def add_operation_def op_kind_of_def READ_TOOL_NAMES_def
      MUTATING_TOOL_NAMES_def failed_tool_use_ids_def demo_conv_def tool_call_msg_def tool_result_msg_def
      message_calls_def calls_id_def demo_ops_def)

lemma demo_classify: "classify_reads demo_cfg demo_ops = Inr [demo_class]"
  by (simp add: classify_reads_def classify_file_def classify_read_def demo_ops_def demo_cfg_def demo_class_def)

lemma demo_texts: "concat (map result_texts demo_conv) = [u ''old file text'', u ''ok'']"
  by (simp add: demo_conv_def tool_call_msg_def tool_result_msg_def result_texts_def)

lemma demo_not_bare: "\<forall>t \<in> set (concat (map result_texts demo_conv)). \<not> is_bare_marker t"
  by (simp add: demo_texts is_bare_marker_def Let_def strip_def lstrip_def rstrip_def py_isspace_def
      startswith_def u_def)

lemma demo_hex: "hexdigest_ok (\<lambda>_. u ''ab'')"
  by (simp add: hexdigest_ok_def is_hex_def u_def ascii_lower_def ascii_lower_char_def)

lemma demo_encoded: "encoded_len (u ''old file text'') = Some 13"
  by (simp add: encoded_len_def is_surrogate_def u_def utf8_width_def)

lemma demo_calls_before: "calls_before_results demo_conv"
proof -
  have "find_tool_call_msg_index demo_conv (JStr (u ''r1'')) 0 = Inr (Some 0)"
    "find_tool_call_msg_index demo_conv (JStr (u ''e1'')) 0 = Inr (Some 2)"
    by (simp_all add: demo_conv_def tool_call_msg_def tool_result_msg_def message_calls_def calls_id_def)
  then show ?thesis
    by (auto simp: calls_before_results_def demo_conv_def tool_call_msg_def tool_result_msg_def result_ids_def
        less_Suc_eq nth_Cons split: nat.splits)
qed

text \<open>The run of the pass on it, for any store result.\<close>

lemma demo_run:
  assumes "replace_content B sha now demo_cfg st (u ''old file text'') demo_class = Inr (Some (m, h), st1)"
  shows "\<exists>res. apply_reads B sha loads now demo_cfg st demo_conv 0 = Inr (res, st1)
    \<and> res_messages res = [tool_call_msg ''r1'' ''Read'',
         dset (tool_result_msg ''r1'' ''old file text'') ''content''
           (JList [JObj [(u ''type'', JStr (u ''tool_result'')), (u ''tool_use_id'', JStr (u ''r1'')),
              (u ''content'', JStr m)]]),
         tool_call_msg ''e1'' ''Edit'', tool_result_msg ''e1'' ''ok'']
    \<and> ccr_hashes res = (if h \<noteq> [] then [h] else [])"
proof -
  have cfg: "cfg_enabled demo_cfg" by (simp add: demo_cfg_def)
  have rs: "replacements_of [demo_class] = [(JStr (u ''r1''), demo_class)]"
    by (simp add: replacements_of_def demo_class_def)
  show ?thesis using assms
    by (simp add: apply_reads_def cfg demo_meta demo_index demo_classify unfreeze_def apply_lifecycle_def rs)
      (simp add: demo_conv_def tool_call_msg_def tool_result_msg_def lifecycle_message_def
        replace_tool_message_def process_block_def lookup_repl_def note_replacement_def)
qed

lemma demo_run_kept:
  assumes "replace_content B sha now demo_cfg st (u ''old file text'') demo_class = Inr (None, st1)"
  shows "\<exists>res. apply_reads B sha loads now demo_cfg st demo_conv 0 = Inr (res, st1)"
proof -
  have cfg: "cfg_enabled demo_cfg" by (simp add: demo_cfg_def)
  have rs: "replacements_of [demo_class] = [(JStr (u ''r1''), demo_class)]"
    by (simp add: replacements_of_def demo_class_def)
  show ?thesis using assms
    by (simp add: apply_reads_def cfg demo_meta demo_index demo_classify unfreeze_def apply_lifecycle_def rs)
      (simp add: demo_conv_def tool_call_msg_def tool_result_msg_def lifecycle_message_def
        replace_tool_message_def process_block_def lookup_repl_def)
qed

text \<open>A file is read in part, in full, in part again, then edited and read once more.\<close>

definition demo_read :: "nat \<Rightarrow> json \<Rightarrow> json \<Rightarrow> file_operation" where
  "demo_read i off n = \<lparr>op_msg_index = i, op_tool_call_id = JInt (int i), op_tool_name = JStr (u ''Read''),
     op_file_path = u ''b.py'', op_kind = ReadOp, op_content_size = 0, read_offset = off, read_limit = n\<rparr>"

definition demo_index_ops :: "(pystr, file_operation list) odict" where
  "demo_index_ops = demo_ops @ [(u ''b.py'',
     [demo_read 0 (JInt 100) (JInt 50), demo_read 2 JNull JNull, demo_read 4 (JInt 100) (JInt 50),
      demo_read 6 (JInt 90) JNull])]"

definition demo_both :: read_config where
  "demo_both = demo_cfg\<lparr>compress_superseded := True\<rparr>"

theorem classify_reads_sound_complete_witness:
  "\<exists>c0 c1 c2 c3 c4. classify_reads demo_both demo_index_ops = Inr [c0, c1, c2, c3, c4]
     \<and> judged demo_both (u ''b.py'') (snd (demo_index_ops ! 1)) (demo_read 0 (JInt 100) (JInt 50)) c1
     \<and> cl_state c0 = Stale \<and> cl_state c1 = Superseded \<and> cl_state c2 = Fresh \<and> cl_state c3 = Superseded
     \<and> cl_state c4 = Fresh"
proof -
  have p: "\<forall>(path, fops) \<in> set demo_index_ops. \<forall>r \<in> set fops. op_kind r = ReadOp \<longrightarrow> plain_range r"
    by (auto simp: demo_index_ops_def demo_ops_def demo_read_def plain_range_def)
  obtain css where c: "classify_reads demo_both demo_index_ops = Inr (concat css)"
    "list_all2 (\<lambda>(path, fops) cs. list_all2 (judged demo_both path fops) (filter (\<lambda>r. op_kind r = ReadOp) fops) cs) demo_index_ops css"
    using classify_reads_sound_complete [OF p] by blast
  from c(2) obtain c0 c1 c2 c3 c4 where css: "css = [[c0], [c1, c2, c3, c4]]"
    "judged demo_both (u ''b.py'') (snd (demo_index_ops ! 1)) (demo_read 0 (JInt 100) (JInt 50)) c1"
    unfolding demo_index_ops_def demo_ops_def demo_read_def by (auto simp: list_all2_Cons1)
  have "\<exists>cs. classify_reads demo_both demo_index_ops = Inr cs \<and> map cl_state cs = [Stale, Superseded, Fresh, Superseded, Fresh]"
    by (simp add: classify_reads_def classify_file_def classify_read_def demo_index_ops_def demo_ops_def
        demo_read_def demo_both_def demo_cfg_def read_covers_def or_int_def truthy_def)
  with c(1) css show ?thesis by auto
qed

theorem lifecycle_frozen_prefix_witness:
  "\<exists>res st'. apply_reads memory_ops (\<lambda>_. u ''ab'') (\<lambda>_. None) 0 demo_cfg None demo_conv 2 = Inr (res, st')
     \<and> length (res_messages res) = 4 \<and> res_messages res ! 1 = demo_conv ! 1"
proof -
  have "\<exists>res. apply_reads memory_ops (\<lambda>_. u ''ab'') (\<lambda>_. None) 0 demo_cfg None demo_conv 2 = Inr (res, None)"
    by (simp add: apply_reads_def demo_meta demo_index demo_classify apply_lifecycle_def replacements_of_def
        unfreeze_def demo_class_def)
  then obtain res where r: "apply_reads memory_ops (\<lambda>_. u ''ab'') (\<lambda>_. None) 0 demo_cfg None demo_conv 2 = Inr (res, None)"
    by blast
  have l: "length demo_conv = 4" by (simp add: demo_conv_def)
  show ?thesis using lifecycle_frozen_prefix [OF r] demo_calls_before r l by (intro exI [of _ res] exI [of _ None]) simp
qed

definition demo_store0 :: "mem_store cstore" where
  "demo_store0 = new_store memory_ops [] 10 1800 True"

definition demo_sha :: "pystr \<Rightarrow> pystr" where
  "demo_sha t = (if t = u ''old file text'' then u ''ab'' else u ''cd'')"

lemma demo_sha_hex: "hexdigest_ok demo_sha"
  by (simp add: hexdigest_ok_def is_hex_def u_def ascii_lower_def ascii_lower_char_def demo_sha_def)

lemma demo_replace:
  "\<exists>m s'. replace_content memory_ops demo_sha 0 demo_cfg (Some demo_store0) (u ''old file text'') demo_class
     = Inr (Some (m, u ''ab''), Some s')"
proof -
  let ?a = "read_store_args (u ''old file text'') demo_class (take 24 (demo_sha (u ''old file text'')))"
  have inv: "store_inv memory_ops mem_wf demo_store0"
    unfolding demo_store0_def by (rule reachable_store_inv [OF reachable_store.start])
  have t: "take 24 (demo_sha (u ''old file text'')) = u ''ab''" by (simp add: demo_sha_def)
  have nb: "\<not> is_bare_marker (u ''old file text'')" using demo_not_bare by (simp add: demo_texts)
  have key: "hash_key_of demo_sha (a_original ?a) (a_explicit_hash ?a) = Inr (u ''ab'')" "\<not> is_bare_marker (a_original ?a)"
    using read_key [OF demo_sha_hex, of "u ''old file text''" "u ''old file text''"] nb t by (simp_all add: read_store_args_def)
  obtain s' where "store memory_ops demo_sha 0 demo_store0 ?a = (Inr (u ''ab''), s')"
    using mem_store_result [OF inv key, where now = 0] by metis
  then show ?thesis by (simp add: replace_content_def demo_encoded demo_cfg_def t)
qed

theorem lifecycle_markers_resolve_witness:
  "\<exists>res s' t p e s''. apply_reads memory_ops demo_sha (\<lambda>_. None) 0 demo_cfg (Some demo_store0) demo_conv 0
       = Inr (res, Some s')
     \<and> result_texts (res_messages res ! 1) = [t] \<and> t = p @ u ''hash='' @ u ''ab'' @ u '']''
     \<and> retrieve memory_ops 0 s' (u ''ab'') None = (Some e, s'') \<and> original_content e = u ''old file text''"
proof -
  obtain m s1 where rc: "replace_content memory_ops demo_sha 0 demo_cfg (Some demo_store0) (u ''old file text'') demo_class
     = Inr (Some (m, u ''ab''), Some s1)" using demo_replace by blast
  have ne: "m \<noteq> u ''old file text''"
  proof -
    have "m = marker_text demo_class (u ''ab'')"
      using rc by (auto simp: replace_content_def demo_encoded demo_cfg_def Let_def
          split: sum.splits prod.splits if_splits)
    then show ?thesis by (simp add: marker_text_def demo_class_def u_def)
  qed
  from demo_run [OF rc, of "\<lambda>_. None"] obtain res where r:
    "apply_reads memory_ops demo_sha (\<lambda>_. None) 0 demo_cfg (Some demo_store0) demo_conv 0 = Inr (res, Some s1)"
    "ccr_hashes res = [u ''ab'']" "result_texts (res_messages res ! 1) = [m]"
    by (auto simp: tool_result_msg_def result_texts_def)
  have reach: "reachable_store demo_sha demo_store0"
    unfolding demo_store0_def by (rule reachable_store.start)
  have c: "0 \<le> default_ttl demo_store0"
    "int (mem_count (backend demo_store0)) + int (length (concat (map result_texts demo_conv))) \<le> max_entries demo_store0"
    by (simp_all add: demo_texts demo_store0_def new_store_def mem_defs del: map_concat)
  have inj: "inj_on (\<lambda>x. take 24 (demo_sha x)) (set (concat (map result_texts demo_conv)))"
    unfolding demo_texts by (simp add: demo_sha_def u_def)
  have l: "1 < length demo_conv" "result_texts (demo_conv ! 1) = [u ''old file text'']"
    by (simp_all add: demo_conv_def tool_result_msg_def result_texts_def)
  have one: "list_all2 P xs ys \<Longrightarrow> 1 < length xs \<Longrightarrow> P (xs ! 1) (ys ! 1)" for P :: "message \<Rightarrow> message \<Rightarrow> bool" and xs ys
    by (erule list_all2_nthD)
  obtain p h e s'' where "m = p @ u ''hash='' @ h @ u '']''" "h \<in> set (ccr_hashes res)"
      "retrieve memory_ops 0 s1 h None = (Some e, s'')" "original_content e = u ''old file text''"
    using one [OF conjunct1 [OF lifecycle_markers_resolve [OF r(1) reach demo_sha_hex c demo_not_bare, of None, simplified option.inject ex_simps simp_thms]] l(1)]
      l(2) inj ne r(3) by auto
  with r show ?thesis by auto
qed

theorem lifecycle_refused_keeps_all_witness:
  "\<exists>res st'. apply_reads (memory_ops\<lparr>b_set := \<lambda>b k e. (b, Some False)\<rparr>) (\<lambda>_. u ''ab'') (\<lambda>_. None) 0 demo_cfg
       (Some demo_store0) demo_conv 0 = Inr (res, st') \<and> res_messages res = demo_conv"
proof -
  let ?B = "memory_ops\<lparr>b_set := \<lambda>b k e. (b, Some False)\<rparr>"
  have ref: "\<forall>b k e. snd (b_set ?B b k e) = Some False" by simp
  have nb: "\<not> is_bare_marker (u ''old file text'')" using demo_not_bare by (simp add: demo_texts)
  obtain q s1 where "store ?B (\<lambda>_. u ''ab'') 0 demo_store0 (read_store_args (u ''old file text'') demo_class (u ''ab'')) = (q, s1)"
    by fastforce
  then obtain r st1 where rc: "replace_content ?B (\<lambda>_. u ''ab'') 0 demo_cfg (Some demo_store0) (u ''old file text'') demo_class = Inr (r, st1)"
    by (cases q) (simp_all add: replace_content_def demo_encoded demo_cfg_def)
  have "r = None" using replace_content_refused [OF rc ref demo_hex nb] by simp
  from demo_run_kept [OF rc [unfolded this]] obtain res where
    "apply_reads ?B (\<lambda>_. u ''ab'') (\<lambda>_. None) 0 demo_cfg (Some demo_store0) demo_conv 0 = Inr (res, st1)" by blast
  with lifecycle_refused_keeps_all [OF ref demo_hex this demo_not_bare] show ?thesis by blast
qed

theorem bare_marker_dangles_witness:
  "\<exists>m. replace_content memory_ops (\<lambda>_. u ''ab'') 0 demo_cfg (Some demo_store0) (u ''<<ccr:0123456789>>'') demo_class =
    Inr (Some (m, take 24 (u ''ab'')), Some demo_store0)"
proof -
  have "is_bare_marker (u ''<<ccr:0123456789>>'')"
    by (simp add: is_bare_marker_def Let_def strip_def lstrip_def rstrip_def py_isspace_def startswith_def endswith_def u_def)
  moreover have "encoded_len (u ''<<ccr:0123456789>>'') = Some 18"
    by (simp add: encoded_len_def is_surrogate_def u_def utf8_width_def)
  ultimately show ?thesis
    using bare_marker_dangles [of "u ''<<ccr:0123456789>>''" 18 demo_cfg "\<lambda>_. u ''ab''" memory_ops 0 demo_store0 demo_class] demo_hex
    by (intro exI) (simp add: demo_cfg_def)
qed

end
