(* ===== verification/Session_Lru.thy ===== *)
theory Session_Lru
  imports Prelude
begin

text \<open>
  The bounded per-session table that \<open>SessionCcrTracker\<close>, \<open>SessionToolTracker\<close> and
  \<open>SessionBetaTracker\<close> share: an \<open>OrderedDict\<close> keyed by (provider, session id) in which
  every access moves the key to the end and an insertion beyond \<open>max_sessions\<close> drops the oldest
  keys.

  \<^item> The locale \<open>session_lru\<close> states the contract of such a table: \<open>visit k a\<close> is one call
    for session \<open>k\<close>, \<open>upd a\<close> is what the call means for the session alone, and
    \<open>newer s k\<close> are the keys used since \<open>k\<close> was. It proves that, as long as fewer than
    \<open>cap\<close> other sessions are active, the shared table behaves as if each session had its own
    state.
  \<^item> \<open>read_entry\<close> and \<open>write_entry\<close> are the two access patterns of the trackers, with the
    lemmas that discharge the contract.
\<close>

section \<open>The contract\<close>

locale session_lru =
  fixes visit :: "'k \<Rightarrow> 'a \<Rightarrow> 's \<Rightarrow> 's"
    and val :: "'s \<Rightarrow> 'k \<Rightarrow> 'v option"
    and upd :: "'k \<Rightarrow> 'a \<Rightarrow> 'v option \<Rightarrow> 'v option"
    and newer :: "'s \<Rightarrow> 'k \<Rightarrow> 'k set"
    and cap :: "'s \<Rightarrow> nat"
    and ok :: "'s \<Rightarrow> bool"
    and valid :: "'k \<Rightarrow> bool"
  assumes ok_visit: "ok s \<Longrightarrow> ok (visit k a s)"
    and cap_visit: "ok s \<Longrightarrow> cap (visit k a s) = cap s"
    and val_own: "ok s \<Longrightarrow> valid k \<Longrightarrow> val (visit k a s) k = upd k a (val s k)"
    and newer_own: "ok s \<Longrightarrow> valid k \<Longrightarrow> newer (visit k a s) k \<subseteq> newer s k"
    and upd_keeps: "upd k a (Some v) \<noteq> None"
    and newer_none: "val s k = None \<Longrightarrow> newer s k = {}"
    and none_other: "ok s \<Longrightarrow> k' \<noteq> k \<Longrightarrow> val s k = None \<Longrightarrow> val (visit k' a s) k = None"
    and val_other: "ok s \<Longrightarrow> k' \<noteq> k \<Longrightarrow> val s k \<noteq> None \<Longrightarrow> card (insert k' (newer s k)) < cap s
      \<Longrightarrow> val (visit k' a s) k = val s k \<and> newer (visit k' a s) k \<subseteq> insert k' (newer s k)"
begin

definition run :: "('k \<times> 'a) list \<Rightarrow> 's \<Rightarrow> 's" where
  "run calls s = fold (\<lambda>(k, a). visit k a) calls s"

lemma run_simps [simp]: "run [] s = s" "run ((k, a) # calls) s = run calls (visit k a s)"
  by (simp_all add: run_def)

lemma ok_run: "ok s \<Longrightarrow> ok (run calls s)"
  by (induction calls arbitrary: s) (auto simp: ok_visit)

lemma cap_run: "ok s \<Longrightarrow> cap (run calls s) = cap s"
  by (induction calls arbitrary: s) (auto simp: ok_visit cap_visit)

text \<open>What the calls of one session mean for that session alone.\<close>

definition own :: "'k \<Rightarrow> ('k \<times> 'a) list \<Rightarrow> 'v option \<Rightarrow> 'v option" where
  "own k calls v = fold (\<lambda>(k', a) v. if k' = k then upd k a v else v) calls v"

lemma own_simps [simp]:
  "own k [] v = v" "own k ((k', a) # calls) v = own k calls (if k' = k then upd k a v else v)"
  by (simp_all add: own_def)

lemma own_invariant:
  assumes "\<And>a v. P v \<Longrightarrow> P (upd k a v)" and "P v"
  shows "P (own k calls v)"
  using assms(2)
proof (induction calls arbitrary: v)
  case (Cons c calls)
  then show ?case using assms(1) by (cases c) simp
qed simp

text \<open>One call of another session, when the sessions used since \<open>k\<close> stay within a set of fewer
  than \<open>cap\<close> keys.\<close>

lemma other_step:
  assumes "ok s" and "k' \<noteq> k" and "finite K" and "insert k' (newer s k) \<subseteq> K" and "card K < cap s"
  shows "val (visit k' a s) k = val s k \<and> newer (visit k' a s) k \<subseteq> K"
proof (cases "val s k = None")
  case True
  then show ?thesis using none_other [OF assms(1,2) True, of a] newer_none by simp
next
  case False
  have "card (insert k' (newer s k)) < cap s" using card_mono [OF assms(3,4)] assms(5) by simp
  from val_other [OF assms(1,2) False this, of a] show ?thesis using assms(4) by blast
qed

text \<open>What a session observes of its entry, call by call: \<open>f\<close> at each of its calls. While fewer
  than \<open>cap\<close> other sessions are active, it observes what it would observe alone.\<close>

fun outs :: "('a \<Rightarrow> 'v option \<Rightarrow> 'o) \<Rightarrow> 'k \<Rightarrow> ('k \<times> 'a) list \<Rightarrow> 's \<Rightarrow> 'o list" where
  "outs f k [] s = []"
| "outs f k ((k', a) # calls) s =
     (if k' = k then [f a (val s k)] else []) @ outs f k calls (visit k' a s)"

fun own_outs :: "('a \<Rightarrow> 'v option \<Rightarrow> 'o) \<Rightarrow> 'k \<Rightarrow> ('k \<times> 'a) list \<Rightarrow> 'v option \<Rightarrow> 'o list" where
  "own_outs f k [] v = []"
| "own_outs f k ((k', a) # calls) v =
     (if k' = k then f a v # own_outs f k calls (upd k a v) else own_outs f k calls v)"

lemma isolated_aux:
  assumes "ok s" and "valid k" and "finite K" and "newer s k \<subseteq> K"
    and "fst ` set calls - {k} \<subseteq> K" and "card K < cap s"
  shows "val (run calls s) k = own k calls (val s k) \<and> newer (run calls s) k \<subseteq> K
    \<and> outs f k calls s = own_outs f k calls (val s k)"
  using assms(1,4-6)
proof (induction calls arbitrary: s)
  case (Cons c calls)
  obtain k' a where c: "c = (k', a)" by (cases c)
  have calls: "fst ` set calls - {k} \<subseteq> K" using Cons.prems(3) by auto
  show ?case
  proof (cases "k' = k")
    case True
    have n: "val (visit k a s) k = upd k a (val s k)" by (rule val_own [OF Cons.prems(1) assms(2)])
    have "val (run calls (visit k a s)) k = own k calls (val (visit k a s) k)
        \<and> newer (run calls (visit k a s)) k \<subseteq> K
        \<and> outs f k calls (visit k a s) = own_outs f k calls (val (visit k a s) k)"
      using newer_own [OF Cons.prems(1) assms(2), of a] Cons.prems calls
      by (intro Cons.IH) (auto simp: cap_visit ok_visit)
    then show ?thesis by (simp add: c True n)
  next
    case False
    have sub: "insert k' (newer s k) \<subseteq> K" using Cons.prems(2,3) False by (auto simp: c)
    from other_step [OF Cons.prems(1) False assms(3) sub Cons.prems(4), of a]
    show ?thesis
      using Cons.IH [of "visit k' a s"] Cons.prems calls False by (simp add: c cap_visit ok_visit)
  qed
qed simp

lemma isolated:
  assumes "ok s" and "valid k" and "newer s k = {}" and "card (fst ` set calls - {k}) < cap s"
  shows "val (run calls s) k = own k calls (val s k)"
    and "outs f k calls s = own_outs f k calls (val s k)"
  using isolated_aux [of s k "fst ` set calls - {k}" calls f] assms by simp_all

text \<open>The same from the middle of a run on.\<close>

lemma isolated_suffix:
  assumes "ok s" and "valid k" and "newer s k = {}" and "card (fst ` set (xs @ ys) - {k}) < cap s"
  shows "outs f k ys (run xs s) = own_outs f k ys (own k xs (val s k))"
proof -
  let ?K = "fst ` set (xs @ ys) - {k}"
  have x: "val (run xs s) k = own k xs (val s k)" "newer (run xs s) k \<subseteq> ?K"
    using isolated_aux [of s k ?K xs f] assms by auto
  have "outs f k ys (run xs s) = own_outs f k ys (val (run xs s) k)"
    using isolated_aux [of "run xs s" k ?K ys f] assms x(2)
    by (auto simp: ok_run cap_run)
  then show ?thesis by (simp add: x)
qed

text \<open>So what a session's own calls keep true of its entry stays true under any such traffic.\<close>

lemma sticky:
  assumes "ok s" and "valid k" and "Q (val s k)" and "newer s k = {}"
    and "card (fst ` set calls - {k}) < cap s" and "\<And>a v. Q v \<Longrightarrow> Q (upd k a v)"
  shows "Q (val (run calls s) k)"
  using isolated(1) [OF assms(1,2,4,5)] own_invariant [of Q k, OF assms(6,3)] by simp

end

section \<open>Reading and writing one entry\<close>

record ('k, 'v) tracker =
  tr_max_sessions :: nat
  tr_sessions :: "('k, 'v) odict"

definition tracker_ok :: "('k, 'v) tracker \<Rightarrow> bool" where
  "tracker_ok t \<longleftrightarrow> 0 < tr_max_sessions t \<and> distinct (map fst (tr_sessions t))
     \<and> length (tr_sessions t) \<le> tr_max_sessions t"

definition entry_at :: "('k, 'v) tracker \<Rightarrow> 'k \<Rightarrow> 'v option" where
  "entry_at t k = map_of (tr_sessions t) k"

text \<open>A hit moves the key to the end; a miss changes nothing.\<close>

definition read_entry :: "'k \<Rightarrow> ('k, 'v) tracker \<Rightarrow> ('k, 'v) tracker" where
  "read_entry k t = t\<lparr>tr_sessions := move_to_end k (tr_sessions t)\<rparr>"

text \<open>\<open>d[k] = v; d.move_to_end(k); while len(d) > max_sessions: d.popitem(last=False)\<close>.\<close>

definition write_entry :: "'k \<Rightarrow> 'v \<Rightarrow> ('k, 'v) tracker \<Rightarrow> ('k, 'v) tracker" where
  "write_entry k v t = t\<lparr>tr_sessions :=
     trim_oldest (tr_max_sessions t) (move_to_end k (AList.update k v (tr_sessions t)))\<rparr>"

text \<open>The keys behind \<open>k\<close> in the order, that is, used after it.\<close>

definition newer_keys :: "('k, 'v) tracker \<Rightarrow> 'k \<Rightarrow> 'k set" where
  "newer_keys t k = set (tl (dropWhile (\<lambda>k'. k' \<noteq> k) (map fst (tr_sessions t))))"

lemma finite_newer_keys [simp]: "finite (newer_keys t k)"
  by (simp add: newer_keys_def)

lemma delete_as_filter: "AList.delete k d = filter (\<lambda>p. fst p \<noteq> k) d"
  by (simp add: AList.delete_eq case_prod_unfold eq_commute)

lemma update_absent_key: "k \<notin> fst ` set d \<Longrightarrow> AList.update k v d = d @ [(k, v)]"
  by (induction d) auto

lemma update_to_end:
  "distinct (map fst d) \<Longrightarrow> move_to_end k (AList.update k v d) = AList.delete k d @ [(k, v)]"
  by (auto simp: move_to_end_def update_conv' delete_as_filter)
    (induction d; auto simp: delete_as_filter intro: filter_True [symmetric])

text \<open>Both accesses put the key at the end.\<close>

lemma move_to_end_present:
  "map_of d k = Some v \<Longrightarrow> move_to_end k d = AList.delete k d @ [(k, v)]"
  by (simp add: move_to_end_def)

lemma write_entry_sessions:
  assumes "tracker_ok t"
  shows "tr_sessions (write_entry k v t)
    = trim_oldest (tr_max_sessions t) (AList.delete k (tr_sessions t) @ [(k, v)])"
  using assms by (simp add: write_entry_def tracker_ok_def update_to_end)

lemma tracker_simps [simp]:
  "tr_max_sessions (read_entry k t) = tr_max_sessions t"
  "tr_max_sessions (write_entry k v t) = tr_max_sessions t"
  by (simp_all add: read_entry_def write_entry_def)

lemma entry_at_read [simp]: "entry_at (read_entry k t) k' = entry_at t k'"
  by (simp add: entry_at_def read_entry_def)

lemma tracker_ok_read [inv_intros]: "tracker_ok t \<Longrightarrow> tracker_ok (read_entry k t)"
  by (auto simp: tracker_ok_def read_entry_def)

lemma tracker_ok_write [inv_intros]: "tracker_ok t \<Longrightarrow> tracker_ok (write_entry k v t)"
  by (auto simp: tracker_ok_def write_entry_def)

lemma map_of_trim_last:
  assumes "distinct (map fst d)" and "k \<notin> fst ` set d" and "0 < n"
  shows "map_of (trim_oldest n (d @ [(k, v)])) k = Some v"
proof -
  have "distinct (map fst (trim_oldest n (d @ [(k, v)])))"
    by (rule distinct_trim_oldest) (use assms in auto)
  moreover have "(k, v) \<in> set (trim_oldest n (d @ [(k, v)]))"
    by (rule trim_oldest_last [OF assms(3)])
  ultimately show ?thesis by (simp add: map_of_is_SomeI)
qed

lemma entry_at_write [simp]:
  assumes "tracker_ok t"
  shows "entry_at (write_entry k v t) k = Some v"
  using assms
  by (simp add: entry_at_def write_entry_sessions map_of_trim_last delete_notin_dom tracker_ok_def
      distinct_delete)

lemma newer_at_end: "k \<notin> fst ` set d \<Longrightarrow> tl (dropWhile (\<lambda>k'. k' \<noteq> k) (map fst (d @ [(k, v)]))) = []"
proof -
  assume "k \<notin> fst ` set d"
  then have "dropWhile (\<lambda>k'. k' \<noteq> k) (map fst d @ [k]) = [k]"
    by (subst dropWhile_append2) auto
  then show ?thesis by simp
qed

lemma newer_read_own:
  assumes "tracker_ok t" and "entry_at t k \<noteq> None"
  shows "newer_keys (read_entry k t) k = {}"
proof -
  obtain v where "map_of (tr_sessions t) k = Some v" using assms(2) by (auto simp: entry_at_def)
  then show ?thesis
    using newer_at_end [of k "AList.delete k (tr_sessions t)" v]
    by (simp add: newer_keys_def read_entry_def move_to_end_present delete_notin_dom)
qed

lemma newer_write_own:
  assumes "tracker_ok t"
  shows "newer_keys (write_entry k v t) k = {}"
proof -
  let ?d = "AList.delete k (tr_sessions t)"
  obtain d where d: "trim_oldest (tr_max_sessions t) (?d @ [(k, v)]) = d @ [(k, v)]"
    and sub: "set d \<subseteq> set ?d"
  proof
    let ?n = "Suc (length ?d) - tr_max_sessions t"
    have "?n \<le> length ?d" using assms unfolding tracker_ok_def by arith
    then show "trim_oldest (tr_max_sessions t) (?d @ [(k, v)]) = drop ?n ?d @ [(k, v)]"
      by (simp add: trim_oldest_drop)
    show "set (drop ?n ?d) \<subseteq> set ?d" by (rule set_drop_subset)
  qed
  have "k \<notin> fst ` set d" using sub delete_notin_dom [of k "tr_sessions t"] by auto
  from newer_at_end [OF this, of v] show ?thesis
    unfolding newer_keys_def write_entry_sessions [OF assms] d by simp
qed

text \<open>The effect of an access to another key on the position of \<open>k\<close>: split the order at
  \<open>k\<close>.\<close>

lemma newer_split:
  assumes "distinct (map fst (xs @ (k, v) # ys))"
  shows "set (tl (dropWhile (\<lambda>k'. k' \<noteq> k) (map fst (xs @ (k, v) # ys)))) = fst ` set ys"
proof -
  have "dropWhile (\<lambda>k'. k' \<noteq> k) (map fst xs @ k # map fst ys) = k # map fst ys"
    using assms by (subst dropWhile_append2) auto
  then show ?thesis by simp
qed

lemma delete_other_split:
  "k' \<noteq> k \<Longrightarrow> AList.delete k' (xs @ (k, v) # ys) = AList.delete k' xs @ (k, v) # AList.delete k' ys"
  by (simp add: delete_as_filter)

lemma access_other:
  assumes ok: "tracker_ok t" and ne: "k' \<noteq> k" and at: "entry_at t k = Some w"
    and room: "card (insert k' (newer_keys t k)) < n" and n: "n = tr_max_sessions t"
  shows "entry_at (t\<lparr>tr_sessions := trim_oldest n (AList.delete k' (tr_sessions t) @ [(k', v)])\<rparr>) k = Some w
    \<and> newer_keys (t\<lparr>tr_sessions := trim_oldest n (AList.delete k' (tr_sessions t) @ [(k', v)])\<rparr>) k
        \<subseteq> insert k' (newer_keys t k)"
proof -
  have "(k, w) \<in> set (tr_sessions t)" using at by (simp add: entry_at_def map_of_SomeD)
  then obtain xs ys where s: "tr_sessions t = xs @ (k, w) # ys" by (meson split_list)
  have dist: "distinct (map fst (xs @ (k, w) # ys))" using ok by (simp add: tracker_ok_def s)
  define zs where "zs = AList.delete k' ys @ [(k', v)]"
  have new: "newer_keys t k = fst ` set ys"
    unfolding newer_keys_def s by (rule newer_split [OF dist])
  have ez: "fst ` set zs \<subseteq> insert k' (newer_keys t k)"
    by (auto simp: zs_def new delete_as_filter)
  have dz: "distinct (map fst zs)"
    using dist delete_notin_dom [of k' ys] by (auto simp: zs_def intro: distinct_delete)
  have "length zs = card (fst ` set zs)" using distinct_card [OF dz] by simp
  also have "\<dots> \<le> card (insert k' (newer_keys t k))" by (rule card_mono [OF _ ez]) simp
  finally have len: "length zs < n" using room by simp
  have full: "AList.delete k' (tr_sessions t) @ [(k', v)] = AList.delete k' xs @ (k, w) # zs"
    using ne by (simp add: s delete_other_split zs_def)
  define xs' where "xs' = drop (length (AList.delete k' xs) + Suc (length zs) - n) (AList.delete k' xs)"
  have trim: "trim_oldest n (AList.delete k' (tr_sessions t) @ [(k', v)]) = xs' @ (k, w) # zs"
    using len by (simp add: full trim_oldest_drop xs'_def)
  have dd: "distinct (map fst (xs' @ (k, w) # zs))"
    unfolding trim [symmetric]
    by (rule distinct_trim_oldest) (use dist delete_notin_dom [of k' "tr_sessions t"] in
        \<open>auto simp: s intro: distinct_delete\<close>)
  have "map_of (xs' @ (k, w) # zs) k = Some w" by (rule map_of_is_SomeI [OF dd]) simp
  then show ?thesis
    using ez newer_split [OF dd] by (simp add: entry_at_def newer_keys_def trim)
qed

lemma write_other:
  assumes "tracker_ok t" and "k' \<noteq> k" and "entry_at t k \<noteq> None"
    and "card (insert k' (newer_keys t k)) < tr_max_sessions t"
  shows "entry_at (write_entry k' v t) k = entry_at t k
    \<and> newer_keys (write_entry k' v t) k \<subseteq> insert k' (newer_keys t k)"
proof -
  obtain w where w: "entry_at t k = Some w" using assms(3) by auto
  have "write_entry k' v t
      = t\<lparr>tr_sessions := trim_oldest (tr_max_sessions t) (AList.delete k' (tr_sessions t) @ [(k', v)])\<rparr>"
    using assms(1) by (simp add: write_entry_def update_to_end tracker_ok_def)
  then show ?thesis using access_other [OF assms(1,2) w assms(4) refl, of v] w by simp
qed

lemma read_other:
  assumes "tracker_ok t" and "k' \<noteq> k" and "entry_at t k \<noteq> None"
    and "card (insert k' (newer_keys t k)) < tr_max_sessions t"
  shows "newer_keys (read_entry k' t) k \<subseteq> insert k' (newer_keys t k)"
proof (cases "map_of (tr_sessions t) k'")
  case None
  then show ?thesis by (auto simp: read_entry_def move_to_end_def)
next
  case (Some v)
  obtain w where w: "entry_at t k = Some w" using assms(3) by auto
  have "length (AList.delete k' (tr_sessions t) @ [(k', v)]) \<le> tr_max_sessions t"
    using length_delete_present [OF _ Some] assms(1) by (simp add: tracker_ok_def)
  then have "read_entry k' t
      = t\<lparr>tr_sessions := trim_oldest (tr_max_sessions t) (AList.delete k' (tr_sessions t) @ [(k', v)])\<rparr>"
    by (simp add: read_entry_def move_to_end_present [OF Some])
  then show ?thesis using access_other [OF assms(1,2) w assms(4) refl, of v] by simp
qed

section \<open>Calls as accesses\<close>

text \<open>A call looks at the session's entry and then leaves the table alone, touches the entry or
  writes it. \<open>act_on\<close> is its effect on the table, \<open>entry_after\<close> its effect on the entry; a
  call that raises changes nothing.\<close>

datatype 'v access = Keep | Touch | Put 'v

fun perform :: "'k \<Rightarrow> 'v access \<Rightarrow> ('k, 'v) tracker \<Rightarrow> ('k, 'v) tracker" where
  "perform k Keep t = t"
| "perform k Touch t = read_entry k t"
| "perform k (Put v) t = write_entry k v t"

definition act_on :: "'k \<Rightarrow> 'e + 'o \<times> 'v access \<Rightarrow> ('k, 'v) tracker \<Rightarrow> ('k, 'v) tracker" where
  "act_on k d t = (case d of Inl _ \<Rightarrow> t | Inr (_, acc) \<Rightarrow> perform k acc t)"

definition entry_after :: "'e + 'o \<times> 'v access \<Rightarrow> 'v option \<Rightarrow> 'v option" where
  "entry_after d v = (case d of Inr (_, Put w) \<Rightarrow> Some w | _ \<Rightarrow> v)"

text \<open>The table invariant, with a condition on every entry.\<close>

definition entries_ok :: "('v \<Rightarrow> bool) \<Rightarrow> ('k, 'v) tracker \<Rightarrow> bool" where
  "entries_ok P t \<longleftrightarrow> tracker_ok t \<and> (\<forall>k v. entry_at t k = Some v \<longrightarrow> P v)"

lemma entries_okD: "entries_ok P t \<Longrightarrow> tracker_ok t"
  "entries_ok P t \<Longrightarrow> entry_at t k = Some v \<Longrightarrow> P v"
  unfolding entries_ok_def by blast+

lemma entry_at_write_in:
  assumes "tracker_ok t" and "entry_at (write_entry k v t) k' = Some w"
  shows "w = v \<or> entry_at t k' = Some w"
proof -
  have d: "distinct (map fst (tr_sessions t))" using assms(1) by (simp add: tracker_ok_def)
  have "(k', w) \<in> set (tr_sessions (write_entry k v t))"
    using assms(2) by (simp add: entry_at_def map_of_SomeD)
  then have "(k', w) \<in> set (AList.delete k (tr_sessions t) @ [(k, v)])"
    unfolding write_entry_sessions [OF assms(1)] using set_trim_oldest by (metis subsetD)
  then show ?thesis by (auto simp: delete_as_filter entry_at_def d)
qed

lemma entries_ok_perform:
  assumes "entries_ok P t" and "\<And>v. acc = Put v \<Longrightarrow> P v"
  shows "entries_ok P (perform k acc t)"
proof (cases acc)
  case (Put v)
  have "P w" if "entry_at (write_entry k v t) k' = Some w" for k' w
    using entry_at_write_in [OF entries_okD(1) [OF assms(1)] that] assms(2) [OF Put]
      entries_okD(2) [OF assms(1)] by blast
  then show ?thesis
    using entries_okD(1) [OF assms(1)] by (simp add: entries_ok_def Put tracker_ok_write)
qed (use assms in \<open>auto simp: entries_ok_def intro: tracker_ok_read\<close>)

lemma perform_max [simp]: "tr_max_sessions (perform k acc t) = tr_max_sessions t"
  by (cases acc) simp_all

lemma entry_perform_own:
  "tracker_ok t \<Longrightarrow> entry_at (perform k acc t) k = (case acc of Put v \<Rightarrow> Some v | _ \<Rightarrow> entry_at t k)"
  by (cases acc) simp_all

lemma newer_absent: "entry_at t k = None \<Longrightarrow> newer_keys t k = {}"
proof -
  assume "entry_at t k = None"
  then have "\<forall>k' \<in> set (map fst (tr_sessions t)). k' \<noteq> k"
    by (auto simp: entry_at_def map_of_eq_None_iff)
  then have "dropWhile (\<lambda>k'. k' \<noteq> k) (map fst (tr_sessions t)) = []"
    by (simp only: dropWhile_eq_Nil_conv)
  then show ?thesis unfolding newer_keys_def by (metis list.sel(2) list.set(1))
qed

lemma newer_perform_own: "tracker_ok t \<Longrightarrow> newer_keys (perform k acc t) k \<subseteq> newer_keys t k"
  by (cases acc; cases "entry_at t k = None") (simp_all add: newer_absent newer_read_own newer_write_own)

lemma write_absent:
  assumes "tracker_ok t" and "k' \<noteq> k" and "entry_at t k = None"
  shows "entry_at (write_entry k' v t) k = None"
proof (rule ccontr)
  assume "entry_at (write_entry k' v t) k \<noteq> None"
  then have "k \<in> fst ` set (tr_sessions (write_entry k' v t))"
    by (simp add: entry_at_def map_of_eq_None_iff)
  then have "k \<in> fst ` set (AList.delete k' (tr_sessions t) @ [(k', v)])"
    unfolding write_entry_sessions [OF assms(1)] using set_trim_oldest by (metis image_mono subsetD)
  then have "k \<in> fst ` set (tr_sessions t)" using assms(2) by (auto simp: delete_as_filter)
  then show False using assms(3) by (simp add: entry_at_def map_of_eq_None_iff)
qed

lemma perform_absent:
  assumes "tracker_ok t" and "k' \<noteq> k" and "entry_at t k = None"
  shows "entry_at (perform k' acc t) k = None"
  using assms by (cases acc) (simp_all add: write_absent)

lemma perform_other:
  assumes "tracker_ok t" and "k' \<noteq> k" and "entry_at t k \<noteq> None"
    and "card (insert k' (newer_keys t k)) < tr_max_sessions t"
  shows "entry_at (perform k' acc t) k = entry_at t k
    \<and> newer_keys (perform k' acc t) k \<subseteq> insert k' (newer_keys t k)"
  using assms by (cases acc) (auto dest: read_other write_other)

text \<open>A component whose calls are such accesses, seen through an abstraction to a tracker, meets the
  contract.\<close>

lemma session_lru_viewI:
  assumes ok: "\<And>s. ok s \<Longrightarrow> entries_ok P (view s)"
    and keep: "\<And>k a s. ok s \<Longrightarrow> ok (visit k a s)"
    and visit: "\<And>k a s. ok s \<Longrightarrow> view (visit k a s)
        = (if valid k then act_on k (decide k a (entry_at (view s) k)) (view s) else view s)"
  shows "session_lru visit (\<lambda>s. entry_at (view s)) (\<lambda>k a v. entry_after (decide k a v) v)
    (\<lambda>s. newer_keys (view s)) (\<lambda>s. tr_max_sessions (view s)) ok valid"
proof
  fix s k a
  assume s: "ok s"
  note tok = entries_okD(1) [OF ok [OF s]]
  let ?d = "decide k a (entry_at (view s) k)"
  show "ok (visit k a s)" by (rule keep [OF s])
  show "tr_max_sessions (view (visit k a s)) = tr_max_sessions (view s)"
    by (auto simp: visit [OF s] act_on_def split: sum.splits)
  assume "valid k"
  then have v: "view (visit k a s) = act_on k ?d (view s)" by (simp add: visit [OF s])
  show "entry_at (view (visit k a s)) k = entry_after ?d (entry_at (view s) k)"
    unfolding v using tok
    by (auto simp: act_on_def entry_after_def entry_perform_own split: sum.splits access.splits)
  show "newer_keys (view (visit k a s)) k \<subseteq> newer_keys (view s) k"
    unfolding v using newer_perform_own [OF tok] by (auto simp: act_on_def split: sum.splits)
next
  fix k a v
  show "entry_after (decide k a (Some v)) (Some v) \<noteq> None"
    by (auto simp: entry_after_def split: sum.splits access.splits)
next
  fix s k
  show "entry_at (view s) k = None \<Longrightarrow> newer_keys (view s) k = {}" by (rule newer_absent)
next
  fix s k k' a
  assume s: "ok s" and ne: "k' \<noteq> k" and none: "entry_at (view s) k = None"
  then show "entry_at (view (visit k' a s)) k = None"
    using perform_absent [OF entries_okD(1) [OF ok [OF s]] ne none]
    by (auto simp: visit [OF s] act_on_def split: sum.splits)
next
  fix s k k' a
  assume s: "ok s" and ne: "k' \<noteq> k" and at: "entry_at (view s) k \<noteq> None"
    and room: "card (insert k' (newer_keys (view s) k)) < tr_max_sessions (view s)"
  show "entry_at (view (visit k' a s)) k = entry_at (view s) k
      \<and> newer_keys (view (visit k' a s)) k \<subseteq> insert k' (newer_keys (view s) k)"
    using perform_other [OF entries_okD(1) [OF ok [OF s]] ne at room]
    by (auto simp: visit [OF s] act_on_def split: sum.splits)
qed

lemma session_lruI:
  fixes visit :: "'k \<Rightarrow> 'a \<Rightarrow> ('k, 'v) tracker \<Rightarrow> ('k, 'v) tracker"
  assumes visit: "\<And>k a t. entries_ok P t \<Longrightarrow>
      visit k a t = (if valid k then act_on k (decide k a (entry_at t k)) t else t)"
    and put: "\<And>k a v out w. decide k a v = Inr (out, Put w) \<Longrightarrow> pred_option P v \<Longrightarrow> P w"
  shows "session_lru visit entry_at (\<lambda>k a v. entry_after (decide k a v) v) newer_keys tr_max_sessions
    (entries_ok P) valid"
proof (rule session_lru_viewI [where view = "\<lambda>t. t" and P = P])
  fix k a and t :: "('k, 'v) tracker"
  assume ok: "entries_ok P t"
  have P: "pred_option P (entry_at t k)"
    using entries_okD(2) [OF ok] by (cases "entry_at t k") auto
  show "entries_ok P (visit k a t)"
    by (auto simp: visit [OF ok] act_on_def ok split: sum.splits
        intro!: entries_ok_perform put [OF _ P])
qed (simp_all add: visit)

end
