(* ===== verification/Session_Sticky.thy ===== *)
theory Session_Sticky
  imports Session_Lru Json Py_Text
begin

text \<open>
  What the proxy keeps stable across the requests of a session, so that the provider's prompt
  cache stays warm: the retrieval tool and the memory tools it adds to \<open>tools\<close>, and the beta
  header tokens (\<open>proxy/ccr_session_tracker.py\<close>, \<open>proxy/tool_injection_tracker.py\<close>,
  \<open>proxy/tool_injection_policy.py\<close>, \<open>proxy/beta_header_merge.py\<close>,
  \<open>proxy/beta_header_policy.py\<close>, the sticky section of \<open>proxy/helpers.py\<close>,
  \<open>create_ccr_tool_definition\<close> and \<open>client_retrieval_tool_name\<close>).

  The process-wide tracker singletons are arguments and results. What the code reads from outside
  is the record \<open>py_env\<close>: the environment variables, \<open>str.lower\<close> (Unicode case mapping),
  and \<open>json.dumps(...).encode("utf-8")\<close> / \<open>json.loads\<close> on a tool definition. Logging is
  left out.
\<close>

section \<open>Environment\<close>

type_synonym bytes = "nat list"

record py_env =
  lower_of :: "pystr \<Rightarrow> pystr"
  dumps_of :: "pydict \<Rightarrow> bytes"
  loads_of :: "bytes \<Rightarrow> pydict option"
  env_tool_sticky :: "pystr option"
  env_ccr_injection :: "pystr option"
  env_beta_sticky :: "pystr option"

datatype sticky_mode = Enabled | Disabled
datatype ccr_mode = Eager | Lazy

text \<open>\<open>(raw or "").strip()\<close>.\<close>

definition raw_strip :: "pystr option \<Rightarrow> pystr" where
  "raw_strip raw = strip (case raw of None \<Rightarrow> [] | Some s \<Rightarrow> s)"

definition resolve_sticky_mode :: "(pystr \<Rightarrow> pystr) \<Rightarrow> pystr option \<Rightarrow> py_error + sticky_mode" where
  "resolve_sticky_mode low raw =
     (let n = low (raw_strip raw) in
      if n = [] then Inr Enabled
      else if n = u ''enabled'' then Inr Enabled
      else if n = u ''disabled'' then Inr Disabled
      else Inl PyValueError)"

definition resolve_tool_injection_sticky_mode :: "(pystr \<Rightarrow> pystr) \<Rightarrow> pystr option \<Rightarrow> py_error + sticky_mode" where
  "resolve_tool_injection_sticky_mode low raw = resolve_sticky_mode low raw"

definition resolve_beta_header_sticky_mode :: "(pystr \<Rightarrow> pystr) \<Rightarrow> pystr option \<Rightarrow> py_error + sticky_mode" where
  "resolve_beta_header_sticky_mode low raw = resolve_sticky_mode low raw"

definition resolve_ccr_tool_injection_mode :: "(pystr \<Rightarrow> pystr) \<Rightarrow> pystr option \<Rightarrow> py_error + ccr_mode" where
  "resolve_ccr_tool_injection_mode low raw =
     (let n = low (raw_strip raw) in
      if n = [] then Inr Eager
      else if n = u ''eager'' then Inr Eager
      else if n = u ''lazy'' then Inr Lazy
      else Inl PyValueError)"

text \<open>\<open>int(s)\<close> on a stripped string: an optional sign, then decimal digits with single
  underscores between them; more than 4300 digits are refused.\<close>

definition py_int :: "ucd \<Rightarrow> pystr \<Rightarrow> int option" where
  "py_int U s =
     (let neg = (s \<noteq> [] \<and> hd s = 45);
          body = (if s \<noteq> [] \<and> (hd s = 45 \<or> hd s = 43) then tl s else s);
          parts = split_on 95 body in
      if list_all (\<lambda>p. p \<noteq> [] \<and> list_all (is_decimal U) p) parts \<and> length (concat parts) \<le> 4300
      then Some (if neg then - int (dec_value U (concat parts)) else int (dec_value U (concat parts)))
      else None)"

definition resolve_max_sessions :: "ucd \<Rightarrow> pystr option \<Rightarrow> py_error + int" where
  "resolve_max_sessions U raw =
     (let n = raw_strip raw in
      if n = [] then Inr 1000
      else case py_int U n of
             None \<Rightarrow> Inl PyValueError
           | Some v \<Rightarrow> if v \<le> 0 then Inl PyValueError else Inr v)"

definition resolve_tool_tracker_max_sessions :: "ucd \<Rightarrow> pystr option \<Rightarrow> py_error + int" where
  "resolve_tool_tracker_max_sessions U raw = resolve_max_sessions U raw"

definition resolve_beta_tracker_max_sessions :: "ucd \<Rightarrow> pystr option \<Rightarrow> py_error + int" where
  "resolve_beta_tracker_max_sessions U raw = resolve_max_sessions U raw"

section \<open>Trackers\<close>

type_synonym session_key = "pystr \<times> pystr"

text \<open>The constructor all three trackers have.\<close>

definition new_tracker :: "int \<Rightarrow> py_error + ('k, 'v) tracker" where
  "new_tracker max_sessions =
     (if max_sessions \<le> 0 then Inl PyValueError
      else Inr \<lparr>tr_max_sessions = nat max_sessions, tr_sessions = []\<rparr>)"

definition reset_tracker :: "('k, 'v) tracker \<Rightarrow> ('k, 'v) tracker" where
  "reset_tracker t = t\<lparr>tr_sessions := []\<rparr>"

definition active_sessions :: "('k, 'v) tracker \<Rightarrow> nat" where
  "active_sessions t = length (tr_sessions t)"

definition require_key :: "pystr \<Rightarrow> pystr \<Rightarrow> py_error + session_key" where
  "require_key provider session_id =
     (if provider = [] then Inl PyValueError else if session_id = [] then Inl PyValueError
      else Inr (provider, session_id))"

subsection \<open>SessionCcrTracker\<close>

type_synonym ccr_tracker = "(session_key, bool \<times> bytes option) tracker"

definition has_done_ccr :: "pystr \<Rightarrow> pystr \<Rightarrow> ccr_tracker \<Rightarrow> py_error + bool \<times> ccr_tracker" where
  "has_done_ccr p s t = bindR (require_key p s) (\<lambda>k.
     case entry_at t k of
       None \<Rightarrow> Inr (False, t)
     | Some e \<Rightarrow> Inr (fst e, read_entry k t))"

definition get_golden_tool_bytes ::
  "pystr \<Rightarrow> pystr \<Rightarrow> ccr_tracker \<Rightarrow> py_error + bytes option \<times> ccr_tracker" where
  "get_golden_tool_bytes p s t = bindR (require_key p s) (\<lambda>k.
     case entry_at t k of
       None \<Rightarrow> Inr (None, t)
     | Some e \<Rightarrow> Inr (snd e, read_entry k t))"

definition record_ccr_done :: "pystr \<Rightarrow> pystr \<Rightarrow> bytes \<Rightarrow> ccr_tracker \<Rightarrow> py_error + ccr_tracker" where
  "record_ccr_done p s golden t = bindR (require_key p s) (\<lambda>k.
     if golden = [] then Inl PyValueError
     else case entry_at t k of
            None \<Rightarrow> Inr (write_entry k (True, Some golden) t)
          | Some e \<Rightarrow>
              let pinned = (case snd e of Some b \<Rightarrow> b | None \<Rightarrow> golden)
              in Inr (write_entry k (True, Some pinned) t))"

subsection \<open>SessionToolTracker\<close>

type_synonym tool_tracker = "(session_key, (pystr, bytes) odict) tracker"

definition should_inject :: "pystr \<Rightarrow> pystr \<Rightarrow> tool_tracker \<Rightarrow> py_error + bool \<times> tool_tracker" where
  "should_inject p s t = bindR (require_key p s) (\<lambda>k.
     case entry_at t k of
       None \<Rightarrow> Inr (False, t)
     | Some e \<Rightarrow> Inr (0 < length e, read_entry k t))"

definition get_golden_definitions ::
  "pystr \<Rightarrow> pystr \<Rightarrow> tool_tracker \<Rightarrow> py_error + (pystr \<times> bytes) list option \<times> tool_tracker" where
  "get_golden_definitions p s t = bindR (require_key p s) (\<lambda>k.
     case entry_at t k of
       None \<Rightarrow> Inr (None, t)
     | Some e \<Rightarrow> Inr (Some e, read_entry k t))"

definition record_injection ::
  "pystr \<Rightarrow> pystr \<Rightarrow> pystr \<Rightarrow> bytes \<Rightarrow> tool_tracker \<Rightarrow> py_error + tool_tracker" where
  "record_injection p s name defn t = bindR (require_key p s) (\<lambda>k.
     if name = [] then Inl PyValueError
     else if defn = [] then Inl PyValueError
     else
       let e = (case entry_at t k of None \<Rightarrow> [] | Some e \<Rightarrow> e);
           e' = (if map_of e name = None then AList.update name defn e else e)
       in Inr (write_entry k e' t))"

section \<open>Beta headers\<close>

definition split_beta_tokens :: "pystr option \<Rightarrow> pystr list" where
  "split_beta_tokens v =
     (case v of None \<Rightarrow> []
      | Some s \<Rightarrow> if s = [] then [] else filter (\<lambda>t. t \<noteq> []) (map strip (split_on 44 s)))"

text \<open>The loop both \<open>merge_beta_tokens\<close> and the tracker run: append the tokens whose lower-case
  form was not seen.\<close>

fun add_tokens :: "(pystr \<Rightarrow> pystr) \<Rightarrow> pystr list \<Rightarrow> pystr list \<Rightarrow> pystr list" where
  "add_tokens low merged [] = merged"
| "add_tokens low merged (t # ts) =
     (if low t \<in> low ` set merged then add_tokens low merged ts
      else add_tokens low (merged @ [t]) ts)"

definition merge_beta_tokens :: "(pystr \<Rightarrow> pystr) \<Rightarrow> pystr option \<Rightarrow> pystr list \<Rightarrow> pystr" where
  "merge_beta_tokens low client required =
     join [44] (add_tokens low (add_tokens low [] (split_beta_tokens client))
                  (filter (\<lambda>t. t \<noteq> []) (map strip (filter (\<lambda>t. t \<noteq> []) required))))"

definition merge_anthropic_beta :: "(pystr \<Rightarrow> pystr) \<Rightarrow> pystr option \<Rightarrow> pystr list \<Rightarrow> pystr" where
  "merge_anthropic_beta low client required = merge_beta_tokens low client required"

definition merge_openai_beta :: "(pystr \<Rightarrow> pystr) \<Rightarrow> pystr option \<Rightarrow> pystr list \<Rightarrow> pystr" where
  "merge_openai_beta low client required = merge_beta_tokens low client required"

type_synonym beta_tracker = "(session_key, pystr list) tracker"

definition record_and_get_sticky_betas ::
  "py_env \<Rightarrow> pystr \<Rightarrow> pystr \<Rightarrow> pystr option \<Rightarrow> beta_tracker \<Rightarrow> py_error + pystr \<times> beta_tracker" where
  "record_and_get_sticky_betas E p s client t = bindR (require_key p s) (\<lambda>k.
     bindR (resolve_beta_header_sticky_mode (lower_of E) (env_beta_sticky E)) (\<lambda>mode.
       if mode = Disabled then Inr (raw_strip client, t)
       else
         let previous = entry_at t k;
             merged0 = (case previous of None \<Rightarrow> [] | Some l \<Rightarrow> l);
             merged = add_tokens (lower_of E) merged0 (split_beta_tokens client)
         in Inr (join [44] merged, write_entry k merged t)))"

section \<open>Tool definitions\<close>

definition CCR_TOOL_NAME :: pystr where
  "CCR_TOOL_NAME = u ''headroom_retrieve''"

definition extract_tool_name :: "pydict \<Rightarrow> pystr option" where
  "extract_tool_name d =
     (let nonempty = (\<lambda>v. case v of JStr s \<Rightarrow> if s \<noteq> [] then Some s else None | _ \<Rightarrow> None);
          fn = (case dget d ''function'' of JObj f \<Rightarrow> nonempty (dget f ''name'') | _ \<Rightarrow> None) in
      case nonempty (dget d ''name'') of
        Some n \<Rightarrow> Some n
      | None \<Rightarrow> (case fn of Some n \<Rightarrow> Some n | None \<Rightarrow> nonempty (dget d ''type'')))"

definition client_ccr_aliases :: "pystr list" where
  "client_ccr_aliases = [u ''headroom_headroom_retrieve'', u ''mcp__headroom__headroom_retrieve'',
     u ''mcp_headroom_headroom_retrieve'']"

fun find_retrieval_tool :: "(pystr \<Rightarrow> pystr) \<Rightarrow> pystr option \<Rightarrow> pydict list \<Rightarrow> pystr option" where
  "find_retrieval_tool low alias [] = alias"
| "find_retrieval_tool low alias (t # ts) =
     (case extract_tool_name t of
        Some n \<Rightarrow>
          if n = CCR_TOOL_NAME then Some n
          else if alias = None \<and> low n \<in> set client_ccr_aliases then find_retrieval_tool low (Some n) ts
          else find_retrieval_tool low alias ts
      | None \<Rightarrow> find_retrieval_tool low alias ts)"

definition client_retrieval_tool_name :: "(pystr \<Rightarrow> pystr) \<Rightarrow> pydict list \<Rightarrow> pystr option" where
  "client_retrieval_tool_name low tools = find_retrieval_tool low None tools"

definition retrieve_description :: string where
  "retrieve_description =
     ''Retrieve original uncompressed content that was compressed to save tokens. '' @
     ''Use this when you need more data than what's shown in compressed tool results. '' @
     ''The hash is provided in compression markers like [N items compressed... hash=abc123].''"

definition hash_schema :: "string \<Rightarrow> json" where
  "hash_schema description = JObj
     [(u ''type'', JStr (u ''object'')),
      (u ''properties'', JObj [(u ''hash'', JObj
         [(u ''type'', JStr (u ''string'')), (u ''description'', JStr (u description))])]),
      (u ''required'', JList [JStr (u ''hash'')])]"

definition create_ccr_tool_definition :: "pystr \<Rightarrow> pydict" where
  "create_ccr_tool_definition provider =
     (let long_hash = ''Hash key from the compression marker (e.g., 'abc123' from hash=abc123)'';
          openai_definition =
            [(u ''type'', JStr (u ''function'')),
             (u ''function'', JObj
               [(u ''name'', JStr CCR_TOOL_NAME),
                (u ''description'', JStr (u retrieve_description)),
                (u ''parameters'', hash_schema long_hash)])] in
      if provider = u ''openai'' then openai_definition
      else if provider = u ''anthropic'' then
        [(u ''name'', JStr CCR_TOOL_NAME),
         (u ''description'', JStr (u retrieve_description)),
         (u ''input_schema'', hash_schema long_hash)]
      else if provider = u ''openai_responses'' then
        [(u ''type'', JStr (u ''function'')),
         (u ''name'', JStr CCR_TOOL_NAME),
         (u ''description'', JStr (u retrieve_description)),
         (u ''parameters'', hash_schema long_hash)]
      else if provider = u ''google'' then
        [(u ''name'', JStr CCR_TOOL_NAME),
         (u ''description'', JStr (u
            (''Retrieve original uncompressed content that was compressed to save tokens. '' @
             ''Use this when you need more data than what's shown in compressed tool results.''))),
         (u ''parameters'', hash_schema ''Hash key from the compression marker'')]
      else openai_definition)"

section \<open>Sticky injection\<close>

definition ccr_providers :: "pystr list" where
  "ccr_providers = [u ''anthropic'', u ''openai'', u ''google'']"

definition memory_providers :: "pystr list" where
  "memory_providers = [u ''anthropic'', u ''openai'']"

definition tools_or_empty :: "pydict list option \<Rightarrow> pydict list" where
  "tools_or_empty existing = (case existing of None \<Rightarrow> [] | Some ts \<Rightarrow> ts)"

text \<open>\<open>allow_eager and bool(tools_out) and get_ccr_tool_injection_mode() == "eager"\<close>, read only
  when the first two hold.\<close>

definition eager_now :: "py_env \<Rightarrow> bool \<Rightarrow> pydict list \<Rightarrow> py_error + bool" where
  "eager_now E allow_eager tools =
     (if allow_eager \<and> tools \<noteq> []
      then bindR (resolve_ccr_tool_injection_mode (lower_of E) (env_ccr_injection E)) (\<lambda>m. Inr (m = Eager))
      else Inr False)"

text \<open>A fresh definition: injected, and its bytes pinned for the session.\<close>

definition inject_fresh ::
  "py_env \<Rightarrow> pystr \<Rightarrow> pystr \<Rightarrow> pydict list \<Rightarrow> ccr_tracker \<Rightarrow> py_error + (pydict list \<times> bool) \<times> ccr_tracker" where
  "inject_fresh E p s tools t =
     (let d = create_ccr_tool_definition p in
      bindR (record_ccr_done p s (dumps_of E d) t) (\<lambda>t'. Inr ((tools @ [d], True), t')))"

text \<open>Without a session id the flags of this request decide.\<close>

definition ccr_without_session ::
  "py_env \<Rightarrow> pystr \<Rightarrow> pydict list \<Rightarrow> bool \<Rightarrow> bool \<Rightarrow> bool \<Rightarrow> py_error + pydict list \<times> bool" where
  "ccr_without_session E p tools compressed_now history_ref allow_eager =
     bindR (eager_now E allow_eager tools) (\<lambda>eager.
       if \<not> (eager \<or> compressed_now \<or> history_ref) then Inr (tools, False)
       else Inr (tools @ [create_ccr_tool_definition p], True))"

definition apply_session_sticky_ccr_tool ::
  "py_env \<Rightarrow> pystr \<Rightarrow> pystr option \<Rightarrow> pydict list option \<Rightarrow> bool \<Rightarrow> bool \<Rightarrow> bool \<Rightarrow> ccr_tracker
     \<Rightarrow> py_error + (pydict list \<times> bool) \<times> ccr_tracker" where
  "apply_session_sticky_ccr_tool E p sid existing compressed_now history_ref allow_eager t =
     (if p \<notin> set ccr_providers then Inl PyValueError
      else
        let tools = tools_or_empty existing in
        if client_retrieval_tool_name (lower_of E) tools \<noteq> None then Inr ((tools, False), t)
        else if sid = None \<or> sid = Some [] then
          bindR (ccr_without_session E p tools compressed_now history_ref allow_eager) (\<lambda>r. Inr (r, t))
        else
          let s = the sid in
          bindR (has_done_ccr p s t) (\<lambda>(previously, t1).
            if previously then
              bindR (get_golden_tool_bytes p s t1) (\<lambda>(golden, t2).
                case golden of
                  Some b \<Rightarrow>
                    (case loads_of E b of
                       Some d \<Rightarrow> Inr ((tools @ [d], True), t2)
                     | None \<Rightarrow> inject_fresh E p s tools t2)
                | None \<Rightarrow> inject_fresh E p s tools t2)
            else
              bindR (eager_now E allow_eager tools) (\<lambda>eager.
                if \<not> (eager \<or> compressed_now) then Inr ((tools, False), t1)
                else inject_fresh E p s tools t1)))"

text \<open>Whether the history already calls the retrieval tool; \<open>messages\<close> is any JSON value.\<close>

definition calls_ccr_tool :: "json \<Rightarrow> bool" where
  "calls_ccr_tool tc =
     (case tc of
        JObj d \<Rightarrow>
          (case dget d ''function'' of
             JObj f \<Rightarrow> dget f ''name'' = JStr CCR_TOOL_NAME
           | _ \<Rightarrow> dget d ''name'' = JStr CCR_TOOL_NAME)
      | _ \<Rightarrow> False)"

definition message_references_ccr_tool :: "json \<Rightarrow> bool" where
  "message_references_ccr_tool msg =
     (case msg of
        JObj m \<Rightarrow>
          (case dget m ''content'' of
             JList bs \<Rightarrow> list_ex (\<lambda>b. case b of JObj d \<Rightarrow>
               dget d ''type'' = JStr (u ''tool_use'') \<and> dget d ''name'' = JStr CCR_TOOL_NAME
               | _ \<Rightarrow> False) bs
           | _ \<Rightarrow> False) \<or>
          (case dget m ''tool_calls'' of JList tcs \<Rightarrow> list_ex calls_ccr_tool tcs | _ \<Rightarrow> False)
      | _ \<Rightarrow> False)"

definition history_references_ccr_tool :: "json \<Rightarrow> bool" where
  "history_references_ccr_tool messages =
     (case messages of JList ms \<Rightarrow> list_ex message_references_ccr_tool ms | _ \<Rightarrow> False)"

text \<open>The names already in the list, and the loop that appends definitions without tracking them
  (sticky mode disabled, or no session).\<close>

definition tool_names :: "pydict list \<Rightarrow> pystr list" where
  "tool_names tools = List.map_filter extract_tool_name tools"

fun append_untracked ::
  "py_env \<Rightarrow> pydict list \<Rightarrow> pydict list \<Rightarrow> pystr set \<Rightarrow> nat \<Rightarrow> pydict list \<times> nat" where
  "append_untracked E [] tools names added = (tools, added)"
| "append_untracked E (d # ds) tools names added =
     (case extract_tool_name d of
        None \<Rightarrow> append_untracked E ds tools names added
      | Some n \<Rightarrow>
          if n \<in> names then append_untracked E ds tools names added
          else append_untracked E ds (tools @ [d]) (insert n names) (added + length (dumps_of E d)))"

fun replay_golden ::
  "py_env \<Rightarrow> (pystr \<times> bytes) list \<Rightarrow> pydict list \<Rightarrow> pystr set \<Rightarrow> nat \<Rightarrow> pydict list \<times> nat" where
  "replay_golden E [] tools names added = (tools, added)"
| "replay_golden E ((n, b) # gs) tools names added =
     (if n \<in> names then replay_golden E gs tools names added
      else case loads_of E b of
             None \<Rightarrow> replay_golden E gs tools names added
           | Some d \<Rightarrow> replay_golden E gs (tools @ [d]) (insert n names) (added + length b))"

fun inject_first_time ::
  "py_env \<Rightarrow> pystr \<Rightarrow> pystr \<Rightarrow> pydict list \<Rightarrow> pydict list \<Rightarrow> pystr set \<Rightarrow> nat \<Rightarrow> tool_tracker
     \<Rightarrow> py_error + (pydict list \<times> nat) \<times> tool_tracker" where
  "inject_first_time E p s [] tools names added t = Inr ((tools, added), t)"
| "inject_first_time E p s (d # ds) tools names added t =
     (case extract_tool_name d of
        None \<Rightarrow> inject_first_time E p s ds tools names added t
      | Some n \<Rightarrow>
          if n \<in> names then inject_first_time E p s ds tools names added t
          else
            let b = dumps_of E d in
            bindR (record_injection p s n b t) (\<lambda>t'.
              inject_first_time E p s ds (tools @ [d]) (insert n names) (added + length b) t'))"

definition apply_session_sticky_memory_tools ::
  "py_env \<Rightarrow> pystr \<Rightarrow> pystr option \<Rightarrow> pydict list option \<Rightarrow> pydict list \<Rightarrow> bool \<Rightarrow> bool \<Rightarrow> tool_tracker
     \<Rightarrow> py_error + (pydict list \<times> bool) \<times> tool_tracker" where
  "apply_session_sticky_memory_tools E p sid existing memory_tools inject_this_turn client_declared t =
     (if p \<notin> set memory_providers then Inl PyValueError
      else
        let tools = tools_or_empty existing in
        if \<not> client_declared then Inr ((tools, False), t)
        else
          let names = set (tool_names tools) in
          bindR (resolve_tool_injection_sticky_mode (lower_of E) (env_tool_sticky E)) (\<lambda>mode.
            if mode = Disabled \<or> sid = None \<or> sid = Some [] then
              if \<not> inject_this_turn then Inr ((tools, False), t)
              else (case append_untracked E memory_tools tools names 0 of
                      (out, added) \<Rightarrow> Inr ((out, 0 < added), t))
            else
              let s = the sid in
              bindR (should_inject p s t) (\<lambda>(previously, t1).
                if previously then
                  bindR (get_golden_definitions p s t1) (\<lambda>(golden, t2).
                    case replay_golden E (case golden of None \<Rightarrow> [] | Some g \<Rightarrow> g) tools names 0 of
                      (out, added) \<Rightarrow> Inr ((out, 0 < added), t2))
                else if \<not> inject_this_turn then Inr ((tools, False), t1)
                else bindR (inject_first_time E p s memory_tools tools names 0 t1)
                       (\<lambda>((out, added), t2). Inr ((out, 0 < added), t2)))))"

end
