(* ===== verification/Session_Sticky_Props.thy ===== *)
theory Session_Sticky_Props
  imports Session_Sticky
begin

text \<open>
  Properties of the session-sticky injections. Each of the three coordination points is shown to be
  an access of the shared bounded table (\<open>ccr_decide\<close>, \<open>mem_decide\<close>, \<open>beta_decide\<close> are
  what a request does given the session's entry), which makes it an instance of the contract
  \<open>session_lru\<close>; the stickiness theorems follow from the isolation lemma of the contract.
\<close>

section \<open>Accesses compose\<close>

lemma move_to_end_idem: "distinct (map fst d) \<Longrightarrow> move_to_end k (move_to_end k d) = move_to_end k d"
proof (cases "map_of d k")
  case (Some v)
  then have "map_of (move_to_end k d) k = Some v" by simp
  then show ?thesis
    by (simp add: move_to_end_present move_to_end_present [OF Some] delete_as_filter)
qed (simp add: move_to_end_def)

lemma read_read [simp]: "tracker_ok t \<Longrightarrow> read_entry k (read_entry k t) = read_entry k t"
  by (simp add: read_entry_def tracker_ok_def move_to_end_idem)

lemma delete_move_to_end: "AList.delete k (move_to_end k d) = AList.delete k d"
  by (cases "map_of d k") (auto simp: move_to_end_def delete_as_filter)

lemma write_read [simp]: "tracker_ok t \<Longrightarrow> write_entry k v (read_entry k t) = write_entry k v t"
  by (simp add: write_entry_def read_entry_def tracker_ok_def update_to_end distinct_move_to_end
      delete_move_to_end)

lemma read_absent: "entry_at t k = None \<Longrightarrow> read_entry k t = t"
  by (simp add: read_entry_def move_to_end_def entry_at_def)

lemma write_write [simp]:
  assumes "tracker_ok t"
  shows "write_entry k v (write_entry k w t) = write_entry k v t"
proof -
  let ?n = "tr_max_sessions t" and ?d = "AList.delete k (tr_sessions t)"
  let ?m = "Suc (length ?d) - ?n"
  have n: "?m \<le> length ?d" using assms unfolding tracker_ok_def by arith
  have cut: "trim_oldest ?n (?d @ [(k, x)]) = drop ?m ?d @ [(k, x)]" for x
    using n by (simp add: trim_oldest_drop)
  have "AList.delete k (drop ?m ?d @ [(k, w)]) = drop ?m ?d"
    using set_drop_subset [of ?m ?d] by (auto simp: delete_as_filter intro!: filter_True)
  moreover have "length (drop ?m ?d @ [(k, v)]) \<le> ?n" using n assms by (simp add: tracker_ok_def)
  ultimately have "tr_sessions (write_entry k v (write_entry k w t)) = tr_sessions (write_entry k v t)"
    using assms
    by (simp add: write_entry_sessions tracker_ok_write cut)
  then show ?thesis by (simp add: write_entry_def)
qed

lemma perform_Put [simp]: "tracker_ok t \<Longrightarrow> write_entry k v (perform k acc t) = write_entry k v t"
  by (cases acc) simp_all

lemma tracker_ok_perform: "tracker_ok t \<Longrightarrow> tracker_ok (perform k acc t)"
  by (cases acc) (simp_all add: tracker_ok_read tracker_ok_write)

section \<open>The retrieval tool\<close>

record ccr_request =
  rq_tools :: "pydict list option"
  rq_compressed :: bool
  rq_history :: bool
  rq_eager :: bool

definition ccr_call :: "py_env \<Rightarrow> session_key \<Rightarrow> ccr_request \<Rightarrow> ccr_tracker
    \<Rightarrow> py_error + (pydict list \<times> bool) \<times> ccr_tracker" where
  "ccr_call E k r t = apply_session_sticky_ccr_tool E (fst k) (Some (snd k)) (rq_tools r)
     (rq_compressed r) (rq_history r) (rq_eager r) t"

definition ccr_fresh :: "py_env \<Rightarrow> pystr \<Rightarrow> pydict list \<Rightarrow> (bool \<times> bytes option) option
    \<Rightarrow> py_error + (pydict list \<times> bool) \<times> (bool \<times> bytes option) access" where
  "ccr_fresh E p tools v =
     (let d = create_ccr_tool_definition p; b = dumps_of E d in
      if b = [] then Inl PyValueError
      else Inr ((tools @ [d], True),
        Put (True, Some (case v of Some (_, Some g) \<Rightarrow> g | _ \<Rightarrow> b))))"

definition ccr_decide :: "py_env \<Rightarrow> session_key \<Rightarrow> ccr_request \<Rightarrow> (bool \<times> bytes option) option
    \<Rightarrow> py_error + (pydict list \<times> bool) \<times> (bool \<times> bytes option) access" where
  "ccr_decide E k r v =
     (let p = fst k; tools = tools_or_empty (rq_tools r) in
      if p \<notin> set ccr_providers then Inl PyValueError
      else if client_retrieval_tool_name (lower_of E) tools \<noteq> None then Inr ((tools, False), Keep)
      else case v of
        Some (True, g) \<Rightarrow>
          (case g of
             Some b \<Rightarrow> (case loads_of E b of
                           Some d \<Rightarrow> Inr ((tools @ [d], True), Touch)
                         | None \<Rightarrow> ccr_fresh E p tools v)
           | None \<Rightarrow> ccr_fresh E p tools v)
      | _ \<Rightarrow>
          bindR (eager_now E (rq_eager r) tools) (\<lambda>eager.
            if \<not> (eager \<or> rq_compressed r) then Inr ((tools, False), Touch)
            else ccr_fresh E p tools v))"

lemma require_key_ok: "fst k \<noteq> [] \<Longrightarrow> snd k \<noteq> [] \<Longrightarrow> require_key (fst k) (snd k) = Inr k"
  by (simp add: require_key_def)

lemma inject_fresh_decide:
  assumes "tracker_ok t" and "fst k \<noteq> []" and "snd k \<noteq> []"
  shows "inject_fresh E (fst k) (snd k) tools t
    = map_sum id (\<lambda>(out, acc). (out, perform k acc t)) (ccr_fresh E (fst k) tools (entry_at t k))"
  using assms
  by (auto simp: inject_fresh_def ccr_fresh_def record_ccr_done_def require_key_ok Let_def
      split: option.splits)

lemma map_sum_bindR: "bindR (map_sum id f r) g = bindR r (\<lambda>x. g (f x))"
  "map_sum id f (bindR r h) = bindR r (\<lambda>x. map_sum id f (h x))"
  by (cases r; simp)+

lemma ccr_provider_nonempty: "p \<in> set ccr_providers \<Longrightarrow> p \<noteq> []"
  by (auto simp: ccr_providers_def)

lemma ccr_fresh_touched:
  "tracker_ok t \<Longrightarrow> map_sum id (\<lambda>(out, acc). (out, perform k acc (read_entry k t))) (ccr_fresh E p tools v)
     = map_sum id (\<lambda>(out, acc). (out, perform k acc t)) (ccr_fresh E p tools v)"
  by (simp add: ccr_fresh_def Let_def)

text \<open>The request with the tracker, once provider and client tools let it through.\<close>

lemma ccr_call_tracked:
  assumes "tracker_ok t" and "fst k \<in> set ccr_providers" and "snd k \<noteq> []"
    and "client_retrieval_tool_name (lower_of E) (tools_or_empty (rq_tools r)) = None"
  shows "ccr_call E k r t
    = map_sum id (\<lambda>(out, acc). (out, perform k acc t)) (ccr_decide E k r (entry_at t k))"
proof -
  have p: "fst k \<noteq> []" by (rule ccr_provider_nonempty [OF assms(2)])
  note fresh = inject_fresh_decide [OF assms(1) p assms(3)]
    inject_fresh_decide [OF tracker_ok_read [OF assms(1)] p assms(3)]
    ccr_fresh_touched [OF assms(1)]
  note simps = ccr_call_def apply_session_sticky_ccr_tool_def ccr_decide_def has_done_ccr_def
    get_golden_tool_bytes_def require_key_ok [OF p assms(3)] Let_def map_sum_bindR assms
  consider "entry_at t k = None" | g where "entry_at t k = Some (False, g)"
    | "entry_at t k = Some (True, None)" | b where "entry_at t k = Some (True, Some b)"
    by (metis not_None_eq surj_pair)
  then show ?thesis
  proof cases
    case 1
    then show ?thesis
      by (cases "eager_now E (rq_eager r) (tools_or_empty (rq_tools r))")
        (simp_all add: simps fresh read_absent)
  next
    case 2
    then show ?thesis
      by (cases "eager_now E (rq_eager r) (tools_or_empty (rq_tools r))") (simp_all add: simps fresh)
  next
    case 3
    then show ?thesis by (simp add: simps fresh)
  next
    case (4 b)
    then show ?thesis by (cases "loads_of E b") (simp_all add: simps fresh)
  qed
qed

lemma ccr_call_decide:
  assumes "tracker_ok t" and "snd k \<noteq> []"
  shows "ccr_call E k r t
    = map_sum id (\<lambda>(out, acc). (out, perform k acc t)) (ccr_decide E k r (entry_at t k))"
proof (cases "fst k \<in> set ccr_providers
    \<and> client_retrieval_tool_name (lower_of E) (tools_or_empty (rq_tools r)) = None")
  case False
  then show ?thesis
    by (cases "fst k \<in> set ccr_providers")
      (simp_all add: ccr_call_def apply_session_sticky_ccr_tool_def ccr_decide_def)
qed (simp add: ccr_call_tracked assms)

definition ccr_visit :: "py_env \<Rightarrow> session_key \<Rightarrow> ccr_request \<Rightarrow> ccr_tracker \<Rightarrow> ccr_tracker" where
  "ccr_visit E k r t = (case ccr_call E k r t of Inl _ \<Rightarrow> t | Inr (_, t') \<Rightarrow> t')"

lemma ccr_visit_decide:
  assumes "entries_ok fst t"
  shows "ccr_visit E k r t
     = (if snd k \<noteq> [] then act_on k (ccr_decide E k r (entry_at t k)) t else t)"
proof (cases "snd k = []")
  case False
  then show ?thesis
    by (cases "ccr_decide E k r (entry_at t k)")
      (auto simp: ccr_visit_def ccr_call_decide entries_okD(1) [OF assms] act_on_def)
next
  case True
  let ?r = "ccr_without_session E (fst k) (tools_or_empty (rq_tools r)) (rq_compressed r) (rq_history r)
    (rq_eager r)"
  from True show ?thesis
    by (cases ?r) (simp_all add: ccr_visit_def ccr_call_def apply_session_sticky_ccr_tool_def Let_def)
qed

lemma ccr_fresh_put: "ccr_fresh E p tools v = Inr (out, Put w) \<Longrightarrow> fst w"
  by (auto simp: ccr_fresh_def Let_def split: if_splits)

lemma ccr_decide_put: "ccr_decide E k r v = Inr (out, Put w) \<Longrightarrow> fst w"
  by (auto simp: ccr_decide_def Let_def bindR_eq_Inr dest!: ccr_fresh_put
      split: if_splits option.splits prod.splits bool.splits)

interpretation ccr: session_lru "ccr_visit E" entry_at
  "\<lambda>k r v. entry_after (ccr_decide E k r v) v" newer_keys tr_max_sessions "entries_ok fst"
  "\<lambda>k. snd k \<noteq> []" for E
  by (rule session_lruI) (rule ccr_visit_decide, assumption, erule ccr_decide_put)

text \<open>An entry that makes every later request add the definition \<open>d\<close>.\<close>

definition pins :: "py_env \<Rightarrow> pystr \<Rightarrow> pydict \<Rightarrow> (bool \<times> bytes option) option \<Rightarrow> bool" where
  "pins E p d v \<longleftrightarrow> (\<exists>b. v = Some (True, Some b) \<and>
     (loads_of E b = Some d \<or> loads_of E b = None \<and> d = create_ccr_tool_definition p \<and> dumps_of E d \<noteq> []))"

lemma pins_decide:
  assumes "pins E (fst k) d v" and "fst k \<in> set ccr_providers"
    and "client_retrieval_tool_name (lower_of E) (tools_or_empty (rq_tools r)) = None"
  shows "\<exists>acc. ccr_decide E k r v = Inr ((tools_or_empty (rq_tools r) @ [d], True), acc)"
  using assms by (auto simp: pins_def ccr_decide_def ccr_fresh_def Let_def)

lemma pins_kept: "pins E (fst k) d v \<Longrightarrow> pins E (fst k) d (entry_after (ccr_decide E k r v) v)"
  by (auto simp: pins_def ccr_decide_def ccr_fresh_def entry_after_def Let_def)

lemma ccr_decide_injects:
  assumes "ccr_decide E k r v = Inr ((out, True), acc)" and "pred_option fst v"
    and "loads_of E (dumps_of E (create_ccr_tool_definition (fst k))) = Some (create_ccr_tool_definition (fst k))"
  obtains d where "out = tools_or_empty (rq_tools r) @ [d]" "pins E (fst k) d (entry_after (Inr (out, acc)) v)"
    "acc = Touch \<and> v \<noteq> None \<or> (\<exists>w. acc = Put w)" "fst k \<in> set ccr_providers"
proof -
  let ?tools = "tools_or_empty (rq_tools r)" and ?c = "create_ccr_tool_definition (fst k)"
  have p: "fst k \<in> set ccr_providers" and c: "client_retrieval_tool_name (lower_of E) ?tools = None"
    using assms(1) by (auto simp: ccr_decide_def Let_def split: if_splits)
  note simps = ccr_decide_def ccr_fresh_def Let_def p c pins_def entry_after_def ex_bool_eq
  consider "v = None" | "v = Some (True, None)" | b where "v = Some (True, Some b)"
    using assms(2) by (cases v) (auto, metis not_None_eq)
  then show thesis
  proof cases
    case 1
    then show thesis
      using assms that [of ?c] p
      by (cases "eager_now E (rq_eager r) ?tools") (auto simp: simps split: if_splits)
  next
    case 2
    then show thesis using assms that [of ?c] p by (auto simp: simps split: if_splits)
  next
    case (3 b)
    show thesis
    proof (cases "loads_of E b")
      case None
      then show thesis using 3 assms that [of ?c] p by (auto simp: simps split: if_splits)
    next
      case (Some d)
      then show thesis using 3 assms that [of d] p by (auto simp: simps)
    qed
  qed
qed

lemma perform_newer:
  "tracker_ok t \<Longrightarrow> acc = Touch \<and> entry_at t k \<noteq> None \<or> (\<exists>w. acc = Put w) \<Longrightarrow> newer_keys (perform k acc t) k = {}"
  by (auto simp: newer_read_own newer_write_own)

lemma new_tracker_ok: "new_tracker n = Inr t \<Longrightarrow> entries_ok P t \<and> int (tr_max_sessions t) = n"
  by (auto simp: new_tracker_def entries_ok_def tracker_ok_def entry_at_def split: if_splits)

text \<open>C15: The retrieval tool is sticky. Take any tracker bounded by \<open>n\<close> sessions, any earlier
  traffic \<open>before\<close>, and a request of session \<open>k\<close> for which the proxy added the tool. Then, as
  long as requests of fewer than \<open>n\<close> other sessions come in between, every later request of the
  session whose client does not declare a retrieval tool of its own gets exactly the same definition
  appended, whatever its flags say. The only assumption on JSON is that loading the dumped definition
  gives it back. The tracker never holds more than \<open>n\<close> sessions.\<close>

theorem retrieval_tool_sticky:
  assumes new: "new_tracker n = Inr t0" and session: "snd k \<noteq> []"
    and t: "t = fold (\<lambda>(k, r). ccr_visit E k r) before t0"
    and first: "ccr_call E k r1 t = Inr ((out1, True), t1)"
    and t2: "t2 = fold (\<lambda>(k, r). ccr_visit E k r) between t1"
    and few: "int (card (fst ` set between - {k})) < n"
    and json: "loads_of E (dumps_of E (create_ccr_tool_definition (fst k))) = Some (create_ccr_tool_definition (fst k))"
  shows "\<exists>d. out1 = tools_or_empty (rq_tools r1) @ [d] \<and>
    (\<forall>r. client_retrieval_tool_name (lower_of E) (tools_or_empty (rq_tools r)) = None \<longrightarrow>
      (\<exists>t3. ccr_call E k r t2 = Inr ((tools_or_empty (rq_tools r) @ [d], True), t3)))
    \<and> int (active_sessions t2) \<le> n"
proof -
  have t_run: "t = ccr.run E before t0" and t2_run: "t2 = ccr.run E between t1"
    by (simp_all add: t t2 ccr.run_def)
  have ok0: "entries_ok fst t0" and n0: "int (tr_max_sessions t0) = n"
    using new_tracker_ok [OF new] by auto
  have ok: "entries_ok fst t" and n: "int (tr_max_sessions t) = n"
    using ccr.ok_run [OF ok0] ccr.cap_run [OF ok0] n0 by (simp_all add: t_run)
  note tok = entries_okD(1) [OF ok]
  obtain acc where dec: "ccr_decide E k r1 (entry_at t k) = Inr ((out1, True), acc)"
    and t1: "t1 = perform k acc t"
    using first unfolding ccr_call_decide [OF tok session]
    by (cases "ccr_decide E k r1 (entry_at t k)") auto
  have P: "pred_option fst (entry_at t k)" using entries_okD(2) [OF ok] by (cases "entry_at t k") auto
  obtain d where out: "out1 = tools_or_empty (rq_tools r1) @ [d]"
    and pin: "pins E (fst k) d (entry_after (Inr (out1, acc)) (entry_at t k))"
    and acc: "acc = Touch \<and> entry_at t k \<noteq> None \<or> (\<exists>w. acc = Put w)" and p: "fst k \<in> set ccr_providers"
    by (rule ccr_decide_injects [OF dec P json])
  have pin1: "pins E (fst k) d (entry_at t1 k)"
    using acc pin tok by (auto simp: t1 entry_after_def)
  have ok1: "entries_ok fst t1"
    unfolding t1 by (rule entries_ok_perform [OF ok]) (use ccr_decide_put dec in blast)
  have pin2: "pins E (fst k) d (entry_at t2 k)"
    unfolding t2_run using few n
    by (intro ccr.sticky [where Q = "pins E (fst k) d", OF ok1 session pin1])
      (auto simp: t1 perform_newer [OF tok acc] pins_kept)
  have ok2: "entries_ok fst t2" unfolding t2_run by (rule ccr.ok_run [OF ok1])
  have "int (active_sessions t2) \<le> n"
    using entries_okD(1) [OF ok2] ccr.cap_run [OF ok1] n
    by (simp add: tracker_ok_def active_sessions_def t2_run t1)
  moreover have "\<exists>t3. ccr_call E k r t2 = Inr ((tools_or_empty (rq_tools r) @ [d], True), t3)"
    if "client_retrieval_tool_name (lower_of E) (tools_or_empty (rq_tools r)) = None" for r
    using pins_decide [OF pin2 p that] ccr_call_decide [OF entries_okD(1) [OF ok2] session, of E r]
    by force
  ultimately show ?thesis using out by blast
qed

section \<open>The memory tools\<close>

record mem_request =
  mq_tools :: "pydict list option"
  mq_memory :: "pydict list"
  mq_inject :: bool
  mq_declared :: bool

definition mem_call :: "py_env \<Rightarrow> session_key \<Rightarrow> mem_request \<Rightarrow> tool_tracker
    \<Rightarrow> py_error + (pydict list \<times> bool) \<times> tool_tracker" where
  "mem_call E k r t = apply_session_sticky_memory_tools E (fst k) (Some (snd k)) (mq_tools r)
     (mq_memory r) (mq_inject r) (mq_declared r) t"

text \<open>The first injection of a session: what is appended and what the entry becomes.\<close>

fun first_plan :: "py_env \<Rightarrow> pydict list \<Rightarrow> pydict list \<Rightarrow> pystr set \<Rightarrow> nat
    \<Rightarrow> (pystr, bytes) odict option \<Rightarrow> (pystr, bytes) odict access
    \<Rightarrow> py_error + (pydict list \<times> nat) \<times> (pystr, bytes) odict access" where
  "first_plan E [] tools names added v acc = Inr ((tools, added), acc)"
| "first_plan E (d # ds) tools names added v acc =
     (case extract_tool_name d of
        None \<Rightarrow> first_plan E ds tools names added v acc
      | Some n \<Rightarrow>
          if n \<in> names then first_plan E ds tools names added v acc
          else if n = [] \<or> dumps_of E d = [] then Inl PyValueError
          else
            let e = (case v of None \<Rightarrow> [] | Some e \<Rightarrow> e);
                e' = (if map_of e n = None then AList.update n (dumps_of E d) e else e)
            in first_plan E ds (tools @ [d]) (insert n names) (added + length (dumps_of E d))
                 (Some e') (Put e'))"

definition mem_decide :: "py_env \<Rightarrow> session_key \<Rightarrow> mem_request \<Rightarrow> (pystr, bytes) odict option
    \<Rightarrow> py_error + (pydict list \<times> bool) \<times> (pystr, bytes) odict access" where
  "mem_decide E k r v =
     (let tools = tools_or_empty (mq_tools r); names = set (tool_names tools);
          flag = map_sum id (\<lambda>((out, added), acc). ((out, 0 < (added :: nat)), acc)) in
      if fst k \<notin> set memory_providers then Inl PyValueError
      else if \<not> mq_declared r then Inr ((tools, False), Keep)
      else bindR (resolve_tool_injection_sticky_mode (lower_of E) (env_tool_sticky E)) (\<lambda>mode.
        if mode = Disabled then
          if \<not> mq_inject r then Inr ((tools, False), Keep)
          else flag (Inr (append_untracked E (mq_memory r) tools names 0, Keep))
        else if v \<noteq> None \<and> v \<noteq> Some [] then flag (Inr (replay_golden E (the v) tools names 0, Touch))
        else if \<not> mq_inject r then Inr ((tools, False), Touch)
        else flag (first_plan E (mq_memory r) tools names 0 v Touch)))"

lemma mem_provider_nonempty: "p \<in> set memory_providers \<Longrightarrow> p \<noteq> []"
  by (auto simp: memory_providers_def)

lemma inject_first_time_plan:
  assumes "tracker_ok t" and "fst k \<noteq> []" and "snd k \<noteq> []"
  shows "inject_first_time E (fst k) (snd k) ds tools names added (perform k acc t)
    = map_sum id (\<lambda>(out, acc). (out, perform k acc t))
        (first_plan E ds tools names added (entry_at (perform k acc t) k) acc)"
proof (induction ds arbitrary: tools names added acc)
  case (Cons d ds)
  let ?e = "case entry_at (perform k acc t) k of None \<Rightarrow> [] | Some e \<Rightarrow> e"
  show ?case
  proof (cases "extract_tool_name d")
    case (Some n)
    let ?e' = "if map_of ?e n = None then AList.update n (dumps_of E d) ?e else ?e"
    have rec: "record_injection (fst k) (snd k) n (dumps_of E d) (perform k acc t)
        = (if n = [] \<or> dumps_of E d = [] then Inl PyValueError else Inr (perform k (Put ?e') t))"
      using assms by (simp add: record_injection_def require_key_ok Let_def)
    show ?thesis
      using Cons.IH [of _ _ _ "Put ?e'"] assms(1) by (simp add: Some Cons.IH rec Let_def)
  qed (simp add: Cons.IH)
qed simp

lemma mem_call_tracked:
  assumes "tracker_ok t" and "fst k \<in> set memory_providers" and "snd k \<noteq> []" and "mq_declared r"
    and "resolve_tool_injection_sticky_mode (lower_of E) (env_tool_sticky E) = Inr Enabled"
  shows "mem_call E k r t
    = map_sum id (\<lambda>(out, acc). (out, perform k acc t)) (mem_decide E k r (entry_at t k))"
proof -
  have p: "fst k \<noteq> []" by (rule mem_provider_nonempty [OF assms(2)])
  note plan = inject_first_time_plan [OF assms(1) p assms(3), where acc = Touch, simplified]
  note simps = mem_call_def apply_session_sticky_memory_tools_def mem_decide_def should_inject_def
    get_golden_definitions_def require_key_ok [OF p assms(3)] Let_def assms
  let ?plan = "first_plan E (mq_memory r) (tools_or_empty (mq_tools r))
    (set (tool_names (tools_or_empty (mq_tools r)))) 0 (entry_at t k) Touch"
  consider "entry_at t k = None" | "entry_at t k = Some []" | e where "entry_at t k = Some e" "e \<noteq> []"
    by (metis not_None_eq)
  then show ?thesis
  proof cases
    case 1
    then show ?thesis using plan by (cases ?plan) (auto simp: simps read_absent)
  next
    case 2
    then show ?thesis using plan by (cases ?plan) (auto simp: simps)
  next
    case (3 e)
    then show ?thesis by (auto simp: simps split: prod.splits)
  qed
qed

lemma mem_call_decide:
  assumes "tracker_ok t" and "snd k \<noteq> []"
  shows "mem_call E k r t
    = map_sum id (\<lambda>(out, acc). (out, perform k acc t)) (mem_decide E k r (entry_at t k))"
proof (cases "fst k \<in> set memory_providers \<and> mq_declared r
    \<and> resolve_tool_injection_sticky_mode (lower_of E) (env_tool_sticky E) = Inr Enabled")
  case False
  let ?m = "resolve_tool_injection_sticky_mode (lower_of E) (env_tool_sticky E)"
  consider "fst k \<notin> set memory_providers" | "fst k \<in> set memory_providers" "\<not> mq_declared r"
    | e where "fst k \<in> set memory_providers" "mq_declared r" "?m = Inl e"
    | "fst k \<in> set memory_providers" "mq_declared r" "?m = Inr Disabled"
    using False by (metis sticky_mode.exhaust sumE)
  then show ?thesis
    by cases (auto simp: mem_call_def apply_session_sticky_memory_tools_def mem_decide_def Let_def
        split: prod.splits)
qed (simp add: mem_call_tracked assms)

definition mem_visit :: "py_env \<Rightarrow> session_key \<Rightarrow> mem_request \<Rightarrow> tool_tracker \<Rightarrow> tool_tracker" where
  "mem_visit E k r t = (case mem_call E k r t of Inl _ \<Rightarrow> t | Inr (_, t') \<Rightarrow> t')"

lemma mem_visit_decide:
  assumes "entries_ok (\<lambda>e. e \<noteq> []) t"
  shows "mem_visit E k r t
     = (if snd k \<noteq> [] then act_on k (mem_decide E k r (entry_at t k)) t else t)"
proof (cases "snd k = []")
  case False
  then show ?thesis
    by (cases "mem_decide E k r (entry_at t k)")
      (auto simp: mem_visit_def mem_call_decide entries_okD(1) [OF assms] act_on_def)
next
  case True
  then show ?thesis
    by (auto simp: mem_visit_def mem_call_def apply_session_sticky_memory_tools_def Let_def bindR_def
        split: sum.splits prod.splits)
qed

lemma first_plan_put:
  "first_plan E ds tools names added v acc = Inr (out, Put w) \<Longrightarrow> (\<And>w. acc = Put w \<Longrightarrow> w \<noteq> []) \<Longrightarrow> w \<noteq> []"
proof (induction ds arbitrary: tools names added v acc)
  case (Cons d ds)
  show ?case
  proof (cases "extract_tool_name d")
    case (Some n)
    show ?thesis
    proof (cases "n \<in> names")
      case False
      let ?e = "case v of None \<Rightarrow> [] | Some e \<Rightarrow> e"
      let ?e' = "if map_of ?e n = None then AList.update n (dumps_of E d) ?e else ?e"
      have "?e' \<noteq> []" by (cases ?e) auto
      then show ?thesis
        using Cons.prems(1) False by (intro Cons.IH [of _ _ _ "Some ?e'" "Put ?e'"])
          (auto simp: Some Let_def split: if_splits)
    qed (use Cons Some in auto)
  qed (use Cons in auto)
qed auto

lemma map_sum_eq_Inr: "map_sum id f r = Inr y \<longleftrightarrow> (\<exists>x. r = Inr x \<and> y = f x)"
  by (cases r) auto

lemma mem_decide_put: "mem_decide E k r v = Inr (out, Put w) \<Longrightarrow> w \<noteq> []"
  by (auto simp: mem_decide_def Let_def bindR_eq_Inr map_sum_eq_Inr split: if_splits prod.splits
      dest!: first_plan_put)

interpretation mem_tools: session_lru "mem_visit E" entry_at
  "\<lambda>k r v. entry_after (mem_decide E k r v) v" newer_keys tr_max_sessions "entries_ok (\<lambda>e. e \<noteq> [])"
  "\<lambda>k. snd k \<noteq> []" for E
  by (rule session_lruI) (rule mem_visit_decide, assumption, erule mem_decide_put)

text \<open>The entry a first injection leaves behind and its replay.\<close>

abbreviation tool_name_of :: "pydict \<Rightarrow> pystr" where
  "tool_name_of d \<equiv> the (extract_tool_name d)"

definition golden_entry :: "py_env \<Rightarrow> pydict list \<Rightarrow> (pystr, bytes) odict" where
  "golden_entry E ds = map (\<lambda>d. (tool_name_of d, dumps_of E d)) ds"

definition injectable :: "py_env \<Rightarrow> pystr set \<Rightarrow> pydict list \<Rightarrow> bool" where
  "injectable E names ds \<longleftrightarrow> distinct (map tool_name_of ds) \<and>
     (\<forall>d \<in> set ds. extract_tool_name d \<noteq> None \<and> dumps_of E d \<noteq> [] \<and> tool_name_of d \<notin> names)"

lemma golden_snoc:
  assumes "extract_tool_name d = Some n" and "n \<notin> tool_name_of ` set ds"
  shows "map_of (golden_entry E ds) n = None"
    and "AList.update n (dumps_of E d) (golden_entry E ds) = golden_entry E (ds @ [d])"
proof -
  show m: "map_of (golden_entry E ds) n = None"
    using assms(2) by (auto simp: map_of_eq_None_iff golden_entry_def image_iff)
  have "n \<notin> fst ` set (golden_entry E ds)" using m by (simp add: map_of_eq_None_iff)
  then show "AList.update n (dumps_of E d) (golden_entry E ds) = golden_entry E (ds @ [d])"
    by (simp add: update_absent_key golden_entry_def assms(1))
qed

definition plan_entry :: "py_env \<Rightarrow> pydict list \<Rightarrow> (pystr, bytes) odict option" where
  "plan_entry E ds = (if ds = [] then None else Some (golden_entry E ds))"

definition plan_access :: "py_env \<Rightarrow> pydict list \<Rightarrow> (pystr, bytes) odict access" where
  "plan_access E ds = (if ds = [] then Touch else Put (golden_entry E ds))"

lemma plan_snoc [simp]:
  "plan_entry E (ds @ [d]) = Some (golden_entry E (ds @ [d]))"
  "plan_access E (ds @ [d]) = Put (golden_entry E (ds @ [d]))"
  "(case plan_entry E ds of None \<Rightarrow> [] | Some e \<Rightarrow> e) = golden_entry E ds"
  by (simp_all add: plan_entry_def plan_access_def golden_entry_def)

text \<open>One definition of the loop: skipped, or appended and recorded.\<close>

lemma first_plan_step:
  "first_plan E (d # ds) (tools @ ds0) (names \<union> tool_name_of ` set ds0) added (plan_entry E ds0) (plan_access E ds0)
   = (if extract_tool_name d = None \<or> tool_name_of d \<in> names \<union> tool_name_of ` set ds0
      then first_plan E ds (tools @ ds0) (names \<union> tool_name_of ` set ds0) added (plan_entry E ds0) (plan_access E ds0)
      else if tool_name_of d = [] \<or> dumps_of E d = [] then Inl PyValueError
      else first_plan E ds (tools @ (ds0 @ [d])) (names \<union> tool_name_of ` set (ds0 @ [d]))
        (added + length (dumps_of E d)) (plan_entry E (ds0 @ [d])) (plan_access E (ds0 @ [d])))"
proof (cases "extract_tool_name d")
  case (Some n)
  show ?thesis
  proof (cases "n \<in> names \<union> tool_name_of ` set ds0")
    case False
    then have "n \<notin> tool_name_of ` set ds0" by simp
    note snoc = golden_snoc [OF Some this, of E]
    show ?thesis using False by (simp add: Some Let_def snoc)
  qed (simp add: Some)
qed simp

lemma first_plan_spec:
  assumes "first_plan E ds (tools @ ds0) (names \<union> tool_name_of ` set ds0) added
      (plan_entry E ds0) (plan_access E ds0) = Inr ((out, added'), acc)"
    and "injectable E names ds0" and "ds0 = [] \<longleftrightarrow> added = 0"
  shows "\<exists>ds'. out = tools @ ds' \<and> set ds' \<subseteq> set ds0 \<union> set ds \<and> injectable E names ds' \<and>
    acc = plan_access E ds' \<and> (ds' = [] \<longleftrightarrow> added' = 0)"
  using assms
proof (induction ds arbitrary: ds0 added)
  case Nil
  then show ?case by (intro exI [of _ ds0]) auto
next
  case (Cons d ds)
  note prem = Cons.prems(1) [unfolded first_plan_step]
  show ?case
  proof (cases "extract_tool_name d = None \<or> tool_name_of d \<in> names \<union> tool_name_of ` set ds0")
    case True
    from Cons.IH [OF prem [unfolded if_P [OF True]] Cons.prems(2,3)] show ?thesis by auto
  next
    case False
    note prem' = prem [unfolded if_not_P [OF False]]
    have b: "\<not> (tool_name_of d = [] \<or> dumps_of E d = [])" using prem' by (metis Inl_Inr_False)
    have "injectable E names (ds0 @ [d])" using Cons.prems(2) False b by (auto simp: injectable_def)
    from Cons.IH [OF prem' [unfolded if_not_P [OF b]] this] b show ?thesis by auto
  qed
qed

lemma replay_golden_entry:
  assumes "injectable E {} ds" and "\<forall>d \<in> set ds. loads_of E (dumps_of E d) = Some d"
  shows "\<exists>a. replay_golden E (golden_entry E ds) tools names added
      = (tools @ filter (\<lambda>d. tool_name_of d \<notin> names) ds, added + a)
    \<and> (a = 0 \<longleftrightarrow> filter (\<lambda>d. tool_name_of d \<notin> names) ds = [])"
  using assms
proof (induction ds arbitrary: tools names added)
  case (Cons d ds)
  have inj: "injectable E {} ds" and b: "dumps_of E d \<noteq> []" and new: "tool_name_of d \<notin> tool_name_of ` set ds"
    using Cons.prems(1) by (auto simp: injectable_def)
  have same: "filter (\<lambda>x. tool_name_of x \<notin> insert (tool_name_of d) names) ds
      = filter (\<lambda>x. tool_name_of x \<notin> names) ds"
    using new by (intro filter_cong) (auto simp: image_iff)
  have cons: "golden_entry E (d # ds) = (tool_name_of d, dumps_of E d) # golden_entry E ds"
    by (simp add: golden_entry_def)
  show ?case
  proof (cases "tool_name_of d \<in> names")
    case True
    then show ?thesis using Cons.IH [OF inj] Cons.prems(2) by (simp add: cons)
  next
    case False
    from Cons.IH [OF inj, of "tools @ [d]" "insert (tool_name_of d) names" "added + length (dumps_of E d)"]
    obtain a where "replay_golden E (golden_entry E ds) (tools @ [d]) (insert (tool_name_of d) names)
        (added + length (dumps_of E d)) = ((tools @ [d]) @ filter (\<lambda>x. tool_name_of x \<notin> names) ds,
          added + length (dumps_of E d) + a)"
      unfolding same using Cons.prems(2) by auto
    then show ?thesis
      using False b Cons.prems(2)
      by (intro exI [of _ "length (dumps_of E d) + a"]) (simp add: cons add.assoc)
  qed
qed (simp add: golden_entry_def)

text \<open>Memory tools are sticky. Take the first request of a session (any earlier traffic of
  other sessions) on which the proxy added memory tools \<open>ds\<close>. Then \<open>ds\<close> are definitions it was
  given, under new and distinct names, and as long as requests of fewer than \<open>n\<close> other sessions
  come in between, every later request of the session whose client declares tools gets the same
  definitions in the same order, minus the names the client itself declares: whether memory is
  enabled on that turn and which definitions it would inject now plays no role.\<close>

theorem memory_tools_sticky:
  assumes new: "new_tracker n = Inr t0" and session: "snd k \<noteq> []"
    and t: "t = fold (\<lambda>(k, r). mem_visit E k r) before t0" and unseen: "entry_at t k = None"
    and mode: "resolve_tool_injection_sticky_mode (lower_of E) (env_tool_sticky E) = Inr Enabled"
    and first: "mem_call E k r1 t = Inr ((out1, True), t1)"
    and t2: "t2 = fold (\<lambda>(k, r). mem_visit E k r) between t1"
    and few: "int (card (fst ` set between - {k})) < n"
    and json: "\<forall>d \<in> set (mq_memory r1). loads_of E (dumps_of E d) = Some d"
  shows "\<exists>ds. out1 = tools_or_empty (mq_tools r1) @ ds \<and> ds \<noteq> [] \<and> set ds \<subseteq> set (mq_memory r1)
    \<and> distinct (map tool_name_of ds)
    \<and> set (map tool_name_of ds) \<inter> set (tool_names (tools_or_empty (mq_tools r1))) = {}
    \<and> (\<forall>r. mq_declared r \<longrightarrow>
         (let tools = tools_or_empty (mq_tools r);
              again = filter (\<lambda>d. tool_name_of d \<notin> set (tool_names tools)) ds in
          \<exists>t3. mem_call E k r t2 = Inr ((tools @ again, again \<noteq> []), t3)))"
proof -
  have t_run: "t = mem_tools.run E before t0" and t2_run: "t2 = mem_tools.run E between t1"
    by (simp_all add: t t2 mem_tools.run_def)
  have ok0: "entries_ok (\<lambda>e. e \<noteq> []) t0" and n0: "int (tr_max_sessions t0) = n"
    using new_tracker_ok [OF new] by auto
  have ok: "entries_ok (\<lambda>e. e \<noteq> []) t" and n: "int (tr_max_sessions t) = n"
    using mem_tools.ok_run [OF ok0] mem_tools.cap_run [OF ok0] n0 by (simp_all add: t_run)
  note tok = entries_okD(1) [OF ok]
  obtain acc where dec: "mem_decide E k r1 None = Inr ((out1, True), acc)" and t1: "t1 = perform k acc t"
    using first unfolding mem_call_decide [OF tok session] unseen
    by (cases "mem_decide E k r1 None") auto
  let ?tools = "tools_or_empty (mq_tools r1)"
  let ?names = "set (tool_names ?tools)"
  have p: "fst k \<in> set memory_providers" using dec by (auto simp: mem_decide_def Let_def split: if_splits)
  obtain added where plan: "first_plan E (mq_memory r1) ?tools ?names 0 None Touch = Inr ((out1, added), acc)"
    and "0 < added"
    using dec p by (auto simp: mem_decide_def Let_def mode map_sum_eq_Inr split: if_splits prod.splits)
  then obtain ds where ds: "out1 = ?tools @ ds" "set ds \<subseteq> set (mq_memory r1)" "injectable E ?names ds"
    "ds \<noteq> []" "acc = Put (golden_entry E ds)"
    using first_plan_spec [of E "mq_memory r1" ?tools "[]" ?names 0 out1 added acc]
    by (auto simp: injectable_def plan_entry_def plan_access_def)
  have gold1: "entry_at t1 k = Some (golden_entry E ds)" using tok by (simp add: t1 ds)
  have g: "golden_entry E ds \<noteq> []" using ds(4) by (simp add: golden_entry_def)
  have ok1: "entries_ok (\<lambda>e. e \<noteq> []) t1"
    unfolding t1 ds(5) by (rule entries_ok_perform [OF ok]) (use g in auto)
  have keep: "entry_after (mem_decide E k r v) v = Some (golden_entry E ds)"
    if "v = Some (golden_entry E ds)" for r v
    using that g by (auto simp: entry_after_def mem_decide_def Let_def mode split: prod.splits)
  have gold2: "entry_at t2 k = Some (golden_entry E ds)"
    unfolding t2_run using few n tok
    by (intro mem_tools.sticky [where Q = "\<lambda>v. v = Some (golden_entry E ds)", OF ok1 session gold1])
      (auto simp: t1 ds(5) newer_write_own keep)
  have tok2: "tracker_ok t2" unfolding t2_run by (rule entries_okD(1) [OF mem_tools.ok_run [OF ok1]])
  have inj: "injectable E {} ds" using ds(3) by (auto simp: injectable_def)
  have load: "\<forall>d \<in> set ds. loads_of E (dumps_of E d) = Some d" using json ds(2) by auto
  have "\<exists>t3. mem_call E k r t2 = Inr ((tools @ again, again \<noteq> []), t3)"
    if "mq_declared r" and "tools = tools_or_empty (mq_tools r)"
      and "again = filter (\<lambda>d. tool_name_of d \<notin> set (tool_names tools)) ds" for r tools again
    using replay_golden_entry [OF inj load, of tools "set (tool_names tools)" 0] that p g
    by (auto simp: mem_call_decide [OF tok2 session] gold2 mem_decide_def Let_def mode)
  then show ?thesis using ds by (auto simp: Let_def injectable_def)
qed

section \<open>Beta headers\<close>

definition beta_decide :: "py_env \<Rightarrow> session_key \<Rightarrow> pystr option \<Rightarrow> pystr list option
    \<Rightarrow> py_error + pystr \<times> pystr list access" where
  "beta_decide E k client v =
     (if fst k = [] then Inl PyValueError
      else bindR (resolve_beta_header_sticky_mode (lower_of E) (env_beta_sticky E)) (\<lambda>mode.
        if mode = Disabled then Inr (raw_strip client, Keep)
        else
          let merged = add_tokens (lower_of E) (case v of None \<Rightarrow> [] | Some l \<Rightarrow> l) (split_beta_tokens client)
          in Inr (join [44] merged, Put merged)))"

text \<open>The tokens of an entry: trimmed, not empty, without a comma, and distinct up to case.\<close>

definition betas_ok :: "(pystr \<Rightarrow> pystr) \<Rightarrow> pystr list \<Rightarrow> bool" where
  "betas_ok low l \<longleftrightarrow> distinct (map low l) \<and> (\<forall>t \<in> set l. t \<noteq> [] \<and> strip t = t \<and> 44 \<notin> set t)"

lemma betas_ok_Nil [simp]: "betas_ok low []"
  by (simp add: betas_ok_def)

lemma split_beta_token_ok:
  assumes "t \<in> set (split_beta_tokens v)"
  shows "t \<noteq> [] \<and> strip t = t \<and> 44 \<notin> set t"
proof -
  obtain s l where "v = Some s" "l \<in> set (split_on 44 s)" "t = strip l" "t \<noteq> []"
    using assms by (auto simp: split_beta_tokens_def split: option.splits if_splits)
  then show ?thesis using set_strip [of l] sep_notin_split_on [of l 44 s] by auto
qed

lemma split_beta_join:
  assumes "betas_ok low l"
  shows "split_beta_tokens (Some (join [44] l)) = l"
proof (cases l)
  case (Cons x xs)
  have "\<forall>t \<in> set l. 44 \<notin> set t" using assms by (simp add: betas_ok_def)
  then have s: "split_on 44 (join [44] l) = l" by (intro split_on_join) (simp_all add: Cons)
  have "map strip l = l" using assms by (intro map_idI) (simp add: betas_ok_def)
  moreover have "filter (\<lambda>t. t \<noteq> []) l = l" using assms by (intro filter_True) (simp add: betas_ok_def)
  moreover have "join [44] l \<noteq> []"
  proof
    assume "join [44] l = []"
    then have "l = [[]]" using s by simp
    then show False using assms by (simp add: betas_ok_def)
  qed
  ultimately show ?thesis by (simp add: split_beta_tokens_def s)
qed (simp add: split_beta_tokens_def)

text \<open>The merge loop only appends, and after it every token is present up to case.\<close>

lemma add_tokens_spec:
  "\<exists>ys. add_tokens low m ts = m @ ys \<and> set ys \<subseteq> set ts \<and> low ` set ts \<subseteq> low ` set (m @ ys)
     \<and> (distinct (map low m) \<longrightarrow> distinct (map low (m @ ys)))"
proof (induction ts arbitrary: m)
  case (Cons t ts)
  show ?case
  proof (cases "low t \<in> low ` set m")
    case True
    obtain ys where "add_tokens low m ts = m @ ys \<and> set ys \<subseteq> set ts \<and> low ` set ts \<subseteq> low ` set (m @ ys)
        \<and> (distinct (map low m) \<longrightarrow> distinct (map low (m @ ys)))"
      using Cons.IH by blast
    then show ?thesis using True by (intro exI [of _ ys]) auto
  next
    case False
    obtain ys where ys: "add_tokens low (m @ [t]) ts = (m @ [t]) @ ys \<and> set ys \<subseteq> set ts
        \<and> low ` set ts \<subseteq> low ` set ((m @ [t]) @ ys)
        \<and> (distinct (map low (m @ [t])) \<longrightarrow> distinct (map low ((m @ [t]) @ ys)))"
      using Cons.IH by blast
    then show ?thesis using False by (intro exI [of _ "t # ys"]) auto
  qed
qed (simp add: exI [of _ "[]"])

lemma betas_ok_add: "betas_ok low m \<Longrightarrow> betas_ok low (add_tokens low m (split_beta_tokens v))"
  using add_tokens_spec [of low m "split_beta_tokens v"] split_beta_token_ok
  by (fastforce simp: betas_ok_def)

definition beta_visit :: "py_env \<Rightarrow> session_key \<Rightarrow> pystr option \<Rightarrow> beta_tracker \<Rightarrow> beta_tracker" where
  "beta_visit E k client t =
     (case record_and_get_sticky_betas E (fst k) (snd k) client t of Inl _ \<Rightarrow> t | Inr (_, t') \<Rightarrow> t')"

lemma beta_call_decide:
  assumes "snd k \<noteq> []"
  shows "record_and_get_sticky_betas E (fst k) (snd k) client t
    = map_sum id (\<lambda>(out, acc). (out, perform k acc t)) (beta_decide E k client (entry_at t k))"
  using assms
  by (cases "resolve_beta_header_sticky_mode (lower_of E) (env_beta_sticky E)")
    (simp_all add: record_and_get_sticky_betas_def beta_decide_def require_key_def Let_def)

lemma beta_visit_decide:
  "beta_visit E k client t = (if snd k \<noteq> [] then act_on k (beta_decide E k client (entry_at t k)) t else t)"
proof (cases "snd k = []")
  case True
  then show ?thesis by (simp add: beta_visit_def record_and_get_sticky_betas_def require_key_def)
next
  case False
  then show ?thesis
    by (cases "beta_decide E k client (entry_at t k)") (auto simp: beta_visit_def beta_call_decide act_on_def)
qed

lemma beta_decide_put:
  "beta_decide E k c v = Inr (out, Put w) \<Longrightarrow> pred_option (betas_ok (lower_of E)) v \<Longrightarrow> betas_ok (lower_of E) w"
  by (cases v) (auto simp: beta_decide_def bindR_eq_Inr Let_def betas_ok_add split: if_splits)

interpretation betas: session_lru "beta_visit E" entry_at
  "\<lambda>k c v. entry_after (beta_decide E k c v) v" newer_keys tr_max_sessions
  "entries_ok (betas_ok (lower_of E))" "\<lambda>k. snd k \<noteq> []" for E
  by (rule session_lruI) (rule beta_visit_decide, erule (1) beta_decide_put)

text \<open>The calls of a session append to its token list, and only what its clients sent.\<close>

lemma beta_entry_step:
  assumes "fst k \<noteq> []" and "resolve_beta_header_sticky_mode (lower_of E) (env_beta_sticky E) = Inr Enabled"
  shows "entry_after (beta_decide E k c (Some l)) (Some l) = Some (add_tokens (lower_of E) l (split_beta_tokens c))"
  using assms by (simp add: entry_after_def beta_decide_def Let_def)

fun sent_by :: "session_key \<Rightarrow> (session_key \<times> pystr option) list \<Rightarrow> pystr set" where
  "sent_by k [] = {}"
| "sent_by k ((k', c) # calls) = (if k' = k then set (split_beta_tokens c) else {}) \<union> sent_by k calls"

lemma beta_own_grows:
  assumes "fst k \<noteq> []" and "resolve_beta_header_sticky_mode (lower_of E) (env_beta_sticky E) = Inr Enabled"
    and "betas_ok (lower_of E) l"
  shows "\<exists>ys. betas.own E k calls (Some l) = Some (l @ ys) \<and> betas_ok (lower_of E) (l @ ys)
    \<and> set ys \<subseteq> sent_by k calls"
  using assms(3)
proof (induction calls arbitrary: l)
  case (Cons x calls)
  obtain k' c where x: "x = (k', c)" by (cases x)
  show ?case
  proof (cases "k' = k")
    case True
    obtain zs where zs: "add_tokens (lower_of E) l (split_beta_tokens c) = l @ zs" "set zs \<subseteq> set (split_beta_tokens c)"
      using add_tokens_spec by blast
    have "betas_ok (lower_of E) (l @ zs)" using betas_ok_add [OF Cons.prems, of c] by (simp add: zs)
    then obtain ys where "betas.own E k calls (Some (l @ zs)) = Some ((l @ zs) @ ys)"
      "betas_ok (lower_of E) ((l @ zs) @ ys)" "set ys \<subseteq> sent_by k calls"
      using Cons.IH by blast
    then show ?thesis
      using zs(2) beta_entry_step [OF assms(1,2), of c l] unfolding zs(1)
      by (intro exI [of _ "zs @ ys"]) (simp add: x True le_supI1 le_supI2)
  next
    case False
    obtain ys where "betas.own E k calls (Some l) = Some (l @ ys)"
      "betas_ok (lower_of E) (l @ ys)" "set ys \<subseteq> sent_by k calls"
      using Cons.IH [OF Cons.prems] by blast
    then show ?thesis using False by (intro exI [of _ ys]) (simp add: x)
  qed
qed simp

text \<open>Beta headers only grow. For any tracker bounded by \<open>n\<close> sessions and any earlier traffic,
  compare two requests of one session with requests of fewer than \<open>n\<close> other sessions in between.
  Reading the returned headers back as token lists, the first is a prefix of the second (tokens are
  added, never dropped or reordered), the second contains every token its client sent, up to case, no
  token occurs twice up to case, and every new token was sent by a client of this session.\<close>

theorem beta_header_grows:
  assumes new: "new_tracker n = Inr t0" and session: "snd k \<noteq> []"
    and mode: "resolve_beta_header_sticky_mode (lower_of E) (env_beta_sticky E) = Inr Enabled"
    and t: "t = fold (\<lambda>(k, c). beta_visit E k c) before t0"
    and first: "record_and_get_sticky_betas E (fst k) (snd k) c1 t = Inr (out1, t1)"
    and t2: "t2 = fold (\<lambda>(k, c). beta_visit E k c) between t1"
    and few: "int (card (fst ` set between - {k})) < n"
    and second: "record_and_get_sticky_betas E (fst k) (snd k) c2 t2 = Inr (out2, t3)"
  shows "prefix (split_beta_tokens (Some out1)) (split_beta_tokens (Some out2))
    \<and> lower_of E ` set (split_beta_tokens c2) \<subseteq> lower_of E ` set (split_beta_tokens (Some out2))
    \<and> distinct (map (lower_of E) (split_beta_tokens (Some out2)))
    \<and> set (split_beta_tokens (Some out2)) \<subseteq> set (split_beta_tokens (Some out1))
        \<union> sent_by k between \<union> set (split_beta_tokens c2)"
proof -
  let ?low = "lower_of E"
  let ?ok = "entries_ok (betas_ok ?low)"
  have t_run: "t = betas.run E before t0" and t2_run: "t2 = betas.run E between t1"
    by (simp_all add: t t2 betas.run_def)
  have ok0: "?ok t0" and n0: "int (tr_max_sessions t0) = n" using new_tracker_ok [OF new] by auto
  have ok: "?ok t" and n: "int (tr_max_sessions t) = n"
    using betas.ok_run [OF ok0] betas.cap_run [OF ok0] n0 by (simp_all add: t_run)
  note tok = entries_okD(1) [OF ok]
  let ?old = "case entry_at t k of None \<Rightarrow> [] | Some l \<Rightarrow> l"
  define m1 where "m1 = add_tokens ?low ?old (split_beta_tokens c1)"
  have k1: "fst k \<noteq> []"
  proof
    assume "fst k = []"
    then show False using first by (simp add: record_and_get_sticky_betas_def require_key_def)
  qed
  have out1: "out1 = join [44] m1" and t1: "t1 = write_entry k m1 t"
    using first k1 by (simp_all add: beta_call_decide session beta_decide_def mode Let_def m1_def)
  have "betas_ok ?low ?old" using entries_okD(2) [OF ok] by (auto split: option.splits)
  then have m1: "betas_ok ?low m1" unfolding m1_def by (rule betas_ok_add)
  have ok1: "?ok t1" using entries_ok_perform [OF ok, of "Put m1" k] m1 by (simp add: t1)
  have at1: "entry_at t1 k = Some m1" using tok by (simp add: t1)
  obtain ys where own: "betas.own E k between (Some m1) = Some (m1 @ ys)"
    and m2: "betas_ok ?low (m1 @ ys)" and ys: "set ys \<subseteq> sent_by k between"
    using beta_own_grows [OF k1 mode m1] by blast
  have "newer_keys t1 k = {}" unfolding t1 by (rule newer_write_own [OF tok])
  moreover have "card (fst ` set between - {k}) < tr_max_sessions t1" using few n by (simp add: t1)
  ultimately have "entry_at (betas.run E between t1) k = betas.own E k between (entry_at t1 k)"
    by (rule betas.isolated [OF ok1 session])
  then have at2: "entry_at t2 k = Some (m1 @ ys)" by (simp add: t2_run at1 own)
  obtain zs where zs: "add_tokens ?low (m1 @ ys) (split_beta_tokens c2) = (m1 @ ys) @ zs"
    "set zs \<subseteq> set (split_beta_tokens c2)"
    "?low ` set (split_beta_tokens c2) \<subseteq> ?low ` set ((m1 @ ys) @ zs)"
    using add_tokens_spec by blast
  have m3: "betas_ok ?low ((m1 @ ys) @ zs)" using betas_ok_add [OF m2, of c2] by (simp add: zs(1))
  have "out2 = join [44] ((m1 @ ys) @ zs)"
    using second k1 by (simp add: beta_call_decide session beta_decide_def mode Let_def at2 zs(1))
  then have "split_beta_tokens (Some out1) = m1" "split_beta_tokens (Some out2) = (m1 @ ys) @ zs"
    using split_beta_join [OF m1] split_beta_join [OF m3] by (simp_all add: out1)
  moreover have "set ((m1 @ ys) @ zs) \<subseteq> set m1 \<union> sent_by k between \<union> set (split_beta_tokens c2)"
    using ys zs(2) by (simp add: le_supI1 le_supI2)
  moreover have "distinct (map ?low ((m1 @ ys) @ zs))" using m3 unfolding betas_ok_def by (rule conjunct1)
  ultimately show ?thesis using zs(3) by (simp only: append_assoc prefixI)
qed

section \<open>Examples\<close>

text \<open>A two-session tracker, one tool definition \<open>d\<close> as everything JSON ever sees, and two
  sessions.\<close>

definition demo_env :: "pydict \<Rightarrow> py_env" where
  "demo_env d = \<lparr>lower_of = ascii_lower, dumps_of = (\<lambda>_. [123, 125]), loads_of = (\<lambda>_. Some d),
     env_tool_sticky = None, env_ccr_injection = Some (u ''lazy''), env_beta_sticky = None\<rparr>"

definition demo_tracker :: "(session_key, 'v) tracker" where
  "demo_tracker = \<lparr>tr_max_sessions = 2, tr_sessions = []\<rparr>"

lemma demo_tracker_new: "new_tracker 2 = Inr demo_tracker"
  by (simp add: new_tracker_def demo_tracker_def)

lemma demo_modes:
  "resolve_tool_injection_sticky_mode (lower_of (demo_env d)) (env_tool_sticky (demo_env d)) = Inr Enabled"
  "resolve_beta_header_sticky_mode (lower_of (demo_env d)) (env_beta_sticky (demo_env d)) = Inr Enabled"
  by (simp_all add: demo_env_def resolve_tool_injection_sticky_mode_def resolve_beta_header_sticky_mode_def
      resolve_sticky_mode_def raw_strip_def strip_def lstrip_def rstrip_def ascii_lower_def)

definition demo_session :: "string \<Rightarrow> session_key" where
  "demo_session s = (u ''anthropic'', u s)"

lemma demo_session_simps [simp]:
  "fst (demo_session s) = u ''anthropic''" "snd (demo_session s) = u s"
  by (simp_all add: demo_session_def)

lemma demo_few: "int (card (fst ` set [(demo_session ''b'', r)] - {demo_session ''a''})) < 2"
  by (simp add: demo_session_def)

definition ccr_req :: "bool \<Rightarrow> ccr_request" where
  "ccr_req c = \<lparr>rq_tools = None, rq_compressed = c, rq_history = False, rq_eager = False\<rparr>"

lemma ccr_demo_first:
  "\<exists>t1. ccr_call (demo_env d) (demo_session ''a'') (ccr_req True) demo_tracker
     = Inr (([create_ccr_tool_definition (u ''anthropic'')], True), t1)"
proof -
  have "tracker_ok (demo_tracker :: ccr_tracker)" by (simp add: tracker_ok_def demo_tracker_def)
  then show ?thesis
    by (simp add: ccr_call_decide ccr_decide_def ccr_req_def tools_or_empty_def ccr_providers_def
        client_retrieval_tool_name_def entry_at_def demo_tracker_def eager_now_def ccr_fresh_def
        demo_env_def Let_def)
qed

theorem retrieval_tool_sticky_witness:
  "\<exists>E d t1 t2 t3.
     ccr_call E (demo_session ''a'') (ccr_req True) demo_tracker = Inr (([d], True), t1)
     \<and> ccr_visit E (demo_session ''b'') (ccr_req True) t1 = t2
     \<and> ccr_call E (demo_session ''a'') (ccr_req False) t2 = Inr (([d], True), t3)"
proof -
  let ?E = "demo_env (create_ccr_tool_definition (u ''anthropic''))"
  obtain t1 where first: "ccr_call ?E (demo_session ''a'') (ccr_req True) demo_tracker
      = Inr (([create_ccr_tool_definition (u ''anthropic'')], True), t1)"
    using ccr_demo_first by blast
  have json: "loads_of ?E (dumps_of ?E (create_ccr_tool_definition (fst (demo_session ''a''))))
      = Some (create_ccr_tool_definition (fst (demo_session ''a'')))"
    by (simp add: demo_env_def)
  have none: "client_retrieval_tool_name (lower_of ?E) (tools_or_empty (rq_tools (ccr_req False))) = None"
    by (simp add: ccr_req_def tools_or_empty_def client_retrieval_tool_name_def)
  have "snd (demo_session ''a'') \<noteq> []" by simp
  from retrieval_tool_sticky [OF demo_tracker_new this _ first refl demo_few json, of "[]" "ccr_req True"]
  obtain d where d: "[create_ccr_tool_definition (u ''anthropic'')] = tools_or_empty (rq_tools (ccr_req True)) @ [d]"
    and later: "\<And>r. client_retrieval_tool_name (lower_of ?E) (tools_or_empty (rq_tools r)) = None \<Longrightarrow>
      \<exists>t3. ccr_call ?E (demo_session ''a'') r (ccr_visit ?E (demo_session ''b'') (ccr_req True) t1)
        = Inr ((tools_or_empty (rq_tools r) @ [d], True), t3)"
    by auto
  have "tools_or_empty (rq_tools (ccr_req c)) = []" for c by (simp add: ccr_req_def tools_or_empty_def)
  then show ?thesis using later [OF none] first d by (metis append_Nil)
qed

definition demo_tool :: pydict where
  "demo_tool = [(u ''name'', JStr (u ''memory_save''))]"

definition mem_req :: "bool \<Rightarrow> mem_request" where
  "mem_req inject = \<lparr>mq_tools = Some [], mq_memory = [demo_tool], mq_inject = inject, mq_declared = True\<rparr>"

lemma mem_demo_first:
  "\<exists>t1. mem_call (demo_env d) (demo_session ''a'') (mem_req True) demo_tracker = Inr (([demo_tool], True), t1)"
proof -
  have "tracker_ok (demo_tracker :: tool_tracker)" by (simp add: tracker_ok_def demo_tracker_def)
  then show ?thesis
    using demo_modes(1) [of d]
    by (simp add: mem_call_decide mem_decide_def mem_req_def tools_or_empty_def memory_providers_def
        entry_at_def demo_tracker_def demo_env_def demo_tool_def extract_tool_name_def Let_def
        tool_names_def map_filter_def)
qed

theorem memory_tools_sticky_witness:
  "\<exists>E t1 t2 t3.
     mem_call E (demo_session ''a'') (mem_req True) demo_tracker = Inr (([demo_tool], True), t1)
     \<and> mem_visit E (demo_session ''b'') (mem_req True) t1 = t2
     \<and> mem_call E (demo_session ''a'') (mem_req False) t2 = Inr (([demo_tool], True), t3)"
proof -
  let ?E = "demo_env demo_tool"
  obtain t1 where first: "mem_call ?E (demo_session ''a'') (mem_req True) demo_tracker
      = Inr (([demo_tool], True), t1)"
    using mem_demo_first by blast
  have json: "\<forall>d \<in> set (mq_memory (mem_req True)). loads_of ?E (dumps_of ?E d) = Some d"
    by (simp add: demo_env_def mem_req_def)
  have unseen: "entry_at (demo_tracker :: tool_tracker) (demo_session ''a'') = None"
    by (simp add: entry_at_def demo_tracker_def)
  have "snd (demo_session ''a'') \<noteq> []" by simp
  from memory_tools_sticky [OF demo_tracker_new this _ unseen demo_modes(1) first refl demo_few json, of "[]" "mem_req True"]
  obtain ds where ds: "[demo_tool] = tools_or_empty (mq_tools (mem_req True)) @ ds"
    and later: "\<And>r. mq_declared r \<Longrightarrow>
      \<exists>t3. mem_call ?E (demo_session ''a'') r (mem_visit ?E (demo_session ''b'') (mem_req True) t1)
        = Inr ((tools_or_empty (mq_tools r) @
            filter (\<lambda>d. tool_name_of d \<notin> set (tool_names (tools_or_empty (mq_tools r)))) ds,
          filter (\<lambda>d. tool_name_of d \<notin> set (tool_names (tools_or_empty (mq_tools r)))) ds \<noteq> []), t3)"
    by (auto simp: Let_def)
  have e: "tools_or_empty (mq_tools (mem_req c)) = []" "tool_names [] = []" "mq_declared (mem_req c)" for c
    by (simp_all add: mem_req_def tools_or_empty_def tool_names_def map_filter_def)
  have "ds = [demo_tool]" using ds by (simp add: e)
  then have "\<exists>t3. mem_call ?E (demo_session ''a'') (mem_req False)
      (mem_visit ?E (demo_session ''b'') (mem_req True) t1) = Inr (([demo_tool], True), t3)"
    using later [OF e(3) [of False]] by (simp add: e)
  then show ?thesis using first by blast
qed

lemma beta_demo:
  "\<exists>t1. record_and_get_sticky_betas (demo_env d) (u ''anthropic'') (u ''a'') (Some (u s)) t = Inr (out, t1)"
  if "out = join [44] (add_tokens ascii_lower (case entry_at t (u ''anthropic'', u ''a'') of None \<Rightarrow> [] | Some l \<Rightarrow> l)
        (split_beta_tokens (Some (u s))))"
  using demo_modes(2) [of d] that
  by (simp add: record_and_get_sticky_betas_def require_key_def Let_def demo_env_def)

theorem beta_header_grows_witness:
  "\<exists>E out1 out2 t1 t2 t3.
     record_and_get_sticky_betas E (u ''anthropic'') (u ''a'') (Some (u ''x,y'')) demo_tracker = Inr (out1, t1)
     \<and> beta_visit E (demo_session ''b'') (Some (u ''q'')) t1 = t2
     \<and> record_and_get_sticky_betas E (u ''anthropic'') (u ''a'') (Some (u ''X,z'')) t2 = Inr (out2, t3)
     \<and> prefix (split_beta_tokens (Some out1)) (split_beta_tokens (Some out2))"
proof -
  let ?E = "demo_env []"
  obtain out1 t1 where first: "record_and_get_sticky_betas ?E (u ''anthropic'') (u ''a'') (Some (u ''x,y''))
      demo_tracker = Inr (out1, t1)"
    using beta_demo by blast
  define t2 where "t2 = beta_visit ?E (demo_session ''b'') (Some (u ''q'')) t1"
  obtain out2 t3 where second: "record_and_get_sticky_betas ?E (u ''anthropic'') (u ''a'') (Some (u ''X,z'')) t2
      = Inr (out2, t3)"
    using beta_demo by blast
  have "snd (demo_session ''a'') \<noteq> []" by simp
  then have "prefix (split_beta_tokens (Some out1)) (split_beta_tokens (Some out2))"
    using beta_header_grows [OF demo_tracker_new, of "demo_session ''a''" ?E demo_tracker "[]" "Some (u ''x,y'')"
        out1 t1 t2 "[(demo_session ''b'', Some (u ''q''))]" "Some (u ''X,z'')" out2 t3]
      first second demo_modes(2) demo_few
    by (simp add: t2_def)
  then show ?thesis using first second t2_def by blast
qed

end
