(* ===== verification/Rate_Limiter.thy ===== *)
theory Rate_Limiter
  imports Session_Lru
begin

text \<open>
  The token-bucket rate limiter (\<open>proxy/rate_limiter.py\<close>, \<open>proxy/rate_limit_policy.py\<close>,
  \<open>RateLimitState\<close> of \<open>proxy/models.py\<close>): request and token buckets per API key or address,
  kept for at most \<open>MAX_RATE_LIMITER_BUCKETS\<close> keys by one shared least-recently-used order.

  Times and token counts are reals. \<open>time.time()\<close> is an argument: \<open>made\<close> is the reading
  when a missing bucket is created, \<open>now\<close> the reading of the refill. A rate of 0 makes
  \<open>60.0 / rate\<close> raise; the state changed before that is kept, so a check returns the new state
  and a result. \<open>asyncio.Lock\<close> makes each check atomic.
\<close>

section \<open>Bucket arithmetic\<close>

datatype rl_error = ZeroDivision

definition refilled_tokens :: "real \<Rightarrow> real \<Rightarrow> real \<Rightarrow> real \<Rightarrow> real" where
  "refilled_tokens current_tokens last_update now rate =
     (let elapsed = max 0 (now - last_update);
          refill = elapsed * (rate / 60)
      in min rate (current_tokens + refill))"

definition consume_from_bucket :: "real \<Rightarrow> real \<Rightarrow> real \<Rightarrow> rl_error + bool \<times> real \<times> real" where
  "consume_from_bucket available requested rate =
     (let required = min requested rate in
      if required \<le> available then Inr (True, available - requested, 0)
      else if rate = 0 then Inl ZeroDivision
      else Inr (False, available, (required - available) * (60 / rate)))"

section \<open>The limiter\<close>

record rate_state =
  rs_tokens :: real
  rs_last_update :: real

record limiter =
  rl_requests_per_minute :: int
  rl_tokens_per_minute :: "int option"
  rl_request_buckets :: "(pystr, rate_state) odict"
  rl_token_buckets :: "(pystr, rate_state) odict"
  rl_lru :: "pystr list"

definition MAX_RATE_LIMITER_BUCKETS :: nat where
  "MAX_RATE_LIMITER_BUCKETS = 1000"

definition new_limiter :: "int \<Rightarrow> int option \<Rightarrow> limiter" where
  "new_limiter rpm tpm = \<lparr>rl_requests_per_minute = rpm, rl_tokens_per_minute = tpm,
     rl_request_buckets = [], rl_token_buckets = [], rl_lru = []\<rparr>"

definition touch_bucket :: "pystr \<Rightarrow> limiter \<Rightarrow> limiter" where
  "touch_bucket key l =
     (if key \<in> set (rl_lru l) then l\<lparr>rl_lru := remove1 key (rl_lru l) @ [key]\<rparr>
      else
        let l1 = (if MAX_RATE_LIMITER_BUCKETS \<le> length (rl_lru l) then
                    let evicted = hd (rl_lru l) in
                    l\<lparr>rl_lru := tl (rl_lru l),
                      rl_request_buckets := AList.delete evicted (rl_request_buckets l),
                      rl_token_buckets := AList.delete evicted (rl_token_buckets l)\<rparr>
                  else l)
        in l1\<lparr>rl_lru := rl_lru l1 @ [key]\<rparr>)"

text \<open>\<open>_request_bucket\<close> and \<open>_token_bucket\<close>: the bucket of a key, created full.\<close>

definition bucket_of :: "real \<Rightarrow> real \<Rightarrow> pystr \<Rightarrow> (pystr, rate_state) odict \<Rightarrow> rate_state" where
  "bucket_of capacity made key buckets =
     (case map_of buckets key of
        Some s \<Rightarrow> s
      | None \<Rightarrow> \<lparr>rs_tokens = capacity, rs_last_update = made\<rparr>)"

text \<open>\<open>_refill\<close>, then \<open>consume_from_bucket\<close> written back into the bucket.\<close>

definition refill :: "real \<Rightarrow> real \<Rightarrow> rate_state \<Rightarrow> rate_state" where
  "refill now rate s =
     \<lparr>rs_tokens = refilled_tokens (rs_tokens s) (rs_last_update s) now rate, rs_last_update = now\<rparr>"

definition consume :: "real \<Rightarrow> real \<Rightarrow> rate_state \<Rightarrow> (rl_error + bool \<times> real) \<times> rate_state" where
  "consume requested rate s =
     (case consume_from_bucket (rs_tokens s) requested rate of
        Inl e \<Rightarrow> (Inl e, s)
      | Inr (allowed, tokens, wait) \<Rightarrow> (Inr (allowed, wait), s\<lparr>rs_tokens := tokens\<rparr>))"

definition check_request :: "real \<Rightarrow> real \<Rightarrow> pystr \<Rightarrow> limiter \<Rightarrow> (rl_error + bool \<times> real) \<times> limiter" where
  "check_request made now key l =
     (let l1 = touch_bucket key l;
          rate = of_int (rl_requests_per_minute l);
          s = refill now rate (bucket_of rate made key (rl_request_buckets l1));
          (res, s') = consume 1 rate s
      in (res, l1\<lparr>rl_request_buckets := AList.update key s' (rl_request_buckets l1)\<rparr>))"

definition check_tokens ::
  "real \<Rightarrow> real \<Rightarrow> pystr \<Rightarrow> int \<Rightarrow> limiter \<Rightarrow> (rl_error + bool \<times> real) \<times> limiter" where
  "check_tokens made now key token_count l =
     (case rl_tokens_per_minute l of
        None \<Rightarrow> (Inr (True, 0), l)
      | Some tpm \<Rightarrow>
          let l1 = touch_bucket key l;
              rate = of_int tpm;
              s = refill now rate (bucket_of rate made key (rl_token_buckets l1));
              (res, s') = consume (of_int token_count) rate s
          in (res, l1\<lparr>rl_token_buckets := AList.update key s' (rl_token_buckets l1)\<rparr>))"

definition limiter_stats :: "limiter \<Rightarrow> int \<times> int option \<times> nat" where
  "limiter_stats l = (rl_requests_per_minute l, rl_tokens_per_minute l, length (rl_lru l))"

end
