(* ===== verification/Rate_Limiter_Props.thy ===== *)
theory Rate_Limiter_Props
  imports Rate_Limiter
begin

text \<open>
  Properties of the rate limiter. Through the view \<open>tracker_of\<close> (each key with its two buckets,
  in LRU order) a check is a write of the shared bounded table, so the contract \<open>session_lru\<close>
  applies: a key is served as if it had the limiter to itself while fewer than 1000 other keys are
  active. The rate bound and the waiting time are then facts about one bucket.
\<close>

section \<open>The limiter as a bounded table\<close>

type_synonym buckets = "rate_state option \<times> rate_state option"

definition tracker_of :: "limiter \<Rightarrow> (pystr, buckets) tracker" where
  "tracker_of l = \<lparr>tr_max_sessions = MAX_RATE_LIMITER_BUCKETS,
     tr_sessions = map (\<lambda>k. (k, (map_of (rl_request_buckets l) k, map_of (rl_token_buckets l) k))) (rl_lru l)\<rparr>"

text \<open>The limiter's invariant; the rates are those it was built with.\<close>

definition limiter_ok :: "int \<Rightarrow> int option \<Rightarrow> limiter \<Rightarrow> bool" where
  "limiter_ok rpm tpm l \<longleftrightarrow> distinct (rl_lru l) \<and> length (rl_lru l) \<le> MAX_RATE_LIMITER_BUCKETS
     \<and> dom (map_of (rl_request_buckets l)) \<subseteq> set (rl_lru l)
     \<and> dom (map_of (rl_token_buckets l)) \<subseteq> set (rl_lru l)
     \<and> rl_requests_per_minute l = rpm \<and> rl_tokens_per_minute l = tpm"

lemma entry_tracker_of:
  "entry_at (tracker_of l) k = (if k \<in> set (rl_lru l)
     then Some (map_of (rl_request_buckets l) k, map_of (rl_token_buckets l) k) else None)"
  by (simp add: entry_at_def tracker_of_def map_of_map_restrict restrict_map_def)

lemma tracker_of_ok: "limiter_ok rpm tpm l \<Longrightarrow> entries_ok (\<lambda>_. True) (tracker_of l)"
  by (simp add: entries_ok_def tracker_ok_def limiter_ok_def tracker_of_def MAX_RATE_LIMITER_BUCKETS_def
      comp_def)

text \<open>Touching a key moves it to the end of the order, drops the oldest key beyond the bound, and
  leaves the buckets of the keys that stay alone.\<close>

definition touched_order :: "pystr \<Rightarrow> limiter \<Rightarrow> pystr list" where
  "touched_order key l = filter (\<lambda>k. k \<noteq> key) (rl_lru l) @ [key]"

lemma touch_order:
  assumes "limiter_ok rpm tpm l"
  shows "rl_lru (touch_bucket key l)
    = drop (length (touched_order key l) - MAX_RATE_LIMITER_BUCKETS) (touched_order key l)"
proof -
  have d: "distinct (rl_lru l)" and len: "length (rl_lru l) \<le> MAX_RATE_LIMITER_BUCKETS"
    using assms(1) by (auto simp: limiter_ok_def)
  show ?thesis
  proof (cases "key \<in> set (rl_lru l)")
    case True
    have rem: "remove1 key (rl_lru l) = filter (\<lambda>k. k \<noteq> key) (rl_lru l)"
      using d by (simp add: distinct_remove1_removeAll removeAll_filter_not_eq eq_commute)
    have "Suc (length (filter (\<lambda>k. k \<noteq> key) (rl_lru l))) = length (rl_lru l)"
      using True length_pos_if_in_set [OF True] by (simp add: length_remove1 flip: rem)
    then show ?thesis
      using True len by (simp add: touch_bucket_def touched_order_def rem)
  next
    case False
    then have X: "touched_order key l = rl_lru l @ [key]"
      by (auto simp: touched_order_def intro!: filter_True)
    show ?thesis
    proof (cases "MAX_RATE_LIMITER_BUCKETS \<le> length (rl_lru l)")
      case True
      then have "length (rl_lru l) = MAX_RATE_LIMITER_BUCKETS" using len by simp
      then show ?thesis
        using False by (simp add: touch_bucket_def X Let_def MAX_RATE_LIMITER_BUCKETS_def drop_Suc)
    next
      case False
      then show ?thesis using \<open>key \<notin> set (rl_lru l)\<close> by (simp add: touch_bucket_def X)
    qed
  qed
qed

lemma touch_buckets:
  assumes "limiter_ok rpm tpm l" and "k \<in> set (rl_lru (touch_bucket key l))"
  shows "map_of (rl_request_buckets (touch_bucket key l)) k = map_of (rl_request_buckets l) k"
    and "map_of (rl_token_buckets (touch_bucket key l)) k = map_of (rl_token_buckets l) k"
proof -
  have d: "distinct (rl_lru l)" using assms(1) by (simp add: limiter_ok_def)
  have "k \<noteq> hd (rl_lru l)" if "key \<notin> set (rl_lru l)" "MAX_RATE_LIMITER_BUCKETS \<le> length (rl_lru l)"
    using assms(2) that d
    by (cases "rl_lru l") (auto simp: touch_bucket_def Let_def MAX_RATE_LIMITER_BUCKETS_def)
  then show "map_of (rl_request_buckets (touch_bucket key l)) k = map_of (rl_request_buckets l) k"
    "map_of (rl_token_buckets (touch_bucket key l)) k = map_of (rl_token_buckets l) k"
    by (auto simp: touch_bucket_def Let_def delete_conv')
qed

lemma touch_frame [simp]:
  "rl_requests_per_minute (touch_bucket key l) = rl_requests_per_minute l"
  "rl_tokens_per_minute (touch_bucket key l) = rl_tokens_per_minute l"
  by (simp_all add: touch_bucket_def Let_def)

lemma key_in_touch: "limiter_ok rpm tpm l \<Longrightarrow> key \<in> set (rl_lru (touch_bucket key l))"
  by (auto simp: touch_bucket_def Let_def)

lemma touch_dom:
  assumes "limiter_ok rpm tpm l"
  shows "dom (map_of (rl_request_buckets (touch_bucket key l))) \<subseteq> set (rl_lru (touch_bucket key l))
    \<and> dom (map_of (rl_token_buckets (touch_bucket key l))) \<subseteq> set (rl_lru (touch_bucket key l))"
proof -
  have dom: "dom (map_of (rl_request_buckets l)) \<subseteq> set (rl_lru l)"
    "dom (map_of (rl_token_buckets l)) \<subseteq> set (rl_lru l)" "distinct (rl_lru l)"
    using assms by (auto simp: limiter_ok_def)
  have del: "dom (map_of (AList.delete (hd ks) b)) \<subseteq> set (tl ks)" if "dom (map_of b) \<subseteq> set ks" for ks b
    using that by (cases ks) (auto simp: delete_conv' split: if_splits)
  show ?thesis
    using dom del [OF dom(1)] del [OF dom(2)]
    by (simp add: touch_bucket_def Let_def set_remove1_eq) blast
qed

text \<open>A check writes the key's pair of buckets into the table.\<close>

lemma write_view:
  assumes ok: "limiter_ok rpm tpm l" and l1: "l1 = touch_bucket key l"
    and lru: "rl_lru l' = rl_lru l1"
    and rq: "\<And>k. k \<noteq> key \<Longrightarrow> map_of (rl_request_buckets l') k = map_of (rl_request_buckets l1) k"
    and tk: "\<And>k. k \<noteq> key \<Longrightarrow> map_of (rl_token_buckets l') k = map_of (rl_token_buckets l1) k"
  shows "tracker_of l' = write_entry key (map_of (rl_request_buckets l') key, map_of (rl_token_buckets l') key) (tracker_of l)"
proof -
  let ?g = "\<lambda>l k. (k, (map_of (rl_request_buckets l) k, map_of (rl_token_buckets l) k))"
  let ?n = "length (touched_order key l) - MAX_RATE_LIMITER_BUCKETS"
  define h where "h = (\<lambda>k. if k = key then ?g l' key else ?g l k)"
  have X: "map h (touched_order key l) = AList.delete key (map (?g l) (rl_lru l)) @ [?g l' key]"
    by (auto simp: touched_order_def h_def delete_as_filter filter_map comp_def)
  have "tr_sessions (tracker_of l') = map h (rl_lru l1)"
    using touch_buckets [OF ok] rq tk by (auto simp: tracker_of_def lru h_def l1)
  also have "\<dots> = drop ?n (map h (touched_order key l))"
    using touch_order [OF ok, of key] by (simp add: l1 drop_map)
  also have "\<dots> = trim_oldest MAX_RATE_LIMITER_BUCKETS (map h (touched_order key l))"
    by (simp add: trim_oldest_drop)
  also have "\<dots> = tr_sessions (write_entry key (snd (?g l' key)) (tracker_of l))"
    unfolding X write_entry_sessions [OF entries_okD(1) [OF tracker_of_ok [OF ok]]]
    by (simp add: tracker_of_def)
  finally show ?thesis by (simp add: write_entry_def tracker_of_def)
qed

section \<open>One key\<close>

datatype rl_call = Request real real | Tokens real real int

definition limiter_call :: "pystr \<Rightarrow> rl_call \<Rightarrow> limiter \<Rightarrow> (rl_error + bool \<times> real) \<times> limiter" where
  "limiter_call k a l = (case a of
     Request made now \<Rightarrow> check_request made now k l
   | Tokens made now c \<Rightarrow> check_tokens made now k c l)"

definition bucket_check :: "real \<Rightarrow> real \<Rightarrow> real \<Rightarrow> real \<Rightarrow> rate_state option
    \<Rightarrow> (rl_error + bool \<times> real) \<times> rate_state" where
  "bucket_check rate requested made now b = consume requested rate
     (refill now rate (case b of Some s \<Rightarrow> s | None \<Rightarrow> \<lparr>rs_tokens = rate, rs_last_update = made\<rparr>))"

fun limiter_decide :: "int \<Rightarrow> int option \<Rightarrow> pystr \<Rightarrow> rl_call \<Rightarrow> buckets option
    \<Rightarrow> unit + (rl_error + bool \<times> real) \<times> buckets access" where
  "limiter_decide rpm tpm k (Request made now) v =
     (let (rq, tk) = (case v of None \<Rightarrow> (None, None) | Some p \<Rightarrow> p);
          (res, s) = bucket_check (of_int rpm) 1 made now rq
      in Inr (res, Put (Some s, tk)))"
| "limiter_decide rpm tpm k (Tokens made now c) v =
     (case tpm of
        None \<Rightarrow> Inr (Inr (True, 0), Keep)
      | Some r \<Rightarrow>
          (let (rq, tk) = (case v of None \<Rightarrow> (None, None) | Some p \<Rightarrow> p);
               (res, s) = bucket_check (of_int r) (of_int c) made now tk
           in Inr (res, Put (rq, Some s))))"

lemma bucket_of_view:
  "bucket_of cap made k b = (case map_of b k of Some s \<Rightarrow> s | None \<Rightarrow> \<lparr>rs_tokens = cap, rs_last_update = made\<rparr>)"
  by (simp add: bucket_of_def)

lemma view_pair:
  assumes "limiter_ok rpm tpm l"
  shows "(case entry_at (tracker_of l) k of None \<Rightarrow> (None, None) | Some p \<Rightarrow> p)
    = (map_of (rl_request_buckets l) k, map_of (rl_token_buckets l) k)"
proof -
  have "map_of (rl_request_buckets l) k = None \<and> map_of (rl_token_buckets l) k = None" if "k \<notin> set (rl_lru l)"
    using that assms unfolding limiter_ok_def by blast
  then show ?thesis by (simp add: entry_tracker_of)
qed

lemma limiter_call_decide:
  assumes ok: "limiter_ok rpm tpm l"
  shows "\<exists>acc. limiter_decide rpm tpm k a (entry_at (tracker_of l) k) = Inr (fst (limiter_call k a l), acc)
    \<and> tracker_of (snd (limiter_call k a l)) = perform k acc (tracker_of l)"
proof -
  have rates: "rl_requests_per_minute l = rpm" "rl_tokens_per_minute l = tpm"
    using ok by (simp_all add: limiter_ok_def)
  note same = touch_buckets [OF ok key_in_touch [OF ok]]
  show ?thesis
  proof (cases a)
    case (Request made now)
    obtain res s where b: "bucket_check (of_int rpm) 1 made now (map_of (rl_request_buckets l) k) = (res, s)"
      by (cases "bucket_check (of_int rpm) 1 made now (map_of (rl_request_buckets l) k)")
    let ?l1 = "touch_bucket k l"
    let ?l' = "?l1\<lparr>rl_request_buckets := AList.update k s (rl_request_buckets ?l1)\<rparr>"
    have "check_request made now k l = (res, ?l')"
      using b by (simp add: check_request_def bucket_check_def bucket_of_def Let_def rates same)
    moreover have "tracker_of ?l' = write_entry k (Some s, map_of (rl_token_buckets l) k) (tracker_of l)"
      using write_view [OF ok refl, of ?l' k] by (simp add: update_conv' same)
    ultimately show ?thesis
      using b by (simp add: Request limiter_call_def view_pair [OF ok] Let_def)
  next
    case (Tokens made now c)
    show ?thesis
    proof (cases tpm)
      case None
      then show ?thesis by (simp add: Tokens limiter_call_def check_tokens_def rates exI [of _ Keep])
    next
      case (Some r)
      obtain res s where b: "bucket_check (of_int r) (of_int c) made now (map_of (rl_token_buckets l) k) = (res, s)"
        by (cases "bucket_check (of_int r) (of_int c) made now (map_of (rl_token_buckets l) k)")
      let ?l1 = "touch_bucket k l"
      let ?l' = "?l1\<lparr>rl_token_buckets := AList.update k s (rl_token_buckets ?l1)\<rparr>"
      have "check_tokens made now k c l = (res, ?l')"
        using b by (simp add: check_tokens_def bucket_check_def bucket_of_def Let_def rates same Some)
      moreover have "tracker_of ?l' = write_entry k (map_of (rl_request_buckets l) k, Some s) (tracker_of l)"
        using write_view [OF ok refl, of ?l' k] by (simp add: update_conv' same)
      ultimately show ?thesis
        using b by (simp add: Tokens limiter_call_def view_pair [OF ok] Let_def Some)
    qed
  qed
qed

lemma touch_ok:
  assumes "limiter_ok rpm tpm l"
  shows "limiter_ok rpm tpm (touch_bucket key l)"
proof -
  have "distinct (touched_order key l)"
    using assms by (simp add: touched_order_def limiter_ok_def)
  then show ?thesis
    using touch_dom [OF assms, of key] touch_order [OF assms, of key] assms by (simp add: limiter_ok_def)
qed

lemma limiter_call_ok:
  assumes "limiter_ok rpm tpm l"
  shows "limiter_ok rpm tpm (snd (limiter_call k a l))"
  using touch_ok [OF assms, of k] key_in_touch [OF assms, of k] assms
  by (auto simp: limiter_call_def check_request_def check_tokens_def limiter_ok_def Let_def update_conv'
      split: rl_call.splits option.splits prod.splits)

interpretation limit: session_lru "\<lambda>k a l. snd (limiter_call k a l)" "\<lambda>l. entry_at (tracker_of l)"
  "\<lambda>k a v. entry_after (limiter_decide rpm tpm k a v) v" "\<lambda>l. newer_keys (tracker_of l)"
  "\<lambda>l. tr_max_sessions (tracker_of l)" "limiter_ok rpm tpm" "\<lambda>k. True" for rpm tpm
proof (rule session_lru_viewI [where P = "\<lambda>_. True"])
  fix l k a
  assume ok: "limiter_ok rpm tpm l"
  show "entries_ok (\<lambda>_. True) (tracker_of l)" by (rule tracker_of_ok [OF ok])
  show "limiter_ok rpm tpm (snd (limiter_call k a l))" by (rule limiter_call_ok [OF ok])
  show "tracker_of (snd (limiter_call k a l)) = (if True then
      act_on k (limiter_decide rpm tpm k a (entry_at (tracker_of l) k)) (tracker_of l) else tracker_of l)"
    using limiter_call_decide [OF ok, of k a] by (auto simp: act_on_def)
qed

section \<open>The rate holds\<close>

fun admitted :: "pystr \<Rightarrow> (pystr \<times> rl_call) list \<Rightarrow> limiter \<Rightarrow> nat" where
  "admitted k [] l = 0"
| "admitted k ((k', a) # calls) l =
     (case (a, fst (limiter_call k' a l)) of
        (Request _ _, Inr (True, _)) \<Rightarrow> if k' = k then 1 else 0
      | _ \<Rightarrow> 0) + admitted k calls (snd (limiter_call k' a l))"

fun request_times :: "pystr \<Rightarrow> (pystr \<times> rl_call) list \<Rightarrow> real list" where
  "request_times k [] = []"
| "request_times k ((k', a) # calls) =
     (case a of Request _ now \<Rightarrow> if k' = k then [now] else [] | _ \<Rightarrow> []) @ request_times k calls"

definition limiter_run :: "(pystr \<times> rl_call) list \<Rightarrow> limiter \<Rightarrow> limiter" where
  "limiter_run calls l = fold (\<lambda>(k, a) l. snd (limiter_call k a l)) calls l"

text \<open>What one call of the key adds to the count, given the key's buckets.\<close>

definition admits :: "int \<Rightarrow> int option \<Rightarrow> pystr \<Rightarrow> rl_call \<Rightarrow> buckets option \<Rightarrow> nat" where
  "admits rpm tpm k a v = (case (a, limiter_decide rpm tpm k a v) of
     (Request _ _, Inr (Inr (True, _), _)) \<Rightarrow> 1 | _ \<Rightarrow> 0)"

lemma admitted_outs:
  "limiter_ok rpm tpm l \<Longrightarrow> admitted k calls l = sum_list (limit.outs (admits rpm tpm k) k calls l)"
proof (induction calls arbitrary: l)
  case (Cons c calls)
  obtain k' a where c: "c = (k', a)" by (cases c)
  obtain acc where dec: "limiter_decide rpm tpm k' a (entry_at (tracker_of l) k') = Inr (fst (limiter_call k' a l), acc)"
    using limiter_call_decide [OF Cons.prems] by blast
  show ?case
    using Cons.IH [OF limiter_call_ok [OF Cons.prems]] dec
    by (cases a; cases "k' = k") (auto simp: c admits_def split: sum.splits bool.splits prod.splits)
qed simp

text \<open>A bucket of at least one token per minute never lends: what it admits is covered by what it
  held plus what flowed in.\<close>

definition available :: "int \<Rightarrow> rate_state \<Rightarrow> real \<Rightarrow> real" where
  "available rpm s now = min (of_int rpm) (rs_tokens s + max 0 (now - rs_last_update s) * (of_int rpm / 60))"

lemma bucket_check_request:
  assumes "1 \<le> rpm"
  shows "bucket_check (of_int rpm) 1 made now (Some s) =
    (if 1 \<le> available rpm s now then (Inr (True, 0), \<lparr>rs_tokens = available rpm s now - 1, rs_last_update = now\<rparr>)
     else (Inr (False, (1 - available rpm s now) * (60 / of_int rpm)),
       \<lparr>rs_tokens = available rpm s now, rs_last_update = now\<rparr>))"
proof -
  have "min 1 (of_int rpm) = (1 :: real)" using assms by simp
  moreover have "refill now (of_int rpm) s = \<lparr>rs_tokens = available rpm s now, rs_last_update = now\<rparr>"
    by (simp add: refill_def refilled_tokens_def available_def Let_def)
  ultimately show ?thesis
    using assms by (simp add: bucket_check_def consume_def consume_from_bucket_def)
qed

lemma bucket_fresh: "bucket_check rate r made now None
    = bucket_check rate r made now (Some \<lparr>rs_tokens = rate, rs_last_update = made\<rparr>)"
  by (simp add: bucket_check_def)

definition after_request :: "int \<Rightarrow> rate_state \<Rightarrow> real \<Rightarrow> rate_state" where
  "after_request rpm s now = \<lparr>rs_tokens = (if 1 \<le> available rpm s now then available rpm s now - 1
     else available rpm s now), rs_last_update = now\<rparr>"

lemma admits_Request:
  assumes "1 \<le> rpm"
  shows "admits rpm tpm k (Request made now) (Some (Some s, tk)) = (if 1 \<le> available rpm s now then 1 else 0)"
    and "entry_after (limiter_decide rpm tpm k (Request made now) (Some (Some s, tk))) (Some (Some s, tk))
      = Some (Some (after_request rpm s now), tk)"
proof -
  note simps = admits_def entry_after_def bucket_check_request [OF assms] Let_def after_request_def
  show "admits rpm tpm k (Request made now) (Some (Some s, tk)) = (if 1 \<le> available rpm s now then 1 else 0)"
    by (simp add: simps)
  show "entry_after (limiter_decide rpm tpm k (Request made now) (Some (Some s, tk))) (Some (Some s, tk))
      = Some (Some (after_request rpm s now), tk)"
    by (simp add: simps)
qed

lemma admits_Tokens:
  "admits rpm tpm k (Tokens made now c) v = 0"
  "\<exists>tk'. entry_after (limiter_decide rpm tpm k (Tokens made now c) (Some (rq, tk))) (Some (rq, tk)) = Some (rq, tk')"
  by (auto simp: admits_def entry_after_def Let_def split: option.splits prod.splits)

lemma bucket_step_bound:
  fixes x c :: real
  assumes "0 \<le> c" and "last_u \<le> now" and "x = min r (tokens + max 0 (now - last_u) * c)"
    and n: "real n \<le> max 0 (if 1 \<le> x then x - 1 else x) + (t - now) * c"
  shows "real ((if 1 \<le> x then 1 else 0) + n) \<le> max 0 tokens + (t - last_u) * c"
proof -
  have split: "(t - last_u) * c = (t - now) * c + (now - last_u) * c"
    using distrib_right [of "t - now" "now - last_u" c] by simp
  have pos: "0 \<le> (now - last_u) * c" using assms(1,2) by simp
  have x: "x \<le> tokens + (now - last_u) * c" using assms(2,3) by simp
  show ?thesis
  proof (cases "1 \<le> x")
    case True
    then have "real n \<le> x - 1 + (t - now) * c" using n by simp
    then show ?thesis using True x unfolding split by simp
  next
    case False
    then have "real n \<le> max 0 x + (t - now) * c" using n by simp
    then show ?thesis using False x pos unfolding split by (simp add: max_def split: if_splits)
  qed
qed

lemma own_admits_bound:
  assumes "1 \<le> rpm" and "sorted (rs_last_update s # request_times k calls)"
  shows "real (sum_list (limit.own_outs rpm tpm (admits rpm tpm k) k calls (Some (Some s, tk))))
    \<le> max 0 (rs_tokens s) + (last (rs_last_update s # request_times k calls) - rs_last_update s) * (of_int rpm / 60)"
  using assms(2)
proof (induction calls arbitrary: s tk)
  case (Cons c calls)
  obtain k' a where c: "c = (k', a)" by (cases c)
  show ?case
  proof (cases "k' = k")
    case False
    then show ?thesis using Cons by (cases a) (simp_all add: c)
  next
    case True
    show ?thesis
    proof (cases a)
      case (Request made now)
      let ?s = "after_request rpm s now"
      let ?n = "sum_list (limit.own_outs rpm tpm (admits rpm tpm k) k calls (Some (Some ?s, tk)))"
      let ?t = "last (now # request_times k calls)"
      have u: "rs_last_update ?s = now" by (simp add: after_request_def)
      have srt: "sorted (rs_last_update ?s # request_times k calls)" and le: "rs_last_update s \<le> now"
        using Cons.prems by (simp_all add: c True Request u)
      have "real ?n \<le> max 0 (rs_tokens ?s) + (?t - now) * (of_int rpm / 60)"
        using Cons.IH [OF srt, of tk] unfolding u .
      then have n: "real ?n \<le> max 0 (if 1 \<le> available rpm s now then available rpm s now - 1 else available rpm s now)
          + (?t - now) * (of_int rpm / 60)"
        by (simp only: after_request_def rate_state.select_convs)
      have r: "0 \<le> (of_int rpm / 60 :: real)" using assms(1) by simp
      have "real ((if 1 \<le> available rpm s now then 1 else 0) + ?n)
          \<le> max 0 (rs_tokens s) + (?t - rs_last_update s) * (of_int rpm / 60)"
        by (rule bucket_step_bound [OF r le _ n]) (simp only: available_def)
      moreover have "last (rs_last_update s # request_times k (c # calls)) = ?t"
        by (simp add: c True Request)
      moreover have "sum_list (limit.own_outs rpm tpm (admits rpm tpm k) k (c # calls) (Some (Some s, tk)))
          = (if 1 \<le> available rpm s now then 1 else 0) + ?n"
        unfolding c Request True limit.own_outs.simps admits_Request [OF assms(1)] by (simp only: if_True sum_list.Cons simp_thms)
      ultimately show ?thesis by (simp only:)
    next
      case (Tokens made now cnt)
      obtain tk' where "entry_after (limiter_decide rpm tpm k a (Some (Some s, tk))) (Some (Some s, tk)) = Some (Some s, tk')"
        using admits_Tokens(2) Tokens by blast
      then show ?thesis
        using Cons.IH [of s tk'] Cons.prems by (simp add: c True admits_Tokens(1) Tokens)
    qed
  qed
qed simp

lemma new_limiter_ok: "limiter_ok rpm tpm (new_limiter rpm tpm)"
  and new_limiter_view: "entry_at (tracker_of (new_limiter rpm tpm)) k = None"
  by (simp_all add: new_limiter_def limiter_ok_def entry_tracker_of)

lemma limiter_run_eq: "limiter_run calls l = limit.run calls l"
  by (simp add: limiter_run_def limit.run_def)

text \<open>The first request of a window, from any state of the key's buckets.\<close>

lemma first_request:
  assumes "1 \<le> rpm"
  obtains s tk where
    "admits rpm tpm k (Request made now) v = (if 1 \<le> available rpm s now then 1 else 0)"
    "entry_after (limiter_decide rpm tpm k (Request made now) v) v = Some (Some (after_request rpm s now), tk)"
proof -
  let ?fresh = "\<lparr>rs_tokens = of_int rpm, rs_last_update = made\<rparr>"
  consider s tk where "v = Some (Some s, tk)" | tk where "v = Some (None, tk)" | "v = None"
    by (metis option.exhaust surj_pair)
  then show thesis
  proof cases
    case (1 s tk)
    then show thesis using that admits_Request [OF assms] by simp
  next
    case (2 tk)
    then show thesis
      using that [of ?fresh tk]
      by (simp add: admits_def entry_after_def Let_def bucket_fresh bucket_check_request [OF assms] after_request_def)
  next
    case 3
    then show thesis
      using that [of ?fresh None]
      by (simp add: admits_def entry_after_def Let_def bucket_fresh bucket_check_request [OF assms] after_request_def)
  qed
qed

lemma own_window_bound:
  assumes "1 \<le> rpm" and "sorted (request_times k calls)" and "request_times k calls \<noteq> []"
  shows "real (sum_list (limit.own_outs rpm tpm (admits rpm tpm k) k calls v))
    \<le> of_int rpm + (last (request_times k calls) - hd (request_times k calls)) * (of_int rpm / 60)"
  using assms(2,3)
proof (induction calls arbitrary: v)
  case (Cons c calls)
  obtain k' a where c: "c = (k', a)" by (cases c)
  show ?case
  proof (cases "k' = k \<and> (\<exists>made now. a = Request made now)")
    case False
    then have same: "request_times k (c # calls) = request_times k calls" by (cases a) (auto simp: c)
    have "sum_list (limit.own_outs rpm tpm (admits rpm tpm k) k (c # calls) v)
        = sum_list (limit.own_outs rpm tpm (admits rpm tpm k) k calls
            (if k' = k then entry_after (limiter_decide rpm tpm k a v) v else v))"
      using False by (cases a) (auto simp: c admits_Tokens(1) simp del: limiter_decide.simps)
    then show ?thesis using Cons.IH Cons.prems unfolding same by simp
  next
    case True
    then obtain made now where a: "a = Request made now" and k: "k' = k" by blast
    obtain s tk where f: "admits rpm tpm k a v = (if 1 \<le> available rpm s now then 1 else 0)"
      "entry_after (limiter_decide rpm tpm k a v) v = Some (Some (after_request rpm s now), tk)"
      unfolding a by (rule first_request [OF assms(1)])
    let ?s = "after_request rpm s now"
    let ?n = "sum_list (limit.own_outs rpm tpm (admits rpm tpm k) k calls (Some (Some ?s, tk)))"
    let ?t = "last (now # request_times k calls)"
    have u: "rs_last_update ?s = now" by (simp add: after_request_def)
    have n: "real ?n \<le> max 0 (rs_tokens ?s) + (?t - now) * (of_int rpm / 60)"
      using own_admits_bound [OF assms(1), of ?s k calls tpm tk] Cons.prems(1)
      unfolding u by (simp add: c k a)
    have full: "real (if 1 \<le> available rpm s now then 1 else 0) + max 0 (rs_tokens ?s) \<le> of_int rpm"
      using assms(1) by (auto simp: after_request_def available_def)
    have sum: "sum_list (limit.own_outs rpm tpm (admits rpm tpm k) k (c # calls) v)
        = (if 1 \<le> available rpm s now then 1 else 0) + ?n"
      by (simp add: c k f)
    have ends: "last (request_times k (c # calls)) = ?t" "hd (request_times k (c # calls)) = now"
      by (simp_all add: c k a)
    show ?thesis unfolding sum ends of_nat_add using n full by linarith
  qed
qed simp

text \<open>C38: The configured rate holds. From a new limiter of \<open>rpm \<ge> 1\<close> requests per minute, after
  any traffic \<open>before\<close>, take any stretch of traffic \<open>window\<close> (requests and token checks of any
  keys). If fewer than 1000 other keys occur and the clock readings of the key's requests do not go
  back in the window, the number of its requests admitted there is at most one full bucket plus the rate
  times the elapsed time.\<close>

theorem request_rate_bound:
  assumes "1 \<le> rpm" and "card (fst ` set (before @ window) - {k}) < MAX_RATE_LIMITER_BUCKETS"
    and "sorted (request_times k window)" and "request_times k window \<noteq> []"
  shows "real (admitted k window (limiter_run before (new_limiter rpm tpm)))
    \<le> of_int rpm + (last (request_times k window) - hd (request_times k window)) * (of_int rpm / 60)"
proof -
  let ?l = "new_limiter rpm tpm"
  note ok = new_limiter_ok [of rpm tpm]
  have none: "newer_keys (tracker_of ?l) k = {}" by (rule newer_absent [OF new_limiter_view])
  have "limit.outs (admits rpm tpm k) k window (limit.run before ?l)
      = limit.own_outs rpm tpm (admits rpm tpm k) k window (limit.own rpm tpm k before (entry_at (tracker_of ?l) k))"
    by (rule limit.isolated_suffix [OF ok _ none]) (use assms(2) in \<open>simp_all add: tracker_of_def\<close>)
  then show ?thesis
    using own_window_bound [OF assms(1,3,4)] admitted_outs [OF limit.ok_run [OF ok, of before], of k window]
    by (simp add: limiter_run_eq)
qed

theorem request_rate_bound_witness:
  "real (admitted (u ''a'') [(u ''a'', Request 0 0), (u ''b'', Tokens 0 5 9), (u ''a'', Request 0 60)]
      (limiter_run [] (new_limiter 2 None))) \<le> 2 + (60 - 0) * (2 / 60)"
  using request_rate_bound [of 2 "[]" "[(u ''a'', Request 0 0), (u ''b'', Tokens 0 5 9), (u ''a'', Request 0 60)]"
      "u ''a''" None]
  by (simp add: MAX_RATE_LIMITER_BUCKETS_def)

section \<open>Waiting helps\<close>

lemma bucket_wait:
  assumes rate: "0 < rate" and first: "bucket_check rate n made now b = (Inr (False, w), s)" and late: "now + w \<le> now'"
  shows "0 < w \<and> fst (bucket_check rate n made' now' (Some s)) = Inr (True, 0)"
proof -
  define x where "x = rs_tokens (refill now rate (case b of Some s \<Rightarrow> s | None \<Rightarrow> \<lparr>rs_tokens = rate, rs_last_update = made\<rparr>))"
  have s: "s = \<lparr>rs_tokens = x, rs_last_update = now\<rparr>" and lt: "x < min n rate"
    and w: "w = (min n rate - x) * (60 / rate)"
    using first rate
    by (auto simp: bucket_check_def consume_def consume_from_bucket_def x_def refill_def Let_def split: if_splits)
  have "0 < w" unfolding w using lt rate by simp
  moreover have "(min n rate - x) \<le> (now' - now) * (rate / 60)"
  proof -
    have "(min n rate - x) = w * (rate / 60)" unfolding w using rate by (simp add: field_simps)
    also have "\<dots> \<le> (now' - now) * (rate / 60)" using late rate by (intro mult_right_mono) simp_all
    finally show ?thesis .
  qed
  ultimately show ?thesis
    using late by (simp add: s bucket_check_def consume_def consume_from_bucket_def refill_def refilled_tokens_def Let_def)
qed

text \<open>A refused check tells the truth about the wait. When a limiter with positive rates refuses a
  request, or a token check of any size (one larger than the whole bucket included), with
  \<open>wait_seconds = w\<close>, then \<open>w > 0\<close>, and the same check made at least \<open>w\<close> seconds later is
  admitted, whatever fewer than 1000 other keys did in between.\<close>

theorem wait_then_admitted:
  assumes rates: "0 < rpm" "\<forall>r. tpm = Some r \<longrightarrow> 0 < r"
    and l: "l = limiter_run before (new_limiter rpm tpm)"
    and refused: "limiter_call k a l = (Inr (False, w), l1)"
    and between: "k \<notin> fst ` set between" "card (fst ` set between) < MAX_RATE_LIMITER_BUCKETS"
    and retry: "(a, a') = (Request made now, Request made' now') \<or> (a, a') = (Tokens made now n, Tokens made' now' n)"
    and late: "now + w \<le> now'"
  shows "0 < w \<and> fst (limiter_call k a' (limiter_run between l1)) = Inr (True, 0)"
proof -
  have ok: "limiter_ok rpm tpm l" unfolding l limiter_run_eq by (rule limit.ok_run [OF new_limiter_ok])
  obtain acc where dec: "limiter_decide rpm tpm k a (entry_at (tracker_of l) k) = Inr (Inr (False, w), acc)"
    and l1: "tracker_of l1 = perform k acc (tracker_of l)"
    using limiter_call_decide [OF ok, of k a] refused by auto
  have ok1: "limiter_ok rpm tpm l1" using limiter_call_ok [OF ok, of k a] refused by simp
  obtain v where acc: "acc = Put v"
    using dec retry by (auto simp: Let_def split: option.splits prod.splits)
  note tok = entries_okD(1) [OF tracker_of_ok [OF ok]]
  have at1: "entry_at (tracker_of l1) k = Some v" using tok by (simp add: l1 acc)
  have "newer_keys (tracker_of l1) k = {}" using newer_write_own [OF tok] by (simp add: l1 acc)
  moreover have "limit.own rpm tpm k between (Some v) = Some v"
    using between(1) by (induction between) (auto simp: limit.own_simps)
  moreover have "card (fst ` set between - {k}) < tr_max_sessions (tracker_of l1)"
    using between by (simp add: tracker_of_def)
  ultimately have at2: "entry_at (tracker_of (limiter_run between l1)) k = Some v"
    using limit.isolated(1) [OF ok1, of k between] by (simp add: limiter_run_eq at1)
  have ok2: "limiter_ok rpm tpm (limiter_run between l1)"
    unfolding limiter_run_eq by (rule limit.ok_run [OF ok1])
  obtain rq tk where v0: "(case entry_at (tracker_of l) k of None \<Rightarrow> (None, None) | Some p \<Rightarrow> p) = (rq, tk)"
    by (cases "case entry_at (tracker_of l) k of None \<Rightarrow> (None, None) | Some p \<Rightarrow> p")
  have "0 < w \<and> (\<exists>acc'. limiter_decide rpm tpm k a' (Some v) = Inr (Inr (True, 0), acc'))"
    using retry
  proof
    assume a: "(a, a') = (Request made now, Request made' now')"
    obtain s where s: "bucket_check (of_int rpm) 1 made now rq = (Inr (False, w), s)" "v = (Some s, tk)"
      using dec a by (auto simp: v0 acc Let_def split: prod.splits)
    show ?thesis
      using bucket_wait [OF _ s(1) late, of made'] rates(1) a s(2) by (auto simp: Let_def split: prod.splits)
  next
    assume a: "(a, a') = (Tokens made now n, Tokens made' now' n)"
    then obtain r s where r: "tpm = Some r"
      and s: "bucket_check (of_int r) (of_int n) made now tk = (Inr (False, w), s)" "v = (rq, Some s)"
      using dec by (auto simp: v0 acc Let_def split: prod.splits option.splits)
    show ?thesis
      using bucket_wait [OF _ s(1) late, of made'] rates(2) r a s(2) by (auto simp: Let_def split: prod.splits)
  qed
  then show ?thesis using limiter_call_decide [OF ok2, of k a'] by (auto simp: at2)
qed

theorem wait_then_admitted_witness:
  "\<exists>w l1. limiter_call (u ''a'') (Request 0 1) (limiter_run [(u ''a'', Request 0 0)] (new_limiter 1 None)) = (Inr (False, w), l1)
     \<and> 0 < w \<and> fst (limiter_call (u ''a'') (Request 0 (1 + w)) (limiter_run [(u ''b'', Request 0 2)] l1)) = Inr (True, 0)"
proof -
  have "\<exists>w l1. limiter_call (u ''a'') (Request 0 1) (limiter_run [(u ''a'', Request 0 0)] (new_limiter 1 None)) = (Inr (False, w), l1)"
    by (simp add: limiter_run_def limiter_call_def check_request_def new_limiter_def touch_bucket_def
        MAX_RATE_LIMITER_BUCKETS_def bucket_of_def refill_def refilled_tokens_def consume_def consume_from_bucket_def Let_def)
  then obtain w l1 where l1: "limiter_call (u ''a'') (Request 0 1)
      (limiter_run [(u ''a'', Request 0 0)] (new_limiter 1 None)) = (Inr (False, w), l1)"
    by blast
  have "0 < w \<and> fst (limiter_call (u ''a'') (Request 0 (1 + w)) (limiter_run [(u ''b'', Request 0 2)] l1)) = Inr (True, 0)"
    by (rule wait_then_admitted [OF _ _ refl l1, where made = 0 and now = 1 and made' = 0 and now' = "1 + w" and n = 0])
      (simp_all add: MAX_RATE_LIMITER_BUCKETS_def)
  then show ?thesis using l1 by blast
qed

end
