(* ===== verification/Sse_Buffer.thy ===== *)
theory Sse_Buffer
  imports Prelude Py_Text
begin

text \<open>
  The server-sent-event byte buffer (\<open>proxy/sse_byte_buffer_policy.py\<close>): upstream chunks are
  appended to a \<open>bytearray\<close> and \<open>parse_sse_events_from_byte_buffer\<close> drains the complete
  events. A buffer is a list of byte values. The Python primitives the code uses are modelled here:
  \<open>bytes.find\<close>, strict UTF-8 decoding (\<open>bytes.decode("utf-8")\<close>, \<open>None\<close> for
  \<open>UnicodeDecodeError\<close>), \<open>str.splitlines\<close> with all its line boundaries, \<open>lstrip\<close> and
  \<open>startswith\<close>. \<open>utf8_encode\<close> is what a well-behaved upstream sends.
\<close>

type_synonym byte_buffer = "nat list"

section \<open>UTF-8\<close>

definition utf8_char :: "nat \<Rightarrow> nat list" where
  "utf8_char c =
     (if c < 128 then [c]
      else if c < 2048 then [192 + c div 64, 128 + c mod 64]
      else if c < 65536 then [224 + c div 4096, 128 + c div 64 mod 64, 128 + c mod 64]
      else [240 + c div 262144, 128 + c div 4096 mod 64, 128 + c div 64 mod 64, 128 + c mod 64])"

definition utf8_encode :: "pystr \<Rightarrow> nat list" where
  "utf8_encode s = concat (map utf8_char s)"

definition continuation :: "nat \<Rightarrow> bool" where
  "continuation b \<longleftrightarrow> 128 \<le> b \<and> b \<le> 191"

text \<open>Strict decoding: overlong forms, surrogates and code points above U+10FFFF are refused.\<close>

fun utf8_decode :: "nat list \<Rightarrow> pystr option" where
  "utf8_decode [] = Some []"
| "utf8_decode (b # bs) =
     (if b < 128 then map_option (Cons b) (utf8_decode bs)
      else if 194 \<le> b \<and> b \<le> 223 then
        (case bs of
           b1 # bs1 \<Rightarrow>
             if continuation b1
             then map_option (Cons ((b - 192) * 64 + (b1 - 128))) (utf8_decode bs1) else None
         | _ \<Rightarrow> None)
      else if 224 \<le> b \<and> b \<le> 239 then
        (case bs of
           b1 # b2 # bs2 \<Rightarrow>
             if continuation b1 \<and> continuation b2 \<and> (b = 224 \<longrightarrow> 160 \<le> b1) \<and> (b = 237 \<longrightarrow> b1 \<le> 159)
             then map_option (Cons ((b - 224) * 4096 + (b1 - 128) * 64 + (b2 - 128))) (utf8_decode bs2)
             else None
         | _ \<Rightarrow> None)
      else if 240 \<le> b \<and> b \<le> 244 then
        (case bs of
           b1 # b2 # b3 # bs3 \<Rightarrow>
             if continuation b1 \<and> continuation b2 \<and> continuation b3
               \<and> (b = 240 \<longrightarrow> 144 \<le> b1) \<and> (b = 244 \<longrightarrow> b1 \<le> 143)
             then map_option (Cons ((b - 240) * 262144 + (b1 - 128) * 4096 + (b2 - 128) * 64 + (b3 - 128)))
                    (utf8_decode bs3)
             else None
         | _ \<Rightarrow> None)
      else None)"

section \<open>Lines\<close>

definition line_break :: "nat \<Rightarrow> bool" where
  "line_break c \<longleftrightarrow> c \<in> {10, 11, 12, 13, 28, 29, 30, 133, 8232, 8233}"

function splitlines :: "pystr \<Rightarrow> pystr list" where
  "splitlines [] = []"
| "splitlines (c # s) =
     (if c = 13 \<and> s \<noteq> [] \<and> hd s = 10 then [] # splitlines (tl s)
      else if line_break c then [] # splitlines s
      else (case splitlines s of [] \<Rightarrow> [[c]] | l # ls \<Rightarrow> (c # l) # ls))"
  by pat_completeness auto
termination
  by (relation "measure length") auto

section \<open>The buffer\<close>

text \<open>\<open>buf.find(p)\<close>, \<open>None\<close> for -1.\<close>

fun find_sub :: "nat list \<Rightarrow> nat list \<Rightarrow> nat option" where
  "find_sub p [] = (if p = [] then Some 0 else None)"
| "find_sub p (x # xs) = (if startswith (x # xs) p then Some 0 else map_option Suc (find_sub p xs))"

definition SSE_EVENT_TERMINATORS :: "nat list list" where
  "SSE_EVENT_TERMINATORS = [[10, 10], [13, 10, 13, 10]]"

text \<open>\<open>min(matches, key=lambda match: match[0])\<close>: the first of the earliest.\<close>

definition earlier :: "(nat \<times> nat) option \<Rightarrow> (nat \<times> nat) option \<Rightarrow> (nat \<times> nat) option" where
  "earlier a b =
     (case a of None \<Rightarrow> b
      | Some x \<Rightarrow> (case b of None \<Rightarrow> a | Some y \<Rightarrow> if fst y < fst x then b else a))"

definition find_sse_event_terminator :: "byte_buffer \<Rightarrow> (nat \<times> nat) option" where
  "find_sse_event_terminator buf =
     fold (\<lambda>p best. earlier best (map_option (\<lambda>i. (i, length p)) (find_sub p buf))) SSE_EVENT_TERMINATORS None"

datatype sse_error = UnicodeDecodeError

type_synonym sse_event = "pystr option \<times> pystr"

text \<open>One line of an event.\<close>

definition sse_line :: "pystr \<Rightarrow> pystr option \<times> pystr list \<Rightarrow> pystr option \<times> pystr list" where
  "sse_line line acc =
     (if line = [] then acc
      else if startswith line (u '':'') then acc
      else if startswith line (u ''event:'') then (Some (lstrip (drop 6 line)), snd acc)
      else if startswith line (u ''data:'') then (fst acc, snd acc @ [lstrip (drop 5 line)])
      else acc)"

definition sse_event_of :: "pystr \<Rightarrow> sse_event list" where
  "sse_event_of event_text =
     (case fold sse_line (splitlines event_text) (None, []) of
        (event_name, data_lines) \<Rightarrow>
          if data_lines \<noteq> [] then [(event_name, join [newline] data_lines)] else [])"

lemma find_sub_le: "find_sub p xs = Some i \<Longrightarrow> i + length p \<le> length xs"
proof (induction xs arbitrary: i)
  case (Cons x xs)
  show ?case
  proof (cases "startswith (x # xs) p")
    case True
    then have "prefix p (x # xs)" by (simp add: startswith_prefix)
    then have "length p \<le> length (x # xs)" by (rule prefix_length_le)
    then show ?thesis using Cons.prems True by simp
  qed (use Cons in auto)
qed (auto split: if_splits)

lemma find_terminator_cases:
  assumes "find_sse_event_terminator buf = Some (i, n)"
  shows "n = 2 \<and> find_sub [10, 10] buf = Some i \<or> n = 4 \<and> find_sub [13, 10, 13, 10] buf = Some i"
  using assms
  by (auto simp: find_sse_event_terminator_def SSE_EVENT_TERMINATORS_def earlier_def split: option.splits if_splits)

lemma find_terminator_le: "find_sse_event_terminator buf = Some (i, n) \<Longrightarrow> i + n \<le> length buf \<and> 0 < n"
  by (auto dest!: find_terminator_cases find_sub_le)

text \<open>The drain loop. Raising leaves the failed event removed from the buffer and drops the events
  already collected.\<close>

function parse_sse_events_from_byte_buffer ::
  "byte_buffer \<Rightarrow> (sse_error + sse_event list) \<times> byte_buffer" where
  "parse_sse_events_from_byte_buffer buf =
     (case find_sse_event_terminator buf of
        None \<Rightarrow> (Inr [], buf)
      | Some (idx, terminator_len) \<Rightarrow>
          (let rest = drop (idx + terminator_len) buf in
           case utf8_decode (take idx buf) of
             None \<Rightarrow> (Inl UnicodeDecodeError, rest)
           | Some event_text \<Rightarrow>
               (case parse_sse_events_from_byte_buffer rest of
                  (res, left) \<Rightarrow> (map_sum id (\<lambda>evs. sse_event_of event_text @ evs) res, left))))"
  by pat_completeness auto
termination
  by (relation "measure length") (auto dest: find_terminator_le)

declare parse_sse_events_from_byte_buffer.simps [simp del]

end
