(* ===== verification/Sse_Buffer_Props.thy ===== *)
theory Sse_Buffer_Props
  imports Sse_Buffer
begin

text \<open>
  Properties of the event buffer: how the network cuts the stream into chunks does not matter, also
  when a cut falls inside a terminator or a multi-byte character; a stream of well-formed events comes
  out as sent; and an event whose payload contains one of the other line boundaries of
  \<open>str.splitlines\<close> loses the rest of the payload.
\<close>

section \<open>Finding terminators\<close>

lemma find_sub_at: "find_sub p xs = Some i \<Longrightarrow> take (length p) (drop i xs) = p"
proof (induction xs arbitrary: i)
  case (Cons x xs)
  then show ?case by (cases "startswith (x # xs) p") (auto simp: startswith_def)
qed (auto split: if_splits)

lemma find_sub_nth:
  assumes "find_sub p xs = Some i" and "j < length p"
  shows "xs ! (i + j) = p ! j"
proof -
  have "i + j < length xs" using find_sub_le [OF assms(1)] assms(2) by simp
  have "p ! j = take (length p) (drop i xs) ! j" by (simp add: find_sub_at [OF assms(1)])
  then show ?thesis using assms(2) \<open>i + j < length xs\<close> by (simp add: add.commute)
qed

lemma startswith_extend: "startswith xs p \<Longrightarrow> startswith (xs @ ys) p"
  by (auto simp: startswith_prefix prefix_def)

lemma startswith_shorten: "length p \<le> length xs \<Longrightarrow> startswith (xs @ ys) p = startswith xs p"
  by (simp add: startswith_def)

lemma find_sub_extend: "find_sub p xs = Some i \<Longrightarrow> find_sub p (xs @ ys) = Some i"
proof (induction xs arbitrary: i)
  case Nil
  then show ?case by (cases ys) (auto simp: startswith_def split: if_splits)
next
  case (Cons x xs)
  have "length p \<le> length (x # xs)" using find_sub_le [OF Cons.prems] by simp
  from startswith_shorten [OF this, of ys] show ?case
    using Cons by (auto split: if_splits)
qed

lemma find_sub_late:
  assumes "find_sub p xs = None" and "find_sub p (xs @ ys) = Some i"
  shows "length xs < i + length p"
  using assms
proof (induction xs arbitrary: i)
  case Nil
  then show ?case by (cases p) auto
next
  case (Cons x xs)
  show ?case
  proof (cases "startswith (x # xs @ ys) p")
    case True
    have "length (x # xs) < length p"
    proof (rule ccontr)
      assume "\<not> length (x # xs) < length p"
      then have "startswith (x # xs) p" using True startswith_shorten [of p "x # xs" ys] by simp
      then show False using Cons.prems(1) by simp
    qed
    then show ?thesis using True Cons.prems(2) by simp
  next
    case False
    then obtain i' where "i = Suc i'" "find_sub p (xs @ ys) = Some i'"
      using Cons.prems(2) by auto
    then show ?thesis using Cons.IH Cons.prems(1) by (auto split: if_splits)
  qed
qed

text \<open>A terminator that is complete stays the earliest when more bytes arrive: the two terminators
  cannot overlap in the wrong order.\<close>

lemma find_terminator_unfold:
  "find_sse_event_terminator buf =
     earlier (map_option (\<lambda>i. (i, 2)) (find_sub [10, 10] buf))
       (map_option (\<lambda>i. (i, 4)) (find_sub [13, 10, 13, 10] buf))"
proof -
  have len: "length [10 :: nat, 10] = 2" "length [13 :: nat, 10, 13, 10] = 4" by simp_all
  have none: "earlier None x = x" for x by (simp add: earlier_def)
  show ?thesis
    unfolding find_sse_event_terminator_def SSE_EVENT_TERMINATORS_def fold.simps comp_def id_def len none ..
qed

lemma crlf_not_before_lf:
  assumes "find_sub [10, 10] buf = Some i" and "find_sub [13, 10, 13, 10] buf = None"
    and "find_sub [13, 10, 13, 10] (buf @ ys) = Some j"
  shows "i \<le> j"
proof (rule ccontr)
  assume "\<not> i \<le> j"
  moreover have "length buf < j + 4" using find_sub_late [OF assms(2,3)] by simp
  moreover have "i + 2 \<le> length buf" using find_sub_le [OF assms(1)] by simp
  ultimately have i: "i = j + 1" and len: "i + 1 < length buf" by auto
  have "buf ! (i + 1) = 10" using find_sub_nth [OF assms(1), of 1] by simp
  moreover have "(buf @ ys) ! (j + 2) = 13" using find_sub_nth [OF assms(3), of 2] by simp
  ultimately show False using i len by (simp add: nth_append)
qed

lemma find_terminator_extend:
  assumes "find_sse_event_terminator buf = Some (i, n)"
  shows "find_sse_event_terminator (buf @ ys) = Some (i, n)"
proof -
  consider a b where "find_sub [10, 10] buf = Some a" "find_sub [13, 10, 13, 10] buf = Some b"
    | a where "find_sub [10, 10] buf = Some a" "find_sub [13, 10, 13, 10] buf = None"
    | b where "find_sub [10, 10] buf = None" "find_sub [13, 10, 13, 10] buf = Some b"
    using assms find_terminator_cases [OF assms] by (metis not_None_eq)
  then show ?thesis
  proof cases
    case (1 a b)
    then show ?thesis using assms by (simp add: find_terminator_unfold find_sub_extend)
  next
    case (2 a)
    then have "i = a" "n = 2" using assms by (auto simp: find_terminator_unfold earlier_def)
    then show ?thesis
      using 2 crlf_not_before_lf [OF 2]
      by (cases "find_sub [13, 10, 13, 10] (buf @ ys)")
        (auto simp: find_terminator_unfold find_sub_extend earlier_def not_less)
  next
    case (3 b)
    then have ib: "i = b" "n = 4" using assms by (auto simp: find_terminator_unfold earlier_def)
    have "b + 4 \<le> length buf" using find_sub_le [OF 3(2)] by simp
    moreover have "length buf < a + 2" if "find_sub [10, 10] (buf @ ys) = Some a" for a
      using find_sub_late [OF 3(1) that] by simp
    ultimately show ?thesis
      using 3 ib
      by (cases "find_sub [10, 10] (buf @ ys)") (auto simp: find_terminator_unfold find_sub_extend earlier_def)
  qed
qed

section \<open>Chunking does not matter\<close>

text \<open>What a streaming handler does: append each chunk, drain, collect.\<close>

fun feed :: "byte_buffer list \<Rightarrow> byte_buffer \<Rightarrow> (sse_error + sse_event list) \<times> byte_buffer" where
  "feed [] buf = (Inr [], buf)"
| "feed (chunk # chunks) buf =
     (case parse_sse_events_from_byte_buffer (buf @ chunk) of
        (Inl e, rest) \<Rightarrow> (Inl e, rest)
      | (Inr evs, rest) \<Rightarrow>
          (case feed chunks rest of (res, left) \<Rightarrow> (map_sum id (\<lambda>evs'. evs @ evs') res, left)))"

lemma parse_None [simp]:
  "find_sse_event_terminator buf = None \<Longrightarrow> parse_sse_events_from_byte_buffer buf = (Inr [], buf)"
  by (subst parse_sse_events_from_byte_buffer.simps) simp

lemma parse_extend:
  "parse_sse_events_from_byte_buffer (buf @ ys) =
     (case parse_sse_events_from_byte_buffer buf of
        (Inl e, rest) \<Rightarrow> (Inl e, rest @ ys)
      | (Inr evs, rest) \<Rightarrow>
          (case parse_sse_events_from_byte_buffer (rest @ ys) of
             (res, left) \<Rightarrow> (map_sum id (\<lambda>evs'. evs @ evs') res, left)))"
proof (induction buf rule: parse_sse_events_from_byte_buffer.induct)
  case (1 buf)
  have id: "map_sum id (\<lambda>evs'. [] @ evs') res = res" for res :: "sse_error + sse_event list"
    by (cases res) simp_all
  show ?case
  proof (cases "find_sse_event_terminator buf")
    case None
    then show ?thesis by (simp add: id split: prod.splits)
  next
    case (Some t)
    obtain i n where t: "t = (i, n)" by (cases t)
    note here = Some [unfolded t]
    have le: "i + n \<le> length buf" using find_terminator_le [OF here] by simp
    note ext = find_terminator_extend [OF here, of ys]
    show ?thesis
    proof (cases "utf8_decode (take i buf)")
      case None
      then show ?thesis
        using le
        by (subst (1 2) parse_sse_events_from_byte_buffer.simps) (simp add: here ext Let_def)
    next
      case (Some txt')
      obtain res rest where p: "parse_sse_events_from_byte_buffer (drop (i + n) buf) = (res, rest)"
        by (cases "parse_sse_events_from_byte_buffer (drop (i + n) buf)")
      have b: "parse_sse_events_from_byte_buffer buf = (map_sum id (\<lambda>evs. sse_event_of txt' @ evs) res, rest)"
        by (subst parse_sse_events_from_byte_buffer.simps) (simp add: here Some p Let_def)
      have "parse_sse_events_from_byte_buffer (buf @ ys)
          = (case parse_sse_events_from_byte_buffer (drop (i + n) buf @ ys) of
               (res, left) \<Rightarrow> (map_sum id (\<lambda>evs. sse_event_of txt' @ evs) res, left))"
        using le by (subst parse_sse_events_from_byte_buffer.simps) (simp add: ext Some Let_def)
      also have "\<dots> = (case parse_sse_events_from_byte_buffer buf of
          (Inl e, rest) \<Rightarrow> (Inl e, rest @ ys)
        | (Inr evs, rest) \<Rightarrow> (case parse_sse_events_from_byte_buffer (rest @ ys) of
            (res, left) \<Rightarrow> (map_sum id (\<lambda>evs'. evs @ evs') res, left)))"
        unfolding 1 [OF here refl refl Some, unfolded p] b
        by (cases res) (auto simp: map_sum.compositionality comp_def id_def split: prod.splits intro!: sum.map_cong)
      finally show ?thesis .
    qed
  qed
qed

lemma parse_leaves_partial:
  "parse_sse_events_from_byte_buffer buf = (Inr evs, rest) \<Longrightarrow> find_sse_event_terminator rest = None"
proof (induction buf arbitrary: evs rule: parse_sse_events_from_byte_buffer.induct)
  case (1 buf)
  show ?case
  proof (cases "find_sse_event_terminator buf")
    case (Some t)
    obtain i n where t: "t = (i, n)" by (cases t)
    obtain txt' where d: "utf8_decode (take i buf) = Some txt'"
      using 1(2) by (subst (asm) parse_sse_events_from_byte_buffer.simps)
        (auto simp: Some t Let_def split: option.splits)
    obtain res left where p: "parse_sse_events_from_byte_buffer (drop (i + n) buf) = (res, left)"
      by (cases "parse_sse_events_from_byte_buffer (drop (i + n) buf)")
    have b: "parse_sse_events_from_byte_buffer buf = (map_sum id (\<lambda>evs. sse_event_of txt' @ evs) res, left)"
      by (subst parse_sse_events_from_byte_buffer.simps) (simp add: Some t d p Let_def)
    then obtain evs' where "res = Inr evs'" "left = rest" using 1(2) by (cases res) auto
    then show ?thesis using 1(1) [OF Some t [symmetric] refl d] p by simp
  qed (use 1(2) in simp)
qed

lemma feed_parse:
  assumes "find_sse_event_terminator buf = None"
  shows "fst (feed chunks buf) = fst (parse_sse_events_from_byte_buffer (buf @ concat chunks))
    \<and> (\<forall>evs. fst (feed chunks buf) = Inr evs \<longrightarrow>
         snd (feed chunks buf) = snd (parse_sse_events_from_byte_buffer (buf @ concat chunks)))"
  using assms
proof (induction chunks arbitrary: buf)
  case (Cons c cs)
  obtain res rest where p: "parse_sse_events_from_byte_buffer (buf @ c) = (res, rest)"
    by (cases "parse_sse_events_from_byte_buffer (buf @ c)")
  note ext = parse_extend [of "buf @ c" "concat cs", unfolded p]
  show ?case
  proof (cases res)
    case (Inl e)
    then show ?thesis using ext by (simp add: p)
  next
    case (Inr evs)
    have "find_sse_event_terminator rest = None" using parse_leaves_partial p Inr by blast
    from Cons.IH [OF this] show ?thesis
      using ext by (cases "fst (feed cs rest)") (auto simp: p Inr split: prod.splits)
  qed
qed simp

text \<open>C19: Chunking does not matter. However the upstream's bytes are cut into chunks, feeding them one
  by one yields the events that parsing the whole stream at once yields, and fails to decode exactly
  when that does; on success the same partial event is left in the buffer, and it holds no complete
  event.\<close>

theorem sse_chunking:
  "fst (feed chunks []) = fst (parse_sse_events_from_byte_buffer (concat chunks))
   \<and> (\<forall>evs. fst (feed chunks []) = Inr evs \<longrightarrow>
        snd (feed chunks []) = snd (parse_sse_events_from_byte_buffer (concat chunks))
        \<and> find_sse_event_terminator (snd (feed chunks [])) = None)"
proof -
  have "find_sse_event_terminator [] = None" by (simp add: find_terminator_unfold earlier_def)
  from feed_parse [OF this, of chunks] show ?thesis
    using parse_leaves_partial [of "concat chunks"]
    by (cases "parse_sse_events_from_byte_buffer (concat chunks)") auto
qed

section \<open>Round trip\<close>

lemma utf8_decode_2:
  assumes "128 \<le> c" and "c < 2048"
  shows "utf8_decode ([192 + c div 64, 128 + c mod 64] @ bs) = map_option (Cons c) (utf8_decode bs)"
proof -
  have "2 \<le> c div 64" "c div 64 < 32" "c div 64 * 64 + c mod 64 = c"
    using assms by auto
  moreover have "c mod 64 \<le> 63" using mod_less_divisor [of 64 c] by simp
  ultimately show ?thesis by (simp add: continuation_def)
qed

lemma utf8_decode_3:
  assumes "2048 \<le> c" and "c < 65536" and "\<not> is_surrogate c"
  shows "utf8_decode ([224 + c div 4096, 128 + c div 64 mod 64, 128 + c mod 64] @ bs) = map_option (Cons c) (utf8_decode bs)"
proof -
  define q r where "q = c div 64" and "r = c mod 64"
  have c: "c = q * 64 + r" "r < 64" by (simp_all add: q_def r_def)
  define a b where "a = q div 64" and "b = q mod 64"
  have q: "q = a * 64 + b" "b < 64" by (simp_all add: a_def b_def)
  have a: "c div 4096 = a" by (simp add: a_def q_def div_mult2_eq [symmetric])
  have "a < 16" "a = 0 \<Longrightarrow> 32 \<le> b" using assms(1,2) c q by auto
  moreover have "a = 13 \<Longrightarrow> b \<le> 31" using assms(3) c q by (auto simp: is_surrogate_def)
  moreover have "a * 4096 + b * 64 + r = c" using c q by simp
  ultimately show ?thesis
    using c(2) q(2) unfolding a q_def [symmetric] b_def [symmetric] r_def [symmetric]
    by (simp add: continuation_def)
qed

lemma utf8_decode_4:
  assumes "65536 \<le> c" and "c < 1114112"
  shows "utf8_decode ([240 + c div 262144, 128 + c div 4096 mod 64, 128 + c div 64 mod 64, 128 + c mod 64] @ bs)
    = map_option (Cons c) (utf8_decode bs)"
proof -
  define q r where "q = c div 64" and "r = c mod 64"
  have c: "c = q * 64 + r" "r < 64" by (simp_all add: q_def r_def)
  define p b where "p = q div 64" and "b = q mod 64"
  have q: "q = p * 64 + b" "b < 64" by (simp_all add: p_def b_def)
  define a d where "a = p div 64" and "d = p mod 64"
  have p: "p = a * 64 + d" "d < 64" by (simp_all add: a_def d_def)
  have a: "c div 4096 = p" "c div 262144 = a"
    by (simp_all add: a_def p_def q_def div_mult2_eq [symmetric])
  have "a < 5" "a = 0 \<Longrightarrow> 16 \<le> d" "a = 4 \<Longrightarrow> d \<le> 15" using assms c q p by auto
  moreover have "a * 262144 + d * 4096 + b * 64 + r = c" using c q p by simp
  ultimately show ?thesis
    using c(2) q(2) p(2) unfolding a q_def [symmetric] b_def [symmetric] r_def [symmetric] d_def [symmetric]
    by (simp add: continuation_def)
qed

definition plain :: "pystr \<Rightarrow> bool" where
  "plain s \<longleftrightarrow> (\<forall>c \<in> set s. \<not> is_surrogate c \<and> c < 1114112)"

lemma utf8_roundtrip_append: "plain s \<Longrightarrow> utf8_decode (utf8_encode s @ bs) = map_option ((@) s) (utf8_decode bs)"
proof (induction s)
  case Nil
  show ?case by (cases "utf8_decode bs") (simp_all add: utf8_encode_def)
next
  case (Cons c s)
  have c: "\<not> is_surrogate c" "c < 1114112" and s: "plain s" using Cons.prems by (auto simp: plain_def)
  have "utf8_decode (utf8_char c @ xs) = map_option (Cons c) (utf8_decode xs)" for xs
    using utf8_decode_2 [of c xs] utf8_decode_3 [of c xs] utf8_decode_4 [of c xs] c
    by (simp add: utf8_char_def)
  then show ?case
    using Cons.IH [OF s] by (simp add: utf8_encode_def option.map_comp comp_def)
qed

lemma utf8_roundtrip: "plain s \<Longrightarrow> utf8_decode (utf8_encode s) = Some s"
  using utf8_roundtrip_append [of s "[]"] by simp

lemma utf8_encode_append: "utf8_encode (s @ t) = utf8_encode s @ utf8_encode t"
  by (simp add: utf8_encode_def)

lemma utf8_encode_ascii: "\<forall>c \<in> set s. c < 128 \<Longrightarrow> utf8_encode s = s"
  by (induction s) (auto simp: utf8_encode_def utf8_char_def)

lemma ascii_byte: "b < 128 \<Longrightarrow> b \<in> set (utf8_encode s) \<longleftrightarrow> b \<in> set s"
  by (auto simp: utf8_encode_def utf8_char_def split: if_splits)

lemma u_ascii: "\<forall>c \<in> set (u s). c < 256"
  by (auto simp: u_def)

text \<open>A value of a header line: no line boundary, no leading white space.\<close>

definition line_value :: "pystr \<Rightarrow> bool" where
  "line_value s \<longleftrightarrow> plain s \<and> (\<forall>c \<in> set s. \<not> line_break c) \<and> lstrip s = s"

definition event_text :: "pystr \<Rightarrow> pystr \<Rightarrow> pystr" where
  "event_text n d = u ''event: '' @ n @ [newline] @ u ''data: '' @ d"

definition send_event :: "pystr \<times> pystr \<Rightarrow> byte_buffer" where
  "send_event e = utf8_encode (event_text (fst e) (snd e)) @ [10, 10]"

lemma splitlines_char:
  "\<not> line_break c \<Longrightarrow> splitlines (c # s) = (case splitlines s of [] \<Rightarrow> [[c]] | l # ls \<Rightarrow> (c # l) # ls)"
  by (subst splitlines.simps) (simp add: line_break_def)

lemma splitlines_break: "line_break b \<Longrightarrow> b \<noteq> 13 \<Longrightarrow> splitlines (b # s) = [] # splitlines s"
  by (subst splitlines.simps) simp

lemma splitlines_line:
  "\<forall>c \<in> set l. \<not> line_break c \<Longrightarrow> line_break b \<Longrightarrow> b \<noteq> 13 \<Longrightarrow> splitlines (l @ b # s) = l # splitlines s"
  by (induction l) (simp_all add: splitlines_char splitlines_break del: splitlines.simps)

lemma splitlines_last: "\<forall>c \<in> set l. \<not> line_break c \<Longrightarrow> l \<noteq> [] \<Longrightarrow> splitlines l = [l]"
proof (induction l)
  case (Cons c l)
  then show ?case by (cases "l = []") (simp_all add: splitlines_char del: splitlines.simps(2))
qed simp

lemma u_literals:
  "u ''event: '' = [101, 118, 101, 110, 116, 58, 32]" "u ''data: '' = [100, 97, 116, 97, 58, 32]"
  "u ''event:'' = [101, 118, 101, 110, 116, 58]" "u ''data:'' = [100, 97, 116, 97, 58]" "u '':'' = [58]"
  by (simp_all add: u_def)

lemma lstrip_space: "lstrip (32 # s) = lstrip s"
  by (simp add: lstrip_def py_isspace_def)

lemma event_of_text:
  assumes "line_value n" and "line_value d"
  shows "sse_event_of (event_text n d) = [(Some n, d)]"
proof -
  have n: "\<forall>c \<in> set (u ''event: '' @ n). \<not> line_break c" and d: "\<forall>c \<in> set (u ''data: '' @ d). \<not> line_break c"
    using assms by (auto simp: line_value_def u_literals line_break_def)
  have "splitlines (event_text n d) = [u ''event: '' @ n, u ''data: '' @ d]"
    using splitlines_line [OF n, of newline "u ''data: '' @ d"] splitlines_last [OF d]
    by (simp add: event_text_def line_break_def del: splitlines.simps)
  then show ?thesis
    using assms by (simp add: sse_event_of_def sse_line_def startswith_def u_literals lstrip_space line_value_def)
qed

text \<open>Where the terminator is: behind text with no carriage return whose newlines are followed by
  something else.\<close>

lemma find_lf_skip:
  "10 \<notin> set A \<Longrightarrow> find_sub [10, 10] (A @ Y) = map_option ((+) (length A)) (find_sub [10, 10] Y)"
  by (induction A; cases "find_sub [10, 10] Y") (simp_all add: startswith_def)

lemma find_lf_single: "b \<noteq> 10 \<Longrightarrow> find_sub [10, 10] (10 # b # Y) = map_option Suc (find_sub [10, 10] (b # Y))"
  by (simp add: startswith_def)

lemma find_terminator_at:
  assumes "find_sub [10, 10] (X @ 10 # 10 # rest) = Some (length X)" and "13 \<notin> set X"
  shows "find_sse_event_terminator (X @ 10 # 10 # rest) = Some (length X, 2)"
proof -
  have "length X \<le> j" if "find_sub [13, 10, 13, 10] (X @ 10 # 10 # rest) = Some j" for j
  proof (rule ccontr)
    assume j: "\<not> length X \<le> j"
    then have "X ! j = 13" using find_sub_nth [OF that, of 0] by (simp add: nth_append)
    then show False using j assms(2) by (metis not_le nth_mem)
  qed
  then show ?thesis
    using assms(1) by (cases "find_sub [13, 10, 13, 10] (X @ 10 # 10 # rest)")
      (auto simp: find_terminator_unfold earlier_def not_less)
qed

lemma parse_event_at:
  assumes "find_sub [10, 10] (utf8_encode s @ 10 # 10 # rest) = Some (length (utf8_encode s))"
    and "13 \<notin> set s" and "plain s"
  shows "parse_sse_events_from_byte_buffer (utf8_encode s @ 10 # 10 # rest)
    = (case parse_sse_events_from_byte_buffer rest of
         (res, left) \<Rightarrow> (map_sum id (\<lambda>evs. sse_event_of s @ evs) res, left))"
proof -
  have "13 \<notin> set (utf8_encode s)" using assms(2) by (simp add: ascii_byte)
  note t = find_terminator_at [OF assms(1) this]
  show ?thesis
    by (subst parse_sse_events_from_byte_buffer.simps) (simp add: t utf8_roundtrip [OF assms(3)] Let_def)
qed

lemma plain_append [simp]: "plain (s @ t) \<longleftrightarrow> plain s \<and> plain t"
  by (auto simp: plain_def)

lemma plain_event_text: "plain n \<Longrightarrow> plain d \<Longrightarrow> plain (event_text n d)"
  by (simp add: event_text_def) (simp add: plain_def u_literals is_surrogate_def)

lemma line_value_no_break: "line_value s \<Longrightarrow> line_break c \<Longrightarrow> c \<notin> set s"
  by (auto simp: line_value_def)

lemma parse_send:
  assumes "line_value n" and "line_value d"
  shows "parse_sse_events_from_byte_buffer (send_event (n, d) @ rest)
    = (case parse_sse_events_from_byte_buffer rest of (res, left) \<Rightarrow> (map_sum id (\<lambda>evs. (Some n, d) # evs) res, left))"
proof -
  let ?A = "utf8_encode (u ''event: '' @ n)" and ?B = "utf8_encode (u ''data: '' @ d)"
  have lb: "line_break 10" "line_break 13" by (simp_all add: line_break_def)
  have X: "utf8_encode (event_text n d) = ?A @ 10 # ?B"
    by (simp add: event_text_def utf8_encode_append) (simp add: utf8_encode_def utf8_char_def)
  have A: "10 \<notin> set ?A" and B: "10 \<notin> set ?B"
    using line_value_no_break [OF assms(1) lb(1)] line_value_no_break [OF assms(2) lb(1)]
    by (simp_all add: ascii_byte u_literals)
  obtain b bs where bs: "?B = b # bs" by (simp add: utf8_encode_append u_literals utf8_encode_def utf8_char_def)
  have "b \<noteq> 10" using B by (auto simp: bs)
  then have "find_sub [10, 10] (10 # ?B @ 10 # 10 # rest) = Some (Suc (length ?B))"
    using find_lf_single [of b "bs @ 10 # 10 # rest"] find_lf_skip [OF B, of "10 # 10 # rest"]
    by (simp add: bs startswith_def)
  then have find: "find_sub [10, 10] (utf8_encode (event_text n d) @ 10 # 10 # rest) = Some (length (utf8_encode (event_text n d)))"
    using find_lf_skip [OF A, of "10 # ?B @ 10 # 10 # rest"] by (simp add: X)
  have "13 \<notin> set (event_text n d)"
    using line_value_no_break [OF assms(1) lb(2)] line_value_no_break [OF assms(2) lb(2)]
    by (simp add: event_text_def u_literals)
  from parse_event_at [OF find this] plain_event_text assms show ?thesis
    by (simp add: send_event_def event_of_text line_value_def)
qed

text \<open>C39: A stream of events comes out as it was sent. For any list of named events whose names and
  payloads have no leading white space, no lone surrogate and none of the characters at which
  \<open>str.splitlines\<close> breaks a line (LF, CR, VT, FF, FS, GS, RS, U+0085, U+2028, U+2029; the next theorem shows
  what becomes of them), sent as UTF-8 with one event and one data line each, and for any way of cutting the bytes into chunks (inside a terminator or a character included), feeding the chunks
  yields exactly the events, in order, and leaves the buffer empty.\<close>

theorem sse_stream_roundtrip:
  assumes "\<forall>(n, d) \<in> set evs. line_value n \<and> line_value d" and "concat chunks = concat (map send_event evs)"
  shows "feed chunks [] = (Inr (map (\<lambda>(n, d). (Some n, d)) evs), [])"
proof -
  have nil: "find_sse_event_terminator [] = None" by (simp add: find_terminator_unfold earlier_def)
  have "parse_sse_events_from_byte_buffer (concat (map send_event evs)) = (Inr (map (\<lambda>(n, d). (Some n, d)) evs), [])"
    using assms(1)
  proof (induction evs)
    case (Cons e evs)
    then show ?case by (cases e) (simp add: parse_send)
  qed (simp add: nil)
  then show ?thesis
    using feed_parse [OF nil, of chunks] assms(2) by (cases "feed chunks []") simp
qed

text \<open>The line boundaries SSE does not have. JSON strings may contain U+2028, U+2029 and
  U+0085 unescaped, and SSE lines end only at CR and LF, but the parser uses
  \<open>str.splitlines\<close>. A payload \<open>x\<close>, boundary, \<open>y\<close> in one data line loses the boundary and
  everything after it, and no error is raised.\<close>

theorem sse_separator_truncates:
  assumes "line_value x" and "line_value y" and "b \<in> {11, 12, 28, 29, 30, 133, 8232, 8233}"
    and "\<not> startswith y (u ''event:'')" and "\<not> startswith y (u ''data:'')"
  shows "parse_sse_events_from_byte_buffer (utf8_encode (u ''data: '' @ x @ [b] @ y) @ [10, 10]) = (Inr [(None, x)], [])"
proof -
  let ?s = "u ''data: '' @ x @ [b] @ y"
  have lb: "line_break 10" "line_break 13" "line_break b" "b \<noteq> 10" "b \<noteq> 13"
    using assms(3) by (auto simp: line_break_def)
  have no: "10 \<notin> set ?s" "13 \<notin> set ?s"
    using line_value_no_break [OF assms(1)] line_value_no_break [OF assms(2)] lb by (auto simp: u_literals)
  have nil: "find_sse_event_terminator [] = None" by (simp add: find_terminator_unfold earlier_def)
  have "10 \<notin> set (utf8_encode ?s)" using no(1) by (subst ascii_byte) simp_all
  from find_lf_skip [OF this, of "[10, 10]"]
  have find: "find_sub [10, 10] (utf8_encode ?s @ 10 # 10 # []) = Some (length (utf8_encode ?s))"
    by (simp add: startswith_def)
  have pl: "plain ?s"
  proof -
    have "plain [b]" using assms(3) by (auto simp: plain_def is_surrogate_def)
    moreover have "plain (u ''data: '')" by (simp add: plain_def u_literals is_surrogate_def)
    ultimately show ?thesis using assms(1,2) unfolding line_value_def plain_append by blast
  qed
  have dx: "\<forall>c \<in> set (u ''data: '' @ x). \<not> line_break c"
    using assms(1) by (auto simp: line_value_def u_literals line_break_def)
  have "splitlines y = (if y = [] then [] else [y])"
    using assms(2) splitlines_last [of y] by (simp add: line_value_def)
  then have "splitlines ?s = (u ''data: '' @ x) # (if y = [] then [] else [y])"
    using splitlines_line [OF dx lb(3,5), of y] by simp
  moreover have "sse_line (u ''data: '' @ x) (None, []) = (None, [x])"
    using assms(1) by (simp add: sse_line_def startswith_def u_literals lstrip_space line_value_def)
  moreover have "sse_line y (None, [x]) = (None, [x])"
    using assms(4,5) by (simp add: sse_line_def)
  ultimately have "sse_event_of ?s = [(None, x)]" by (simp add: sse_event_of_def)
  then show ?thesis using parse_event_at [OF find no(2) pl] nil by simp
qed

theorem sse_chunking_witness:
  "feed [u ''data: a'', [10], [10]] [] = parse_sse_events_from_byte_buffer (u ''data: a'' @ [10, 10])
    \<and> find_sse_event_terminator (snd (feed [u ''data: a'', [10], [10]] [])) = None"
proof -
  have lv: "line_value (u ''a'')" "line_value []"
    by (simp_all add: line_value_def plain_def u_def line_break_def lstrip_def py_isspace_def is_surrogate_def)
  have lit: "u ''data: a'' = u ''data: '' @ u ''a''" by (simp add: u_def)
  have "10 \<notin> set (utf8_encode (u ''data: a''))" "13 \<notin> set (u ''data: a'')" "plain (u ''data: a'')"
    by (simp_all add: ascii_byte) (simp_all add: u_def plain_def is_surrogate_def)
  moreover have "utf8_encode (u ''data: a'') = u ''data: a''" by (rule utf8_encode_ascii) (simp add: u_def)
  ultimately have "parse_sse_events_from_byte_buffer (u ''data: a'' @ 10 # 10 # []) = (Inr (sse_event_of (u ''data: a'')), [])"
    using parse_event_at [of "u ''data: a''" "[]"] find_lf_skip [of "u ''data: a''" "[10, 10]"]
    by (simp add: startswith_def find_terminator_unfold earlier_def)
  then show ?thesis
    using sse_chunking [of "[u ''data: a'', [10], [10]]"]
    by (cases "feed [u ''data: a'', [10], [10]] []") simp
qed

theorem sse_stream_roundtrip_witness:
  "feed [send_event (u ''ping'', [233]), send_event (u ''x'', u ''y'')] [] = (Inr [(Some (u ''ping''), [233]), (Some (u ''x''), u ''y'')], [])"
  using sse_stream_roundtrip [of "[(u ''ping'', [233]), (u ''x'', u ''y'')]"
      "[send_event (u ''ping'', [233]), send_event (u ''x'', u ''y'')]"]
  by (simp add: line_value_def plain_def u_def line_break_def lstrip_def py_isspace_def is_surrogate_def)

theorem sse_separator_truncates_witness:
  "parse_sse_events_from_byte_buffer (utf8_encode (u ''data: '' @ u ''[1,'' @ [8232] @ u ''2]'') @ [10, 10]) = (Inr [(None, u ''[1,'')], [])"
  using sse_separator_truncates [of "u ''[1,''" "u ''2]''" 8232]
  by (simp add: line_value_def plain_def u_def line_break_def lstrip_def py_isspace_def is_surrogate_def startswith_def)

end
