(* ===== verification/Json_Text.thy ===== *)
theory Json_Text
  imports Json Py_Text
begin

text \<open>
  The texts \<open>json.dumps\<close> writes: the compact form, the form with the default separators, and the
  form with \<open>sort_keys=True\<close>. How a float is written, \<open>float.__repr__\<close>, is the argument \<open>F\<close>.
\<close>

text \<open>\<open>json.dumps\<close> with \<open>separators=(",", ":")\<close>; \<open>ascii\<close> is \<open>ensure_ascii\<close>.\<close>

definition escape_char :: "bool \<Rightarrow> nat \<Rightarrow> pystr" where
  "escape_char ascii c =
     (if c = 34 \<or> c = 92 then [92, c]
      else if c = 8 then [92, 98] else if c = 12 then [92, 102] else if c = 10 then [92, 110]
      else if c = 13 then [92, 114] else if c = 9 then [92, 116]
      else if c < 32 \<or> (ascii \<and> 127 \<le> c \<and> c < 65536) then [92, 117] @ hex_padded 4 c
      else if ascii \<and> 65536 \<le> c then
        [92, 117] @ hex_padded 4 (55296 + (c - 65536) div 1024)
        @ [92, 117] @ hex_padded 4 (56320 + (c - 65536) mod 1024)
      else [c])"

definition json_string :: "bool \<Rightarrow> pystr \<Rightarrow> pystr" where
  "json_string ascii s = [34] @ concat (map (escape_char ascii) s) @ [34]"

fun json_text :: "bool \<Rightarrow> (rat \<Rightarrow> pystr) \<Rightarrow> json \<Rightarrow> pystr"
  and items_text :: "bool \<Rightarrow> (rat \<Rightarrow> pystr) \<Rightarrow> json list \<Rightarrow> pystr list"
  and fields_text :: "bool \<Rightarrow> (rat \<Rightarrow> pystr) \<Rightarrow> pydict \<Rightarrow> pystr list" where
  "json_text a F JNull = u ''null''"
| "json_text a F (JBool b) = (if b then u ''true'' else u ''false'')"
| "json_text a F (JInt i) = show_int i"
| "json_text a F (JFloat f) = F f"
| "json_text a F (JStr s) = json_string a s"
| "json_text a F (JList xs) = u ''['' @ join (u '','') (items_text a F xs) @ u '']''"
| "json_text a F (JObj d) = u ''{'' @ join (u '','') (fields_text a F d) @ u ''}''"
| "items_text a F [] = []"
| "items_text a F (x # xs) = json_text a F x # items_text a F xs"
| "fields_text a F [] = []"
| "fields_text a F ((k, v) # d) = (json_string a k @ u '':'' @ json_text a F v) # fields_text a F d"

text \<open>\<open>json.dumps(value)\<close> with its default separators, ASCII only.\<close>

fun dumps_text :: "(rat \<Rightarrow> pystr) \<Rightarrow> json \<Rightarrow> pystr"
  and dumps_items :: "(rat \<Rightarrow> pystr) \<Rightarrow> json list \<Rightarrow> pystr list"
  and dumps_fields :: "(rat \<Rightarrow> pystr) \<Rightarrow> pydict \<Rightarrow> pystr list" where
  "dumps_text F JNull = u ''null''"
| "dumps_text F (JBool b) = (if b then u ''true'' else u ''false'')"
| "dumps_text F (JInt i) = show_int i"
| "dumps_text F (JFloat f) = F f"
| "dumps_text F (JStr s) = json_string True s"
| "dumps_text F (JList xs) = u ''['' @ join (u '', '') (dumps_items F xs) @ u '']''"
| "dumps_text F (JObj d) = u ''{'' @ join (u '', '') (dumps_fields F d) @ u ''}''"
| "dumps_items F [] = []"
| "dumps_items F (x # xs) = dumps_text F x # dumps_items F xs"
| "dumps_fields F [] = []"
| "dumps_fields F ((k, v) # d) = (json_string True k @ u '': '' @ dumps_text F v) # dumps_fields F d"

text \<open>\<open>sort_keys=True\<close>: every dictionary is written in the order of its keys.\<close>

fun sort_keys :: "json \<Rightarrow> json" and sort_items :: "json list \<Rightarrow> json list" and sort_fields :: "pydict \<Rightarrow> pydict" where
  "sort_keys (JObj d) = JObj (sort_key fst (sort_fields d))"
| "sort_keys (JList xs) = JList (sort_items xs)"
| "sort_keys v = v"
| "sort_items [] = []"
| "sort_items (x # xs) = sort_keys x # sort_items xs"
| "sort_fields [] = []"
| "sort_fields ((k, v) # d) = (k, sort_keys v) # sort_fields d"

end
