(* ===== verification/Prefix_Replay.thy ===== *)
theory Prefix_Replay
  imports Json_Text
begin

text \<open>
  The message-level half of \<open>headroom/cache/prefix_tracker.py\<close>: how this turn's history is
  compared with the previous one, which forwarded messages are replayed, and where the cache markers
  go. Messages are JSON values, since the code checks with \<open>isinstance\<close> what they are.
  \<open>copy.deepcopy\<close> and \<open>_lineage_snapshot\<close> are the identity on values: the latter also
  replaces \<open>NaN\<close>, which is not a JSON value of the model. What the code reads from outside is
  the record \<open>prefix_env\<close>: the two environment variables, \<open>str.lower\<close> and
  \<open>float.__repr__\<close>. Logging is left out.
\<close>

record prefix_env =
  pe_lower :: "pystr \<Rightarrow> pystr"
  pe_float_repr :: "rat \<Rightarrow> pystr"
  pe_transient :: "pystr option"
  pe_stable_boundary :: "pystr option"

text \<open>\<open>os.environ.get(name, "").strip().lower() not in ("0", "false", "no", "off")\<close>.\<close>

definition switch_on :: "prefix_env \<Rightarrow> pystr option \<Rightarrow> bool" where
  "switch_on E raw =
     (pe_lower E (strip (case raw of None \<Rightarrow> [] | Some s \<Rightarrow> s))
        \<notin> {u ''0'', u ''false'', u ''no'', u ''off''})"

section \<open>Values without their annotations\<close>

fun strip_cache_control :: "json \<Rightarrow> json"
  and strip_cache_control_dict :: "pydict \<Rightarrow> pydict"
  and strip_cache_control_list :: "json list \<Rightarrow> json list" where
  "strip_cache_control (JObj d) = JObj (strip_cache_control_dict d)"
| "strip_cache_control (JList xs) = JList (strip_cache_control_list xs)"
| "strip_cache_control v = v"
| "strip_cache_control_dict [] = []"
| "strip_cache_control_dict ((k, v) # d) =
     (if k = u ''cache_control'' then strip_cache_control_dict d
      else (k, strip_cache_control v) # strip_cache_control_dict d)"
| "strip_cache_control_list [] = []"
| "strip_cache_control_list (x # xs) = strip_cache_control x # strip_cache_control_list xs"

definition NON_SEMANTIC_KEYS :: "pystr list" where
  "NON_SEMANTIC_KEYS = map u
     [''cache_control'', ''cachePoint'', ''caller'', ''provider_specific_fields'',
      ''reasoning_content'', ''reasoning_items'', ''annotations'', ''system_fingerprint'',
      ''service_tier'', ''providerMetadata'', ''providerOptions'', ''callProviderMetadata'',
      ''state'', ''providerExecuted'', ''synthetic'', ''ignored'', ''index'']"

definition OPAQUE_PAYLOAD_KEYS :: "pystr list" where
  "OPAQUE_PAYLOAD_KEYS = map u [''input'', ''arguments'', ''json'']"

definition text_block :: "pystr \<Rightarrow> json" where
  "text_block s = JObj [(u ''type'', JStr (u ''text'')), (u ''text'', JStr s)]"

fun canonicalize :: "json \<Rightarrow> json"
  and canonicalize_dict :: "pydict \<Rightarrow> pydict"
  and canonicalize_list :: "json list \<Rightarrow> json list" where
  "canonicalize (JObj d) = JObj (canonicalize_dict d)"
| "canonicalize (JList xs) = JList (canonicalize_list xs)"
| "canonicalize v = v"
| "canonicalize_dict [] = []"
| "canonicalize_dict ((k, v) # d) =
     (if k \<in> set NON_SEMANTIC_KEYS then canonicalize_dict d
      else
        (k, if k \<in> set OPAQUE_PAYLOAD_KEYS then v
            else if k = u ''content'' then
              (case v of JStr s \<Rightarrow> JList [text_block s] | _ \<Rightarrow> canonicalize v)
            else canonicalize v) # canonicalize_dict d)"
| "canonicalize_list [] = []"
| "canonicalize_list (x # xs) =
     (let c = canonicalize x in
      if c = JObj [] then canonicalize_list xs else c # canonicalize_list xs)"

section \<open>How two histories relate\<close>

datatype relation_kind = Exact | Message_Append | Block_Append | Block_Rewrite_Tail | Diverged

record history_relation =
  kind :: relation_kind
  message_index :: "nat option"
  stable_prefix_blocks :: nat
  stable_suffix_blocks :: nat
  previous_block_count :: nat
  current_block_count :: nat

definition relation :: "relation_kind \<Rightarrow> history_relation" where
  "relation k = \<lparr>kind = k, message_index = None, stable_prefix_blocks = 0, stable_suffix_blocks = 0,
     previous_block_count = 0, current_block_count = 0\<rparr>"

definition MIN_REWRITE_PREFIX_BLOCKS :: nat where "MIN_REWRITE_PREFIX_BLOCKS = 8"
definition MIN_REWRITE_SUFFIX_BLOCKS :: nat where "MIN_REWRITE_SUFFIX_BLOCKS = 2"

definition message_fields_outside_content :: "pydict \<Rightarrow> pydict" where
  "message_fields_outside_content m = filter (\<lambda>(k, v). k \<noteq> u ''content'') m"

fun stable_leading_block_run :: "json list \<Rightarrow> json list \<Rightarrow> nat" where
  "stable_leading_block_run (c # cs) (p # ps) =
     (if json_eq c p then Suc (stable_leading_block_run cs ps) else 0)"
| "stable_leading_block_run _ _ = 0"

definition stable_trailing_block_run :: "json list \<Rightarrow> json list \<Rightarrow> nat \<Rightarrow> nat" where
  "stable_trailing_block_run current previous leading =
     (let limit = min (length current) (length previous) - leading in
      stable_leading_block_run (take limit (rev current)) (take limit (rev previous)))"

text \<open>The body of the loop of \<open>_classify_history_canonical\<close> for the first message that differs:
  \<open>None\<close> for a divergence.\<close>

definition changed_message :: "bool \<Rightarrow> nat \<Rightarrow> json \<Rightarrow> json \<Rightarrow> history_relation option" where
  "changed_message same_length index current_message previous_message =
     (case (previous_message, current_message) of
        (JObj prev, JObj cur) \<Rightarrow>
          if \<not> json_eq (JObj (message_fields_outside_content prev))
               (JObj (message_fields_outside_content cur)) then None
          else
            (case (dget prev ''content'', dget cur ''content'') of
               (JList prev_blocks, JList cur_blocks) \<Rightarrow>
                 let previous_count = length prev_blocks;
                     current_count = length cur_blocks;
                     leading = stable_leading_block_run cur_blocks prev_blocks in
                 if previous_count < current_count \<and> leading = previous_count then
                   Some \<lparr>kind = Block_Append, message_index = Some index,
                     stable_prefix_blocks = leading, stable_suffix_blocks = 0,
                     previous_block_count = previous_count, current_block_count = current_count\<rparr>
                 else
                   let trailing = stable_trailing_block_run cur_blocks prev_blocks leading in
                   if same_length \<and> previous_count \<le> current_count
                      \<and> MIN_REWRITE_PREFIX_BLOCKS \<le> leading \<and> leading < previous_count
                      \<and> previous_count \<le> leading * 2 \<and> current_count \<le> leading * 2
                      \<and> MIN_REWRITE_SUFFIX_BLOCKS \<le> trailing
                   then Some \<lparr>kind = Block_Rewrite_Tail, message_index = Some index,
                     stable_prefix_blocks = leading, stable_suffix_blocks = trailing,
                     previous_block_count = previous_count, current_block_count = current_count\<rparr>
                   else None
             | _ \<Rightarrow> None)
      | _ \<Rightarrow> None)"

fun classify_from ::
    "bool \<Rightarrow> nat \<Rightarrow> history_relation option \<Rightarrow> json list \<Rightarrow> json list \<Rightarrow> history_relation" where
  "classify_from same_length index changed cs [] =
     (case changed of
        Some r \<Rightarrow> r
      | None \<Rightarrow> relation (if same_length then Exact else Message_Append))"
| "classify_from same_length index changed (c # cs) (p # ps) =
     (if json_eq c p then classify_from same_length (Suc index) changed cs ps
      else if changed \<noteq> None then relation Diverged
      else case changed_message same_length index c p of
             None \<Rightarrow> relation Diverged
           | Some r \<Rightarrow> classify_from same_length (Suc index) (Some r) cs ps)"
| "classify_from same_length index changed [] (p # ps) = relation Diverged"

definition classify_history_canonical :: "json list \<Rightarrow> json list \<Rightarrow> history_relation" where
  "classify_history_canonical current previous =
     (if previous = [] \<or> length current < length previous then relation Diverged
      else classify_from (length current = length previous) 0 None current previous)"

definition classify_history_relation :: "json list \<Rightarrow> json list \<Rightarrow> history_relation" where
  "classify_history_relation current_messages previous_messages =
     (if current_messages = [] \<or> previous_messages = [] then relation Diverged
      else
        let current = canonicalize_list current_messages;
            previous = canonicalize_list previous_messages;
            prefix_len = length previous_messages in
        if length previous \<noteq> prefix_len then relation Diverged
        else if length (canonicalize_list (take prefix_len current_messages)) \<noteq> prefix_len
        then relation Diverged
        else classify_history_canonical current previous)"

section \<open>Cache-stable deltas\<close>

definition transient_system_lineage_enabled :: "prefix_env \<Rightarrow> bool" where
  "transient_system_lineage_enabled E = switch_on E (pe_transient E)"

text \<open>\<open>isinstance(m, dict) and m.get("role") in roles\<close>.\<close>

definition has_role :: "string list \<Rightarrow> json \<Rightarrow> bool" where
  "has_role roles m = (case m of JObj d \<Rightarrow> dget d ''role'' \<in> set (map (JStr \<circ> u) roles) | _ \<Rightarrow> False)"

definition extends_past_system_tail :: "json list \<Rightarrow> json list \<Rightarrow> bool" where
  "extends_past_system_tail current previous =
     (if length previous < 2 \<or> length current \<le> length previous then False
      else if \<not> has_role [''system''] (last previous) then False
      else
        let stable = butlast previous in
        list_eq (take (length stable) current) stable
        \<and> list_ex (has_role [''user'', ''assistant'']) stable)"

text \<open>One round of the loop of \<open>_replaced_system_tail_delta\<close>, over the canonical lists.\<close>

definition tail_replaced_at :: "json list \<Rightarrow> json list \<Rightarrow> nat \<Rightarrow> bool" where
  "tail_replaced_at current previous request_len =
     (let reply = drop request_len previous; reminder = request_len - 1 in
      (reply = [] \<or> has_role [''assistant''] (hd reply))
      \<and> extends_past_system_tail current (take request_len previous)
      \<and> list_eq (take (length reply) (drop reminder current)) reply)"

definition replaced_system_tail_delta ::
    "prefix_env \<Rightarrow> json list \<Rightarrow> json list \<Rightarrow> json list \<Rightarrow> (json list \<times> json list) option" where
  "replaced_system_tail_delta E current_messages previous_original previous_forwarded =
     (if \<not> transient_system_lineage_enabled E \<or> length previous_forwarded \<noteq> length previous_original
      then None
      else
        let current = canonicalize_list current_messages;
            previous = canonicalize_list previous_original in
        if length current \<noteq> length current_messages \<or> length previous \<noteq> length previous_original
        then None
        else
          (case find (tail_replaced_at current previous) [length previous, length previous - 1] of
             None \<Rightarrow> None
           | Some request_len \<Rightarrow>
               let reminder = request_len - 1; reply = drop request_len previous in
               Some (take reminder previous_forwarded @ drop request_len previous_forwarded,
                     drop (reminder + length reply) current_messages)))"

text \<open>A tuple is the list of its components.\<close>

definition block_identity :: "json \<Rightarrow> json list" where
  "block_identity block =
     (case block of
        JObj d \<Rightarrow>
          let k = dget d ''type'' in
          if k = JStr (u ''tool_use'') \<or> k = JStr (u ''server_tool_use'')
          then [k, dget d ''id'', dget d ''name''] else [k]
      | _ \<Rightarrow> [JStr (u ''raw''), block])"

definition content_blocks :: "json \<Rightarrow> json list option" where
  "content_blocks m = (case m of JObj d \<Rightarrow>
     (case dget d ''content'' of JList bs \<Rightarrow> Some bs | _ \<Rightarrow> None) | _ \<Rightarrow> None)"

definition client_rewrote_reply_delta ::
    "json list \<Rightarrow> json list \<Rightarrow> json list \<Rightarrow> (json list \<times> json list) option" where
  "client_rewrote_reply_delta current_messages previous_original previous_forwarded =
     (let n = length previous_original in
      if n < 2 \<or> length previous_forwarded \<noteq> n \<or> length current_messages < n then None
      else
        let prev_reply = last previous_original; cur_reply = current_messages ! (n - 1) in
        if \<not> (has_role [''assistant''] prev_reply \<and> has_role [''assistant''] cur_reply) then None
        else if \<not> list_eq (canonicalize_list (take (n - 1) current_messages))
                  (canonicalize_list (take (n - 1) previous_original)) then None
        else
          (case (content_blocks (canonicalize prev_reply), content_blocks (canonicalize cur_reply)) of
             (Some prev_blocks, Some cur_blocks) \<Rightarrow>
               if list_eq (map (JList \<circ> block_identity) prev_blocks)
                    (map (JList \<circ> block_identity) cur_blocks)
               then Some (take (n - 1) previous_forwarded @ [cur_reply], drop n current_messages)
               else None
           | _ \<Rightarrow> None))"

definition extract_cache_stable_delta ::
    "prefix_env \<Rightarrow> json list \<Rightarrow> json list option \<Rightarrow> json list option \<Rightarrow> (json list \<times> json list) option" where
  "extract_cache_stable_delta E current_messages previous_original previous_forwarded =
     (case (previous_original, previous_forwarded) of
        (Some orig, Some fwd) \<Rightarrow>
          if orig = [] then None
          else
            (case kind (classify_history_relation current_messages orig) of
               Diverged \<Rightarrow>
                 (case replaced_system_tail_delta E current_messages orig fwd of
                    Some r \<Rightarrow> Some r
                  | None \<Rightarrow> client_rewrote_reply_delta current_messages orig fwd)
             | Exact \<Rightarrow> Some (fwd, drop (length orig) current_messages)
             | Message_Append \<Rightarrow> Some (fwd, drop (length orig) current_messages)
             | _ \<Rightarrow> None)
      | _ \<Rightarrow> None)"

definition cache_key_tools :: "json \<Rightarrow> json" where
  "cache_key_tools tools =
     (case tools of
        JList ts \<Rightarrow> JList (filter (\<lambda>t. \<not> (case t of JObj d \<Rightarrow> truthy (dget d ''defer_loading'') | _ \<Rightarrow> False)) ts)
      | _ \<Rightarrow> tools)"

definition restore_frozen_prefix :: "json list \<Rightarrow> json list \<Rightarrow> int \<Rightarrow> json list \<times> nat" where
  "restore_frozen_prefix original candidate frozen_message_count =
     (if frozen_message_count \<le> 0 \<or> original = [] then (candidate, 0)
      else
        let frozen = min (nat frozen_message_count) (length original) in
        if length candidate < frozen then (take frozen original @ candidate, frozen)
        else
          let changed = filter (\<lambda>i. \<not> json_eq (candidate ! i) (original ! i)) [0..<frozen] in
          (fold (\<lambda>i r. r[i := original ! i]) changed candidate, length changed))"

section \<open>Compact JSON\<close>

text \<open>The length of \<open>_compact_json_bytes(value)\<close>, all the callers use of it.\<close>

definition compact_json_size :: "prefix_env \<Rightarrow> json list \<Rightarrow> nat option" where
  "compact_json_size E messages = encoded_len (json_text False (pe_float_repr E) (JList messages))"

section \<open>Replaying the cached prefix\<close>

definition inflates :: "prefix_env \<Rightarrow> json list \<Rightarrow> json list \<Rightarrow> bool" where
  "inflates E replayed optimized =
     (case (compact_json_size E replayed, compact_json_size E optimized) of
        (Some r, Some o') \<Rightarrow> o' < r
      | _ \<Rightarrow> True)"

definition confirmed_floor :: "int option \<Rightarrow> nat" where
  "confirmed_floor c = nat (case c of None \<Rightarrow> 0 | Some n \<Rightarrow> n)"

text \<open>The message the block-append branch puts at \<open>message_index\<close>; \<open>None\<close> when one of its
  conditions fails.\<close>

definition merged_message :: "json list \<Rightarrow> json list \<Rightarrow> json list \<Rightarrow> nat \<Rightarrow> json option" where
  "merged_message optimized prev_orig prev_fwd i =
     (if length optimized \<le> i then None
      else
        (case (prev_fwd ! i, content_blocks (prev_fwd ! i), content_blocks (prev_orig ! i),
               content_blocks (optimized ! i)) of
           (JObj previous_message, Some previous_content, Some previous_original_content,
            Some current_content) \<Rightarrow>
             let split = length previous_original_content in
             if length previous_content = split \<and> split \<le> length current_content
                \<and> list_eq (canonicalize_list (take split current_content))
                    (canonicalize_list previous_original_content)
             then Some (JObj (dset previous_message ''content''
                    (JList (previous_content @ drop split current_content))))
             else None
         | _ \<Rightarrow> None))"

text \<open>The \<open>while\<close> loop that counts the leading messages unchanged since the last turn.\<close>

fun unchanged_run :: "json list \<Rightarrow> json list \<Rightarrow> nat" where
  "unchanged_run (c # cs) (p # ps) =
     (if json_eq (canonicalize c) (canonicalize p) then Suc (unchanged_run cs ps) else 0)"
| "unchanged_run _ _ = 0"

text \<open>From the message-by-message guard on.\<close>

definition overlay_messages ::
    "prefix_env \<Rightarrow> json list \<Rightarrow> json list \<Rightarrow> json list \<Rightarrow> json list \<Rightarrow> int option \<Rightarrow> json list" where
  "overlay_messages E optimized current_original prev_orig prev_fwd confirmed =
     (let k = unchanged_run current_original prev_orig in
      if k = 0 then optimized
      else
        let replayed = take k prev_fwd @ drop k optimized in
        if inflates E replayed optimized then
          let floor = min k (confirmed_floor confirmed) in
          if floor = 0 then optimized else take floor prev_fwd @ drop floor optimized
        else replayed)"

definition overlay_cached_prefix ::
    "prefix_env \<Rightarrow> json list \<Rightarrow> json list \<Rightarrow> json list option \<Rightarrow> json list option \<Rightarrow> int option \<Rightarrow> json list" where
  "overlay_cached_prefix E optimized current_original previous_original previous_forwarded confirmed =
     (case (previous_original, previous_forwarded) of
        (Some prev_orig, Some prev_fwd) \<Rightarrow>
          if prev_orig = [] \<or> prev_fwd = [] then optimized
          else if length optimized \<noteq> length current_original then optimized
          else if length prev_fwd \<noteq> length prev_orig then optimized
          else
            let rel = classify_history_relation current_original prev_orig;
                merge = (case (kind rel, message_index rel) of
                           (Block_Append, Some i) \<Rightarrow>
                             map_option (\<lambda>m. (i, m)) (merged_message optimized prev_orig prev_fwd i)
                         | _ \<Rightarrow> None) in
            (case merge of
               Some (i, merged) \<Rightarrow>
                 let replayed = take i prev_fwd @ [merged] @ drop (Suc i) optimized in
                 if confirmed_floor confirmed \<le> i \<and> inflates E replayed optimized then optimized
                 else replayed
             | None \<Rightarrow> overlay_messages E optimized current_original prev_orig prev_fwd confirmed)
      | _ \<Rightarrow> optimized)"

section \<open>Cache markers\<close>

definition MIN_BLOCKS_FOR_RELOCATION :: nat where "MIN_BLOCKS_FOR_RELOCATION = 20"

definition stable_boundary_enabled :: "prefix_env \<Rightarrow> bool" where
  "stable_boundary_enabled E = switch_on E (pe_stable_boundary E)"

definition breakpoint_index :: "prefix_env \<Rightarrow> json list \<Rightarrow> json \<Rightarrow> nat \<Rightarrow> json list option \<Rightarrow> nat" where
  "breakpoint_index E content message index previous_forwarded =
     (let newest = length content - 1 in
      case previous_forwarded of
        None \<Rightarrow> newest
      | Some prev_fwd \<Rightarrow>
          if prev_fwd = [] \<or> \<not> stable_boundary_enabled E
             \<or> length content < MIN_BLOCKS_FOR_RELOCATION \<or> length prev_fwd \<le> index
          then newest
          else
            (case prev_fwd ! index of
               JObj previous \<Rightarrow>
                 let rel = classify_history_relation [message] [JObj previous] in
                 if kind rel = Block_Rewrite_Tail then stable_prefix_blocks rel - 1 else newest
             | _ \<Rightarrow> newest))"

definition block_marker :: "json \<Rightarrow> pydict option" where
  "block_marker b = (case b of JObj d \<Rightarrow>
     (case dget d ''cache_control'' of JObj m \<Rightarrow> Some m | _ \<Rightarrow> None) | _ \<Rightarrow> None)"

definition message_markers :: "nat \<Rightarrow> json \<Rightarrow> (nat \<times> nat \<times> pydict) list" where
  "message_markers i msg =
     (case content_blocks msg of
        None \<Rightarrow> []
      | Some content \<Rightarrow>
          List.map_filter (\<lambda>(bi, b). map_option (\<lambda>m. (i, bi, m)) (block_marker b))
            (enumerate 0 content))"

definition client_marker_positions :: "json list \<Rightarrow> (nat \<times> nat \<times> pydict) list" where
  "client_marker_positions client_messages =
     concat (map (\<lambda>(i, msg). message_markers i msg) (enumerate 0 client_messages))"

definition without_key :: "string \<Rightarrow> pydict \<Rightarrow> pydict" where
  "without_key key d = filter (\<lambda>(k, v). k \<noteq> u key) d"

definition strip_block :: "json \<Rightarrow> json" where
  "strip_block b = (case b of JObj d \<Rightarrow> JObj (without_key ''cache_control'' d) | _ \<Rightarrow> b)"

definition has_cache_control :: "json \<Rightarrow> bool" where
  "has_cache_control b = (case b of JObj d \<Rightarrow> map_of d (u ''cache_control'') \<noteq> None | _ \<Rightarrow> False)"

definition strip_message :: "json \<Rightarrow> json" where
  "strip_message msg =
     (case (msg, content_blocks msg) of
        (JObj d, Some content) \<Rightarrow>
          if list_ex has_cache_control content
          then JObj (dset d ''content'' (JList (map strip_block content))) else msg
      | _ \<Rightarrow> msg)"

definition newest_marker :: "json list \<Rightarrow> pydict option" where
  "newest_marker messages =
     (case List.map_filter block_marker
             (concat (map (\<lambda>m. case content_blocks m of Some c \<Rightarrow> c | None \<Rightarrow> []) messages)) of
        [] \<Rightarrow> None
      | ms \<Rightarrow> Some (last ms))"

text \<open>\<open>last_block_idx\<close>: the last message whose content ends in a dictionary.\<close>

definition ends_in_block :: "json \<Rightarrow> bool" where
  "ends_in_block m = (case content_blocks m of
     Some c \<Rightarrow> c \<noteq> [] \<and> (case last c of JObj _ \<Rightarrow> True | _ \<Rightarrow> False) | None \<Rightarrow> False)"

definition last_block_message :: "json list \<Rightarrow> nat option" where
  "last_block_message messages =
     (case filter (\<lambda>(i, m). ends_in_block m) (enumerate 0 messages) of
        [] \<Rightarrow> None
      | ms \<Rightarrow> Some (fst (last ms)))"

text \<open>The block \<open>_place\<close> puts the marker on: the requested one, the breakpoint, or the newest,
  falling back to the newest when that is not a dictionary.\<close>

definition chosen_block ::
    "prefix_env \<Rightarrow> json list option \<Rightarrow> nat \<Rightarrow> bool \<Rightarrow> nat option \<Rightarrow> json \<Rightarrow> json list \<Rightarrow> nat" where
  "chosen_block E previous_forwarded target anchor block_idx msg content =
     (let newest = length content - 1;
          requested = (case block_idx of
                         Some b \<Rightarrow> if b < length content then Some b else None
                       | None \<Rightarrow> None);
          breakpoint = (case requested of
                          Some b \<Rightarrow> b
                        | None \<Rightarrow>
                            if anchor then breakpoint_index E content msg target previous_forwarded
                            else newest) in
      case content ! breakpoint of JObj _ \<Rightarrow> breakpoint | _ \<Rightarrow> newest)"

text \<open>\<open>_place\<close>: the changed messages and whether a marker was put. A target that is not a
  dictionary has no \<open>get\<close>.\<close>

definition place ::
    "prefix_env \<Rightarrow> json list option \<Rightarrow> nat \<Rightarrow> pydict \<Rightarrow> bool \<Rightarrow> nat option \<Rightarrow> json list
       \<Rightarrow> py_error + json list \<times> bool" where
  "place E previous_forwarded target marker anchor block_idx out =
     (case out ! target of
        JObj d \<Rightarrow>
          (case dget d ''content'' of
             JList content \<Rightarrow>
               if content = [] then Inr (out, False)
               else
                 let i = chosen_block E previous_forwarded target anchor block_idx (JObj d) content in
                 (case content ! i of
                    JObj b \<Rightarrow>
                      Inr (out[target := JObj (dset d ''content''
                             (JList (content[i := JObj (dset b ''cache_control'' (JObj marker))])))], True)
                  | _ \<Rightarrow> Inr (out, False))
           | _ \<Rightarrow> Inr (out, False))
      | _ \<Rightarrow> Inl PyAttributeError)"

text \<open>The loop over the client's positions; the marker \<open>newest\<close> is anchored when the client put
  it on the last block of its message.\<close>

fun place_all ::
    "prefix_env \<Rightarrow> json list option \<Rightarrow> nat \<times> nat \<Rightarrow> bool \<Rightarrow> (nat \<times> nat \<times> pydict) list \<Rightarrow> json list \<Rightarrow> bool
       \<Rightarrow> py_error + json list \<times> bool" where
  "place_all E pf newest on_final [] out placed_any = Inr (out, placed_any)"
| "place_all E pf newest on_final ((mi, bi, marker) # ps) out placed_any =
     bindR (if (mi, bi) = newest \<and> on_final then place E pf mi marker True None out
            else place E pf mi marker False (Some bi) out)
       (\<lambda>(out', placed). place_all E pf newest on_final ps out' (placed \<or> placed_any))"

text \<open>The tail of the function: one marker on the last block-style message.\<close>

definition consolidate ::
    "prefix_env \<Rightarrow> json list \<Rightarrow> json list option \<Rightarrow> py_error + json list" where
  "consolidate E messages previous_forwarded =
     (let out = map strip_message messages;
          marker = (case newest_marker messages of
                      Some m \<Rightarrow> if m = [] then [(u ''type'', JStr (u ''ephemeral''))] else m
                    | None \<Rightarrow> [(u ''type'', JStr (u ''ephemeral''))]) in
      case last_block_message messages of
        Some i \<Rightarrow> bindR (place E previous_forwarded i marker True None out) (\<lambda>(out', _). Inr out')
      | None \<Rightarrow> Inr out)"

definition normalize_message_cache_control ::
    "prefix_env \<Rightarrow> json list \<Rightarrow> json list option \<Rightarrow> json list option \<Rightarrow> py_error + json list" where
  "normalize_message_cache_control E messages previous_forwarded client_messages =
     (case client_messages of
        Some client \<Rightarrow>
          let positions = client_marker_positions client in
          if length client = length messages \<and> positions \<noteq> [] then
            let (newest_mi, newest_bi, _) = last positions;
                on_final = (case content_blocks (client ! newest_mi) of
                              Some c \<Rightarrow> newest_bi = length c - 1 | None \<Rightarrow> False) in
            bindR (place_all E previous_forwarded (newest_mi, newest_bi) on_final positions
                     (map strip_message messages) False)
              (\<lambda>(out, _). Inr out)
          else consolidate E messages previous_forwarded
      | None \<Rightarrow> consolidate E messages previous_forwarded)"

definition mirror_marker :: "json \<Rightarrow> json \<Rightarrow> json \<times> bool" where
  "mirror_marker holder client_holder =
     (case holder of
        JObj h \<Rightarrow>
          (case block_marker client_holder of
             Some client_marker \<Rightarrow>
               if json_eq (dget h ''cache_control'') (JObj client_marker) then (holder, False)
               else (JObj (dset h ''cache_control'' (JObj client_marker)), True)
           | None \<Rightarrow>
               if map_of h (u ''cache_control'') \<noteq> None then (JObj (without_key ''cache_control'' h), True)
               else (holder, False))
      | _ \<Rightarrow> (holder, False))"

text \<open>\<open>m.get("tool_calls")\<close> when it is a list.\<close>

definition tool_calls_of :: "json \<Rightarrow> json list option" where
  "tool_calls_of m = (case m of JObj d \<Rightarrow>
     (case dget d ''tool_calls'' of JList cs \<Rightarrow> Some cs | _ \<Rightarrow> None) | _ \<Rightarrow> None)"

definition mirror_message :: "json \<Rightarrow> json \<Rightarrow> json" where
  "mirror_message msg client =
     (let new_msg = fst (mirror_marker msg client) in
      case (new_msg, tool_calls_of new_msg, tool_calls_of client) of
        (JObj d, Some calls, Some client_calls) \<Rightarrow>
          if length calls = length client_calls then
            let mirrored = map2 mirror_marker calls client_calls in
            if list_ex snd mirrored
            then JObj (dset d ''tool_calls'' (JList (map fst mirrored))) else new_msg
          else new_msg
      | _ \<Rightarrow> new_msg)"

definition mirror_client_message_cache_control :: "json list \<Rightarrow> json list option \<Rightarrow> json list" where
  "mirror_client_message_cache_control messages client_messages =
     (case client_messages of
        Some client \<Rightarrow>
          if length client \<noteq> length messages then messages else map2 mirror_message messages client
      | None \<Rightarrow> messages)"

end
