(* ===== verification/Prefix_Replay_Props.thy ===== *)
theory Prefix_Replay_Props
  imports Prefix_Replay
begin

text \<open>
  What the prefix comparison and replay guarantee: canonical forms decide exactly the documented
  re-encodings, a cache-stable split and an overlay forward only messages that belong at their
  positions, and marker placement touches nothing but markers and stays within the client's budget.
\<close>

section \<open>The canonical form\<close>

text \<open>The re-encodings of a message that leave its meaning alone: adding or dropping an annotation,
  writing string content as one text block, adding or dropping an empty block, and any of these inside
  a field that is not an opaque payload or inside a list.\<close>

inductive reencoding :: "json \<Rightarrow> json \<Rightarrow> bool" where
  same: "reencoding v v"
| symm: "reencoding v w \<Longrightarrow> reencoding w v"
| chain: "reencoding v w \<Longrightarrow> reencoding w x \<Longrightarrow> reencoding v x"
| annotation: "k \<in> set NON_SEMANTIC_KEYS \<Longrightarrow> reencoding (JObj (d @ [(k, v)] @ d')) (JObj (d @ d'))"
| sugar: "reencoding (JObj (d @ [(u ''content'', JStr s)] @ d')) (JObj (d @ [(u ''content'', JList [text_block s])] @ d'))"
| directive: "reencoding (JList (xs @ [JObj []] @ ys)) (JList (xs @ ys))"
| field: "k \<notin> set OPAQUE_PAYLOAD_KEYS \<Longrightarrow> reencoding v w \<Longrightarrow>
    reencoding (JObj (d @ [(k, v)] @ d')) (JObj (d @ [(k, w)] @ d'))"
| item: "reencoding x y \<Longrightarrow> reencoding (JList (xs @ [x] @ ys)) (JList (xs @ [y] @ ys))"

lemma canonicalize_list_append [simp]:
  "canonicalize_list (xs @ ys) = canonicalize_list xs @ canonicalize_list ys"
  by (induction xs) (auto simp: Let_def)

lemma canonicalize_dict_append [simp]:
  "canonicalize_dict (d @ d') = canonicalize_dict d @ canonicalize_dict d'"
  by (induction d) auto

lemma canonicalize_eq_JStr [simp]: "canonicalize v = JStr s \<longleftrightarrow> v = JStr s"
  by (cases v) auto

lemma content_key [simp]: "u ''content'' \<notin> set NON_SEMANTIC_KEYS" "u ''content'' \<notin> set OPAQUE_PAYLOAD_KEYS"
  and text_keys [simp]: "u ''type'' \<notin> set NON_SEMANTIC_KEYS" "u ''text'' \<notin> set NON_SEMANTIC_KEYS"
  by (simp_all add: NON_SEMANTIC_KEYS_def OPAQUE_PAYLOAD_KEYS_def)

lemma canonicalize_text_block [simp]: "canonicalize (text_block s) = text_block s"
  by (simp add: text_block_def)

lemma text_block_not_empty [simp]: "text_block s \<noteq> JObj []"
  by (simp add: text_block_def)

lemma canonicalize_content:
  "canonicalize v = canonicalize w \<Longrightarrow>
   (case v of JStr s \<Rightarrow> JList [text_block s] | _ \<Rightarrow> canonicalize v) =
   (case w of JStr s \<Rightarrow> JList [text_block s] | _ \<Rightarrow> canonicalize w)"
  by (cases v; cases w) auto

lemma reencoding_canonicalize: "reencoding v w \<Longrightarrow> canonicalize v = canonicalize w"
proof (induction rule: reencoding.induct)
  case (field k v w d d')
  then show ?case using canonicalize_content [OF field.IH] by simp
qed (simp_all add: Let_def)

lemma reencoding_field_front:
  assumes "k \<notin> set NON_SEMANTIC_KEYS"
    and "k \<notin> set OPAQUE_PAYLOAD_KEYS \<Longrightarrow> reencoding v (canonicalize v)"
  obtains v' where "canonicalize_dict ((k, v) # d) = (k, v') # canonicalize_dict d"
    and "\<And>pre e. reencoding (JObj (pre @ [(k, v)] @ e)) (JObj (pre @ [(k, v')] @ e))"
proof (cases "k \<in> set OPAQUE_PAYLOAD_KEYS")
  case True
  then show thesis using that [of v] assms(1) same by auto
next
  case False
  show thesis
  proof (cases "k = u ''content'' \<and> is_str v")
    case True
    then obtain s where "v = JStr s" by (auto simp: is_str_def split: json.splits)
    then show thesis using True that [of "JList [text_block s]"] sugar by auto
  next
    case False2: False
    then have "canonicalize_dict ((k, v) # d) = (k, canonicalize v) # canonicalize_dict d"
      using False assms(1) by (cases v) auto
    then show thesis using that [of "canonicalize v"] field [OF False assms(2) [OF False]] by blast
  qed
qed

lemma reencodes_to_canonical:
  "reencoding v (canonicalize v)"
  "reencoding (JObj (pre @ d)) (JObj (pre @ canonicalize_dict d))"
  "reencoding (JList (ipre @ xs)) (JList (ipre @ canonicalize_list xs))"
proof (induction v and d and xs arbitrary: and pre and ipre
    rule: canonicalize_canonicalize_dict_canonicalize_list.induct)
  case (1 d)
  then show ?case using "1.IH" [of "[]"] by simp
next
  case (2 xs)
  then show ?case using "2.IH" [of "[]"] by simp
next
  case (5 k v d)
  show ?case
  proof (cases "k \<in> set NON_SEMANTIC_KEYS")
    case True
    then show ?thesis using chain [OF annotation [OF True] "5.IH"(1) [OF True]] by simp
  next
    case False
    have "reencoding v (canonicalize v)" if opaque: "k \<notin> set OPAQUE_PAYLOAD_KEYS"
    proof (cases "k = u ''content''")
      case True
      show ?thesis
        by (cases v) (use "5.IH"(2-) False True opaque in \<open>simp_all add: same\<close>)
    next
      case other: False
      show ?thesis using False opaque other by (rule "5.IH")
    qed
    then obtain v' where v': "canonicalize_dict ((k, v) # d) = (k, v') # canonicalize_dict d"
      "\<And>pre e. reencoding (JObj (pre @ [(k, v)] @ e)) (JObj (pre @ [(k, v')] @ e))"
      using reencoding_field_front [OF False] by metis
    have "reencoding (JObj ((pre @ [(k, v')]) @ d)) (JObj ((pre @ [(k, v')]) @ canonicalize_dict d))"
      using False by (rule "5.IH")
    then show ?thesis using chain [OF v'(2) [of pre d]] v'(1) by simp
  qed
next
  case (7 x xs)
  have x: "reencoding (JList (ipre @ [x] @ xs)) (JList (ipre @ [canonicalize x] @ xs))"
    by (rule item) (rule "7.IH")
  show ?case
  proof (cases "canonicalize x = JObj []")
    case True
    then have "reencoding (JList (ipre @ [x] @ xs)) (JList (ipre @ xs))"
      using chain [OF x] directive by simp
    then show ?thesis using True chain "7.IH"(2) [OF refl True] by (simp add: Let_def)
  next
    case False
    then show ?thesis using chain [OF x] "7.IH"(3) [OF refl False, of "ipre @ [canonicalize x]"]
      by (simp add: Let_def)
  qed
qed (auto intro: same)

text \<open>C23: Two values have the same canonical form exactly when one is a re-encoding of the other. So a
  moved cache marker, a changed annotation or the string form of a text block never reads as a changed
  history, and nothing else is hidden: a change of any other field, or of anything inside a tool
  input, changes the canonical form. Canonicalising again changes nothing.\<close>

theorem canonical_iff_reencoding:
  "(canonicalize v = canonicalize w \<longleftrightarrow> reencoding v w) \<and> canonicalize (canonicalize v) = canonicalize v"
  using reencoding_canonicalize reencodes_to_canonical(1) by (metis chain symm)

section \<open>Positions in canonical lists\<close>

lemma list_eq_iff: "list_eq xs ys \<longleftrightarrow> list_all2 json_eq xs ys"
  by (induction xs arbitrary: ys) (auto simp: list_all2_Cons1 split: list.splits)

lemma length_canonicalize_list: "length (canonicalize_list xs) \<le> length xs"
  by (induction xs) (auto simp: Let_def)

lemma canonicalize_list_map:
  "length (canonicalize_list xs) = length xs \<Longrightarrow> canonicalize_list xs = map canonicalize xs"
proof (induction xs)
  case (Cons x xs)
  have "length (canonicalize_list xs) \<le> length xs" by (rule length_canonicalize_list)
  with Cons show ?case by (auto simp: Let_def split: if_splits)
qed simp

lemma canonicalize_list_take:
  "length (canonicalize_list xs) = length xs \<Longrightarrow>
   canonicalize_list (take n xs) = take n (canonicalize_list xs)"
proof -
  assume a: "length (canonicalize_list xs) = length xs"
  have "length (canonicalize_list (take n xs)) + length (canonicalize_list (drop n xs)) = length xs"
    using a by (metis append_take_drop_id canonicalize_list_append length_append)
  then have "length (canonicalize_list (take n xs)) = length (take n xs)"
    using length_canonicalize_list [of "take n xs"] length_canonicalize_list [of "drop n xs"]
    by (simp add: min_def split: if_splits)
  then show ?thesis using a by (metis canonicalize_list_map take_map)
qed

text \<open>The first \<open>n\<close> messages keep their positions when projecting them drops none.\<close>

lemma take_canonicalize_list:
  assumes "length (canonicalize_list (take n xs)) = n"
  shows "take n (canonicalize_list xs) = map canonicalize (take n xs)" "n \<le> length xs"
proof -
  show len: "n \<le> length xs" using assms length_canonicalize_list [of "take n xs"] by simp
  have "canonicalize_list xs = canonicalize_list (take n xs) @ canonicalize_list (drop n xs)"
    by (metis append_take_drop_id canonicalize_list_append)
  then show "take n (canonicalize_list xs) = map canonicalize (take n xs)"
    using assms len canonicalize_list_map [of "take n xs"] by simp
qed

section \<open>Classification\<close>

lemma kind_relation [simp]: "kind (relation k) = k"
  by (simp add: relation_def)

lemma changed_message_kind:
  "changed_message s i c p = Some r \<Longrightarrow>
   message_index r = Some i \<and> (kind r = Block_Append \<or> kind r = Block_Rewrite_Tail)"
  by (auto simp: changed_message_def Let_def split: json.splits if_splits)

lemma classify_from_sound:
  assumes "kind (classify_from s i ch cs ps) \<noteq> Diverged"
    and "\<And>r. ch = Some r \<Longrightarrow> kind r = Block_Append \<or> kind r = Block_Rewrite_Tail"
  shows "length ps \<le> length cs \<and>
    (\<forall>j < length ps. json_eq (cs ! j) (ps ! j) \<or> message_index (classify_from s i ch cs ps) = Some (i + j)) \<and>
    (ch \<noteq> None \<longrightarrow> classify_from s i ch cs ps = the ch \<and> (\<forall>j < length ps. json_eq (cs ! j) (ps ! j))) \<and>
    (kind (classify_from s i ch cs ps) \<in> {Exact, Message_Append} \<longrightarrow> (\<forall>j < length ps. json_eq (cs ! j) (ps ! j)))"
  using assms
proof (induction s i ch cs ps rule: classify_from.induct)
  case (1 s i ch cs)
  then show ?case by (auto split: option.splits)
next
  case (2 s i ch c cs p ps)
  show ?case
  proof (cases "json_eq c p")
    case True
    then show ?thesis using 2 by (auto simp: nth_Cons split: nat.splits)
  next
    case False
    then have ch: "ch = None" using 2 by (auto split: if_splits)
    then obtain r where r: "changed_message s i c p = Some r" using 2 False by (auto split: option.splits)
    have "classify_from s i ch (c # cs) (p # ps) = classify_from s (Suc i) (Some r) cs ps"
      using False ch r by simp
    then show ?thesis using 2 False ch r changed_message_kind [OF r]
      by (auto simp: nth_Cons split: nat.splits)
  qed
qed auto

lemma classify_from_index:
  assumes "message_index (classify_from s i ch cs ps) = Some j"
    and "\<And>r j. ch = Some r \<Longrightarrow> message_index r = Some j \<Longrightarrow> j < i + length ps"
  shows "j < i + length ps"
  using assms
proof (induction s i ch cs ps rule: classify_from.induct)
  case (2 s i ch c cs p ps)
  show ?case
  proof (cases "changed_message s i c p")
    case (Some r)
    then show ?thesis using 2 changed_message_kind [OF Some]
      by (force simp: relation_def split: if_splits)
  qed (use 2 in \<open>force simp: relation_def split: if_splits\<close>)
qed (auto simp: relation_def split: option.splits)

lemma classify_history_sound:
  assumes "kind (classify_history_relation cur orig) \<noteq> Diverged"
  defines "r \<equiv> classify_history_relation cur orig"
  shows "length orig \<le> length cur"
    and "i < length orig \<Longrightarrow> message_index r \<noteq> Some i \<Longrightarrow> json_eq (canonicalize (cur ! i)) (canonicalize (orig ! i))"
    and "kind r \<in> {Exact, Message_Append} \<Longrightarrow> i < length orig \<Longrightarrow>
      json_eq (canonicalize (cur ! i)) (canonicalize (orig ! i))"
    and "canonicalize_list (take (length orig) cur) = map canonicalize (take (length orig) cur)"
    and "canonicalize_list orig = map canonicalize orig"
    and "message_index r = Some i \<Longrightarrow> i < length orig"
proof -
  let ?n = "length orig" and ?c = "canonicalize_list cur" and ?p = "canonicalize_list orig"
  have p: "length ?p = ?n" and c: "length (canonicalize_list (take ?n cur)) = ?n"
    and r: "r = classify_history_canonical ?c ?p"
    using assms(1) by (auto simp: classify_history_relation_def r_def Let_def split: if_splits)
  show len: "?n \<le> length cur" and "canonicalize_list (take ?n cur) = map canonicalize (take ?n cur)"
    and po: "?p = map canonicalize orig"
    using take_canonicalize_list [OF c] canonicalize_list_map p c by auto
  have nth: "?c ! j = canonicalize (cur ! j)" if "j < ?n" for j
    using take_canonicalize_list [OF c] that len by (metis length_take min.absorb2 nth_map nth_take)
  have k: "kind (classify_from (length ?c = length ?p) 0 None ?c ?p) \<noteq> Diverged"
    and r': "r = classify_from (length ?c = length ?p) 0 None ?c ?p"
    using assms(1) r by (auto simp: classify_history_canonical_def r_def split: if_splits)
  note s = classify_from_sound [OF k]
  show "i < ?n \<Longrightarrow> message_index r \<noteq> Some i \<Longrightarrow> json_eq (canonicalize (cur ! i)) (canonicalize (orig ! i))"
    using s r' nth [of i] po p by force
  show "kind r \<in> {Exact, Message_Append} \<Longrightarrow> i < ?n \<Longrightarrow> json_eq (canonicalize (cur ! i)) (canonicalize (orig ! i))"
    using s r' nth [of i] po p by force
  show "message_index r = Some i \<Longrightarrow> i < ?n"
    using classify_from_index [of _ 0 None ?c ?p i] r' p by auto
qed

section \<open>Cache-stable deltas\<close>

text \<open>Messages of a request that repeat recorded ones: as many, and the same in canonical form.\<close>

definition repeats :: "json list \<Rightarrow> json list \<Rightarrow> bool" where
  "repeats ca a \<longleftrightarrow> length ca = length a \<and> list_eq (canonicalize_list ca) (canonicalize_list a)"

text \<open>Blocks of a reply that a client may have written anew: of the same type and, for a tool call,
  with the same id and tool name. A block that is no dictionary must be equal.\<close>

definition same_block :: "json \<Rightarrow> json \<Rightarrow> bool" where
  "same_block b c \<longleftrightarrow> (case (b, c) of
     (JObj d, JObj e) \<Rightarrow> json_eq (dget d ''type'') (dget e ''type'')
       \<and> (dget d ''type'' \<in> {JStr (u ''tool_use''), JStr (u ''server_tool_use'')} \<longrightarrow>
            json_eq (dget d ''id'') (dget e ''id'') \<and> json_eq (dget d ''name'') (dget e ''name''))
   | (JObj d, _) \<Rightarrow> False | (_, JObj e) \<Rightarrow> False | _ \<Rightarrow> json_eq b c)"

definition same_reply :: "json \<Rightarrow> json \<Rightarrow> bool" where
  "same_reply r r' \<longleftrightarrow> has_role [''assistant''] r \<and> has_role [''assistant''] r' \<and>
     (\<exists>bs bs'. content_blocks (canonicalize r) = Some bs \<and> content_blocks (canonicalize r') = Some bs' \<and> list_all2 same_block bs bs')"

text \<open>\<open>p\<close> and \<open>d\<close> split the request \<open>cur\<close> after the turn with messages \<open>orig\<close>, forwarded as
  \<open>fwd\<close>. Either the request repeats the whole turn and \<open>p\<close> is all that was forwarded; or it repeats
  all but a system reminder, which was the last message of the turn or had only the model's reply after it,
  and \<open>p\<close> is what was forwarded without the reminder; or it repeats all but the reply, which it has
  in its own version, and \<open>p\<close> is what was forwarded for the messages before followed by that version.
  In each case \<open>d\<close> is the rest of the request.\<close>

inductive replays :: "json list \<Rightarrow> json list \<Rightarrow> json list \<Rightarrow> json list \<Rightarrow> json list \<Rightarrow> bool" where
  whole: "repeats ca orig \<Longrightarrow> replays (ca @ d) orig fwd fwd d"
| no_reminder: "repeats (ca @ cb) (a @ b) \<Longrightarrow> length ca = length a \<Longrightarrow> length fa = length a \<Longrightarrow> length fb = length b \<Longrightarrow>
    a \<noteq> [] \<Longrightarrow> length b \<le> 1 \<Longrightarrow> has_role [''system''] (canonicalize r) \<Longrightarrow> list_all (has_role [''assistant'']) (map canonicalize b) \<Longrightarrow>
    replays (ca @ cb @ d) (a @ [r] @ b) (fa @ [fr] @ fb) (fa @ fb) d"
| own_reply: "repeats ca a \<Longrightarrow> length fa = length a \<Longrightarrow> a \<noteq> [] \<Longrightarrow> same_reply r r' \<Longrightarrow>
    replays (ca @ [r'] @ d) (a @ [r]) (fa @ [fr]) (fa @ [r']) d"

lemma replays_whole:
  assumes "kind (classify_history_relation cur orig) \<in> {Exact, Message_Append}"
  shows "replays cur orig fwd fwd (drop (length orig) cur)"
proof -
  have nd: "kind (classify_history_relation cur orig) \<noteq> Diverged" using assms by auto
  have "list_all2 json_eq (map canonicalize (take (length orig) cur)) (map canonicalize orig)"
    using classify_history_sound(1,3) [OF nd] assms by (auto simp: list_all2_conv_all_nth)
  then have "repeats (take (length orig) cur) orig"
    using classify_history_sound(1,4,5) [OF nd] by (simp add: repeats_def list_eq_iff)
  from replays.whole [OF this] show ?thesis by (metis append_take_drop_id)
qed

lemma reminder_split:
  assumes "n \<le> length orig" and "2 \<le> n" and "length fwd = length orig"
  shows "orig = take (n - 1) orig @ [orig ! (n - 1)] @ drop n orig" "fwd = take (n - 1) fwd @ [fwd ! (n - 1)] @ drop n fwd"
  using assms Cons_nth_drop_Suc [of "n - 1" orig] Cons_nth_drop_Suc [of "n - 1" fwd] by simp_all

lemma replays_without_reminder:
  assumes "replaced_system_tail_delta E cur orig fwd = Some (p, d)"
  shows "replays cur orig fwd p d"
proof -
  let ?c = "canonicalize_list cur" and ?o = "canonicalize_list orig"
  obtain n where lens: "length fwd = length orig" "length ?c = length cur" "length ?o = length orig"
    and n: "find (tail_replaced_at ?c ?o) [length ?o, length ?o - 1] = Some n"
    and pd: "p = take (n - 1) fwd @ drop n fwd" "d = drop (n - 1 + length (drop n ?o)) cur"
    using assms by (auto simp: replaced_system_tail_delta_def Let_def split: if_splits option.splits)
  from n have n: "n \<le> length orig" "length orig \<le> Suc n" "tail_replaced_at ?c ?o n"
    using lens by (auto split: if_splits)
  then have ext: "extends_past_system_tail ?c (take n ?o)" and role: "drop n ?o = [] \<or> has_role [''assistant''] (hd (drop n ?o))"
    and reply: "list_eq (take (length (drop n ?o)) (drop (n - 1) ?c)) (drop n ?o)"
    by (auto simp: tail_replaced_at_def Let_def)
  from ext n lens have n2: "2 \<le> n" "n < length cur"
    and stable: "list_eq (take (n - 1) ?c) (take (n - 1) ?o)" and sys: "has_role [''system''] (last (take n ?o))"
    by (auto simp: extends_past_system_tail_def Let_def butlast_take split: if_splits)
  let ?a = "take (n - 1) orig" and ?b = "drop n orig" and ?m = "length orig - 1"
  let ?ca = "take (n - 1) cur" and ?cb = "take (length ?b) (drop (n - 1) cur)"
  have fits: "length ?b \<le> length (drop (n - 1) cur)"
    using reply n n2 lens by (auto simp: list_eq_iff dest!: list_all2_lengthD)
  have o: "?o = map canonicalize orig" and c: "?c = map canonicalize cur"
    using canonicalize_list_map lens by simp_all
  have co: "canonicalize_list (?a @ ?b) = take (n - 1) ?o @ drop n ?o"
    using lens n2 n by (simp add: canonicalize_list_take)
      (metis append_same_eq append_take_drop_id canonicalize_list_append canonicalize_list_take same_append_eq)
  have cc: "canonicalize_list (?ca @ ?cb) = take (n - 1) ?c @ take (length (drop n ?o)) (drop (n - 1) ?c)"
  proof -
    have "?ca @ ?cb = take (n - 1 + length ?b) cur" by (simp add: take_add)
    from arg_cong [OF this, of canonicalize_list] show ?thesis
      using lens unfolding canonicalize_list_take [OF lens(2)] by (simp add: take_add)
  qed
  have rep: "repeats (?ca @ ?cb) (?a @ ?b)"
    unfolding repeats_def co cc using stable reply fits n n2 lens by (auto simp: list_eq_iff list_all2_appendI)
  have system: "has_role [''system''] (canonicalize (orig ! (n - 1)))"
  proof -
    have "take n ?o \<noteq> []" "length (take n ?o) = n" using n n2 lens by auto
    then have "last (take n ?o) = ?o ! (n - 1)" using n2 by (simp add: last_conv_nth)
    then show ?thesis using sys n n2 by (simp add: o)
  qed
  have assistant: "list_all (has_role [''assistant'']) (map canonicalize ?b)"
  proof -
    have "length ?b \<le> 1" using n(1,2) by simp
    then show ?thesis using role by (cases ?b) (auto simp: o drop_map)
  qed
  have "replays (?ca @ ?cb @ d) (?a @ [orig ! (n - 1)] @ ?b) (take (n - 1) fwd @ [fwd ! (n - 1)] @ drop n fwd)
      (take (n - 1) fwd @ drop n fwd) d"
    by (rule replays.no_reminder [OF rep _ _ _ _ _ system assistant]) (use n n2 lens in auto)
  moreover have "?ca @ ?cb @ d = cur"
    using pd(2) lens by (metis append.assoc append_take_drop_id length_drop take_add)
  ultimately show ?thesis using reminder_split [OF n(1) n2(1) lens(1)] pd(1) by simp
qed

lemma same_block_identity: "list_eq (block_identity b) (block_identity c) \<Longrightarrow> same_block b c"
  by (cases b; cases c) (auto simp: block_identity_def same_block_def Let_def split: if_splits)

lemma replays_with_client_reply:
  assumes "client_rewrote_reply_delta cur orig fwd = Some (p, d)"
  shows "replays cur orig fwd p d"
proof -
  let ?n = "length orig - 1"
  obtain bs bs' where l: "2 \<le> length orig" "length fwd = length orig" "length orig \<le> length cur"
    and eq: "list_eq (canonicalize_list (take ?n cur)) (canonicalize_list (take ?n orig))"
    and pd: "p = take ?n fwd @ [cur ! ?n]" "d = drop (length orig) cur"
    and role: "has_role [''assistant''] (last orig)" "has_role [''assistant''] (cur ! ?n)"
    and blocks: "content_blocks (canonicalize (last orig)) = Some bs" "content_blocks (canonicalize (cur ! ?n)) = Some bs'"
      "list_eq (map (JList \<circ> block_identity) bs) (map (JList \<circ> block_identity) bs')"
    using assms by (auto simp: client_rewrote_reply_delta_def Let_def split: if_splits option.splits)
  have "list_all2 same_block bs bs'"
    using blocks(3) by (auto simp: list_eq_iff list_all2_map1 list_all2_map2 elim!: list_all2_mono intro!: same_block_identity)
  then have "same_reply (last orig) (cur ! ?n)" unfolding same_reply_def using role blocks(1,2) by blast
  moreover have "repeats (take ?n cur) (take ?n orig)" using eq l by (simp add: repeats_def)
  ultimately have "replays (take ?n cur @ [cur ! ?n] @ d) (take ?n orig @ [last orig]) (take ?n fwd @ [last fwd]) (take ?n fwd @ [cur ! ?n]) d"
    using l by (intro replays.own_reply) auto
  moreover have "take ?n cur @ [cur ! ?n] @ d = cur"
  proof -
    have "Suc ?n = length orig" "?n < length cur" using l by linarith+
    then show ?thesis using Cons_nth_drop_Suc [of ?n cur] append_take_drop_id [of ?n cur] pd(2) by simp
  qed
  moreover have "take ?n orig @ [last orig] = orig" "take ?n fwd @ [last fwd] = fwd"
    using l append_butlast_last_id [of orig] append_butlast_last_id [of fwd] by (fastforce simp: butlast_conv_take)+
  ultimately show ?thesis using pd(1) by simp
qed

text \<open>C11: The cache-stable split of a request is a faithful replay of it. Whenever
  \<open>extract_cache_stable_delta\<close> returns a prefix and a delta, the request either repeats the whole last
  turn, and the prefix is exactly what was forwarded then; or it repeats all but a system reminder at the
  end of it or before the model's reply, and the prefix is exactly what was forwarded for the other
  messages; or it repeats all but the reply, which it has in its own version with the same blocks, and
  the prefix is what was forwarded for the messages before it and then the client's version. The delta is
  exactly the remaining messages of the request: nothing is lost, repeated or reordered.\<close>

theorem delta_replays_request:
  assumes "extract_cache_stable_delta E cur (Some orig) (Some fwd) = Some (p, d)"
  shows "replays cur orig fwd p d"
proof -
  let ?k = "kind (classify_history_relation cur orig)"
  consider "?k \<in> {Exact, Message_Append}" "p = fwd" "d = drop (length orig) cur"
    | "replaced_system_tail_delta E cur orig fwd = Some (p, d)"
    | "client_rewrote_reply_delta cur orig fwd = Some (p, d)"
    using assms by (cases ?k) (auto simp: extract_cache_stable_delta_def split: if_splits option.splits)
  then show ?thesis
    using replays_whole replays_without_reminder replays_with_client_reply by cases auto
qed

section \<open>Replaying the cached prefix\<close>

text \<open>\<open>m\<close> is the message forwarded before, extended by the blocks the client appended, in this
  turn's optimised form; the blocks before them are those of the original message.\<close>

definition extends_forwarded :: "json \<Rightarrow> json \<Rightarrow> json \<Rightarrow> json \<Rightarrow> bool" where
  "extends_forwarded optimized orig fwd m \<longleftrightarrow>
     (\<exists>f ob ob_blocks fb.
        fwd = JObj f \<and> content_blocks fwd = Some fb \<and> content_blocks orig = Some ob
        \<and> content_blocks optimized = Some ob_blocks \<and> length fb = length ob
        \<and> list_eq (canonicalize_list (take (length fb) ob_blocks)) (canonicalize_list ob)
        \<and> m = JObj (dset f ''content'' (JList (fb @ drop (length fb) ob_blocks))))"

lemma merged_message_extends:
  "merged_message optimized orig fwd i = Some m \<Longrightarrow>
   i < length optimized \<and> extends_forwarded (optimized ! i) (orig ! i) (fwd ! i) m"
  by (auto simp: merged_message_def extends_forwarded_def Let_def
      split: if_splits json.splits option.splits)

lemma unchanged_run_le: "unchanged_run cs ps \<le> length cs" "unchanged_run cs ps \<le> length ps"
  by (induction cs ps rule: unchanged_run.induct) auto

lemma unchanged_run_nth:
  "i < unchanged_run cs ps \<Longrightarrow> json_eq (canonicalize (cs ! i)) (canonicalize (ps ! i))"
  by (induction cs ps arbitrary: i rule: unchanged_run.induct)
    (auto simp: nth_Cons split: nat.splits if_splits)

lemma nth_splice:
  "i \<le> length a \<Longrightarrow> (take i a @ [m] @ drop (Suc i) b) ! j =
    (if j < i then a ! j else if j = i then m else drop (Suc i) b ! (j - Suc i))"
  by (auto simp: nth_append nth_Cons split: nat.splits intro!: arg_cong [of _ _ "(!) (drop (Suc i) b)"])

text \<open>The four shapes a result can have.\<close>

lemma overlay_cases:
  assumes r_def: "r = overlay_cached_prefix E optimized cur (Some po) (Some pf) c"
    and rel_def: "rel = classify_history_relation cur po"
  obtains
    "r = optimized" "po = [] \<or> pf = [] \<or> length optimized \<noteq> length cur \<or> length pf \<noteq> length po"
  | "r = optimized" "length pf = length po" "length optimized = length cur"
    "unchanged_run cur po = 0 \<or> confirmed_floor c = 0" "kind rel \<noteq> Block_Append \<or> message_index rel = None \<or>
       merged_message optimized po pf (the (message_index rel)) = None"
  | k where "r = take k pf @ drop k optimized" "0 < k" "k \<le> unchanged_run cur po" "length pf = length po"
    "length optimized = length cur" "\<not> inflates E r optimized \<and> k = unchanged_run cur po \<or> k = min (unchanged_run cur po) (confirmed_floor c)"
    "kind rel \<noteq> Block_Append \<or> message_index rel = None \<or> merged_message optimized po pf (the (message_index rel)) = None"
  | i m where "kind rel = Block_Append" "message_index rel = Some i" "merged_message optimized po pf i = Some m"
    "length pf = length po" "length optimized = length cur"
    "r = optimized \<and> confirmed_floor c \<le> i \<and> inflates E (take i pf @ [m] @ drop (Suc i) optimized) optimized \<or>
     r = take i pf @ [m] @ drop (Suc i) optimized \<and> (confirmed_floor c \<le> i \<longrightarrow> \<not> inflates E r optimized)"
proof -
  consider "po = [] \<or> pf = [] \<or> length optimized \<noteq> length cur \<or> length pf \<noteq> length po"
    | (msgs) "po \<noteq> []" "pf \<noteq> []" "length optimized = length cur" "length pf = length po"
      "kind rel \<noteq> Block_Append \<or> message_index rel = None \<or> merged_message optimized po pf (the (message_index rel)) = None"
    | (merge) i m where "po \<noteq> []" "pf \<noteq> []" "length optimized = length cur" "length pf = length po"
      "kind rel = Block_Append" "message_index rel = Some i" "merged_message optimized po pf i = Some m"
    by (cases "message_index rel"; cases "merged_message optimized po pf (the (message_index rel))") auto
  then show thesis
  proof cases
    case 1
    then show ?thesis using that(1) by (auto simp: r_def overlay_cached_prefix_def)
  next
    case msgs
    then have r: "r = overlay_messages E optimized cur po pf c"
      by (auto simp: r_def rel_def overlay_cached_prefix_def Let_def
          split: relation_kind.splits option.splits)
    show ?thesis
    proof (cases "r = optimized \<and> (unchanged_run cur po = 0 \<or> confirmed_floor c = 0)")
      case True
      then show ?thesis using that(2) msgs by blast
    next
      case False
      then show ?thesis using that(3) [of "unchanged_run cur po"]
          that(3) [of "min (unchanged_run cur po) (confirmed_floor c)"] msgs r
        by (auto simp: overlay_messages_def Let_def min_def split: if_splits)
    qed
  next
    case merge
    then show ?thesis using that(4) [of i m]
      by (auto simp: r_def rel_def overlay_cached_prefix_def Let_def split: if_splits)
  qed
qed

text \<open>C8: Overlaying the cached prefix forwards no wrong content. The result has one message per message
  of the request; each is this turn's own output, or the message forwarded last turn at the same
  position, whose original then agrees in canonical form with the request's message there, or (for
  blocks appended inside one message) the message forwarded last turn followed by the appended blocks.\<close>

theorem overlay_replays_unchanged:
  assumes "r = overlay_cached_prefix E optimized cur (Some po) (Some pf) c"
  shows "length r = length optimized \<and>
    (\<forall>i < length optimized.
       r ! i = optimized ! i
       \<or> i < length po \<and> r ! i = pf ! i \<and> json_eq (canonicalize (cur ! i)) (canonicalize (po ! i))
       \<or> i < length po \<and> extends_forwarded (optimized ! i) (po ! i) (pf ! i) (r ! i))"
  using assms refl
proof (cases rule: overlay_cases)
  case (3 k)
  have "k \<le> length po" "k \<le> length optimized" "k \<le> length pf"
    using 3 unchanged_run_le [of cur po] by auto
  then show ?thesis using 3 unchanged_run_nth [of _ cur po] by (auto simp: nth_append)
next
  case (4 i m)
  have nd: "kind (classify_history_relation cur po) \<noteq> Diverged" using 4 by simp
  have i: "i < length optimized" and m: "extends_forwarded (optimized ! i) (po ! i) (pf ! i) m"
    using merged_message_extends [OF 4(3)] by auto
  have "i < length po" using classify_history_sound(6) [OF nd] 4(2) by blast
  show ?thesis
  proof (cases "r = optimized")
    case False
    then have r: "r = take i pf @ [m] @ drop (Suc i) optimized" using 4 by blast
    have "r ! j = (if j < i then pf ! j else if j = i then m else optimized ! j)"
      if "j < length optimized" for j
      unfolding r using that 4(4) i \<open>i < length po\<close> by (subst nth_splice) auto
    moreover have "length r = length optimized" using r i 4(4) \<open>i < length po\<close> by auto
    moreover have "json_eq (canonicalize (cur ! j)) (canonicalize (po ! j))" if "j < i" for j
      using classify_history_sound(2) [OF nd] that \<open>i < length po\<close> 4(2) by auto
    ultimately show ?thesis using m \<open>i < length po\<close> by auto
  qed simp
qed auto

text \<open>Without a provider-confirmed count the overlay never makes the request larger than this turn's
  own output, measured in bytes of compact JSON; with one, the confirmed leading messages that are
  unchanged are the bytes forwarded last turn, unless the request appended blocks inside a message.\<close>

theorem overlay_size_and_floor:
  assumes "r = overlay_cached_prefix E optimized cur (Some po) (Some pf) c"
    and "length pf = length po" and "length optimized = length cur"
  shows "(confirmed_floor c = 0 \<longrightarrow> r = optimized \<or>
           (\<exists>a b. compact_json_size E r = Some a \<and> compact_json_size E optimized = Some b \<and> a \<le> b)) \<and>
    (kind (classify_history_relation cur po) \<noteq> Block_Append \<longrightarrow>
      take (min (confirmed_floor c) (unchanged_run cur po)) r =
      take (min (confirmed_floor c) (unchanged_run cur po)) pf)"
  using assms(1) refl
proof (cases rule: overlay_cases)
  case 1
  then show ?thesis using assms by (auto simp: unchanged_run_le)
next
  case (3 k)
  have k: "k \<le> length pf" using 3 unchanged_run_le [of cur po] by auto
  have "take j r = take j pf" if "j \<le> k" for j using 3(1) k that by (simp add: min_absorb1)
  then have "take (min (confirmed_floor c) (unchanged_run cur po)) r =
      take (min (confirmed_floor c) (unchanged_run cur po)) pf"
    using 3(6) by (metis min.cobounded2 min.commute order_refl)
  moreover have "\<not> inflates E r optimized" if "confirmed_floor c = 0" using 3(2,6) that by auto
  ultimately show ?thesis by (auto simp: inflates_def split: option.splits)
next
  case (4 i m)
  then show ?thesis by (auto simp: inflates_def split: option.splits)
qed auto

section \<open>Marker placement\<close>

definition marker_count :: "json \<Rightarrow> nat" where
  "marker_count m = (case content_blocks m of None \<Rightarrow> 0
     | Some c \<Rightarrow> length (filter (\<lambda>b. block_marker b \<noteq> None) c))"

abbreviation is_dict :: "json \<Rightarrow> bool" where "is_dict m \<equiv> \<exists>d. m = JObj d"

lemma length_map_filter: "length (List.map_filter f xs) = length (filter (\<lambda>x. f x \<noteq> None) xs)"
  by (induction xs) (auto simp: map_filter_simps split: option.splits)

lemma filter_enumerate: "length (filter (\<lambda>(i, x). P x) (enumerate n xs)) = length (filter P xs)"
  by (induction xs arbitrary: n) auto

lemma length_message_markers: "length (message_markers i m) = marker_count m"
  using filter_enumerate [of "\<lambda>b. block_marker b \<noteq> None" 0]
  by (auto simp: message_markers_def marker_count_def length_map_filter split_def split: option.splits)

lemma length_client_marker_positions:
  "length (client_marker_positions ms) = sum_list (map marker_count ms)"
proof -
  have "length (concat (map (\<lambda>(i, m). message_markers i m) (enumerate n ms))) = sum_list (map marker_count ms)" for n
    by (induction ms arbitrary: n) (auto simp: length_message_markers)
  then show ?thesis by (simp add: client_marker_positions_def)
qed

lemma marker_position_in_range:
  "(mi, bi, m) \<in> set (client_marker_positions ms) \<Longrightarrow> mi < length ms"
  by (auto simp: client_marker_positions_def message_markers_def in_set_enumerate_eq
      List.map_filter_def split: option.splits)

lemma without_key_dset [simp]: "without_key k (dset d k v) = without_key k d"
  by (induction d) (auto simp: without_key_def dset_def)

lemma without_key_absent: "map_of d (u k) = None \<Longrightarrow> without_key k d = d"
  by (force simp: without_key_def map_of_eq_None_iff intro!: filter_True)

lemma strip_block_mark [simp]: "strip_block (JObj (dset b ''cache_control'' m)) = strip_block (JObj b)"
  by (simp add: strip_block_def)

lemma strip_block_unmarked: "\<not> has_cache_control b \<Longrightarrow> strip_block b = b"
  by (auto simp: strip_block_def has_cache_control_def without_key_absent split: json.splits)

lemma dset_dset [simp]: "dset (dset d k v) k w = dset d k w"
  by (simp add: dset_def)

lemma strip_message_blocks:
  assumes "map_of d (u ''content'') = Some (JList c)"
  shows "strip_message (JObj d) = JObj (dset d ''content'' (JList (map strip_block c)))"
proof (cases "list_ex has_cache_control c")
  case False
  then have "map strip_block c = c"
    by (auto simp: list_ex_iff strip_block_unmarked intro!: map_idI)
  then show ?thesis using False assms
    by (simp add: strip_message_def content_blocks_def dget_def dset_same)
qed (use assms in \<open>simp add: strip_message_def content_blocks_def dget_def\<close>)

lemma strip_message_mark:
  assumes "map_of d (u ''content'') = Some (JList c)" and "i < length c" and "c ! i = JObj b"
  shows "strip_message (JObj (dset d ''content'' (JList (c[i := JObj (dset b ''cache_control'' m)]))))
    = strip_message (JObj d)"
proof -
  have "map strip_block (c[i := JObj (dset b ''cache_control'' m)]) = map strip_block c"
    using assms(2,3) by (simp add: map_update) (metis list_update_id length_map nth_map)
  then show ?thesis using assms(1)
    by (subst strip_message_blocks) (auto simp: dset_def update_conv' strip_message_blocks)
qed

lemma marker_count_mark:
  assumes "map_of d (u ''content'') = Some (JList c)" and "i < length c"
  shows "marker_count (JObj (dset d ''content'' (JList (c[i := x])))) \<le> Suc (marker_count (JObj d))"
proof -
  let ?P = "\<lambda>b. block_marker b \<noteq> None"
  have "length (filter ?P (take i c @ [x] @ drop (Suc i) c))
      \<le> Suc (length (filter ?P (take i c @ [c ! i] @ drop (Suc i) c)))"
    by simp
  then have "length (filter ?P (c[i := x])) \<le> Suc (length (filter ?P c))"
    using assms(2) id_take_nth_drop [of i c] by (simp add: upd_conv_take_nth_drop)
  then show ?thesis using assms(1) by (simp add: marker_count_def content_blocks_def dget_def dset_def update_conv')
qed

lemma marker_count_strip [simp]: "marker_count (strip_message m) = 0"
proof (cases "\<exists>d c. m = JObj d \<and> map_of d (u ''content'') = Some (JList c)")
  case True
  then obtain d c where m: "m = JObj d" "map_of d (u ''content'') = Some (JList c)" by blast
  have "block_marker (strip_block b) = None" for b
    by (auto simp: block_marker_def strip_block_def without_key_def dget_def map_of_eq_None_iff
        split: json.splits option.splits dest!: map_of_SomeD)
  then show ?thesis using m
    by (simp add: strip_message_blocks marker_count_def content_blocks_def dget_def dset_def update_conv' filter_False)
qed (auto simp: strip_message_def marker_count_def content_blocks_def dget_def split: json.splits option.splits)

lemma strip_block_idem [simp]: "strip_block (strip_block b) = strip_block b"
  by (auto simp: strip_block_def without_key_def split: json.splits)

lemma strip_message_idem [simp]: "strip_message (strip_message m) = strip_message m"
proof (cases "\<exists>d c. m = JObj d \<and> map_of d (u ''content'') = Some (JList c)")
  case True
  then obtain d c where m: "m = JObj d" "map_of d (u ''content'') = Some (JList c)" by blast
  then show ?thesis
    using strip_message_blocks [of "dset d ''content'' (JList (map strip_block c))" "map strip_block c"]
    by (simp add: strip_message_blocks dset_def update_conv' comp_def)
qed (auto simp: strip_message_def content_blocks_def dget_def split: json.splits option.splits)

lemma is_dict_strip [simp]: "is_dict (strip_message m) = is_dict m"
  by (auto simp: strip_message_def split: json.splits option.splits)

lemma canonicalize_dict_content:
  "map_of (canonicalize_dict d) (u ''content'') =
   map_option (\<lambda>v. case v of JStr s \<Rightarrow> JList [text_block s] | _ \<Rightarrow> canonicalize v) (map_of d (u ''content''))"
  by (induction d) (auto split: json.splits)

text \<open>A relocated breakpoint is one of the blocks: the stable run is at most as long as the canonical
  list, and that as the raw one.\<close>

lemma stable_leading_block_run_le: "stable_leading_block_run cs ps \<le> length cs"
  by (induction cs ps rule: stable_leading_block_run.induct) auto

lemma changed_message_run:
  "changed_message s i (JObj d) p = Some r \<Longrightarrow> dget d ''content'' = JList c \<Longrightarrow> stable_prefix_blocks r \<le> length c"
  using stable_leading_block_run_le [of c]
  by (auto simp: changed_message_def Let_def split: json.splits if_splits)

lemma rewrite_tail_run:
  assumes "kind (classify_history_relation [JObj d] [JObj p]) = Block_Rewrite_Tail"
    and "map_of d (u ''content'') = Some (JList c)"
  shows "stable_prefix_blocks (classify_history_relation [JObj d] [JObj p]) \<le> length c"
proof -
  have "changed_message True 0 (JObj (canonicalize_dict d)) (JObj (canonicalize_dict p)) =
      Some (classify_history_relation [JObj d] [JObj p])"
    using assms(1) by (auto simp: classify_history_relation_def classify_history_canonical_def Let_def relation_def
        split: if_splits option.splits)
  moreover have "dget (canonicalize_dict d) ''content'' = JList (canonicalize_list c)"
    using assms(2) by (simp add: dget_def canonicalize_dict_content)
  ultimately show ?thesis
    using changed_message_run length_canonicalize_list [of c] by (blast intro: order_trans)
qed

lemma breakpoint_index_less:
  assumes "map_of d (u ''content'') = Some (JList c)" and "c \<noteq> []"
  shows "breakpoint_index E c (JObj d) i pf < length c"
proof -
  have "stable_prefix_blocks (classify_history_relation [JObj d] [JObj p]) - 1 < length c"
    if "kind (classify_history_relation [JObj d] [JObj p]) = Block_Rewrite_Tail" for p
    using rewrite_tail_run [OF that assms(1)] assms(2) by (cases c) auto
  then show ?thesis using assms(2)
    by (auto simp: breakpoint_index_def Let_def split: option.splits json.splits)
qed

lemma chosen_block_less:
  assumes "map_of d (u ''content'') = Some (JList c)" and "c \<noteq> []"
  shows "chosen_block E pf i anchor bi (JObj d) c < length c"
  using breakpoint_index_less [OF assms] assms(2)
  by (auto simp: chosen_block_def Let_def split: json.splits option.splits)

lemma place_spec:
  assumes "\<forall>m \<in> set out. is_dict m" and "i < length out"
  obtains out' b where "place E pf i mk anchor bi out = Inr (out', b)"
    and "map strip_message out' = map strip_message out" and "\<forall>m \<in> set out'. is_dict m"
    and "sum_list (map marker_count out') \<le> Suc (sum_list (map marker_count out))"
proof -
  obtain d where d: "out ! i = JObj d" using assms by (meson nth_mem)
  show thesis
  proof (cases "\<exists>c. dget d ''content'' = JList c \<and> c \<noteq> []")
    case False
    then have "place E pf i mk anchor bi out = Inr (out, False)"
      using d by (auto simp: place_def split: json.splits)
    then show ?thesis by (rule that) (use assms in auto)
  next
    case True
    then obtain c where c: "dget d ''content'' = JList c" "c \<noteq> []" by blast
    have cd: "map_of d (u ''content'') = Some (JList c)" using c by (simp add: dget_def split: option.splits)
    define pos where "pos = chosen_block E pf i anchor bi (JObj d) c"
    have pos: "pos < length c" unfolding pos_def by (rule chosen_block_less [OF cd c(2)])
    have "place E pf i mk anchor bi out =
        (case c ! pos of
           JObj b \<Rightarrow> Inr (out[i := JObj (dset d ''content''
                      (JList (c[pos := JObj (dset b ''cache_control'' (JObj mk))])))], True)
         | _ \<Rightarrow> Inr (out, False))"
      unfolding pos_def using d c by (simp add: place_def Let_def)
    with pos consider "place E pf i mk anchor bi out = Inr (out, False)"
      | pos b where "pos < length c" "c ! pos = JObj b" "place E pf i mk anchor bi out =
          Inr (out[i := JObj (dset d ''content'' (JList (c[pos := JObj (dset b ''cache_control'' (JObj mk))])))], True)"
      by (cases "c ! pos") auto
    then show thesis
    proof cases
      case 1
      then show ?thesis by (rule that) (use assms in auto)
    next
      case (2 pos b)
      let ?m = "JObj (dset d ''content'' (JList (c[pos := JObj (dset b ''cache_control'' (JObj mk))])))"
      have "map strip_message (out[i := ?m]) = map strip_message out"
        unfolding map_update using strip_message_mark [OF cd 2(1,2)] d assms(2)
        by (metis list_update_id nth_map)
      moreover have "sum_list (map marker_count (out[i := ?m])) \<le> Suc (sum_list (map marker_count out))"
      proof -
        have "marker_count ?m \<le> Suc (map marker_count out ! i)"
          using marker_count_mark [OF cd 2(1)] d assms(2) by simp
        moreover have "i < length (map marker_count out)" using assms(2) by simp
        ultimately show ?thesis unfolding map_update
          using sum_list_update [of i "map marker_count out" "marker_count ?m"] by linarith
      qed
      moreover have "\<forall>m \<in> set (out[i := ?m]). is_dict m"
        using assms(1) by (auto dest!: set_update_subset_insert [THEN subsetD])
      ultimately show ?thesis using that 2(3) by blast
    qed
  qed
qed

lemma place_all_spec:
  assumes "\<forall>m \<in> set out. is_dict m" and "\<forall>(mi, bi, mk) \<in> set ps. mi < length out"
  obtains out' b where "place_all E pf newest fin ps out placed = Inr (out', b)"
    and "map strip_message out' = map strip_message out"
    and "sum_list (map marker_count out') \<le> sum_list (map marker_count out) + length ps"
  using assms
proof (induction ps arbitrary: out placed thesis)
  case Nil
  then show ?case by simp
next
  case (Cons x ps)
  obtain mi bi mk where x: "x = (mi, bi, mk)" by (cases x)
  have mi: "mi < length out" using Cons.prems(3) x by simp
  define fin' where "fin' \<longleftrightarrow> (mi, bi) = newest \<and> fin"
  obtain out1 b1 where 1: "place E pf mi mk fin' (if fin' then None else Some bi) out = Inr (out1, b1)"
    "map strip_message out1 = map strip_message out" "\<forall>m \<in> set out1. is_dict m"
    "sum_list (map marker_count out1) \<le> Suc (sum_list (map marker_count out))"
    using place_spec [OF Cons.prems(2) mi] by metis
  have "length out1 = length out" using 1(2) by (metis length_map)
  then obtain out2 b2 where 2: "place_all E pf newest fin ps out1 (b1 \<or> placed) = Inr (out2, b2)"
    "map strip_message out2 = map strip_message out1"
    "sum_list (map marker_count out2) \<le> sum_list (map marker_count out1) + length ps"
    using Cons.IH [of out1 "b1 \<or> placed"] 1(3) Cons.prems(3) by auto
  have "place_all E pf newest fin (x # ps) out placed = Inr (out2, b2)"
    using 1(1) 2(1) x by (cases fin') (auto simp: fin'_def)
  then show ?case using Cons.prems(1) 1 2 by simp
qed

text \<open>C25: Normalising the cache markers of a list of messages always succeeds, changes nothing but
  block-level markers, and leaves at most as many as the client's current request carries, or one when
  it carries none or does not line up: markers of replayed messages do not pile up from turn to turn.\<close>

theorem markers_bounded_content_kept:
  assumes "\<forall>m \<in> set messages. is_dict m"
  shows "\<exists>out. normalize_message_cache_control E messages pf client = Inr out \<and>
    map strip_message out = map strip_message messages \<and>
    length (client_marker_positions out) \<le>
      (case client of
         Some ms \<Rightarrow> if length ms = length messages then max 1 (length (client_marker_positions ms)) else 1
       | None \<Rightarrow> 1)"
proof -
  let ?out = "map strip_message messages"
  have stripped: "\<forall>m \<in> set ?out. is_dict m" "map strip_message ?out = ?out"
    "sum_list (map marker_count ?out) = 0"
    using assms by (auto simp: comp_def)
  have last: "i < length messages" if "last_block_message messages = Some i" for i
  proof -
    let ?f = "filter (\<lambda>(i, m). ends_in_block m) (enumerate 0 messages)"
    have "?f \<noteq> []" "i = fst (last ?f)" using that by (auto simp: last_block_message_def split: list.splits)
    then have "(i, snd (last ?f)) \<in> set ?f" using last_in_set by (metis prod.collapse)
    then show ?thesis by (auto simp: in_set_enumerate_eq)
  qed
  have one: "\<exists>out. consolidate E messages pf = Inr out \<and> map strip_message out = ?out
      \<and> length (client_marker_positions out) \<le> 1"
  proof (cases "last_block_message messages")
    case None
    then show ?thesis using stripped by (simp add: consolidate_def length_client_marker_positions comp_def)
  next
    case (Some i)
    have i: "i < length ?out" using last [OF Some] by simp
    define mk where "mk = (case newest_marker messages of
        Some m \<Rightarrow> if m = [] then [(u ''type'', JStr (u ''ephemeral''))] else m
      | None \<Rightarrow> [(u ''type'', JStr (u ''ephemeral''))])"
    obtain out b where "place E pf i mk True None ?out = Inr (out, b)"
      "map strip_message out = map strip_message ?out"
      "sum_list (map marker_count out) \<le> Suc (sum_list (map marker_count ?out))"
      by (rule place_spec [OF stripped(1) i])
    then show ?thesis using Some stripped(2,3) unfolding consolidate_def mk_def [symmetric] Let_def
      by (simp add: length_client_marker_positions del: map_map)
  qed
  show ?thesis
  proof (cases "\<exists>ms. client = Some ms \<and> length ms = length messages \<and> client_marker_positions ms \<noteq> []")
    case True
    then obtain ms where ms: "client = Some ms" "length ms = length messages" "client_marker_positions ms \<noteq> []"
      by blast
    obtain mi bi mk where newest: "last (client_marker_positions ms) = (mi, bi, mk)" by (cases rule: prod_cases3)
    let ?fin = "case content_blocks (ms ! mi) of Some c \<Rightarrow> bi = length c - 1 | None \<Rightarrow> False"
    have range: "\<forall>(i, b, k) \<in> set (client_marker_positions ms). i < length ?out"
      using marker_position_in_range ms(2) by fastforce
    obtain out b where "place_all E pf (mi, bi) ?fin (client_marker_positions ms) ?out False = Inr (out, b)"
      "map strip_message out = map strip_message ?out"
      "sum_list (map marker_count out) \<le> sum_list (map marker_count ?out) + length (client_marker_positions ms)"
      by (rule place_all_spec [OF stripped(1) range])
    then show ?thesis using ms newest stripped(2,3)
      by (simp add: normalize_message_cache_control_def length_client_marker_positions [of out] del: map_map)
  next
    case False
    then have "normalize_message_cache_control E messages pf client = consolidate E messages pf"
      by (auto simp: normalize_message_cache_control_def Let_def split: option.splits)
    then show ?thesis using one by (auto split: option.splits intro: le_max_iff_disj [THEN iffD2])
  qed
qed

section \<open>Concrete histories\<close>

definition plain_env :: prefix_env where
  "plain_env = \<lparr>pe_lower = ascii_lower, pe_float_repr = (\<lambda>_. []), pe_transient = None, pe_stable_boundary = None\<rparr>"

definition said :: "string \<Rightarrow> string \<Rightarrow> json" where
  "said role s = JObj [(u ''role'', JStr (u role)), (u ''content'', JStr (u s))]"

definition blocks_of :: "string \<Rightarrow> json list \<Rightarrow> json" where
  "blocks_of role bs = JObj [(u ''role'', JStr (u role)), (u ''content'', JList bs)]"

definition marked :: "json \<Rightarrow> json" where
  "marked b = (case b of JObj d \<Rightarrow> JObj (dset d ''cache_control'' (JObj [(u ''type'', JStr (u ''ephemeral''))])) | _ \<Rightarrow> b)"

lemmas history_defs = said_def blocks_of_def marked_def text_block_def NON_SEMANTIC_KEYS_def OPAQUE_PAYLOAD_KEYS_def
  classify_history_relation_def classify_history_canonical_def changed_message_def
  message_fields_outside_content_def Let_def

lemmas size_defs = compact_json_size_def json_string_def escape_char_def u_def plain_env_def encoded_len_def
  is_surrogate_def utf8_width_def

theorem delta_replays_request_witness:
  "replays [said ''user'' ''go'', said ''system'' ''new'', said ''user'' ''next'']
     [said ''user'' ''go'', said ''system'' ''old''] [said ''user'' ''GO'', said ''system'' ''old'']
     [said ''user'' ''GO''] [said ''system'' ''new'', said ''user'' ''next'']"
  by (rule delta_replays_request [of plain_env])
    (simp_all add: history_defs relation_def extract_cache_stable_delta_def replaced_system_tail_delta_def
      transient_system_lineage_enabled_def switch_on_def plain_env_def strip_def lstrip_def rstrip_def ascii_lower_def
      tail_replaced_at_def extends_past_system_tail_def has_role_def)

text \<open>A request that appends a block to the last message; its first message was forwarded longer.\<close>

definition floor_orig :: "json list" where
  "floor_orig = [said ''user'' ''a'', blocks_of ''user'' [text_block (u ''b'')]]"
definition floor_fwd :: "json list" where
  "floor_fwd = [said ''user'' ''aaaa'', blocks_of ''user'' [text_block (u ''b'')]]"
definition floor_cur :: "json list" where
  "floor_cur = [said ''user'' ''a'', blocks_of ''user'' [text_block (u ''b''), text_block (u ''c'')]]"

theorem overlay_replays_unchanged_witness:
  "length (overlay_cached_prefix plain_env floor_cur floor_cur (Some floor_orig) (Some floor_fwd) (Some 2)) = 2"
  using overlay_replays_unchanged [OF refl, of plain_env floor_cur floor_cur floor_orig floor_fwd "Some 2"]
  by (simp add: floor_cur_def)

lemma floor_classified:
  "kind (classify_history_relation floor_orig floor_orig) = Exact" "unchanged_run floor_orig floor_orig = 2"
  "kind (classify_history_relation floor_cur floor_orig) = Block_Append" "unchanged_run floor_cur floor_orig = 1"
  "message_index (classify_history_relation floor_cur floor_orig) = Some 1"
  by (simp_all add: floor_orig_def floor_cur_def history_defs relation_def)

lemma floor_length [simp]:
  "length floor_fwd = 2" "length floor_orig = 2" "length floor_cur = 2" "floor_orig \<noteq> []" "floor_fwd \<noteq> []"
  by (simp_all add: floor_orig_def floor_fwd_def floor_cur_def)

lemma floor_merged:
  "merged_message floor_cur floor_orig floor_fwd 1 = Some (floor_cur ! 1)"
  by (simp add: merged_message_def floor_orig_def floor_fwd_def floor_cur_def content_blocks_def history_defs)

lemma floor_inflates:
  "inflates plain_env (take 1 floor_fwd @ [floor_cur ! 1] @ drop (Suc 1) floor_cur) floor_cur"
  "inflates plain_env (take 2 floor_fwd @ drop 2 floor_orig) floor_orig"
  by (simp_all add: inflates_def floor_orig_def floor_fwd_def floor_cur_def said_def blocks_of_def text_block_def size_defs)

theorem overlay_size_and_floor_witness:
  "take 1 (overlay_cached_prefix plain_env floor_orig floor_orig (Some floor_orig) (Some floor_fwd) (Some 1))
    = take 1 floor_fwd"
  using overlay_size_and_floor [where E = plain_env and optimized = floor_orig and cur = floor_orig
      and po = floor_orig and pf = floor_fwd and c = "Some 1", OF refl]
  by (simp add: floor_classified confirmed_floor_def floor_length)

text \<open>When a request appends blocks inside a message beyond the confirmed prefix and the replay
  would be larger than this turn's output, the overlay is dropped whole: the confirmed leading message
  is not forwarded as it was on the last turn, although it is unchanged and the provider has confirmed it
  as cached.\<close>

theorem block_append_loses_floor:
  "overlay_cached_prefix plain_env floor_cur floor_cur (Some floor_orig) (Some floor_fwd) (Some 1) = floor_cur
   \<and> unchanged_run floor_cur floor_orig = 1 \<and> floor_cur ! 0 \<noteq> floor_fwd ! 0"
proof -
  have "overlay_cached_prefix plain_env floor_cur floor_cur (Some floor_orig) (Some floor_fwd) (Some 1) = floor_cur"
    using floor_classified floor_merged floor_inflates(1)
    by (simp add: overlay_cached_prefix_def Let_def confirmed_floor_def)
  moreover have "floor_cur ! 0 \<noteq> floor_fwd ! 0" by (simp add: floor_cur_def floor_fwd_def said_def)
  ultimately show ?thesis using floor_classified by simp
qed

theorem markers_bounded_content_kept_witness:
  "\<exists>out. normalize_message_cache_control plain_env
       [blocks_of ''user'' [marked (text_block (u ''a''))], blocks_of ''user'' [marked (text_block (u ''b''))]] None
       (Some [blocks_of ''user'' [text_block (u ''a'')], blocks_of ''user'' [marked (text_block (u ''b''))]]) = Inr out
     \<and> length (client_marker_positions out) \<le> 1"
proof -
  have "length (client_marker_positions [blocks_of ''user'' [text_block (u ''a'')],
      blocks_of ''user'' [marked (text_block (u ''b''))]]) = 1"
    by (simp add: length_client_marker_positions marker_count_def content_blocks_def block_marker_def history_defs)
  then show ?thesis
    using markers_bounded_content_kept [of "[blocks_of ''user'' [marked (text_block (u ''a''))],
        blocks_of ''user'' [marked (text_block (u ''b''))]]" plain_env None
        "Some [blocks_of ''user'' [text_block (u ''a'')], blocks_of ''user'' [marked (text_block (u ''b''))]]"]
    by (auto simp: blocks_of_def)
qed

end
