(* ===== verification/Prefix_Sessions.thy ===== *)
theory Prefix_Sessions
  imports Prefix_Replay
begin

text \<open>
  The stateful half of \<open>headroom/cache/prefix_tracker.py\<close>: \<open>PrefixCacheTracker\<close>, the state
  of one conversation between turns, and \<open>SessionTrackerStore\<close>, which finds the tracker a request
  continues. \<open>now\<close> is the value of \<open>time.time()\<close> during a call. A tracker object carries
  the number \<open>pt_id\<close> it was created with, since the code compares trackers with \<open>is\<close>; the
  context variable \<open>_resolved_turn\<close> is an argument and a result of the methods that use it.
  Writing the trackers to disk and sharing them between processes is in \<open>Prefix_State\<close>; the read
  maturation manager that rides on a tracker is modelled by itself in \<open>Read_Maturation\<close>. Every
  method runs on the event loop without awaiting, so it is one step.
\<close>

section \<open>Token estimates\<close>

text \<open>\<open>repr\<close> and \<open>str\<close> of a JSON value.\<close>

fun repr_json :: "ucd \<Rightarrow> (rat \<Rightarrow> pystr) \<Rightarrow> json \<Rightarrow> pystr"
  and repr_items :: "ucd \<Rightarrow> (rat \<Rightarrow> pystr) \<Rightarrow> json list \<Rightarrow> pystr list"
  and repr_fields :: "ucd \<Rightarrow> (rat \<Rightarrow> pystr) \<Rightarrow> pydict \<Rightarrow> pystr list" where
  "repr_json U F JNull = u ''None''"
| "repr_json U F (JBool b) = (if b then u ''True'' else u ''False'')"
| "repr_json U F (JInt i) = show_int i"
| "repr_json U F (JFloat f) = F f"
| "repr_json U F (JStr s) = py_repr U s"
| "repr_json U F (JList xs) = u ''['' @ join (u '', '') (repr_items U F xs) @ u '']''"
| "repr_json U F (JObj d) = u ''{'' @ join (u '', '') (repr_fields U F d) @ u ''}''"
| "repr_items U F [] = []"
| "repr_items U F (x # xs) = repr_json U F x # repr_items U F xs"
| "repr_fields U F [] = []"
| "repr_fields U F ((k, v) # d) = (py_repr U k @ u '': '' @ repr_json U F v) # repr_fields U F d"

definition str_json :: "ucd \<Rightarrow> (rat \<Rightarrow> pystr) \<Rightarrow> json \<Rightarrow> pystr" where
  "str_json U F v = (case v of JStr s \<Rightarrow> s | _ \<Rightarrow> repr_json U F v)"

definition py_len :: "json \<Rightarrow> py_error + nat" where
  "py_len v = (case v of JStr s \<Rightarrow> Inr (length s) | JList xs \<Rightarrow> Inr (length xs) | JObj d \<Rightarrow> Inr (length d)
     | _ \<Rightarrow> Inl PyTypeError)"

fun sumR :: "(py_error + nat) list \<Rightarrow> py_error + nat" where
  "sumR [] = Inr 0"
| "sumR (r # rs) = bindR r (\<lambda>n. bindR (sumR rs) (\<lambda>m. Inr (n + m)))"

definition block_chars :: "(rat \<Rightarrow> pystr) \<Rightarrow> json \<Rightarrow> py_error + nat" where
  "block_chars F block =
     (case block of
        JObj d \<Rightarrow>
          let t = dget_default d ''type'' (JStr []) in
          if t = JStr (u ''text'') then py_len (dget_default d ''text'' (JStr []))
          else if t = JStr (u ''tool_result'') then
            (case dget_default d ''content'' (JStr []) of
               JStr s \<Rightarrow> Inr (length s)
             | JList bs \<Rightarrow>
                 sumR (map (\<lambda>b. case b of JObj e \<Rightarrow> py_len (dget_default e ''text'' (JStr [])) | _ \<Rightarrow> Inr 0) bs)
             | _ \<Rightarrow> Inr 0)
          else if t = JStr (u ''tool_use'') then
            (case dget d ''input'' of
               JStr s \<Rightarrow> Inr (length s)
             | JObj i \<Rightarrow> Inr (length (json_text True F (JObj i)))
             | _ \<Rightarrow> Inr 0)
          else
            let t' = dget_default d ''text'' (JStr []) in
            if truthy t' then py_len t' else Inr 0
      | _ \<Rightarrow> Inr 0)"

definition call_chars :: "ucd \<Rightarrow> (rat \<Rightarrow> pystr) \<Rightarrow> pydict \<Rightarrow> nat" where
  "call_chars U F fn = length (str_json U F (dget_default fn ''name'' (JStr [])))
     + length (str_json U F (dget_default fn ''arguments'' (JStr [])))"

definition tool_call_chars :: "ucd \<Rightarrow> (rat \<Rightarrow> pystr) \<Rightarrow> json \<Rightarrow> py_error + nat" where
  "tool_call_chars U F tc =
     (case tc of
        JObj d \<Rightarrow>
          (case dget d ''function'' of
             JObj fn \<Rightarrow> Inr (call_chars U F fn)
           | v \<Rightarrow> if truthy v then Inl PyAttributeError else Inr (call_chars U F []))
      | _ \<Rightarrow> Inr 0)"

text \<open>\<open>int(chars / 3.5)\<close> is \<open>2 * chars div 7\<close>: a quotient that is not an integer is at least a
  seventh away from one, more than the rounding of the division for any count below \<open>2\<^sup>5\<^sup>0\<close>.\<close>

definition message_tokens :: "ucd \<Rightarrow> (rat \<Rightarrow> pystr) \<Rightarrow> json \<Rightarrow> py_error + nat" where
  "message_tokens U F msg =
     (case msg of
        JObj d \<Rightarrow>
          bindR (case dget_default d ''content'' (JStr []) of
                   JStr s \<Rightarrow> Inr (length s)
                 | JList blocks \<Rightarrow> sumR (map (block_chars F) blocks)
                 | _ \<Rightarrow> Inr 0) (\<lambda>content_chars.
          bindR (iter_or_empty (dget d ''tool_calls'')) (\<lambda>calls.
          bindR (sumR (map (tool_call_chars U F) calls)) (\<lambda>tool_chars.
          let function_chars = (case dget d ''function_call'' of JObj fc \<Rightarrow> call_chars U F fc | _ \<Rightarrow> 0);
              chars = content_chars + tool_chars + function_chars + 20 in
          Inr (max 1 (2 * chars div 7)))))
      | _ \<Rightarrow> Inl PyAttributeError)"

fun estimate_message_tokens :: "ucd \<Rightarrow> (rat \<Rightarrow> pystr) \<Rightarrow> json list \<Rightarrow> py_error + int list" where
  "estimate_message_tokens U F [] = Inr []"
| "estimate_message_tokens U F (m # ms) =
     bindR (message_tokens U F m) (\<lambda>n. bindR (estimate_message_tokens U F ms) (\<lambda>ns. Inr (int n # ns)))"

text \<open>The walk of \<open>update_from_response\<close>: how many leading messages fit into the cached tokens.\<close>

fun walk_frozen :: "int \<Rightarrow> int \<Rightarrow> int list \<Rightarrow> nat" where
  "walk_frozen accumulated total_cached [] = 0"
| "walk_frozen accumulated total_cached (n # ns) =
     (if accumulated + n \<le> total_cached then Suc (walk_frozen (accumulated + n) total_cached ns) else 0)"

section \<open>Trackers\<close>

record freeze_config =
  fc_enabled :: bool
  fc_min_cached_tokens :: int
  fc_session_ttl :: int
  fc_cache_ttl :: "int option"
  fc_max_lineages :: int

definition default_freeze_config :: freeze_config where
  "default_freeze_config = \<lparr>fc_enabled = True, fc_min_cached_tokens = 1024, fc_session_ttl = 600,
     fc_cache_ttl = None, fc_max_lineages = 32\<rparr>"

text \<open>\<open>_turn_state()\<close>: turn number, cached tokens, cached messages, last originals, last forwarded.\<close>

record turn_state =
  ts_turn_number :: nat
  ts_cached_tokens :: int
  ts_cached_messages :: nat
  ts_original :: "json list"
  ts_forwarded :: "json list"

record ptracker =
  pt_id :: nat
  pt_provider :: pystr
  pt_cache_ttl :: "int option"
  pt_state :: turn_state
  pt_last_activity :: real
  pt_idle_at_fetch :: real
  pt_turn_states :: "(nat \<times> turn_state option) list"
  pt_busts_avoided :: int
  pt_tokens_preserved :: int
  pt_compression_foregone :: int
  pt_restored :: bool

text \<open>\<open>_resolved_turn\<close>: tracker, turn and the state resumed, \<open>None\<close> once the response is in.\<close>

type_synonym resolved = "(nat \<times> nat \<times> turn_state option) option"

definition new_ptracker :: "nat \<Rightarrow> pystr \<Rightarrow> real \<Rightarrow> ptracker" where
  "new_ptracker i provider now = \<lparr>pt_id = i, pt_provider = provider, pt_cache_ttl = None,
     pt_state = \<lparr>ts_turn_number = 0, ts_cached_tokens = 0, ts_cached_messages = 0, ts_original = [],
       ts_forwarded = []\<rparr>,
     pt_last_activity = now, pt_idle_at_fetch = 0, pt_turn_states = [], pt_busts_avoided = 0,
     pt_tokens_preserved = 0, pt_compression_foregone = 0, pt_restored = False\<rparr>"

definition request_turn_state :: "resolved \<Rightarrow> ptracker \<Rightarrow> turn_state" where
  "request_turn_state R t =
     (case R of
        Some (i, _, Some st) \<Rightarrow> if i = pt_id t then st else pt_state t
      | _ \<Rightarrow> pt_state t)"

definition get_frozen_message_count :: "freeze_config \<Rightarrow> resolved \<Rightarrow> ptracker \<Rightarrow> nat" where
  "get_frozen_message_count cfg R t =
     (let st = request_turn_state R t in
      if \<not> fc_enabled cfg then 0
      else if ts_turn_number st = 0 then 0
      else if ts_cached_tokens st < fc_min_cached_tokens cfg then 0
      else ts_cached_messages st)"

definition record_turn_state :: "resolved \<Rightarrow> ptracker \<Rightarrow> ptracker \<times> resolved" where
  "record_turn_state R t =
     (case R of
        Some (i, turn, _) \<Rightarrow>
          if i = pt_id t then
            (if map_of (pt_turn_states t) turn \<noteq> None
             then t\<lparr>pt_turn_states := AList.update turn (Some (pt_state t)) (pt_turn_states t)\<rparr> else t,
             Some (i, turn, None))
          else (t, R)
      | None \<Rightarrow> (t, R))"

text \<open>An estimate that raises leaves what was assigned before it.\<close>

definition update_from_response ::
    "ucd \<Rightarrow> prefix_env \<Rightarrow> real \<Rightarrow> int \<Rightarrow> int \<Rightarrow> json list \<Rightarrow> int list option \<Rightarrow> json list option
       \<Rightarrow> resolved \<Rightarrow> ptracker \<Rightarrow> (ptracker \<times> resolved) \<times> (py_error + unit)" where
  "update_from_response U E now cache_read cache_write messages counts original_messages R t =
     (let original = (case original_messages of Some ms \<Rightarrow> if ms = [] then messages else ms | None \<Rightarrow> messages);
          t1 = t\<lparr>pt_last_activity := now,
                 pt_state := (pt_state t)\<lparr>ts_turn_number := Suc (ts_turn_number (pt_state t)),
                   ts_original := original, ts_forwarded := messages\<rparr>\<rparr>;
          total_cached = cache_read + cache_write;
          finish = (\<lambda>n. record_turn_state R
            (t1\<lparr>pt_state := (pt_state t1)\<lparr>ts_cached_tokens := total_cached, ts_cached_messages := n\<rparr>\<rparr>)) in
      if total_cached = 0 then (finish 0, Inr ())
      else
        (case (case counts of Some ns \<Rightarrow> Inr ns
               | None \<Rightarrow> estimate_message_tokens U (pe_float_repr E) messages) of
           Inl e \<Rightarrow> ((t1, R), Inl e)
         | Inr ns \<Rightarrow> (finish (walk_frozen 0 total_cached ns), Inr ())))"

definition get_last_original_messages :: "resolved \<Rightarrow> ptracker \<Rightarrow> json list" where
  "get_last_original_messages R t = ts_original (request_turn_state R t)"

definition get_last_forwarded_messages :: "resolved \<Rightarrow> ptracker \<Rightarrow> json list" where
  "get_last_forwarded_messages R t = ts_forwarded (request_turn_state R t)"

definition resume_turn :: "nat option \<Rightarrow> ptracker \<Rightarrow> ptracker" where
  "resume_turn turn t =
     (case Option.bind turn (map_of (pt_turn_states t)) of
        Some (Some st) \<Rightarrow> t\<lparr>pt_state := st\<rparr>
      | _ \<Rightarrow> t)"

definition record_returned :: "real \<Rightarrow> json list \<Rightarrow> json list \<Rightarrow> ptracker \<Rightarrow> ptracker" where
  "record_returned now original returned t =
     t\<lparr>pt_last_activity := now,
       pt_state := (pt_state t)\<lparr>ts_original := original, ts_forwarded := returned\<rparr>\<rparr>"

definition resolved_cache_ttl_seconds :: "freeze_config \<Rightarrow> int" where
  "resolved_cache_ttl_seconds cfg = (case fc_cache_ttl cfg of Some n \<Rightarrow> n | None \<Rightarrow> 300)"

definition forwarded_prefix_stable :: "resolved \<Rightarrow> ptracker \<Rightarrow> json list \<Rightarrow> bool" where
  "forwarded_prefix_stable R t current =
     (let prev = ts_forwarded (request_turn_state R t) in
      if prev = [] then True
      else if length current < length prev then False
      else list_eq (take (length prev) current) prev)"

datatype miss_reason = Ttl_Expiry | Prefix_Change | Cold_Start | Unknown | Hit

record cache_miss_attribution =
  is_miss :: bool
  miss_why :: miss_reason
  miss_idle_seconds :: real
  miss_cache_ttl :: int
  miss_expected_tokens :: int
  miss_read_tokens :: int
  miss_prefix_changed :: bool
  miss_ttl_exceeded :: bool

definition seconds_since_activity :: "real \<Rightarrow> ptracker \<Rightarrow> real" where
  "seconds_since_activity now t = max 0 (now - pt_last_activity t)"

definition classify_cache_miss ::
    "freeze_config \<Rightarrow> real \<Rightarrow> resolved \<Rightarrow> int \<Rightarrow> json list \<Rightarrow> real option \<Rightarrow> ptracker \<Rightarrow> cache_miss_attribution" where
  "classify_cache_miss cfg now R cache_read current idle_seconds t =
     (let idle = (case idle_seconds of Some s \<Rightarrow> s | None \<Rightarrow> seconds_since_activity now t);
          ttl = resolved_cache_ttl_seconds cfg;
          expected = ts_cached_tokens (request_turn_state R t);
          verdict = (\<lambda>miss why changed exceeded. \<lparr>is_miss = miss, miss_why = why, miss_idle_seconds = idle,
            miss_cache_ttl = ttl, miss_expected_tokens = expected, miss_read_tokens = cache_read,
            miss_prefix_changed = changed, miss_ttl_exceeded = exceeded\<rparr>) in
      if expected \<le> 0 then verdict False Cold_Start False False
      else if 0 < cache_read then verdict False Hit False False
      else
        let exceeded = real_of_int ttl < idle; changed = \<not> forwarded_prefix_stable R t current in
        verdict True (if exceeded then Ttl_Expiry else if changed then Prefix_Change else Unknown)
          changed exceeded)"

definition record_bust_avoided :: "int \<Rightarrow> int \<Rightarrow> ptracker \<Rightarrow> ptracker" where
  "record_bust_avoided preserved foregone t =
     t\<lparr>pt_busts_avoided := pt_busts_avoided t + 1,
       pt_tokens_preserved := pt_tokens_preserved t + preserved,
       pt_compression_foregone := pt_compression_foregone t + foregone\<rparr>"

definition read_discount :: "pystr \<Rightarrow> rat" where
  "read_discount provider =
     (if provider \<in> {u ''anthropic'', u ''gemini'', u ''bedrock''} then 9 / 10 else 1 / 2)"

definition should_force_compress :: "ptracker \<Rightarrow> nat \<Rightarrow> int \<Rightarrow> int \<Rightarrow> bool" where
  "should_force_compress t message_index' message_tokens' estimated_compressed =
     (if ts_cached_messages (pt_state t) \<le> message_index' then True
      else if message_tokens' = 0 then False
      else read_discount (pt_provider t)
             < of_int (message_tokens' - estimated_compressed) / of_int message_tokens')"

definition or_zero :: "int option \<Rightarrow> int" where
  "or_zero v = (case v of None \<Rightarrow> 0 | Some n \<Rightarrow> n)"

definition CACHE_TTL_CLEANUP_MARGIN :: int where "CACHE_TTL_CLEANUP_MARGIN = 60"

definition retention_seconds :: "freeze_config \<Rightarrow> int option \<Rightarrow> ptracker \<Rightarrow> int" where
  "retention_seconds cfg cache_ttl t =
     (let observed = max (or_zero (pt_cache_ttl t)) (max (or_zero (fc_cache_ttl cfg)) (or_zero cache_ttl)) in
      max (fc_session_ttl cfg) (if observed \<noteq> 0 then observed + CACHE_TTL_CLEANUP_MARGIN else 0))"

definition is_expired_for_cache_ttl :: "freeze_config \<Rightarrow> real \<Rightarrow> int option \<Rightarrow> ptracker \<Rightarrow> bool" where
  "is_expired_for_cache_ttl cfg now cache_ttl t =
     (real_of_int (retention_seconds cfg cache_ttl t) < now - pt_last_activity t)"

definition tracker_expired :: "freeze_config \<Rightarrow> real \<Rightarrow> ptracker \<Rightarrow> bool" where
  "tracker_expired cfg now t = is_expired_for_cache_ttl cfg now None t"

definition observe_cache_ttl :: "int option \<Rightarrow> ptracker \<Rightarrow> ptracker" where
  "observe_cache_ttl cache_ttl t =
     (case cache_ttl of
        None \<Rightarrow> t
      | Some n \<Rightarrow> t\<lparr>pt_cache_ttl := Some (max (or_zero (pt_cache_ttl t)) n)\<rparr>)"

section \<open>The session store\<close>

definition LINEAGE_HISTORY :: nat where "LINEAGE_HISTORY = 3"

type_synonym chain = "json list"
type_synonym family = "(pystr, chain) odict"

record session_store =
  ss_trackers :: "(pystr, ptracker) odict"
  ss_last_cleanup :: real
  ss_lineages :: "(pystr, family) odict"
  ss_affinities :: "(pystr, pystr option) odict"
  ss_lineage_counter :: nat
  ss_history :: "(pystr, (chain \<times> nat) list) odict"
  ss_turn_counter :: nat
  ss_next_id :: nat

definition new_session_store :: "real \<Rightarrow> session_store" where
  "new_session_store now = \<lparr>ss_trackers = [], ss_last_cleanup = now, ss_lineages = [], ss_affinities = [],
     ss_lineage_counter = 1, ss_history = [], ss_turn_counter = 1, ss_next_id = 0\<rparr>"

definition peek :: "freeze_config \<Rightarrow> real \<Rightarrow> pystr \<Rightarrow> session_store \<Rightarrow> ptracker option" where
  "peek cfg now sid s =
     (case map_of (ss_trackers s) sid of
        None \<Rightarrow> None
      | Some t \<Rightarrow> if tracker_expired cfg now t then None else Some t)"

definition without :: "'k list \<Rightarrow> ('k, 'v) odict \<Rightarrow> ('k, 'v) odict" where
  "without ks d = filter (\<lambda>(k, v). k \<notin> set ks) d"

definition discard_tracker :: "pystr \<Rightarrow> session_store \<Rightarrow> session_store" where
  "discard_tracker key s =
     (let families = map (\<lambda>(sid, fam). (sid, without [key] fam)) (ss_lineages s) in
      s\<lparr>ss_trackers := without [key] (ss_trackers s), ss_history := without [key] (ss_history s),
        ss_affinities := (if ss_lineages s = [] then ss_affinities s else without [key] (ss_affinities s)),
        ss_lineages := filter (\<lambda>(sid, fam). fam \<noteq> []) families\<rparr>)"

definition maybe_cleanup :: "freeze_config \<Rightarrow> real \<Rightarrow> session_store \<Rightarrow> session_store" where
  "maybe_cleanup cfg now s =
     (if now - ss_last_cleanup s < 60 then s
      else
        let expired = map fst (filter (\<lambda>(k, t). tracker_expired cfg now t) (ss_trackers s));
            trackers = without expired (ss_trackers s);
            s1 = s\<lparr>ss_trackers := trackers, ss_last_cleanup := now\<rparr> in
        if expired = [] then s1
        else
          let gone = filter (\<lambda>k. map_of trackers k = None) (concat (map (map fst \<circ> snd) (ss_lineages s))) in
          s1\<lparr>ss_affinities := without gone (ss_affinities s), ss_history := without gone (ss_history s),
             ss_lineages := filter (\<lambda>(sid, fam). fam \<noteq> [])
               (map (\<lambda>(sid, fam). (sid, without gone fam)) (ss_lineages s))\<rparr>)"

text \<open>Replace the tracker under a key, as an assignment to a field of the shared object does.\<close>

definition put_tracker :: "pystr \<Rightarrow> ptracker \<Rightarrow> session_store \<Rightarrow> session_store" where
  "put_tracker key t s = s\<lparr>ss_trackers := AList.update key t (ss_trackers s)\<rparr>"

definition get_or_create ::
    "freeze_config \<Rightarrow> real \<Rightarrow> pystr \<Rightarrow> pystr \<Rightarrow> int option \<Rightarrow> session_store \<Rightarrow> ptracker \<times> session_store" where
  "get_or_create cfg now key provider cache_ttl s =
     (let live = peek cfg now key s;
          s1 = (if live = None \<and> map_of (ss_trackers s) key \<noteq> None then discard_tracker key s else s);
          s2 = (case live of None \<Rightarrow> s1 | Some t \<Rightarrow> put_tracker key (observe_cache_ttl cache_ttl t) s1);
          s3 = maybe_cleanup cfg now s2 in
      case (live, map_of (ss_trackers s3) key) of
        (Some _, Some t) \<Rightarrow>
          let t' = t\<lparr>pt_idle_at_fetch := max 0 (now - pt_last_activity t), pt_last_activity := now\<rparr> in
          (t', put_tracker key t' s3)
      | _ \<Rightarrow>
          let t' = observe_cache_ttl cache_ttl (new_ptracker (ss_next_id s3) provider now) in
          (t', (put_tracker key t' s3)\<lparr>ss_next_id := Suc (ss_next_id s3)\<rparr>))"

text \<open>\<open>sorted(..., key=len of the chain, reverse=True)\<close>, which is stable.\<close>

definition longest_first :: "('a \<Rightarrow> chain) \<Rightarrow> 'a list \<Rightarrow> 'a list" where
  "longest_first chain_of xs = sort_key (\<lambda>x. - int (length (chain_of x))) xs"

type_synonym candidate = "pystr \<times> chain \<times> nat option"

definition same_affinity :: "session_store \<Rightarrow> pystr option \<Rightarrow> pystr \<Rightarrow> bool" where
  "same_affinity s affinity key = (Option.bind (map_of (ss_affinities s) key) id = affinity)"

definition lineage_match :: "session_store \<Rightarrow> pystr option \<Rightarrow> chain \<Rightarrow> candidate list \<Rightarrow> (pystr \<times> nat option) option" where
  "lineage_match s affinity snap candidates =
     (let accepts = (\<lambda>kinds (key, chain, turn). same_affinity s affinity key
            \<and> kind (classify_history_canonical snap chain) \<in> kinds);
          answer = map_option (\<lambda>(key, chain, turn). (key, turn)) in
      case find (accepts {Exact, Message_Append}) candidates of
        Some c \<Rightarrow> answer (Some c)
      | None \<Rightarrow> answer (find (accepts {Block_Append}) candidates))"

definition latest_turn :: "session_store \<Rightarrow> pystr \<Rightarrow> nat option" where
  "latest_turn s key = (case map_of (ss_history s) key of Some ((_, t) # _) \<Rightarrow> Some t | _ \<Rightarrow> None)"

definition latest_candidates :: "session_store \<Rightarrow> family \<Rightarrow> candidate list" where
  "latest_candidates s fam =
     map (\<lambda>(key, chain). (key, chain, latest_turn s key)) (longest_first snd fam)"

definition fork_candidates :: "session_store \<Rightarrow> family \<Rightarrow> candidate list" where
  "fork_candidates s fam =
     longest_first (fst \<circ> snd)
       (concat (map (\<lambda>(key, _). map (\<lambda>(chain, turn). (key, chain, Some turn))
          (tl (case map_of (ss_history s) key of Some h \<Rightarrow> h | None \<Rightarrow> []))) fam))"

definition rewrite_candidates ::
    "session_store \<Rightarrow> pystr option \<Rightarrow> chain \<Rightarrow> family \<Rightarrow> ((nat \<times> nat \<times> nat) \<times> pystr) list" where
  "rewrite_candidates s affinity snap fam =
     rev (sort (List.map_filter (\<lambda>(key, chain).
       let rel = classify_history_canonical snap chain in
       if same_affinity s affinity key \<and> kind rel = Block_Rewrite_Tail
       then Some ((stable_prefix_blocks rel, stable_suffix_blocks rel, previous_block_count rel), key)
       else None) (longest_first snd fam)))"

definition tail_candidates :: "session_store \<Rightarrow> pystr option \<Rightarrow> chain \<Rightarrow> family \<Rightarrow> (nat \<times> pystr) list" where
  "tail_candidates s affinity snap fam =
     List.map_filter (\<lambda>(key, chain).
       if same_affinity s affinity key \<and> extends_past_system_tail snap chain
       then Some (length chain, key) else None) (longest_first snd fam)"

text \<open>The first of a list when no other has its score.\<close>

definition unique_best :: "('a \<times> pystr) list \<Rightarrow> pystr option" where
  "unique_best cs = (case cs of [] \<Rightarrow> None | [(_, key)] \<Rightarrow> Some key
     | (a, key) # (b, _) # _ \<Rightarrow> if a \<noteq> b then Some key else None)"

definition best_lineage ::
    "prefix_env \<Rightarrow> pystr \<Rightarrow> session_store \<Rightarrow> pystr option \<Rightarrow> chain \<Rightarrow> family \<Rightarrow> (pystr \<times> nat option) option" where
  "best_lineage E provider s affinity snap fam =
     (case lineage_match s affinity snap (latest_candidates s fam) of
        Some r \<Rightarrow> Some r
      | None \<Rightarrow>
          (case lineage_match s affinity snap (fork_candidates s fam) of
             Some r \<Rightarrow> Some r
           | None \<Rightarrow>
               let rewrites = rewrite_candidates s affinity snap fam in
               map_option (\<lambda>key. (key, None))
                 (if unique_best rewrites \<noteq> None then unique_best rewrites
                  else if rewrites = [] \<and> provider = u ''anthropic'' \<and> transient_system_lineage_enabled E
                  then unique_best (tail_candidates s affinity snap fam)
                  else None)))"

text \<open>\<open>deque.appendleft\<close> on a deque with \<open>maxlen\<close>, after a branch point has been moved to the
  front.\<close>

definition push_turn :: "chain \<Rightarrow> nat \<Rightarrow> nat option \<Rightarrow> (chain \<times> nat) list \<Rightarrow> (chain \<times> nat) list" where
  "push_turn snap turn best_turn history =
     (let branch = find (\<lambda>(_, t). Some t = best_turn) history;
          history' = (case branch of
                        None \<Rightarrow> history
                      | Some b \<Rightarrow> if b = hd history then history else b # remove1 b history) in
      take LINEAGE_HISTORY ((snap, turn) # history'))"

text \<open>What follows once the lineage is chosen.\<close>

definition enter_lineage ::
    "freeze_config \<Rightarrow> real \<Rightarrow> pystr \<Rightarrow> pystr \<Rightarrow> pystr option \<Rightarrow> int option \<Rightarrow> chain \<Rightarrow> pystr \<Rightarrow> nat option
       \<Rightarrow> session_store \<Rightarrow> ptracker \<times> resolved \<times> session_store" where
  "enter_lineage cfg now sid provider affinity cache_ttl snap key best_turn s =
     (let (t, s1) = get_or_create cfg now key provider cache_ttl s;
          fam = (case map_of (ss_lineages s1) sid of Some f \<Rightarrow> f | None \<Rightarrow> []);
          s2 = s1\<lparr>ss_lineages := AList.update sid (AList.update key snap fam) (ss_lineages s1),
                  ss_affinities := AList.update key affinity (ss_affinities s1)\<rparr>;
          t1 = resume_turn (case best_turn of Some n \<Rightarrow> Some n | None \<Rightarrow> latest_turn s2 key) t;
          turn = ss_turn_counter s2;
          history = push_turn snap turn best_turn
            (case map_of (ss_history s2) key of Some h \<Rightarrow> h | None \<Rightarrow> []);
          live = map snd history;
          t2 = t1\<lparr>pt_turn_states :=
                 AList.update turn None (filter (\<lambda>(n, _). n \<in> set live) (pt_turn_states t1))\<rparr>;
          s3 = (put_tracker key t2 s2)\<lparr>ss_turn_counter := Suc turn,
                 ss_history := AList.update key history (ss_history s2)\<rparr> in
      (t2, Some (pt_id t2, turn, Some (pt_state t2)), s3))"

definition overflow_key :: "pystr \<Rightarrow> pystr" where
  "overflow_key sid = sid @ [0] @ u ''overflow''"

definition lineage_key :: "pystr \<Rightarrow> nat \<Rightarrow> pystr" where
  "lineage_key sid n = sid @ [0] @ show_nat n"

text \<open>The lineages of a session whose tracker is still live, and the store without the others.\<close>

definition prune_family :: "freeze_config \<Rightarrow> real \<Rightarrow> pystr \<Rightarrow> session_store \<Rightarrow> family \<times> session_store" where
  "prune_family cfg now sid s =
     (let fam0 = (case map_of (ss_lineages s) sid of Some f \<Rightarrow> f | None \<Rightarrow> []);
          expired = filter (\<lambda>k. peek cfg now k s = None) (map fst fam0);
          fam = without expired fam0 in
      (fam, s\<lparr>ss_lineages := AList.update sid fam (ss_lineages s),
              ss_affinities := without expired (ss_affinities s),
              ss_history := without expired (ss_history s),
              ss_trackers := without expired (ss_trackers s)\<rparr>))"

text \<open>\<open>resolve_tracker\<close> returns the tracker, the context variable and the store; \<open>R\<close> is the
  context variable before the call, which the calls that find no lineage leave as it is.\<close>

definition resolve_tracker ::
    "prefix_env \<Rightarrow> freeze_config \<Rightarrow> real \<Rightarrow> pystr \<Rightarrow> pystr \<Rightarrow> json list option \<Rightarrow> pystr option \<Rightarrow> int option
       \<Rightarrow> resolved \<Rightarrow> session_store \<Rightarrow> ptracker \<times> resolved \<times> session_store" where
  "resolve_tracker E cfg now sid provider messages affinity cache_ttl R s =
     (let plain = (\<lambda>key s. let (t, s') = get_or_create cfg now key provider cache_ttl s in (t, R, s'));
          ms = (case messages of Some ms \<Rightarrow> ms | None \<Rightarrow> []);
          snap = canonicalize_list ms in
      if ms = [] \<or> \<not> fc_enabled cfg then plain sid s
      else if snap = [] then plain sid s
      else
        let (fam, s1) = prune_family cfg now sid s in
        (case best_lineage E provider s1 affinity snap fam of
           Some (key, turn) \<Rightarrow> enter_lineage cfg now sid provider affinity cache_ttl snap key turn s1
         | None \<Rightarrow>
             if fc_max_lineages cfg \<le> int (length fam) then plain (overflow_key sid) s1
             else if fam = [] then enter_lineage cfg now sid provider affinity cache_ttl snap sid None s1
             else enter_lineage cfg now sid provider affinity cache_ttl snap
                    (lineage_key sid (ss_lineage_counter s1)) None
                    (s1\<lparr>ss_lineage_counter := Suc (ss_lineage_counter s1)\<rparr>)))"

text \<open>The texts of one system message, and of the leading run of them; a message that is not a
  dictionary has no \<open>get\<close>.\<close>

definition system_texts :: "pydict \<Rightarrow> json list" where
  "system_texts d =
     (case dget_default d ''content'' (JStr []) of
        JStr s \<Rightarrow> [JStr s]
      | JList bs \<Rightarrow> List.map_filter (\<lambda>b. case b of
          JObj e \<Rightarrow> if dget e ''type'' = JStr (u ''text'') then Some (dget_default e ''text'' (JStr [])) else None
        | _ \<Rightarrow> None) bs
      | _ \<Rightarrow> [])"

fun system_parts :: "json list \<Rightarrow> py_error + json list" where
  "system_parts [] = Inr []"
| "system_parts (m # ms) =
     (case m of
        JObj d \<Rightarrow>
          if dget d ''role'' \<noteq> JStr (u ''system'') then Inr []
          else bindR (system_parts ms) (\<lambda>parts. Inr (system_texts d @ parts))
      | _ \<Rightarrow> Inl PyAttributeError)"

text \<open>\<open>header\<close> is the value of \<open>x-headroom-session-id\<close>, \<open>md5\<close> the hexadecimal digest of the
  encoded string.\<close>

definition compute_session_id ::
    "(pystr \<Rightarrow> pystr) \<Rightarrow> prefix_env \<Rightarrow> pystr option \<Rightarrow> pystr \<Rightarrow> json list \<Rightarrow> py_error + pystr" where
  "compute_session_id md5 E header model messages =
     (case header of
        Some (c # h) \<Rightarrow> Inr (c # h)
      | _ \<Rightarrow>
          bindR (system_parts messages) (\<lambda>parts.
            let key = model @ u '':'' @ json_text False (pe_float_repr E) (JList parts) in
            if list_ex is_surrogate key then Inl PyValueError else Inr (take 16 (md5 key))))"

definition active_trackers :: "session_store \<Rightarrow> nat" where
  "active_trackers s = length (ss_trackers s)"

end
