(* ===== verification/Prefix_Sessions_Props.thy ===== *)
theory Prefix_Sessions_Props
  imports Prefix_Sessions Prefix_Replay_Props "HOL-Library.Multiset"
begin

section \<open>Looking up and creating trackers\<close>

lemma map_of_without [simp]: "map_of (without ks d) k = (if k \<in> set ks then None else map_of d k)"
  by (induction d) (auto simp: without_def)

lemma distinct_without [intro]: "distinct (map fst d) \<Longrightarrow> distinct (map fst (without ks d))"
  by (induction d) (auto simp: without_def)

lemma dom_without: "fst ` set (without ks d) = fst ` set d - set ks"
  by (induction d) (auto simp: without_def)

lemma set_without: "set (without ks d) \<subseteq> set d"
  by (auto simp: without_def)

lemma observe_simps [simp]:
  "pt_state (observe_cache_ttl n t) = pt_state t" "pt_id (observe_cache_ttl n t) = pt_id t"
  "pt_turn_states (observe_cache_ttl n t) = pt_turn_states t"
  "pt_last_activity (observe_cache_ttl n t) = pt_last_activity t"
  by (auto simp: observe_cache_ttl_def split: option.splits)

text \<open>Observing a cache lifetime only extends the retention.\<close>

lemma not_expired_observe: "\<not> tracker_expired cfg now t \<Longrightarrow> \<not> tracker_expired cfg now (observe_cache_ttl n t)"
proof -
  have mono: "(if max x z \<noteq> 0 then max x z + 60 else 0) \<le> (if max y z \<noteq> 0 then max y z + 60 else 0)"
    if "x \<le> y" "0 \<le> z" for x y z :: int
    using that by (cases "x \<le> z"; cases "y \<le> z") (auto simp: max.absorb1 max.absorb2)
  have "or_zero (pt_cache_ttl t) \<le> or_zero (pt_cache_ttl (observe_cache_ttl n t))"
    by (cases n) (simp_all add: observe_cache_ttl_def or_zero_def)
  from mono [OF this, of "max (or_zero (fc_cache_ttl cfg)) (or_zero None)"]
  have "retention_seconds cfg None t \<le> retention_seconds cfg None (observe_cache_ttl n t)"
    unfolding retention_seconds_def Let_def CACHE_TTL_CLEANUP_MARGIN_def
    by (intro max.mono order_refl) (simp add: or_zero_def)
  then show "\<not> tracker_expired cfg now t \<Longrightarrow> ?thesis"
    by (auto simp: tracker_expired_def is_expired_for_cache_ttl_def)
qed

lemma peek_Some: "peek cfg now k s = Some t \<longleftrightarrow> map_of (ss_trackers s) k = Some t \<and> \<not> tracker_expired cfg now t"
  by (auto simp: peek_def split: option.splits)

abbreviation tracker_at :: "session_store \<Rightarrow> pystr \<Rightarrow> ptracker option" where
  "tracker_at s k \<equiv> map_of (ss_trackers s) k"

definition initial_state :: turn_state where
  "initial_state = \<lparr>ts_turn_number = 0, ts_cached_tokens = 0, ts_cached_messages = 0, ts_original = [], ts_forwarded = []\<rparr>"

text \<open>A cleanup drops expired trackers, and with them lineages that have lost their tracker.\<close>

lemma without_Nil [simp]: "without [] d = d"
  by (simp add: without_def)

lemma cleanup_cases:
  obtains (untouched) "ss_trackers (maybe_cleanup cfg now s) = ss_trackers s"
      "ss_history (maybe_cleanup cfg now s) = ss_history s"
      "ss_affinities (maybe_cleanup cfg now s) = ss_affinities s"
      "ss_lineages (maybe_cleanup cfg now s) = ss_lineages s"
  | (swept) ks gone where "ks = map fst (filter (\<lambda>(k, t). tracker_expired cfg now t) (ss_trackers s))"
      "ss_trackers (maybe_cleanup cfg now s) = without ks (ss_trackers s)"
      "\<And>k. k \<in> set gone \<Longrightarrow> tracker_at (maybe_cleanup cfg now s) k = None"
      "ss_history (maybe_cleanup cfg now s) = without gone (ss_history s)"
      "ss_affinities (maybe_cleanup cfg now s) = without gone (ss_affinities s)"
      "ss_lineages (maybe_cleanup cfg now s) =
         filter (\<lambda>(sid, fam). fam \<noteq> []) (map (\<lambda>(sid, fam). (sid, without gone fam)) (ss_lineages s))"
proof -
  define ks where "ks = map fst (filter (\<lambda>(k, t). tracker_expired cfg now t) (ss_trackers s))"
  define gone where "gone = filter (\<lambda>k. map_of (without ks (ss_trackers s)) k = None)
    (concat (map (map fst \<circ> snd) (ss_lineages s)))"
  show thesis
  proof (cases "now - ss_last_cleanup s < 60 \<or> ks = []")
    case True
    then have "maybe_cleanup cfg now s = s \<or> maybe_cleanup cfg now s = s\<lparr>ss_last_cleanup := now\<rparr>"
      unfolding maybe_cleanup_def Let_def ks_def [symmetric] by (cases "ks = []") (simp_all del: map_of_without)
    then show thesis using untouched by auto
  next
    case False
    then have "maybe_cleanup cfg now s = s\<lparr>ss_trackers := without ks (ss_trackers s), ss_last_cleanup := now,
        ss_affinities := without gone (ss_affinities s), ss_history := without gone (ss_history s),
        ss_lineages := filter (\<lambda>(sid, fam). fam \<noteq> []) (map (\<lambda>(sid, fam). (sid, without gone fam)) (ss_lineages s))\<rparr>"
      unfolding maybe_cleanup_def Let_def ks_def [symmetric] gone_def by (simp del: map_of_without)
    moreover have "map_of (without ks (ss_trackers s)) k = None" if "k \<in> set gone" for k
      using that unfolding gone_def by (simp del: map_of_without)
    ultimately show thesis using swept [OF ks_def, of gone] by simp
  qed
qed

text \<open>Only expired trackers disappear in a cleanup.\<close>

lemma cleanup_tracker_at:
  assumes "distinct (map fst (ss_trackers s))"
  shows "tracker_at (maybe_cleanup cfg now s) k = tracker_at s k \<or>
    tracker_at (maybe_cleanup cfg now s) k = None \<and> peek cfg now k s = None"
proof (cases rule: cleanup_cases [of cfg now s])
  case (swept ks gone)
  have "peek cfg now k s = None" if "k \<in> set ks"
    using that assms by (auto simp: peek_def swept(1))
  then show ?thesis by (simp add: swept(2))
qed simp

lemma cleanup_history_at:
  assumes "tracker_at (maybe_cleanup cfg now s) k \<noteq> None"
  shows "map_of (ss_history (maybe_cleanup cfg now s)) k = map_of (ss_history s) k"
    "map_of (ss_affinities (maybe_cleanup cfg now s)) k = map_of (ss_affinities s) k"
proof -
  have "map_of (ss_history (maybe_cleanup cfg now s)) k = map_of (ss_history s) k \<and>
      map_of (ss_affinities (maybe_cleanup cfg now s)) k = map_of (ss_affinities s) k"
  proof (cases rule: cleanup_cases [of cfg now s])
    case (swept ks gone)
    then show ?thesis using assms by auto
  qed simp
  then show "map_of (ss_history (maybe_cleanup cfg now s)) k = map_of (ss_history s) k"
    "map_of (ss_affinities (maybe_cleanup cfg now s)) k = map_of (ss_affinities s) k" by simp_all
qed

lemma discard_tracker_at: "tracker_at (discard_tracker key s) k = (if k = key then None else tracker_at s k)"
  by (simp add: discard_tracker_def Let_def)

lemma counters [simp]:
  "ss_turn_counter (discard_tracker key s) = ss_turn_counter s"
  "ss_turn_counter (maybe_cleanup cfg now s) = ss_turn_counter s"
  "ss_turn_counter (put_tracker key t s) = ss_turn_counter s"
  "ss_lineage_counter (discard_tracker key s) = ss_lineage_counter s"
  "ss_lineage_counter (maybe_cleanup cfg now s) = ss_lineage_counter s"
  "ss_lineage_counter (put_tracker key t s) = ss_lineage_counter s"
  by (auto simp: discard_tracker_def maybe_cleanup_def put_tracker_def Let_def)

lemma distinct_trackers [intro]:
  "distinct (map fst (ss_trackers s)) \<Longrightarrow> distinct (map fst (ss_trackers (discard_tracker key s)))"
  "distinct (map fst (ss_trackers s)) \<Longrightarrow> distinct (map fst (ss_trackers (maybe_cleanup cfg now s)))"
  "distinct (map fst (ss_trackers s)) \<Longrightarrow> distinct (map fst (ss_trackers (put_tracker key t s)))"
  by (auto simp: discard_tracker_def maybe_cleanup_def put_tracker_def Let_def intro: distinct_update)

lemma put_tracker_simps [simp]:
  "tracker_at (put_tracker key t s) k = (if k = key then Some t else tracker_at s k)"
  "ss_history (put_tracker key t s) = ss_history s" "ss_affinities (put_tracker key t s) = ss_affinities s"
  "ss_lineages (put_tracker key t s) = ss_lineages s"
  by (auto simp: put_tracker_def update_conv')

lemma get_or_create_live:
  assumes "get_or_create cfg now key provider ttl s = (t, s')" and "distinct (map fst (ss_trackers s))"
    and "peek cfg now key s = Some t0"
  shows "pt_id t = pt_id t0" "pt_state t = pt_state t0" "pt_turn_states t = pt_turn_states t0"
    "tracker_at s' key = Some t" "map_of (ss_history s') key = map_of (ss_history s) key"
    "map_of (ss_affinities s') key = map_of (ss_affinities s) key"
proof -
  let ?s2 = "put_tracker key (observe_cache_ttl ttl t0) s" and ?o = "observe_cache_ttl ttl t0"
  let ?s3 = "maybe_cleanup cfg now ?s2"
  have "peek cfg now key ?s2 = Some ?o"
    using assms(3) by (simp add: peek_Some not_expired_observe)
  then have at: "tracker_at ?s3 key = Some ?o"
    using cleanup_tracker_at [of ?s2 cfg now key] distinct_trackers(3) [OF assms(2)] by auto
  let ?t = "?o\<lparr>pt_idle_at_fetch := max 0 (now - pt_last_activity ?o), pt_last_activity := now\<rparr>"
  have r: "t = ?t" "s' = put_tracker key ?t ?s3"
    using assms(1,3) at by (auto simp: get_or_create_def Let_def)
  then show "pt_id t = pt_id t0" "pt_state t = pt_state t0" "pt_turn_states t = pt_turn_states t0"
    "tracker_at s' key = Some t" by simp_all
  show "map_of (ss_history s') key = map_of (ss_history s) key"
    "map_of (ss_affinities s') key = map_of (ss_affinities s) key"
    using r cleanup_history_at [of cfg now ?s2 key] at by simp_all
qed

lemma get_or_create_new:
  assumes "get_or_create cfg now key provider ttl s = (t, s')" and "peek cfg now key s = None"
  shows "pt_state t = initial_state" "pt_turn_states t = []" "tracker_at s' key = Some t"
  using assms by (auto simp: get_or_create_def Let_def new_ptracker_def initial_state_def put_tracker_def update_conv')

lemma get_or_create_others:
  assumes "get_or_create cfg now key provider ttl s = (t, s')" and "distinct (map fst (ss_trackers s))" and "k \<noteq> key"
  shows "tracker_at s' k = tracker_at s k \<or> tracker_at s' k = None \<and> peek cfg now k s = None"
proof -
  have step: "tracker_at (maybe_cleanup cfg now s1) k = tracker_at s k \<or>
      tracker_at (maybe_cleanup cfg now s1) k = None \<and> peek cfg now k s = None"
    if "tracker_at s1 k = tracker_at s k" "distinct (map fst (ss_trackers s1))" for s1
    using cleanup_tracker_at [OF that(2), of cfg now k] that(1) by (simp add: peek_def)
  show ?thesis
  proof (cases "peek cfg now key s")
    case None
    let ?s1 = "if tracker_at s key \<noteq> None then discard_tracker key s else s"
    have "tracker_at ?s1 k = tracker_at s k" "distinct (map fst (ss_trackers ?s1))"
      using assms by (auto simp: discard_tracker_at)
    from step [OF this] show ?thesis using assms None
      by (auto simp: get_or_create_def Let_def put_tracker_def update_conv')
  next
    case (Some t0)
    let ?s1 = "put_tracker key (observe_cache_ttl ttl t0) s"
    have "tracker_at ?s1 k = tracker_at s k" "distinct (map fst (ss_trackers ?s1))"
      using assms by auto
    from step [OF this] show ?thesis using assms Some
      by (auto simp: get_or_create_def Let_def put_tracker_def update_conv' split: option.splits)
  qed
qed

lemma get_or_create_counters:
  assumes "get_or_create cfg now key provider ttl s = (t, s')"
  shows "ss_turn_counter s' = ss_turn_counter s" "ss_lineage_counter s' = ss_lineage_counter s"
  using assms by (auto simp: get_or_create_def Let_def split: option.splits)

lemma get_or_create_distinct:
  assumes "get_or_create cfg now key provider ttl s = (t, s')" and "distinct (map fst (ss_trackers s))"
  shows "distinct (map fst (ss_trackers s'))"
proof -
  have put: "distinct (map fst (ss_trackers ((put_tracker key t r)\<lparr>ss_next_id := n\<rparr>)))"
    if "distinct (map fst (ss_trackers r))" for key t r n
    using distinct_trackers(3) [OF that] by simp
  show ?thesis using assms
    by (auto simp: get_or_create_def Let_def intro!: distinct_trackers put split: option.splits if_splits)
qed

section \<open>Which lineage a request continues\<close>

lemma set_longest_first [simp]: "set (longest_first f xs) = set xs"
  by (simp add: longest_first_def)

definition continues ::
    "pystr \<Rightarrow> session_store \<Rightarrow> family \<Rightarrow> pystr option \<Rightarrow> chain \<Rightarrow> pystr \<Rightarrow> nat option \<Rightarrow> bool" where
  "continues provider s fam affinity snap key turn \<longleftrightarrow>
     key \<in> fst ` set fam \<and> same_affinity s affinity key \<and>
     (\<exists>chain.
        let k = kind (classify_history_canonical snap chain) in
        (key, chain) \<in> set fam \<and> turn = latest_turn s key \<and> k \<in> {Exact, Message_Append, Block_Append}
        \<or> (\<exists>h n. map_of (ss_history s) key = Some h \<and> (chain, n) \<in> set (tl h) \<and> turn = Some n
             \<and> k \<in> {Exact, Message_Append, Block_Append})
        \<or> (key, chain) \<in> set fam \<and> turn = None \<and> k = Block_Rewrite_Tail
        \<or> (key, chain) \<in> set fam \<and> turn = None \<and> provider = u ''anthropic'' \<and> extends_past_system_tail snap chain)"

lemma find_mem: "find P xs = Some x \<Longrightarrow> x \<in> set xs \<and> P x"
  by (induction xs) (auto split: if_splits)

lemma lineage_match_sound:
  assumes "lineage_match s affinity snap cs = Some (key, turn)"
  obtains chain where "(key, chain, turn) \<in> set cs" "same_affinity s affinity key"
    "kind (classify_history_canonical snap chain) \<in> {Exact, Message_Append, Block_Append}"
proof -
  define ok where "ok = (\<lambda>ks (key, chain, turn :: nat option). same_affinity s affinity key
     \<and> kind (classify_history_canonical snap chain) \<in> ks)"
  have "(\<exists>c. find (ok {Exact, Message_Append}) cs = Some c \<and> (key, turn) = (fst c, snd (snd c)))
      \<or> (\<exists>c. find (ok {Block_Append}) cs = Some c \<and> (key, turn) = (fst c, snd (snd c)))"
    using assms unfolding lineage_match_def Let_def ok_def [symmetric]
    by (auto simp: split_def split: option.splits)
  then obtain c ks where "find (ok ks) cs = Some c" "(key, turn) = (fst c, snd (snd c))"
    "ks = {Exact, Message_Append} \<or> ks = {Block_Append}" by blast
  then show thesis using find_mem [of "ok ks" cs c] that [of "fst (snd c)"]
    by (auto simp: ok_def split: prod.splits)
qed

lemma unique_best_mem: "unique_best cs = Some key \<Longrightarrow> \<exists>a. (a, key) \<in> set cs"
  by (auto simp: unique_best_def split: list.splits if_splits) blast+

lemma continuesI:
  assumes "key \<in> fst ` set fam" and "same_affinity s affinity key"
  shows "(key, chain) \<in> set fam \<Longrightarrow> turn = latest_turn s key \<Longrightarrow>
      kind (classify_history_canonical snap chain) \<in> {Exact, Message_Append, Block_Append} \<Longrightarrow>
      continues provider s fam affinity snap key turn"
    and "map_of (ss_history s) key = Some h \<Longrightarrow> (chain, n) \<in> set (tl h) \<Longrightarrow> turn = Some n \<Longrightarrow>
      kind (classify_history_canonical snap chain) \<in> {Exact, Message_Append, Block_Append} \<Longrightarrow>
      continues provider s fam affinity snap key turn"
    and "(key, chain) \<in> set fam \<Longrightarrow> turn = None \<Longrightarrow>
      kind (classify_history_canonical snap chain) = Block_Rewrite_Tail \<Longrightarrow>
      continues provider s fam affinity snap key turn"
    and "(key, chain) \<in> set fam \<Longrightarrow> turn = None \<Longrightarrow> provider = u ''anthropic'' \<Longrightarrow>
      extends_past_system_tail snap chain \<Longrightarrow> continues provider s fam affinity snap key turn"
  using assms unfolding continues_def Let_def by blast+

lemma best_lineage_sound:
  assumes "best_lineage E provider s affinity snap fam = Some (key, turn)"
  shows "continues provider s fam affinity snap key turn"
proof -
  consider (latest) "lineage_match s affinity snap (latest_candidates s fam) = Some (key, turn)"
    | (fork) "lineage_match s affinity snap (fork_candidates s fam) = Some (key, turn)"
    | (rewrite) "unique_best (rewrite_candidates s affinity snap fam) = Some key" "turn = None"
    | (tail) "unique_best (tail_candidates s affinity snap fam) = Some key" "turn = None" "provider = u ''anthropic''"
    using assms unfolding best_lineage_def Let_def by (auto split: option.splits if_splits)
  then show ?thesis
  proof cases
    case latest
    then obtain chain where c: "(key, chain, turn) \<in> set (latest_candidates s fam)" "same_affinity s affinity key"
      "kind (classify_history_canonical snap chain) \<in> {Exact, Message_Append, Block_Append}"
      by (rule lineage_match_sound)
    then have "(key, chain) \<in> set fam" "turn = latest_turn s key" by (auto simp: latest_candidates_def)
    then show ?thesis using continuesI(1) [OF _ c(2)] c(3) by force
  next
    case fork
    then obtain chain where c: "(key, chain, turn) \<in> set (fork_candidates s fam)" "same_affinity s affinity key"
      "kind (classify_history_canonical snap chain) \<in> {Exact, Message_Append, Block_Append}"
      by (rule lineage_match_sound)
    then obtain c0 n where "(key, c0) \<in> set fam" "turn = Some n"
      "(chain, n) \<in> set (tl (case map_of (ss_history s) key of Some h \<Rightarrow> h | None \<Rightarrow> []))"
      by (auto simp: fork_candidates_def)
    then show ?thesis using continuesI(2) [OF _ c(2) _ _ _ c(3)] by (cases "map_of (ss_history s) key") force+
  next
    case rewrite
    then obtain a where "(a, key) \<in> set (rewrite_candidates s affinity snap fam)" by (blast dest: unique_best_mem)
    then obtain chain where "(key, chain) \<in> set fam" "same_affinity s affinity key"
      "kind (classify_history_canonical snap chain) = Block_Rewrite_Tail"
      by (auto simp: rewrite_candidates_def List.map_filter_def Let_def split: if_splits)
    then show ?thesis using continuesI(3) rewrite(2) by (metis fst_conv image_eqI)
  next
    case tail
    then obtain a where "(a, key) \<in> set (tail_candidates s affinity snap fam)" by (blast dest: unique_best_mem)
    then obtain chain where "(key, chain) \<in> set fam" "same_affinity s affinity key" "extends_past_system_tail snap chain"
      by (auto simp: tail_candidates_def List.map_filter_def split: if_splits)
    then show ?thesis using continuesI(4) tail(2,3) by (metis fst_conv image_eqI)
  qed
qed

lemma prune_family_spec:
  assumes "prune_family cfg now sid s = (fam, s1)"
  shows "k \<in> fst ` set fam \<Longrightarrow> peek cfg now k s \<noteq> None"
    and "tracker_at s1 k = tracker_at s k \<or> tracker_at s1 k = None \<and> peek cfg now k s = None"
    and "peek cfg now k s \<noteq> None \<Longrightarrow> tracker_at s1 k = tracker_at s k \<and> map_of (ss_history s1) k = map_of (ss_history s) k"
    and "ss_turn_counter s1 = ss_turn_counter s" "ss_lineage_counter s1 = ss_lineage_counter s"
    and "distinct (map fst (ss_trackers s)) \<Longrightarrow> distinct (map fst (ss_trackers s1))"
    and "map_of (ss_lineages s1) sid = Some fam"
proof -
  define fam0 where "fam0 = (case map_of (ss_lineages s) sid of Some f \<Rightarrow> f | None \<Rightarrow> [])"
  define ks where "ks = filter (\<lambda>k. peek cfg now k s = None) (map fst fam0)"
  have fam: "fam = without ks fam0" and s1: "s1 = s\<lparr>ss_lineages := AList.update sid fam (ss_lineages s),
      ss_affinities := without ks (ss_affinities s), ss_history := without ks (ss_history s),
      ss_trackers := without ks (ss_trackers s)\<rparr>"
    using assms unfolding prune_family_def Let_def fam0_def [symmetric] ks_def [symmetric] by auto
  have ks: "k \<in> set ks \<longleftrightarrow> k \<in> fst ` set fam0 \<and> peek cfg now k s = None" for k by (auto simp: ks_def)
  show "k \<in> fst ` set fam \<Longrightarrow> peek cfg now k s \<noteq> None"
    unfolding fam dom_without using ks [of k] by (metis Diff_iff)
  have at: "tracker_at s1 k = (if k \<in> set ks then None else tracker_at s k)"
    "map_of (ss_history s1) k = (if k \<in> set ks then None else map_of (ss_history s) k)"
    by (simp_all add: s1)
  show "tracker_at s1 k = tracker_at s k \<or> tracker_at s1 k = None \<and> peek cfg now k s = None"
    "peek cfg now k s \<noteq> None \<Longrightarrow> tracker_at s1 k = tracker_at s k \<and> map_of (ss_history s1) k = map_of (ss_history s) k"
    unfolding at using ks [of k] by presburger+
  show "ss_turn_counter s1 = ss_turn_counter s" "ss_lineage_counter s1 = ss_lineage_counter s"
    "distinct (map fst (ss_trackers s)) \<Longrightarrow> distinct (map fst (ss_trackers s1))"
    "map_of (ss_lineages s1) sid = Some fam"
    by (auto simp: s1 update_conv')
qed

section \<open>Forks and the turn they branch off\<close>

lemma resume_turn_simps [simp]:
  "pt_turn_states (resume_turn n t) = pt_turn_states t" "pt_id (resume_turn n t) = pt_id t"
  by (auto simp: resume_turn_def split: option.splits)

lemma map_of_filter_keys: "map_of (filter (\<lambda>(n, _). n \<in> A) d) k = (if k \<in> A then map_of d k else None)"
  by (induction d) auto

text \<open>Entering a lineage whose tracker is live.\<close>

lemma enter_lineage_live:
  assumes "enter_lineage cfg now sid provider affinity ttl snap key bt s = (t, R, s')"
    and "distinct (map fst (ss_trackers s))" and "peek cfg now key s = Some t0"
  defines "h \<equiv> push_turn snap (ss_turn_counter s) bt
    (case map_of (ss_history s) key of Some h \<Rightarrow> h | None \<Rightarrow> [])"
  defines "origin \<equiv> (case bt of Some n \<Rightarrow> Some n | None \<Rightarrow> latest_turn s key)"
  shows "tracker_at s' key = Some t" and "map_of (ss_history s') key = Some h"
    and "ss_turn_counter s' = Suc (ss_turn_counter s)" and "pt_state t = pt_state (resume_turn origin t0)"
    and "R = Some (pt_id t, ss_turn_counter s, Some (pt_state t))"
    and "map_of (pt_turn_states t) n = (if n = ss_turn_counter s then Some None
      else if n \<in> set (map snd h) then map_of (pt_turn_states t0) n else None)"
    and "distinct (map fst (ss_trackers s'))"
proof -
  obtain t1 s1 where g: "get_or_create cfg now key provider ttl s = (t1, s1)" by fastforce
  note live = get_or_create_live [OF g assms(2,3)] and cnt = get_or_create_counters [OF g]
    and dist = get_or_create_distinct [OF g assms(2)]
  have origin_eq: "(case bt of Some n \<Rightarrow> Some n | None \<Rightarrow> latest_turn (s1\<lparr>ss_lineages := L, ss_affinities := A\<rparr>) key) = origin" for L A
    using live(5) by (auto simp: origin_def latest_turn_def split: option.splits)
  have resume: "pt_state (resume_turn n t1) = pt_state (resume_turn n t0)" for n
    using live(2,3) by (auto simp: resume_turn_def split: option.splits)
  obtain fam L where fam: "(case map_of (ss_lineages s1) sid of Some f \<Rightarrow> f | None \<Rightarrow> []) = fam"
    "AList.update sid (AList.update key snap fam) (ss_lineages s1) = L" by blast
  let ?t = "(resume_turn origin t1)\<lparr>pt_turn_states := AList.update (ss_turn_counter s) None
      (filter (\<lambda>(n, _). n \<in> set (map snd h)) (pt_turn_states t1))\<rparr>"
  have "t = ?t \<and> R = Some (pt_id t, ss_turn_counter s, Some (pt_state t)) \<and>
      s' = (put_tracker key ?t (s1\<lparr>ss_lineages := L, ss_affinities := AList.update key affinity (ss_affinities s1)\<rparr>))
        \<lparr>ss_turn_counter := Suc (ss_turn_counter s), ss_history := AList.update key h (ss_history s1)\<rparr>"
    using assms(1) unfolding enter_lineage_def g prod.case Let_def fam origin_eq
    using cnt live(5) by (auto simp: h_def)
  then have t: "t = ?t" and R: "R = Some (pt_id t, ss_turn_counter s, Some (pt_state t))"
    and s': "s' = (put_tracker key ?t (s1\<lparr>ss_lineages := L, ss_affinities := AList.update key affinity (ss_affinities s1)\<rparr>))
        \<lparr>ss_turn_counter := Suc (ss_turn_counter s), ss_history := AList.update key h (ss_history s1)\<rparr>"
    by blast+
  show "R = Some (pt_id t, ss_turn_counter s, Some (pt_state t))" by (rule R)
  show "tracker_at s' key = Some t" "map_of (ss_history s') key = Some h"
    "ss_turn_counter s' = Suc (ss_turn_counter s)"
    using t by (simp_all add: s' update_conv' put_tracker_def)
  show "pt_state t = pt_state (resume_turn origin t0)" by (simp add: t resume)
  show "map_of (pt_turn_states t) n = (if n = ss_turn_counter s then Some None
      else if n \<in> set (map snd h) then map_of (pt_turn_states t0) n else None)"
    using live(3) by (simp add: t update_conv' map_of_filter_keys del: set_map)
  show "distinct (map fst (ss_trackers s'))"
    using dist by (simp add: s' put_tracker_def distinct_update)
qed

text \<open>Pushing a turn keeps the newest of the other turns, with the branch point, if any, first.\<close>

lemma push_turn_shape:
  obtains h' where "push_turn snap n b h = take 3 ((snap, n) # h')" and "mset h' = mset h"
    and "\<And>c t. b = Some t \<Longrightarrow> (c, t) \<in> set h \<Longrightarrow> distinct (map snd h) \<Longrightarrow> \<exists>r. h' = (c, t) # r"
proof (cases "find (\<lambda>(_, m). Some m = b) h")
  case None
  show thesis
  proof (rule that [of h])
    show "push_turn snap n b h = take 3 ((snap, n) # h)"
      unfolding push_turn_def None Let_def option.case LINEAGE_HISTORY_def ..
    show "\<exists>r. h = (c, t) # r" if "b = Some t" "(c, t) \<in> set h" for c t
      using None that by (auto simp: find_None_iff)
  qed simp
next
  case (Some x)
  then have x: "x \<in> set h" "Some (snd x) = b" by (auto dest!: find_mem)
  let ?h = "if x = hd h then h else x # remove1 x h"
  show thesis
  proof (rule that [of ?h])
    show "push_turn snap n b h = take 3 ((snap, n) # ?h)"
      unfolding push_turn_def Some Let_def option.case LINEAGE_HISTORY_def ..
    show "mset ?h = mset h" using x(1) by simp
    show "\<exists>r. ?h = (c, t) # r" if "b = Some t" "(c, t) \<in> set h" "distinct (map snd h)" for c t
    proof -
      have "x = (c, t)" using that x by (metis distinct_map inj_onD option.inject snd_conv)
      then show ?thesis using x(1) by (cases h) auto
    qed
  qed
qed

lemma push_turn_spec:
  assumes "distinct (map snd h)" and "\<forall>m \<in> set (map snd h). m < n"
  shows "distinct (map snd (push_turn snap n b h))" and "\<forall>m \<in> set (map snd (push_turn snap n b h)). m < Suc n"
    and "(snap, n) \<in> set (take 2 (push_turn snap n b h))" and "length (push_turn snap n b h) \<le> 3"
    and "b = Some t \<Longrightarrow> (c, t) \<in> set h \<Longrightarrow> (c, t) \<in> set (take 2 (push_turn snap n b h))"
proof -
  obtain h' where h': "push_turn snap n b h = take 3 ((snap, n) # h')" "mset h' = mset h"
    "\<And>c t. b = Some t \<Longrightarrow> (c, t) \<in> set h \<Longrightarrow> distinct (map snd h) \<Longrightarrow> \<exists>r. h' = (c, t) # r"
    using push_turn_shape [of snap n b h] by metis
  have "mset (map snd h') = mset (map snd h)" using h'(2) by simp
  then have "distinct (map snd h')" "set (map snd h') = set (map snd h)"
    using assms(1) by (metis mset_eq_imp_distinct_iff) (metis mset_eq_setD \<open>mset (map snd h') = mset (map snd h)\<close>)
  then have all: "distinct (map snd ((snap, n) # h'))" "\<forall>m \<in> set (map snd ((snap, n) # h')). m < Suc n"
    using assms(2) by (auto simp: less_Suc_eq)
  show "distinct (map snd (push_turn snap n b h))"
    unfolding h'(1) take_map [symmetric] using all(1) by (rule distinct_take)
  show "\<forall>m \<in> set (map snd (push_turn snap n b h)). m < Suc n"
    unfolding h'(1) take_map [symmetric] using all(2) in_set_takeD by metis
  show "(snap, n) \<in> set (take 2 (push_turn snap n b h))" "length (push_turn snap n b h) \<le> 3"
    by (simp_all add: h'(1))
  show "(c, t) \<in> set (take 2 (push_turn snap n b h))" if "b = Some t" "(c, t) \<in> set h"
    using h'(3) [OF that assms(1)] by (auto simp: h'(1))
qed

text \<open>What a turn needs to be resumed later: its snapshot is among the two newest of the lineage and
  the tracker keeps the state after its response.\<close>

definition kept :: "pystr \<Rightarrow> nat \<Rightarrow> chain \<Rightarrow> turn_state \<Rightarrow> session_store \<Rightarrow> bool" where
  "kept key t c S s \<longleftrightarrow> distinct (map fst (ss_trackers s)) \<and>
     (\<exists>h tr. map_of (ss_history s) key = Some h \<and> (c, t) \<in> set (take 2 h) \<and> distinct (map snd h)
        \<and> (\<forall>n \<in> set (map snd h). n < ss_turn_counter s)
        \<and> tracker_at s key = Some tr \<and> map_of (pt_turn_states tr) t = Some (Some S))"

lemma in_live: "(c, t) \<in> set (take 2 (push_turn snap n b h)) \<Longrightarrow> t \<in> set (map snd (push_turn snap n b h))"
  by (force dest: in_set_takeD)

lemma fork_keeps:
  assumes "kept key t c S s" and "peek cfg now key s \<noteq> None"
    and "enter_lineage cfg now sid provider affinity ttl snap key (Some t) s = (tr', R, s')"
  shows "kept key t c S s'" and "request_turn_state R tr' = S"
proof -
  obtain h tr where h: "map_of (ss_history s) key = Some h" "(c, t) \<in> set (take 2 h)" "distinct (map snd h)"
    "\<forall>n \<in> set (map snd h). n < ss_turn_counter s" and tr: "tracker_at s key = Some tr"
    "map_of (pt_turn_states tr) t = Some (Some S)" and dist: "distinct (map fst (ss_trackers s))"
    using assms(1) by (auto simp: kept_def)
  have pk: "peek cfg now key s = Some tr" using assms(2) tr(1) by (auto simp: peek_def split: option.splits if_splits)
  note e = enter_lineage_live [OF assms(3) dist pk]
  have mem: "(c, t) \<in> set h" using h(2) by (rule in_set_takeD)
  note push = push_turn_spec [OF h(3,4), where snap = snap and b = "Some t"]
    and branch = push_turn_spec(5) [OF h(3,4) refl mem, where snap = snap]
  have t: "t < ss_turn_counter s" using h(2,4) by (force dest: in_set_takeD)
  have "map_of (pt_turn_states tr') t = Some (Some S)"
    using e(6) [of t] h(1) tr(2) t in_live [OF branch] by simp
  then show "kept key t c S s'" unfolding kept_def
    using e(1,2,3,7) h(1) push(1,2) branch by simp
  show "request_turn_state R tr' = S"
    using e(4,5) tr(2) by (simp add: request_turn_state_def resume_turn_def)
qed

lemma update_from_response_turn_states:
  assumes "update_from_response U E now rd wr messages counts orig R t = ((t', R'), res)"
  shows "map_of (pt_turn_states t') n = map_of (pt_turn_states t) n \<or>
    (\<exists>st. R = Some (pt_id t, n, st)) \<and> map_of (pt_turn_states t') n = Some (Some (pt_state t'))"
  using assms
  by (auto simp: update_from_response_def record_turn_state_def Let_def update_conv'
      split: option.splits sum.splits if_splits prod.splits)

lemma update_from_response_records:
  assumes "update_from_response U E now rd wr messages counts orig (Some (pt_id t, n, st)) t = ((t', R'), Inr ())"
    and "map_of (pt_turn_states t) n \<noteq> None"
  shows "map_of (pt_turn_states t') n = Some (Some (pt_state t'))" "ts_forwarded (pt_state t') = messages"
    "ts_original (pt_state t') = (case orig of Some ms \<Rightarrow> if ms = [] then messages else ms | None \<Rightarrow> messages)"
  using assms
  by (auto simp: update_from_response_def record_turn_state_def Let_def update_conv'
      split: option.splits sum.splits if_splits prod.splits)

lemma kept_answer:
  assumes "kept key t c S s" and "tracker_at s key = Some tr"
    and "map_of (pt_turn_states tr') t = map_of (pt_turn_states tr) t"
  shows "kept key t c S (put_tracker key tr' s)"
proof -
  obtain h where "map_of (ss_history s) key = Some h" "(c, t) \<in> set (take 2 h)" "distinct (map snd h)"
    "\<forall>n \<in> set (map snd h). n < ss_turn_counter s" "map_of (pt_turn_states tr) t = Some (Some S)"
    "distinct (map fst (ss_trackers s))"
    using assms(1,2) unfolding kept_def by auto
  then show ?thesis using assms(3) distinct_trackers(3) [of s key tr'] by (simp add: kept_def)
qed

lemma kept_elsewhere:
  assumes "kept key t c S s1" and "tracker_at s2 key = tracker_at s1 key"
    and "map_of (ss_history s2) key = map_of (ss_history s1) key" and "ss_turn_counter s1 \<le> ss_turn_counter s2"
    and "distinct (map fst (ss_trackers s2))"
  shows "kept key t c S s2"
proof -
  obtain h tr where h: "map_of (ss_history s1) key = Some h" "(c, t) \<in> set (take 2 h)" "distinct (map snd h)"
    "\<forall>n \<in> set (map snd h). n < ss_turn_counter s1" "tracker_at s1 key = Some tr"
    "map_of (pt_turn_states tr) t = Some (Some S)"
    using assms(1) unfolding kept_def by auto
  have "\<forall>n \<in> set (map snd h). n < ss_turn_counter s2" using h(4) assms(4) by fastforce
  then show ?thesis using h assms(2,3,5) by (simp add: kept_def)
qed

section \<open>Reachable stores\<close>

inductive sessions :: "ucd \<Rightarrow> prefix_env \<Rightarrow> freeze_config \<Rightarrow> session_store \<Rightarrow> bool" for U E cfg where
  start: "sessions U E cfg (new_session_store now)"
| resolve: "sessions U E cfg s \<Longrightarrow> 0 \<notin> set sid \<Longrightarrow>
    resolve_tracker E cfg now sid provider messages affinity ttl R s = (t, R', s') \<Longrightarrow> sessions U E cfg s'"
| respond: "sessions U E cfg s \<Longrightarrow> tracker_at s key = Some t \<Longrightarrow>
    update_from_response U E now rd wr messages counts orig R t = ((t', R'), res) \<Longrightarrow>
    sessions U E cfg (put_tracker key t' s)"
| returned: "sessions U E cfg s \<Longrightarrow> tracker_at s key = Some t \<Longrightarrow>
    sessions U E cfg (put_tracker key (record_returned now original forwarded t) s)"

text \<open>Keys are session ids, overflow keys or numbered lineage keys, which do not collide because a
  session id has no NUL.\<close>

definition key_ok :: "nat \<Rightarrow> pystr \<Rightarrow> bool" where
  "key_ok n k \<longleftrightarrow> 0 \<notin> set k \<or>
     (\<exists>sid. 0 \<notin> set sid \<and> (k = overflow_key sid \<or> (\<exists>i < n. k = lineage_key sid i)))"

definition lineages_ok :: "freeze_config \<Rightarrow> (pystr, family) odict \<Rightarrow> bool" where
  "lineages_ok cfg L \<longleftrightarrow> distinct (map fst L) \<and>
     (\<forall>sid fam. (sid, fam) \<in> set L \<longrightarrow> distinct (map fst fam) \<and> int (length fam) \<le> max 0 (fc_max_lineages cfg))"

definition history_ok :: "nat \<Rightarrow> (chain \<times> nat) list \<Rightarrow> bool" where
  "history_ok n h \<longleftrightarrow> distinct (map snd h) \<and> (\<forall>m \<in> set (map snd h). m < n) \<and> length h \<le> 3"

definition ptracker_ok :: "ptracker \<Rightarrow> bool" where
  "ptracker_ok t \<longleftrightarrow> distinct (map fst (pt_turn_states t)) \<and> length (pt_turn_states t) \<le> 3"

definition sessions_ok :: "freeze_config \<Rightarrow> session_store \<Rightarrow> bool" where
  "sessions_ok cfg s \<longleftrightarrow> distinct (map fst (ss_trackers s)) \<and> lineages_ok cfg (ss_lineages s)
     \<and> (\<forall>k t. tracker_at s k = Some t \<longrightarrow> key_ok (ss_lineage_counter s) k \<and> ptracker_ok t)
     \<and> (\<forall>k h. map_of (ss_history s) k = Some h \<longrightarrow> history_ok (ss_turn_counter s) h)"

lemma sessions_okI [inv_intros]:
  assumes "distinct (map fst (ss_trackers s))" and "lineages_ok cfg (ss_lineages s)"
    and "\<And>k t. tracker_at s k = Some t \<Longrightarrow> key_ok (ss_lineage_counter s) k \<and> ptracker_ok t"
    and "\<And>k h. map_of (ss_history s) k = Some h \<Longrightarrow> history_ok (ss_turn_counter s) h"
  shows "sessions_ok cfg s"
  using assms by (simp add: sessions_ok_def)

lemma sessions_okD:
  assumes "sessions_ok cfg s"
  shows "distinct (map fst (ss_trackers s))" and "lineages_ok cfg (ss_lineages s)"
    and "tracker_at s k = Some t \<Longrightarrow> key_ok (ss_lineage_counter s) k"
    and "tracker_at s k = Some t \<Longrightarrow> ptracker_ok t"
    and "map_of (ss_history s) k = Some h \<Longrightarrow> history_ok (ss_turn_counter s) h"
  using assms by (simp_all add: sessions_ok_def)

text \<open>A store with fewer lineages, histories and trackers is still well formed.\<close>

lemma lineages_ok_without:
  assumes "lineages_ok cfg L"
  shows "lineages_ok cfg (filter (\<lambda>(sid, fam). fam \<noteq> []) (map (\<lambda>(sid, fam). (sid, without ks fam)) L))"
    (is "lineages_ok cfg (filter _ ?L)")
  unfolding lineages_ok_def
proof (intro conjI allI impI)
  have "distinct (map fst ?L)" using assms by (simp add: lineages_ok_def comp_def split_def)
  then show "distinct (map fst (filter (\<lambda>(sid, fam). fam \<noteq> []) ?L))" by (rule distinct_map_filter)
  fix sid fam
  assume "(sid, fam) \<in> set (filter (\<lambda>(sid, fam). fam \<noteq> []) ?L)"
  then obtain fam0 where fam0: "(sid, fam0) \<in> set L" "fam = without ks fam0" by auto
  then have "distinct (map fst fam0)" "int (length fam0) \<le> max 0 (fc_max_lineages cfg)"
    using assms by (auto simp: lineages_ok_def)
  moreover have "length fam \<le> length fam0" by (simp add: fam0(2) without_def)
  ultimately show "distinct (map fst fam)" "int (length fam) \<le> max 0 (fc_max_lineages cfg)"
    using fam0(2) by auto
qed

lemma lineages_ok_update:
  assumes "lineages_ok cfg L" and "distinct (map fst fam)" and "int (length fam) \<le> max 0 (fc_max_lineages cfg)"
  shows "lineages_ok cfg (AList.update sid fam L)"
proof -
  have "set (AList.update sid fam L) \<subseteq> insert (sid, fam) (set L)" by (induction L) auto
  then show ?thesis using assms distinct_update [of L sid fam] unfolding lineages_ok_def by fast
qed

lemma cleanup_ok: "sessions_ok cfg s \<Longrightarrow> sessions_ok cfg (maybe_cleanup cfg now s)"
proof (cases rule: cleanup_cases [of cfg now s])
  case (swept ks gone)
  assume s: "sessions_ok cfg s"
  note d = sessions_okD [OF s]
  show ?thesis
  proof (rule sessions_okI)
    show "distinct (map fst (ss_trackers (maybe_cleanup cfg now s)))" using d(1) by (rule distinct_trackers)
    show "lineages_ok cfg (ss_lineages (maybe_cleanup cfg now s))"
      unfolding swept(6) using d(2) by (rule lineages_ok_without)
  qed (use d(3-5) in \<open>auto simp: swept(2,4) split: if_splits\<close>)
qed (simp add: sessions_ok_def)

lemma discard_ok: "sessions_ok cfg s \<Longrightarrow> sessions_ok cfg (discard_tracker key s)"
proof (rule sessions_okI)
  assume s: "sessions_ok cfg s"
  note d = sessions_okD [OF s]
  show "distinct (map fst (ss_trackers (discard_tracker key s)))" using d(1) by (rule distinct_trackers)
  show "lineages_ok cfg (ss_lineages (discard_tracker key s))"
    using lineages_ok_without [OF d(2)] by (simp add: discard_tracker_def Let_def)
qed (use sessions_okD(3-5) in \<open>auto simp: discard_tracker_def Let_def split: if_splits\<close>)

lemma put_ok:
  assumes "sessions_ok cfg s" and "ptracker_ok t" and "key_ok (ss_lineage_counter s) key"
  shows "sessions_ok cfg (put_tracker key t s)"
  using assms distinct_trackers(3) [of s key t] by (simp add: sessions_ok_def)

lemma sessions_ok_next_id [simp]: "sessions_ok cfg (s\<lparr>ss_next_id := n\<rparr>) = sessions_ok cfg s"
  by (simp add: sessions_ok_def)

lemma cleanup_history: "map_of (ss_history (maybe_cleanup cfg now s)) k = map_of (ss_history s) k \<or>
    map_of (ss_history (maybe_cleanup cfg now s)) k = None"
  by (cases rule: cleanup_cases [of cfg now s]) auto

lemma get_or_create_ok:
  assumes "get_or_create cfg now key provider ttl s = (t, s')" and "sessions_ok cfg s"
    and "key_ok (ss_lineage_counter s) key"
  shows "sessions_ok cfg s'" and "tracker_at s' key = Some t"
    and "map_of (ss_history s') k = map_of (ss_history s) k \<or> map_of (ss_history s') k = None"
    and "pt_turn_states t = [] \<or> (\<exists>t0. tracker_at s key = Some t0 \<and> pt_turn_states t = pt_turn_states t0)"
    and "ptracker_ok t"
proof -
  note d = sessions_okD [OF assms(2)]
  have "sessions_ok cfg s' \<and> tracker_at s' key = Some t \<and> ptracker_ok t
      \<and> (map_of (ss_history s') k = map_of (ss_history s) k \<or> map_of (ss_history s') k = None)
      \<and> (pt_turn_states t = [] \<or> (\<exists>t0. tracker_at s key = Some t0 \<and> pt_turn_states t = pt_turn_states t0))"
  proof (cases "peek cfg now key s")
    case None
    define s1 where "s1 = (if tracker_at s key \<noteq> None then discard_tracker key s else s)"
    let ?s2 = "maybe_cleanup cfg now s1"
    have s1: "sessions_ok cfg s1" "ss_lineage_counter s1 = ss_lineage_counter s"
      using assms(2) discard_ok by (auto simp: s1_def)
    have r: "t = observe_cache_ttl ttl (new_ptracker (ss_next_id ?s2) provider now)"
      "s' = (put_tracker key t ?s2)\<lparr>ss_next_id := Suc (ss_next_id ?s2)\<rparr>"
      using assms(1) None by (auto simp: get_or_create_def Let_def s1_def)
    have t: "pt_turn_states t = []" "ptracker_ok t" by (simp_all add: r(1) new_ptracker_def ptracker_ok_def)
    have "sessions_ok cfg s'"
      unfolding r(2) sessions_ok_next_id using cleanup_ok [OF s1(1)] t(2) assms(3) s1(2) by (intro put_ok) auto
    moreover have "map_of (ss_history s') k = map_of (ss_history s) k \<or> map_of (ss_history s') k = None"
      using cleanup_history [of cfg now s1 k] by (auto simp: r(2) s1_def discard_tracker_def Let_def)
    moreover have "tracker_at s' key = Some t" by (simp add: r(2) put_tracker_def update_conv')
    ultimately show ?thesis using t by blast
  next
    case (Some t0)
    let ?o = "observe_cache_ttl ttl t0" and ?s2 = "put_tracker key (observe_cache_ttl ttl t0) s"
    have at: "tracker_at s key = Some t0" using Some by (simp add: peek_Some)
    have ok: "ptracker_ok ?o" using d(4) [OF at] by (simp add: ptracker_ok_def)
    have s3: "sessions_ok cfg (maybe_cleanup cfg now ?s2)"
      using put_ok [OF assms(2) ok assms(3)] by (rule cleanup_ok)
    have "peek cfg now key ?s2 = Some ?o" using Some by (simp add: peek_Some not_expired_observe)
    then have "tracker_at (maybe_cleanup cfg now ?s2) key = Some ?o"
      using cleanup_tracker_at [of ?s2 cfg now key] distinct_trackers(3) [OF d(1)] by auto
    then have r: "t = ?o\<lparr>pt_idle_at_fetch := max 0 (now - pt_last_activity ?o), pt_last_activity := now\<rparr>"
      "s' = put_tracker key t (maybe_cleanup cfg now ?s2)"
      using assms(1) Some by (auto simp: get_or_create_def Let_def)
    have t: "ptracker_ok t" "pt_turn_states t = pt_turn_states t0" using ok by (simp_all add: r(1) ptracker_ok_def)
    have "sessions_ok cfg s'" unfolding r(2) using s3 t(1) assms(3) by (intro put_ok) auto
    then show ?thesis using t at cleanup_history [of cfg now ?s2 k] by (auto simp: r(2))
  qed
  note all = this
  show "sessions_ok cfg s'" using all by argo
  show "tracker_at s' key = Some t" using all by argo
  show "ptracker_ok t" using all by argo
  show "map_of (ss_history s') k = map_of (ss_history s) k \<or> map_of (ss_history s') k = None" using all by argo
  show "pt_turn_states t = [] \<or> (\<exists>t0. tracker_at s key = Some t0 \<and> pt_turn_states t = pt_turn_states t0)"
    using all by argo
qed

text \<open>Families only lose members when a tracker is looked up.\<close>

definition shrunk :: "(pystr, family) odict \<Rightarrow> (pystr, family) odict \<Rightarrow> bool" where
  "shrunk L L' \<longleftrightarrow> (\<forall>sid fam'. (sid, fam') \<in> set L' \<longrightarrow> (\<exists>fam ks. (sid, fam) \<in> set L \<and> fam' = without ks fam))"

lemma shrunk_refl: "shrunk L L"
  unfolding shrunk_def by (metis without_Nil)

lemma without_without: "without ks (without ks' d) = without (ks @ ks') d"
  by (simp add: without_def conj_commute split_def)

lemma shrunk_trans: "shrunk L L' \<Longrightarrow> shrunk L' L'' \<Longrightarrow> shrunk L L''"
  unfolding shrunk_def by (metis without_without)

lemma shrunk_without:
  "shrunk L (filter (\<lambda>(sid, fam). fam \<noteq> []) (map (\<lambda>(sid, fam). (sid, without ks fam)) L))"
  by (auto simp: shrunk_def)

lemma cleanup_shrunk: "shrunk (ss_lineages s) (ss_lineages (maybe_cleanup cfg now s))"
  by (cases rule: cleanup_cases [of cfg now s]) (simp_all add: shrunk_refl shrunk_without)

lemma discard_shrunk: "shrunk (ss_lineages s) (ss_lineages (discard_tracker key s))"
  using shrunk_without [of "ss_lineages s" "[key]"] by (simp add: discard_tracker_def Let_def)

lemma get_or_create_shrunk:
  assumes "get_or_create cfg now key provider ttl s = (t, s')"
  shows "shrunk (ss_lineages s) (ss_lineages s')"
proof -
  obtain s1 where "ss_lineages s' = ss_lineages (maybe_cleanup cfg now s1)"
    "ss_lineages s1 = ss_lineages s \<or> ss_lineages s1 = ss_lineages (discard_tracker key s)"
    using assms by (auto simp: get_or_create_def Let_def split: option.splits if_splits)
  then show ?thesis using cleanup_shrunk [of s1] discard_shrunk [of s key] shrunk_trans by metis
qed

lemma length_without: "length (without ks d) \<le> length d"
  by (simp add: without_def)

lemma length_without_less: "k \<in> fst ` set d \<Longrightarrow> k \<notin> fst ` set (without ks d) \<Longrightarrow> length (without ks d) < length d"
proof -
  assume "k \<in> fst ` set d" "k \<notin> fst ` set (without ks d)"
  then have "k \<in> set ks" using dom_without [of ks d] by blast
  moreover obtain v where "(k, v) \<in> set d" using \<open>k \<in> fst ` set d\<close> by fastforce
  ultimately show ?thesis unfolding without_def by (intro length_filter_less [of "(k, v)"]) auto
qed

text \<open>A lineage is entered only if it is in the family already or the family has room.\<close>

lemma family_update:
  assumes "lineages_ok cfg L" and "shrunk L L'" and "lineages_ok cfg L'" and "map_of L sid = Some fam"
    and "key \<in> fst ` set fam \<or> int (length fam) < fc_max_lineages cfg"
  defines "fam' \<equiv> (case map_of L' sid of Some f \<Rightarrow> f | None \<Rightarrow> [])"
  shows "distinct (map fst (AList.update key snap fam'))"
    and "int (length (AList.update key snap fam')) \<le> max 0 (fc_max_lineages cfg)"
proof -
  have fam: "(sid, fam) \<in> set L" "distinct (map fst fam)" "int (length fam) \<le> max 0 (fc_max_lineages cfg)"
    using assms(1,4) map_of_SomeD by (fastforce simp: lineages_ok_def)+
  have "\<exists>ks. fam' = without ks fam \<or> fam' = []"
  proof (cases "map_of L' sid")
    case (Some f)
    then obtain g ks where "(sid, g) \<in> set L" "f = without ks g"
      using assms(2) unfolding shrunk_def by (meson map_of_SomeD)
    moreover from this(1) have "g = fam" using fam(1) assms(1) by (metis eq_key_imp_eq_value lineages_ok_def)
    ultimately show ?thesis using Some by (auto simp: fam'_def)
  qed (simp add: fam'_def)
  then obtain ks where ks: "fam' = without ks fam \<or> fam' = []" by blast
  then have d: "distinct (map fst fam')" and len: "length fam' \<le> length fam"
    using fam(2) length_without [of ks fam] by auto
  have lost: "length fam' < length fam" if "key \<in> fst ` set fam" "key \<notin> fst ` set fam'"
    using ks that length_without_less [of key fam ks] by (cases fam) auto
  show "distinct (map fst (AList.update key snap fam'))" using d by (rule distinct_update)
  show "int (length (AList.update key snap fam')) \<le> max 0 (fc_max_lineages cfg)"
  proof (cases "map_of fam' key")
    case None
    then have "key \<notin> fst ` set fam'" by (simp add: map_of_eq_None_iff)
    then have "int (length fam') < max 0 (fc_max_lineages cfg)"
      using assms(5) lost fam(3) len by linarith
    then show ?thesis using None by (simp add: length_update)
  next
    case Some
    then show ?thesis using fam(3) len by (simp add: length_update)
  qed
qed

lemma prune_family_ok:
  assumes "prune_family cfg now sid s = (fam, s1)" and "sessions_ok cfg s"
  shows "sessions_ok cfg s1" and "distinct (map fst fam)"
proof -
  define fam0 where "fam0 = (case map_of (ss_lineages s) sid of Some f \<Rightarrow> f | None \<Rightarrow> [])"
  define ks where "ks = filter (\<lambda>k. peek cfg now k s = None) (map fst fam0)"
  have fam: "fam = without ks fam0" and s1: "s1 = s\<lparr>ss_lineages := AList.update sid fam (ss_lineages s),
      ss_affinities := without ks (ss_affinities s), ss_history := without ks (ss_history s),
      ss_trackers := without ks (ss_trackers s)\<rparr>"
    using assms(1) unfolding prune_family_def Let_def fam0_def [symmetric] ks_def [symmetric] by auto
  note d = sessions_okD [OF assms(2)]
  have "distinct (map fst fam0) \<and> int (length fam0) \<le> max 0 (fc_max_lineages cfg)"
    using d(2) by (auto simp: fam0_def lineages_ok_def split: option.splits dest: map_of_SomeD)
  then have "distinct (map fst fam)" "int (length fam) \<le> max 0 (fc_max_lineages cfg)"
    using length_without [of ks fam0] by (auto simp: fam)
  then show "distinct (map fst fam)" "sessions_ok cfg s1"
    using d(1,3-5) lineages_ok_update [OF d(2)] by (auto simp: s1 sessions_ok_def split: if_splits)
qed

lemma enter_lineage_ok:
  assumes "enter_lineage cfg now sid provider affinity ttl snap key bt s = (t, R, s')"
    and "sessions_ok cfg s" and "key_ok (ss_lineage_counter s) key"
    and "map_of (ss_lineages s) sid = Some fam"
    and "key \<in> fst ` set fam \<or> int (length fam) < fc_max_lineages cfg"
  shows "sessions_ok cfg s'" and "tracker_at s' key = Some t"
    and "\<exists>t1 s1. get_or_create cfg now key provider ttl s = (t1, s1)
      \<and> (\<forall>k. k \<noteq> key \<longrightarrow> tracker_at s' k = tracker_at s1 k)
      \<and> pt_state t = pt_state (resume_turn (case bt of Some n \<Rightarrow> Some n | None \<Rightarrow> latest_turn s1 key) t1)"
    and "R = Some (pt_id t, ss_turn_counter s, Some (pt_state t))"
    and "map_of (pt_turn_states t) (ss_turn_counter s) = Some None"
    and "\<exists>h. map_of (ss_history s') key = Some h \<and> (snap, ss_turn_counter s) \<in> set (take 2 h)
      \<and> distinct (map snd h) \<and> (\<forall>n \<in> set (map snd h). n < ss_turn_counter s')"
proof -
  obtain t1 s1 where g: "get_or_create cfg now key provider ttl s = (t1, s1)" by fastforce
  note ok = get_or_create_ok [OF g assms(2,3)] and cnt = get_or_create_counters [OF g]
  note d = sessions_okD [OF ok(1)]
  define origin where "origin = (case bt of Some n \<Rightarrow> Some n | None \<Rightarrow> latest_turn s1 key)"
  define fam1 where "fam1 = (case map_of (ss_lineages s1) sid of Some f \<Rightarrow> f | None \<Rightarrow> [])"
  define h0 where "h0 = (case map_of (ss_history s1) key of Some h \<Rightarrow> h | None \<Rightarrow> [])"
  define h where "h = push_turn snap (ss_turn_counter s) bt h0"
  define t2 where "t2 = (resume_turn origin t1)\<lparr>pt_turn_states := AList.update (ss_turn_counter s) None
      (filter (\<lambda>(n, _). n \<in> set (map snd h)) (pt_turn_states t1))\<rparr>"
  define L where "L = AList.update sid (AList.update key snap fam1) (ss_lineages s1)"
  have latest: "latest_turn (s1\<lparr>ss_lineages := x, ss_affinities := y\<rparr>) key = latest_turn s1 key" for x y
    by (simp add: latest_turn_def)
  have t: "t = t2" and R: "R = Some (pt_id t2, ss_turn_counter s, Some (pt_state t2))"
    and s': "s' = (put_tracker key t2
        (s1\<lparr>ss_lineages := L, ss_affinities := AList.update key affinity (ss_affinities s1)\<rparr>))
        \<lparr>ss_turn_counter := Suc (ss_turn_counter s), ss_history := AList.update key h (ss_history s1)\<rparr>"
    using assms(1) cnt unfolding enter_lineage_def g prod.case Let_def latest t2_def L_def h_def h0_def fam1_def origin_def
    by auto
  have "history_ok (ss_turn_counter s) h0"
    using d(5) [of key] cnt by (cases "map_of (ss_history s1) key") (auto simp: h0_def history_ok_def)
  then have h: "history_ok (Suc (ss_turn_counter s)) h" and newest: "(snap, ss_turn_counter s) \<in> set (take 2 h)"
    and new: "(snap, ss_turn_counter s) \<in> set h"
    using push_turn_spec [where h = h0 and n = "ss_turn_counter s" and snap = snap and b = bt]
      in_set_takeD by (auto simp: history_ok_def h_def)
  have t2: "ptracker_ok t2"
  proof -
    let ?f = "filter (\<lambda>(n, _). n \<in> set (map snd h)) (pt_turn_states t1)"
    have "distinct (map fst ?f)" using ok(5) by (auto simp: ptracker_ok_def intro: distinct_map_filter)
    then have d2: "distinct (map fst (pt_turn_states t2))" by (simp add: t2_def distinct_update)
    have "set (map fst (pt_turn_states t2)) \<subseteq> set (map snd h)"
      using new by (force simp: t2_def dom_update)
    then have "length (map fst (pt_turn_states t2)) \<le> length (map snd h)"
      using d2 by (metis card_mono card_length distinct_card le_trans List.finite_set)
    then show ?thesis using d2 h by (simp add: ptracker_ok_def history_ok_def)
  qed
  have L: "lineages_ok cfg L"
    unfolding L_def using lineages_ok_update [OF d(2)]
      family_update [OF sessions_okD(2) [OF assms(2)] get_or_create_shrunk [OF g] d(2) assms(4,5)]
    by (simp add: fam1_def)
  have lc: "ss_lineage_counter s' = ss_lineage_counter s" using cnt by (simp add: s' put_tracker_def)
  show "sessions_ok cfg s'"
  proof (rule sessions_okI)
    show "distinct (map fst (ss_trackers s'))" using d(1) by (simp add: s' put_tracker_def distinct_update)
    show "lineages_ok cfg (ss_lineages s')" using L by (simp add: s')
    show "key_ok (ss_lineage_counter s') k \<and> ptracker_ok x" if "tracker_at s' k = Some x" for k x
      using that t2 d(3,4) assms(3) cnt lc by (auto simp: s' put_tracker_def update_conv' split: if_splits)
    show "history_ok (ss_turn_counter s') x" if "map_of (ss_history s') k = Some x" for k x
      using that h d(5) [of k x] cnt by (auto simp: s' update_conv' history_ok_def less_Suc_eq split: if_splits)
  qed
  show "tracker_at s' key = Some t" using t by (simp add: s' put_tracker_def update_conv')
  show "R = Some (pt_id t, ss_turn_counter s, Some (pt_state t))" using R t by simp
  show "map_of (pt_turn_states t) (ss_turn_counter s) = Some None"
    by (simp add: t t2_def update_conv')
  show "\<exists>h. map_of (ss_history s') key = Some h \<and> (snap, ss_turn_counter s) \<in> set (take 2 h)
      \<and> distinct (map snd h) \<and> (\<forall>n \<in> set (map snd h). n < ss_turn_counter s')"
    using h newest by (simp add: s' update_conv' history_ok_def)
  show "\<exists>t1 s1. get_or_create cfg now key provider ttl s = (t1, s1)
      \<and> (\<forall>k. k \<noteq> key \<longrightarrow> tracker_at s' k = tracker_at s1 k)
      \<and> pt_state t = pt_state (resume_turn (case bt of Some n \<Rightarrow> Some n | None \<Rightarrow> latest_turn s1 key) t1)"
    using g t by (intro exI conjI) (auto simp: s' t2_def origin_def put_tracker_def update_conv')
qed

section \<open>Keys do not collide\<close>

lemma nul_split: "0 \<notin> set a \<Longrightarrow> 0 \<notin> set b \<Longrightarrow> a @ [0] @ x = b @ [0] @ y \<Longrightarrow> a = b \<and> x = (y :: pystr)"
  by (induction a arbitrary: b) (auto simp: Cons_eq_append_conv append_eq_Cons_conv)

lemma lineage_key_new:
  assumes "0 \<notin> set sid"
  shows "\<not> key_ok n (lineage_key sid n)"
proof
  assume "key_ok n (lineage_key sid n)"
  then obtain sid' where sid': "0 \<notin> set sid'"
    "lineage_key sid n = overflow_key sid' \<or> (\<exists>i < n. lineage_key sid n = lineage_key sid' i)"
    by (auto simp: key_ok_def lineage_key_def)
  then consider "show_nat n = u ''overflow''" | i where "i < n" "show_nat n = show_nat i"
    using nul_split [OF assms] by (auto simp: lineage_key_def overflow_key_def)
  then show False
  proof cases
    case 1
    then have "111 \<in> set (show_nat n)" by (simp add: u_def)
    then show ?thesis using show_nat_digits by fastforce
  next
    case 2
    then show ?thesis using show_nat_inject by blast
  qed
qed

lemma key_ok_mono: "key_ok m k \<Longrightarrow> m \<le> n \<Longrightarrow> key_ok n k"
  unfolding key_ok_def using order_less_le_trans [of _ m n] by blast

lemma key_okI [simp]:
  "0 \<notin> set sid \<Longrightarrow> key_ok n sid" "0 \<notin> set sid \<Longrightarrow> key_ok n (overflow_key sid)"
  "0 \<notin> set sid \<Longrightarrow> i < n \<Longrightarrow> key_ok n (lineage_key sid i)"
  unfolding key_ok_def by blast+

lemma sessions_ok_counter:
  "sessions_ok cfg s \<Longrightarrow> ss_lineage_counter s \<le> n \<Longrightarrow> sessions_ok cfg (s\<lparr>ss_lineage_counter := n\<rparr>)"
  by (rule sessions_okI) (auto dest: sessions_okD intro: key_ok_mono)

section \<open>Resolving a request\<close>

text \<open>What can happen: the session's or the overflow tracker is used, a lineage is continued, or a
  lineage is opened under the session id or under a new key.\<close>

lemma resolve_cases:
  assumes "resolve_tracker E cfg now sid provider messages affinity ttl R s = (t, R', s')"
  obtains (session) "get_or_create cfg now sid provider ttl s = (t, s')" "R' = R"
      "messages = None \<or> canonicalize_list (the messages) = [] \<or> \<not> fc_enabled cfg"
  | (overflow) fam s1 where "prune_family cfg now sid s = (fam, s1)" "fc_max_lineages cfg \<le> int (length fam)"
      "best_lineage E provider s1 affinity (canonicalize_list (the messages)) fam = None"
      "get_or_create cfg now (overflow_key sid) provider ttl s1 = (t, s')" "R' = R"
  | (continued) fam s1 key turn where "prune_family cfg now sid s = (fam, s1)"
      "best_lineage E provider s1 affinity (canonicalize_list (the messages)) fam = Some (key, turn)"
      "enter_lineage cfg now sid provider affinity ttl (canonicalize_list (the messages)) key turn s1 = (t, R', s')"
  | (opened) fam s1 key s2 where "prune_family cfg now sid s = (fam, s1)" "int (length fam) < fc_max_lineages cfg"
      "best_lineage E provider s1 affinity (canonicalize_list (the messages)) fam = None"
      "fam = [] \<and> key = sid \<and> s2 = s1 \<or>
       key = lineage_key sid (ss_lineage_counter s1) \<and> s2 = s1\<lparr>ss_lineage_counter := Suc (ss_lineage_counter s1)\<rparr>"
      "enter_lineage cfg now sid provider affinity ttl (canonicalize_list (the messages)) key None s2 = (t, R', s')"
proof (cases "messages = None \<or> canonicalize_list (the messages) = [] \<or> \<not> fc_enabled cfg")
  case True
  then have "get_or_create cfg now sid provider ttl s = (t, s') \<and> R' = R"
    using assms unfolding resolve_tracker_def Let_def
    by (cases messages; cases "get_or_create cfg now sid provider ttl s") (auto split: if_splits)
  then show thesis using session True by blast
next
  case False
  then obtain ms where ms: "messages = Some ms" "ms \<noteq> []" "canonicalize_list ms \<noteq> []" "fc_enabled cfg" by fastforce
  obtain fam s1 where p: "prune_family cfg now sid s = (fam, s1)" by fastforce
  let ?best = "best_lineage E provider s1 affinity (canonicalize_list ms) fam"
  show thesis
  proof (cases ?best)
    case (Some r)
    then show thesis using continued [OF p, of "fst r" "snd r"] assms ms p
      by (cases r) (simp add: resolve_tracker_def)
  next
    case None
    show thesis
    proof (cases "fc_max_lineages cfg \<le> int (length fam)")
      case True
      then show thesis using overflow [OF p] assms ms p None
        by (cases "get_or_create cfg now (overflow_key sid) provider ttl s1") (simp add: resolve_tracker_def)
    next
      case False
      then show thesis
        using opened [OF p, of sid s1] assms ms p None
          opened [OF p, of "lineage_key sid (ss_lineage_counter s1)" "s1\<lparr>ss_lineage_counter := Suc (ss_lineage_counter s1)\<rparr>"]
        by (cases "fam = []") (simp_all add: resolve_tracker_def)
    qed
  qed
qed

lemma resolve_ok:
  assumes "resolve_tracker E cfg now sid provider messages affinity ttl R s = (t, R', s')"
    and "sessions_ok cfg s" and "0 \<notin> set sid"
  shows "sessions_ok cfg s'"
  using assms(1)
proof (cases rule: resolve_cases)
  case session
  then show ?thesis using get_or_create_ok(1) assms(2,3) key_okI(1) by blast
next
  case (overflow fam s1)
  then show ?thesis using get_or_create_ok(1) prune_family_ok(1) assms(2,3) key_okI(2) by blast
next
  case (continued fam s1 key turn)
  have key: "key \<in> fst ` set fam"
    using best_lineage_sound [OF continued(2)] unfolding continues_def by blast
  then have "peek cfg now key s \<noteq> None" using prune_family_spec(1) [OF continued(1)] by blast
  then obtain t0 where "tracker_at s key = Some t0" by (auto simp: peek_Some)
  then have "key_ok (ss_lineage_counter s1) key"
    using sessions_okD(3) [OF assms(2)] prune_family_spec(5) [OF continued(1)] by simp
  then show ?thesis
    using enter_lineage_ok(1) [OF continued(3)] prune_family_ok(1) [OF continued(1) assms(2)]
      prune_family_spec(7) [OF continued(1)] key by blast
next
  case (opened fam s1 key s2)
  have s1: "sessions_ok cfg s1" by (rule prune_family_ok(1) [OF opened(1) assms(2)])
  then have "sessions_ok cfg s2" using opened(4) sessions_ok_counter by auto
  moreover have "key_ok (ss_lineage_counter s2) key" using opened(4) assms(3) by auto
  moreover have "map_of (ss_lineages s2) sid = Some fam" using prune_family_spec(7) [OF opened(1)] opened(4) by auto
  ultimately show ?thesis using enter_lineage_ok(1) [OF opened(5)] opened(2) by blast
qed

lemma record_turn_state_ok: "ptracker_ok t \<Longrightarrow> ptracker_ok (fst (record_turn_state R t))"
  by (auto simp: record_turn_state_def ptracker_ok_def length_update distinct_update split: option.splits)

lemma ptracker_ok_state [simp]:
  "ptracker_ok (t\<lparr>pt_state := st\<rparr>) = ptracker_ok t" "ptracker_ok (t\<lparr>pt_last_activity := now\<rparr>) = ptracker_ok t"
  by (simp_all add: ptracker_ok_def)

lemma update_from_response_ok:
  assumes "update_from_response U E now rd wr messages counts orig R t = ((t', R'), res)" and "ptracker_ok t"
  shows "ptracker_ok t'"
proof -
  have "\<exists>t1. ptracker_ok t1 \<and> (t' = t1 \<or> t' = fst (record_turn_state R t1))"
    using assms unfolding update_from_response_def Let_def
    by (auto split: if_splits sum.splits intro: exI [of _ "t\<lparr>pt_last_activity := x, pt_state := y\<rparr>" for x y]
        dest!: arg_cong [of "record_turn_state _ _" _ fst])
  then show ?thesis using record_turn_state_ok by blast
qed

lemma sessions_are_ok: "sessions U E cfg s \<Longrightarrow> sessions_ok cfg s"
proof (induction rule: sessions.induct)
  case (start now)
  show ?case by (simp add: sessions_ok_def new_session_store_def lineages_ok_def)
next
  case (resolve s sid now provider messages affinity ttl R t R' s')
  then show ?case using resolve_ok by blast
next
  case (respond s key t now rd wr messages counts orig R t' R' res)
  have "ptracker_ok t'"
    using update_from_response_ok [OF respond.hyps(3)] sessions_okD(4) [OF respond.IH respond.hyps(2)] .
  then show ?case using put_ok [OF respond.IH] sessions_okD(3) [OF respond.IH respond.hyps(2)] by blast
next
  case (returned s key t now original forwarded)
  then have "ptracker_ok (record_returned now original forwarded t)"
    using sessions_okD(4) by (fastforce simp: ptracker_ok_def record_returned_def)
  then show ?case using returned put_ok sessions_okD(3) by blast
qed

text \<open>The session store is bounded in every state that resolving requests and recording responses
  can reach: a session has at most \<open>max_lineages_per_session\<close> lineages, each with at most three
  snapshots of distinct turns, and a tracker keeps at most three turn states.\<close>

theorem session_store_bounded:
  assumes "sessions U E cfg s"
  shows "(\<forall>sid fam. map_of (ss_lineages s) sid = Some fam \<longrightarrow>
        distinct (map fst fam) \<and> int (length fam) \<le> max 0 (fc_max_lineages cfg)) \<and>
    (\<forall>k h. map_of (ss_history s) k = Some h \<longrightarrow> distinct (map snd h) \<and> length h \<le> 3) \<and>
    (\<forall>k t. tracker_at s k = Some t \<longrightarrow> length (pt_turn_states t) \<le> 3)"
proof -
  note d = sessions_okD [OF sessions_are_ok [OF assms]]
  have "distinct (map fst fam) \<and> int (length fam) \<le> max 0 (fc_max_lineages cfg)"
    if "map_of (ss_lineages s) sid = Some fam" for sid fam
    using d(2) map_of_SomeD [OF that] unfolding lineages_ok_def by blast
  then show ?thesis using d(4,5) by (simp add: history_ok_def ptracker_ok_def)
qed

section \<open>Conversations are isolated\<close>

text \<open>Any other tracker stays as it is, unless it had expired.\<close>

definition untouched_except :: "freeze_config \<Rightarrow> real \<Rightarrow> pystr \<Rightarrow> session_store \<Rightarrow> session_store \<Rightarrow> bool" where
  "untouched_except cfg now key s s' \<longleftrightarrow>
     (\<forall>k. k \<noteq> key \<longrightarrow> tracker_at s' k = tracker_at s k \<or> tracker_at s' k = None \<and> peek cfg now k s = None)"

lemma untouched_trans:
  assumes "\<And>k. tracker_at s1 k = tracker_at s k \<or> tracker_at s1 k = None \<and> peek cfg now k s = None"
    and "untouched_except cfg now key s1 s'"
  shows "untouched_except cfg now key s s'"
  unfolding untouched_except_def
proof (intro allI impI)
  fix k assume "k \<noteq> key"
  then have "tracker_at s' k = tracker_at s1 k \<or> tracker_at s' k = None \<and> peek cfg now k s1 = None"
    using assms(2) by (simp add: untouched_except_def)
  then show "tracker_at s' k = tracker_at s k \<or> tracker_at s' k = None \<and> peek cfg now k s = None"
    using assms(1) [of k] by (auto simp: peek_def)
qed

lemma get_or_create_untouched:
  assumes "get_or_create cfg now key provider ttl s = (t, s')" and "sessions_ok cfg s"
  shows "untouched_except cfg now key s s'"
  using get_or_create_others [OF assms(1) sessions_okD(1) [OF assms(2)]] by (simp add: untouched_except_def)

lemma enter_lineage_untouched:
  assumes "enter_lineage cfg now sid provider affinity ttl snap key bt s = (t, R, s')"
    and "sessions_ok cfg s" and "key_ok (ss_lineage_counter s) key"
    and "map_of (ss_lineages s) sid = Some fam"
    and "key \<in> fst ` set fam \<or> int (length fam) < fc_max_lineages cfg"
  shows "untouched_except cfg now key s s'"
  using enter_lineage_ok(3) [OF assms] get_or_create_untouched [OF _ assms(2)]
  unfolding untouched_except_def by metis

lemma enter_lineage_new:
  assumes "enter_lineage cfg now sid provider affinity ttl snap key bt s = (t, R, s')"
    and "sessions_ok cfg s" and "key_ok (ss_lineage_counter s) key"
    and "map_of (ss_lineages s) sid = Some fam"
    and "int (length fam) < fc_max_lineages cfg" and "peek cfg now key s = None"
  shows "pt_state t = initial_state"
proof -
  obtain t1 s1 x where "get_or_create cfg now key provider ttl s = (t1, s1)" "pt_state t = pt_state (resume_turn x t1)"
    using enter_lineage_ok(3) [OF assms(1-4)] assms(5) by blast
  then show ?thesis using get_or_create_new(1,2) [OF _ assms(6)] by (simp add: resume_turn_def split: option.splits)
qed

text \<open>C16: Requests of different conversations do not share cache state. Whatever its session id, a
  request gets the tracker under one key, and every other tracker stays as it was unless it had expired.
  The tracker it gets is the session's own when there is no lineage to tell conversations apart, the
  overflow tracker when the session is full, a fresh one under a key that was free, or that of a lineage with the same affinity whose
  recorded history the request continues.\<close>

theorem conversations_isolated:
  assumes "sessions U E cfg s" and "0 \<notin> set sid"
    and "resolve_tracker E cfg now sid provider (Some ms) affinity ttl R s = (t, R', s')"
    and "prune_family cfg now sid s = (live, s1)"
  shows "\<exists>key. tracker_at s' key = Some t \<and> untouched_except cfg now key s s' \<and>
    (key = sid \<and> (\<not> fc_enabled cfg \<or> canonicalize_list ms = [] \<or> live = [])
     \<or> key = overflow_key sid \<and> fc_max_lineages cfg \<le> int (length live)
     \<or> pt_state t = initial_state \<and> peek cfg now key s = None
     \<or> (\<exists>turn. continues provider s1 live affinity (canonicalize_list ms) key turn))"
  using assms(3)
proof (cases rule: resolve_cases)
  case session
  have ok: "sessions_ok cfg s" by (rule sessions_are_ok [OF assms(1)])
  have "key_ok (ss_lineage_counter s) sid" using assms(2) by simp
  then have "tracker_at s' sid = Some t" by (rule get_or_create_ok(2) [OF session(1) ok])
  moreover have "untouched_except cfg now sid s s'" by (rule get_or_create_untouched [OF session(1) ok])
  ultimately show ?thesis using session(3) by auto
next
  case (overflow fam r)
  have r: "fam = live" "r = s1" using overflow(1) assms(4) by auto
  have ok: "sessions_ok cfg s1" by (rule prune_family_ok(1) [OF assms(4) sessions_are_ok [OF assms(1)]])
  have "tracker_at s' (overflow_key sid) = Some t"
    using get_or_create_ok(2) [OF overflow(4)] ok assms(2) r by simp
  moreover have "untouched_except cfg now (overflow_key sid) s s'"
    using untouched_trans [OF prune_family_spec(2) [OF assms(4)]] get_or_create_untouched [OF overflow(4)] ok r by blast
  ultimately show ?thesis using overflow(2) r by blast
next
  case (continued fam r key turn)
  have r: "fam = live" "r = s1" using continued(1) assms(4) by auto
  have ok: "sessions_ok cfg s1" by (rule prune_family_ok(1) [OF assms(4) sessions_are_ok [OF assms(1)]])
  have c: "continues provider s1 live affinity (canonicalize_list ms) key turn"
    using best_lineage_sound [OF continued(2)] r by simp
  then have key: "key \<in> fst ` set live" unfolding continues_def by blast
  then have "peek cfg now key s \<noteq> None" using prune_family_spec(1) [OF assms(4)] by blast
  then obtain t0 where "tracker_at s1 key = Some t0"
    using prune_family_spec(3) [OF assms(4), of key] by (auto simp: peek_Some)
  then have "key_ok (ss_lineage_counter s1) key" by (rule sessions_okD(3) [OF ok])
  note e = continued(3) [unfolded r] ok this prune_family_spec(7) [OF assms(4)] disjI1 [OF key]
  have "untouched_except cfg now key s s'"
    using untouched_trans [OF prune_family_spec(2) [OF assms(4)]] enter_lineage_untouched [OF e] by blast
  then show ?thesis using enter_lineage_ok(2) [OF e] c by blast
next
  case (opened fam r key s2)
  have r: "fam = live" "r = s1" using opened(1) assms(4) by auto
  have ok1: "sessions_ok cfg s1" by (rule prune_family_ok(1) [OF assms(4) sessions_are_ok [OF assms(1)]])
  have ok: "sessions_ok cfg s2" using opened(4) sessions_ok_counter [OF ok1] ok1 r by auto
  have k: "key_ok (ss_lineage_counter s2) key" using opened(4) assms(2) by auto
  have L: "map_of (ss_lineages s2) sid = Some live" using prune_family_spec(7) [OF assms(4)] opened(4) r by auto
  have same: "tracker_at s2 k = tracker_at s1 k" for k using opened(4) r by auto
  note e = opened(5) ok k L disjI2 [OF opened(2) [unfolded r]]
  have "untouched_except cfg now key s s'"
    using untouched_trans [of s2 s cfg now key s'] prune_family_spec(2) [OF assms(4)] enter_lineage_untouched [OF e]
    by (simp add: same)
  moreover have "pt_state t = initial_state \<and> peek cfg now key s = None \<or> key = sid \<and> live = []"
  proof (cases "fam = [] \<and> key = sid \<and> s2 = s1")
    case False
    then have new: "key = lineage_key sid (ss_lineage_counter s1)" using opened(4) r by auto
    have "tracker_at s1 key = None"
      using lineage_key_new [OF assms(2)] sessions_okD(3) [OF ok1, of key] new by (cases "tracker_at s1 key") auto
    then have "peek cfg now key s2 = None" "peek cfg now key s = None"
      using prune_family_spec(2) [OF assms(4), of key] by (auto simp: peek_def same)
    then show ?thesis using enter_lineage_new [OF opened(5) ok k L] opened(2) r by auto
  qed (use r in auto)
  ultimately show ?thesis using enter_lineage_ok(2) [OF e] by blast
qed

section \<open>A turn survives its forks\<close>

text \<open>The request \<open>ms\<close> is matched to the turn \<open>turn\<close> of the lineage \<open>key\<close>.\<close>

definition matched_to ::
    "prefix_env \<Rightarrow> freeze_config \<Rightarrow> real \<Rightarrow> pystr \<Rightarrow> pystr \<Rightarrow> json list \<Rightarrow> pystr option \<Rightarrow> session_store
       \<Rightarrow> pystr \<Rightarrow> nat \<Rightarrow> bool" where
  "matched_to E cfg now sid provider ms affinity s key turn \<longleftrightarrow>
     fc_enabled cfg \<and> canonicalize_list ms \<noteq> [] \<and>
     (let (fam, s1) = prune_family cfg now sid s in
      best_lineage E provider s1 affinity (canonicalize_list ms) fam = Some (key, Some turn))"

lemma matched_keeps:
  assumes "kept key turn c S s" and "matched_to E cfg now sid provider ms affinity s key turn"
    and "resolve_tracker E cfg now sid provider (Some ms) affinity ttl R s = (t, R', s')"
  shows "kept key turn c S s'" and "request_turn_state R' t = S"
proof -
  obtain fam s1 where p: "prune_family cfg now sid s = (fam, s1)" by fastforce
  have m: "fc_enabled cfg" "canonicalize_list ms \<noteq> []"
    "best_lineage E provider s1 affinity (canonicalize_list ms) fam = Some (key, Some turn)"
    using assms(2) p by (auto simp: matched_to_def)
  have "ms \<noteq> []" using m(2) by auto
  then have e: "enter_lineage cfg now sid provider affinity ttl (canonicalize_list ms) key (Some turn) s1 = (t, R', s')"
    using assms(3) m p by (simp add: resolve_tracker_def)
  have "key \<in> fst ` set fam" using best_lineage_sound [OF m(3)] unfolding continues_def by blast
  then have pk: "peek cfg now key s \<noteq> None" using prune_family_spec(1) [OF p] by blast
  note same = prune_family_spec(3) [OF p pk]
  have "distinct (map fst (ss_trackers s1))"
    using assms(1) prune_family_spec(6) [OF p] by (simp add: kept_def)
  then have k1: "kept key turn c S s1"
    using kept_elsewhere [OF assms(1)] same prune_family_spec(4) [OF p] by simp
  have "peek cfg now key s1 \<noteq> None" using pk same by (simp add: peek_def)
  then show "kept key turn c S s'" "request_turn_state R' t = S" using fork_keeps [OF k1 _ e] by blast+
qed

text \<open>What can happen between a request and the next one that continues it: further requests matched
  to the same turn, the responses to any request but the first, and whatever leaves the lineage's
  tracker and history alone, as requests of other lineages and sessions do.\<close>

inductive meanwhile ::
    "ucd \<Rightarrow> prefix_env \<Rightarrow> freeze_config \<Rightarrow> pystr \<Rightarrow> nat \<Rightarrow> session_store \<Rightarrow> session_store \<Rightarrow> bool"
  for U E cfg key turn s where
  nothing: "meanwhile U E cfg key turn s s"
| fork: "meanwhile U E cfg key turn s s1 \<Longrightarrow> matched_to E cfg now sid provider ms affinity s1 key turn \<Longrightarrow>
    resolve_tracker E cfg now sid provider (Some ms) affinity ttl R s1 = (t, R', s2) \<Longrightarrow>
    meanwhile U E cfg key turn s s2"
| answer: "meanwhile U E cfg key turn s s1 \<Longrightarrow> tracker_at s1 key = Some t \<Longrightarrow>
    \<forall>i st. R \<noteq> Some (i, turn, st) \<Longrightarrow>
    update_from_response U E now rd wr messages counts orig R t = ((t', R'), res) \<Longrightarrow>
    meanwhile U E cfg key turn s (put_tracker key t' s1)"
| elsewhere: "meanwhile U E cfg key turn s s1 \<Longrightarrow> tracker_at s2 key = tracker_at s1 key \<Longrightarrow>
    map_of (ss_history s2) key = map_of (ss_history s1) key \<Longrightarrow> ss_turn_counter s1 \<le> ss_turn_counter s2 \<Longrightarrow>
    distinct (map fst (ss_trackers s2)) \<Longrightarrow> meanwhile U E cfg key turn s s2"

lemma meanwhile_keeps: "meanwhile U E cfg key turn s s' \<Longrightarrow> kept key turn c S s \<Longrightarrow> kept key turn c S s'"
proof (induction rule: meanwhile.induct)
  case (fork s1 now sid provider ms affinity ttl R t R' s2)
  then show ?case using matched_keeps(1) by blast
next
  case (answer s1 t R now rd wr messages counts orig t' R' res)
  have "map_of (pt_turn_states t') turn = map_of (pt_turn_states t) turn"
    using update_from_response_turn_states [OF answer.hyps(4), of turn] answer.hyps(3) by blast
  then show ?case using kept_answer answer by blast
next
  case (elsewhere s1 s2)
  then show ?case using kept_elsewhere by blast
qed

text \<open>A request that entered a lineage did so under a key of which the following holds.\<close>

lemma resolve_enters:
  assumes "sessions U E cfg s" and "0 \<notin> set sid"
    and "resolve_tracker E cfg now sid provider (Some ms) affinity ttl None s = (t, Some (i, turn, st), s1)"
  obtains key h where "tracker_at s1 key = Some t" and "i = pt_id t" and "map_of (pt_turn_states t) turn = Some None"
    and "map_of (ss_history s1) key = Some h" and "(canonicalize_list ms, turn) \<in> set (take 2 h)"
    and "distinct (map snd h)" and "\<forall>n \<in> set (map snd h). n < ss_turn_counter s1"
proof -
  note ok = sessions_are_ok [OF assms(1)]
  obtain key bt s2 fam where e: "enter_lineage cfg now sid provider affinity ttl (canonicalize_list ms) key bt s2
      = (t, Some (i, turn, st), s1)" "sessions_ok cfg s2" "key_ok (ss_lineage_counter s2) key"
    "map_of (ss_lineages s2) sid = Some fam" "key \<in> fst ` set fam \<or> int (length fam) < fc_max_lineages cfg"
    using assms(3)
  proof (cases rule: resolve_cases)
    case (continued fam s2 key turn)
    have key: "key \<in> fst ` set fam"
      using best_lineage_sound [OF continued(2)] unfolding continues_def by blast
    then have "peek cfg now key s \<noteq> None" using prune_family_spec(1) [OF continued(1)] by blast
    then obtain t0 where "tracker_at s key = Some t0" by (auto simp: peek_Some)
    then have "key_ok (ss_lineage_counter s2) key"
      using sessions_okD(3) [OF ok] prune_family_spec(5) [OF continued(1)] by simp
    then show thesis
      using that [of key turn s2 fam] continued(3) prune_family_ok(1) [OF continued(1) ok]
        prune_family_spec(7) [OF continued(1)] key by simp
  next
    case (opened fam s2 key s3)
    have "sessions_ok cfg s3"
      using opened(4) prune_family_ok(1) [OF opened(1) ok] sessions_ok_counter by auto
    moreover have "key_ok (ss_lineage_counter s3) key" using opened(4) assms(2) by auto
    moreover have "map_of (ss_lineages s3) sid = Some fam" using prune_family_spec(7) [OF opened(1)] opened(4) by auto
    ultimately show thesis using that opened(2,5) by auto
  qed simp_all
  have turn: "turn = ss_turn_counter s2" "i = pt_id t" using enter_lineage_ok(4) [OF e] by simp_all
  obtain h where "map_of (ss_history s1) key = Some h" "(canonicalize_list ms, turn) \<in> set (take 2 h)"
    "distinct (map snd h)" "\<forall>n \<in> set (map snd h). n < ss_turn_counter s1"
    using enter_lineage_ok(6) [OF e] turn by blast
  then show thesis
    using that enter_lineage_ok(2,5) [OF e] turn by blast
qed

lemma answered_kept:
  assumes "sessions U E cfg s" and "0 \<notin> set sid"
    and "resolve_tracker E cfg now sid provider (Some ms) affinity ttl None s = (t, Some (i, turn, st), s1)"
    and "update_from_response U E now1 rd wr messages counts orig (Some (i, turn, st)) t = ((t1, R1), Inr ())"
  obtains key where "tracker_at s1 key = Some t"
    and "kept key turn (canonicalize_list ms) (pt_state t1) (put_tracker key t1 s1)"
    and "ts_forwarded (pt_state t1) = messages"
proof -
  obtain key h where k: "tracker_at s1 key = Some t" "i = pt_id t" "map_of (pt_turn_states t) turn = Some None"
    "map_of (ss_history s1) key = Some h" "(canonicalize_list ms, turn) \<in> set (take 2 h)"
    "distinct (map snd h)" "\<forall>n \<in> set (map snd h). n < ss_turn_counter s1"
    by (rule resolve_enters [OF assms(1-3)])
  have "map_of (pt_turn_states t) turn \<noteq> None" using k(3) by simp
  note t1 = update_from_response_records [OF assms(4) [unfolded k(2)] this]
  have "distinct (map fst (ss_trackers s1))"
    using sessions_okD(1) [OF resolve_ok [OF assms(3) sessions_are_ok [OF assms(1)] assms(2)]] .
  then have "kept key turn (canonicalize_list ms) (pt_state t1) (put_tracker key t1 s1)"
    using k(4-7) t1(1) distinct_trackers(3) [of s1 key t1] by (simp add: kept_def)
  then show thesis using that k(1) t1(2) by blast
qed

text \<open>C6: Forks of a conversation do not cost it its cached prefix. Once a request has been answered,
  every later request that is matched to it (the next turn, a side query, a summary) resumes exactly
  the state its response left: the messages forwarded for it are what is replayed. This holds after any
  number of other requests matched to the same turn, in any order with their responses, and whatever
  happens in other lineages and sessions.\<close>

theorem turn_survives_forks:
  assumes "sessions U E cfg s" and "0 \<notin> set sid"
    and "resolve_tracker E cfg now sid provider (Some ms) affinity ttl None s = (t, Some (i, turn, st), s1)"
    and "update_from_response U E now1 rd wr messages counts orig (Some (i, turn, st)) t = ((t1, R1), Inr ())"
  shows "\<exists>key. tracker_at s1 key = Some t \<and>
    (\<forall>s2 now2 ms2 ttl2 R t2 R2 s3.
       meanwhile U E cfg key turn (put_tracker key t1 s1) s2 \<longrightarrow>
       matched_to E cfg now2 sid provider ms2 affinity s2 key turn \<longrightarrow>
       resolve_tracker E cfg now2 sid provider (Some ms2) affinity ttl2 R s2 = (t2, R2, s3) \<longrightarrow>
       request_turn_state R2 t2 = pt_state t1 \<and> get_last_forwarded_messages R2 t2 = messages)"
proof -
  obtain key where k: "tracker_at s1 key = Some t"
    and kept: "kept key turn (canonicalize_list ms) (pt_state t1) (put_tracker key t1 s1)"
    and fwd: "ts_forwarded (pt_state t1) = messages"
    by (rule answered_kept [OF assms])
  show ?thesis
  proof (intro exI [of _ key] conjI allI impI)
    show "tracker_at s1 key = Some t" by (rule k)
    fix s2 now2 ms2 ttl2 R t2 R2 s3
    assume m: "meanwhile U E cfg key turn (put_tracker key t1 s1) s2"
      "matched_to E cfg now2 sid provider ms2 affinity s2 key turn"
      "resolve_tracker E cfg now2 sid provider (Some ms2) affinity ttl2 R s2 = (t2, R2, s3)"
    show "request_turn_state R2 t2 = pt_state t1"
      by (rule matched_keeps(2) [OF meanwhile_keeps [OF m(1) kept] m(2,3)])
    then show "get_last_forwarded_messages R2 t2 = messages"
      by (simp add: get_last_forwarded_messages_def fwd)
  qed
qed

section \<open>A concrete conversation\<close>

definition chat_turn :: "nat \<Rightarrow> json list" where
  "chat_turn n = take n [said ''user'' ''a'', said ''assistant'' ''b'', said ''user'' ''c'', said ''user'' ''d'']"

definition chat_open :: "ptracker \<times> resolved \<times> session_store" where
  "chat_open = resolve_tracker plain_env default_freeze_config 0 (u ''s'') (u ''openai'') (Some (chat_turn 1)) None None
     None (new_session_store 0)"

definition said_blocks :: "string \<Rightarrow> string \<Rightarrow> json" where
  "said_blocks role s = JObj [(u ''role'', JStr (u role)), (u ''content'', JList [text_block (u s)])]"

lemma canonicalize_said [simp]: "canonicalize (said role s) = said_blocks role s"
  by (simp add: said_def said_blocks_def NON_SEMANTIC_KEYS_def OPAQUE_PAYLOAD_KEYS_def)

lemma said_blocks_eq [simp]:
  "json_eq (said_blocks r s) (said_blocks r' s') = (r = r' \<and> s = s')" "said_blocks r s \<noteq> JObj []"
  by (auto simp: said_blocks_def text_block_def)

lemmas lookup_defs = get_or_create_def peek_def maybe_cleanup_def put_tracker_def tracker_expired_def
  is_expired_for_cache_ttl_def retention_seconds_def or_zero_def Let_def

definition chat_tracker :: ptracker where
  "chat_tracker = (new_ptracker 0 (u ''openai'') 0)\<lparr>pt_turn_states := [(1, None)]\<rparr>"

lemma chat_open_eval:
  "chat_open = (chat_tracker, Some (0, 1, Some initial_state),
     \<lparr>ss_trackers = [(u ''s'', chat_tracker)], ss_last_cleanup = 0,
       ss_lineages = [(u ''s'', [(u ''s'', canonicalize_list (chat_turn 1))])], ss_affinities = [(u ''s'', None)],
       ss_lineage_counter = 1, ss_history = [(u ''s'', [(canonicalize_list (chat_turn 1), 1)])],
       ss_turn_counter = 2, ss_next_id = 1\<rparr>)"
  by (simp add: chat_open_def resolve_tracker_def default_freeze_config_def chat_turn_def prune_family_def
      new_session_store_def best_lineage_def lineage_match_def latest_candidates_def fork_candidates_def
      rewrite_candidates_def tail_candidates_def longest_first_def unique_best_def map_filter_simps
      enter_lineage_def push_turn_def LINEAGE_HISTORY_def latest_turn_def resume_turn_def chat_tracker_def
      new_ptracker_def initial_state_def observe_cache_ttl_def lookup_defs)

text \<open>The first request is answered, a side query forks off it, then the next turn comes.\<close>

definition chat_fork :: "json list" where
  "chat_fork = [said ''user'' ''a'', said ''user'' ''side'']"

definition chat_reply :: "(ptracker \<times> resolved) \<times> (py_error + unit)" where
  "chat_reply = update_from_response ascii_ucd plain_env 1 0 2000 [said ''user'' ''A''] (Some [5]) None
     (Some (0, 1, Some initial_state)) chat_tracker"

definition chat_state :: turn_state where
  "chat_state = \<lparr>ts_turn_number = 1, ts_cached_tokens = 2000, ts_cached_messages = 1,
     ts_original = [said ''user'' ''A''], ts_forwarded = [said ''user'' ''A'']\<rparr>"

definition chat_answered :: session_store where
  "chat_answered = put_tracker (u ''s'') (fst (fst chat_reply)) (snd (snd chat_open))"

definition chat_forked :: "ptracker \<times> resolved \<times> session_store" where
  "chat_forked = resolve_tracker plain_env default_freeze_config 2 (u ''s'') (u ''openai'') (Some chat_fork) None None
     None chat_answered"

lemma chat_reply_eval:
  "chat_reply = ((chat_tracker\<lparr>pt_last_activity := 1, pt_state := chat_state,
     pt_turn_states := [(1, Some chat_state)]\<rparr>, Some (0, 1, None)), Inr ())"
  by (simp add: chat_reply_def update_from_response_def record_turn_state_def chat_tracker_def new_ptracker_def
      chat_state_def Let_def)

lemmas match_defs = prune_family_def best_lineage_def lineage_match_def latest_candidates_def longest_first_def
  latest_turn_def same_affinity_def classify_history_canonical_def relation_def

lemma chat_answered_eval:
  "chat_answered = \<lparr>ss_trackers = [(u ''s'', chat_tracker\<lparr>pt_last_activity := 1, pt_state := chat_state,
       pt_turn_states := [(1, Some chat_state)]\<rparr>)], ss_last_cleanup = 0,
     ss_lineages = [(u ''s'', [(u ''s'', [said_blocks ''user'' ''a''])])], ss_affinities = [(u ''s'', None)],
     ss_lineage_counter = 1, ss_history = [(u ''s'', [([said_blocks ''user'' ''a''], 1)])],
     ss_turn_counter = 2, ss_next_id = 1\<rparr>"
  by (simp add: chat_answered_def chat_reply_eval chat_open_eval put_tracker_def chat_turn_def)

lemma chat_fork_matched:
  "matched_to plain_env default_freeze_config 2 (u ''s'') (u ''openai'') chat_fork None chat_answered (u ''s'') 1"
  by (simp add: matched_to_def chat_answered_eval chat_fork_def default_freeze_config_def chat_tracker_def
      new_ptracker_def match_defs lookup_defs without_def)

lemma chat_forked_eval:
  "snd (snd chat_forked) = \<lparr>ss_trackers = [(u ''s'', chat_tracker\<lparr>pt_last_activity := 2, pt_idle_at_fetch := 1,
       pt_state := chat_state, pt_turn_states := [(1, Some chat_state), (2, None)]\<rparr>)], ss_last_cleanup = 0,
     ss_lineages = [(u ''s'', [(u ''s'', [said_blocks ''user'' ''a'', said_blocks ''user'' ''side''])])],
     ss_affinities = [(u ''s'', None)], ss_lineage_counter = 1,
     ss_history = [(u ''s'', [([said_blocks ''user'' ''a'', said_blocks ''user'' ''side''], 2),
       ([said_blocks ''user'' ''a''], 1)])],
     ss_turn_counter = 3, ss_next_id = 1\<rparr>"
  by (simp add: chat_forked_def resolve_tracker_def chat_answered_eval chat_fork_def default_freeze_config_def
      chat_tracker_def new_ptracker_def match_defs lookup_defs without_def enter_lineage_def push_turn_def
      LINEAGE_HISTORY_def resume_turn_def observe_cache_ttl_def)

lemma chat_next_matched:
  "matched_to plain_env default_freeze_config 3 (u ''s'') (u ''openai'') (chat_turn 3) None (snd (snd chat_forked))
     (u ''s'') 1"
  by (simp add: matched_to_def chat_forked_eval chat_turn_def default_freeze_config_def chat_tracker_def
      new_ptracker_def match_defs lookup_defs without_def fork_candidates_def changed_message_def
      said_blocks_def text_block_def message_fields_outside_content_def)

lemma chat_forked_meanwhile:
  "meanwhile ascii_ucd plain_env default_freeze_config (u ''s'') 1 chat_answered (snd (snd chat_forked))"
proof (rule meanwhile.fork [OF meanwhile.nothing chat_fork_matched])
  show "resolve_tracker plain_env default_freeze_config 2 (u ''s'') (u ''openai'') (Some chat_fork) None None None
      chat_answered = (fst chat_forked, fst (snd chat_forked), snd (snd chat_forked))"
    by (simp add: chat_forked_def)
qed

lemma chat_sessions: "sessions U E cfg (new_session_store 0)"
  by (rule sessions.start)

theorem turn_survives_forks_witness:
  "let (t, R, s) = resolve_tracker plain_env default_freeze_config 3 (u ''s'') (u ''openai'') (Some (chat_turn 3))
       None None None (snd (snd chat_forked))
   in get_last_forwarded_messages R t = [said ''user'' ''A'']"
proof -
  have open': "resolve_tracker plain_env default_freeze_config 0 (u ''s'') (u ''openai'') (Some (chat_turn 1)) None None
      None (new_session_store 0) = (chat_tracker, Some (0, 1, Some initial_state), snd (snd chat_open))"
    using chat_open_eval by (simp add: chat_open_def)
  have nul: "0 \<notin> set (u ''s'')" by (simp add: u_def)
  have reply: "update_from_response ascii_ucd plain_env 1 0 2000 [said ''user'' ''A''] (Some [5]) None
      (Some (0, 1, Some initial_state)) chat_tracker = ((fst (fst chat_reply), snd (fst chat_reply)), Inr ())"
    using chat_reply_eval by (simp add: chat_reply_def)
  obtain key where key: "tracker_at (snd (snd chat_open)) key = Some chat_tracker"
    and later: "\<forall>s2 now2 ms2 ttl2 R t2 R2 s3.
       meanwhile ascii_ucd plain_env default_freeze_config key 1
         (put_tracker key (fst (fst chat_reply)) (snd (snd chat_open))) s2 \<longrightarrow>
       matched_to plain_env default_freeze_config now2 (u ''s'') (u ''openai'') ms2 None s2 key 1 \<longrightarrow>
       resolve_tracker plain_env default_freeze_config now2 (u ''s'') (u ''openai'') (Some ms2) None ttl2 R s2
         = (t2, R2, s3) \<longrightarrow>
       request_turn_state R2 t2 = pt_state (fst (fst chat_reply)) \<and>
       get_last_forwarded_messages R2 t2 = [said ''user'' ''A'']"
    using turn_survives_forks [OF chat_sessions nul open' reply] by (elim exE conjE)
  have "key = u ''s''" using key by (simp add: chat_open_eval split: if_splits)
  then show ?thesis
    using later chat_next_matched chat_forked_meanwhile unfolding chat_answered_def by (auto split: prod.split)
qed

lemma chat_reached:
  "sessions ascii_ucd plain_env default_freeze_config chat_answered"
  "sessions ascii_ucd plain_env default_freeze_config (snd (snd chat_forked))"
proof -
  have nul: "0 \<notin> set (u ''s'')" by (simp add: u_def)
  have first: "sessions ascii_ucd plain_env default_freeze_config (snd (snd chat_open))"
    by (rule sessions.resolve [OF chat_sessions nul]) (simp add: chat_open_def prod_eq_iff)
  have "update_from_response ascii_ucd plain_env 1 0 2000 [said ''user'' ''A''] (Some [5]) None
      (Some (0, 1, Some initial_state)) chat_tracker = ((fst (fst chat_reply), snd (fst chat_reply)), snd chat_reply)"
    by (simp add: chat_reply_def)
  moreover have "tracker_at (snd (snd chat_open)) (u ''s'') = Some chat_tracker" by (simp add: chat_open_eval)
  ultimately show answered: "sessions ascii_ucd plain_env default_freeze_config chat_answered"
    unfolding chat_answered_def using sessions.respond [OF first] by blast
  show "sessions ascii_ucd plain_env default_freeze_config (snd (snd chat_forked))"
    by (rule sessions.resolve [OF answered nul]) (simp add: chat_forked_def prod_eq_iff)
qed

theorem session_store_bounded_witness:
  "length (the (map_of (ss_history (snd (snd chat_forked))) (u ''s''))) \<le> 3
   \<and> int (length (the (map_of (ss_lineages (snd (snd chat_forked))) (u ''s'')))) \<le> 32"
  using session_store_bounded [OF chat_reached(2)]
  by (simp add: chat_forked_eval default_freeze_config_def)

theorem conversations_isolated_witness:
  "let (t, R, s') = resolve_tracker plain_env default_freeze_config 2 (u ''s'') (u ''openai'')
       (Some [said ''user'' ''other'']) None None None chat_answered
   in pt_state t = initial_state \<and> tracker_at s' (u ''s'') = tracker_at chat_answered (u ''s'')"
proof -
  have nul: "0 \<notin> set (u ''s'')" by (simp add: u_def)
  let ?fam = "[(u ''s'', [said_blocks ''user'' ''a''])]"
  have prune: "prune_family default_freeze_config 2 (u ''s'') chat_answered = (?fam, chat_answered)"
    by (simp add: prune_family_def chat_answered_eval chat_tracker_def new_ptracker_def default_freeze_config_def
        lookup_defs without_def)
  obtain t R s' where r: "resolve_tracker plain_env default_freeze_config 2 (u ''s'') (u ''openai'')
      (Some [said ''user'' ''other'']) None None None chat_answered = (t, R, s')" by (cases rule: prod_cases3)
  obtain key where key: "tracker_at s' key = Some t" "untouched_except default_freeze_config 2 key chat_answered s'"
    and why: "key = u ''s'' \<and> (\<not> fc_enabled default_freeze_config \<or> canonicalize_list [said ''user'' ''other''] = [] \<or> ?fam = [])
       \<or> key = overflow_key (u ''s'') \<and> fc_max_lineages default_freeze_config \<le> int (length ?fam)
       \<or> pt_state t = initial_state \<and> peek default_freeze_config 2 key chat_answered = None
       \<or> (\<exists>turn. continues (u ''openai'') chat_answered ?fam None (canonicalize_list [said ''user'' ''other'']) key turn)"
    using conversations_isolated [OF chat_reached(1) nul r prune] by (elim exE conjE)
  have "\<not> continues (u ''openai'') chat_answered ?fam None (canonicalize_list [said ''user'' ''other'']) key turn" for turn
    by (auto simp: continues_def chat_answered_eval classify_history_canonical_def changed_message_def relation_def
        said_blocks_def text_block_def message_fields_outside_content_def Let_def MIN_REWRITE_PREFIX_BLOCKS_def)
  then have fresh: "pt_state t = initial_state" "peek default_freeze_config 2 key chat_answered = None"
    using why by (auto simp: default_freeze_config_def)
  have live: "peek default_freeze_config 2 (u ''s'') chat_answered \<noteq> None"
    by (simp add: chat_answered_eval chat_tracker_def new_ptracker_def default_freeze_config_def lookup_defs)
  then have "key \<noteq> u ''s''" using fresh(2) by auto
  then show ?thesis using fresh(1) key(2) live r unfolding untouched_except_def by auto
qed

end
