(* ===== verification/Prefix_State.thy ===== *)
theory Prefix_State
  imports Prefix_Sessions Compression_Store Compression_Cache
begin

text \<open>
  A graceful restart: \<open>SessionTrackerStore.save_state\<close> and \<open>load_state\<close> of
  \<open>headroom/cache/prefix_tracker.py\<close> with the functions they call, the exchange of single trackers
  between processes, and the seeding of the compression cache on a restored tracker's first request.
  The CCR entries the saved messages refer to travel with them.

  The file is its text, or \<open>None\<close> when there is none. \<open>json.dumps\<close> is \<open>dumps_text\<close>;
  \<open>json.loads\<close>, \<open>float.__repr__\<close> and the number a time is written as are the record
  \<open>file_env\<close>. \<open>stateless\<close> is the answer of \<open>persistence_allowed\<close>; whether the
  operating system lets the file be written or removed are arguments too. Decoding follows the code on
  everything JSON can spell with two exceptions, for which the result is \<open>Foreign\<close> and nothing is
  claimed: values of a type that \<open>save_state\<close> never writes and Python would convert (\<open>int("7")\<close>,
  \<open>float(True)\<close>, iterating over a string), and the state of a read maturation manager (for which see \<open>Read_Maturation\<close>).
\<close>

record file_env =
  fe_float_repr :: "rat \<Rightarrow> pystr"
  fe_seconds :: "real \<Rightarrow> rat"
  fe_loads :: "pystr \<Rightarrow> json option"

section \<open>Writing\<close>

text \<open>\<open>index.setdefault(blob, len(index))\<close>: the table of messages written so far, each as its text.\<close>

fun position :: "'a \<Rightarrow> 'a list \<Rightarrow> nat option" where
  "position x [] = None"
| "position x (y # ys) = (if x = y then Some 0 else map_option Suc (position x ys))"

definition intern :: "pystr \<Rightarrow> pystr list \<Rightarrow> nat \<times> pystr list" where
  "intern blob table =
     (case position blob table of Some i \<Rightarrow> (i, table) | None \<Rightarrow> (length table, table @ [blob]))"

fun ref :: "(rat \<Rightarrow> pystr) \<Rightarrow> json list \<Rightarrow> pystr list \<Rightarrow> json list \<times> pystr list" where
  "ref F [] table = ([], table)"
| "ref F (m # ms) table =
     (let (i, table1) = intern (dumps_text F m) table; (is, table2) = ref F ms table1
      in (JInt (int i) # is, table2))"

definition state_part :: "(rat \<Rightarrow> pystr) \<Rightarrow> turn_state \<Rightarrow> pystr list \<Rightarrow> json \<times> pystr list" where
  "state_part F st table =
     (let (os, table1) = ref F (ts_original st) table; (fs, table2) = ref F (ts_forwarded st) table1
      in (JList [JInt (int (ts_turn_number st)), JInt (ts_cached_tokens st), JInt (int (ts_cached_messages st)),
            JList os, JList fs], table2))"

fun turns_part :: "(rat \<Rightarrow> pystr) \<Rightarrow> (nat \<times> turn_state option) list \<Rightarrow> pystr list \<Rightarrow> json list \<times> pystr list" where
  "turns_part F [] table = ([], table)"
| "turns_part F ((n, None) # turns) table = turns_part F turns table"
| "turns_part F ((n, Some st) # turns) table =
     (let (j, table1) = state_part F st table; (js, table2) = turns_part F turns table1
      in (JList [JInt (int n), j] # js, table2))"

fun history_part :: "(rat \<Rightarrow> pystr) \<Rightarrow> (chain \<times> nat) list \<Rightarrow> pystr list \<Rightarrow> json list \<times> pystr list" where
  "history_part F [] table = ([], table)"
| "history_part F ((snap, n) # h) table =
     (let (is, table1) = ref F snap table; (js, table2) = history_part F h table1
      in (JList [JList is, JInt (int n)] # js, table2))"

definition opt_str :: "pystr option \<Rightarrow> json" where
  "opt_str v = (case v of None \<Rightarrow> JNull | Some s \<Rightarrow> JStr s)"

definition opt_int :: "int option \<Rightarrow> json" where
  "opt_int v = (case v of None \<Rightarrow> JNull | Some n \<Rightarrow> JInt n)"

definition tracker_parts ::
    "file_env \<Rightarrow> session_store \<Rightarrow> pystr \<Rightarrow> ptracker \<Rightarrow> pystr option \<Rightarrow> pydict \<times> pystr list" where
  "tracker_parts V s key t sid =
     (let F = fe_float_repr V;
          (state, table1) = state_part F (pt_state t) [];
          (turns, table2) = turns_part F (pt_turn_states t) table1;
          (hist, table3) = history_part F (case map_of (ss_history s) key of Some h \<Rightarrow> h | None \<Rightarrow> []) table2 in
      ([(u ''key'', JStr key), (u ''session'', opt_str sid),
        (u ''affinity'', opt_str (Option.bind (map_of (ss_affinities s) key) id)),
        (u ''provider'', JStr (pt_provider t)), (u ''last_activity'', JFloat (fe_seconds V (pt_last_activity t))),
        (u ''cache_ttl'', opt_int (pt_cache_ttl t)), (u ''state'', state), (u ''turns'', JList turns),
        (u ''history'', JList hist), (u ''maturation'', JNull)],
       table3))"

definition entry_text :: "file_env \<Rightarrow> pydict \<times> pystr list \<Rightarrow> pystr" where
  "entry_text V = (\<lambda>(meta, table).
     u ''{\"meta\":'' @ dumps_text (fe_float_repr V) (JObj meta) @ u '',\"messages\":['' @ join (u '','') table @ u '']}'')"

text \<open>\<open>_CCR_HASH_RE.findall(text)\<close>.\<close>

definition is_lower_hex :: "nat \<Rightarrow> bool" where
  "is_lower_hex c \<longleftrightarrow> 48 \<le> c \<and> c \<le> 57 \<or> 97 \<le> c \<and> c \<le> 102"

definition ccr_match :: "pystr \<Rightarrow> (pystr \<times> pystr) option" where
  "ccr_match s =
     (let r = (if startswith s (u ''hash='') then drop 5 s else if startswith s (u ''<<ccr:'') then drop 6 s else []);
          h = take 24 (takeWhile is_lower_hex r) in
      if length h < 12 then None else Some (h, drop (length h) r))"

lemma ccr_match_shorter: "ccr_match s = Some (h, rest) \<Longrightarrow> length rest < length s"
  using length_takeWhile_le [of is_lower_hex "drop 5 s"] length_takeWhile_le [of is_lower_hex "drop 6 s"]
  by (auto simp: ccr_match_def Let_def split: if_splits)

function ccr_hashes :: "pystr \<Rightarrow> pystr list" where
  "ccr_hashes s =
     (case ccr_match s of
        Some (h, rest) \<Rightarrow> h # ccr_hashes rest
      | None \<Rightarrow> (case s of [] \<Rightarrow> [] | _ # r \<Rightarrow> ccr_hashes r))"
  by auto
termination
  by (relation "measure length") (auto dest: ccr_match_shorter)

declare ccr_hashes.simps [simp del]

text \<open>\<open>asdict(entry)\<close>.\<close>

definition ccr_record :: "file_env \<Rightarrow> compression_entry \<Rightarrow> json" where
  "ccr_record V e = JObj
     [(u ''hash'', JStr (ce_hash e)), (u ''original_content'', JStr (original_content e)),
      (u ''compressed_content'', JStr (compressed_content e)), (u ''original_tokens'', JInt (original_tokens e)),
      (u ''compressed_tokens'', JInt (compressed_tokens e)),
      (u ''original_item_count'', JInt (original_item_count e)),
      (u ''compressed_item_count'', JInt (compressed_item_count e)), (u ''tool_name'', opt_str (ce_tool_name e)),
      (u ''tool_call_id'', opt_str (ce_tool_call_id e)), (u ''query_context'', opt_str (ce_query_context e)),
      (u ''created_at'', JFloat (fe_seconds V (created_at e))), (u ''ttl'', JInt (ce_ttl e)),
      (u ''tool_signature_hash'', opt_str (ce_tool_signature_hash e)),
      (u ''compression_strategy'', opt_str (ce_compression_strategy e)),
      (u ''retrieval_count'', JInt (retrieval_count e)), (u ''search_queries'', JList (map JStr (search_queries e))),
      (u ''last_accessed'', (case last_accessed e of None \<Rightarrow> JNull | Some t \<Rightarrow> JFloat (fe_seconds V t)))]"

definition PREFIX_STATE_MAX_TRACKERS :: nat where "PREFIX_STATE_MAX_TRACKERS = 256"
definition PREFIX_STATE_MAX_BYTES :: nat where "PREFIX_STATE_MAX_BYTES = 64 * 1024 * 1024"

definition session_of :: "session_store \<Rightarrow> pystr \<Rightarrow> pystr option" where
  "session_of s key = map_of (rev (concat (map (\<lambda>(sid, fam). map (\<lambda>(k, _). (k, sid)) fam) (ss_lineages s)))) key"

definition live_trackers :: "freeze_config \<Rightarrow> real \<Rightarrow> session_store \<Rightarrow> (pystr \<times> ptracker) list" where
  "live_trackers cfg now s =
     sort_key (\<lambda>(_, t). - pt_last_activity t) (filter (\<lambda>(_, t). \<not> tracker_expired cfg now t) (ss_trackers s))"

text \<open>The loop of \<open>save_state\<close>; \<open>(entries, ccr, size)\<close> is its state.\<close>

type_synonym packed = "(pydict \<times> pystr list) list \<times> (pystr, json) odict \<times> nat"

definition new_records ::
    "file_env \<Rightarrow> 'b backend_ops \<Rightarrow> real \<Rightarrow> 'b cstore \<Rightarrow> pystr \<Rightarrow> (pystr, json) odict \<Rightarrow> (pystr, json) odict" where
  "new_records V B now cc entry ccr =
     (let refs = filter (\<lambda>h. map_of ccr h = None) (rev (remdups (rev (ccr_hashes entry))));
          records = (if refs = [] then [] else export_entries B now cc refs) in
      fold (\<lambda>e. AList.update (ce_hash e) (ccr_record V e)) records [])"

definition pack ::
    "file_env \<Rightarrow> 'b backend_ops \<Rightarrow> real \<Rightarrow> 'b cstore \<Rightarrow> session_store \<Rightarrow> pystr \<times> ptracker \<Rightarrow> packed \<Rightarrow> packed" where
  "pack V B now cc s = (\<lambda>(key, t) (entries, ccr, size).
     let parts = tracker_parts V s key t (session_of s key);
         entry = entry_text V parts;
         payloads = new_records V B now cc entry ccr;
         grow = length entry + sum_list (map (\<lambda>(_, p). length (dumps_text (fe_float_repr V) p) + 1) payloads) in
     if PREFIX_STATE_MAX_BYTES < size + grow then (entries, ccr, size)
     else (entries @ [parts], AList.updates (map fst payloads) (map snd payloads) ccr, size + (grow + 1)))"

definition packed_state ::
    "file_env \<Rightarrow> 'b backend_ops \<Rightarrow> freeze_config \<Rightarrow> real \<Rightarrow> 'b cstore \<Rightarrow> session_store \<Rightarrow> packed" where
  "packed_state V B cfg now cc s =
     fold (pack V B now cc s) (take PREFIX_STATE_MAX_TRACKERS (live_trackers cfg now s)) ([], [], 0)"

definition state_text :: "file_env \<Rightarrow> packed \<Rightarrow> pystr" where
  "state_text V = (\<lambda>(entries, ccr, _).
     u ''{\"version\":1,\"trackers\":['' @ join (u '','') (map (entry_text V) entries) @ u ''],\"ccr\":[''
       @ join (u '','') (map (dumps_text (fe_float_repr V) \<circ> snd) ccr) @ u '']}'')"

definition save_state ::
    "file_env \<Rightarrow> 'b backend_ops \<Rightarrow> freeze_config \<Rightarrow> bool \<Rightarrow> bool \<Rightarrow> real \<Rightarrow> 'b cstore \<Rightarrow> session_store \<Rightarrow> pystr option
       \<Rightarrow> nat \<times> pystr option" where
  "save_state V B cfg stateless writable now cc s file =
     (if stateless then (0, file)
      else let p = packed_state V B cfg now cc s in
        if writable then (length (fst p), Some (state_text V p)) else (0, file))"

section \<open>Reading\<close>

datatype load_error = Malformed py_error | Refused store_error | Foreign

definition item :: "json \<Rightarrow> string \<Rightarrow> load_error + json" where
  "item v k =
     (case v of
        JObj d \<Rightarrow> (case map_of d (u k) of Some w \<Rightarrow> Inr w | None \<Rightarrow> Inl (Malformed PyKeyError))
      | _ \<Rightarrow> Inl (Malformed PyTypeError))"

text \<open>\<open>int(v)\<close>, \<open>str(v)\<close>, \<open>float(v)\<close> and iteration, on the types the file is written with.\<close>

definition as_int :: "json \<Rightarrow> load_error + int" where
  "as_int v = (case v of JInt n \<Rightarrow> Inr n | JBool _ \<Rightarrow> Inl Foreign | JFloat _ \<Rightarrow> Inl Foreign | JStr _ \<Rightarrow> Inl Foreign
     | _ \<Rightarrow> Inl (Malformed PyTypeError))"

definition as_count :: "json \<Rightarrow> load_error + nat" where
  "as_count v = bindR (as_int v) (\<lambda>n. if n < 0 then Inl Foreign else Inr (nat n))"

definition as_str :: "json \<Rightarrow> load_error + pystr" where
  "as_str v = (case v of JStr s \<Rightarrow> Inr s | _ \<Rightarrow> Inl Foreign)"

definition as_time :: "json \<Rightarrow> load_error + real" where
  "as_time v = (case v of JFloat r \<Rightarrow> Inr (of_rat r) | JInt n \<Rightarrow> Inr (of_int n) | JBool _ \<Rightarrow> Inl Foreign
     | JStr _ \<Rightarrow> Inl Foreign | _ \<Rightarrow> Inl (Malformed PyTypeError))"

definition as_list :: "json \<Rightarrow> load_error + json list" where
  "as_list v = (case v of JList xs \<Rightarrow> Inr xs | JStr _ \<Rightarrow> Inl Foreign | JObj _ \<Rightarrow> Inl Foreign
     | _ \<Rightarrow> Inl (Malformed PyTypeError))"

definition as_option :: "(json \<Rightarrow> load_error + 'a) \<Rightarrow> json \<Rightarrow> load_error + 'a option" where
  "as_option f v = (if v = JNull then Inr None else bindR (f v) (\<lambda>x. Inr (Some x)))"

fun each :: "('a \<Rightarrow> 'e + 'b) \<Rightarrow> 'a list \<Rightarrow> 'e + 'b list" where
  "each f [] = Inr []"
| "each f (x # xs) = bindR (f x) (\<lambda>y. bindR (each f xs) (\<lambda>ys. Inr (y # ys)))"

text \<open>\<open>_deref\<close>: an index that is not an \<open>int\<close> (a \<open>bool\<close> is not) or out of range is refused.
  The error is that of the first bad index in the list.\<close>

definition deref_one :: "json \<Rightarrow> json \<Rightarrow> load_error + json" where
  "deref_one table v =
     (case v of
        JInt i \<Rightarrow>
          if i < 0 then Inl (Malformed PyValueError)
          else (case table of
                  JList ms \<Rightarrow> if nat i < length ms then Inr (ms ! nat i) else Inl (Malformed PyValueError)
                | JStr s \<Rightarrow> if nat i < length s then Inr (JStr [s ! nat i]) else Inl (Malformed PyValueError)
                | JObj d \<Rightarrow> Inl (Malformed (if nat i < length d then PyKeyError else PyValueError))
                | _ \<Rightarrow> Inl (Malformed PyTypeError))
      | _ \<Rightarrow> Inl (Malformed PyValueError))"

definition deref :: "json \<Rightarrow> json \<Rightarrow> load_error + json list" where
  "deref table refs = bindR (as_list refs) (each (deref_one table))"

definition unpack :: "nat \<Rightarrow> json \<Rightarrow> load_error + json list" where
  "unpack n v = bindR (as_list v) (\<lambda>xs. if length xs = n then Inr xs else Inl (Malformed PyValueError))"

definition decode_turn_state :: "json \<Rightarrow> json \<Rightarrow> load_error + turn_state" where
  "decode_turn_state table state =
     bindR (unpack 5 state) (\<lambda>xs.
     bindR (as_count (xs ! 0)) (\<lambda>turn.
     bindR (as_int (xs ! 1)) (\<lambda>tokens.
     bindR (as_count (xs ! 2)) (\<lambda>messages.
     bindR (deref table (xs ! 3)) (\<lambda>original.
     bindR (deref table (xs ! 4)) (\<lambda>forwarded.
     Inr \<lparr>ts_turn_number = turn, ts_cached_tokens = tokens, ts_cached_messages = messages,
       ts_original = original, ts_forwarded = forwarded\<rparr>))))))"

definition decode_turn :: "json \<Rightarrow> json \<Rightarrow> load_error + nat \<times> turn_state option" where
  "decode_turn table v =
     bindR (unpack 2 v) (\<lambda>xs. bindR (as_count (xs ! 0)) (\<lambda>n.
     bindR (decode_turn_state table (xs ! 1)) (\<lambda>st. Inr (n, Some st))))"

definition decode_snapshot :: "json \<Rightarrow> json \<Rightarrow> load_error + chain \<times> nat" where
  "decode_snapshot table v =
     bindR (unpack 2 v) (\<lambda>xs. bindR (deref table (xs ! 0)) (\<lambda>snap.
     bindR (as_count (xs ! 1)) (\<lambda>n. Inr (snap, n))))"

text \<open>\<open>max(0, ttl)\<close> raises on what is not a number.\<close>

definition as_ttl :: "json \<Rightarrow> load_error + int option" where
  "as_ttl v = (case v of JNull \<Rightarrow> Inr None | JInt n \<Rightarrow> Inr (Some n) | JBool _ \<Rightarrow> Inl Foreign
     | JFloat _ \<Rightarrow> Inl Foreign | _ \<Rightarrow> Inl (Malformed PyTypeError))"

text \<open>\<open>None\<close> for a tracker past its retention; \<open>i\<close> is the identity of the object created.\<close>

definition decode_tracker :: "freeze_config \<Rightarrow> real \<Rightarrow> nat \<Rightarrow> json \<Rightarrow> load_error + ptracker option" where
  "decode_tracker cfg now i entry =
     bindR (item entry ''meta'') (\<lambda>meta.
     bindR (item entry ''messages'') (\<lambda>table.
     bindR (bindR (item meta ''provider'') as_str) (\<lambda>provider.
     bindR (bindR (item meta ''last_activity'') as_time) (\<lambda>last.
     bindR (bindR (item meta ''cache_ttl'') as_ttl) (\<lambda>ttl.
     let t = observe_cache_ttl ttl (new_ptracker i provider last) in
     if tracker_expired cfg now t \<or> now < last then Inr None
     else
       bindR (bindR (item meta ''state'') (decode_turn_state table)) (\<lambda>state.
       bindR (bindR (bindR (item meta ''turns'') as_list) (each (decode_turn table))) (\<lambda>turns.
       bindR (item meta ''maturation'') (\<lambda>maturation.
       if maturation \<noteq> JNull then Inl Foreign
       else Inr (Some (t\<lparr>pt_state := state, pt_restored := True,
              pt_turn_states := fold (\<lambda>(n, st). AList.update n st) turns []\<rparr>))))))))))"

section \<open>Installing a file\<close>

definition entry_of_json :: "json \<Rightarrow> load_error + compression_entry" where
  "entry_of_json v =
     (case v of
        JObj d \<Rightarrow>
          let required = map u [''hash'', ''original_content'', ''compressed_content'', ''original_tokens'',
                ''compressed_tokens'', ''original_item_count'', ''compressed_item_count'', ''tool_name'',
                ''tool_call_id'', ''query_context'', ''created_at''];
              optional = map u [''ttl'', ''tool_signature_hash'', ''compression_strategy'', ''retrieval_count'',
                ''search_queries'', ''last_accessed'']; get = dget d in
          if \<not> set required \<subseteq> fst ` set d \<or> \<not> fst ` set d \<subseteq> set (required @ optional)
          then Inl (Malformed PyTypeError)
          else
            bindR (as_str (get ''hash'')) (\<lambda>h.
            bindR (as_str (get ''original_content'')) (\<lambda>original.
            bindR (as_str (get ''compressed_content'')) (\<lambda>short.
            bindR (as_int (get ''original_tokens'')) (\<lambda>ot.
            bindR (as_int (get ''compressed_tokens'')) (\<lambda>ct.
            bindR (as_int (get ''original_item_count'')) (\<lambda>oi.
            bindR (as_int (get ''compressed_item_count'')) (\<lambda>ci.
            bindR (as_option as_str (get ''tool_name'')) (\<lambda>name.
            bindR (as_option as_str (get ''tool_call_id'')) (\<lambda>call.
            bindR (as_option as_str (get ''query_context'')) (\<lambda>query.
            bindR (as_time (get ''created_at'')) (\<lambda>created.
            bindR (as_int (dget_default d ''ttl'' (JInt 1800))) (\<lambda>ttl.
            bindR (as_option as_str (get ''tool_signature_hash'')) (\<lambda>sig.
            bindR (as_option as_str (get ''compression_strategy'')) (\<lambda>strategy.
            bindR (as_int (dget_default d ''retrieval_count'' (JInt 0))) (\<lambda>count.
            bindR (bindR (as_list (dget_default d ''search_queries'' (JList []))) (each as_str)) (\<lambda>queries.
            bindR (as_option as_time (get ''last_accessed'')) (\<lambda>accessed.
            Inr \<lparr>ce_hash = h, original_content = original, compressed_content = short, original_tokens = ot,
              compressed_tokens = ct, original_item_count = oi, compressed_item_count = ci, ce_tool_name = name,
              ce_tool_call_id = call, ce_query_context = query, created_at = created, ce_ttl = ttl,
              ce_tool_signature_hash = sig, ce_compression_strategy = strategy, retrieval_count = count,
              search_queries = queries, last_accessed = accessed\<rparr>)))))))))))))))))
      | _ \<Rightarrow> Inl (Malformed PyTypeError))"

text \<open>What the loop of \<open>_decode_state\<close> collects.\<close>

record loaded =
  ld_trackers :: "(pystr, ptracker) odict"
  ld_families :: "(pystr, family) odict"
  ld_affinities :: "(pystr, pystr option) odict"
  ld_histories :: "(pystr, (chain \<times> nat) list) odict"
  ld_next_id :: nat

definition decode_entry :: "freeze_config \<Rightarrow> real \<Rightarrow> json \<Rightarrow> loaded \<Rightarrow> load_error + loaded" where
  "decode_entry cfg now entry L =
     bindR (item entry ''meta'') (\<lambda>meta.
     bindR (item entry ''messages'') (\<lambda>table.
     bindR (decode_tracker cfg now (ld_next_id L) entry) (\<lambda>r.
     case r of
       None \<Rightarrow> Inr L
     | Some t \<Rightarrow>
         bindR (bindR (item meta ''key'') as_str) (\<lambda>key.
         let L1 = L\<lparr>ld_trackers := AList.update key t (ld_trackers L), ld_next_id := Suc (ld_next_id L)\<rparr> in
         bindR (bindR (bindR (item meta ''history'') as_list) (each (decode_snapshot table))) (\<lambda>hist.
         let h = drop (length hist - LINEAGE_HISTORY) hist in
         if h = [] then Inr L1
         else
           let L2 = L1\<lparr>ld_histories := AList.update key h (ld_histories L)\<rparr> in
           bindR (item meta ''session'') (\<lambda>session.
           if session = JNull then Inr L2
           else
             bindR (as_str session) (\<lambda>sid.
             let fam = (case map_of (ld_families L) sid of Some f \<Rightarrow> f | None \<Rightarrow> []) in
             bindR (bindR (item meta ''affinity'') (as_option as_str)) (\<lambda>affinity.
             Inr (L2\<lparr>ld_families := AList.update sid (AList.update key (fst (hd h)) fam) (ld_families L),
                     ld_affinities := AList.update key affinity (ld_affinities L)\<rparr>)))))))))"

fun decode_entries :: "freeze_config \<Rightarrow> real \<Rightarrow> json list \<Rightarrow> loaded \<Rightarrow> load_error + loaded" where
  "decode_entries cfg now [] L = Inr L"
| "decode_entries cfg now (e # es) L = bindR (decode_entry cfg now e L) (decode_entries cfg now es)"

text \<open>The number after the last NUL of a lineage key.\<close>

definition lineage_number :: "ucd \<Rightarrow> pystr \<Rightarrow> nat option" where
  "lineage_number U key =
     (let n = rev (takeWhile (\<lambda>c. c \<noteq> 0) (rev key)) in
      if 0 \<in> set key \<and> n \<noteq> [] \<and> list_all (is_decimal U) n then Some (dec_value U n) else None)"

definition install_all :: "ucd \<Rightarrow> loaded \<Rightarrow> session_store \<Rightarrow> session_store" where
  "install_all U L s =
     (let turns = concat (map (map snd \<circ> snd) (ld_histories L)) @ concat (map (map fst \<circ> pt_turn_states \<circ> snd) (ld_trackers L));
          numbers = List.map_filter (lineage_number U \<circ> fst) (ld_trackers L);
          merge = (\<lambda>(sid, fam) fs. AList.update sid
            (AList.updates (map fst fam) (map snd fam) (case map_of fs sid of Some f \<Rightarrow> f | None \<Rightarrow> [])) fs) in
      s\<lparr>ss_turn_counter := Suc (Max (set (ss_turn_counter s # turns))),
        ss_lineage_counter := Suc (Max (set (ss_lineage_counter s # numbers))),
        ss_trackers := AList.updates (map fst (ld_trackers L)) (map snd (ld_trackers L)) (ss_trackers s),
        ss_history := AList.updates (map fst (ld_histories L)) (map snd (ld_histories L)) (ss_history s),
        ss_affinities := AList.updates (map fst (ld_affinities L)) (map snd (ld_affinities L)) (ss_affinities s),
        ss_lineages := fold merge (ld_families L) (ss_lineages s), ss_next_id := ld_next_id L\<rparr>)"

definition decode_state ::
    "ucd \<Rightarrow> 'b backend_ops \<Rightarrow> (pystr \<Rightarrow> pystr) \<Rightarrow> freeze_config \<Rightarrow> real \<Rightarrow> json \<Rightarrow> session_store \<Rightarrow> 'b cstore
       \<Rightarrow> (load_error + nat) \<times> session_store \<times> 'b cstore" where
  "decode_state U B sha cfg now data s cc =
     (case data of
        JObj d \<Rightarrow>
          if \<not> json_eq (dget d ''version'') (JInt 1) then (Inl (Malformed PyValueError), s, cc)
          else
            (case bindR (bindR (bindR (item data ''ccr'') as_list) (each entry_of_json)) (\<lambda>ccr.
                  bindR (bindR (item data ''trackers'') as_list) (\<lambda>entries.
                  bindR (decode_entries cfg now (rev entries) \<lparr>ld_trackers = [], ld_families = [], ld_affinities = [],
                    ld_histories = [], ld_next_id = ss_next_id s\<rparr>) (\<lambda>L. Inr (ccr, L)))) of
               Inl e \<Rightarrow> (Inl e, s, cc)
             | Inr (ccr, L) \<Rightarrow>
                 if ccr \<noteq> [] \<and> ld_trackers L \<noteq> []
                 then (case import_entries B sha now cc ccr 0 of
                         (Inl e, cc') \<Rightarrow> (Inl (Refused e), s, cc')
                       | (Inr _, cc') \<Rightarrow> (Inr (length (ld_trackers L)), install_all U L s, cc'))
                 else (Inr (length (ld_trackers L)), install_all U L s, cc))
      | _ \<Rightarrow> (Inl (Malformed PyAttributeError), s, cc))"

text \<open>Every exception is logged and leaves the file where it is. The result is \<open>None\<close> for a foreign
  file.\<close>

definition load_state ::
    "ucd \<Rightarrow> file_env \<Rightarrow> 'b backend_ops \<Rightarrow> (pystr \<Rightarrow> pystr) \<Rightarrow> freeze_config \<Rightarrow> bool \<Rightarrow> bool \<Rightarrow> real
       \<Rightarrow> pystr option \<Rightarrow> session_store \<Rightarrow> 'b cstore \<Rightarrow> nat option \<times> pystr option \<times> session_store \<times> 'b cstore" where
  "load_state U V B sha cfg stateless removable now file s cc =
     (if stateless then (Some 0, file, s, cc)
      else
        (case Option.bind file (fe_loads V) of
           None \<Rightarrow> (Some 0, file, s, cc)
         | Some data \<Rightarrow>
             (case decode_state U B sha cfg now data s cc of
                (Inl Foreign, s', cc') \<Rightarrow> (None, file, s', cc')
              | (Inl _, s', cc') \<Rightarrow> (Some 0, file, s', cc')
              | (Inr n, s', cc') \<Rightarrow> (Some n, if removable then None else file, s', cc'))))"

section \<open>Single trackers between processes\<close>

definition encode_shared :: "file_env \<Rightarrow> session_store \<Rightarrow> pystr \<Rightarrow> ptracker \<Rightarrow> pydict \<times> pystr list" where
  "encode_shared V s key t = tracker_parts V s key t None"

text \<open>The clock of the host that wrote may be ahead; the time written back is the number \<open>now\<close> or the
  one that was read.\<close>

definition decode_shared ::
    "file_env \<Rightarrow> freeze_config \<Rightarrow> real \<Rightarrow> nat \<Rightarrow> json \<Rightarrow> json list \<Rightarrow> load_error + ptracker option" where
  "decode_shared V cfg now i meta messages =
     (case meta of
        JObj d \<Rightarrow>
          bindR (bindR (item meta ''last_activity'') as_time) (\<lambda>last.
          decode_tracker cfg now i (JObj [(u ''meta'', JObj (dset d ''last_activity''
              (if now < last then JFloat (fe_seconds V now) else dget d ''last_activity''))),
            (u ''messages'', JList messages)]))
      | _ \<Rightarrow> Inl (Malformed PyValueError))"

section \<open>The first request of a restored tracker\<close>

text \<open>The messages of a request are dictionaries.\<close>

definition as_message :: "json \<Rightarrow> message" where
  "as_message v = (case v of JObj d \<Rightarrow> d | _ \<Rightarrow> [])"

definition seed_restored_compression_cache ::
    "(pystr \<Rightarrow> pystr) \<Rightarrow> resolved \<Rightarrow> ptracker \<Rightarrow> ccache \<Rightarrow> (py_error + unit) \<times> ptracker \<times> ccache" where
  "seed_restored_compression_cache md5 R t c =
     (if pt_restored t
      then let (r, c') = update_from_result md5 c (map as_message (get_last_original_messages R t))
                 (map as_message (get_last_forwarded_messages R t))
           in (r, t\<lparr>pt_restored := False\<rparr>, c')
      else (Inr (), t, c))"

end
