(* ===== verification/Prefix_State_Props.thy ===== *)
theory Prefix_State_Props
  imports Prefix_State Prefix_Sessions_Props Compression_Store_Props Compression_Cache_Props
begin

text \<open>
  Properties of a restart. The tables of messages are read back to the messages (the first section),
  a tracker to the tracker with the states of its answered turns, and a whole file to a store in which
  every conversation is matched as before.
\<close>

section \<open>Message tables\<close>

definition read_back :: "file_env \<Rightarrow> pystr \<Rightarrow> json" where
  "read_back V blob = the (fe_loads V blob)"

text \<open>\<open>json.loads\<close> inverts \<open>json.dumps\<close> on these messages.\<close>

definition reads :: "file_env \<Rightarrow> json list \<Rightarrow> bool" where
  "reads V ms \<longleftrightarrow> (\<forall>m \<in> set ms. fe_loads V (dumps_text (fe_float_repr V) m) = Some m)"

lemma reads_simps [simp]:
  "reads V []" "reads V (m # ms) \<longleftrightarrow> fe_loads V (dumps_text (fe_float_repr V) m) = Some m \<and> reads V ms"
  "reads V (ms @ ms') \<longleftrightarrow> reads V ms \<and> reads V ms'"
  by (auto simp: reads_def)

abbreviation table_json :: "file_env \<Rightarrow> pystr list \<Rightarrow> json" where
  "table_json V table \<equiv> JList (map (read_back V) table)"

lemma each_Inr_Cons [simp]:
  "each f (x # xs) = Inr zs \<longleftrightarrow> (\<exists>y ys. f x = Inr y \<and> each f xs = Inr ys \<and> zs = y # ys)"
  by (auto simp: bindR_eq_Inr)

declare each.simps(2) [simp del]

lemma position_Some: "position x ys = Some i \<Longrightarrow> i < length ys \<and> ys ! i = x"
  by (induction ys arbitrary: i) (auto split: if_splits)

lemma intern_prefix: "intern b T = (i, T') \<Longrightarrow> prefix T T'"
  by (auto simp: intern_def split: option.splits)

lemma intern_at:
  assumes "intern b T = (i, T')" and "prefix T' T''"
  shows "i < length T''" and "T'' ! i = b"
proof -
  have "i < length T' \<and> T' ! i = b"
    using assms(1) position_Some by (fastforce simp: intern_def split: option.splits)
  then show "i < length T''" "T'' ! i = b"
    using assms(2) by (auto simp: prefix_def nth_append)
qed

lemma intern_reads:
  assumes "intern (dumps_text (fe_float_repr V) m) T = (i, T')" and "prefix T' T''"
    and "fe_loads V (dumps_text (fe_float_repr V) m) = Some m"
  shows "deref_one (table_json V T'') (JInt (int i)) = Inr m"
  using intern_at [OF assms(1,2)] assms(3) by (simp add: deref_one_def read_back_def)

lemma ref_prefix: "ref F ms T = (is, T') \<Longrightarrow> prefix T T'"
  by (induction F ms T arbitrary: "is" T' rule: ref.induct)
    (auto split: prod.splits dest: intern_prefix intro: prefix_order.trans)

lemma ref_reads:
  "ref (fe_float_repr V) ms T = (is, T') \<Longrightarrow> prefix T' T'' \<Longrightarrow> reads V ms \<Longrightarrow>
   deref (table_json V T'') (JList is) = Inr ms"
proof (induction "fe_float_repr V" ms T arbitrary: "is" T' rule: ref.induct)
  case (2 m ms T)
  obtain i T1 js where s: "intern (dumps_text (fe_float_repr V) m) T = (i, T1)"
    "ref (fe_float_repr V) ms T1 = (js, T')" "is = JInt (int i) # js"
    using "2.prems"(1) by (auto split: prod.splits)
  have "prefix T1 T''" using ref_prefix [OF s(2)] "2.prems"(2) by (rule prefix_order.trans)
  then show ?case
    using intern_reads [OF s(1)] "2.hyps" [OF s(1) [symmetric] refl s(2) "2.prems"(2)] "2.prems"(3) s(3)
    by (simp add: deref_def as_list_def)
qed (simp add: deref_def as_list_def)

section \<open>Turn states, turns and histories\<close>

definition state_messages :: "turn_state \<Rightarrow> json list" where
  "state_messages st = ts_original st @ ts_forwarded st"

lemma state_part_prefix: "state_part F st T = (j, T') \<Longrightarrow> prefix T T'"
  by (auto simp: state_part_def split: prod.splits dest!: ref_prefix intro: prefix_order.trans)

lemma state_part_reads:
  assumes "state_part (fe_float_repr V) st T = (j, T')" and "prefix T' T''" and "reads V (state_messages st)"
  shows "decode_turn_state (table_json V T'') j = Inr st"
proof -
  obtain os T1 fs where s: "ref (fe_float_repr V) (ts_original st) T = (os, T1)"
    "ref (fe_float_repr V) (ts_forwarded st) T1 = (fs, T')"
    "j = JList [JInt (int (ts_turn_number st)), JInt (ts_cached_tokens st), JInt (int (ts_cached_messages st)),
       JList os, JList fs]"
    using assms(1) by (auto simp: state_part_def split: prod.splits)
  have "prefix T1 T''" using ref_prefix [OF s(2)] assms(2) by (rule prefix_order.trans)
  then show ?thesis
    using ref_reads [OF s(1)] ref_reads [OF s(2) assms(2)] assms(3) s(3)
    by (simp add: decode_turn_state_def unpack_def as_list_def as_count_def as_int_def state_messages_def)
qed

definition answered :: "(nat \<times> turn_state option) list \<Rightarrow> (nat \<times> turn_state option) list" where
  "answered turns = filter (\<lambda>(n, st). st \<noteq> None) turns"

definition turns_messages :: "(nat \<times> turn_state option) list \<Rightarrow> json list" where
  "turns_messages turns = concat (map (\<lambda>(n, st). case st of None \<Rightarrow> [] | Some x \<Rightarrow> state_messages x) turns)"

lemma turns_part_prefix: "turns_part F ts T = (js, T') \<Longrightarrow> prefix T T'"
  by (induction F ts T arbitrary: js T' rule: turns_part.induct)
    (auto split: prod.splits dest!: state_part_prefix intro: prefix_order.trans)

lemma turns_part_reads:
  "turns_part (fe_float_repr V) ts T = (js, T') \<Longrightarrow> prefix T' T'' \<Longrightarrow> reads V (turns_messages ts) \<Longrightarrow>
   each (decode_turn (table_json V T'')) js = Inr (answered ts)"
proof (induction "fe_float_repr V" ts T arbitrary: js T' rule: turns_part.induct)
  case (3 n st ts T)
  obtain j T1 js' where s: "state_part (fe_float_repr V) st T = (j, T1)"
    "turns_part (fe_float_repr V) ts T1 = (js', T')" "js = JList [JInt (int n), j] # js'"
    using "3.prems"(1) by (auto split: prod.splits)
  have "prefix T1 T''" using turns_part_prefix [OF s(2)] "3.prems"(2) by (rule prefix_order.trans)
  then have "decode_turn_state (table_json V T'') j = Inr st"
    using state_part_reads [OF s(1)] "3.prems"(3) by (simp add: turns_messages_def)
  then show ?case
    using "3.hyps" [OF s(1) [symmetric] refl s(2) "3.prems"(2)] "3.prems"(3) s(3)
    by (simp add: decode_turn_def unpack_def as_list_def as_count_def as_int_def answered_def turns_messages_def)
qed (simp_all add: answered_def turns_messages_def)

lemma history_part_prefix: "history_part F h T = (js, T') \<Longrightarrow> prefix T T'"
  by (induction F h T arbitrary: js T' rule: history_part.induct)
    (auto split: prod.splits dest!: ref_prefix intro: prefix_order.trans)

lemma history_part_reads:
  "history_part (fe_float_repr V) h T = (js, T') \<Longrightarrow> prefix T' T'' \<Longrightarrow> reads V (concat (map fst h)) \<Longrightarrow>
   each (decode_snapshot (table_json V T'')) js = Inr h"
proof (induction "fe_float_repr V" h T arbitrary: js T' rule: history_part.induct)
  case (2 snap n h T)
  obtain "is" T1 js' where s: "ref (fe_float_repr V) snap T = (is, T1)"
    "history_part (fe_float_repr V) h T1 = (js', T')" "js = JList [JList is, JInt (int n)] # js'"
    using "2.prems"(1) by (auto split: prod.splits)
  have "prefix T1 T''" using history_part_prefix [OF s(2)] "2.prems"(2) by (rule prefix_order.trans)
  then show ?case
    using ref_reads [OF s(1)] "2.hyps" [OF s(1) [symmetric] refl s(2) "2.prems"(2)] "2.prems"(3) s(3)
    by (simp add: decode_snapshot_def unpack_def as_list_def as_count_def as_int_def)
qed simp

section \<open>A saved tracker\<close>

definition history_of :: "session_store \<Rightarrow> pystr \<Rightarrow> (chain \<times> nat) list" where
  "history_of s key = (case map_of (ss_history s) key of Some h \<Rightarrow> h | None \<Rightarrow> [])"

definition affinity_of :: "session_store \<Rightarrow> pystr \<Rightarrow> pystr option" where
  "affinity_of s key = Option.bind (map_of (ss_affinities s) key) id"

definition tracker_messages :: "session_store \<Rightarrow> pystr \<Rightarrow> ptracker \<Rightarrow> json list" where
  "tracker_messages s key t =
     state_messages (pt_state t) @ turns_messages (pt_turn_states t) @ concat (map fst (history_of s key))"

text \<open>The value the text of an entry spells.\<close>

definition spelled :: "file_env \<Rightarrow> pydict \<times> pystr list \<Rightarrow> json" where
  "spelled V = (\<lambda>(meta, table). JObj [(u ''meta'', JObj meta), (u ''messages'', table_json V table)])"

text \<open>The object that stands for a tracker after a restart.\<close>

definition restored :: "nat \<Rightarrow> ptracker \<Rightarrow> ptracker" where
  "restored i t = (observe_cache_ttl (pt_cache_ttl t) (new_ptracker i (pt_provider t) (pt_last_activity t)))
     \<lparr>pt_state := pt_state t, pt_restored := True, pt_turn_states := answered (pt_turn_states t)\<rparr>"

definition gone :: "freeze_config \<Rightarrow> real \<Rightarrow> ptracker \<Rightarrow> bool" where
  "gone cfg now t \<longleftrightarrow> tracker_expired cfg now t \<or> now < pt_last_activity t"

text \<open>What saving and loading needs of a tracker: its messages survive \<open>json\<close>, its last activity is a
  float, and it has the shape of a reachable tracker.\<close>

definition savable :: "file_env \<Rightarrow> session_store \<Rightarrow> pystr \<Rightarrow> ptracker \<Rightarrow> bool" where
  "savable V s key t \<longleftrightarrow> reads V (tracker_messages s key t)
     \<and> of_rat (fe_seconds V (pt_last_activity t)) = pt_last_activity t
     \<and> ptracker_ok t \<and> length (history_of s key) \<le> 3"

lemma fold_update_distinct:
  "distinct (map fst (acc @ d)) \<Longrightarrow> fold (\<lambda>(k, v). AList.update k v) d acc = acc @ d"
proof (induction d arbitrary: acc)
  case (Cons p d)
  obtain k v where p: "p = (k, v)" by fastforce
  then have "k \<notin> fst ` set acc" using Cons.prems by auto
  then have "AList.update k v acc = acc @ [(k, v)]" by (induction acc) auto
  then show ?case using Cons p by simp
qed simp

lemma updates_distinct: "distinct (map fst d) \<Longrightarrow> AList.updates (map fst d) (map snd d) [] = d"
proof -
  have "AList.updates (map fst d) (map snd d) acc = fold (\<lambda>(k, v). AList.update k v) d acc" for acc
    by (induction d arbitrary: acc) auto
  then show "distinct (map fst d) \<Longrightarrow> ?thesis" using fold_update_distinct [of "[]" d] by simp
qed

lemma expired_restored:
  "tracker_expired cfg now (observe_cache_ttl (pt_cache_ttl t) (new_ptracker i p (pt_last_activity t)))
     = tracker_expired cfg now t"
  by (cases "pt_cache_ttl t")
    (auto simp: tracker_expired_def is_expired_for_cache_ttl_def retention_seconds_def observe_cache_ttl_def
      new_ptracker_def or_zero_def max_def Let_def)

lemma restored_simps [simp]:
  "pt_state (restored i t) = pt_state t" "pt_turn_states (restored i t) = answered (pt_turn_states t)"
  "pt_last_activity (restored i t) = pt_last_activity t" "pt_id (restored i t) = i" "pt_restored (restored i t)"
  "pt_provider (restored i t) = pt_provider t"
  by (simp_all add: restored_def observe_cache_ttl_def new_ptracker_def split: option.splits)

lemma opt_str_simps [simp]: "opt_str None = JNull" "opt_str (Some x) = JStr x"
  by (simp_all add: opt_str_def)

lemma as_option_opt_str [simp]: "as_option as_str (opt_str x) = Inr x"
  by (cases x) (simp_all add: as_option_def as_str_def)

lemma as_ttl_opt_int [simp]: "as_ttl (opt_int x) = Inr x"
  by (cases x) (simp_all add: as_ttl_def opt_int_def)

lemma item_JObj [simp]:
  "item (JObj ((u k, v) # d)) k' = (if k = k' then Inr v else item (JObj d) k')"
  by (simp add: item_def)

lemma distinct_answered: "distinct (map fst ts) \<Longrightarrow> distinct (map fst (answered ts))"
  unfolding answered_def by (rule distinct_map_filter)

text \<open>What the decoder finds in an entry.\<close>

lemma spelled_entry:
  assumes "savable V s key t" and "entry = spelled V (tracker_parts V s key t sid)"
  obtains M T st ts h where "item entry ''meta'' = Inr M" and "item entry ''messages'' = Inr T"
    and "item M ''key'' = Inr (JStr key)" and "item M ''session'' = Inr (opt_str sid)"
    and "item M ''affinity'' = Inr (opt_str (affinity_of s key))" and "item M ''provider'' = Inr (JStr (pt_provider t))"
    and "bindR (item M ''last_activity'') as_time = Inr (pt_last_activity t)"
    and "item M ''cache_ttl'' = Inr (opt_int (pt_cache_ttl t))" and "item M ''maturation'' = Inr JNull"
    and "item M ''state'' = Inr st" and "decode_turn_state T st = Inr (pt_state t)"
    and "item M ''turns'' = Inr (JList ts)" and "each (decode_turn T) ts = Inr (answered (pt_turn_states t))"
    and "item M ''history'' = Inr (JList h)" and "each (decode_snapshot T) h = Inr (history_of s key)"
proof -
  obtain st T1 ts T2 h T3 where p: "state_part (fe_float_repr V) (pt_state t) [] = (st, T1)"
    "turns_part (fe_float_repr V) (pt_turn_states t) T1 = (ts, T2)"
    "history_part (fe_float_repr V) (history_of s key) T2 = (h, T3)" by (metis surj_pair)
  have parts: "tracker_parts V s key t sid =
      ([(u ''key'', JStr key), (u ''session'', opt_str sid), (u ''affinity'', opt_str (affinity_of s key)),
        (u ''provider'', JStr (pt_provider t)), (u ''last_activity'', JFloat (fe_seconds V (pt_last_activity t))),
        (u ''cache_ttl'', opt_int (pt_cache_ttl t)), (u ''state'', st), (u ''turns'', JList ts),
        (u ''history'', JList h), (u ''maturation'', JNull)], T3)"
    using p by (simp add: tracker_parts_def history_of_def affinity_of_def Let_def)
  have sv: "reads V (state_messages (pt_state t))" "reads V (turns_messages (pt_turn_states t))"
    "reads V (concat (map fst (history_of s key)))" "of_rat (fe_seconds V (pt_last_activity t)) = pt_last_activity t"
    using assms(1) by (simp_all add: savable_def tracker_messages_def)
  have px: "prefix T2 T3" "prefix T1 T3"
    using turns_part_prefix [OF p(2)] history_part_prefix [OF p(3)] by (auto intro: prefix_order.trans)
  show thesis
    by (rule that [of "JObj (fst (tracker_parts V s key t sid))" "table_json V T3" st ts h])
      (simp_all add: assms(2) spelled_def parts as_time_def sv state_part_reads [OF p(1) px(2)]
        turns_part_reads [OF p(2) px(1)] history_part_reads [OF p(3)])
qed

lemma ptracker_ok_restored: "ptracker_ok t \<Longrightarrow> ptracker_ok (restored i t)"
  unfolding ptracker_ok_def answered_def restored_simps
  by (blast intro: distinct_map_filter le_trans [OF length_filter_le])

lemma decode_tracker_spelled:
  assumes "savable V s key t"
  shows "decode_tracker cfg now i (spelled V (tracker_parts V s key t sid)) =
    Inr (if gone cfg now t then None else Some (restored i t))"
proof -
  obtain entry where entry: "entry = spelled V (tracker_parts V s key t sid)" by blast
  have "distinct (map fst (pt_turn_states t))" using assms by (simp add: savable_def ptracker_ok_def)
  then have "fold (\<lambda>(n, st). AList.update n st) (answered (pt_turn_states t)) [] = answered (pt_turn_states t)"
    using fold_update_distinct [of "[]" "answered (pt_turn_states t)"] distinct_answered by (simp del: split_beta)
  then show ?thesis
    unfolding entry [symmetric]
    by (cases rule: spelled_entry [OF assms entry])
      (simp add: decode_tracker_def as_str_def as_list_def expired_restored gone_def restored_def Let_def)
qed

section \<open>A saved store\<close>

definition collect :: "session_store \<Rightarrow> pystr \<Rightarrow> ptracker \<Rightarrow> pystr option \<Rightarrow> loaded \<Rightarrow> loaded" where
  "collect s key t sid L =
     (let L1 = L\<lparr>ld_trackers := AList.update key (restored (ld_next_id L) t) (ld_trackers L),
                 ld_next_id := Suc (ld_next_id L)\<rparr>; h = history_of s key in
      if h = [] then L1
      else
        let L2 = L1\<lparr>ld_histories := AList.update key h (ld_histories L)\<rparr> in
        (case sid of
           None \<Rightarrow> L2
         | Some n \<Rightarrow> L2\<lparr>ld_families := AList.update n (AList.update key (fst (hd h))
               (case map_of (ld_families L) n of Some f \<Rightarrow> f | None \<Rightarrow> [])) (ld_families L),
             ld_affinities := AList.update key (affinity_of s key) (ld_affinities L)\<rparr>))"

lemma decode_entry_spelled:
  assumes "savable V s key t"
  shows "decode_entry cfg now (spelled V (tracker_parts V s key t sid)) L =
    Inr (if gone cfg now t then L else collect s key t sid L)"
proof -
  obtain entry where entry: "entry = spelled V (tracker_parts V s key t sid)" by blast
  have "length (history_of s key) - LINEAGE_HISTORY = 0"
    using assms by (simp add: savable_def LINEAGE_HISTORY_def)
  then show ?thesis
    using decode_tracker_spelled [OF assms, of cfg now "ld_next_id L" sid]
    unfolding entry [symmetric]
    by (cases rule: spelled_entry [OF assms entry])
      (cases sid; simp add: decode_entry_def as_str_def as_list_def collect_def Let_def)
qed

definition spelled_tracker :: "file_env \<Rightarrow> session_store \<Rightarrow> pystr \<times> ptracker \<Rightarrow> json" where
  "spelled_tracker V s = (\<lambda>(key, t). spelled V (tracker_parts V s key t (session_of s key)))"

definition collect_all :: "session_store \<Rightarrow> (pystr \<times> ptracker) list \<Rightarrow> loaded \<Rightarrow> loaded" where
  "collect_all s = fold (\<lambda>(key, t). collect s key t (session_of s key))"

lemma decode_entries_spelled:
  "\<forall>(key, t) \<in> set kts. savable V s key t \<Longrightarrow>
   decode_entries cfg now (map (spelled_tracker V s) kts) L =
     Inr (collect_all s (filter (\<lambda>(_, t). \<not> gone cfg now t) kts) L)"
  by (induction kts arbitrary: L)
    (auto simp: spelled_tracker_def decode_entry_spelled collect_all_def split: prod.splits)

lemma update_new: "k \<notin> fst ` set d \<Longrightarrow> AList.update k v d = d @ [(k, v)]"
  by (induction d) auto

definition empty_load :: "nat \<Rightarrow> loaded" where
  "empty_load n = \<lparr>ld_trackers = [], ld_families = [], ld_affinities = [], ld_histories = [], ld_next_id = n\<rparr>"

text \<open>The members of a session among the trackers \<open>ks\<close>.\<close>

definition members :: "session_store \<Rightarrow> pystr \<Rightarrow> (pystr \<times> ptracker) list \<Rightarrow> pystr list" where
  "members s sid ks = filter (\<lambda>key. history_of s key \<noteq> [] \<and> session_of s key = Some sid) (map fst ks)"

definition newest :: "session_store \<Rightarrow> pystr \<Rightarrow> chain" where
  "newest s key = fst (hd (history_of s key))"

lemma collected:
  assumes "distinct (map fst ks)" and "L = collect_all s ks (empty_load n)"
  shows "ld_trackers L = map (\<lambda>((key, t), i). (key, restored i t)) (zip ks [n..<n + length ks])"
    and "ld_next_id L = n + length ks"
    and "ld_histories L = map (\<lambda>key. (key, history_of s key)) (filter (\<lambda>key. history_of s key \<noteq> []) (map fst ks))"
    and "ld_affinities L = map (\<lambda>key. (key, affinity_of s key))
           (filter (\<lambda>key. history_of s key \<noteq> [] \<and> session_of s key \<noteq> None) (map fst ks))"
    and "distinct (map fst (ld_families L))"
    and "map_of (ld_families L) sid = (if members s sid ks = [] then None
           else Some (map (\<lambda>key. (key, newest s key)) (members s sid ks)))"
proof -
  have "ld_trackers L = map (\<lambda>((key, t), i). (key, restored i t)) (zip ks [n..<n + length ks])
    \<and> ld_next_id L = n + length ks
    \<and> ld_histories L = map (\<lambda>key. (key, history_of s key)) (filter (\<lambda>key. history_of s key \<noteq> []) (map fst ks))
    \<and> ld_affinities L = map (\<lambda>key. (key, affinity_of s key))
        (filter (\<lambda>key. history_of s key \<noteq> [] \<and> session_of s key \<noteq> None) (map fst ks))
    \<and> distinct (map fst (ld_families L))
    \<and> (\<forall>sid. map_of (ld_families L) sid = (if members s sid ks = [] then None
           else Some (map (\<lambda>key. (key, newest s key)) (members s sid ks))))"
    using assms
  proof (induction ks arbitrary: L rule: rev_induct)
    case Nil
    then show ?case by (simp add: collect_all_def empty_load_def members_def)
  next
    case (snoc p ks)
    obtain key t where p: "p = (key, t)" by fastforce
    define L0 where "L0 = collect_all s ks (empty_load n)"
    have L: "L = collect s key t (session_of s key) L0"
      using snoc.prems(2) by (simp add: L0_def p collect_all_def)
    have fresh: "key \<notin> fst ` set ks" "distinct (map fst ks)" using snoc.prems(1) p by auto
    note IH = snoc.IH [OF fresh(2) L0_def]
    have tr: "AList.update key r (ld_trackers L0) = ld_trackers L0 @ [(key, r)]" for r
      using fresh(1) IH by (intro update_new) (auto dest!: set_zip_leftD simp: image_iff)
    have hi: "AList.update key r (ld_histories L0) = ld_histories L0 @ [(key, r)]" for r
      using fresh(1) IH by (intro update_new) (auto simp: image_iff)
    have af: "AList.update key r (ld_affinities L0) = ld_affinities L0 @ [(key, r)]" for r
      using fresh(1) IH by (intro update_new) (auto simp: image_iff)
    have fa: "AList.update key c (map (\<lambda>key. (key, newest s key)) (members s sid ks)) =
        map (\<lambda>key. (key, newest s key)) (members s sid ks) @ [(key, c)]" for sid c
      using fresh(1) by (intro update_new) (auto simp: members_def image_iff)
    have mem: "members s sid (ks @ [(key, t)]) = members s sid ks
        @ (if history_of s key \<noteq> [] \<and> session_of s key = Some sid then [key] else [])" for sid
      by (simp add: members_def p)
    show ?case
    proof (cases "history_of s key = []")
      case True
      then show ?thesis using IH tr by (simp add: L collect_def p mem)
    next
      case False
      then show ?thesis using IH tr hi af
        by (cases "session_of s key") (auto simp: L collect_def p mem fa update_conv' Let_def simp flip: newest_def)
    qed
  qed
  then show "ld_trackers L = map (\<lambda>((key, t), i). (key, restored i t)) (zip ks [n..<n + length ks])"
    "ld_next_id L = n + length ks"
    "ld_histories L = map (\<lambda>key. (key, history_of s key)) (filter (\<lambda>key. history_of s key \<noteq> []) (map fst ks))"
    "ld_affinities L = map (\<lambda>key. (key, affinity_of s key))
           (filter (\<lambda>key. history_of s key \<noteq> [] \<and> session_of s key \<noteq> None) (map fst ks))"
    "distinct (map fst (ld_families L))"
    "map_of (ld_families L) sid = (if members s sid ks = [] then None
           else Some (map (\<lambda>key. (key, newest s key)) (members s sid ks)))"
    by blast+
qed

section \<open>Installing into a new process\<close>

lemma fold_merge_distinct:
  assumes "distinct (map fst fams)" and "\<forall>(sid, fam) \<in> set fams. distinct (map fst fam)"
  shows "fold (\<lambda>(sid, fam) fs. AList.update sid (AList.updates (map fst fam) (map snd fam)
      (case map_of fs sid of Some f \<Rightarrow> f | None \<Rightarrow> [])) fs) fams [] = fams"
  using assms
proof (induction fams rule: rev_induct)
  case (snoc p fams)
  obtain sid fam where p: "p = (sid, fam)" by fastforce
  then have "sid \<notin> fst ` set fams" using snoc.prems(1) by auto
  then have "map_of fams sid = None" by (simp add: map_of_eq_None_iff)
  then show ?case using snoc p \<open>sid \<notin> fst ` set fams\<close> by (simp add: updates_distinct update_new)
qed simp

lemma install_new:
  assumes "distinct (map fst (ld_trackers L))" and "distinct (map fst (ld_histories L))"
    and "distinct (map fst (ld_affinities L))" and "distinct (map fst (ld_families L))"
    and "\<forall>(sid, fam) \<in> set (ld_families L). distinct (map fst fam)"
  shows "ss_trackers (install_all U L (new_session_store t0)) = ld_trackers L"
    and "ss_history (install_all U L (new_session_store t0)) = ld_histories L"
    and "ss_affinities (install_all U L (new_session_store t0)) = ld_affinities L"
    and "ss_lineages (install_all U L (new_session_store t0)) = ld_families L"
  using assms by (simp_all add: install_all_def new_session_store_def updates_distinct fold_merge_distinct Let_def)

lemma install_counters:
  shows "(key, h) \<in> set (ld_histories L) \<Longrightarrow> n \<in> snd ` set h \<Longrightarrow> n < ss_turn_counter (install_all U L s)"
    and "(key, t) \<in> set (ld_trackers L) \<Longrightarrow> n \<in> fst ` set (pt_turn_states t) \<Longrightarrow>
      n < ss_turn_counter (install_all U L s)"
    and "(key, t) \<in> set (ld_trackers L) \<Longrightarrow> lineage_number U key = Some n \<Longrightarrow>
      n < ss_lineage_counter (install_all U L s)"
    and "ss_turn_counter s < ss_turn_counter (install_all U L s)"
    and "ss_lineage_counter s < ss_lineage_counter (install_all U L s)"
proof -
  have le: "x \<in> A \<Longrightarrow> finite A \<Longrightarrow> x < Suc (Max A)" for x :: nat and A
    by (simp add: less_Suc_eq_le)
  show "n < ss_turn_counter (install_all U L s)" if "(key, h) \<in> set (ld_histories L)" "n \<in> snd ` set h"
    unfolding install_all_def Let_def by simp (rule le, use that in \<open>force+\<close>)
  show "n < ss_turn_counter (install_all U L s)"
    if "(key, t) \<in> set (ld_trackers L)" "n \<in> fst ` set (pt_turn_states t)"
    unfolding install_all_def Let_def by simp (rule le, use that in \<open>force+\<close>)
  show "n < ss_lineage_counter (install_all U L s)"
    if "(key, t) \<in> set (ld_trackers L)" "lineage_number U key = Some n"
    unfolding install_all_def Let_def by simp (rule le, use that in \<open>force simp: List.map_filter_def image_iff\<close>, simp)
  show "ss_turn_counter s < ss_turn_counter (install_all U L s)"
    "ss_lineage_counter s < ss_lineage_counter (install_all U L s)"
    by (simp_all add: install_all_def Let_def less_Suc_eq_le)
qed

section \<open>CCR entries\<close>

definition exact :: "file_env \<Rightarrow> real \<Rightarrow> bool" where
  "exact V t \<longleftrightarrow> of_rat (fe_seconds V t) = t"

definition exact_entry :: "file_env \<Rightarrow> compression_entry \<Rightarrow> bool" where
  "exact_entry V e \<longleftrightarrow> exact V (created_at e) \<and> (\<forall>t. last_accessed e = Some t \<longrightarrow> exact V t)"

lemma each_as_str [simp]: "each as_str (map JStr qs) = Inr qs"
  by (induction qs) (simp_all add: as_str_def)

lemma entry_roundtrip: "exact_entry V e \<Longrightarrow> entry_of_json (ccr_record V e) = Inr e"
  by (cases "last_accessed e"; cases e)
    (simp_all add: entry_of_json_def ccr_record_def exact_entry_def exact_def as_str_def as_int_def as_time_def
      as_list_def as_option_def [of as_time] Let_def)

text \<open>The live entry of a hash in the CCR store.\<close>

definition live_entry :: "real \<Rightarrow> mem_store cstore \<Rightarrow> pystr \<Rightarrow> compression_entry option" where
  "live_entry now cc h =
     (case mem_get (backend cc) h of None \<Rightarrow> None | Some e \<Rightarrow> if is_expired now e then None else Some e)"

definition keyed :: "mem_store cstore \<Rightarrow> bool" where
  "keyed cc \<longleftrightarrow> (\<forall>k e. mem_get (backend cc) k = Some e \<longrightarrow> ce_hash e = k)"

lemma live_entry_Some: "live_entry now cc h = Some e \<longleftrightarrow> mem_get (backend cc) h = Some e \<and> \<not> is_expired now e"
  by (auto simp: live_entry_def split: option.splits)

lemma set_export: "keyed cc \<Longrightarrow>
  e \<in> set (export_entries memory_ops now cc hs) \<longleftrightarrow> ce_hash e \<in> set hs \<and> live_entry now cc (ce_hash e) = Some e"
  unfolding export_entries_iff live_entry_Some keyed_def by metis

lemma map_of_fold_update:
  "inj_on f (set es) \<Longrightarrow> map_of (fold (\<lambda>e. AList.update (f e) (g e)) es d) h =
     (if h \<in> f ` set es then Some (g (the_inv_into (set es) f h)) else map_of d h)"
proof (induction es rule: rev_induct)
  case (snoc e es)
  have inj: "inj_on f (set es)" using snoc.prems by (rule inj_on_subset) auto
  have "the_inv_into (set es) f (f x) = the_inv_into (set (es @ [e])) f (f x)" if "x \<in> set es" for x
    using that the_inv_into_f_f [OF inj that] the_inv_into_f_f [OF snoc.prems, of x] by simp
  moreover have "the_inv_into (set (es @ [e])) f (f e) = e" using the_inv_into_f_f [OF snoc.prems, of e] by simp
  ultimately show ?case using snoc.IH [OF inj] by (auto simp: update_conv')
qed simp

lemma new_records_spec:
  assumes "keyed cc"
  shows "map_of (new_records V memory_ops now cc entry ccr) h =
      (if h \<in> set (ccr_hashes entry) \<and> map_of ccr h = None then map_option (ccr_record V) (live_entry now cc h) else None)"
    and "distinct (map fst (new_records V memory_ops now cc entry ccr))"
proof -
  define es where "es = export_entries memory_ops now cc
    (filter (\<lambda>h. map_of ccr h = None) (rev (remdups (rev (ccr_hashes entry)))))"
  have ex: "export_entries memory_ops now cc [] = []" by (simp add: export_entries_def List.map_filter_simps)
  have rec: "new_records V memory_ops now cc entry ccr =
      fold (\<lambda>e. AList.update (ce_hash e) (ccr_record V e)) es []"
    unfolding new_records_def es_def Let_def using ex by (simp only: if_cancel split: if_split) simp
  have es: "e \<in> set es \<longleftrightarrow> ce_hash e \<in> set (ccr_hashes entry) \<and> map_of ccr (ce_hash e) = None
      \<and> live_entry now cc (ce_hash e) = Some e" for e
    by (auto simp: es_def set_export [OF assms])
  have inj: "inj_on ce_hash (set es)" by (rule inj_onI) (metis es option.inject)
  have inv: "the_inv_into (set es) ce_hash (ce_hash e) = e" if "e \<in> set es" for e
    using the_inv_into_f_f [OF inj that] .
  show "map_of (new_records V memory_ops now cc entry ccr) h =
      (if h \<in> set (ccr_hashes entry) \<and> map_of ccr h = None then map_option (ccr_record V) (live_entry now cc h) else None)"
  proof (cases "h \<in> ce_hash ` set es")
    case True
    then obtain e where "e \<in> set es" "h = ce_hash e" by blast
    then show ?thesis using es [of e] inv [of e] by (simp add: rec map_of_fold_update [OF inj])
  next
    case False
    have "live_entry now cc h = None" if "h \<in> set (ccr_hashes entry)" "map_of ccr h = None"
    proof (rule ccontr)
      assume "live_entry now cc h \<noteq> None"
      then obtain e where e: "live_entry now cc h = Some e" by blast
      then have "ce_hash e = h" using assms by (auto simp: live_entry_Some keyed_def)
      then show False using False es [of e] that e by blast
    qed
    then show ?thesis using False by (simp add: rec map_of_fold_update [OF inj])
  qed
  show "distinct (map fst (new_records V memory_ops now cc entry ccr))"
  proof -
    have "distinct (map fst (fold (\<lambda>e. AList.update (ce_hash e) (ccr_record V e)) xs d))"
      if "distinct (map fst d)" for xs d
      using that by (induction xs arbitrary: d) (auto intro: distinct_update)
    then show ?thesis by (simp add: rec)
  qed
qed

section \<open>What the file holds\<close>

definition parts_of :: "file_env \<Rightarrow> session_store \<Rightarrow> pystr \<times> ptracker \<Rightarrow> pydict \<times> pystr list" where
  "parts_of V s = (\<lambda>(key, t). tracker_parts V s key t (session_of s key))"

lemma updates_lookup:
  "distinct (map fst d) \<Longrightarrow> map_of (AList.updates (map fst d) (map snd d) acc) h =
     (case map_of d h of None \<Rightarrow> map_of acc h | Some r \<Rightarrow> Some r)"
proof (induction d arbitrary: acc)
  case (Cons p d)
  then have "map_of d (fst p) = None" by (simp add: map_of_eq_None_iff)
  then show ?case using Cons by (cases p) (simp add: update_conv' split: option.split)
qed simp

lemma distinct_updates: "distinct (map fst acc) \<Longrightarrow> distinct (map fst (AList.updates ks vs acc))"
  by (rule AList.distinct_updates)

text \<open>The entries are those of some of the trackers \<open>kts\<close>, in order, and the records are those of the
  live CCR entries their texts refer to.\<close>

definition pack_ok ::
    "file_env \<Rightarrow> real \<Rightarrow> mem_store cstore \<Rightarrow> session_store \<Rightarrow> (pystr \<times> ptracker) list \<Rightarrow> packed \<Rightarrow> bool" where
  "pack_ok V now cc s kts p \<longleftrightarrow>
     (\<exists>ws. fst p = map (parts_of V s) ws \<and> subseq ws kts
        \<and> (\<forall>w \<in> set ws. \<forall>h \<in> set (ccr_hashes (entry_text V (parts_of V s w))). \<forall>e.
             live_entry now cc h = Some e \<longrightarrow> map_of (fst (snd p)) h = Some (ccr_record V e)))
     \<and> distinct (map fst (fst (snd p)))
     \<and> (\<forall>h r. map_of (fst (snd p)) h = Some r \<longrightarrow> (\<exists>e. live_entry now cc h = Some e \<and> r = ccr_record V e))"

lemma pack_step:
  assumes "keyed cc" and "pack_ok V now cc s kts p"
  shows "pack_ok V now cc s (kts @ [kt]) (pack V memory_ops now cc s kt p)"
proof -
  obtain key t where kt: "kt = (key, t)" by fastforce
  obtain entries ccr size where p: "p = (entries, ccr, size)" by (cases p)
  obtain ws where ws: "entries = map (parts_of V s) ws" "subseq ws kts"
    and got: "\<And>w h e. w \<in> set ws \<Longrightarrow> h \<in> set (ccr_hashes (entry_text V (parts_of V s w))) \<Longrightarrow>
       live_entry now cc h = Some e \<Longrightarrow> map_of ccr h = Some (ccr_record V e)"
    and dist: "distinct (map fst ccr)"
    and only: "\<And>h r. map_of ccr h = Some r \<Longrightarrow> \<exists>e. live_entry now cc h = Some e \<and> r = ccr_record V e"
    using assms(2) by (auto simp: pack_ok_def p)
  define new where "new = new_records V memory_ops now cc (entry_text V (parts_of V s kt)) ccr"
  note spec = new_records_spec [OF assms(1), of V now "entry_text V (parts_of V s kt)" ccr, folded new_def]
  define ccr' where "ccr' = AList.updates (map fst new) (map snd new) ccr"
  have ccr': "map_of ccr' h = (case map_of new h of None \<Rightarrow> map_of ccr h | Some r \<Rightarrow> Some r)" for h
    unfolding ccr'_def by (rule updates_lookup [OF spec(2)])
  show ?thesis
  proof (cases "fst (pack V memory_ops now cc s kt p) = entries")
    case True
    then have "pack V memory_ops now cc s kt p = p"
      by (auto simp: pack_def p kt Let_def split: if_splits)
    moreover have "subseq ws (kts @ [kt])" using list_emb_append_mono [OF ws(2) list_emb_Nil, of "[kt]"] by simp
    ultimately show ?thesis using assms(2) ws got dist only by (auto simp: pack_ok_def p)
  next
    case False
    then have r: "fst (pack V memory_ops now cc s kt p) = map (parts_of V s) (ws @ [kt])"
      "fst (snd (pack V memory_ops now cc s kt p)) = ccr'"
      by (auto simp: pack_def p kt Let_def ws(1) parts_of_def ccr'_def new_def split: if_splits)
    have "map_of ccr' h = Some (ccr_record V e)"
      if "w \<in> set (ws @ [kt])" "h \<in> set (ccr_hashes (entry_text V (parts_of V s w)))" "live_entry now cc h = Some e"
      for w h e
    proof (cases "map_of ccr h")
      case None
      then have "w = kt" using got that by fastforce
      then show ?thesis using that None by (simp add: ccr' spec(1))
    next
      case (Some r)
      then show ?thesis using only [OF Some] that(3) by (simp add: ccr' spec(1))
    qed
    moreover have "\<exists>e. live_entry now cc h = Some e \<and> r = ccr_record V e" if "map_of ccr' h = Some r" for h r
      using that only by (auto simp: ccr' spec(1) split: option.splits if_splits)
    moreover have "distinct (map fst ccr')" unfolding ccr'_def using dist by (rule distinct_updates)
    moreover have "subseq (ws @ [kt]) (kts @ [kt])" using ws(2) by simp
    ultimately show ?thesis unfolding pack_ok_def r by blast
  qed
qed

lemma packed_ok:
  assumes "keyed cc"
  shows "pack_ok V now cc s (take PREFIX_STATE_MAX_TRACKERS (live_trackers cfg now s))
    (packed_state V memory_ops cfg now cc s)"
proof -
  have "pack_ok V now cc s kts (fold (pack V memory_ops now cc s) kts ([], [], 0))" for kts
  proof (induction kts rule: rev_induct)
    case Nil
    then show ?case by (simp add: pack_ok_def)
  next
    case (snoc kt kts)
    then show ?case using pack_step [OF assms] by simp
  qed
  then show ?thesis by (simp add: packed_state_def)
qed

section \<open>Numbers of lineages\<close>

lemma lineage_number_key: "ucd_ok U \<Longrightarrow> lineage_number U (lineage_key sid n) = Some n"
proof -
  assume U: "ucd_ok U"
  have nz: "c \<noteq> 0" if "c \<in> set (rev (show_nat n))" for c using show_nat_digits that by fastforce
  have "takeWhile (\<lambda>c. c \<noteq> 0) (rev (lineage_key sid n)) = rev (show_nat n)"
    unfolding lineage_key_def rev_append using nz by (subst append.assoc, subst takeWhile_append2) auto
  then show ?thesis using dec_value_show_nat [OF U, of n] show_nat_decimal [OF U, of n] by (simp add: lineage_number_def lineage_key_def)
qed

section \<open>Loading what was saved\<close>

text \<open>The value the text of the whole file spells, given that \<open>json.loads\<close> inverts
  \<open>json.dumps\<close> on the messages: an object of arrays of what their parts spell.\<close>

definition spelled_state :: "file_env \<Rightarrow> packed \<Rightarrow> json" where
  "spelled_state V p = JObj [(u ''version'', JInt 1), (u ''trackers'', JList (map (spelled V) (fst p))),
     (u ''ccr'', JList (map snd (fst (snd p))))]"

definition readable :: "file_env \<Rightarrow> mem_store cstore \<Rightarrow> session_store \<Rightarrow> bool" where
  "readable V cc s \<longleftrightarrow>
     (\<forall>key t. tracker_at s key = Some t \<longrightarrow> reads V (tracker_messages s key t) \<and> exact V (pt_last_activity t))
     \<and> (\<forall>k e. mem_get (backend cc) k = Some e \<longrightarrow> exact_entry V e)"

lemma savableI:
  assumes "readable V cc s" and "sessions_ok cfg s" and "tracker_at s key = Some t"
  shows "savable V s key t"
proof -
  have "length (history_of s key) \<le> 3"
    using sessions_okD(5) [OF assms(2), of key] by (auto simp: history_of_def history_ok_def split: option.split)
  then show ?thesis
    using assms(1,3) sessions_okD(4) [OF assms(2,3)] by (auto simp: savable_def readable_def exact_def)
qed

lemma each_map: "\<forall>x \<in> set xs. f x = Inr (g x) \<Longrightarrow> each f xs = Inr (map g xs)"
  by (induction xs) auto

text \<open>Importing never fails on entries with hexadecimal keys that are not bare markers.\<close>

lemma import_succeeds:
  assumes "store_inv memory_ops mem_wf cc" and "\<forall>e \<in> set es. hex_key (ce_hash e) \<and> \<not> is_bare_marker (original_content e)"
  shows "\<exists>n cc'. import_entries memory_ops sha now cc es k = (Inr n, cc')"
  using assms
proof (induction es arbitrary: cc k)
  case (Cons e es)
  have "hash_key_of sha (a_original (import_args now e)) (a_explicit_hash (import_args now e)) = Inr (ce_hash e)"
    "\<not> is_bare_marker (a_original (import_args now e))"
    using Cons.prems(2) by (simp_all add: import_args_def hash_key_of_def hex_key_def)
  then obtain cc1 where "store memory_ops sha now cc (import_args now e) = (Inr (ce_hash e), cc1)"
    "store_inv memory_ops mem_wf cc1"
    using mem_store_result [OF Cons.prems(1)] by metis
  then show ?case
    using Cons.IH [OF Cons.prems(1)] Cons.IH [of cc1] Cons.prems(2) by simp
qed simp

definition carried :: "real \<Rightarrow> mem_store cstore \<Rightarrow> packed \<Rightarrow> compression_entry list" where
  "carried now cc p = map (\<lambda>(h, _). the (live_entry now cc h)) (fst (snd p))"

lemma carried_entries:
  assumes "pack_ok V now cc s kts p" and "readable V cc s"
  shows "each entry_of_json (map snd (fst (snd p))) = Inr (carried now cc p)"
    and "\<forall>e \<in> set (carried now cc p). \<exists>h. live_entry now cc h = Some e"
proof -
  have r: "\<exists>e. live_entry now cc (fst x) = Some e \<and> snd x = ccr_record V e" if "x \<in> set (fst (snd p))" for x
    using assms(1) that unfolding pack_ok_def by (metis map_of_eq_Some_iff prod.collapse)
  have "entry_of_json (snd x) = Inr (the (live_entry now cc (fst x)))" if x: "x \<in> set (fst (snd p))" for x
  proof -
    obtain e where e: "live_entry now cc (fst x) = Some e" "snd x = ccr_record V e" using r [OF x] by blast
    then have "exact_entry V e" using assms(2) by (auto simp: readable_def live_entry_Some)
    then show ?thesis using e entry_roundtrip by simp
  qed
  then have "each (\<lambda>x. entry_of_json (snd x)) (fst (snd p)) = Inr (carried now cc p)"
    unfolding carried_def case_prod_unfold by (intro each_map) simp
  moreover have "each f (map snd xs) = each (\<lambda>x. f (snd x)) xs" for f :: "json \<Rightarrow> load_error + compression_entry" and xs :: "(pystr \<times> json) list"
    by (induction xs) (simp_all add: each.simps(2))
  ultimately show "each entry_of_json (map snd (fst (snd p))) = Inr (carried now cc p)" by simp
  show "\<forall>e \<in> set (carried now cc p). \<exists>h. live_entry now cc h = Some e"
    using r by (force simp: carried_def case_prod_unfold)
qed

text \<open>A restart: the process saves its store, reachable or not, and a new one with an empty session store
  and the CCR store \<open>cc0\<close> loads the file. \<open>written\<close> and \<open>loaded\<close> are the numbers the two calls
  report.\<close>

definition restart ::
    "ucd \<Rightarrow> file_env \<Rightarrow> (pystr \<Rightarrow> pystr) \<Rightarrow> freeze_config \<Rightarrow> real \<Rightarrow> real \<Rightarrow> session_store \<times> mem_store cstore
       \<Rightarrow> nat \<Rightarrow> mem_store cstore \<Rightarrow> nat \<Rightarrow> session_store \<times> mem_store cstore \<Rightarrow> bool" where
  "restart U V sha cfg now later = (\<lambda>(s, cc) written cc0 loaded (s', cc').
     readable V cc s \<and>
     (\<exists>file text t0 removable file'.
        save_state V memory_ops cfg False True now cc s file = (written, Some text)
        \<and> fe_loads V text = Some (spelled_state V (packed_state V memory_ops cfg now cc s))
        \<and> reachable_store sha cc0
        \<and> load_state U V memory_ops sha cfg False removable later (Some text) (new_session_store t0) cc0
            = (Some loaded, file', s', cc')))"

lemma subseq_sub: "subseq xs ys \<Longrightarrow> set xs \<subseteq> set ys" "subseq xs ys \<Longrightarrow> distinct ys \<Longrightarrow> distinct xs"
  by (auto simp: subseq_conv_nths set_nths distinct_nthsI)

lemma distinct_live: "distinct (map fst (ss_trackers s)) \<Longrightarrow> distinct (map fst (live_trackers cfg now s))"
proof -
  assume "distinct (map fst (ss_trackers s))"
  then have "distinct (map fst (filter (\<lambda>(_, t). \<not> tracker_expired cfg now t) (ss_trackers s)))"
    by (rule distinct_map_filter)
  moreover have "mset (map fst (live_trackers cfg now s)) =
      mset (map fst (filter (\<lambda>(_, t). \<not> tracker_expired cfg now t) (ss_trackers s)))"
    by (simp add: live_trackers_def)
  ultimately show ?thesis by (metis mset_eq_imp_distinct_iff)
qed

lemma set_live: "distinct (map fst (ss_trackers s)) \<Longrightarrow>
  (key, t) \<in> set (live_trackers cfg now s) \<longleftrightarrow> tracker_at s key = Some t \<and> \<not> tracker_expired cfg now t"
  by (auto simp: live_trackers_def)

text \<open>What decoding the file does: the trackers \<open>ws\<close> were written, those not gone are installed.\<close>

lemma decode_saved:
  assumes "readable V cc s" and "sessions_ok cfg s" and "reachable_store sha cc" and "hexdigest_ok sha"
    and "reachable_store sha cc0" and "p = packed_state V memory_ops cfg now cc s"
  obtains ws n cc1 where "subseq ws (take PREFIX_STATE_MAX_TRACKERS (live_trackers cfg now s))"
    and "fst p = map (parts_of V s) ws"
    and "pack_ok V now cc s (take PREFIX_STATE_MAX_TRACKERS (live_trackers cfg now s)) p"
    and "import_entries memory_ops sha later cc0 (carried now cc p) 0 = (Inr n, cc1)"
    and "decode_state U memory_ops sha cfg later (spelled_state V p) (new_session_store t0) cc0 =
      (Inr (length (filter (\<lambda>(_, t). \<not> gone cfg later t) ws)),
       install_all U (collect_all s (filter (\<lambda>(_, t). \<not> gone cfg later t) (rev ws)) (empty_load 0)) (new_session_store t0),
       if carried now cc p \<noteq> [] \<and> length (filter (\<lambda>(_, t). \<not> gone cfg later t) ws) \<noteq> 0 then cc1 else cc0)"
proof -
  let ?live = "take PREFIX_STATE_MAX_TRACKERS (live_trackers cfg now s)"
  have okcc: "entry_ok k e \<and> hex_key k" if "mem_get (backend cc) k = Some e" for k e
    using ok.reachable_sat [OF assms(3)] hexkey.reachable_sat [OF assms(3)] assms(4) that
    by (auto simp: all_entries_def)
  then have keyed: "keyed cc" by (auto simp: keyed_def entry_ok_def)
  note ok = packed_ok [OF keyed, of V now s cfg, folded assms(6)]
  obtain ws where ws: "fst p = map (parts_of V s) ws" "subseq ws ?live" using ok unfolding pack_ok_def by blast
  note dist = sessions_okD(1) [OF assms(2)]
  have mem: "(key, t) \<in> set (live_trackers cfg now s)" if "(key, t) \<in> set ws" for key t
    using subseq_sub(1) [OF ws(2)] that by (auto dest: in_set_takeD)
  have sav: "\<forall>(key, t) \<in> set (rev ws). savable V s key t"
    using savableI [OF assms(1,2)] set_live [OF dist] mem by auto
  define L where "L = collect_all s (filter (\<lambda>(_, t). \<not> gone cfg later t) (rev ws)) (empty_load 0)"
  have dec: "decode_entries cfg later (rev (map (spelled V) (fst p))) (empty_load 0) = Inr L"
    using decode_entries_spelled [OF sav, of cfg later "empty_load 0"]
    by (simp add: ws(1) L_def rev_map spelled_tracker_def parts_of_def comp_def case_prod_unfold)
  note carried = carried_entries [OF ok assms(1)]
  have "\<forall>e \<in> set (carried now cc p). hex_key (ce_hash e) \<and> \<not> is_bare_marker (original_content e)"
    using carried(2) okcc by (fastforce simp: live_entry_Some entry_ok_def)
  then obtain n cc1 where imp: "import_entries memory_ops sha later cc0 (carried now cc p) 0 = (Inr n, cc1)"
    using import_succeeds [OF reachable_store_inv [OF assms(5)]] by blast
  have "distinct (map fst ws)"
    using subseq_sub(2) [OF subseq_map [OF ws(2), of fst]] distinct_live [OF dist] by (simp add: distinct_take flip: take_map)
  then have "distinct (map fst (filter (\<lambda>(_, t). \<not> gone cfg later t) (rev ws)))"
    by (intro distinct_map_filter) (simp add: rev_map [symmetric])
  then have n: "length (ld_trackers L) = length (filter (\<lambda>(_, t). \<not> gone cfg later t) ws)"
    using collected(1) [OF _ L_def] by (simp add: rev_filter [symmetric])
  then have "ld_trackers L \<noteq> [] \<longleftrightarrow> length (filter (\<lambda>(_, t). \<not> gone cfg later t) ws) \<noteq> 0" by auto
  then have "decode_state U memory_ops sha cfg later (spelled_state V p) (new_session_store t0) cc0 =
      (Inr (length (ld_trackers L)), install_all U L (new_session_store t0),
       if carried now cc p \<noteq> [] \<and> length (filter (\<lambda>(_, t). \<not> gone cfg later t) ws) \<noteq> 0 then cc1 else cc0)"
    using dec carried(1) imp
    by (simp add: decode_state_def spelled_state_def as_list_def new_session_store_def empty_load_def)
  then show thesis using that [OF ws(2,1) ok imp] n [unfolded L_def] by (simp only: L_def)
qed

lemma restart_exists:
  assumes "readable V cc s" and "sessions_ok cfg s" and "reachable_store sha cc" and "hexdigest_ok sha"
    and "reachable_store sha cc0" and "p = packed_state V memory_ops cfg now cc s"
    and "fe_loads V (state_text V p) = Some (spelled_state V p)"
  shows "\<exists>loaded s' cc'. restart U V sha cfg now later (s, cc) (length (fst p)) cc0 loaded (s', cc')"
proof (rule decode_saved [OF assms(1-6), of later U 0])
  fix ws :: "(pystr \<times> ptracker) list" and n cc1
  let ?k = "length (filter (\<lambda>(_, t). \<not> gone cfg later t) ws)"
  let ?s = "install_all U (collect_all s (filter (\<lambda>(_, t). \<not> gone cfg later t) (rev ws)) (empty_load 0)) (new_session_store 0)"
  let ?cc = "if carried now cc p \<noteq> [] \<and> ?k \<noteq> 0 then cc1 else cc0"
  assume d: "decode_state U memory_ops sha cfg later (spelled_state V p) (new_session_store 0) cc0 = (Inr ?k, ?s, ?cc)"
  have "load_state U V memory_ops sha cfg False True later (Some (state_text V p)) (new_session_store 0) cc0 =
      (Some ?k, None, ?s, ?cc)"
    by (simp add: load_state_def assms(7) d)
  moreover have "save_state V memory_ops cfg False True now cc s None = (length (fst p), Some (state_text V p))"
    by (simp add: save_state_def assms(6) Let_def)
  ultimately have "restart U V sha cfg now later (s, cc) (length (fst p)) cc0 ?k (?s, ?cc)"
    using assms(1,5,6,7) unfolding restart_def by fast
  then show ?thesis by blast
qed

text \<open>The trackers written and not gone when the file is loaded, in the order they are loaded.\<close>

lemma restart_state:
  assumes "restart U V sha cfg now later (s, cc) written cc0 loaded (s', cc')"
    and "sessions_ok cfg s" and "reachable_store sha cc" and "hexdigest_ok sha"
  obtains ws t0 p n where "subseq ws (take PREFIX_STATE_MAX_TRACKERS (live_trackers cfg now s))" and "length ws = written"
    and "length (filter (\<lambda>(_, t). \<not> gone cfg later t) ws) = loaded"
    and "s' = install_all U (collect_all s (filter (\<lambda>(_, t). \<not> gone cfg later t) (rev ws)) (empty_load 0))
      (new_session_store t0)"
    and "pack_ok V now cc s (take PREFIX_STATE_MAX_TRACKERS (live_trackers cfg now s)) p"
    and "fst p = map (parts_of V s) ws" and "reachable_store sha cc0"
    and "carried now cc p \<noteq> [] \<Longrightarrow> loaded \<noteq> 0 \<Longrightarrow>
      import_entries memory_ops sha later cc0 (carried now cc p) 0 = (Inr n, cc')"
proof -
  obtain f0 body t0 rm file' where
    save: "save_state V memory_ops cfg False True now cc s f0 = (written, Some body)"
    and loads: "fe_loads V body = Some (spelled_state V (packed_state V memory_ops cfg now cc s))"
    and cc0: "reachable_store sha cc0"
    and load: "load_state U V memory_ops sha cfg False rm later (Some body) (new_session_store t0) cc0
        = (Some loaded, file', s', cc')"
    and rd: "readable V cc s"
    using assms(1) unfolding restart_def by auto
  let ?p = "packed_state V memory_ops cfg now cc s"
  show thesis
  proof (rule decode_saved [OF rd assms(2-4) cc0 refl, of now later U t0])
    fix ws :: "(pystr \<times> ptracker) list" and n cc1
    let ?k = "length (filter (\<lambda>(_, t). \<not> gone cfg later t) ws)"
    let ?s = "install_all U (collect_all s (filter (\<lambda>(_, t). \<not> gone cfg later t) (rev ws)) (empty_load 0)) (new_session_store t0)"
    assume ws: "subseq ws (take PREFIX_STATE_MAX_TRACKERS (live_trackers cfg now s))" "fst ?p = map (parts_of V s) ws"
      "pack_ok V now cc s (take PREFIX_STATE_MAX_TRACKERS (live_trackers cfg now s)) ?p"
      and imp: "import_entries memory_ops sha later cc0 (carried now cc ?p) 0 = (Inr n, cc1)"
      and d: "decode_state U memory_ops sha cfg later (spelled_state V ?p) (new_session_store t0) cc0 =
        (Inr ?k, ?s, if carried now cc ?p \<noteq> [] \<and> ?k \<noteq> 0 then cc1 else cc0)"
    have len: "length ws = written" using save ws(2) by (simp add: save_state_def Let_def)
    have "loaded = ?k" "s' = ?s" "cc' = (if carried now cc ?p \<noteq> [] \<and> ?k \<noteq> 0 then cc1 else cc0)"
      using load by (auto simp: load_state_def loads d)
    then show thesis using that [OF ws(1) len _ _ ws(3,2) cc0, of t0 n] imp by simp
  qed
qed

lemma session_of_family:
  assumes "lineages_ok cfg (ss_lineages s)" and "session_of s key = Some sid"
  shows "\<exists>fam. map_of (ss_lineages s) sid = Some fam \<and> key \<in> fst ` set fam"
proof -
  have "(key, sid) \<in> set (concat (map (\<lambda>(sid, fam). map (\<lambda>(k, _). (k, sid)) fam) (ss_lineages s)))"
    using map_of_SomeD [OF assms(2) [unfolded session_of_def]] by simp
  then obtain fam where "(sid, fam) \<in> set (ss_lineages s)" "key \<in> fst ` set fam" by force
  then show ?thesis using assms(1) by (auto simp: lineages_ok_def)
qed

lemma members_bound:
  assumes "lineages_ok cfg (ss_lineages s)" and "distinct (map fst ks)"
  shows "int (length (members s sid ks)) \<le> max 0 (fc_max_lineages cfg)"
proof (cases "members s sid ks")
  case (Cons key ms)
  then have "key \<in> set (members s sid ks)" by simp
  then have "session_of s key = Some sid" by (simp add: members_def)
  then obtain fam where fam: "map_of (ss_lineages s) sid = Some fam"
    using session_of_family [OF assms(1)] by blast
  have "set (members s sid ks) \<subseteq> fst ` set fam"
    using session_of_family [OF assms(1)] fam by (fastforce simp: members_def)
  have "distinct (members s sid ks)" using assms(2) by (simp add: members_def)
  then have "card (set (members s sid ks)) = length (members s sid ks)" by (rule distinct_card)
  moreover have "card (fst ` set fam) \<le> length fam" using card_length [of "map fst fam"] by simp
  ultimately have "length (members s sid ks) \<le> length fam"
    using card_mono [OF _ \<open>set (members s sid ks) \<subseteq> fst ` set fam\<close>] by simp
  then show ?thesis using assms(1) map_of_SomeD [OF fam] by (fastforce simp: lineages_ok_def)
qed simp

lemma map_of_graph: "map_of (map (\<lambda>k. (k, f k)) xs) k = (if k \<in> set xs then Some (f k) else None)"
  by (induction xs) auto

lemma map_of_collected:
  assumes "distinct (map fst ks)"
  shows "map_of (map (\<lambda>((key, t), i). (key, restored i t)) (zip ks [n..<n + length ks])) key = Some r \<longleftrightarrow>
    (\<exists>j < length ks. fst (ks ! j) = key \<and> r = restored (n + j) (snd (ks ! j)))"
proof -
  let ?d = "map (\<lambda>((key, t), i). (key, restored i t)) (zip ks [n..<n + length ks])"
  have "map fst ?d = map fst ks"
    by (rule nth_equalityI) (auto simp: case_prod_unfold)
  then have "distinct (map fst ?d)" using assms by simp
  then have "map_of ?d key = Some r \<longleftrightarrow> (key, r) \<in> set ?d" by (rule map_of_eq_Some_iff)
  also have "\<dots> \<longleftrightarrow> (\<exists>j < length ks. fst (ks ! j) = key \<and> r = restored (n + j) (snd (ks ! j)))"
    unfolding in_set_conv_nth by (auto simp: case_prod_unfold prod_eq_iff)
  finally show ?thesis .
qed

lemma restart_spec:
  assumes "restart U V sha cfg now later (s, cc) written cc0 loaded (s', cc')"
    and "sessions_ok cfg s" and "reachable_store sha cc" and "hexdigest_ok sha" and "ucd_ok U"
  obtains ws p n where "subseq ws (take PREFIX_STATE_MAX_TRACKERS (live_trackers cfg now s))" and "length ws = written"
    and "\<And>key t. (key, t) \<in> set ws \<Longrightarrow> \<not> gone cfg later t \<Longrightarrow> \<exists>i. tracker_at s' key = Some (restored i t)"
    and "\<And>key r. tracker_at s' key = Some r \<Longrightarrow> \<exists>i t. (key, t) \<in> set ws \<and> \<not> gone cfg later t \<and> r = restored i t"
    and "\<And>key. map_of (ss_history s') key =
      (if tracker_at s' key = None \<or> history_of s key = [] then None else Some (history_of s key))"
    and "\<And>sid key chain. (\<exists>fam. map_of (ss_lineages s') sid = Some fam \<and> (key, chain) \<in> set fam) \<longleftrightarrow>
      tracker_at s' key \<noteq> None \<and> history_of s key \<noteq> [] \<and> session_of s key = Some sid \<and> chain = newest s key"
    and "\<And>key. affinity_of s' key =
      (if tracker_at s' key \<noteq> None \<and> history_of s key \<noteq> [] \<and> session_of s key \<noteq> None then affinity_of s key else None)"
    and "sessions_ok cfg s'" and "length (filter (\<lambda>(_, t). \<not> gone cfg later t) ws) = loaded"
    and "pack_ok V now cc s (take PREFIX_STATE_MAX_TRACKERS (live_trackers cfg now s)) p"
    and "fst p = map (parts_of V s) ws"
    and "carried now cc p \<noteq> [] \<Longrightarrow> loaded \<noteq> 0 \<Longrightarrow>
      import_entries memory_ops sha later cc0 (carried now cc p) 0 = (Inr n, cc')"
proof (rule restart_state [OF assms(1-4)])
  fix ws t0 p n
  assume ws: "subseq ws (take PREFIX_STATE_MAX_TRACKERS (live_trackers cfg now s))" "length ws = written"
    and s': "s' = install_all U (collect_all s (filter (\<lambda>(_, t). \<not> gone cfg later t) (rev ws)) (empty_load 0))
      (new_session_store t0)"
    and packed: "length (filter (\<lambda>(_, t). \<not> gone cfg later t) ws) = loaded"
      "pack_ok V now cc s (take PREFIX_STATE_MAX_TRACKERS (live_trackers cfg now s)) p" "fst p = map (parts_of V s) ws"
      "carried now cc p \<noteq> [] \<Longrightarrow> loaded \<noteq> 0 \<Longrightarrow>
         import_entries memory_ops sha later cc0 (carried now cc p) 0 = (Inr n, cc')"
  define ks where "ks = filter (\<lambda>(_, t). \<not> gone cfg later t) (rev ws)"
  define L where "L = collect_all s ks (empty_load 0)"
  note dist = sessions_okD(1) [OF assms(2)]
  have dws: "distinct (map fst ws)"
    using subseq_sub(2) [OF subseq_map [OF ws(1), of fst]] distinct_live [OF dist] by (simp add: distinct_take flip: take_map)
  then have dks: "distinct (map fst ks)" unfolding ks_def by (intro distinct_map_filter) (simp add: rev_map [symmetric])
  note col = collected [OF dks L_def]
  have ks: "(key, t) \<in> set ks \<longleftrightarrow> (key, t) \<in> set ws \<and> \<not> gone cfg later t" for key t by (auto simp: ks_def)
  have at: "tracker_at s key = Some t" if "(key, t) \<in> set ks" for key t
    using that subseq_sub(1) [OF ws(1)] set_live [OF dist] unfolding ks by (blast dest: in_set_takeD)
  have fams: "distinct (map fst fam) \<and> fam = map (\<lambda>key. (key, newest s key)) (members s sid ks)"
    if "map_of (ld_families L) sid = Some fam" for sid fam
  proof -
    have "fam = map (\<lambda>key. (key, newest s key)) (members s sid ks)" using that by (simp add: col(6) split: if_splits)
    then show ?thesis using dks by (simp add: comp_def members_def)
  qed
  have "distinct (map fst (ld_trackers L))"
  proof -
    have "map fst (ld_trackers L) = map fst ks"
      unfolding col(1) by (rule nth_equalityI) (auto simp: case_prod_unfold)
    then show ?thesis using dks by simp
  qed
  moreover have "\<forall>(sid, fam) \<in> set (ld_families L). distinct (map fst fam)"
    using fams map_of_is_SomeI [OF col(5)] by blast
  ultimately have st: "ss_trackers s' = ld_trackers L" "ss_history s' = ld_histories L"
    "ss_affinities s' = ld_affinities L" "ss_lineages s' = ld_families L"
    unfolding s' ks_def [symmetric] L_def [symmetric]
    using install_new [of L U t0] dks col(5) by (simp_all add: col(3,4) comp_def)
  have tr: "tracker_at s' key = Some r \<longleftrightarrow> (\<exists>j < length ks. fst (ks ! j) = key \<and> r = restored j (snd (ks ! j)))" for key r
    unfolding st col(1) using map_of_collected [OF dks, of 0] by simp
  have some: "tracker_at s' key \<noteq> None \<longleftrightarrow> key \<in> fst ` set ks" for key
  proof -
    have "tracker_at s' key \<noteq> None \<longleftrightarrow> (\<exists>j < length ks. fst (ks ! j) = key)" using tr [of key] by auto
    then show ?thesis unfolding set_conv_nth image_def by blast
  qed
  have hist: "map_of (ss_history s') key =
      (if tracker_at s' key = None \<or> history_of s key = [] then None else Some (history_of s key))" for key
    using some [of key] by (auto simp: st(2) col(3) map_of_graph)
  show thesis
  proof (rule that [OF ws _ _ _ _ _ _ packed])
    show "\<exists>i. tracker_at s' key = Some (restored i t)" if "(key, t) \<in> set ws" "\<not> gone cfg later t" for key t
    proof -
      have "(key, t) \<in> set ks" using that ks by blast
      then obtain j where j: "j < length ks" "ks ! j = (key, t)" unfolding in_set_conv_nth by blast
      then have "tracker_at s' key = Some (restored j t)" unfolding tr by (intro exI [of _ j]) simp
      then show ?thesis by blast
    qed
    show "\<exists>i t. (key, t) \<in> set ws \<and> \<not> gone cfg later t \<and> r = restored i t" if "tracker_at s' key = Some r" for key r
    proof -
      have "\<exists>j < length ks. fst (ks ! j) = key \<and> r = restored j (snd (ks ! j))" using that unfolding tr .
      then obtain j where j: "j < length ks" "fst (ks ! j) = key" "r = restored j (snd (ks ! j))" by blast
      then have "(key, snd (ks ! j)) \<in> set ks" using nth_mem [OF j(1)] by (cases "ks ! j") simp
      then have "(key, snd (ks ! j)) \<in> set ws \<and> \<not> gone cfg later (snd (ks ! j))" unfolding ks .
      then show ?thesis unfolding j(3) by (intro exI [of _ j] exI [of _ "snd (ks ! j)"]) simp
    qed
    show "map_of (ss_history s') key =
      (if tracker_at s' key = None \<or> history_of s key = [] then None else Some (history_of s key))" for key
      by (rule hist)
    show "(\<exists>fam. map_of (ss_lineages s') sid = Some fam \<and> (key, chain) \<in> set fam) \<longleftrightarrow>
      tracker_at s' key \<noteq> None \<and> history_of s key \<noteq> [] \<and> session_of s key = Some sid \<and> chain = newest s key"
      for sid key chain
    proof -
      have "(\<exists>fam. map_of (ld_families L) sid = Some fam \<and> (key, chain) \<in> set fam) \<longleftrightarrow>
          key \<in> set (members s sid ks) \<and> chain = newest s key"
        using col(6) [of sid] by (cases "members s sid ks = []") auto
      also have "key \<in> set (members s sid ks) \<longleftrightarrow>
          key \<in> fst ` set ks \<and> history_of s key \<noteq> [] \<and> session_of s key = Some sid"
        unfolding members_def by simp
      finally show ?thesis unfolding st(4) some by blast
    qed
    show "affinity_of s' key = (if tracker_at s' key \<noteq> None \<and> history_of s key \<noteq> [] \<and> session_of s key \<noteq> None
      then affinity_of s key else None)" for key
      unfolding some by (auto simp: affinity_of_def [of s'] st(3) col(4) map_of_graph)
    show "sessions_ok cfg s'"
    proof (rule sessions_okI)
      show "distinct (map fst (ss_trackers s'))" unfolding st by fact
      show "lineages_ok cfg (ss_lineages s')"
        unfolding lineages_ok_def st
        using col(5) fams map_of_is_SomeI [OF col(5)] members_bound [OF sessions_okD(2) [OF assms(2)] dks] by fastforce
      show "key_ok (ss_lineage_counter s') key \<and> ptracker_ok r" if r: "tracker_at s' key = Some r" for key r
      proof -
        have "\<exists>j < length ks. fst (ks ! j) = key \<and> r = restored j (snd (ks ! j))" using r unfolding tr .
        then obtain j where j: "j < length ks" "fst (ks ! j) = key" "r = restored j (snd (ks ! j))" by blast
        then have old: "tracker_at s key = Some (snd (ks ! j))" using at nth_mem [OF j(1)] by (cases "ks ! j") simp
        have "(key, r) \<in> set (ld_trackers L)" using r st(1) by (simp add: map_of_SomeD)
        then have less: "lineage_number U key = Some n \<Longrightarrow> n < ss_lineage_counter s'" for n
          unfolding s' ks_def [symmetric] L_def [symmetric] by (rule install_counters(3))
        have "key_ok (ss_lineage_counter s) key" by (rule sessions_okD(3) [OF assms(2) old])
        then have "key_ok (ss_lineage_counter s') key"
          unfolding key_ok_def using less lineage_number_key [OF assms(5)] by blast
        moreover have "ptracker_ok r"
          using sessions_okD(4) [OF assms(2) old] by (simp add: j(3) ptracker_ok_restored)
        ultimately show ?thesis ..
      qed
      show "history_ok (ss_turn_counter s') h" if h: "map_of (ss_history s') key = Some h" for key h
      proof -
        have "h = history_of s key" "h \<noteq> []" using h by (auto simp: hist split: if_splits)
        then have old: "map_of (ss_history s) key = Some h" by (auto simp: history_of_def split: option.splits)
        have "(key, h) \<in> set (ld_histories L)" using h st(2) by (simp add: map_of_SomeD)
        then have "\<forall>m \<in> set (map snd h). m < ss_turn_counter s'"
          unfolding s' ks_def [symmetric] L_def [symmetric] using install_counters(1) by fastforce
        then show ?thesis using sessions_okD(5) [OF assms(2) old] by (simp add: history_ok_def)
      qed
    qed
  qed
qed

section \<open>Properties of a restart\<close>

lemma map_of_answered: "map_of ts n = Some (Some S) \<Longrightarrow> map_of (answered ts) n = Some (Some S)"
  by (induction ts) (auto simp: answered_def split: if_splits)

lemma kept_restart:
  assumes "restart U V sha cfg now later (s, cc) written cc0 loaded (s', cc')"
    and "sessions_ok cfg s" and "reachable_store sha cc" and "hexdigest_ok sha" and "ucd_ok U"
    and "kept key turn c S s" and "tracker_at s' key \<noteq> None"
  shows "kept key turn c S s'"
proof (rule restart_spec [OF assms(1-5)])
  fix ws p n
  assume ws: "subseq ws (take PREFIX_STATE_MAX_TRACKERS (live_trackers cfg now s))"
    and tr: "\<And>key r. tracker_at s' key = Some r \<Longrightarrow> \<exists>i t. (key, t) \<in> set ws \<and> \<not> gone cfg later t \<and> r = restored i t"
    and hist: "\<And>key. map_of (ss_history s') key =
      (if tracker_at s' key = None \<or> history_of s key = [] then None else Some (history_of s key))"
    and ok: "sessions_ok cfg s'"
  obtain h t where h: "map_of (ss_history s) key = Some h" "(c, turn) \<in> set (take 2 h)" "distinct (map snd h)"
    and t: "tracker_at s key = Some t" "map_of (pt_turn_states t) turn = Some (Some S)"
    using assms(6) unfolding kept_def by blast
  obtain r where r: "tracker_at s' key = Some r" using assms(7) by blast
  obtain i t' where t': "(key, t') \<in> set ws" "r = restored i t'" using tr [OF r] by blast
  have "tracker_at s key = Some t'"
    using subseq_sub(1) [OF ws] t'(1) set_live [OF sessions_okD(1) [OF assms(2)]] by (blast dest: in_set_takeD)
  then have st: "map_of (pt_turn_states r) turn = Some (Some S)" using t t'(2) by (simp add: map_of_answered)
  have "history_of s key = h" "h \<noteq> []" using h by (auto simp: history_of_def)
  then have h': "map_of (ss_history s') key = Some h" using hist [of key] r by simp
  show ?thesis
    using sessions_okD(1) [OF ok] sessions_okD(5) [OF ok h'] h' h(2,3) r st unfolding kept_def history_ok_def by blast
qed

text \<open>C12: A turn survives a graceful restart. When a request has been answered, and after any traffic the
  proxy saves its session store, which a new process loads, then every later request that the new store
  matches to that turn resumes exactly the state its response left: the messages forwarded before the
  restart are what is replayed after it, so the provider's cached prefix stays valid.\<close>

theorem turn_survives_restart:
  assumes "sessions U E cfg s" and "0 \<notin> set sid"
    and "resolve_tracker E cfg now sid provider (Some ms) affinity ttl None s = (t, Some (i, turn, st), s1)"
    and "update_from_response U E now1 rd wr messages counts orig (Some (i, turn, st)) t = ((t1, R1), Inr ())"
    and "hexdigest_ok sha" and "ucd_ok U"
  shows "\<exists>key. tracker_at s1 key = Some t \<and>
    (\<forall>s2 cc now2 later written cc0 loaded s3 cc' now3 ms3 ttl3 R t3 R3 s4.
       meanwhile U E cfg key turn (put_tracker key t1 s1) s2 \<longrightarrow> sessions U E cfg s2 \<longrightarrow> reachable_store sha cc \<longrightarrow>
       restart U V sha cfg now2 later (s2, cc) written cc0 loaded (s3, cc') \<longrightarrow>
       matched_to E cfg now3 sid provider ms3 affinity s3 key turn \<longrightarrow>
       resolve_tracker E cfg now3 sid provider (Some ms3) affinity ttl3 R s3 = (t3, R3, s4) \<longrightarrow>
       request_turn_state R3 t3 = pt_state t1 \<and> get_last_forwarded_messages R3 t3 = messages)"
proof -
  obtain key where k: "tracker_at s1 key = Some t"
    and kept: "kept key turn (canonicalize_list ms) (pt_state t1) (put_tracker key t1 s1)"
    and fwd: "ts_forwarded (pt_state t1) = messages"
    by (rule answered_kept [OF assms(1-4)])
  show ?thesis
  proof (intro exI [of _ key] conjI allI impI)
    show "tracker_at s1 key = Some t" by (rule k)
    fix s2 cc now2 later written cc0 loaded s3 cc' now3 ms3 ttl3 R t3 R3 s4
    assume m: "meanwhile U E cfg key turn (put_tracker key t1 s1) s2" "sessions U E cfg s2" "reachable_store sha cc"
      "restart U V sha cfg now2 later (s2, cc) written cc0 loaded (s3, cc')"
      "matched_to E cfg now3 sid provider ms3 affinity s3 key turn"
      "resolve_tracker E cfg now3 sid provider (Some ms3) affinity ttl3 R s3 = (t3, R3, s4)"
    obtain fam s3' where p: "prune_family cfg now3 sid s3 = (fam, s3')" by fastforce
    have "best_lineage E provider s3' affinity (canonicalize_list ms3) fam = Some (key, Some turn)"
      using m(5) p by (simp add: matched_to_def)
    then have "key \<in> fst ` set fam" using best_lineage_sound unfolding continues_def by blast
    then have "peek cfg now3 key s3 \<noteq> None" using prune_family_spec(1) [OF p] by blast
    then have "tracker_at s3 key \<noteq> None" by (auto simp: peek_def split: option.splits)
    then have "kept key turn (canonicalize_list ms) (pt_state t1) s3"
      by (rule kept_restart [OF m(4) sessions_are_ok [OF m(2)] m(3) assms(5,6) meanwhile_keeps [OF m(1) kept]])
    then show "request_turn_state R3 t3 = pt_state t1" by (rule matched_keeps(2) [OF _ m(5,6)])
    then show "get_last_forwarded_messages R3 t3 = messages"
      by (simp add: get_last_forwarded_messages_def fwd)
  qed
qed

text \<open>C20: Saving and loading is a round trip. When every live tracker was written, the new process holds,
  under the same key, each tracker that is not past its retention when the file is loaded and nothing
  else; provider, turn state, the states of answered turns, activity time, snapshots and cache affinity
  are those before the restart, and the lineages of every session are the same.\<close>

theorem restart_roundtrip:
  assumes "restart U V sha cfg now later (s, cc) written cc0 loaded (s', cc')" and "sessions U E cfg s"
    and "reachable_store sha cc" and "hexdigest_ok sha" and "ucd_ok U"
    and "written = length (live_trackers cfg now s)"
  shows "(case tracker_at s key of
      None \<Rightarrow> tracker_at s' key = None
    | Some t \<Rightarrow>
        if tracker_expired cfg now t \<or> gone cfg later t then tracker_at s' key = None
        else (\<exists>i. tracker_at s' key = Some (restored i t)) \<and> history_of s' key = history_of s key
          \<and> (\<forall>sid chain. (\<exists>fam. map_of (ss_lineages s') sid = Some fam \<and> (key, chain) \<in> set fam) \<longleftrightarrow>
               history_of s key \<noteq> [] \<and> session_of s key = Some sid \<and> chain = newest s key)
          \<and> (history_of s key \<noteq> [] \<and> session_of s key \<noteq> None \<longrightarrow> affinity_of s' key = affinity_of s key))"
proof (rule restart_spec [OF assms(1) sessions_are_ok [OF assms(2)] assms(3-5)])
  fix ws p n
  assume ws: "subseq ws (take PREFIX_STATE_MAX_TRACKERS (live_trackers cfg now s))" "length ws = written"
    and there: "\<And>key t. (key, t) \<in> set ws \<Longrightarrow> \<not> gone cfg later t \<Longrightarrow> \<exists>i. tracker_at s' key = Some (restored i t)"
    and only: "\<And>key r. tracker_at s' key = Some r \<Longrightarrow> \<exists>i t. (key, t) \<in> set ws \<and> \<not> gone cfg later t \<and> r = restored i t"
    and hist: "\<And>key. map_of (ss_history s') key =
      (if tracker_at s' key = None \<or> history_of s key = [] then None else Some (history_of s key))"
    and fams: "\<And>sid key chain. (\<exists>fam. map_of (ss_lineages s') sid = Some fam \<and> (key, chain) \<in> set fam) \<longleftrightarrow>
      tracker_at s' key \<noteq> None \<and> history_of s key \<noteq> [] \<and> session_of s key = Some sid \<and> chain = newest s key"
    and aff: "\<And>key. affinity_of s' key =
      (if tracker_at s' key \<noteq> None \<and> history_of s key \<noteq> [] \<and> session_of s key \<noteq> None then affinity_of s key else None)"
  have "length ws \<le> length (take PREFIX_STATE_MAX_TRACKERS (live_trackers cfg now s))"
    using ws(1) by (rule list_emb_length)
  then have "take PREFIX_STATE_MAX_TRACKERS (live_trackers cfg now s) = live_trackers cfg now s"
    using ws(2) assms(6) by simp
  then have live: "ws = live_trackers cfg now s" using ws assms(6) subseq_same_length by metis
  have mem: "(key, t) \<in> set ws \<longleftrightarrow> tracker_at s key = Some t \<and> \<not> tracker_expired cfg now t" for t
    unfolding live by (rule set_live [OF sessions_okD(1) [OF sessions_are_ok [OF assms(2)]]])
  have none: "tracker_at s' key = None" if "\<And>t. tracker_at s key = Some t \<Longrightarrow> tracker_expired cfg now t \<or> gone cfg later t"
    using only [of key] that mem by (cases "tracker_at s' key") auto
  show ?thesis
  proof (cases "tracker_at s key")
    case None
    then show ?thesis using none by simp
  next
    case (Some t)
    show ?thesis
    proof (cases "tracker_expired cfg now t \<or> gone cfg later t")
      case True
      then show ?thesis using Some none by simp
    next
      case False
      then obtain i where i: "tracker_at s' key = Some (restored i t)" using there [of key t] mem Some by blast
      then have "history_of s' key = history_of s key" using hist [of key] by (simp add: history_of_def [of s'])
      then show ?thesis using Some False i fams [of _ key] aff [of key] by simp blast
    qed
  qed
qed

section \<open>Any file\<close>

lemma bindR_InrE: "bindR r f = Inr y \<Longrightarrow> (\<And>x. r = Inr x \<Longrightarrow> f x = Inr y \<Longrightarrow> P) \<Longrightarrow> P"
  by (auto simp: bindR_eq_Inr)

lemma item_Inr: "item v k = Inr w \<longleftrightarrow> (\<exists>d. v = JObj d \<and> map_of d (u k) = Some w)"
  by (auto simp: item_def split: json.splits option.splits)

lemma as_str_Inr [simp]: "as_str v = Inr x \<longleftrightarrow> v = JStr x"
  by (auto simp: as_str_def split: json.splits)

lemma gone_simps [simp]:
  "gone cfg now (t\<lparr>pt_state := st, pt_restored := b, pt_turn_states := ts\<rparr>) = gone cfg now t"
  by (simp add: gone_def tracker_expired_def is_expired_for_cache_ttl_def retention_seconds_def)

lemma new_ptracker_activity [simp]: "pt_last_activity (new_ptracker i provider la) = la"
  by (simp add: new_ptracker_def)

lemma decode_tracker_sound:
  assumes "decode_tracker cfg now i entry = Inr (Some t)"
  shows "pt_restored t \<and> \<not> gone cfg now t"
  using assms unfolding decode_tracker_def Let_def
  by (elim bindR_InrE) (simp split: if_splits; elim bindR_InrE;
      clarsimp split: if_splits simp: gone_def [of _ _ "observe_cache_ttl _ _"])

definition fit :: "freeze_config \<Rightarrow> real \<Rightarrow> loaded \<Rightarrow> bool" where
  "fit cfg now L \<longleftrightarrow> (\<forall>(key, t) \<in> set (ld_trackers L). pt_restored t \<and> \<not> gone cfg now t)
     \<and> (\<forall>(key, h) \<in> set (ld_histories L). length h \<le> 3)
     \<and> distinct (map fst (ld_trackers L)) \<and> distinct (map fst (ld_histories L))"

lemma set_update_sub: "set (AList.update k v d) \<subseteq> insert (k, v) (set d)"
  by (induction d) auto

lemma fit_update:
  assumes "fit cfg now L" and "pt_restored t" and "\<not> gone cfg now t"
  shows "fit cfg now (L\<lparr>ld_trackers := AList.update key t (ld_trackers L), ld_next_id := n\<rparr>)"
  using assms set_update_sub [of key t "ld_trackers L"] unfolding fit_def
  by (auto simp: distinct_update)

lemma fit_history:
  assumes "fit cfg now L" and "length h \<le> 3"
  shows "fit cfg now (L\<lparr>ld_histories := AList.update key h (ld_histories L)\<rparr>)"
  using assms set_update_sub [of key h "ld_histories L"] unfolding fit_def
  by (auto simp: distinct_update)

lemma fit_rest [simp]:
  "fit cfg now (L\<lparr>ld_families := F, ld_affinities := A\<rparr>) = fit cfg now L"
  by (simp add: fit_def)

lemma decode_entry_fit:
  assumes "decode_entry cfg now entry L = Inr L'" and "fit cfg now L"
  shows "fit cfg now L'"
proof -
  obtain r where r: "decode_tracker cfg now (ld_next_id L) entry = Inr r"
    using assms(1) by (auto simp: decode_entry_def bindR_eq_Inr)
  show ?thesis
  proof (cases r)
    case None
    then show ?thesis using assms r by (auto simp: decode_entry_def bindR_eq_Inr)
  next
    case (Some t)
    note ok = decode_tracker_sound [OF r [unfolded Some]]
    define L1 where "L1 key = L\<lparr>ld_trackers := AList.update key t (ld_trackers L), ld_next_id := Suc (ld_next_id L)\<rparr>" for key
    have f1: "fit cfg now (L1 key)" for key unfolding L1_def using ok assms(2) by (intro fit_update) auto
    have f2: "fit cfg now ((L1 key)\<lparr>ld_histories := AList.update key (drop (length h - LINEAGE_HISTORY) h) (ld_histories L)\<rparr>)"
      for key h
      using fit_history [OF f1, of "drop (length h - LINEAGE_HISTORY) h" key key]
      by (simp add: L1_def LINEAGE_HISTORY_def)
    show ?thesis using assms(1) r Some f1 f2
      unfolding decode_entry_def L1_def
      by (auto simp: bindR_eq_Inr Let_def split: if_splits)
  qed
qed

lemma decode_entries_fit: "decode_entries cfg now es L = Inr L' \<Longrightarrow> fit cfg now L \<Longrightarrow> fit cfg now L'"
  by (induction es arbitrary: L) (auto simp: bindR_eq_Inr dest: decode_entry_fit)

lemma decode_state_Inr:
  assumes "decode_state U B sha cfg now data s cc = (Inr n, s', cc')"
  obtains d entries L where "data = JObj d" and "map_of d (u ''trackers'') = Some (JList entries)"
    and "decode_entries cfg now (rev entries) (empty_load (ss_next_id s)) = Inr L"
    and "n = length (ld_trackers L)" and "s' = install_all U L s"
proof -
  obtain d where data: "data = JObj d" and v: "json_eq (dget d ''version'') (JInt 1)"
    using assms by (cases data) (auto simp: decode_state_def split: if_splits)
  obtain ccr L where r: "bindR (bindR (bindR (item data ''ccr'') as_list) (each entry_of_json)) (\<lambda>ccr.
      bindR (bindR (item data ''trackers'') as_list) (\<lambda>entries.
      bindR (decode_entries cfg now (rev entries) (empty_load (ss_next_id s))) (\<lambda>L. Inr (ccr, L)))) = Inr (ccr, L)"
    and n: "n = length (ld_trackers L)" "s' = install_all U L s"
    using assms v unfolding decode_state_def data
    by (auto simp: empty_load_def split: sum.splits prod.splits if_splits)
  obtain trackers entries where "item data ''trackers'' = Inr trackers" "as_list trackers = Inr entries"
    "decode_entries cfg now (rev entries) (empty_load (ss_next_id s)) = Inr L"
    using r by (elim bindR_InrE) auto
  then show thesis using that [OF data _ _ n, of entries]
    by (auto simp: data item_Inr as_list_def split: json.splits)
qed

definition stamp_of :: "json option \<Rightarrow> real option" where
  "stamp_of v = (case v of Some (JFloat q) \<Rightarrow> Some (of_rat q) | Some (JInt n) \<Rightarrow> Some (of_int n) | _ \<Rightarrow> None)"

definition ttl_of :: "json option \<Rightarrow> int option" where
  "ttl_of v = (case v of Some JNull \<Rightarrow> Some 0 | Some (JInt n) \<Rightarrow> Some (max 0 n) | _ \<Rightarrow> None)"

text \<open>A record of the file, read off the JSON: the tracker saved under \<open>key\<close>, whose time stamp is not in
  the future and not longer ago than it is retained.\<close>

definition kept_record :: "freeze_config \<Rightarrow> real \<Rightarrow> json \<Rightarrow> pystr \<Rightarrow> pystr \<Rightarrow> real \<Rightarrow> bool" where
  "kept_record cfg now rcd key provider stamp \<longleftrightarrow>
     (\<exists>d m ttl. rcd = JObj d \<and> map_of d (u ''meta'') = Some (JObj m)
        \<and> map_of m (u ''key'') = Some (JStr key) \<and> map_of m (u ''provider'') = Some (JStr provider)
        \<and> stamp_of (map_of m (u ''last_activity'')) = Some stamp \<and> ttl_of (map_of m (u ''cache_ttl'')) = Some ttl
        \<and> stamp \<le> now
        \<and> now - stamp \<le> real_of_int (max (fc_session_ttl cfg)
            (let seen = max ttl (case fc_cache_ttl cfg of None \<Rightarrow> 0 | Some n \<Rightarrow> n) in
             if seen \<noteq> 0 then seen + CACHE_TTL_CLEANUP_MARGIN else 0)))"

lemma gone_fresh:
  "\<not> gone cfg now (observe_cache_ttl ttl (new_ptracker i provider stamp)) \<longleftrightarrow>
     stamp \<le> now \<and> now - stamp \<le> real_of_int (max (fc_session_ttl cfg)
       (let seen = max (case ttl of None \<Rightarrow> 0 | Some n \<Rightarrow> max 0 n) (case fc_cache_ttl cfg of None \<Rightarrow> 0 | Some n \<Rightarrow> n) in
        if seen \<noteq> 0 then seen + CACHE_TTL_CLEANUP_MARGIN else 0))"
  by (auto simp: gone_def tracker_expired_def is_expired_for_cache_ttl_def retention_seconds_def observe_cache_ttl_def
      new_ptracker_def or_zero_def Let_def max_def split: option.splits)

lemma decode_tracker_record:
  assumes "decode_tracker cfg now i rcd = Inr r"
  obtains d m provider stamp ttl where "rcd = JObj d" and "map_of d (u ''meta'') = Some (JObj m)"
    and "map_of m (u ''provider'') = Some (JStr provider)"
    and "stamp_of (map_of m (u ''last_activity'')) = Some stamp"
    and "map_of m (u ''cache_ttl'') = Some (opt_int ttl)"
    and "if gone cfg now (observe_cache_ttl ttl (new_ptracker i provider stamp)) then r = None
      else \<exists>t. r = Some t \<and> pt_provider t = provider \<and> pt_last_activity t = stamp"
proof -
  obtain meta provider stamp ttl where a: "item rcd ''meta'' = Inr meta" "item meta ''provider'' = Inr (JStr provider)"
    "bindR (item meta ''last_activity'') as_time = Inr stamp" "bindR (item meta ''cache_ttl'') as_ttl = Inr ttl"
    and r: "let t = observe_cache_ttl ttl (new_ptracker i provider stamp) in
      if tracker_expired cfg now t \<or> now < stamp then r = None
      else \<exists>t'. r = Some t' \<and> pt_provider t' = pt_provider t \<and> pt_last_activity t' = pt_last_activity t"
    using assms unfolding decode_tracker_def Let_def
    by (elim bindR_InrE) (auto split: if_splits simp: bindR_eq_Inr)
  obtain d m where d: "rcd = JObj d" "map_of d (u ''meta'') = Some meta" "meta = JObj m"
    "map_of m (u ''provider'') = Some (JStr provider)" using a(1,2) by (auto simp: item_Inr)
  show thesis
  proof (rule that [OF d(1) d(2) [unfolded d(3)] d(4)])
    show "stamp_of (map_of m (u ''last_activity'')) = Some stamp"
    proof -
      obtain v where "map_of m (u ''last_activity'') = Some v" "as_time v = Inr stamp"
        using a(3) by (auto simp: d(3) bindR_eq_Inr item_Inr)
      then show ?thesis by (cases v) (simp_all add: as_time_def stamp_of_def)
    qed
    show "map_of m (u ''cache_ttl'') = Some (opt_int ttl)"
    proof -
      obtain v where "map_of m (u ''cache_ttl'') = Some v" "as_ttl v = Inr ttl"
        using a(4) by (auto simp: d(3) bindR_eq_Inr item_Inr)
      then show ?thesis by (cases v) (auto simp: as_ttl_def opt_int_def)
    qed
    show "if gone cfg now (observe_cache_ttl ttl (new_ptracker i provider stamp)) then r = None
      else \<exists>t. r = Some t \<and> pt_provider t = provider \<and> pt_last_activity t = stamp"
      using r by (auto simp: gone_def Let_def observe_cache_ttl_def new_ptracker_def split: option.splits if_splits)
  qed
qed

lemma decode_entry_records:
  assumes "decode_entry cfg now rcd L = Inr L'"
  shows "fst ` set (ld_trackers L) \<subseteq> fst ` set (ld_trackers L')"
    and "kept_record cfg now rcd key provider stamp \<Longrightarrow> key \<in> fst ` set (ld_trackers L')"
    and "(key, t) \<in> set (ld_trackers L') \<Longrightarrow> (key, t) \<in> set (ld_trackers L)
      \<or> kept_record cfg now rcd key (pt_provider t) (pt_last_activity t)"
proof -
  obtain meta r where meta: "item rcd ''meta'' = Inr meta" and r: "decode_tracker cfg now (ld_next_id L) rcd = Inr r"
    using assms by (auto simp: decode_entry_def bindR_eq_Inr)
  obtain d m pr st ttl where d: "rcd = JObj d" "map_of d (u ''meta'') = Some (JObj m)"
    "map_of m (u ''provider'') = Some (JStr pr)"
    "stamp_of (map_of m (u ''last_activity'')) = Some st"
    "map_of m (u ''cache_ttl'') = Some (opt_int ttl)"
    and g: "if gone cfg now (observe_cache_ttl ttl (new_ptracker (ld_next_id L) pr st)) then r = None
      else \<exists>t. r = Some t \<and> pt_provider t = pr \<and> pt_last_activity t = st"
    by (rule decode_tracker_record [OF r])
  have kept: "kept_record cfg now rcd k p x \<longleftrightarrow> map_of m (u ''key'') = Some (JStr k) \<and> p = pr \<and> x = st
      \<and> \<not> gone cfg now (observe_cache_ttl ttl (new_ptracker (ld_next_id L) pr st))" for k p x
  proof -
    have "ttl_of (map_of m (u ''cache_ttl'')) = Some (case ttl of None \<Rightarrow> 0 | Some n \<Rightarrow> max 0 n)"
      using d(5) by (simp add: ttl_of_def opt_int_def split: option.splits)
    then show ?thesis unfolding gone_fresh kept_record_def using d(1-4) by auto
  qed
  have "fst ` set (ld_trackers L) \<subseteq> fst ` set (ld_trackers L')
    \<and> (kept_record cfg now rcd key provider stamp \<longrightarrow> key \<in> fst ` set (ld_trackers L'))
    \<and> ((key, t) \<in> set (ld_trackers L') \<longrightarrow> (key, t) \<in> set (ld_trackers L)
      \<or> kept_record cfg now rcd key (pt_provider t) (pt_last_activity t))"
  proof (cases r)
    case None
    then have "L' = L" using assms meta r by (auto simp: decode_entry_def bindR_eq_Inr)
    then show ?thesis using None g kept by (auto split: if_splits)
  next
    case (Some t1)
    then have t1: "pt_provider t1 = pr" "pt_last_activity t1 = st"
      "\<not> gone cfg now (observe_cache_ttl ttl (new_ptracker (ld_next_id L) pr st))" using g by (auto split: if_splits)
    have mt: "meta = JObj m" using meta d by (simp add: item_Inr)
    obtain k where k: "map_of m (u ''key'') = Some (JStr k)" and L': "ld_trackers L' = AList.update k t1 (ld_trackers L)"
      using assms meta r Some mt unfolding decode_entry_def
      by (auto simp: bindR_eq_Inr item_Inr Let_def split: if_splits)
    show ?thesis using k L' t1 kept set_update_sub [of k t1 "ld_trackers L"] dom_update [of k t1 "ld_trackers L"]
      by (auto simp: kept update_keys)
  qed
  then show "fst ` set (ld_trackers L) \<subseteq> fst ` set (ld_trackers L')"
    "kept_record cfg now rcd key provider stamp \<Longrightarrow> key \<in> fst ` set (ld_trackers L')"
    "(key, t) \<in> set (ld_trackers L') \<Longrightarrow> (key, t) \<in> set (ld_trackers L)
      \<or> kept_record cfg now rcd key (pt_provider t) (pt_last_activity t)" by blast+
qed

lemma decode_entries_records:
  "decode_entries cfg now records L = Inr L' \<Longrightarrow>
   fst ` set (ld_trackers L) \<subseteq> fst ` set (ld_trackers L')
   \<and> (\<forall>rcd \<in> set records. \<forall>key provider stamp.
        kept_record cfg now rcd key provider stamp \<longrightarrow> key \<in> fst ` set (ld_trackers L'))
   \<and> (\<forall>(key, t) \<in> set (ld_trackers L'). (key, t) \<in> set (ld_trackers L)
        \<or> (\<exists>rcd \<in> set records. kept_record cfg now rcd key (pt_provider t) (pt_last_activity t)))"
proof (induction records arbitrary: L)
  case (Cons rcd records)
  then obtain L1 where L1: "decode_entry cfg now rcd L = Inr L1" "decode_entries cfg now records L1 = Inr L'"
    by (auto simp: bindR_eq_Inr)
  note d = decode_entry_records [OF L1(1)] and IH = Cons.IH [OF L1(2)]
  have "(key, t) \<in> set (ld_trackers L)
        \<or> (\<exists>x \<in> set (rcd # records). kept_record cfg now x key (pt_provider t) (pt_last_activity t))"
    if "(key, t) \<in> set (ld_trackers L')" for key t
  proof -
    have "(key, t) \<in> set (ld_trackers L1) \<or> (\<exists>x \<in> set records. kept_record cfg now x key (pt_provider t) (pt_last_activity t))"
      using bspec [OF conjunct2 [OF conjunct2 [OF IH]] that] by simp
    then show ?thesis using d(3) [of key t] by auto
  qed
  moreover have "key \<in> fst ` set (ld_trackers L')" if "x \<in> set (rcd # records)" "kept_record cfg now x key provider stamp"
    for x key provider stamp
  proof (cases "x = rcd")
    case True
    then have "key \<in> fst ` set (ld_trackers L1)" using d(2) [of key provider stamp] that(2) by simp
    then show ?thesis using conjunct1 [OF IH] by (rule rev_subsetD)
  next
    case False
    then have "x \<in> set records" using that(1) by simp
    then show ?thesis by (rule conjunct1 [OF conjunct2 [OF IH], rule_format, OF _ that(2)])
  qed
  moreover have "fst ` set (ld_trackers L) \<subseteq> fst ` set (ld_trackers L')" by (rule subset_trans [OF d(1) conjunct1 [OF IH]])
  ultimately show ?case by (intro conjI) (assumption, simp, clarsimp, blast)
qed auto

text \<open>C31: Whatever the state file holds, loading it either installs nothing, when any part of it is
  malformed or the CCR store refuses its records, and leaves the file in place, or it installs all of its
  live trackers and no other: the keys with a tracker are those of the records of the file that are
  within their retention and not from the future, and the tracker under a key has the provider and the
  time stamp of such a record; each is marked as restored, the snapshots kept are at most three per
  lineage, and no turn that is issued afterwards is one of theirs.\<close>

theorem load_all_or_nothing:
  assumes "load_state U V B sha cfg stateless removable now f (new_session_store t0) cc = (r, f', s', cc')"
  shows "(r = Some 0 \<or> r = None) \<and> s' = new_session_store t0 \<and> f' = f \<or>
    r = Some (length (ss_trackers s')) \<and> f' = (if removable then None else f) \<and>
    (\<exists>d records. Option.bind f (fe_loads V) = Some (JObj d) \<and> map_of d (u ''trackers'') = Some (JList records) \<and>
       (\<forall>key. tracker_at s' key \<noteq> None \<longleftrightarrow>
          (\<exists>rcd \<in> set records. \<exists>provider stamp. kept_record cfg now rcd key provider stamp)) \<and>
       (\<forall>key t. tracker_at s' key = Some t \<longrightarrow>
          (\<exists>rcd \<in> set records. kept_record cfg now rcd key (pt_provider t) (pt_last_activity t)))) \<and>
    (\<forall>key t. tracker_at s' key = Some t \<longrightarrow>
       pt_restored t \<and> (\<forall>n \<in> fst ` set (pt_turn_states t). n < ss_turn_counter s')) \<and>
    (\<forall>key h. map_of (ss_history s') key = Some h \<longrightarrow> length h \<le> 3 \<and> (\<forall>n \<in> snd ` set h. n < ss_turn_counter s'))"
proof (cases "stateless \<or> Option.bind f (fe_loads V) = None")
  case True
  then show ?thesis using assms by (auto simp: load_state_def split: if_splits option.splits)
next
  case False
  then obtain data where data: "Option.bind f (fe_loads V) = Some data" "\<not> stateless" by blast
  obtain r1 s1 cc1 where d: "decode_state U B sha cfg now data (new_session_store t0) cc = (r1, s1, cc1)"
    by (cases "decode_state U B sha cfg now data (new_session_store t0) cc")
  have ss: "s' = s1" using assms data d
    by (auto simp: load_state_def split: sum.splits load_error.splits)
  show ?thesis
  proof (cases r1)
    case (Inl e)
    have "s1 = new_session_store t0" using d Inl
      by (auto simp: decode_state_def split: json.splits if_splits sum.splits prod.splits)
    then show ?thesis using assms data d Inl by (auto simp: load_state_def split: load_error.splits)
  next
    case (Inr n)
    obtain fields entries L where form: "data = JObj fields" "map_of fields (u ''trackers'') = Some (JList entries)"
      and L: "decode_entries cfg now (rev entries) (empty_load 0) = Inr L"
      "n = length (ld_trackers L)" "s1 = install_all U L (new_session_store t0)"
      using d unfolding Inr by (rule decode_state_Inr) (simp add: new_session_store_def)
    have "fit cfg now L" using decode_entries_fit [OF L(1)] by (simp add: fit_def empty_load_def)
    then have fit: "\<And>key t. (key, t) \<in> set (ld_trackers L) \<Longrightarrow> pt_restored t \<and> \<not> gone cfg now t"
      "\<And>key h. (key, h) \<in> set (ld_histories L) \<Longrightarrow> length h \<le> 3"
      "distinct (map fst (ld_trackers L))" "distinct (map fst (ld_histories L))"
      unfolding fit_def by blast+
    have st: "ss_trackers s1 = ld_trackers L" "ss_history s1 = ld_histories L"
      using fit(3,4) by (simp_all add: L(3) install_all_def new_session_store_def updates_distinct Let_def)
    have tr: "pt_restored t \<and> (\<forall>n \<in> fst ` set (pt_turn_states t). n < ss_turn_counter s1)" if "tracker_at s1 key = Some t" for key t
      using fit(1) install_counters(2) map_of_SomeD [OF that [unfolded st]] unfolding L(3) by blast
    have hi: "length h \<le> 3 \<and> (\<forall>n \<in> snd ` set h. n < ss_turn_counter s1)" if "map_of (ss_history s1) key = Some h" for key h
      using fit(2) install_counters(1) map_of_SomeD [OF that [unfolded st]] unfolding L(3) by blast
    have "r = Some n" "f' = (if removable then None else f)"
      using assms data d Inr by (simp_all add: load_state_def)
    moreover have rec: "\<exists>rcd \<in> set entries. kept_record cfg now rcd key (pt_provider t) (pt_last_activity t)"
      if "tracker_at s1 key = Some t" for key t
      using decode_entries_records [OF L(1)] map_of_SomeD [OF that [unfolded st]] by (auto simp: empty_load_def)
    moreover have "tracker_at s1 key \<noteq> None" if "rcd \<in> set entries" "kept_record cfg now rcd key provider stamp"
      for rcd key provider stamp
    proof -
      have "rcd \<in> set (rev entries)" using that(1) by simp
      then have "key \<in> fst ` set (ld_trackers L)" using decode_entries_records [OF L(1)] that(2) by blast
      then show ?thesis by (simp add: st map_of_eq_None_iff)
    qed
    ultimately show ?thesis using tr hi L(2) st(1) ss data(1) form by (intro disjI2) fastforce
  qed
qed

section \<open>Markers after a restart\<close>

lemma ccr_match_Some:
  assumes "ccr_match s = Some (g, rest)"
  obtains lead where "lead = u ''hash='' \<or> lead = u ''<<ccr:''" and "s = lead @ g @ rest"
    and "\<forall>c \<in> set g. is_lower_hex c"
proof -
  have st: "startswith s p \<Longrightarrow> s = p @ drop (length p) s" for p
    using append_take_drop_id [of "length p" s] by (simp add: startswith_def)
  have g: "r = take 24 (takeWhile is_lower_hex r) @ drop (length (take 24 (takeWhile is_lower_hex r))) r" for r
  proof -
    have "take 24 (takeWhile is_lower_hex r) = take (length (take 24 (takeWhile is_lower_hex r))) r"
      by (subst (1) takeWhile_eq_take) (simp add: min.commute)
    then show ?thesis using append_take_drop_id by metis
  qed
  define lead where "lead = (if startswith s (u ''hash='') then u ''hash='' else u ''<<ccr:'')"
  have lead: "lead = u ''hash='' \<or> lead = u ''<<ccr:''" "startswith s lead"
    "g = take 24 (takeWhile is_lower_hex (drop (length lead) s))" "rest = drop (length g) (drop (length lead) s)"
    using assms by (auto simp: ccr_match_def lead_def Let_def numeral_eq_Suc split: if_splits)
  moreover have "\<forall>c \<in> set g. is_lower_hex c"
    unfolding lead(3) by (auto dest: in_set_takeD set_takeWhileD)
  ultimately show thesis using that [of lead] st [of lead] g [of "drop (length lead) s"] by simp
qed

lemma ccr_hashes_finds:
  assumes "length h = 24" and "\<forall>c \<in> set h. is_lower_hex c"
  shows "h \<in> set (ccr_hashes (pre @ u ''hash='' @ h @ post))"
proof (induction "length pre" arbitrary: pre rule: less_induct)
  case less
  let ?s = "pre @ u ''hash='' @ h @ post"
  have h: "ccr_match (u ''hash='' @ h @ post) = Some (h, post)"
    using assms by (simp add: ccr_match_def takeWhile_append2)
  show ?case
  proof (cases pre)
    case Nil
    then show ?thesis using h by (subst ccr_hashes.simps) simp
  next
    case (Cons c pre')
    show ?thesis
    proof (cases "ccr_match ?s")
      case None
      then show ?thesis using less [of pre'] Cons by (subst ccr_hashes.simps) simp
    next
      case (Some r)
      obtain g rest where gr: "r = (g, rest)" by fastforce
      obtain lead where lead: "lead = u ''hash='' \<or> lead = u ''<<ccr:''" "?s = lead @ g @ rest"
        "\<forall>c \<in> set g. is_lower_hex c"
        using Some unfolding gr by (rule ccr_match_Some)
      have "length (lead @ g) \<le> length pre"
      proof (rule ccontr)
        assume "\<not> ?thesis"
        then have less: "length pre < length (lead @ g)" by simp
        have at: "?s ! length pre = 104" "?s ! Suc (length pre) = 97" by (simp_all add: u_def nth_append)
        show False
        proof (cases "length lead \<le> length pre")
          case True
          then have "?s ! length pre = g ! (length pre - length lead)" "length pre - length lead < length g"
            using less unfolding lead(2) by (auto simp: nth_append)
          then have "is_lower_hex 104" using at(1) lead(3) nth_mem by metis
          then show False by (simp add: is_lower_hex_def)
        next
          case False
          then have "lead ! length pre = 104" "Suc (length pre) < length lead \<longrightarrow> lead ! Suc (length pre) = 97"
            using at unfolding lead(2) by (auto simp: nth_append)
          moreover have "0 < length pre" using Cons by simp
          moreover have "length pre < 6" using False lead(1) by (auto simp: u_def)
          ultimately show False using lead(1) False
            by (auto simp: u_def less_Suc_eq numeral_eq_Suc nth_Cons')
        qed
      qed
      moreover have "pre @ (u ''hash='' @ h @ post) = (lead @ g) @ rest" using lead(2) by simp
      ultimately obtain pre2 where "pre = (lead @ g) @ pre2" "rest = pre2 @ u ''hash='' @ h @ post"
        unfolding append_eq_append_conv2 by (elim exE disjE conjE) (auto simp: append_eq_conv_conj)
      moreover have "length pre2 < length pre" using calculation(1) lead(1) by auto
      ultimately show ?thesis using less [of pre2] Some gr by (subst ccr_hashes.simps) simp
    qed
  qed
qed

lemma prefix_set: "prefix xs ys \<Longrightarrow> x \<in> set xs \<Longrightarrow> x \<in> set ys"
  by (auto simp: prefix_def)

lemma ref_table: "ref F ms T = (is, T') \<Longrightarrow> m \<in> set ms \<Longrightarrow> dumps_text F m \<in> set T'"
proof (induction F ms T arbitrary: "is" T' rule: ref.induct)
  case (2 F m' ms T)
  obtain i T1 js where s: "intern (dumps_text F m') T = (i, T1)" "ref F ms T1 = (js, T')"
    using "2.prems" by (auto split: prod.splits)
  have "dumps_text F m' \<in> set T'"
    using intern_at [OF s(1) ref_prefix [OF s(2)]] nth_mem by metis
  then show ?case using "2.IH" [OF s(1) [symmetric] refl s(2)] "2.prems"(2) by auto
qed simp

lemma state_part_table:
  assumes "state_part F st T = (j, T')" and "m \<in> set (state_messages st)"
  shows "dumps_text F m \<in> set T'"
proof -
  obtain os T1 fs where s: "ref F (ts_original st) T = (os, T1)" "ref F (ts_forwarded st) T1 = (fs, T')"
    using assms(1) by (auto simp: state_part_def split: prod.splits)
  show ?thesis
    using assms(2) ref_table [OF s(1)] ref_table [OF s(2)] prefix_set [OF ref_prefix [OF s(2)]]
    by (auto simp: state_messages_def)
qed

lemma turns_part_table: "turns_part F ts T = (js, T') \<Longrightarrow> m \<in> set (turns_messages ts) \<Longrightarrow> dumps_text F m \<in> set T'"
proof (induction F ts T arbitrary: js T' rule: turns_part.induct)
  case (3 F n st ts T)
  obtain j T1 js' where s: "state_part F st T = (j, T1)" "turns_part F ts T1 = (js', T')"
    using "3.prems" by (auto split: prod.splits)
  have "m \<in> set (state_messages st) \<or> m \<in> set (turns_messages ts)"
    using "3.prems"(2) by (simp add: turns_messages_def)
  then show ?case
    using state_part_table [OF s(1)] prefix_set [OF turns_part_prefix [OF s(2)]] "3.IH" [OF s(1) [symmetric] refl s(2)]
    by blast
qed (simp_all add: turns_messages_def)

lemma history_part_table:
  "history_part F h T = (js, T') \<Longrightarrow> m \<in> set (concat (map fst h)) \<Longrightarrow> dumps_text F m \<in> set T'"
proof (induction F h T arbitrary: js T' rule: history_part.induct)
  case (2 F snap n h T)
  obtain "is" T1 js' where s: "ref F snap T = (is, T1)" "history_part F h T1 = (js', T')"
    using "2.prems" by (auto split: prod.splits)
  have "m \<in> set snap \<or> m \<in> set (concat (map fst h))" using "2.prems"(2) by simp
  then show ?case
    using ref_table [OF s(1)] prefix_set [OF history_part_prefix [OF s(2)]] "2.IH" [OF s(1) [symmetric] refl s(2)]
    by blast
qed simp

text \<open>The text of an entry contains that of every message of the tracker.\<close>

lemma sublist_join: "x \<in> set xs \<Longrightarrow> sublist x (join sep xs)"
proof (induction sep xs rule: join.induct)
  case (3 sep x' y xs)
  have "sublist (join sep (y # xs)) ((x' @ sep) @ join sep (y # xs))" by (rule sublist_append_leftI)
  then show ?case using 3 sublist_order.order.trans by (cases "x = x'") auto
qed auto

lemma sublist_entry:
  assumes "m \<in> set (tracker_messages s key t)"
  shows "sublist (dumps_text (fe_float_repr V) m) (entry_text V (tracker_parts V s key t sid))"
proof -
  let ?F = "fe_float_repr V"
  obtain st T1 ts T2 h T3 where p: "state_part ?F (pt_state t) [] = (st, T1)"
    "turns_part ?F (pt_turn_states t) T1 = (ts, T2)" "history_part ?F (history_of s key) T2 = (h, T3)"
    by (metis surj_pair)
  have "snd (tracker_parts V s key t sid) = T3"
    using p by (simp add: tracker_parts_def history_of_def Let_def)
  moreover have "dumps_text ?F m \<in> set T3"
    using assms state_part_table [OF p(1)] turns_part_table [OF p(2)] history_part_table [OF p(3)]
      prefix_set [OF turns_part_prefix [OF p(2)]] prefix_set [OF history_part_prefix [OF p(3)]]
    unfolding tracker_messages_def set_append Un_iff by blast
  ultimately have "sublist (dumps_text ?F m) (join (u '','') (snd (tracker_parts V s key t sid)))"
    by (simp add: sublist_join)
  then show ?thesis unfolding entry_text_def case_prod_unfold
    by (meson sublist_append_leftI sublist_append_rightI sublist_order.order.trans)
qed

lemma import_skip:
  "import_entries B sha now cc es k =
     import_entries B sha now cc (filter (\<lambda>e. 0 < py_trunc (created_at e + real_of_int (ce_ttl e) - now)) es) k"
  by (induction es arbitrary: cc k) (auto split: prod.splits sum.splits)

lemma py_trunc_pos: "1 \<le> x \<Longrightarrow> 0 < py_trunc x"
  by (simp add: py_trunc_def le_floor_iff)

text \<open>What the replayed markers point to survives the restart too. If the new process keeps its CCR
  entries in a fresh in-memory store no smaller than the old one's contents, then for every tracker it
  has restored, every 24-digit \<open>hash=\<close> reference in one of its messages whose entry was live when the
  file was written, and has a second left when it is loaded, is found under its hash with the same
  original and compressed contents and, to within a second, the same time of expiry.\<close>

theorem restart_markers_resolve:
  assumes "restart U V sha cfg now later (s, cc) written (new_store memory_ops [] mx ttl fb) loaded (s', cc')"
    and "sessions U E cfg s" and "reachable_store sha cc" and "hexdigest_ok sha" and "ucd_ok U"
    and "int (mem_count (backend cc)) \<le> mx"
    and "tracker_at s' key \<noteq> None" and "tracker_at s key = Some t" and "m \<in> set (tracker_messages s key t)"
    and "sublist (u ''hash='' @ h) (dumps_text (fe_float_repr V) m)"
    and "length h = 24" and "\<forall>c \<in> set h. is_lower_hex c"
    and "live_entry now cc h = Some e" and "later + 1 \<le> expiration_time e"
  shows "\<exists>e'. mem_get (backend cc') h = Some e' \<and> original_content e' = original_content e
    \<and> compressed_content e' = compressed_content e
    \<and> expiration_time e - 1 < expiration_time e' \<and> expiration_time e' \<le> expiration_time e"
proof (rule restart_spec [OF assms(1) sessions_are_ok [OF assms(2)] assms(3-5)])
  fix ws p n
  assume ws: "subseq ws (take PREFIX_STATE_MAX_TRACKERS (live_trackers cfg now s))"
    and only: "\<And>key r. tracker_at s' key = Some r \<Longrightarrow> \<exists>i t. (key, t) \<in> set ws \<and> \<not> gone cfg later t \<and> r = restored i t"
    and count: "length (filter (\<lambda>(_, t). \<not> gone cfg later t) ws) = loaded"
    and ok: "pack_ok V now cc s (take PREFIX_STATE_MAX_TRACKERS (live_trackers cfg now s)) p"
    and p: "fst p = map (parts_of V s) ws"
    and imp: "carried now cc p \<noteq> [] \<Longrightarrow> loaded \<noteq> 0 \<Longrightarrow>
      import_entries memory_ops sha later (new_store memory_ops [] mx ttl fb) (carried now cc p) 0 = (Inr n, cc')"
  let ?ccr = "fst (snd p)"
  have entry: "entry_ok k e \<and> hex_key k" if "mem_get (backend cc) k = Some e" for k e
    using ok.reachable_sat [OF assms(3)] hexkey.reachable_sat [OF assms(3)] assms(4) that
    by (auto simp: all_entries_def)
  obtain t' where t': "(key, t') \<in> set ws" "\<not> gone cfg later t'" using only assms(7) by blast
  have "tracker_at s key = Some t'"
    using subseq_sub(1) [OF ws] t'(1) set_live [OF sessions_okD(1) [OF sessions_are_ok [OF assms(2)]]]
    by (blast dest: in_set_takeD)
  then have t: "(key, t) \<in> set ws" "\<not> gone cfg later t" using assms(8) t' by simp_all
  then have loaded: "loaded \<noteq> 0" using count by (auto simp: filter_empty_conv)
  obtain ws' where "fst p = map (parts_of V s) ws'"
    and refs: "\<And>w h e. w \<in> set ws' \<Longrightarrow> h \<in> set (ccr_hashes (entry_text V (parts_of V s w))) \<Longrightarrow>
      live_entry now cc h = Some e \<Longrightarrow> map_of ?ccr h = Some (ccr_record V e)"
    using ok unfolding pack_ok_def by blast
  have dist: "distinct (map fst ?ccr)"
    and live: "\<And>h r. map_of ?ccr h = Some r \<Longrightarrow> \<exists>e. live_entry now cc h = Some e \<and> r = ccr_record V e"
    using ok unfolding pack_ok_def by blast+
  obtain w where w: "w \<in> set ws'" "parts_of V s w = parts_of V s (key, t)"
    using t(1) p \<open>fst p = map (parts_of V s) ws'\<close> by (metis (no_types, opaque_lifting) image_iff image_set)
  have "sublist (u ''hash='' @ h) (entry_text V (parts_of V s (key, t)))"
    using assms(10) sublist_entry [OF assms(9)] unfolding parts_of_def by (auto intro: sublist_order.order.trans)
  then obtain pre post where "entry_text V (parts_of V s (key, t)) = pre @ (u ''hash='' @ h) @ post"
    unfolding sublist_def by blast
  then have "h \<in> set (ccr_hashes (entry_text V (parts_of V s w)))"
    using ccr_hashes_finds [OF assms(11,12)] w(2) by simp
  then have "map_of ?ccr h = Some (ccr_record V e)" using refs [OF w(1)] assms(13) by blast
  then have e: "e \<in> set (carried now cc p)"
    using assms(13) by (force simp: carried_def dest: map_of_SomeD)
  define es where "es = filter (\<lambda>e. 0 < py_trunc (created_at e + real_of_int (ce_ttl e) - later)) (carried now cc p)"
  have carried: "\<exists>h \<in> fst ` set ?ccr. live_entry now cc h = Some e" if c: "e \<in> set (carried now cc p)" for e
  proof -
    obtain x where x: "x \<in> set ?ccr" "e = the (live_entry now cc (fst x))"
      using c unfolding carried_def by (auto simp: case_prod_unfold)
    then have "map_of ?ccr (fst x) = Some (snd x)" using map_of_is_SomeI [OF dist] by simp
    then show ?thesis using live x by force
  qed
  have good: "mem_get (backend cc) (ce_hash e) = Some e \<and> importable later e" if "e \<in> set es" for e
    using that carried [of e] entry by (fastforce simp: es_def importable_defs live_entry_Some entry_ok_def)
  have inj: "inj_on ce_hash (set es)" using good by (metis (no_types, lifting) inj_onI option.inject)
  have "fst ` set ?ccr \<subseteq> fst ` set (backend cc)"
    using live map_of_is_SomeI [OF dist] by (force simp: live_entry_Some mem_get_def dest: map_of_SomeD)
  then have "card (fst ` set ?ccr) \<le> card (fst ` set (backend cc))" by (intro card_mono) simp_all
  moreover have "card (fst ` set ?ccr) = length ?ccr" using distinct_card [OF dist] by simp
  moreover have "card (fst ` set (backend cc)) \<le> length (backend cc)"
    using card_length [of "map fst (backend cc)"] by simp
  moreover have "length es \<le> length ?ccr"
    using length_filter_le [of "\<lambda>e. 0 < py_trunc (created_at e + real_of_int (ce_ttl e) - later)" "carried now cc p"]
    by (simp add: es_def carried_def)
  ultimately have "length es \<le> mem_count (backend cc)" by (simp add: mem_count_def)
  then have size: "int (length es) \<le> mx" using assms(6) by simp
  let ?s0 = "new_store memory_ops [] mx ttl fb"
  have i: "store_inv memory_ops mem_wf ?s0" by (rule reachable_store_inv [OF reachable_store.start])
  obtain k cc1 where r: "import_entries memory_ops sha later ?s0 es 0 = (Inr k, cc1)"
    "\<forall>e \<in> set es. mem_get (backend cc1) (ce_hash e) = Some (imported later e)"
  proof -
    have g: "\<forall>e \<in> set es. storable e" "\<forall>e \<in> set es. lasting later e" using good by (auto simp: importable_def)
    have "length (filter (lasting later) es) \<le> length es" by simp
    then have "int (mem_count (backend ?s0)) + int (length (filter (lasting later) es)) \<le> max_entries ?s0"
      using size by (simp add: new_store_def mem_defs del: length_filter_le)
    from import_entries_all [OF i g(1) this _ order_refl g(1) inj, of sha 0] g(2) that
    show ?thesis by (auto simp: new_store_def mem_defs)
  qed
  have "carried now cc p \<noteq> []" using e by auto
  then have "import_entries memory_ops sha later ?s0 es 0 = (Inr n, cc')"
    using imp loaded import_skip unfolding es_def by metis
  then have cc1: "cc1 = cc'" using r(1) by simp
  have pos: "0 < py_trunc (expiration_time e - later)" using assms(14) by (intro py_trunc_pos) simp
  then have "e \<in> set es" using e by (simp add: es_def expiration_time_def)
  moreover have "ce_hash e = h" using assms(13) entry by (auto simp: live_entry_Some entry_ok_def)
  ultimately have "mem_get (backend cc') h = Some (imported later e)" using r(2) cc1 by auto
  then show ?thesis
    using py_trunc_bounds [OF pos] by (auto simp: expiration_time_def algebra_simps)
qed

section \<open>A concrete restart\<close>

definition mark_hash :: pystr where "mark_hash = u ''aaaaaaaaaaaaaaaaaaaaaaaa''"

definition mark_msg :: json where "mark_msg = said ''user'' ''hash=aaaaaaaaaaaaaaaaaaaaaaaa''"

definition asked :: json where "asked = said_blocks ''user'' ''a''"

definition mark_state :: turn_state where
  "mark_state = \<lparr>ts_turn_number = 1, ts_cached_tokens = 2000, ts_cached_messages = 1,
     ts_original = [mark_msg], ts_forwarded = [mark_msg]\<rparr>"

definition mark_tracker :: ptracker where
  "mark_tracker = chat_tracker\<lparr>pt_last_activity := 1, pt_state := mark_state, pt_turn_states := [(1, Some mark_state)]\<rparr>"

definition mark_store :: session_store where
  "mark_store = put_tracker (u ''s'') mark_tracker (snd (snd chat_open))"

lemma mark_store_eval:
  "mark_store = \<lparr>ss_trackers = [(u ''s'', mark_tracker)], ss_last_cleanup = 0,
     ss_lineages = [(u ''s'', [(u ''s'', [asked])])], ss_affinities = [(u ''s'', None)],
     ss_lineage_counter = 1, ss_history = [(u ''s'', [([asked], 1)])], ss_turn_counter = 2, ss_next_id = 1\<rparr>"
  by (simp add: mark_store_def chat_open_eval put_tracker_def chat_turn_def asked_def)

definition mark_reply :: "(ptracker \<times> resolved) \<times> (py_error + unit)" where
  "mark_reply = update_from_response ascii_ucd plain_env 1 0 2000 [mark_msg] (Some [5]) None
     (Some (0, 1, Some initial_state)) chat_tracker"

lemma mark_reply_eval: "mark_reply = ((mark_tracker, Some (0, 1, None)), Inr ())"
  by (simp add: mark_reply_def update_from_response_def record_turn_state_def chat_tracker_def new_ptracker_def
      mark_state_def mark_tracker_def Let_def)

definition blob :: "json \<Rightarrow> pystr" where "blob m = dumps_text (\<lambda>_. [48]) m"

lemmas text_simps = json_string_def escape_char_def u_def show_int_def show_nat.simps said_def said_blocks_def text_block_def

lemma blobs: "length (blob mark_msg) < 100" "length (blob asked) < 100" "take 3 (blob mark_msg) = u ''{\"r''"
    "take 3 (blob asked) = u ''{\"r''" "blob mark_msg \<noteq> blob asked"
  by (simp_all add: blob_def mark_msg_def asked_def text_simps)

text \<open>A file environment that reads back exactly the two messages, and one that reads the file too.\<close>

definition mark_env0 :: file_env where
  "mark_env0 = \<lparr>fe_float_repr = (\<lambda>_. [48]), fe_seconds = (\<lambda>t. if t = 1 then 1 else 0),
     fe_loads = (\<lambda>t. if t = blob mark_msg then Some mark_msg else if t = blob asked then Some asked else None)\<rparr>"

definition mark_packed :: "mem_store cstore \<Rightarrow> packed" where
  "mark_packed cc = packed_state mark_env0 memory_ops default_freeze_config 2 cc mark_store"

definition mark_env :: "mem_store cstore \<Rightarrow> file_env" where
  "mark_env cc = mark_env0\<lparr>fe_loads := (\<lambda>t. case fe_loads mark_env0 t of Some m \<Rightarrow> Some m
     | None \<Rightarrow> Some (spelled_state mark_env0 (mark_packed cc)))\<rparr>"

lemma loads_irrelevant [simp]:
  "tracker_parts (V\<lparr>fe_loads := l\<rparr>) s key t sid = tracker_parts V s key t sid"
  "entry_text (V\<lparr>fe_loads := l\<rparr>) = entry_text V"
  "ccr_record (V\<lparr>fe_loads := l\<rparr>) e = ccr_record V e"
  "new_records (V\<lparr>fe_loads := l\<rparr>) B now cc entry ccr = new_records V B now cc entry ccr"
  "pack (V\<lparr>fe_loads := l\<rparr>) B now cc s = pack V B now cc s"
  "packed_state (V\<lparr>fe_loads := l\<rparr>) B cfg now cc s = packed_state V B cfg now cc s"
  "state_text (V\<lparr>fe_loads := l\<rparr>) = state_text V"
proof -
  show 1: "tracker_parts (V\<lparr>fe_loads := l\<rparr>) s key t sid = tracker_parts V s key t sid" for s key t sid
    by (simp add: tracker_parts_def)
  show 2: "entry_text (V\<lparr>fe_loads := l\<rparr>) = entry_text V" by (simp add: entry_text_def)
  show 3: "ccr_record (V\<lparr>fe_loads := l\<rparr>) e = ccr_record V e" for e by (simp add: ccr_record_def cong: option.case_cong)
  show 4: "new_records (V\<lparr>fe_loads := l\<rparr>) B now cc entry ccr = new_records V B now cc entry ccr" for entry ccr
    by (simp add: new_records_def 3)
  show 5: "pack (V\<lparr>fe_loads := l\<rparr>) B now cc s = pack V B now cc s" for s
    by (simp add: pack_def 1 2 4)
  show "packed_state (V\<lparr>fe_loads := l\<rparr>) B cfg now cc s = packed_state V B cfg now cc s"
    by (simp add: packed_state_def 5)
  show "state_text (V\<lparr>fe_loads := l\<rparr>) = state_text V" by (simp add: state_text_def 2)
qed

definition mark_meta :: pydict where
  "mark_meta =
     [(u ''key'', JStr (u ''s'')), (u ''session'', JStr (u ''s'')), (u ''affinity'', JNull),
      (u ''provider'', JStr (u ''openai'')), (u ''last_activity'', JFloat 1), (u ''cache_ttl'', JNull),
      (u ''state'', JList [JInt 1, JInt 2000, JInt 1, JList [JInt 0], JList [JInt 0]]),
      (u ''turns'', JList [JList [JInt 1, JList [JInt 1, JInt 2000, JInt 1, JList [JInt 0], JList [JInt 0]]]]),
      (u ''history'', JList [JList [JList [JInt 1], JInt 1]]), (u ''maturation'', JNull)]"

lemma mark_parts:
  "tracker_parts mark_env0 mark_store (u ''s'') mark_tracker (Some (u ''s'')) = (mark_meta, [blob mark_msg, blob asked])"
  using blobs(5)
  by (simp add: tracker_parts_def mark_store_eval mark_tracker_def mark_state_def state_part_def intern_def chat_tracker_def
      new_ptracker_def mark_meta_def mark_env0_def opt_int_def flip: blob_def)

lemma mark_live: "live_trackers default_freeze_config 2 mark_store = [(u ''s'', mark_tracker)]"
  by (simp add: live_trackers_def mark_store_eval mark_tracker_def chat_tracker_def new_ptracker_def lookup_defs
      default_freeze_config_def)

lemma mark_session: "session_of mark_store (u ''s'') = Some (u ''s'')"
  by (simp add: session_of_def mark_store_eval)

lemma mark_entry_size: "length (entry_text mark_env0 (mark_meta, [blob mark_msg, blob asked])) < 2000"
proof -
  have "length (dumps_text (\<lambda>_. [48]) (JObj mark_meta)) < 1000"
    by (simp add: mark_meta_def text_simps)
  then show ?thesis using blobs(1,2) by (simp add: entry_text_def mark_env0_def)
qed


definition mark_sha :: "pystr \<Rightarrow> pystr" where "mark_sha = (\<lambda>_. u ''ab'')"

definition mark_args :: store_args where
  "mark_args = \<lparr>a_original = u ''long'', a_compressed = u ''s'', a_original_tokens = 1, a_compressed_tokens = 1,
     a_original_item_count = 0, a_compressed_item_count = 0, a_tool_name = None, a_tool_call_id = None,
     a_query_context = None, a_tool_signature_hash = None, a_compression_strategy = None, a_ttl = None,
     a_explicit_hash = Some mark_hash\<rparr>"

definition mark_entry :: compression_entry where
  "mark_entry = entry_of 1 1800 mark_hash mark_args"

lemma mark_sha_ok: "hexdigest_ok mark_sha"
  by (simp add: mark_sha_def hexdigest_ok_def is_hex_def u_def ascii_lower_def ascii_lower_char_def)

lemma mark_cc:
  obtains cc where "reachable_store mark_sha cc" and "mem_get (backend cc) = [mark_hash \<mapsto> mark_entry]"
    and "mem_count (backend cc) \<le> 1"
proof -
  let ?s0 = "new_store memory_ops [] 5 1800 False"
  have r0: "reachable_store mark_sha ?s0" by (rule reachable_store.start)
  have key: "hash_key_of mark_sha (a_original mark_args) (a_explicit_hash mark_args) = Inr mark_hash"
    by (simp add: hash_key_of_def mark_args_def mark_hash_def is_hex_def u_def ascii_lower_def ascii_lower_char_def)
  have bare: "\<not> is_bare_marker (a_original mark_args)"
    by (simp add: mark_args_def is_bare_marker_def Let_def strip_def lstrip_def rstrip_def py_isspace_def startswith_def u_def)
  obtain s' b1 where st: "store memory_ops mark_sha 1 ?s0 mark_args = (Inr mark_hash, s')"
    and g: "mem_get (backend s') = (mem_get b1)(mark_hash \<mapsto> entry_of 1 (default_ttl ?s0) mark_hash mark_args)"
    and n: "mem_count (backend s') \<le> Suc (mem_count b1)" and le: "mem_get b1 \<subseteq>\<^sub>m mem_get (backend ?s0)"
    and b1: "b1 = backend (if mem_get (backend ?s0) mark_hash = None
        then evict_if_needed memory_ops 1 (if enable_feedback ?s0 then process_pending_feedback memory_ops ?s0 else ?s0) else ?s0)"
    using mem_store_result [OF reachable_store_inv [OF r0] key bare] by metis
  have "mem_get (backend ?s0) = Map.empty" by (simp add: new_store_def mem_get_def fun_eq_iff)
  then have "mem_get b1 = Map.empty" using le map_le_antisym [OF _ map_le_empty] by metis
  then have "b1 = []" by (cases b1) (auto simp: mem_get_def fun_eq_iff split: if_splits)
  moreover have "reachable_store mark_sha s'"
    using reachable_store.step [OF r0, of 1 "OpStore mark_args"] st by simp
  moreover have "mem_get [] = Map.empty" by (simp add: mem_get_def fun_eq_iff)
  ultimately show thesis using that [of s'] g n by (simp add: mark_entry_def new_store_def mem_count_def)
qed


lemma mark_packed_entries:
  assumes "reachable_store mark_sha cc" and "mem_get (backend cc) = [mark_hash \<mapsto> mark_entry]"
  shows "fst (mark_packed cc) = [(mark_meta, [blob mark_msg, blob asked])]"
proof -
  have keyed: "keyed cc"
    using ok.reachable_sat [OF assms(1)] by (auto simp: all_entries_def keyed_def entry_ok_def)
  let ?entry = "entry_text mark_env0 (mark_meta, [blob mark_msg, blob asked])"
  let ?new = "new_records mark_env0 memory_ops 2 cc ?entry []"
  have rec: "length (dumps_text (\<lambda>_. [48]) (ccr_record mark_env0 mark_entry)) < 2000"
    by (simp add: ccr_record_def mark_entry_def entry_of_def mark_args_def mark_hash_def opt_str_def text_simps)
  have only: "k = mark_hash \<and> r = ccr_record mark_env0 mark_entry" if "(k, r) \<in> set ?new" for k r
  proof -
    have "map_of ?new k = Some r"
      using that new_records_spec(2) [OF keyed] by simp
    then show ?thesis
      using new_records_spec(1) [OF keyed, of mark_env0 2 ?entry "[]" k]
      by (auto simp: live_entry_def assms(2) split: if_splits option.splits)
  qed
  have "length ?new \<le> 1"
  proof -
    have "length ?new = card (fst ` set ?new)" using distinct_card [OF new_records_spec(2) [OF keyed]] by (metis length_map list.set_map)
    also have "\<dots> \<le> card {mark_hash}" using only by (intro card_mono) auto
    finally show ?thesis by simp
  qed
  then have "?new = [] \<or> ?new = [(mark_hash, ccr_record mark_env0 mark_entry)]"
    using only by (cases ?new) auto
  then have "sum_list (map (\<lambda>(_, p). length (dumps_text (\<lambda>_. [48]) p) + 1) ?new) < 2001"
    using rec by auto
  then have size: "\<not> PREFIX_STATE_MAX_BYTES < length ?entry + sum_list (map (\<lambda>(_, p). length (dumps_text (\<lambda>_. [48]) p) + 1) ?new)"
    using mark_entry_size by (simp add: PREFIX_STATE_MAX_BYTES_def)
  have fr: "fe_float_repr mark_env0 = (\<lambda>_. [48])" by (simp add: mark_env0_def)
  show ?thesis
    unfolding mark_packed_def packed_state_def mark_live
    using size by (simp add: PREFIX_STATE_MAX_TRACKERS_def pack_def mark_session mark_parts fr Let_def)
qed

lemma mark_sessions: "sessions ascii_ucd plain_env default_freeze_config mark_store"
proof -
  have nul: "0 \<notin> set (u ''s'')" by (simp add: u_def)
  have first: "sessions ascii_ucd plain_env default_freeze_config (snd (snd chat_open))"
    by (rule sessions.resolve [OF chat_sessions nul]) (simp add: chat_open_def prod_eq_iff)
  have "update_from_response ascii_ucd plain_env 1 0 2000 [mark_msg] (Some [5]) None
      (Some (0, 1, Some initial_state)) chat_tracker = ((mark_tracker, Some (0, 1, None)), Inr ())"
    using mark_reply_eval by (simp add: mark_reply_def)
  moreover have "tracker_at (snd (snd chat_open)) (u ''s'') = Some chat_tracker" by (simp add: chat_open_eval)
  ultimately show ?thesis unfolding mark_store_def using sessions.respond [OF first] by blast
qed

lemma mark_tracker_messages: "set (tracker_messages mark_store (u ''s'') mark_tracker) = {mark_msg, asked}"
  by (auto simp: tracker_messages_def state_messages_def turns_messages_def history_of_def mark_store_eval
      mark_tracker_def mark_state_def)

lemma mark_restart:
  assumes "reachable_store mark_sha cc" and "mem_get (backend cc) = [mark_hash \<mapsto> mark_entry]"
    and "reachable_store mark_sha cc0"
  shows "\<exists>loaded s' cc'. restart ascii_ucd (mark_env cc) mark_sha default_freeze_config 2 3 (mark_store, cc) 1 cc0
    loaded (s', cc')"
proof -
  have p: "packed_state (mark_env cc) memory_ops default_freeze_config 2 cc mark_store = mark_packed cc"
    by (simp add: mark_env_def mark_packed_def)
  have fr: "fe_float_repr (mark_env cc) = (\<lambda>_. [48])" "fe_seconds (mark_env cc) = (\<lambda>t. if t = 1 then 1 else 0)"
    by (simp_all add: mark_env_def mark_env0_def)
  have loads: "fe_loads (mark_env cc) (blob mark_msg) = Some mark_msg" "fe_loads (mark_env cc) (blob asked) = Some asked"
    using blobs(5) by (simp_all add: mark_env_def mark_env0_def)
  have again: "read_back (mark_env cc) (blob mark_msg) = read_back mark_env0 (blob mark_msg)"
    "read_back (mark_env cc) (blob asked) = read_back mark_env0 (blob asked)"
    using loads blobs(5) by (simp_all add: read_back_def mark_env0_def)
  note entries = mark_packed_entries [OF assms(1,2)]
  have spelled: "spelled_state (mark_env cc) (mark_packed cc) = spelled_state mark_env0 (mark_packed cc)"
    by (simp add: spelled_state_def entries spelled_def again)
  have "take 3 (state_text mark_env0 (mark_packed cc)) = u ''{\"v''"
    by (simp add: state_text_def case_prod_unfold u_def)
  then have "state_text mark_env0 (mark_packed cc) \<noteq> blob mark_msg" "state_text mark_env0 (mark_packed cc) \<noteq> blob asked"
    using blobs(3,4) by auto
  then have "fe_loads mark_env0 (state_text mark_env0 (mark_packed cc)) = None"
    by (simp add: mark_env0_def)
  then have whole: "fe_loads (mark_env cc) (state_text (mark_env cc) (mark_packed cc))
      = Some (spelled_state (mark_env cc) (mark_packed cc))"
    by (simp add: spelled) (simp add: mark_env_def)
  have readable: "readable (mark_env cc) cc mark_store"
  proof -
    have "reads (mark_env cc) (tracker_messages mark_store (u ''s'') mark_tracker)"
      using loads by (simp add: reads_def mark_tracker_messages fr blob_def)
    moreover have "pt_last_activity mark_tracker = 1" by (simp add: mark_tracker_def)
    ultimately show ?thesis
      by (simp add: readable_def mark_store_eval exact_def exact_entry_def fr assms(2) mark_entry_def entry_of_def)
  qed
  show ?thesis
    using restart_exists [OF readable sessions_are_ok [OF mark_sessions] assms(1) mark_sha_ok assms(3) p [symmetric] whole,
        of ascii_ucd 3] entries by simp
qed


lemma mark_restored:
  assumes "restart ascii_ucd (mark_env cc) mark_sha default_freeze_config 2 3 (mark_store, cc) 1 cc0 loaded (s', cc')"
    and "reachable_store mark_sha cc"
  obtains i fam where "tracker_at s' (u ''s'') = Some (restored i mark_tracker)"
    and "map_of (ss_history s') (u ''s'') = Some [([asked], 1)]"
    and "map_of (ss_lineages s') (u ''s'') = Some [(u ''s'', [asked])]" and "affinity_of s' (u ''s'') = None"
proof (rule restart_spec [OF assms(1) sessions_are_ok [OF mark_sessions] assms(2) mark_sha_ok ascii_ucd_ok])
  fix ws p n
  assume ws: "subseq ws (take PREFIX_STATE_MAX_TRACKERS (live_trackers default_freeze_config 2 mark_store))" "length ws = 1"
    and there: "\<And>key t. (key, t) \<in> set ws \<Longrightarrow> \<not> gone default_freeze_config 3 t \<Longrightarrow>
      \<exists>i. tracker_at s' key = Some (restored i t)"
    and only: "\<And>key r. tracker_at s' key = Some r \<Longrightarrow>
      \<exists>i t. (key, t) \<in> set ws \<and> \<not> gone default_freeze_config 3 t \<and> r = restored i t"
    and hist: "\<And>key. map_of (ss_history s') key = (if tracker_at s' key = None \<or> history_of mark_store key = [] then None
      else Some (history_of mark_store key))"
    and fams: "\<And>sid key chain. (\<exists>fam. map_of (ss_lineages s') sid = Some fam \<and> (key, chain) \<in> set fam) \<longleftrightarrow>
      tracker_at s' key \<noteq> None \<and> history_of mark_store key \<noteq> [] \<and> session_of mark_store key = Some sid
        \<and> chain = newest mark_store key"
    and aff: "\<And>key. affinity_of s' key = (if tracker_at s' key \<noteq> None \<and> history_of mark_store key \<noteq> []
      \<and> session_of mark_store key \<noteq> None then affinity_of mark_store key else None)"
    and ok: "sessions_ok default_freeze_config s'"
  have ws1: "ws = [(u ''s'', mark_tracker)]"
    using ws subseq_same_length [of ws "[(u ''s'', mark_tracker)]"] by (simp add: mark_live PREFIX_STATE_MAX_TRACKERS_def)
  have live: "\<not> gone default_freeze_config 3 mark_tracker"
    by (simp add: gone_def mark_tracker_def chat_tracker_def new_ptracker_def lookup_defs default_freeze_config_def)
  obtain i where i: "tracker_at s' (u ''s'') = Some (restored i mark_tracker)" using there [of "u ''s''"] ws1 live by auto
  have h: "history_of mark_store (u ''s'') = [([asked], 1)]" by (simp add: history_of_def mark_store_eval)
  have h': "map_of (ss_history s') (u ''s'') = Some [([asked], 1)]" using hist [of "u ''s''"] i h by simp
  have "newest mark_store (u ''s'') = [asked]" by (simp add: newest_def h)
  then have "\<exists>fam. map_of (ss_lineages s') (u ''s'') = Some fam \<and> (u ''s'', [asked]) \<in> set fam"
    using fams [of "u ''s''" "u ''s''" "[asked]"] i h mark_session by simp
  then obtain fam where fam: "map_of (ss_lineages s') (u ''s'') = Some fam" "(u ''s'', [asked]) \<in> set fam" by blast
  have all: "kc = (u ''s'', [asked])" if "kc \<in> set fam" for kc
  proof -
    obtain k c where kc: "kc = (k, c)" by fastforce
    then have k: "tracker_at s' k \<noteq> None" "c = newest mark_store k"
      using fams [of "u ''s''" k c] fam(1) that by auto
    then obtain r where "tracker_at s' k = Some r" by blast
    then have "k = u ''s''" using only [of k r] ws1 by auto
    then show ?thesis using kc k(2) \<open>newest mark_store (u ''s'') = [asked]\<close> by simp
  qed
  have "distinct fam"
    using sessions_okD(2) [OF ok] map_of_SomeD [OF fam(1)] by (auto simp: lineages_ok_def distinct_map)
  moreover have "set fam = {(u ''s'', [asked])}" using all fam(2) by blast
  ultimately have "length fam = 1" using distinct_card by fastforce
  then have "fam = [(u ''s'', [asked])]" using all by (cases fam) auto
  moreover have "affinity_of mark_store (u ''s'') = None" by (simp add: affinity_of_def mark_store_eval)
  then have "affinity_of s' (u ''s'') = None" using aff [of "u ''s''"] by simp
  ultimately show thesis using that i h' fam(1) by blast
qed

lemma mark_matched:
  assumes "restart ascii_ucd (mark_env cc) mark_sha default_freeze_config 2 3 (mark_store, cc) 1 cc0 loaded (s', cc')"
    and "reachable_store mark_sha cc"
  shows "matched_to plain_env default_freeze_config 4 (u ''s'') (u ''openai'') (chat_turn 3) None s' (u ''s'') 1"
proof (rule mark_restored [OF assms])
  fix i
  assume t: "tracker_at s' (u ''s'') = Some (restored i mark_tracker)"
    and h: "map_of (ss_history s') (u ''s'') = Some [([asked], 1)]"
    and f: "map_of (ss_lineages s') (u ''s'') = Some [(u ''s'', [asked])]" and a: "affinity_of s' (u ''s'') = None"
  have pk: "peek default_freeze_config 4 (u ''s'') s' \<noteq> None"
    by (simp add: peek_def t restored_def observe_cache_ttl_def mark_tracker_def chat_tracker_def new_ptracker_def
        lookup_defs default_freeze_config_def)
  then have prune: "prune_family default_freeze_config 4 (u ''s'') s' =
      ([(u ''s'', [asked])], s'\<lparr>ss_lineages := AList.update (u ''s'') [(u ''s'', [asked])] (ss_lineages s')\<rparr>)"
    by (simp add: prune_family_def f without_def Let_def)
  have aff: "Option.bind (map_of (ss_affinities s') (u ''s'')) id = None" using a by (simp add: affinity_of_def)
  show ?thesis
    unfolding matched_to_def prune
    by (simp add: chat_turn_def default_freeze_config_def best_lineage_def lineage_match_def latest_candidates_def
        longest_first_def latest_turn_def same_affinity_def h aff classify_history_canonical_def relation_def asked_def)
qed


theorem turn_survives_restart_witness:
  "\<exists>cc loaded s' cc'. reachable_store mark_sha cc
     \<and> restart ascii_ucd (mark_env cc) mark_sha default_freeze_config 2 3 (mark_store, cc) 1 cc loaded (s', cc')
     \<and> (let (t, R, s4) = resolve_tracker plain_env default_freeze_config 4 (u ''s'') (u ''openai'') (Some (chat_turn 3))
          None None None s' in get_last_forwarded_messages R t = [mark_msg])"
proof (rule mark_cc)
  fix cc
  assume cc: "reachable_store mark_sha cc" "mem_get (backend cc) = [mark_hash \<mapsto> mark_entry]"
  obtain loaded s' cc' where r: "restart ascii_ucd (mark_env cc) mark_sha default_freeze_config 2 3 (mark_store, cc) 1 cc
      loaded (s', cc')"
    using mark_restart [OF cc cc(1)] by blast
  have open': "resolve_tracker plain_env default_freeze_config 0 (u ''s'') (u ''openai'') (Some (chat_turn 1)) None None
      None (new_session_store 0) = (chat_tracker, Some (0, 1, Some initial_state), snd (snd chat_open))"
    using chat_open_eval by (simp add: chat_open_def)
  have nul: "0 \<notin> set (u ''s'')" by (simp add: u_def)
  have reply: "update_from_response ascii_ucd plain_env 1 0 2000 [mark_msg] (Some [5]) None
      (Some (0, 1, Some initial_state)) chat_tracker = ((mark_tracker, Some (0, 1, None)), Inr ())"
    using mark_reply_eval by (simp add: mark_reply_def)
  obtain key where key: "tracker_at (snd (snd chat_open)) key = Some chat_tracker"
    and later: "\<forall>s2 c2 now2 later written cc0 loaded s3 cc' now3 ms3 ttl3 R t3 R3 s4.
       meanwhile ascii_ucd plain_env default_freeze_config key 1 (put_tracker key mark_tracker (snd (snd chat_open))) s2 \<longrightarrow>
       sessions ascii_ucd plain_env default_freeze_config s2 \<longrightarrow> reachable_store mark_sha c2 \<longrightarrow>
       restart ascii_ucd (mark_env cc) mark_sha default_freeze_config now2 later (s2, c2) written cc0 loaded (s3, cc') \<longrightarrow>
       matched_to plain_env default_freeze_config now3 (u ''s'') (u ''openai'') ms3 None s3 key 1 \<longrightarrow>
       resolve_tracker plain_env default_freeze_config now3 (u ''s'') (u ''openai'') (Some ms3) None ttl3 R s3
         = (t3, R3, s4) \<longrightarrow>
       request_turn_state R3 t3 = pt_state mark_tracker \<and> get_last_forwarded_messages R3 t3 = [mark_msg]"
    using turn_survives_restart [OF chat_sessions nul open' reply mark_sha_ok ascii_ucd_ok, where V = "mark_env cc"]
    by (elim exE conjE)
  have k: "key = u ''s''" using key by (simp add: chat_open_eval split: if_splits)
  obtain t3 R3 s4 where res: "resolve_tracker plain_env default_freeze_config 4 (u ''s'') (u ''openai'')
      (Some (chat_turn 3)) None None None s' = (t3, R3, s4)" by (cases rule: prod_cases3)
  have "get_last_forwarded_messages R3 t3 = [mark_msg]"
    using later meanwhile.nothing mark_sessions cc(1) r mark_matched [OF r cc(1)] res
    unfolding k mark_store_def [symmetric] by fast
  then show ?thesis using cc(1) r res
    by (intro exI [of _ cc] exI [of _ loaded] exI [of _ s'] exI [of _ cc'] conjI) simp_all
qed

theorem restart_roundtrip_witness:
  "\<exists>cc loaded s' cc'. restart ascii_ucd (mark_env cc) mark_sha default_freeze_config 2 3 (mark_store, cc) 1 cc loaded (s', cc')
     \<and> (\<exists>i. tracker_at s' (u ''s'') = Some (restored i mark_tracker)) \<and> history_of s' (u ''s'') = [([asked], 1)]
     \<and> tracker_at s' (u ''other'') = None"
proof (rule mark_cc)
  fix cc
  assume cc: "reachable_store mark_sha cc" "mem_get (backend cc) = [mark_hash \<mapsto> mark_entry]"
  obtain loaded s' cc' where r: "restart ascii_ucd (mark_env cc) mark_sha default_freeze_config 2 3 (mark_store, cc) 1 cc
      loaded (s', cc')"
    using mark_restart [OF cc cc(1)] by blast
  note rt = restart_roundtrip [OF r mark_sessions cc(1) mark_sha_ok ascii_ucd_ok, simplified mark_live]
  have live: "\<not> tracker_expired default_freeze_config 2 mark_tracker" "\<not> gone default_freeze_config 3 mark_tracker"
    by (simp_all add: gone_def mark_tracker_def chat_tracker_def new_ptracker_def lookup_defs default_freeze_config_def)
  have "tracker_at s' (u ''other'') = None" using rt [of "u ''other''"] by (simp add: mark_store_eval)
  moreover have "history_of mark_store (u ''s'') = [([asked], 1)]" by (simp add: history_of_def mark_store_eval)
  moreover have "tracker_at mark_store (u ''s'') = Some mark_tracker" by (simp add: mark_store_eval)
  ultimately show ?thesis using rt [of "u ''s''"] live r by auto
qed

theorem restart_markers_resolve_witness:
  "\<exists>cc loaded s' cc' e'. restart ascii_ucd (mark_env cc) mark_sha default_freeze_config 2 3 (mark_store, cc) 1
       (new_store memory_ops [] 1 1800 False) loaded (s', cc')
     \<and> mem_get (backend cc') mark_hash = Some e' \<and> original_content e' = u ''long''"
proof (rule mark_cc)
  fix cc
  assume cc: "reachable_store mark_sha cc" "mem_get (backend cc) = [mark_hash \<mapsto> mark_entry]" "mem_count (backend cc) \<le> 1"
  obtain loaded s' cc' where r: "restart ascii_ucd (mark_env cc) mark_sha default_freeze_config 2 3 (mark_store, cc) 1
      (new_store memory_ops [] 1 1800 False) loaded (s', cc')"
    using mark_restart [OF cc(1,2) reachable_store.start] by blast
  have at: "tracker_at s' (u ''s'') \<noteq> None" by (rule mark_restored [OF r cc(1)]) simp
  have old: "tracker_at mark_store (u ''s'') = Some mark_tracker" by (simp add: mark_store_eval)
  have m: "mark_msg \<in> set (tracker_messages mark_store (u ''s'') mark_tracker)" by (simp add: mark_tracker_messages)
  have "blob mark_msg = (u ''{\"role\": \"user\", \"content\": \"'') @ (u ''hash='' @ mark_hash) @ u ''\"}''"
    by (simp add: blob_def mark_msg_def mark_hash_def text_simps)
  then have "sublist (u ''hash='' @ mark_hash) (blob mark_msg)" using sublist_appendI by metis
  then have sub: "sublist (u ''hash='' @ mark_hash) (dumps_text (fe_float_repr (mark_env cc)) mark_msg)"
    by (simp add: mark_env_def mark_env0_def blob_def)
  have live: "live_entry 2 cc mark_hash = Some mark_entry"
    by (simp add: live_entry_def cc(2) is_expired_def mark_entry_def entry_of_def mark_args_def)
  have h: "length mark_hash = 24" "\<forall>c \<in> set mark_hash. is_lower_hex c"
    by (simp_all add: mark_hash_def u_def is_lower_hex_def)
  have "int (mem_count (backend cc)) \<le> 1" using cc(3) by simp
  then obtain e' where e': "mem_get (backend cc') mark_hash = Some e'" "original_content e' = original_content mark_entry"
    using restart_markers_resolve [OF r mark_sessions cc(1) mark_sha_ok ascii_ucd_ok _ at old m sub h live]
    by (auto simp: expiration_time_def mark_entry_def entry_of_def mark_args_def)
  have "original_content mark_entry = u ''long''" by (simp add: mark_entry_def entry_of_def mark_args_def)
  then show ?thesis using r e'
    by (intro exI [of _ cc] exI [of _ loaded] exI [of _ s'] exI [of _ cc'] exI [of _ e'] conjI) simp_all
qed

lemmas restored_file_defs = as_list_def decode_entry_def decode_tracker_def decode_turn_state_def as_str_def as_time_def
  as_ttl_def as_int_def as_count_def unpack_def deref_def item_def Let_def observe_cache_ttl_def new_ptracker_def
  tracker_expired_def is_expired_for_cache_ttl_def retention_seconds_def default_freeze_config_def or_zero_def
  CACHE_TTL_CLEANUP_MARGIN_def LINEAGE_HISTORY_def new_session_store_def

text \<open>A file with two records, one of them long past its retention.\<close>

definition file_record :: "string \<Rightarrow> int \<Rightarrow> json" where
  "file_record key stamp = JObj [(u ''meta'', JObj [(u ''key'', JStr (u key)), (u ''session'', JNull), (u ''affinity'', JNull),
     (u ''provider'', JStr (u ''openai'')), (u ''last_activity'', JInt stamp), (u ''cache_ttl'', JNull),
     (u ''state'', JList [JInt 0, JInt 0, JInt 0, JList [], JList []]), (u ''turns'', JList []), (u ''history'', JList []),
     (u ''maturation'', JNull)]), (u ''messages'', JList [])]"

definition two_records :: json where
  "two_records = JObj [(u ''version'', JInt 1), (u ''trackers'', JList [file_record ''new'' 999990, file_record ''old'' 0]),
     (u ''ccr'', JList [])]"

theorem load_all_or_nothing_witness:
  "let (r, f', s', cc') = load_state ascii_ucd (mark_env0\<lparr>fe_loads := \<lambda>_. Some two_records\<rparr>) memory_ops
       mark_sha default_freeze_config False True 1000000 (Some (u ''{}'')) (new_session_store 0) (new_store memory_ops [] 1 1800 False)
   in r = Some 1 \<and> f' = None \<and> tracker_at s' (u ''new'') \<noteq> None \<and> tracker_at s' (u ''old'') = None"
proof -
  let ?V = "mark_env0\<lparr>fe_loads := \<lambda>_. Some two_records\<rparr>" and ?cfg = default_freeze_config
  obtain r f' s' cc' where l: "load_state ascii_ucd ?V memory_ops mark_sha ?cfg False True 1000000
      (Some (u ''{}'')) (new_session_store 0) (new_store memory_ops [] 1 1800 False) = (r, f', s', cc')"
    by (cases rule: prod_cases4)
  have new: "kept_record ?cfg 1000000 (file_record ''new'' 999990) (u ''new'') (u ''openai'') 999990"
    by (auto simp: kept_record_def file_record_def stamp_of_def ttl_of_def default_freeze_config_def CACHE_TTL_CLEANUP_MARGIN_def)
  have old: "\<not> kept_record ?cfg 1000000 (file_record k stamp) (u ''old'') p x" if "k = ''new'' \<or> stamp = 0" for k stamp p x
    using that by (auto simp: kept_record_def file_record_def stamp_of_def ttl_of_def default_freeze_config_def CACHE_TTL_CLEANUP_MARGIN_def)
  have "r = Some 1"
    using l by (simp add: load_state_def decode_state_def two_records_def file_record_def restored_file_defs)
  from load_all_or_nothing [OF l] this have f: "f' = None" and d: "\<exists>d records. Some two_records = Some (JObj d)
      \<and> map_of d (u ''trackers'') = Some (JList records) \<and> (\<forall>key. tracker_at s' key \<noteq> None \<longleftrightarrow>
          (\<exists>rcd \<in> set records. \<exists>provider stamp. kept_record ?cfg 1000000 rcd key provider stamp))" by auto
  then have trackers: "tracker_at s' key \<noteq> None \<longleftrightarrow> (\<exists>rcd \<in> {file_record ''new'' 999990, file_record ''old'' 0}.
      \<exists>provider stamp. kept_record ?cfg 1000000 rcd key provider stamp)" for key
    by (auto simp: two_records_def)
  have "\<not> kept_record ?cfg 1000000 (file_record ''new'' 999990) (u ''old'') p x"
    "\<not> kept_record ?cfg 1000000 (file_record ''old'' 0) (u ''old'') p x" for p x using old by blast+
  then have "tracker_at s' (u ''old'') = None" using trackers [of "u ''old''"] by (simp del: not_None_eq) blast
  moreover have "tracker_at s' (u ''new'') \<noteq> None" unfolding trackers using new by blast
  moreover note f
  ultimately show ?thesis using \<open>r = Some 1\<close> l by simp
qed

end
