(* ===== verification/Lossless_Compaction.thy ===== *)
theory Lossless_Compaction
  imports Py_Text
begin

text \<open>
  \<open>headroom/transforms/lossless_compaction.py\<close>: the format-native folds of logs, search results,
  path listings and configuration, their inverses, and the dispatcher \<open>compact_lossless\<close>, which
  keeps a fold only when the inverse restores the input and the result is shorter. Each regular
  expression is the function that returns its groups; \<open>\d\<close> is what the Unicode database \<open>U\<close> says
  is a decimal digit. What the inverses can raise is an \<open>Inl\<close>: \<open>int()\<close> refuses more than 4300
  digits, and a list cannot be repeated \<open>2 ^ 63\<close> times. Memory is taken to be unlimited. The value of
  the environment variable that switches the folds off is an argument.
\<close>

section \<open>Lines\<close>

definition split_keep_trailing :: "pystr \<Rightarrow> pystr list \<times> bool" where
  "split_keep_trailing txt =
     (if txt = [] then ([], False)
      else let had_trailing = endswith txt [newline];
               body = (if had_trailing then butlast txt else txt)
           in (split_on newline body, had_trailing))"

definition join_trailing :: "pystr list \<Rightarrow> bool \<Rightarrow> pystr" where
  "join_trailing lines had_trailing = join [newline] lines @ (if had_trailing then [newline] else [])"

text \<open>The frame most functions share: an empty text is returned as it is.\<close>

definition on_lines :: "(pystr list \<Rightarrow> pystr list) \<Rightarrow> pystr \<Rightarrow> pystr" where
  "on_lines f txt =
     (let (lines, had_trailing) = split_keep_trailing txt in
      if lines = [] then txt else join_trailing (f lines) had_trailing)"

datatype fold_error = Digit_Limit | Repeat_Overflow

definition on_lines_err :: "(pystr list \<Rightarrow> fold_error + pystr list) \<Rightarrow> pystr \<Rightarrow> fold_error + pystr" where
  "on_lines_err f txt =
     (let (lines, had_trailing) = split_keep_trailing txt in
      if lines = [] then Inr txt
      else bindR (f lines) (\<lambda>out. Inr (join_trailing out had_trailing)))"

section \<open>Pieces of the regular expressions\<close>

text \<open>A literal; a maximal run of digits of bounded length (what follows it in every pattern is not a
  digit); one or more digits.\<close>

definition lit :: "pystr \<Rightarrow> pystr \<Rightarrow> pystr option" where
  "lit p s = (if startswith s p then Some (drop (length p) s) else None)"

definition one_of :: "(nat \<Rightarrow> bool) \<Rightarrow> pystr \<Rightarrow> pystr option" where
  "one_of P s = (case s of c # r \<Rightarrow> if P c then Some r else None | [] \<Rightarrow> None)"

definition some_of :: "(nat \<Rightarrow> bool) \<Rightarrow> pystr \<Rightarrow> (pystr \<times> pystr) option" where
  "some_of P s = (let d = takeWhile P s in if d = [] then None else Some (d, dropWhile P s))"

definition digit_run :: "ucd \<Rightarrow> nat \<Rightarrow> nat \<Rightarrow> pystr \<Rightarrow> pystr option" where
  "digit_run U lo hi s =
     (let n = length (takeWhile (is_decimal U) s) in
      if lo \<le> n \<and> n \<le> hi then Some (drop n s) else None)"

text \<open>\<open>\d{2}\<close> at the end of a pattern: any further character may follow.\<close>

definition two_digits :: "ucd \<Rightarrow> pystr \<Rightarrow> bool" where
  "two_digits U s \<longleftrightarrow> 2 \<le> length (takeWhile (is_decimal U) s)"

text \<open>\<open>_ANSI_RE.sub("", text)\<close>.\<close>

definition ansi_match :: "pystr \<Rightarrow> pystr option" where
  "ansi_match s =
     Option.bind (lit [27, 91] s) (\<lambda>r. lit (u ''m'') (dropWhile (\<lambda>c. 48 \<le> c \<and> c \<le> 57 \<or> c = 59) r))"

lemma ansi_match_shorter: "ansi_match s = Some r \<Longrightarrow> length r < length s"
  using length_dropWhile_le [of "\<lambda>c. 48 \<le> c \<and> c \<le> 57 \<or> c = 59" "drop 2 s"]
  by (cases s) (auto simp: ansi_match_def lit_def startswith_def bind_eq_Some_conv split: if_splits)

function strip_ansi :: "pystr \<Rightarrow> pystr" where
  "strip_ansi s =
     (case ansi_match s of
        Some r \<Rightarrow> strip_ansi r
      | None \<Rightarrow> (case s of [] \<Rightarrow> [] | c # r \<Rightarrow> c # strip_ansi r))"
  by auto
termination
  by (relation "measure length") (auto dest: ansi_match_shorter)

declare strip_ansi.simps [simp del]

text \<open>\<open>_RUN_MARKER_RE\<close> and \<open>_BLOCK_MARKER_RE\<close> with their groups of digits.\<close>

definition run_marker_match :: "ucd \<Rightarrow> pystr \<Rightarrow> pystr option" where
  "run_marker_match U line =
     Option.bind (lit (u ''... (repeated '') line) (\<lambda>r1.
     Option.bind (some_of (is_decimal U) r1) (\<lambda>(n, r2).
     if r2 = u '' times)'' then Some n else None))"

definition block_marker_match :: "ucd \<Rightarrow> pystr \<Rightarrow> (pystr \<times> pystr) option" where
  "block_marker_match U line =
     Option.bind (lit (u ''... (repeats '') line) (\<lambda>r1.
     Option.bind (some_of (is_decimal U) r1) (\<lambda>(n, r2).
     Option.bind (lit (u '' lines from '') r2) (\<lambda>r3.
     Option.bind (some_of (is_decimal U) r3) (\<lambda>(d, r4).
     if r4 = u '' lines back)'' then Some (n, d) else None))))"

text \<open>\<open>int(group)\<close>; the default of \<open>sys.set_int_max_str_digits\<close>.\<close>

definition INT_MAX_STR_DIGITS :: nat where "INT_MAX_STR_DIGITS = 4300"

definition int_of_digits :: "ucd \<Rightarrow> pystr \<Rightarrow> fold_error + nat" where
  "int_of_digits U ds = (if INT_MAX_STR_DIGITS < length ds then Inl Digit_Limit else Inr (dec_value U ds))"

text \<open>\<open>_GREP_ROW_RE\<close>, \<open>_HEADING_ROW_RE\<close> and \<open>_DIR_DATA_RE\<close>: groups path, line, content.\<close>

definition heading_row :: "ucd \<Rightarrow> pystr \<Rightarrow> (pystr \<times> pystr) option" where
  "heading_row U line =
     Option.bind (some_of (is_decimal U) line) (\<lambda>(n, r). map_option (\<lambda>content. (n, content)) (lit (u '':'') r))"

definition grep_row :: "ucd \<Rightarrow> pystr \<Rightarrow> (pystr \<times> pystr \<times> pystr) option" where
  "grep_row U line =
     Option.bind (some_of (\<lambda>c. c \<noteq> 58 \<and> c \<noteq> newline) line) (\<lambda>(path, r).
     Option.bind (lit (u '':'') r) (\<lambda>r2. map_option (\<lambda>(n, content). (path, n, content)) (heading_row U r2)))"

definition dir_data :: "ucd \<Rightarrow> pystr \<Rightarrow> (pystr \<times> pystr \<times> pystr) option" where
  "dir_data U line =
     Option.bind (some_of (\<lambda>c. c \<noteq> 47 \<and> c \<noteq> newline \<and> c \<noteq> 58) line) (\<lambda>(base, r).
     Option.bind (lit (u '':'') r) (\<lambda>r2. map_option (\<lambda>(n, content). (base, n, content)) (heading_row U r2)))"

text \<open>\<open>_TIMESTAMP_ROW_RE\<close>, one function per alternative.\<close>

definition clock :: "ucd \<Rightarrow> pystr \<Rightarrow> bool" where
  "clock U s \<longleftrightarrow>
     (case Option.bind (digit_run U 1 2 s) (lit (u '':'')) of None \<Rightarrow> False | Some r \<Rightarrow> two_digits U r)"

definition space_or_T :: "nat \<Rightarrow> bool" where "space_or_T c \<longleftrightarrow> c = 32 \<or> c = 84"

definition iso_stamp :: "ucd \<Rightarrow> pystr \<Rightarrow> bool" where
  "iso_stamp U s \<longleftrightarrow>
     (case Option.bind (digit_run U 4 4 s) (\<lambda>r. Option.bind (lit (u ''-'') r) (\<lambda>r. Option.bind (digit_run U 2 2 r) (\<lambda>r.
           Option.bind (lit (u ''-'') r) (\<lambda>r. Option.bind (digit_run U 2 2 r) (one_of space_or_T)))))
      of None \<Rightarrow> False | Some r \<Rightarrow> clock U r)"

definition slash_stamp :: "ucd \<Rightarrow> pystr \<Rightarrow> bool" where
  "slash_stamp U s \<longleftrightarrow>
     (case Option.bind (digit_run U 2 2 s) (\<lambda>r. Option.bind (lit (u ''/'') r) (\<lambda>r. Option.bind (digit_run U 2 2 r) (\<lambda>r.
           Option.bind (lit (u ''/'') r) (\<lambda>r. Option.bind (digit_run U 2 4 r) (one_of space_or_T)))))
      of None \<Rightarrow> False | Some r \<Rightarrow> clock U r)"

definition syslog_stamp :: "ucd \<Rightarrow> pystr \<Rightarrow> bool" where
  "syslog_stamp U s \<longleftrightarrow>
     (let lower = (\<lambda>c. 97 \<le> c \<and> c \<le> 122) in
      case Option.bind (one_of (\<lambda>c. 65 \<le> c \<and> c \<le> 90) s) (\<lambda>r. Option.bind (one_of lower r) (\<lambda>r.
           Option.bind (one_of lower r) (\<lambda>r. Option.bind (some_of py_isspace r) (\<lambda>(_, r).
           Option.bind (digit_run U 1 2 r) (some_of py_isspace)))))
      of None \<Rightarrow> False | Some (_, r) \<Rightarrow> clock U r)"

definition bare_stamp :: "ucd \<Rightarrow> pystr \<Rightarrow> bool" where
  "bare_stamp U s \<longleftrightarrow>
     (case Option.bind (digit_run U 1 2 s) (\<lambda>r. Option.bind (lit (u '':'') r) (\<lambda>r. Option.bind (digit_run U 2 2 r) (\<lambda>r.
           Option.bind (lit (u '':'') r) (digit_run U 2 2))))
      of None \<Rightarrow> False
       | Some r \<Rightarrow>
           let r2 = (case Option.bind (one_of (\<lambda>c. c = 46 \<or> c = 44) r) (some_of (is_decimal U)) of
                       None \<Rightarrow> r | Some (_, r') \<Rightarrow> r')
           in r2 = [] \<or> py_isspace (hd r2) \<or> hd r2 = 93)"

definition timestamp_row :: "ucd \<Rightarrow> pystr \<Rightarrow> bool" where
  "timestamp_row U line \<longleftrightarrow>
     (let s = dropWhile py_isspace line; s1 = (case s of c # r \<Rightarrow> if c = 91 then r else s | [] \<Rightarrow> s) in
      iso_stamp U s1 \<or> slash_stamp U s1 \<or> syslog_stamp U s1 \<or> bare_stamp U s1)"

section \<open>Runs of identical lines\<close>

definition run_marker :: "nat \<Rightarrow> pystr" where
  "run_marker n = u ''... (repeated '' @ show_nat n @ u '' times)''"

function collapse_lines :: "pystr list \<Rightarrow> pystr list" where
  "collapse_lines [] = []"
| "collapse_lines (x # xs) =
     (let run_len = Suc (length (takeWhile (\<lambda>y. y = x) xs)); rest = collapse_lines (dropWhile (\<lambda>y. y = x) xs) in
      if 2 \<le> run_len then x # run_marker run_len # rest else x # rest)"
  by pat_completeness auto
termination
  by (relation "measure length") (auto simp: le_imp_less_Suc length_dropWhile_le)

definition collapse_runs :: "pystr \<Rightarrow> pystr" where
  "collapse_runs = on_lines collapse_lines"

fun expand_lines :: "ucd \<Rightarrow> pystr list \<Rightarrow> fold_error + pystr list" where
  "expand_lines U [] = Inr []"
| "expand_lines U [x] = Inr [x]"
| "expand_lines U (x # y # r) =
     (case run_marker_match U y of
        Some n \<Rightarrow>
          bindR (int_of_digits U n) (\<lambda>count.
          if 2 ^ 63 \<le> count then Inl Repeat_Overflow
          else bindR (expand_lines U r) (\<lambda>out. Inr (replicate count x @ out)))
      | None \<Rightarrow> bindR (expand_lines U (y # r)) (\<lambda>out. Inr (x # out)))"

definition expand_runs :: "ucd \<Rightarrow> pystr \<Rightarrow> fold_error + pystr" where
  "expand_runs U = on_lines_err (expand_lines U)"

definition is_run_collapsed :: "ucd \<Rightarrow> pystr \<Rightarrow> bool" where
  "is_run_collapsed U txt \<longleftrightarrow> list_ex (\<lambda>line. run_marker_match U line \<noteq> None) (split_on newline txt)"

section \<open>Blocks that repeat earlier lines\<close>

definition FOLD_MIN_BLOCK :: nat where "FOLD_MIN_BLOCK = 3"
definition FOLD_MAX_BLOCK :: nat where "FOLD_MAX_BLOCK = 64"
definition FOLD_MAX_CANDIDATES :: nat where "FOLD_MAX_CANDIDATES = 8"
definition FOLD_MAX_LINES :: nat where "FOLD_MAX_LINES = 20000"

type_synonym line_positions = "(pystr, nat list) odict"

definition remember :: "line_positions \<Rightarrow> pystr \<Rightarrow> nat \<Rightarrow> line_positions" where
  "remember positions line index =
     (let bucket = (case map_of positions line of Some b \<Rightarrow> b | None \<Rightarrow> []) @ [index] in
      AList.update line (if FOLD_MAX_CANDIDATES < length bucket then tl bucket else bucket) positions)"

definition remember_block :: "line_positions \<Rightarrow> pystr list \<Rightarrow> nat \<Rightarrow> nat \<Rightarrow> line_positions" where
  "remember_block positions lines i n = fold (\<lambda>k ps. remember ps (lines ! (i + k)) (i + k)) [0..<n] positions"

text \<open>How many lines from \<open>i\<close> on equal those from \<open>q\<close> on, at most \<open>max_len\<close>.\<close>

fun common_lines :: "nat \<Rightarrow> pystr list \<Rightarrow> pystr list \<Rightarrow> nat" where
  "common_lines (Suc max_len) (x # xs) (y # ys) = (if x = y then Suc (common_lines max_len xs ys) else 0)"
| "common_lines max_len xs ys = 0"

text \<open>The longest repeat and its distance; of equally long ones the nearest.\<close>

definition best_block :: "pystr list \<Rightarrow> nat \<Rightarrow> nat list \<Rightarrow> nat \<times> nat" where
  "best_block lines i candidates =
     fold (\<lambda>q (best_len, best_gap).
        let max_len = min FOLD_MAX_BLOCK (min (length lines - i) (i - q));
            len = common_lines max_len (drop q lines) (drop i lines)
        in if best_len < len then (len, i - q) else (best_len, best_gap))
      (rev candidates) (0, 0)"

definition repeat_marker :: "nat \<Rightarrow> nat \<Rightarrow> pystr" where
  "repeat_marker len gap = u ''... (repeats '' @ show_nat len @ u '' lines from '' @ show_nat gap @ u '' lines back)''"

definition chars_of_block :: "pystr list \<Rightarrow> nat" where
  "chars_of_block block = sum_list (map (\<lambda>line. length line + 1) block)"

function fold_blocks :: "pystr list \<Rightarrow> nat \<Rightarrow> line_positions \<Rightarrow> pystr list" where
  "fold_blocks lines i positions =
     (if i < length lines then
        let (len, gap) = best_block lines i (case map_of positions (lines ! i) of Some b \<Rightarrow> b | None \<Rightarrow> []);
            marker = repeat_marker len gap in
        if FOLD_MIN_BLOCK \<le> len \<and> length marker + 1 < chars_of_block (take len (drop i lines))
        then marker # fold_blocks lines (i + len) (remember_block positions lines i len)
        else lines ! i # fold_blocks lines (i + 1) (remember positions (lines ! i) i)
      else [])"
  by pat_completeness auto
termination
  by (relation "measure (\<lambda>(lines, i, _). length lines - i)") (auto simp: FOLD_MIN_BLOCK_def)

declare fold_blocks.simps [simp del]

definition fold_repeated_blocks :: "pystr \<Rightarrow> pystr" where
  "fold_repeated_blocks txt =
     (let (lines, had_trailing) = split_keep_trailing txt; n = length lines in
      if n < FOLD_MIN_BLOCK * 2 \<or> FOLD_MAX_LINES < n then txt
      else join_trailing (fold_blocks lines 0 []) had_trailing)"

fun unfold_blocks :: "ucd \<Rightarrow> pystr list \<Rightarrow> pystr list \<Rightarrow> fold_error + pystr list" where
  "unfold_blocks U [] out = Inr out"
| "unfold_blocks U (line # lines) out =
     (case block_marker_match U line of
        None \<Rightarrow> unfold_blocks U lines (out @ [line])
      | Some (l, d) \<Rightarrow>
          bindR (int_of_digits U l) (\<lambda>len. bindR (int_of_digits U d) (\<lambda>gap.
          if gap \<le> length out \<and> len \<le> gap
          then unfold_blocks U lines (out @ take len (drop (length out - gap) out))
          else unfold_blocks U lines (out @ [line]))))"

definition unfold_repeated_blocks :: "ucd \<Rightarrow> pystr \<Rightarrow> fold_error + pystr" where
  "unfold_repeated_blocks U = on_lines_err (\<lambda>lines. unfold_blocks U lines [])"

section \<open>Search results by file and by directory\<close>

fun heading_lines :: "ucd \<Rightarrow> pystr option \<Rightarrow> pystr list \<Rightarrow> pystr list" where
  "heading_lines U current [] = []"
| "heading_lines U current (line # lines) =
     (case if timestamp_row U line then None else grep_row U line of
        Some (path, n, content) \<Rightarrow>
          (if current = Some path then [] else [path]) @ (n @ u '':'' @ content) # heading_lines U (Some path) lines
      | None \<Rightarrow> line # heading_lines U None lines)"

definition search_heading :: "ucd \<Rightarrow> pystr \<Rightarrow> pystr" where
  "search_heading U = on_lines (heading_lines U None)"

fun unheading_lines :: "ucd \<Rightarrow> pystr option \<Rightarrow> pystr list \<Rightarrow> pystr list" where
  "unheading_lines U current [] = []"
| "unheading_lines U current (line # lines) =
     (case (current, heading_row U line) of
        (Some path, Some (n, content)) \<Rightarrow>
          (path @ u '':'' @ n @ u '':'' @ content) # unheading_lines U current lines
      | (_, data) \<Rightarrow>
          if data = None \<and> lines \<noteq> [] \<and> heading_row U (hd lines) \<noteq> None
          then unheading_lines U (Some line) lines
          else line # unheading_lines U None lines)"

definition search_unheading :: "ucd \<Rightarrow> pystr \<Rightarrow> pystr" where
  "search_unheading U = on_lines (unheading_lines U None)"

text \<open>\<open>path[:cut]\<close> and \<open>path[cut:]\<close> for the last slash.\<close>

definition dir_part :: "pystr \<Rightarrow> pystr" where
  "dir_part path = rev (dropWhile (\<lambda>c. c \<noteq> 47) (rev path))"

definition base_part :: "pystr \<Rightarrow> pystr" where
  "base_part path = rev (takeWhile (\<lambda>c. c \<noteq> 47) (rev path))"

fun dir_heading_lines :: "ucd \<Rightarrow> pystr option \<Rightarrow> pystr list \<Rightarrow> pystr list" where
  "dir_heading_lines U current [] = []"
| "dir_heading_lines U current (line # lines) =
     (case if timestamp_row U line then None else grep_row U line of
        Some (path, n, content) \<Rightarrow>
          if 47 \<in> set path
          then (if current = Some (dir_part path) then [] else [dir_part path])
               @ (base_part path @ u '':'' @ n @ u '':'' @ content) # dir_heading_lines U (Some (dir_part path)) lines
          else line # dir_heading_lines U None lines
      | None \<Rightarrow> line # dir_heading_lines U None lines)"

definition search_dir_heading :: "ucd \<Rightarrow> pystr \<Rightarrow> pystr" where
  "search_dir_heading U = on_lines (dir_heading_lines U None)"

fun dir_unheading_lines :: "ucd \<Rightarrow> pystr option \<Rightarrow> pystr list \<Rightarrow> pystr list" where
  "dir_unheading_lines U current [] = []"
| "dir_unheading_lines U current (line # lines) =
     (case (current, dir_data U line) of
        (Some d, Some _) \<Rightarrow> (d @ line) # dir_unheading_lines U current lines
      | _ \<Rightarrow>
          if endswith line (u ''/'') \<and> lines \<noteq> [] \<and> dir_data U (hd lines) \<noteq> None
          then dir_unheading_lines U (Some line) lines
          else line # dir_unheading_lines U None lines)"

definition search_dir_unheading :: "ucd \<Rightarrow> pystr \<Rightarrow> pystr" where
  "search_dir_unheading U = on_lines (dir_unheading_lines U None)"

section \<open>Diffs and path listings\<close>

definition is_hex_digit :: "nat \<Rightarrow> bool" where
  "is_hex_digit c \<longleftrightarrow> 48 \<le> c \<and> c \<le> 57 \<or> 97 \<le> c \<and> c \<le> 102 \<or> 65 \<le> c \<and> c \<le> 70"

definition diff_index_row :: "pystr \<Rightarrow> bool" where
  "diff_index_row line \<longleftrightarrow>
     (case Option.bind (lit (u ''index '') line) (\<lambda>r. Option.bind (some_of is_hex_digit r) (\<lambda>(_, r).
           Option.bind (lit (u ''..'') r) (some_of is_hex_digit)))
      of None \<Rightarrow> False
       | Some (_, r) \<Rightarrow> r = [] \<or>
           (case Option.bind (lit (u '' '') r) (some_of (\<lambda>c. 48 \<le> c \<and> c \<le> 55)) of
              Some (_, []) \<Rightarrow> True | _ \<Rightarrow> False))"

definition diff_strip_index :: "pystr \<Rightarrow> pystr" where
  "diff_strip_index = on_lines (filter (\<lambda>line. \<not> diff_index_row line))"

text \<open>\<open>_PATH_ROW_RE\<close>: a leading slash is its root group; \<open>./\<close> and \<open>../\<close> match as segments too.\<close>

definition path_row :: "pystr \<Rightarrow> (pystr \<times> pystr) option" where
  "path_row line =
     (let parts = split_on 47 line; segs = (if hd parts = [] then tl parts else parts) in
      if 2 \<le> length segs \<and> list_all (\<lambda>p. p \<noteq> []) segs \<and> list_all (\<lambda>c. \<not> py_isspace c \<and> c \<noteq> 58) line
      then Some (dir_part line, base_part line) else None)"

fun path_lines :: "pystr option \<Rightarrow> pystr list \<Rightarrow> pystr list" where
  "path_lines current [] = []"
| "path_lines current (line # lines) =
     (case path_row line of
        Some (d, base) \<Rightarrow> (if current = Some d then [] else [d]) @ base # path_lines (Some d) lines
      | None \<Rightarrow> line # path_lines None lines)"

definition path_heading :: "pystr \<Rightarrow> pystr" where
  "path_heading txt =
     (let (lines, had_trailing) = split_keep_trailing txt in
      if length (filter (\<lambda>line. path_row line \<noteq> None) lines) < 2 then txt
      else join_trailing (path_lines None lines) had_trailing)"

fun unpath_lines :: "pystr option \<Rightarrow> pystr list \<Rightarrow> pystr list" where
  "unpath_lines current [] = []"
| "unpath_lines current (line # lines) =
     (let is_base = (\<lambda>l. l \<noteq> [] \<and> 47 \<notin> set l) in
      case current of
        Some d \<Rightarrow>
          if is_base line then (d @ line) # unpath_lines current lines
          else if endswith line (u ''/'') \<and> lines \<noteq> [] \<and> is_base (hd lines) then unpath_lines (Some line) lines
          else line # unpath_lines None lines
      | None \<Rightarrow>
          if endswith line (u ''/'') \<and> lines \<noteq> [] \<and> is_base (hd lines) then unpath_lines (Some line) lines
          else line # unpath_lines None lines)"

definition path_unheading :: "pystr \<Rightarrow> pystr" where
  "path_unheading = on_lines (unpath_lines None)"

section \<open>Dispatch\<close>

definition lossless_compaction_enabled :: "pystr option \<Rightarrow> bool" where
  "lossless_compaction_enabled raw =
     (case raw of None \<Rightarrow> True
      | Some s \<Rightarrow> ascii_lower (strip s) \<notin> set [u ''0'', u ''false'', u ''no'', u ''off''])"

definition smaller :: "pystr \<Rightarrow> pystr \<Rightarrow> bool" where
  "smaller candidate original \<longleftrightarrow> length candidate < length original"

definition pick_smaller :: "pystr \<Rightarrow> (pystr \<times> pystr) list \<Rightarrow> pystr \<Rightarrow> pystr" where
  "pick_smaller content folds best =
     fold (\<lambda>(candidate, restored) best. if restored = content \<and> smaller candidate best then candidate else best)
       folds best"

definition compact_lossless :: "ucd \<Rightarrow> pystr option \<Rightarrow> pystr \<Rightarrow> pystr \<Rightarrow> pystr" where
  "compact_lossless U env content kind =
     (if content = [] \<or> \<not> lossless_compaction_enabled env then content
      else if kind = u ''log'' then
        let baseline = strip_ansi content; candidate = collapse_runs baseline in
        if expand_runs U candidate \<noteq> Inr baseline then content
        else if smaller candidate content then candidate else content
      else if kind = u ''search'' then
        pick_smaller content
          [(search_heading U content, search_unheading U (search_heading U content)),
           (search_dir_heading U content, search_dir_unheading U (search_dir_heading U content))] content
      else if kind = u ''paths'' then
        let candidate = path_heading content in
        if path_unheading candidate \<noteq> content then content
        else if smaller candidate content then candidate else content
      else if kind = u ''diff'' then
        let candidate = diff_strip_index content in
        if smaller candidate content then candidate else content
      else if kind = u ''text'' then
        let candidate = collapse_runs content in
        if expand_runs U candidate \<noteq> Inr content then content
        else if smaller candidate content then candidate else content
      else if kind = u ''config'' then
        let candidate = fold_repeated_blocks (collapse_runs content) in
        if bindR (unfold_repeated_blocks U candidate) (expand_runs U) \<noteq> Inr content then content
        else if smaller candidate content then candidate else content
      else content)"

end
