(* ===== verification/Lossless_Compaction_Props.thy ===== *)
theory Lossless_Compaction_Props
  imports Lossless_Compaction
begin

text \<open>
  Properties of the lossless folds. Every fold and its inverse satisfy one contract, the locale
  \<open>line_fold\<close>: on the lines that \<open>clean\<close> admits the inverse restores the lines, and the folded
  lines can be joined to a text and split again. What follows for texts is proved once; the pairs of
  the module are interpretations.
\<close>

section \<open>Lines and texts\<close>

lemma split_keep_trailing_nonempty:
  "t \<noteq> [] \<Longrightarrow> split_keep_trailing t =
     (if endswith t [newline] then (split_on newline (butlast t), True) else (split_on newline t, False))"
  by (simp add: split_keep_trailing_def)

lemma endswith_single: "endswith t [c] \<longleftrightarrow> t \<noteq> [] \<and> last t = c"
  by (cases t rule: rev_cases) (auto simp: endswith_def)

lemma split_keep_trailing_join:
  assumes "split_keep_trailing t = (lines, had)"
  shows "join_trailing lines had = t" and "lines = [] \<longleftrightarrow> t = []"
  using assms
  by (auto simp: split_keep_trailing_def join_trailing_def Let_def join_split_on endswith_single
      append_butlast_last_id split: if_splits) (metis append_butlast_last_id)

lemma split_keep_trailing_lines:
  assumes "split_keep_trailing t = (lines, had)" and "l \<in> set lines"
  shows "newline \<notin> set l" and "set l \<subseteq> set t"
  using assms sep_notin_split_on [of l newline] set_split_on [of l newline]
  by (fastforce simp: split_keep_trailing_def Let_def dest: in_set_butlastD split: if_splits)+

lemma last_join: "ls \<noteq> [] \<Longrightarrow> last ls \<noteq> [] \<Longrightarrow> join sep ls \<noteq> [] \<and> last (join sep ls) = last (last ls)"
proof (induction ls)
  case (Cons l ls)
  then show ?case by (cases "ls = []") (auto simp: join_Cons)
qed simp

lemma last_split_on: "t \<noteq> [] \<Longrightarrow> last t \<noteq> c \<Longrightarrow> last (split_on c t) \<noteq> []"
proof (induction t)
  case (Cons x t)
  obtain l ls where s: "split_on c t = l # ls" by (cases "split_on c t") auto
  show ?case using Cons s by (cases "t = []") (auto split: if_splits)
qed simp

lemma split_keep_trailing_last:
  assumes "split_keep_trailing t = (lines, had)" and "\<not> had" and "lines \<noteq> []"
  shows "last lines \<noteq> []"
  using assms last_split_on [of t newline]
  by (auto simp: split_keep_trailing_def Let_def endswith_single split: if_splits)

lemma split_keep_trailing_of_join:
  assumes "ls \<noteq> []" and "\<forall>l \<in> set ls. newline \<notin> set l" and "had \<or> last ls \<noteq> []"
  shows "split_keep_trailing (join_trailing ls had) = (ls, had)"
proof (cases had)
  case True
  then show ?thesis using assms split_on_join [of ls newline]
    by (simp add: split_keep_trailing_nonempty join_trailing_def endswith_single)
next
  case False
  then have j: "join [newline] ls \<noteq> []" "last (join [newline] ls) = last (last ls)"
    using assms(1,3) last_join [of ls "[newline]"] by auto
  have "last (last ls) \<noteq> newline" using assms False last_in_set by (metis)
  then show ?thesis using False assms j split_on_join [of ls newline]
    by (simp add: split_keep_trailing_nonempty join_trailing_def endswith_single)
qed

definition lines_of :: "pystr \<Rightarrow> pystr list" where
  "lines_of t = fst (split_keep_trailing t)"

section \<open>The contract of a fold and its inverse\<close>

locale line_fold =
  fixes fold_ls :: "pystr list \<Rightarrow> pystr list" and undo :: "pystr list \<Rightarrow> fold_error + pystr list"
    and clean :: "pystr list \<Rightarrow> bool"
  assumes undo_fold: "clean ls \<Longrightarrow> undo (fold_ls ls) = Inr ls"
    and fold_nonempty: "ls \<noteq> [] \<Longrightarrow> fold_ls ls \<noteq> []"
    and fold_no_newline: "\<forall>l \<in> set ls. newline \<notin> set l \<Longrightarrow> l \<in> set (fold_ls ls) \<Longrightarrow> newline \<notin> set l"
    and fold_last: "ls \<noteq> [] \<Longrightarrow> last ls \<noteq> [] \<Longrightarrow> last (fold_ls ls) \<noteq> []"
begin

lemma split_folded: "t \<noteq> [] \<Longrightarrow>
  split_keep_trailing (on_lines fold_ls t) = (fold_ls (lines_of t), snd (split_keep_trailing t))"
proof -
  assume t: "t \<noteq> []"
  obtain lines had where s: "split_keep_trailing t = (lines, had)" by (cases "split_keep_trailing t")
  have ne: "lines \<noteq> []" using split_keep_trailing_join(2) [OF s] t by simp
  have "\<forall>l \<in> set (fold_ls lines). newline \<notin> set l"
    using fold_no_newline [of lines] split_keep_trailing_lines(1) [OF s] by blast
  then have "split_keep_trailing (join_trailing (fold_ls lines) had) = (fold_ls lines, had)"
    by (rule split_keep_trailing_of_join [rotated])
      (use ne split_keep_trailing_last [OF s] in \<open>auto simp: fold_nonempty fold_last\<close>)
  then show ?thesis using ne by (simp add: on_lines_def s lines_of_def)
qed

lemma lines_folded: "t \<noteq> [] \<Longrightarrow> lines_of (on_lines fold_ls t) = fold_ls (lines_of t)"
  using split_folded by (simp add: lines_of_def)

theorem restores: "clean (lines_of t) \<Longrightarrow> on_lines_err undo (on_lines fold_ls t) = Inr t"
proof (cases "t = []")
  case True
  then show ?thesis by (simp add: on_lines_def on_lines_err_def split_keep_trailing_def)
next
  case False
  assume c: "clean (lines_of t)"
  obtain lines had where s: "split_keep_trailing t = (lines, had)" by (cases "split_keep_trailing t")
  have ne: "fold_ls lines \<noteq> []" using split_keep_trailing_join(2) [OF s] False by (simp add: fold_nonempty)
  show ?thesis
    using split_folded [OF False] c undo_fold [of lines] split_keep_trailing_join(1) [OF s] ne
    by (simp add: on_lines_err_def lines_of_def s)
qed

end

lemma on_lines_err_pure: "on_lines_err (\<lambda>ls. Inr (f ls)) t = Inr (on_lines f t)"
  by (simp add: on_lines_err_def on_lines_def split: prod.split)

section \<open>Numbers in the markers\<close>

lemma length_show_nat: "n < 10 ^ Suc k \<Longrightarrow> length (show_nat n) \<le> Suc k"
proof (induction k arbitrary: n)
  case 0
  then show ?case by (subst show_nat.simps) simp
next
  case (Suc k)
  have "n div 10 < 10 ^ Suc k" using Suc.prems by (simp add: less_mult_imp_div_less mult.commute)
  then show ?case using Suc.IH [of "n div 10"] by (subst show_nat.simps) simp
qed

lemma int_of_show_nat: "ucd_ok U \<Longrightarrow> n < 2 ^ 63 \<Longrightarrow> int_of_digits U (show_nat n) = Inr n"
  using length_show_nat [of n 18] by (simp add: int_of_digits_def INT_MAX_STR_DIGITS_def dec_value_show_nat)

lemma takeWhile_show_nat:
  assumes "ucd_ok U" and "r = [] \<or> \<not> is_decimal U (hd r)"
  shows "takeWhile (is_decimal U) (show_nat n @ r) = show_nat n" and "dropWhile (is_decimal U) (show_nat n @ r) = r"
  using show_nat_decimal [OF assms(1), of n] assms(2)
  by (cases r; simp add: list_all_iff takeWhile_append2 dropWhile_append2)+

lemma some_of_show_nat:
  "ucd_ok U \<Longrightarrow> r = [] \<or> \<not> is_decimal U (hd r) \<Longrightarrow> some_of (is_decimal U) (show_nat n @ r) = Some (show_nat n, r)"
  by (simp add: some_of_def takeWhile_show_nat)

lemma lit_append [simp]: "lit p (p @ r) = Some r"
  by (simp add: lit_def)

lemma not_decimal_u: "ucd_ok U \<Longrightarrow> c < 48 \<or> 57 < c \<and> c < 128 \<Longrightarrow> \<not> is_decimal U c"
  by (auto simp: is_decimal_def ucd_ok_def)

lemma hd_u: "s \<noteq> [] \<Longrightarrow> hd (u s @ r) = of_char (hd s)" "s \<noteq> [] \<Longrightarrow> hd (u s) = of_char (hd s)"
  by (cases s; simp add: u_def)+

lemma run_marker_match_marker: "ucd_ok U \<Longrightarrow> run_marker_match U (run_marker n) = Some (show_nat n)"
  by (simp add: run_marker_match_def run_marker_def some_of_show_nat hd_u not_decimal_u)

lemma block_marker_match_marker: "ucd_ok U \<Longrightarrow> block_marker_match U (repeat_marker l d) = Some (show_nat l, show_nat d)"
  by (simp add: block_marker_match_def repeat_marker_def some_of_show_nat hd_u not_decimal_u)

lemma run_marker_not_block: "block_marker_match U (run_marker n) = None"
  by (simp add: block_marker_match_def run_marker_def lit_def startswith_def u_def)

lemma newline_in_markers [simp]: "newline \<notin> set (run_marker n)" "newline \<notin> set (repeat_marker l d)"
  using show_nat_digits [of newline] by (auto simp: run_marker_def repeat_marker_def u_def)

section \<open>Runs\<close>

definition run_clean :: "ucd \<Rightarrow> pystr list \<Rightarrow> bool" where
  "run_clean U ls \<longleftrightarrow> ucd_ok U \<and> length ls < 2 ^ 63 \<and> list_all (\<lambda>l. run_marker_match U l = None) ls"

lemma takeWhile_eq_replicate: "takeWhile (\<lambda>y. y = x) xs = replicate (length (takeWhile (\<lambda>y. y = x) xs)) x"
  by (induction xs) auto

lemma hd_collapse_lines [simp]: "hd (collapse_lines ls) = hd ls" "collapse_lines ls = [] \<longleftrightarrow> ls = []"
  by (cases ls; simp add: Let_def)+

lemma expand_Cons:
  "expand_lines U zs = Inr out \<Longrightarrow> zs = [] \<or> run_marker_match U (hd zs) = None \<Longrightarrow> expand_lines U (x # zs) = Inr (x # out)"
  by (cases zs) auto

lemma run_clean_dropWhile: "run_clean U (x # xs) \<Longrightarrow> run_clean U (dropWhile P xs)"
  using set_dropWhileD [of _ P xs] length_dropWhile_le [of P xs] by (auto simp: run_clean_def list_all_iff)

lemma expand_collapse: "run_clean U ls \<Longrightarrow> expand_lines U (collapse_lines ls) = Inr ls"
proof (induction ls rule: collapse_lines.induct)
  case (2 x xs)
  define n where "n = length (takeWhile (\<lambda>y. y = x) xs)"
  define ds where "ds = dropWhile (\<lambda>y. y = x) xs"
  have xs: "xs = replicate n x @ ds"
    using takeWhile_eq_replicate [of x xs] takeWhile_dropWhile_id [of "\<lambda>y. y = x" xs] by (simp add: n_def ds_def)
  have ok: "ucd_ok U" "Suc n < 2 ^ 63" using 2(2) xs by (auto simp: run_clean_def)
  have ds: "run_clean U ds" using run_clean_dropWhile [OF 2(2)] by (simp add: ds_def)
  have IH: "expand_lines U (collapse_lines ds) = Inr ds" using 2(1) ds by (simp add: n_def ds_def)
  have hd: "collapse_lines ds = [] \<or> run_marker_match U (hd (collapse_lines ds)) = None"
    using ds hd_collapse_lines [of ds] by (cases ds) (auto simp: run_clean_def simp del: collapse_lines.simps)
  have c: "collapse_lines (x # xs) =
      (if n = 0 then x # collapse_lines ds else x # run_marker (Suc n) # collapse_lines ds)"
    by (cases "takeWhile (\<lambda>y. y = x) xs") (simp_all add: Let_def n_def ds_def)
  show ?case
  proof (cases "n = 0")
    case True
    then show ?thesis using c xs expand_Cons [OF IH hd] by (simp del: collapse_lines.simps)
  next
    case False
    then show ?thesis
      using c xs IH ok by (simp add: run_marker_match_marker int_of_show_nat del: collapse_lines.simps)
  qed
qed simp

lemma collapse_lines_cases: "l \<in> set (collapse_lines ls) \<Longrightarrow> l \<in> set ls \<or> (\<exists>n. l = run_marker n)"
proof (induction ls rule: collapse_lines.induct)
  case (2 x xs)
  then show ?case using set_dropWhileD [of l "\<lambda>y. y = x" xs] by (auto simp: Let_def split: if_splits)
qed simp

lemma last_collapse: "ls \<noteq> [] \<Longrightarrow> last ls \<noteq> [] \<Longrightarrow> last (collapse_lines ls) \<noteq> []"
proof (induction ls rule: collapse_lines.induct)
  case (2 x xs)
  have "last (dropWhile (\<lambda>y. y = x) xs) = last xs" if "dropWhile (\<lambda>y. y = x) xs \<noteq> []"
    using that by (metis last_appendR takeWhile_dropWhile_id)
  then show ?case using 2 by (auto simp: Let_def run_marker_def u_def split: if_splits)
qed simp

interpretation runs: line_fold collapse_lines "expand_lines U" "run_clean U" for U
  by unfold_locales (auto simp: expand_collapse last_collapse dest: collapse_lines_cases)

section \<open>Repeated blocks\<close>

text \<open>What the table of positions holds when the walk is at line \<open>i\<close>.\<close>

definition positions_ok :: "pystr list \<Rightarrow> nat \<Rightarrow> line_positions \<Rightarrow> bool" where
  "positions_ok lines i ps \<longleftrightarrow> (\<forall>line b q. map_of ps line = Some b \<longrightarrow> q \<in> set b \<longrightarrow> q < i \<and> lines ! q = line)"

lemma positions_remember:
  "positions_ok lines i ps \<Longrightarrow> positions_ok lines (Suc i) (remember ps (lines ! i) i)"
  unfolding positions_ok_def
proof (intro allI impI)
  fix line b q
  assume ps: "\<forall>line b q. map_of ps line = Some b \<longrightarrow> q \<in> set b \<longrightarrow> q < i \<and> lines ! q = line"
    and b: "map_of (remember ps (lines ! i) i) line = Some b" and q: "q \<in> set b"
  define old where "old = (case map_of ps (lines ! i) of Some b \<Rightarrow> b | None \<Rightarrow> [])"
  have old: "q < i \<and> lines ! q = lines ! i" if "q \<in> set old" for q
    using that ps by (cases "map_of ps (lines ! i)") (auto simp: old_def)
  show "q < Suc i \<and> lines ! q = line"
  proof (cases "line = lines ! i")
    case True
    then have "b = (if FOLD_MAX_CANDIDATES < length (old @ [i]) then tl (old @ [i]) else old @ [i])"
      using b by (auto simp: remember_def Let_def update_conv' old_def)
    then have "q \<in> set (old @ [i])" using q list.set_sel(2) [of "old @ [i]" q] by (simp split: if_splits)
    then show ?thesis using True old by (fastforce simp: less_Suc_eq)
  next
    case False
    then have "map_of ps line = Some b" using b by (simp add: remember_def Let_def update_conv')
    then show ?thesis using ps q less_SucI by blast
  qed
qed

lemma positions_remember_block:
  "positions_ok lines i ps \<Longrightarrow> positions_ok lines (i + n) (remember_block ps lines i n)"
  by (induction n) (auto simp: remember_block_def positions_remember)

lemma common_lines_spec:
  "common_lines m xs ys \<le> m \<and> take (common_lines m xs ys) xs = take (common_lines m xs ys) ys"
  by (induction m xs ys rule: common_lines.induct) auto

definition repeats :: "pystr list \<Rightarrow> nat \<Rightarrow> nat \<times> nat \<Rightarrow> bool" where
  "repeats lines i = (\<lambda>(len, gap). 0 < len \<longrightarrow> gap \<le> i \<and> len \<le> gap \<and> i + len \<le> length lines
     \<and> take len (drop (i - gap) lines) = take len (drop i lines))"

lemma best_block_repeats:
  assumes "\<forall>q \<in> set qs. q < i" and "i < length lines"
  shows "repeats lines i (best_block lines i qs)"
proof -
  let ?step = "\<lambda>q (best_len, best_gap).
        let max_len = min FOLD_MAX_BLOCK (min (length lines - i) (i - q));
            len = common_lines max_len (drop q lines) (drop i lines)
        in if best_len < len then (len, i - q) else (best_len, best_gap)"
  have "repeats lines i (?step q b)" if "q < i" "repeats lines i b" for q b
  proof -
    define m where "m = min FOLD_MAX_BLOCK (min (length lines - i) (i - q))"
    define n where "n = common_lines m (drop q lines) (drop i lines)"
    have "n \<le> m \<and> take n (drop q lines) = take n (drop i lines)"
      using common_lines_spec [of m "drop q lines" "drop i lines"] by (simp add: n_def)
    moreover have "m \<le> i - q" "m \<le> length lines - i" by (auto simp: m_def)
    ultimately have "repeats lines i (n, i - q)" using that(1) assms(2) by (auto simp: repeats_def)
    then show ?thesis using that(2) by (auto simp: Let_def case_prod_beta simp flip: m_def n_def)
  qed
  then have all: "repeats lines i (fold ?step xs b)" if "\<forall>q \<in> set xs. q < i" "repeats lines i b" for xs b
    using that by (induction xs arbitrary: b) (simp_all del: split_paired_All)
  show ?thesis unfolding best_block_def
    by (rule all) (use assms(1) in \<open>auto simp: repeats_def\<close>)
qed

text \<open>One step of the walk: a line is kept, or a block that repeats an earlier one becomes a marker.\<close>

lemma fold_blocks_step:
  assumes "i < length lines" and "positions_ok lines i ps"
  obtains (kept) ps' where "positions_ok lines (i + 1) ps'"
      "fold_blocks lines i ps = lines ! i # fold_blocks lines (i + 1) ps'"
  | (folded) len gap ps' where "positions_ok lines (i + len) ps'" "0 < len" "repeats lines i (len, gap)"
      "length (repeat_marker len gap) + 1 < chars_of_block (take len (drop i lines))"
      "fold_blocks lines i ps = repeat_marker len gap # fold_blocks lines (i + len) ps'"
proof -
  define b where "b = (case map_of ps (lines ! i) of Some b \<Rightarrow> b | None \<Rightarrow> [])"
  have "\<forall>q \<in> set b. q < i"
    using assms(2) by (cases "map_of ps (lines ! i)") (auto simp: b_def positions_ok_def)
  then have r: "repeats lines i (best_block lines i b)" by (rule best_block_repeats [OF _ assms(1)])
  obtain len gap where lg: "best_block lines i b = (len, gap)" by (cases "best_block lines i b")
  have f: "fold_blocks lines i ps =
    (if FOLD_MIN_BLOCK \<le> len \<and> length (repeat_marker len gap) + 1 < chars_of_block (take len (drop i lines))
     then repeat_marker len gap # fold_blocks lines (i + len) (remember_block ps lines i len)
     else lines ! i # fold_blocks lines (i + 1) (remember ps (lines ! i) i))"
    using assms(1) lg by (subst fold_blocks.simps) (simp add: b_def Let_def)
  show ?thesis
  proof (cases "FOLD_MIN_BLOCK \<le> len \<and> length (repeat_marker len gap) + 1 < chars_of_block (take len (drop i lines))")
    case True
    then have "fold_blocks lines i ps = repeat_marker len gap # fold_blocks lines (i + len) (remember_block ps lines i len)"
      using f by (simp only: if_True simp_thms)
    from folded [OF positions_remember_block [OF assms(2)] _ _ _ this] True r lg show ?thesis
      by (simp add: FOLD_MIN_BLOCK_def)
  next
    case False
    then have "fold_blocks lines i ps = lines ! i # fold_blocks lines (i + 1) (remember ps (lines ! i) i)"
      using f by (simp only: if_False)
    then show ?thesis using kept [of "remember ps (lines ! i) i"] positions_remember [OF assms(2)] by simp
  qed
qed

lemma fold_blocks_end: "\<not> i < length lines \<Longrightarrow> fold_blocks lines i ps = []"
  by (subst fold_blocks.simps) simp

text \<open>The unfolding walk has rebuilt the first \<open>i\<close> lines when it reads what was written for line \<open>i\<close>.\<close>

lemma unfold_fold_blocks:
  assumes "ucd_ok U" and "list_all (\<lambda>l. block_marker_match U l = None) lines" and "length lines < 2 ^ 63"
    and "positions_ok lines i ps" and "i \<le> length lines"
  shows "unfold_blocks U (fold_blocks lines i ps) (take i lines) = Inr lines"
  using assms(4,5)
proof (induction "length lines - i" arbitrary: i ps rule: less_induct)
  case less
  show ?case
  proof (cases "i < length lines")
    case True
    show ?thesis
    proof (rule fold_blocks_step [OF True less.prems(1)])
      fix ps' assume "positions_ok lines (i + 1) ps'"
        and f: "fold_blocks lines i ps = lines ! i # fold_blocks lines (i + 1) ps'"
      then have "unfold_blocks U (fold_blocks lines (i + 1) ps') (take (i + 1) lines) = Inr lines"
        using less.hyps [of "i + 1" ps'] True by simp
      moreover have "block_marker_match U (lines ! i) = None" using assms(2) True by (simp add: list_all_length)
      ultimately show ?thesis using True by (simp add: f take_Suc_conv_app_nth)
    next
      fix len gap ps' assume ps': "positions_ok lines (i + len) ps'" "0 < len"
        and r: "repeats lines i (len, gap)"
        and f: "fold_blocks lines i ps = repeat_marker len gap # fold_blocks lines (i + len) ps'"
      have b: "gap \<le> i" "len \<le> gap" "i + len \<le> length lines" "take len (drop (i - gap) lines) = take len (drop i lines)"
        using r ps'(2) by (auto simp: repeats_def)
      have "unfold_blocks U (fold_blocks lines (i + len) ps') (take (i + len) lines) = Inr lines"
        using less.hyps [of "i + len" ps'] ps' b True by simp
      moreover have "take len (drop (i - gap) (take i lines)) = take len (drop i lines)"
        using b by (simp add: drop_take min_def flip: b(4))
      moreover have "len < 2 ^ 63" "gap < 2 ^ 63" using b assms(3) True by simp_all
      ultimately show ?thesis
        using b True assms(1) by (simp add: f block_marker_match_marker int_of_show_nat take_add)
    qed
  next
    case False
    then show ?thesis using less.prems by (simp add: fold_blocks_end)
  qed
qed

lemma fold_blocks_line:
  assumes "positions_ok lines i ps" and "l \<in> set (fold_blocks lines i ps)"
  shows "l \<in> set lines \<or> (\<exists>len gap. l = repeat_marker len gap)"
  using assms
proof (induction "length lines - i" arbitrary: i ps rule: less_induct)
  case less
  have i: "i < length lines" using less.prems(2) fold_blocks_end by fastforce
  show ?case
  proof (rule fold_blocks_step [OF i less.prems(1)])
    fix ps' assume "positions_ok lines (i + 1) ps'" "fold_blocks lines i ps = lines ! i # fold_blocks lines (i + 1) ps'"
    then show ?thesis using less.hyps [of "i + 1" ps'] less.prems(2) i by auto
  next
    fix len gap ps' assume "positions_ok lines (i + len) ps'" "0 < len"
      "fold_blocks lines i ps = repeat_marker len gap # fold_blocks lines (i + len) ps'"
    then show ?thesis using less.hyps [of "i + len" ps'] less.prems(2) i by auto
  qed
qed

lemma last_fold_blocks:
  assumes "positions_ok lines i ps" and "i < length lines" and "last lines \<noteq> []"
  shows "fold_blocks lines i ps \<noteq> [] \<and> last (fold_blocks lines i ps) \<noteq> []"
  using assms(1,2)
proof (induction "length lines - i" arbitrary: i ps rule: less_induct)
  case less
  show ?case
  proof (rule fold_blocks_step [OF less.prems(2,1)])
    fix ps' assume "positions_ok lines (i + 1) ps'" "fold_blocks lines i ps = lines ! i # fold_blocks lines (i + 1) ps'"
    moreover have "lines ! i = last lines" if "\<not> i + 1 < length lines"
      using that less.prems(2) by (cases lines rule: rev_cases) (auto simp: nth_append)
    ultimately show ?thesis
      using less.hyps [of "i + 1" ps'] less.prems(2) assms(3) fold_blocks_end [of "i + 1" lines ps'] by (cases "i + 1 < length lines") auto
  next
    fix len gap ps' assume "positions_ok lines (i + len) ps'" "0 < len"
      "fold_blocks lines i ps = repeat_marker len gap # fold_blocks lines (i + len) ps'"
    then show ?thesis
      using less.hyps [of "i + len" ps'] less.prems(2) fold_blocks_end [of "i + len" lines ps']
      by (cases "i + len < length lines") (auto simp: repeat_marker_def)
  qed
qed

lemma chars_of_block_simps [simp]:
  "chars_of_block [] = 0" "chars_of_block (l # ls) = length l + 1 + chars_of_block ls"
  "chars_of_block (xs @ ys) = chars_of_block xs + chars_of_block ys"
  by (simp_all add: chars_of_block_def)

lemma fold_blocks_chars:
  assumes "positions_ok lines i ps"
  shows "chars_of_block (fold_blocks lines i ps) \<le> chars_of_block (drop i lines)"
  using assms
proof (induction "length lines - i" arbitrary: i ps rule: less_induct)
  case less
  show ?case
  proof (cases "i < length lines")
    case True
    have split: "chars_of_block (drop i lines) = chars_of_block (take n (drop i lines)) + chars_of_block (drop (i + n) lines)" for n
      by (metis append_take_drop_id chars_of_block_simps(3) drop_drop add.commute)
    show ?thesis
    proof (rule fold_blocks_step [OF True less.prems])
      fix ps' assume "positions_ok lines (i + 1) ps'" "fold_blocks lines i ps = lines ! i # fold_blocks lines (i + 1) ps'"
      then show ?thesis using less.hyps [of "i + 1" ps'] True split [of 1] by (simp add: take_Suc_conv_app_nth take_Suc hd_drop_conv_nth)
    next
      fix len gap ps' assume "positions_ok lines (i + len) ps'" "0 < len"
        "fold_blocks lines i ps = repeat_marker len gap # fold_blocks lines (i + len) ps'"
        "length (repeat_marker len gap) + 1 < chars_of_block (take len (drop i lines))"
      moreover from this have "chars_of_block (fold_blocks lines (i + len) ps') \<le> chars_of_block (drop (i + len) lines)"
        using less.hyps [of "i + len" ps'] True by simp
      ultimately show ?thesis using split [of len] by simp
    qed
  qed (simp add: fold_blocks_end)
qed

definition fold_block_lines :: "pystr list \<Rightarrow> pystr list" where
  "fold_block_lines lines =
     (if length lines < FOLD_MIN_BLOCK * 2 \<or> FOLD_MAX_LINES < length lines then lines else fold_blocks lines 0 [])"

lemma fold_repeated_blocks_lines: "fold_repeated_blocks t = on_lines fold_block_lines t"
  using split_keep_trailing_join [of t]
  by (auto simp: fold_repeated_blocks_def on_lines_def fold_block_lines_def Let_def FOLD_MIN_BLOCK_def split: prod.split)

lemma positions_start: "positions_ok lines 0 []"
  by (simp add: positions_ok_def)

lemma unfold_blocks_plain:
  "list_all (\<lambda>l. block_marker_match U l = None) lines \<Longrightarrow> unfold_blocks U lines out = Inr (out @ lines)"
  by (induction lines arbitrary: out) auto

definition block_clean :: "ucd \<Rightarrow> pystr list \<Rightarrow> bool" where
  "block_clean U ls \<longleftrightarrow> ucd_ok U \<and> list_all (\<lambda>l. block_marker_match U l = None) ls"

interpretation blocks: line_fold fold_block_lines "\<lambda>ls. unfold_blocks U ls []" "block_clean U" for U
proof unfold_locales
  fix ls assume "block_clean U ls"
  then show "unfold_blocks U (fold_block_lines ls) [] = Inr ls"
    using unfold_fold_blocks [of U ls 0 "[]"] positions_start [of ls]
    by (auto simp: block_clean_def fold_block_lines_def FOLD_MAX_LINES_def unfold_blocks_plain)
next
  fix ls :: "pystr list" assume "ls \<noteq> []"
  then show "fold_block_lines ls \<noteq> []"
    by (auto simp: fold_block_lines_def) (subst (asm) fold_blocks.simps, auto simp: Let_def split: prod.splits if_splits)
next
  fix ls l assume "\<forall>l \<in> set ls. newline \<notin> set l" and "l \<in> set (fold_block_lines ls)"
  then show "newline \<notin> set l"
    using fold_blocks_line [OF positions_start, of l ls] by (auto simp: fold_block_lines_def split: if_splits)
next
  fix ls :: "pystr list" assume "ls \<noteq> []" and "last ls \<noteq> []"
  then show "last (fold_block_lines ls) \<noteq> []"
    using last_fold_blocks [OF positions_start, of ls] by (auto simp: fold_block_lines_def)
qed

section \<open>Search results\<close>

lemma some_of_Some: "some_of P s = Some (d, r) \<longleftrightarrow> s = d @ r \<and> d \<noteq> [] \<and> list_all P d \<and> (r = [] \<or> \<not> P (hd r))"
proof
  assume "some_of P s = Some (d, r)"
  then have "d = takeWhile P s" "r = dropWhile P s" "d \<noteq> []" by (auto simp: some_of_def Let_def split: if_splits)
  then show "s = d @ r \<and> d \<noteq> [] \<and> list_all P d \<and> (r = [] \<or> \<not> P (hd r))"
    using hd_dropWhile [of P s] set_takeWhileD [of _ P s] by (auto simp: list_all_iff)
next
  assume a: "s = d @ r \<and> d \<noteq> [] \<and> list_all P d \<and> (r = [] \<or> \<not> P (hd r))"
  then have "takeWhile P s = d \<and> dropWhile P s = r"
    by (cases r) (auto simp: list_all_iff takeWhile_append2 dropWhile_append2)
  then show "some_of P s = Some (d, r)" using a by (auto simp: some_of_def)
qed

lemma lit_colon: "lit (u '':'') s = Some r \<longleftrightarrow> s = 58 # r"
  by (cases s) (auto simp: lit_def startswith_def u_def)

lemma heading_row_Some:
  "heading_row U line = Some (n, content) \<longleftrightarrow> n \<noteq> [] \<and> list_all (is_decimal U) n \<and> \<not> is_decimal U 58 \<and> line = n @ 58 # content"
  by (auto simp: heading_row_def bind_eq_Some_conv some_of_Some lit_colon)

lemma grep_row_Some:
  "grep_row U line = Some (path, n, content) \<longleftrightarrow>
     path \<noteq> [] \<and> list_all (\<lambda>c. c \<noteq> 58 \<and> c \<noteq> newline) path \<and> heading_row U (n @ 58 # content) = Some (n, content)
     \<and> line = path @ 58 # n @ 58 # content"
  by (auto simp: grep_row_def bind_eq_Some_conv some_of_Some lit_colon heading_row_Some)

lemma dir_data_Some:
  "dir_data U line = Some (base, n, content) \<longleftrightarrow>
     base \<noteq> [] \<and> list_all (\<lambda>c. c \<noteq> 47 \<and> c \<noteq> newline \<and> c \<noteq> 58) base \<and> heading_row U (n @ 58 # content) = Some (n, content)
     \<and> line = base @ 58 # n @ 58 # content"
  by (auto simp: dir_data_def bind_eq_Some_conv some_of_Some lit_colon heading_row_Some)

lemma u_colon [simp]: "u '':'' = [58]" by (simp add: u_def)

lemma no_colon_no_row: "58 \<notin> set line \<Longrightarrow> heading_row U line = None" "58 \<notin> set line \<Longrightarrow> dir_data U line = None"
  by (auto simp: not_Some_eq [symmetric] heading_row_Some dir_data_Some simp del: not_Some_eq)

text \<open>What a fold takes for a row, and when its lines can be told from the headers.\<close>

definition search_row :: "ucd \<Rightarrow> pystr \<Rightarrow> (pystr \<times> pystr \<times> pystr) option" where
  "search_row U line = (if timestamp_row U line then None else grep_row U line)"

definition heading_clean :: "ucd \<Rightarrow> pystr list \<Rightarrow> bool" where
  "heading_clean U ls \<longleftrightarrow> list_all (\<lambda>l. search_row U l = None \<longrightarrow> heading_row U l = None) ls"

lemma heading_lines_simp:
  "heading_lines U current (line # lines) =
     (case search_row U line of
        Some (path, n, content) \<Rightarrow>
          (if current = Some path then [] else [path]) @ (n @ 58 # content) # heading_lines U (Some path) lines
      | None \<Rightarrow> line # heading_lines U None lines)"
  by (auto simp: search_row_def split: option.splits)

declare heading_lines.simps(2) [simp del]

lemma search_row_Some:
  "search_row U line = Some (path, n, content) \<Longrightarrow>
     58 \<notin> set path \<and> heading_row U (n @ 58 # content) = Some (n, content) \<and> line = path @ 58 # n @ 58 # content \<and> path \<noteq> []"
  by (auto simp: search_row_def grep_row_Some list_all_iff split: if_splits)

lemma heading_lines_None_hd:
  "heading_clean U ls \<Longrightarrow> ls \<noteq> [] \<Longrightarrow> heading_lines U None ls \<noteq> [] \<and> heading_row U (hd (heading_lines U None ls)) = None"
  by (cases ls)
    (auto simp: heading_clean_def heading_lines_simp dest: search_row_Some no_colon_no_row
      split: option.splits)

lemma unheading_heading:
  "heading_clean U ls \<Longrightarrow> unheading_lines U current (heading_lines U current ls) = ls"
proof (induction ls arbitrary: current)
  case (Cons l ls)
  have IH: "unheading_lines U c (heading_lines U c ls) = ls" for c using Cons by (simp add: heading_clean_def)
  show ?case
  proof (cases "search_row U l")
    case None
    then have "heading_row U l = None" using Cons.prems by (simp add: heading_clean_def)
    moreover have "heading_lines U None ls = [] \<or> heading_row U (hd (heading_lines U None ls)) = None"
      using heading_lines_None_hd [of U ls] Cons.prems by (cases ls) (simp_all add: heading_clean_def)
    ultimately show ?thesis
      using None IH [of None] by (auto simp: heading_lines_simp split: option.splits)
  next
    case (Some row)
    obtain path n content where row: "row = (path, n, content)" by (cases row)
    note r = search_row_Some [OF Some [unfolded row]]
    have data: "unheading_lines U (Some path) ((n @ 58 # content) # heading_lines U (Some path) ls) = l # ls"
      using r IH [of "Some path"] by simp
    have "heading_row U path = None" using r by (simp add: no_colon_no_row)
    then show ?thesis
      using data r Some row by (auto simp: heading_lines_simp split: option.splits)
  qed
qed simp

lemma heading_lines_set:
  "l \<in> set (heading_lines U current ls) \<Longrightarrow> \<exists>l' \<in> set ls. set l \<subseteq> set l'"
  by (induction ls arbitrary: current)
    (fastforce simp: heading_lines_simp dest: search_row_Some split: option.splits if_splits)+

lemma last_heading_lines:
  "ls \<noteq> [] \<Longrightarrow> heading_lines U current ls \<noteq> [] \<and> (last ls \<noteq> [] \<longrightarrow> last (heading_lines U current ls) \<noteq> [])"
  by (induction ls arbitrary: current)
    (auto simp: heading_lines_simp split: option.splits)

interpretation headings: line_fold "heading_lines U None" "\<lambda>ls. Inr (unheading_lines U None ls)" "heading_clean U" for U
  by unfold_locales (auto simp: unheading_heading last_heading_lines dest: heading_lines_set)

text \<open>By directory: rows without a directory must not look like rows below one.\<close>

definition dir_row :: "ucd \<Rightarrow> pystr \<Rightarrow> (pystr \<times> pystr \<times> pystr) option" where
  "dir_row U line = (case search_row U line of
     Some (path, n, content) \<Rightarrow> if 47 \<in> set path then Some (path, n, content) else None | None \<Rightarrow> None)"

definition dir_clean :: "ucd \<Rightarrow> pystr list \<Rightarrow> bool" where
  "dir_clean U ls \<longleftrightarrow>
     list_all (\<lambda>l. case dir_row U l of None \<Rightarrow> dir_data U l = None | Some (path, _) \<Rightarrow> base_part path \<noteq> []) ls"

lemma dir_heading_lines_simp:
  "dir_heading_lines U current (line # lines) =
     (case dir_row U line of
        Some (path, n, content) \<Rightarrow>
          (if current = Some (dir_part path) then [] else [dir_part path])
            @ (base_part path @ 58 # n @ 58 # content) # dir_heading_lines U (Some (dir_part path)) lines
      | None \<Rightarrow> line # dir_heading_lines U None lines)"
  by (auto simp: dir_row_def search_row_def split: option.splits)

declare dir_heading_lines.simps(2) [simp del]

lemma dir_base: "dir_part path @ base_part path = path" "47 \<notin> set (base_part path)"
  "47 \<in> set path \<Longrightarrow> endswith (dir_part path) (u ''/'')" "set (dir_part path) \<subseteq> set path" "set (base_part path) \<subseteq> set path"
proof -
  show p: "dir_part path @ base_part path = path"
    unfolding dir_part_def base_part_def by (metis rev_append rev_rev_ident takeWhile_dropWhile_id)
  show "47 \<notin> set (base_part path)" by (auto simp: base_part_def dest: set_takeWhileD)
  show "set (dir_part path) \<subseteq> set path" "set (base_part path) \<subseteq> set path" using p by (metis set_append Un_upper1 Un_upper2)+
  show "endswith (dir_part path) (u ''/'')" if "47 \<in> set path"
  proof -
    have "dropWhile (\<lambda>c. c \<noteq> 47) (rev path) \<noteq> []" using that by (auto simp: dropWhile_eq_Nil_conv)
    then have "hd (dropWhile (\<lambda>c. c \<noteq> 47) (rev path)) = 47"
      using hd_dropWhile [of "\<lambda>c. c \<noteq> 47" "rev path"] by simp
    moreover have "u ''/'' = [47]" by (simp add: u_def)
    ultimately show ?thesis using \<open>dropWhile (\<lambda>c. c \<noteq> 47) (rev path) \<noteq> []\<close>
      by (simp add: endswith_single dir_part_def last_rev)
  qed
qed

lemma dir_row_Some:
  "dir_row U line = Some (path, n, content) \<Longrightarrow>
     58 \<notin> set path \<and> newline \<notin> set path \<and> 47 \<in> set path \<and> heading_row U (n @ 58 # content) = Some (n, content)
     \<and> line = path @ 58 # n @ 58 # content"
  by (auto simp: dir_row_def search_row_def grep_row_Some list_all_iff split: if_splits option.splits)

lemma dir_clean_Cons:
  "dir_clean U (l # ls) \<longleftrightarrow> dir_clean U ls \<and> (case dir_row U l of None \<Rightarrow> dir_data U l = None | Some (path, _) \<Rightarrow> base_part path \<noteq> [])"
  by (auto simp: dir_clean_def)

lemma dir_heading_lines_None_hd:
  "dir_clean U ls \<Longrightarrow> ls \<noteq> [] \<Longrightarrow> dir_heading_lines U None ls \<noteq> [] \<and> dir_data U (hd (dir_heading_lines U None ls)) = None"
proof (cases ls)
  case (Cons l ls')
  assume c: "dir_clean U ls"
  show ?thesis
  proof (cases "dir_row U l")
    case (Some row)
    obtain path n content where "row = (path, n, content)" by (cases row)
    moreover from this have "58 \<notin> set (dir_part path)" using dir_row_Some [of U l path n content] Some dir_base(4) [of path] by auto
    ultimately show ?thesis using Some Cons by (simp add: dir_heading_lines_simp no_colon_no_row)
  qed (use c Cons in \<open>simp add: dir_clean_Cons dir_heading_lines_simp\<close>)
qed simp

lemma dir_unheading_heading:
  "dir_clean U ls \<Longrightarrow> dir_unheading_lines U current (dir_heading_lines U current ls) = ls"
proof (induction ls arbitrary: current)
  case (Cons l ls)
  have IH: "dir_unheading_lines U c (dir_heading_lines U c ls) = ls" for c using Cons by (simp add: dir_clean_Cons)
  show ?case
  proof (cases "dir_row U l")
    case None
    then have "dir_data U l = None" using Cons.prems by (simp add: dir_clean_Cons)
    moreover have "dir_heading_lines U None ls = [] \<or> dir_data U (hd (dir_heading_lines U None ls)) = None"
      using dir_heading_lines_None_hd [of U ls] Cons.prems by (cases ls) (simp_all add: dir_clean_Cons)
    ultimately show ?thesis
      using None IH [of None] by (auto simp: dir_heading_lines_simp split: option.splits)
  next
    case (Some row)
    obtain path n content where row: "row = (path, n, content)" by (cases row)
    note r = dir_row_Some [OF Some [unfolded row]]
    have base: "base_part path \<noteq> []" using Cons.prems Some row by (simp add: dir_clean_Cons)
    then have d: "dir_data U (base_part path @ 58 # n @ 58 # content) = Some (base_part path, n, content)"
      using r dir_base(2,5) [of path] by (auto simp: dir_data_Some list_all_iff)
    have line: "dir_part path @ base_part path @ 58 # n @ 58 # content = l" using r dir_base(1) [of path] by simp
    have data: "dir_unheading_lines U (Some (dir_part path))
        ((base_part path @ 58 # n @ 58 # content) # dir_heading_lines U (Some (dir_part path)) ls) = l # ls"
      using d line IH [of "Some (dir_part path)"] by simp
    have "dir_data U (dir_part path) = None" using r dir_base(4) [of path] by (auto intro: no_colon_no_row)
    then have header: "dir_unheading_lines U current (dir_part path # (base_part path @ 58 # n @ 58 # content) # rest)
        = dir_unheading_lines U (Some (dir_part path)) ((base_part path @ 58 # n @ 58 # content) # rest)" for rest
      using d dir_base(3) [of path] r by (simp split: option.splits)
    show ?thesis
      using data header Some row
      by (simp add: dir_heading_lines_simp del: dir_unheading_lines.simps)
  qed
qed simp

lemma dir_heading_lines_set:
  "l \<in> set (dir_heading_lines U current ls) \<Longrightarrow> \<exists>l' \<in> set ls. set l \<subseteq> set l'"
proof (induction ls arbitrary: current)
  case (Cons l' ls)
  show ?case
  proof (cases "dir_row U l'")
    case None
    then show ?thesis using Cons by (auto simp: dir_heading_lines_simp)
  next
    case (Some row)
    obtain path n content where row: "row = (path, n, content)" by (cases row)
    have l': "l' = path @ 58 # n @ 58 # content" using dir_row_Some Some row by blast
    consider "l = dir_part path" | "l = base_part path @ 58 # n @ 58 # content"
      | "l \<in> set (dir_heading_lines U (Some (dir_part path)) ls)"
      using Cons.prems Some row by (auto simp: dir_heading_lines_simp split: if_splits)
    then show ?thesis using dir_base(4,5) [of path] Cons.IH l' by cases auto
  qed
qed simp

lemma last_dir_heading_lines:
  "ls \<noteq> [] \<Longrightarrow> dir_heading_lines U current ls \<noteq> [] \<and> (last ls \<noteq> [] \<longrightarrow> last (dir_heading_lines U current ls) \<noteq> [])"
  by (induction ls arbitrary: current)
    (auto simp: dir_heading_lines_simp split: option.splits)

interpretation dirs: line_fold "dir_heading_lines U None" "\<lambda>ls. Inr (dir_unheading_lines U None ls)" "dir_clean U" for U
  by unfold_locales (auto simp: dir_unheading_heading last_dir_heading_lines dest: dir_heading_lines_set)

section \<open>Path listings\<close>

lemma last_split_on_sep: "t \<noteq> [] \<Longrightarrow> last t = c \<Longrightarrow> last (split_on c t) = []"
proof (induction t)
  case (Cons x t)
  obtain l ls where s: "split_on c t = l # ls" by (cases "split_on c t") auto
  show ?case
  proof (cases "t = []")
    case False
    then have IH: "last (l # ls) = []" and "c \<in> set t" using Cons s last_in_set [of t] by auto
    have "ls \<noteq> []"
    proof
      assume "ls = []"
      then have "join [c] (split_on c t) = []" using IH s by simp
      then show False using False by (simp add: join_split_on)
    qed
    then show ?thesis using IH s by auto
  qed (use Cons in simp)
qed simp

lemma split_on_no_sep: "c \<notin> set t \<Longrightarrow> split_on c t = [t]"
  by (induction t) auto

lemma path_row_Some:
  assumes "path_row line = Some (d, b)"
  shows "d @ b = line" and "b \<noteq> []" and "47 \<notin> set b" and "47 \<in> set d" and "endswith d (u ''/'')"
    and "set d \<subseteq> set line" and "set b \<subseteq> set line"
proof -
  define segs where "segs = (if hd (split_on 47 line) = [] then tl (split_on 47 line) else split_on 47 line)"
  have a: "2 \<le> length segs" "list_all (\<lambda>p. p \<noteq> []) segs" "d = dir_part line" "b = base_part line"
    using assms by (auto simp: path_row_def segs_def Let_def split: if_splits)
  have "2 \<le> length (split_on 47 line)" using a(1) by (auto simp: segs_def split: if_splits)
  then have "47 \<in> set line" using split_on_no_sep [of 47 line] by (cases "47 \<in> set line") simp_all
  then have "line \<noteq> []" by auto
  have "last segs = last (split_on 47 line)"
    using a(1) by (cases "split_on 47 line") (auto simp: segs_def split: if_splits)
  moreover have "last segs \<noteq> []" using a(1,2) by (cases segs rule: rev_cases) auto
  ultimately have "last line \<noteq> 47" using last_split_on_sep \<open>line \<noteq> []\<close> by metis
  then show b: "b \<noteq> []" using \<open>line \<noteq> []\<close> a(4) by (cases line rule: rev_cases) (auto simp: base_part_def)
  show "d @ b = line" "47 \<notin> set b" "endswith d (u ''/'')" "set d \<subseteq> set line" "set b \<subseteq> set line"
    using dir_base [of line] a \<open>47 \<in> set line\<close> by auto
  have "u ''/'' = [47]" by (simp add: u_def)
  then show "47 \<in> set d" using \<open>endswith d (u ''/'')\<close> last_in_set [of d] by (simp add: endswith_single)
qed

definition path_clean :: "pystr list \<Rightarrow> bool" where
  "path_clean ls \<longleftrightarrow> list_all (\<lambda>l. path_row l = None \<longrightarrow> l = [] \<or> 47 \<in> set l) ls"

definition is_base :: "pystr \<Rightarrow> bool" where
  "is_base l \<longleftrightarrow> l \<noteq> [] \<and> 47 \<notin> set l"

lemma unpath_lines_simp:
  "unpath_lines current (line # lines) =
     (if current \<noteq> None \<and> is_base line then (the current @ line) # unpath_lines current lines
      else if endswith line (u ''/'') \<and> lines \<noteq> [] \<and> is_base (hd lines) then unpath_lines (Some line) lines
      else line # unpath_lines None lines)"
  unfolding unpath_lines.simps is_base_def Let_def by (cases current) (simp_all only: option.case option.sel option.distinct simp_thms if_False if_True split: if_splits)

declare unpath_lines.simps(2) [simp del]

lemma path_lines_None_hd:
  "path_clean ls \<Longrightarrow> ls \<noteq> [] \<Longrightarrow> path_lines None ls \<noteq> [] \<and> \<not> is_base (hd (path_lines None ls))"
  by (cases ls) (auto simp: path_clean_def is_base_def dest: path_row_Some split: option.splits)

lemma unpath_path: "path_clean ls \<Longrightarrow> unpath_lines current (path_lines current ls) = ls"
proof (induction ls arbitrary: current)
  case (Cons l ls)
  have IH: "unpath_lines c (path_lines c ls) = ls" for c using Cons by (simp add: path_clean_def)
  show ?case
  proof (cases "path_row l")
    case None
    then have "\<not> is_base l" using Cons.prems by (auto simp: path_clean_def is_base_def)
    moreover have "path_lines None ls = [] \<or> \<not> is_base (hd (path_lines None ls))"
      using path_lines_None_hd [of ls] Cons.prems by (cases ls) (simp_all add: path_clean_def)
    ultimately show ?thesis using None IH [of None] by (auto simp: unpath_lines_simp)
  next
    case (Some row)
    obtain d b where row: "row = (d, b)" by (cases row)
    note r = path_row_Some [OF Some [unfolded row]]
    have base: "is_base b" "\<not> is_base d" using r by (auto simp: is_base_def)
    have "unpath_lines (Some d) (b # path_lines (Some d) ls) = l # ls"
      using base r(1) IH [of "Some d"] by (simp add: unpath_lines_simp)
    moreover have "unpath_lines current (d # b # rest) = unpath_lines (Some d) (b # rest)" for rest
      using base r(5) by (simp add: unpath_lines_simp [of current])
    ultimately show ?thesis using Some row by auto
  qed
qed simp

lemma unpath_plain: "list_all (\<lambda>l. \<not> is_base l) ls \<Longrightarrow> unpath_lines None ls = ls"
proof (induction ls)
  case (Cons l ls)
  then have "ls = [] \<or> \<not> is_base (hd ls)" by (cases ls) simp_all
  with Cons show ?case by (auto simp: unpath_lines_simp)
qed simp

lemma path_lines_set: "l \<in> set (path_lines current ls) \<Longrightarrow> \<exists>l' \<in> set ls. set l \<subseteq> set l'"
proof (induction ls arbitrary: current)
  case (Cons l' ls)
  show ?case
  proof (cases "path_row l'")
    case (Some row)
    obtain d b where row: "row = (d, b)" by (cases row)
    consider "l = d" | "l = b" | "l \<in> set (path_lines (Some d) ls)"
      using Cons.prems Some row by (auto split: if_splits)
    then show ?thesis using path_row_Some(6,7) [OF Some [unfolded row]] Cons.IH by cases auto
  qed (use Cons in auto)
qed simp

lemma last_path_lines:
  "ls \<noteq> [] \<Longrightarrow> path_lines current ls \<noteq> [] \<and> (last ls \<noteq> [] \<longrightarrow> last (path_lines current ls) \<noteq> [])"
proof (induction ls arbitrary: current)
  case (Cons l ls)
  show ?case
  proof (cases "path_row l")
    case (Some row)
    obtain d b where row: "row = (d, b)" by (cases row)
    then show ?thesis using path_row_Some(2) [OF Some [unfolded row]] Some Cons.IH [of "Some d"] by (cases "ls = []") auto
  qed (use Cons.IH [of None] in \<open>cases "ls = []"; auto\<close>)
qed simp

definition fold_path_lines :: "pystr list \<Rightarrow> pystr list" where
  "fold_path_lines lines =
     (if length (filter (\<lambda>line. path_row line \<noteq> None) lines) < 2 then lines else path_lines None lines)"

lemma path_heading_lines: "path_heading t = on_lines fold_path_lines t"
  using split_keep_trailing_join [of t]
  by (auto simp: path_heading_def on_lines_def fold_path_lines_def Let_def split: prod.split)

lemma path_row_not_base: "path_row l \<noteq> None \<Longrightarrow> \<not> is_base l"
  using path_row_Some(4,6) [of l] by (auto simp: is_base_def)

interpretation paths: line_fold fold_path_lines "\<lambda>ls. Inr (unpath_lines None ls)" path_clean
proof unfold_locales
  fix ls assume c: "path_clean ls"
  then have "list_all (\<lambda>l. \<not> is_base l) ls"
    using path_row_not_base by (fastforce simp: path_clean_def list_all_iff is_base_def)
  then show "Inr (unpath_lines None (fold_path_lines ls)) = Inr ls"
    using unpath_path [OF c, of None] by (simp add: fold_path_lines_def unpath_plain)
qed (auto simp: fold_path_lines_def last_path_lines dest: path_lines_set split: if_splits)

section \<open>The dispatcher\<close>

lemma compact_lossless_cases:
  "compact_lossless U env content kind = content \<or>
   lossless_compaction_enabled env \<and> content \<noteq> [] \<and> length (compact_lossless U env content kind) < length content \<and>
   (kind = u ''log'' \<and> expand_runs U (compact_lossless U env content kind) = Inr (strip_ansi content) \<or>
    kind = u ''search'' \<and> (search_unheading U (compact_lossless U env content kind) = content
        \<or> search_dir_unheading U (compact_lossless U env content kind) = content) \<or>
    kind = u ''paths'' \<and> path_unheading (compact_lossless U env content kind) = content \<or>
    kind = u ''diff'' \<and> compact_lossless U env content kind = diff_strip_index content \<or>
    kind = u ''text'' \<and> expand_runs U (compact_lossless U env content kind) = Inr content \<or>
    kind = u ''config'' \<and> bindR (unfold_repeated_blocks U (compact_lossless U env content kind)) (expand_runs U) = Inr content)"
  by (auto simp: compact_lossless_def Let_def pick_smaller_def smaller_def)

text \<open>C17: A fold never loses what the model needs. Whatever the content and its kind, the result is the
  content itself or is strictly shorter and the inverse of its kind restores the content exactly: for a
  log the content without its colour codes, for a search one of the two inverses. For a diff the lines of
  the result are those of the content that are not \<open>index\<close> lines, in order.\<close>

theorem compact_lossless_recoverable:
  assumes "compact_lossless U env content kind = r" and "r \<noteq> content"
  shows "length r < length content \<and>
    (kind = u ''log'' \<and> expand_runs U r = Inr (strip_ansi content) \<or>
     kind = u ''search'' \<and> (search_unheading U r = content \<or> search_dir_unheading U r = content) \<or>
     kind = u ''paths'' \<and> path_unheading r = content \<or>
     kind = u ''text'' \<and> expand_runs U r = Inr content \<or>
     kind = u ''config'' \<and> bindR (unfold_repeated_blocks U r) (expand_runs U) = Inr content \<or>
     kind = u ''diff'' \<and> r = join_trailing (filter (\<lambda>l. \<not> diff_index_row l) (lines_of content)) (endswith content [newline]))"
proof -
  have "diff_strip_index content = join_trailing (filter (\<lambda>l. \<not> diff_index_row l) (lines_of content)) (endswith content [newline])"
    if "content \<noteq> []"
    using that by (simp add: diff_strip_index_def on_lines_def lines_of_def split_keep_trailing_nonempty)
  then show ?thesis using compact_lossless_cases [of U env content kind] assms by auto
qed

lemma length_split_on: "t \<noteq> [] \<Longrightarrow> last t \<noteq> c \<Longrightarrow> length (split_on c t) \<le> length t" "length (split_on c t) \<le> Suc (length t)"
proof -
  show l: "length (split_on c t) \<le> Suc (length t)" for t by (induction t) (auto split: list.splits)
  show "length (split_on c t) \<le> length t" if "t \<noteq> []" "last t \<noteq> c"
    using that
  proof (induction t)
    case (Cons x t)
    obtain l ls where "split_on c t = l # ls" by (cases "split_on c t") auto
    then show ?case using Cons by (cases "t = []") auto
  qed simp
qed

lemma length_lines_of: "length (lines_of t) \<le> length t"
proof (cases "t = []")
  case False
  then show ?thesis
    using length_split_on(1) [of t newline] length_split_on(2) [of newline "butlast t"]
    by (cases "endswith t [newline]") (auto simp: lines_of_def split_keep_trailing_nonempty endswith_single)
qed (simp add: lines_of_def split_keep_trailing_def)

lemma length_join: "ls \<noteq> [] \<Longrightarrow> Suc (length (join [c] ls)) = chars_of_block ls"
proof (induction ls)
  case (Cons l ls)
  then show ?case by (cases "ls = []") (auto simp: join_Cons)
qed simp

lemma fold_repeated_blocks_shorter: "length (fold_repeated_blocks t) \<le> length t"
proof -
  obtain lines had where s: "split_keep_trailing t = (lines, had)" by (cases "split_keep_trailing t")
  show ?thesis
  proof (cases "lines = [] \<or> length lines < FOLD_MIN_BLOCK * 2 \<or> FOLD_MAX_LINES < length lines")
    case False
    then have f: "fold_repeated_blocks t = join_trailing (fold_blocks lines 0 []) had"
      by (simp add: fold_repeated_blocks_def s)
    have "chars_of_block (fold_blocks lines 0 []) \<le> chars_of_block lines"
      using fold_blocks_chars [OF positions_start, of lines] by simp
    moreover have "fold_blocks lines 0 [] \<noteq> []"
      using blocks.fold_nonempty [of lines] False by (simp add: fold_block_lines_def)
    ultimately have "length (join_trailing (fold_blocks lines 0 []) had) \<le> length (join_trailing lines had)"
      using False length_join [of lines newline] length_join [of "fold_blocks lines 0 []" newline]
      by (simp add: join_trailing_def)
    then show ?thesis using f split_keep_trailing_join(1) [OF s] by simp
  qed (auto simp: fold_repeated_blocks_def s FOLD_MIN_BLOCK_def)
qed

definition marker_free :: "ucd \<Rightarrow> pystr \<Rightarrow> bool" where
  "marker_free U t \<longleftrightarrow> list_all (\<lambda>l. run_marker_match U l = None \<and> block_marker_match U l = None) (lines_of t)"

lemma collapse_restores:
  assumes "ucd_ok U" and "length t < 2 ^ 63" and "marker_free U t"
  shows "expand_runs U (collapse_runs t) = Inr t"
  unfolding expand_runs_def collapse_runs_def
  by (rule runs.restores) (use assms length_lines_of [of t] in \<open>auto simp: run_clean_def marker_free_def list_all_iff\<close>)

lemma fold_collapse_restores:
  assumes "ucd_ok U" and "marker_free U t"
  shows "unfold_repeated_blocks U (fold_repeated_blocks (collapse_runs t)) = Inr (collapse_runs t)"
  unfolding unfold_repeated_blocks_def fold_repeated_blocks_lines
proof (rule blocks.restores)
  show "block_clean U (lines_of (collapse_runs t))"
  proof (cases "t = []")
    case True
    then show ?thesis using assms(1)
      by (simp add: block_clean_def collapse_runs_def on_lines_def lines_of_def split_keep_trailing_def)
  next
    case False
    then have "lines_of (collapse_runs t) = collapse_lines (lines_of t)"
      unfolding collapse_runs_def by (rule runs.lines_folded)
    then show ?thesis
      using assms collapse_lines_cases [of _ "lines_of t"]
      by (fastforce simp: block_clean_def marker_free_def list_all_iff run_marker_not_block)
  qed
qed

text \<open>C21: The run and block folds are never refused on content without lines that look like their markers.
  Then the inverses restore the content exactly, so \<open>compact_lossless\<close> answers with the fold of the
  kind whenever that is shorter; and folding repeated blocks never makes a text longer.\<close>

theorem marker_free_content_is_folded:
  assumes "ucd_ok U" and "length content < 2 ^ 63" and "marker_free U content" and "lossless_compaction_enabled env"
  shows "expand_runs U (collapse_runs content) = Inr content
    \<and> unfold_repeated_blocks U (fold_repeated_blocks content) = Inr content
    \<and> length (fold_repeated_blocks content) \<le> length content
    \<and> compact_lossless U env content (u ''text'') =
        (if length (collapse_runs content) < length content then collapse_runs content else content)
    \<and> compact_lossless U env content (u ''config'') =
        (if length (fold_repeated_blocks (collapse_runs content)) < length content
         then fold_repeated_blocks (collapse_runs content) else content)"
proof -
  have b: "unfold_repeated_blocks U (fold_repeated_blocks content) = Inr content"
    unfolding unfold_repeated_blocks_def fold_repeated_blocks_lines
    by (rule blocks.restores) (use assms in \<open>auto simp: block_clean_def marker_free_def list_all_iff\<close>)
  have e: "collapse_runs [] = []" "fold_repeated_blocks [] = []"
    by (simp_all add: collapse_runs_def fold_repeated_blocks_lines on_lines_def split_keep_trailing_def)
  show ?thesis
    using b collapse_restores [OF assms(1-3)] fold_collapse_restores [OF assms(1,3)] fold_repeated_blocks_shorter assms(4) e
    by (auto simp: compact_lossless_def Let_def smaller_def)
qed

text \<open>Search results and path listings. When no line that is passed through can be taken for a row
  below a heading, the three heading folds are restored exactly by their inverses, so a search is
  answered with the shortest of the two folds and the content, and a listing with its fold if shorter.\<close>

theorem heading_folds_restore:
  assumes "heading_clean U (lines_of content)" and "dir_clean U (lines_of content)" and "path_clean (lines_of listing)"
    and "lossless_compaction_enabled env"
  shows "search_unheading U (search_heading U content) = content
    \<and> search_dir_unheading U (search_dir_heading U content) = content
    \<and> path_unheading (path_heading listing) = listing
    \<and> length (compact_lossless U env content (u ''search'')) =
        min (length content) (min (length (search_heading U content)) (length (search_dir_heading U content)))
    \<and> length (compact_lossless U env listing (u ''paths'')) = min (length listing) (length (path_heading listing))"
proof -
  have h: "search_unheading U (search_heading U content) = content"
    using headings.restores [OF assms(1)] by (simp add: search_heading_def search_unheading_def on_lines_err_pure)
  have d: "search_dir_unheading U (search_dir_heading U content) = content"
    using dirs.restores [OF assms(2)] by (simp add: search_dir_heading_def search_dir_unheading_def on_lines_err_pure)
  have p: "path_unheading (path_heading listing) = listing"
    using paths.restores [OF assms(3)] by (simp add: path_heading_lines path_unheading_def on_lines_err_pure)
  show ?thesis using h d p assms(4)
    by (auto simp: compact_lossless_def Let_def smaller_def pick_smaller_def min_def)
qed

text \<open>The self-check trusts the counts it reads. For every number of lines a list can hold there is a
  content of at most 42 characters, unchanged by the fold, whose check first builds that many lines.\<close>

theorem self_check_expands_any_count:
  assumes "ucd_ok U" and "0 < n" and "n < 2 ^ 63"
  shows "\<exists>content. length content \<le> 42 \<and> collapse_runs content = content
    \<and> expand_runs U (collapse_runs content) = Inr (join [newline] (replicate n (u ''x'')))
    \<and> compact_lossless U None content (u ''text'') = content"
proof (intro exI conjI)
  let ?c = "u ''x'' @ newline # run_marker n"
  have s: "split_keep_trailing ?c = ([u ''x'', run_marker n], False)"
  proof -
    have "newline \<notin> set (u ''x'')" and "run_marker n \<noteq> []" by (simp_all add: u_def run_marker_def)
    then have "split_keep_trailing (join_trailing [u ''x'', run_marker n] False) = ([u ''x'', run_marker n], False)"
      by (intro split_keep_trailing_of_join) auto
    then show ?thesis by (simp add: join_trailing_def)
  qed
  have len: "length (show_nat n) \<le> 19" using length_show_nat [of n 18] assms(3) by simp
  show "length ?c \<le> 42" using len by (simp add: run_marker_def)
  have c: "collapse_lines [u ''x'', run_marker n] = [u ''x'', run_marker n]" by (simp add: Let_def run_marker_def u_def)
  show col: "collapse_runs ?c = ?c" using split_keep_trailing_join(1) [OF s] c by (simp add: collapse_runs_def on_lines_def s)
  show "expand_runs U (collapse_runs ?c) = Inr (join [newline] (replicate n (u ''x'')))"
    unfolding col using assms
    by (simp add: expand_runs_def on_lines_err_def s run_marker_match_marker int_of_show_nat join_trailing_def)
  show "compact_lossless U None ?c (u ''text'') = ?c"
    using col by (simp add: compact_lossless_def Let_def smaller_def)
qed

section \<open>Concrete inputs\<close>

definition forty_lines :: pystr where
  "forty_lines = join_trailing (replicate 40 (u ''x'')) True"

definition forty_folded :: pystr where
  "forty_folded = join_trailing [u ''x'', run_marker 40] True"

lemma forty_lines_facts:
  "split_keep_trailing forty_lines = (replicate 40 (u ''x''), True)" "collapse_runs forty_lines = forty_folded"
  "length forty_folded = 26" "length forty_lines = 80" "marker_free ascii_ucd forty_lines"
proof -
  have "split_keep_trailing (join_trailing (replicate 40 (u ''x'')) True) = (replicate 40 (u ''x''), True)"
    by (rule split_keep_trailing_of_join) (simp_all add: u_def)
  then show s: "split_keep_trailing forty_lines = (replicate 40 (u ''x''), True)" by (simp add: forty_lines_def)
  have r: "replicate 40 (u ''x'') = u ''x'' # replicate 39 (u ''x'')" by (simp add: numeral_eq_Suc)
  have "collapse_lines (u ''x'' # replicate 39 (u ''x'')) = [u ''x'', run_marker 40]"
    by (simp add: Let_def takeWhile_replicate dropWhile_replicate)
  then show "collapse_runs forty_lines = forty_folded"
    using s unfolding r by (simp add: collapse_runs_def on_lines_def forty_folded_def del: collapse_lines.simps)
  show "length forty_folded = 26"
    by (simp add: forty_folded_def join_trailing_def run_marker_def show_nat.simps)
  have "length (join [newline] (replicate (Suc n) (u ''x''))) = 2 * n + 1" for n
    by (induction n) (simp_all add: join_Cons)
  from this [of 39] show "length forty_lines = 80" by (simp add: forty_lines_def join_trailing_def numeral_eq_Suc)
  show "marker_free ascii_ucd forty_lines"
    by (auto simp: marker_free_def lines_of_def s list_all_iff)
      (simp_all add: run_marker_match_def block_marker_match_def lit_def startswith_def u_def)
qed

lemma forty_lines_text: "compact_lossless ascii_ucd None forty_lines (u ''text'') = forty_folded"
  using collapse_restores [OF ascii_ucd_ok _ forty_lines_facts(5)] forty_lines_facts
  by (auto simp: compact_lossless_def Let_def smaller_def lossless_compaction_enabled_def)

theorem compact_lossless_recoverable_witness:
  "compact_lossless ascii_ucd None forty_lines (u ''text'') = forty_folded
   \<and> length forty_folded < length forty_lines \<and> expand_runs ascii_ucd forty_folded = Inr forty_lines"
proof -
  have "forty_folded \<noteq> forty_lines" using forty_lines_facts(3,4) by auto
  from compact_lossless_recoverable [OF forty_lines_text this] show ?thesis
    using forty_lines_text by simp
qed

theorem marker_free_content_is_folded_witness:
  "expand_runs ascii_ucd (collapse_runs forty_lines) = Inr forty_lines
   \<and> unfold_repeated_blocks ascii_ucd (fold_repeated_blocks forty_lines) = Inr forty_lines
   \<and> length (fold_repeated_blocks forty_lines) \<le> 80
   \<and> compact_lossless ascii_ucd None forty_lines (u ''text'') = forty_folded"
  using marker_free_content_is_folded [OF ascii_ucd_ok _ forty_lines_facts(5), of None] forty_lines_facts
  by (simp add: lossless_compaction_enabled_def)

definition two_rows :: pystr where "two_rows = join_trailing [u ''d/a:1:x'', u ''d/b:2:y''] False"
definition two_paths :: pystr where "two_paths = join_trailing [u ''d/a'', u ''d/b''] False"

lemma lines_of_two: "lines_of two_rows = [u ''d/a:1:x'', u ''d/b:2:y'']" "lines_of two_paths = [u ''d/a'', u ''d/b'']"
  using split_keep_trailing_of_join [of "[u ''d/a:1:x'', u ''d/b:2:y'']" False]
    split_keep_trailing_of_join [of "[u ''d/a'', u ''d/b'']" False]
  by (auto simp: two_rows_def two_paths_def lines_of_def u_def)

lemma two_rows_match:
  "search_row ascii_ucd (u ''d/a:1:x'') = Some (u ''d/a'', u ''1'', u ''x'')"
  "search_row ascii_ucd (u ''d/b:2:y'') = Some (u ''d/b'', u ''2'', u ''y'')"
  by (simp_all add: search_row_def timestamp_row_def iso_stamp_def slash_stamp_def syslog_stamp_def bare_stamp_def
      digit_run_def one_of_def grep_row_Some heading_row_Some is_decimal_def ascii_ucd_def py_isspace_def u_def)

theorem heading_folds_restore_witness:
  "search_unheading ascii_ucd (search_heading ascii_ucd two_rows) = two_rows
   \<and> search_dir_unheading ascii_ucd (search_dir_heading ascii_ucd two_rows) = two_rows
   \<and> path_unheading (path_heading two_paths) = two_paths
   \<and> length (compact_lossless ascii_ucd None two_paths (u ''paths'')) = min (length two_paths) (length (path_heading two_paths))"
proof -
  have "heading_clean ascii_ucd (lines_of two_rows)"
    by (simp add: heading_clean_def lines_of_two two_rows_match)
  moreover have "dir_clean ascii_ucd (lines_of two_rows)"
    by (simp add: dir_clean_def lines_of_two dir_row_def two_rows_match base_part_def) (simp add: u_def)
  moreover have "path_clean (lines_of two_paths)"
    by (simp add: path_clean_def lines_of_two u_def)
  ultimately show ?thesis
    using heading_folds_restore [of ascii_ucd two_rows two_paths None] by (simp add: lossless_compaction_enabled_def)
qed

theorem self_check_expands_any_count_witness:
  "\<exists>content. length content \<le> 42 \<and> collapse_runs content = content
    \<and> expand_runs ascii_ucd (collapse_runs content) = Inr (join [newline] (replicate (10 ^ 18) (u ''x'')))
    \<and> compact_lossless ascii_ucd None content (u ''text'') = content"
  by (rule self_check_expands_any_count [OF ascii_ucd_ok]) simp_all

end
