(* ===== verification/Read_Maturation.thy ===== *)
theory Read_Maturation
  imports Read_Lifecycle Prefix_Sessions
begin

text \<open>
  \<open>headroom/transforms/read_maturation.py\<close>: the output of a file read is held verbatim while its file
  is active and replaced by a marker once the file has been quiet, unless the provider already cached
  it; from then on the same marker is sent on every request. The model is the whole
  \<open>ReadMaturationManager\<close>. Tool call ids are dictionary keys as in \<open>Read_Lifecycle\<close>. An
  exception leaves what the pass has recorded so far, so the manager is returned next to the result.
  \<open>sha\<close> is the SHA-256 hex digest of a text's UTF-8 encoding.
\<close>

section \<open>Data\<close>

record maturation_config =
  mc_enabled :: bool
  quiesce_turns :: int
  max_hold_turns :: int
  mc_min_size :: int

record matured_read =
  mr_marker :: pystr
  mr_hash :: pystr

record 'b maturation_manager =
  mm_config :: maturation_config
  mm_store :: "'b cstore option"
  mm_matured :: "(json, matured_read) odict"
  mm_booked :: "pystr list"
  mm_deltas :: "(pystr, int) odict"

definition new_maturation_manager :: "maturation_config \<Rightarrow> 'b cstore option \<Rightarrow> 'b maturation_manager" where
  "new_maturation_manager cfg st =
     \<lparr>mm_config = cfg, mm_store = st, mm_matured = [], mm_booked = [], mm_deltas = []\<rparr>"

text \<open>\<open>_Activity\<close>.\<close>

record activity =
  read_calls :: "(json, pystr \<times> nat) odict"
  file_last_touch :: "(pystr, nat) odict"
  assistant_count :: nat

text \<open>The counters of \<open>MaturationResult\<close>; its messages are the value of the pass.\<close>

record maturation_counts =
  holding_msg_indices :: "nat list"
  holding_reads :: nat
  newly_matured :: nat
  replacements_applied :: nat
  bytes_saved :: nat

definition no_counts :: maturation_counts where
  "no_counts = \<lparr>holding_msg_indices = [], holding_reads = 0, newly_matured = 0, replacements_applied = 0, bytes_saved = 0\<rparr>"

section \<open>Scanning the conversation\<close>

definition is_read_tool :: "pystr \<Rightarrow> bool" where
  "is_read_tool name \<longleftrightarrow> name \<in> set [u ''Read'', u ''read'']"

definition is_touch_tool :: "pystr \<Rightarrow> bool" where
  "is_touch_tool name \<longleftrightarrow> name \<in> set [u ''Read'', u ''read'', u ''Edit'', u ''edit'', u ''Write'', u ''write'',
     u ''MultiEdit'', u ''NotebookEdit'']"

text \<open>\<open>args.get("file_path") or args.get("path") or ""\<close>, \<open>None\<close> for what is not a string.\<close>

definition touched_path :: "pydict \<Rightarrow> pystr option" where
  "touched_path d =
     (let p = (if truthy (dget d ''file_path'') then dget d ''file_path''
               else if truthy (dget d ''path'') then dget d ''path'' else JStr []) in
      case p of JStr s \<Rightarrow> Some s | _ \<Rightarrow> None)"

definition note_touch :: "pystr \<Rightarrow> pystr \<Rightarrow> json \<Rightarrow> activity \<Rightarrow> py_error + activity" where
  "note_touch name fp call_id act =
     (let act1 = (if fp \<noteq> [] then act\<lparr>file_last_touch := AList.update fp (assistant_count act) (file_last_touch act)\<rparr> else act) in
      if is_read_tool name
      then if hashable call_id
           then Inr (act1\<lparr>read_calls := AList.update (key_norm call_id) (fp, assistant_count act) (read_calls act1)\<rparr>)
           else Inl PyTypeError
      else Inr act1)"

text \<open>\<open>name not in _TOUCH_TOOLS\<close> raises on an unhashable name.\<close>

definition touch_name :: "json \<Rightarrow> py_error + pystr option" where
  "touch_name v =
     (if \<not> hashable v then Inl PyTypeError
      else Inr (case v of JStr s \<Rightarrow> if is_touch_tool s then Some s else None | _ \<Rightarrow> None))"

definition scan_openai_call :: "(pystr \<Rightarrow> json option) \<Rightarrow> activity \<Rightarrow> json \<Rightarrow> py_error + activity" where
  "scan_openai_call loads act tc =
     (case tc of
        JObj d \<Rightarrow>
          (case dget d ''function'' of
             JObj func \<Rightarrow>
               bindR (touch_name (dget_default func ''name'' (JStr []))) (\<lambda>nm.
                 case nm of
                   None \<Rightarrow> Inr act
                 | Some name \<Rightarrow>
                     (case (case dget_default func ''arguments'' (JStr (u ''{}'')) of JStr t \<Rightarrow> loads t | _ \<Rightarrow> None) of
                        Some (JObj args) \<Rightarrow>
                          (case touched_path args of
                             None \<Rightarrow> Inr act
                           | Some fp \<Rightarrow> note_touch name fp (dget_default d ''id'' (JStr [])) act)
                      | _ \<Rightarrow> Inr act))
           | _ \<Rightarrow> Inr act)
      | _ \<Rightarrow> Inr act)"

definition scan_block :: "activity \<Rightarrow> json \<Rightarrow> py_error + activity" where
  "scan_block act b =
     (case b of
        JObj d \<Rightarrow>
          if dget d ''type'' \<noteq> JStr (u ''tool_use'') then Inr act
          else bindR (touch_name (dget_default d ''name'' (JStr []))) (\<lambda>nm.
            case (nm, dget d ''input'') of
              (Some name, JObj inp) \<Rightarrow>
                (case touched_path inp of
                   None \<Rightarrow> Inr act
                 | Some fp \<Rightarrow> note_touch name fp (dget_default d ''id'' (JStr [])) act)
            | _ \<Rightarrow> Inr act)
      | _ \<Rightarrow> Inr act)"

definition scan_message :: "(pystr \<Rightarrow> json option) \<Rightarrow> activity \<Rightarrow> message \<Rightarrow> py_error + activity" where
  "scan_message loads act msg =
     (if dget msg ''role'' \<noteq> JStr (u ''assistant'') then Inr act
      else
        bindR (iter_or_empty (dget msg ''tool_calls'')) (\<lambda>tcs.
        bindR (foldR (scan_openai_call loads) (act\<lparr>assistant_count := Suc (assistant_count act)\<rparr>) tcs) (\<lambda>act1.
          case dget msg ''content'' of JList bs \<Rightarrow> foldR scan_block act1 bs | _ \<Rightarrow> Inr act1)))"

definition scan_activity :: "(pystr \<Rightarrow> json option) \<Rightarrow> message list \<Rightarrow> py_error + activity" where
  "scan_activity loads msgs = foldR (scan_message loads) \<lparr>read_calls = [], file_last_touch = [], assistant_count = 0\<rparr> msgs"

section \<open>One read\<close>

text \<open>\<open>p in s\<close>; \<open>encode("utf-8", errors="replace")\<close> writes a lone surrogate as a question mark.\<close>

fun contains_text :: "pystr \<Rightarrow> pystr \<Rightarrow> bool" where
  "contains_text p [] \<longleftrightarrow> p = []"
| "contains_text p (c # s) \<longleftrightarrow> startswith (c # s) p \<or> contains_text p s"

definition replace_surrogates :: "pystr \<Rightarrow> pystr" where
  "replace_surrogates = map (\<lambda>c. if is_surrogate c then 63 else c)"

definition matured_marker :: "pystr \<Rightarrow> pystr \<Rightarrow> pystr" where
  "matured_marker path h =
     u ''[Read of '' @ (if path \<noteq> [] then path else u ''unknown'') @ u '' compressed after use '' @ [8212]
       @ u '' re-read the file if needed. Retrieve original: hash='' @ h @ u '']''"

definition maturation_args :: "pystr \<Rightarrow> json \<Rightarrow> store_args" where
  "maturation_args content tc =
     \<lparr>a_original = content, a_compressed = [], a_original_tokens = 0, a_compressed_tokens = 0,
      a_original_item_count = 0, a_compressed_item_count = 0, a_tool_name = Some (u ''Read''),
      a_tool_call_id = (case tc of JStr i \<Rightarrow> Some i | _ \<Rightarrow> None), a_query_context = None,
      a_tool_signature_hash = None, a_compression_strategy = Some (u ''read_maturation''), a_ttl = None,
      a_explicit_hash = None\<rparr>"

text \<open>When the pass takes content that has no marker yet: large enough, not a marker itself, and of a file
  that has been quiet, or held, for long enough.\<close>

definition too_small_or_marker :: "maturation_config \<Rightarrow> pystr \<Rightarrow> bool" where
  "too_small_or_marker cfg content \<longleftrightarrow>
     int (utf8_len (replace_surrogates content)) < mc_min_size cfg
     \<or> contains_text (u ''Retrieve original: hash='') content \<or> contains_text (u ''Retrieve more: hash='') content"

definition still_active :: "maturation_config \<Rightarrow> activity \<Rightarrow> json \<Rightarrow> bool" where
  "still_active cfg act tc =
     (let (path, read_turn) = the (map_of (read_calls act) (key_norm tc));
          last_touch = (case map_of (file_last_touch act) path of Some t \<Rightarrow> t | None \<Rightarrow> read_turn) in
      int (assistant_count act) - int last_touch < quiesce_turns cfg
      \<and> int (assistant_count act) - int read_turn < max_hold_turns cfg)"

type_synonym 'b mat_pass = "'b maturation_manager \<times> maturation_counts"

definition count_replacement :: "pystr \<Rightarrow> pystr \<Rightarrow> maturation_counts \<Rightarrow> maturation_counts" where
  "count_replacement content marker c =
     c\<lparr>replacements_applied := Suc (replacements_applied c),
       bytes_saved := bytes_saved c + (length content - length marker)\<rparr>"

text \<open>\<open>tc\<close> is a key of \<open>read_calls\<close>. The result is the replacement and whether the read is held. An
  exception of the store, which cannot encode a lone surrogate, leaves the content as it is.\<close>

definition handle_read ::
    "'b backend_ops \<Rightarrow> (pystr \<Rightarrow> pystr) \<Rightarrow> real \<Rightarrow> activity \<Rightarrow> json \<Rightarrow> pystr \<Rightarrow> 'b mat_pass \<Rightarrow> (pystr option \<times> bool) \<times> 'b mat_pass" where
  "handle_read B sha now act tc content = (\<lambda>(mgr, c).
     case map_of (mm_matured mgr) (key_norm tc) of
       Some m \<Rightarrow>
         if content = mr_marker m then ((None, False), mgr, c)
         else ((Some (mr_marker m), False), mgr, count_replacement content (mr_marker m) c)
     | None \<Rightarrow>
         if too_small_or_marker (mm_config mgr) content then ((None, False), mgr, c)
         else if still_active (mm_config mgr) act tc
         then ((None, True), mgr, c\<lparr>holding_reads := Suc (holding_reads c)\<rparr>)
         else
           let mature = (\<lambda>h mgr1.
                 let marker = matured_marker (fst (the (map_of (read_calls act) (key_norm tc)))) h in
                 ((Some marker, False),
                  mgr1\<lparr>mm_matured := AList.update (key_norm tc) \<lparr>mr_marker = marker, mr_hash = h\<rparr> (mm_matured mgr1)\<rparr>,
                  count_replacement content marker (c\<lparr>newly_matured := Suc (newly_matured c)\<rparr>))) in
           (case mm_store mgr of
              None \<Rightarrow> mature (take 24 (sha (replace_surrogates content))) mgr
            | Some s \<Rightarrow>
                (case store B sha now s (maturation_args content tc) of
                   (Inl _, s') \<Rightarrow> ((None, False), mgr\<lparr>mm_store := Some s'\<rparr>, c)
                 | (Inr h, s') \<Rightarrow> mature h (mgr\<lparr>mm_store := Some s'\<rparr>))))"

section \<open>One message\<close>

definition is_read_call :: "activity \<Rightarrow> json \<Rightarrow> py_error + bool" where
  "is_read_call act tc =
     (if hashable tc then Inr (map_of (read_calls act) (key_norm tc) \<noteq> None) else Inl PyTypeError)"

text \<open>A block: an unhashable id raises, and so does a result without id when a call without id was read.\<close>

definition mature_block ::
    "'b backend_ops \<Rightarrow> (pystr \<Rightarrow> pystr) \<Rightarrow> real \<Rightarrow> activity \<Rightarrow> json \<Rightarrow> 'b mat_pass \<Rightarrow> (py_error + json \<times> bool) \<times> 'b mat_pass" where
  "mature_block B sha now act b P =
     (case b of
        JObj d \<Rightarrow>
          if dget d ''type'' \<noteq> JStr (u ''tool_result'') then (Inr (b, False), P)
          else
            (case is_read_call act (dget_default d ''tool_use_id'' (JStr [])) of
               Inl e \<Rightarrow> (Inl e, P)
             | Inr False \<Rightarrow> (Inr (b, False), P)
             | Inr True \<Rightarrow>
                 (case dget d ''content'' of
                    JStr content \<Rightarrow>
                      if map_of d (u ''tool_use_id'') = None then (Inl PyKeyError, P)
                      else
                        let ((r, holding), P1) = handle_read B sha now act (dget d ''tool_use_id'') content P in
                        (Inr (case r of Some new \<Rightarrow> JObj (dset d ''content'' (JStr new)) | None \<Rightarrow> b, holding), P1)
                  | _ \<Rightarrow> (Inr (b, False), P)))
      | _ \<Rightarrow> (Inr (b, False), P))"

fun mature_blocks ::
    "'b backend_ops \<Rightarrow> (pystr \<Rightarrow> pystr) \<Rightarrow> real \<Rightarrow> activity \<Rightarrow> json list \<Rightarrow> 'b mat_pass \<Rightarrow> (py_error + json list \<times> bool) \<times> 'b mat_pass" where
  "mature_blocks B sha now act [] P = (Inr ([], False), P)"
| "mature_blocks B sha now act (b # bs) P =
     (case mature_block B sha now act b P of
        (Inl e, P1) \<Rightarrow> (Inl e, P1)
      | (Inr (b', h), P1) \<Rightarrow>
          (case mature_blocks B sha now act bs P1 of
             (Inl e, P2) \<Rightarrow> (Inl e, P2)
           | (Inr (bs', h'), P2) \<Rightarrow> (Inr (b' # bs', h \<or> h'), P2)))"

definition mature_message ::
    "'b backend_ops \<Rightarrow> (pystr \<Rightarrow> pystr) \<Rightarrow> real \<Rightarrow> activity \<Rightarrow> message \<Rightarrow> 'b mat_pass \<Rightarrow> (py_error + message \<times> bool) \<times> 'b mat_pass" where
  "mature_message B sha now act msg P =
     (let content = dget_default msg ''content'' (JStr []) in
      if dget_default msg ''role'' (JStr []) = JStr (u ''tool'')
      then
        (let tc = dget_default msg ''tool_call_id'' (JStr []) in
         case is_read_call act tc of
           Inl e \<Rightarrow> (Inl e, P)
         | Inr found \<Rightarrow>
             (case (found, content) of
                (True, JStr s) \<Rightarrow>
                  let ((r, holding), P1) = handle_read B sha now act tc s P in
                  (Inr (case r of Some new \<Rightarrow> dset msg ''content'' (JStr new) | None \<Rightarrow> msg, holding), P1)
              | _ \<Rightarrow> (Inr (msg, False), P)))
      else
        (case content of
           JList bs \<Rightarrow>
             (case mature_blocks B sha now act bs P of
                (Inl e, P1) \<Rightarrow> (Inl e, P1)
              | (Inr (bs', holding), P1) \<Rightarrow> (Inr (if bs' = bs then msg else dset msg ''content'' (JList bs'), holding), P1))
         | _ \<Rightarrow> (Inr (msg, False), P)))"

section \<open>A request\<close>

fun mature_messages ::
    "'b backend_ops \<Rightarrow> (pystr \<Rightarrow> pystr) \<Rightarrow> real \<Rightarrow> activity \<Rightarrow> int \<Rightarrow> nat \<Rightarrow> message list \<Rightarrow> 'b mat_pass
       \<Rightarrow> (py_error + message list) \<times> 'b mat_pass" where
  "mature_messages B sha now act frozen i [] P = (Inr [], P)"
| "mature_messages B sha now act frozen i (m # ms) P =
     (case if int i < frozen then (Inr (m, False), P) else mature_message B sha now act m P of
        (Inl e, P1) \<Rightarrow> (Inl e, P1)
      | (Inr (m', holding), (mgr, c)) \<Rightarrow>
          (case mature_messages B sha now act frozen (Suc i) ms
              (mgr, if holding then c\<lparr>holding_msg_indices := holding_msg_indices c @ [i]\<rparr> else c) of
             (Inl e, P2) \<Rightarrow> (Inl e, P2)
           | (Inr ms', P2) \<Rightarrow> (Inr (m' # ms'), P2)))"

text \<open>\<open>apply\<close>; the counts are lost with the result when an exception escapes.\<close>

definition apply_maturation ::
    "'b backend_ops \<Rightarrow> (pystr \<Rightarrow> pystr) \<Rightarrow> (pystr \<Rightarrow> json option) \<Rightarrow> real \<Rightarrow> message list \<Rightarrow> int \<Rightarrow> 'b maturation_manager
       \<Rightarrow> (py_error + message list \<times> maturation_counts) \<times> 'b maturation_manager" where
  "apply_maturation B sha loads now msgs frozen mgr =
     (if \<not> mc_enabled (mm_config mgr) then (Inr (msgs, no_counts), mgr)
      else
        (case scan_activity loads msgs of
           Inl e \<Rightarrow> (Inl e, mgr)
         | Inr act \<Rightarrow>
             (case mature_messages B sha now act frozen 0 msgs (mgr, no_counts) of
                (Inl e, mgr1, _) \<Rightarrow> (Inl e, mgr1)
              | (Inr out, mgr1, c) \<Rightarrow> (Inr (out, c), mgr1))))"

section \<open>Booking the savings once\<close>

text \<open>\<open>str(id)\<close>.\<close>

definition str_id :: "ucd \<Rightarrow> (rat \<Rightarrow> pystr) \<Rightarrow> json \<Rightarrow> pystr" where
  "str_id U F v = (case v of JStr s \<Rightarrow> s | _ \<Rightarrow> repr_json U F v)"

definition message_results :: "ucd \<Rightarrow> (rat \<Rightarrow> pystr) \<Rightarrow> message \<Rightarrow> (pystr \<times> pystr) list" where
  "message_results U F msg =
     (if dget msg ''role'' = JStr (u ''tool'')
      then (case dget msg ''content'' of
              JStr s \<Rightarrow> [(str_id U F (dget_default msg ''tool_call_id'' (JStr [])), s)] | _ \<Rightarrow> [])
      else
        (case dget msg ''content'' of
           JList bs \<Rightarrow> concat (map (\<lambda>b. case b of
               JObj d \<Rightarrow> if dget d ''type'' = JStr (u ''tool_result'')
                 then (case dget d ''content'' of
                         JStr s \<Rightarrow> [(str_id U F (dget_default d ''tool_use_id'' (JStr [])), s)] | _ \<Rightarrow> [])
                 else []
             | _ \<Rightarrow> []) bs)
         | _ \<Rightarrow> []))"

definition iter_tool_results :: "ucd \<Rightarrow> (rat \<Rightarrow> pystr) \<Rightarrow> message list \<Rightarrow> (pystr \<times> pystr) list" where
  "iter_tool_results U F msgs = concat (map (message_results U F) msgs)"

text \<open>One tool result of the client's request: what it adds to the debt.\<close>

definition charge_result ::
    "(pystr \<Rightarrow> int) \<Rightarrow> (pystr \<Rightarrow> pystr option) \<Rightarrow> 'b maturation_manager \<times> int \<Rightarrow> pystr \<times> pystr \<Rightarrow> 'b maturation_manager \<times> int" where
  "charge_result count forwarded = (\<lambda>(mgr, debt) (tc, content).
     case map_of (mm_matured mgr) (JStr tc) of
       None \<Rightarrow> (mgr, debt)
     | Some m \<Rightarrow>
         if forwarded tc \<noteq> Some (mr_marker m) then (mgr, debt)
         else if content = mr_marker m then (mgr, debt)
         else if tc \<notin> set (mm_booked mgr) then (mgr\<lparr>mm_booked := tc # mm_booked mgr\<rparr>, debt)
         else
           (case map_of (mm_deltas mgr) tc of
              Some delta \<Rightarrow> (mgr, debt + delta)
            | None \<Rightarrow>
                let delta = max 0 (count content - count (mr_marker m)) in
                (mgr\<lparr>mm_deltas := AList.update tc delta (mm_deltas mgr)\<rparr>, debt + delta)))"

definition replayed_token_debt ::
    "ucd \<Rightarrow> (rat \<Rightarrow> pystr) \<Rightarrow> (pystr \<Rightarrow> int) \<Rightarrow> message list \<Rightarrow> message list \<Rightarrow> 'b maturation_manager
       \<Rightarrow> int \<times> 'b maturation_manager" where
  "replayed_token_debt U F count original outbound mgr =
     (if mm_matured mgr = [] then (0, mgr)
      else
        let forwarded = map_of (rev (iter_tool_results U F outbound));
            (mgr1, debt) = foldl (charge_result count forwarded) (mgr, 0) (iter_tool_results U F original)
        in (debt, mgr1))"

section \<open>State for the next process\<close>

text \<open>\<open>json.dumps\<close> writes a key that is not a string as its JSON text.\<close>

definition json_key :: "(rat \<Rightarrow> pystr) \<Rightarrow> json \<Rightarrow> pystr" where
  "json_key F k =
     (case k of JStr s \<Rightarrow> s | JInt i \<Rightarrow> show_int i | JFloat f \<Rightarrow> F f
      | JBool b \<Rightarrow> if b then u ''true'' else u ''false'' | _ \<Rightarrow> u ''null'')"

definition export_maturation :: "(rat \<Rightarrow> pystr) \<Rightarrow> 'b maturation_manager \<Rightarrow> json" where
  "export_maturation F mgr =
     JObj [(u ''matured'', JObj (map (\<lambda>(k, m). (json_key F k, JList [JStr (mr_marker m), JStr (mr_hash m)])) (mm_matured mgr))),
       (u ''booked'', JList (map JStr (sorted_list_of_set (set (mm_booked mgr))))),
       (u ''deltas'', JObj (map (\<lambda>(k, n). (k, JInt n)) (mm_deltas mgr)))]"

text \<open>\<open>validate_state\<close> and \<open>restore_state\<close> on what a file can hold; values of another type, which
  Python would convert (\<open>str(1)\<close>, \<open>int("7")\<close>), are not followed: \<open>None\<close>.\<close>

definition validate_pair :: "json \<Rightarrow> matured_read option" where
  "validate_pair v = (case v of JList [JStr m, JStr h] \<Rightarrow> Some \<lparr>mr_marker = m, mr_hash = h\<rparr> | _ \<Rightarrow> None)"

fun all_some :: "('a \<Rightarrow> 'b option) \<Rightarrow> 'a list \<Rightarrow> 'b list option" where
  "all_some f [] = Some []"
| "all_some f (x # xs) = Option.bind (f x) (\<lambda>y. map_option (\<lambda>ys. y # ys) (all_some f xs))"

definition restore_maturation :: "json \<Rightarrow> 'b maturation_manager \<Rightarrow> 'b maturation_manager option" where
  "restore_maturation state mgr =
     (case state of
        JObj d \<Rightarrow>
          (case (dget d ''matured'', dget d ''booked'', dget d ''deltas'') of
             (JObj ms, JList bs, JObj ds) \<Rightarrow>
               Option.bind (all_some (\<lambda>(k, v). map_option (\<lambda>m. (JStr k, m)) (validate_pair v)) ms) (\<lambda>matured.
               Option.bind (all_some (\<lambda>v. case v of JStr s \<Rightarrow> Some s | _ \<Rightarrow> None) bs) (\<lambda>booked.
               Option.bind (all_some (\<lambda>(k, v). case v of JInt n \<Rightarrow> Some (k, n) | _ \<Rightarrow> None) ds) (\<lambda>deltas.
               Some (mgr\<lparr>mm_matured := matured, mm_booked := remdups booked, mm_deltas := deltas\<rparr>))))
           | _ \<Rightarrow> None)
      | _ \<Rightarrow> None)"

end
