(* ===== verification/Read_Maturation_Props.thy ===== *)
theory Read_Maturation_Props
  imports Read_Maturation Read_Lifecycle_Props
begin

text \<open>
  Properties of read maturation. What one read does to the manager is lifted to blocks, messages and
  requests by two locales. \<open>pass_frame\<close> is about any relation between managers that is graded by the
  number of tool results processed: the growth of the table of matured reads, and the room in the CCR
  store. \<open>read_answer\<close> is about what becomes of the results of one call: they are answered with the
  recorded marker, or stay as they are. The life of a manager (\<open>later\<close>, \<open>billed\<close>) is any sequence of
  requests, accountings, uses of the store by others, and restarts.
\<close>

section \<open>Lifting what one read does\<close>

text \<open>The string tool results of a message, each with the id of its call.\<close>

definition block_results :: "json \<Rightarrow> (json \<times> pystr) list" where
  "block_results b =
     (case b of
        JObj d \<Rightarrow>
          if dget d ''type'' = JStr (u ''tool_result'')
          then (case dget d ''content'' of
                  JStr s \<Rightarrow> [(key_norm (dget_default d ''tool_use_id'' (JStr [])), s)] | _ \<Rightarrow> [])
          else []
      | _ \<Rightarrow> [])"

definition tool_results :: "message \<Rightarrow> (json \<times> pystr) list" where
  "tool_results msg =
     (if dget_default msg ''role'' (JStr []) = JStr (u ''tool'')
      then (case dget_default msg ''content'' (JStr []) of
              JStr s \<Rightarrow> [(key_norm (dget_default msg ''tool_call_id'' (JStr [])), s)] | _ \<Rightarrow> [])
      else (case dget_default msg ''content'' (JStr []) of JList bs \<Rightarrow> concat (map block_results bs) | _ \<Rightarrow> []))"

locale pass_frame =
  fixes B :: "'b backend_ops" and sha :: "pystr \<Rightarrow> pystr" and now :: real and act :: activity
    and P :: "pystr \<Rightarrow> bool" and R :: "nat \<Rightarrow> 'b maturation_manager \<Rightarrow> 'b maturation_manager \<Rightarrow> bool"
  assumes refl_step: "R n mgr mgr"
    and trans_step: "R m x y \<Longrightarrow> R n y z \<Longrightarrow> R (m + n) x z"
    and mono_step: "R m x y \<Longrightarrow> m \<le> n \<Longrightarrow> R n x y"
    and read_step: "P content \<Longrightarrow> handle_read B sha now act tc content (mgr, c) = (r, mgr', c') \<Longrightarrow> R 1 mgr mgr'"
begin

lemma block_step:
  assumes "mature_block B sha now act b (mgr, c) = (r, mgr', c')" and "\<forall>(k, t) \<in> set (block_results b). P t"
  shows "R (length (block_results b)) mgr mgr'"
proof (cases "mgr' = mgr")
  case True
  then show ?thesis by (simp add: refl_step)
next
  case False
  then obtain d content where b: "b = JObj d" "dget d ''type'' = JStr (u ''tool_result'')" "dget d ''content'' = JStr content"
    using assms(1) by (auto simp: mature_block_def Let_def split: json.splits sum.splits bool.splits if_splits prod.splits)
  obtain q c1 mgr1 where hr: "handle_read B sha now act (dget d ''tool_use_id'') content (mgr, c) = (q, mgr1, c1)"
    by (cases "handle_read B sha now act (dget d ''tool_use_id'') content (mgr, c)") auto
  have "mgr' = mgr1"
    using assms(1) b hr False
    by (auto simp: mature_block_def Let_def split: sum.splits bool.splits if_splits prod.splits)
  moreover have "P content" using assms(2) b by (simp add: block_results_def)
  ultimately show ?thesis using read_step [OF _ hr] b by (simp add: block_results_def)
qed

lemma blocks_step:
  assumes "mature_blocks B sha now act bs (mgr, c) = (r, mgr', c')" and "\<forall>(k, t) \<in> set (concat (map block_results bs)). P t"
  shows "R (length (concat (map block_results bs))) mgr mgr'"
  using assms
proof (induction bs arbitrary: mgr c r mgr' c')
  case (Cons b bs)
  obtain r1 mgr1 c1 where b: "mature_block B sha now act b (mgr, c) = (r1, mgr1, c1)"
    by (cases "mature_block B sha now act b (mgr, c)") auto
  have R1: "R (length (block_results b)) mgr mgr1" by (rule block_step [OF b]) (use Cons.prems(2) in auto)
  show ?case
  proof (cases r1)
    case (Inl e)
    then show ?thesis using Cons.prems(1) b R1 mono_step by (fastforce)
  next
    case (Inr x)
    obtain r2 mgr2 c2 where bs: "mature_blocks B sha now act bs (mgr1, c1) = (r2, mgr2, c2)"
      by (cases "mature_blocks B sha now act bs (mgr1, c1)") auto
    have "R (length (concat (map block_results bs))) mgr1 mgr2" by (rule Cons.IH [OF bs]) (use Cons.prems(2) in auto)
    moreover have "mgr' = mgr2" using Cons.prems(1) b Inr bs by (auto split: prod.splits sum.splits)
    ultimately show ?thesis using trans_step [OF R1] by simp
  qed
qed (simp add: refl_step)

lemma message_step:
  assumes "mature_message B sha now act msg (mgr, c) = (r, mgr', c')" and "\<forall>(k, t) \<in> set (tool_results msg). P t"
  shows "R (length (tool_results msg)) mgr mgr'"
proof (cases "mgr' = mgr")
  case True
  then show ?thesis by (simp add: refl_step)
next
  case changed: False
  show ?thesis
  proof (cases "dget_default msg ''role'' (JStr []) = JStr (u ''tool'')")
    case True
    let ?tc = "dget_default msg ''tool_call_id'' (JStr [])"
    obtain s where s: "dget_default msg ''content'' (JStr []) = JStr s"
      using assms(1) changed True by (auto simp: mature_message_def Let_def split: sum.splits bool.splits json.splits)
    obtain q mgr1 c1 where hr: "handle_read B sha now act ?tc s (mgr, c) = (q, mgr1, c1)"
      by (cases "handle_read B sha now act ?tc s (mgr, c)") auto
    have "mgr' = mgr1" using assms(1) changed True s hr
      by (auto simp: mature_message_def Let_def split: sum.splits bool.splits prod.splits)
    then show ?thesis using read_step [OF _ hr] assms(2) True s by (simp add: tool_results_def)
  next
    case False
    obtain bs where bs: "dget_default msg ''content'' (JStr []) = JList bs"
      using assms(1) changed False by (auto simp: mature_message_def Let_def split: json.splits)
    obtain q mgr1 c1 where mb: "mature_blocks B sha now act bs (mgr, c) = (q, mgr1, c1)"
      by (cases "mature_blocks B sha now act bs (mgr, c)") auto
    have "mgr' = mgr1" using assms(1) changed False bs mb
      by (auto simp: mature_message_def Let_def split: sum.splits prod.splits)
    then show ?thesis using blocks_step [OF mb] assms(2) False bs by (simp add: tool_results_def)
  qed
qed

lemma messages_step:
  assumes "mature_messages B sha now act frozen i ms (mgr, c) = (r, mgr', c')"
    and "\<forall>(k, t) \<in> set (concat (map tool_results ms)). P t"
  shows "R (length (concat (map tool_results ms))) mgr mgr'"
  using assms
proof (induction ms arbitrary: i mgr c r mgr' c')
  case (Cons m ms)
  let ?step = "if int i < frozen then (Inr (m, False), mgr, c) else mature_message B sha now act m (mgr, c)"
  obtain r1 mgr1 c1 where m: "?step = (r1, mgr1, c1)" by (cases ?step) auto
  have R1: "R (length (tool_results m)) mgr mgr1"
    using message_step [of m mgr c r1 mgr1 c1] m Cons.prems(2) refl_step by (auto split: if_splits)
  show ?case
  proof (cases r1)
    case (Inl e)
    then have "mgr' = mgr1" using Cons.prems(1) m by simp
    then show ?thesis using R1 mono_step [OF R1, of "length (concat (map tool_results (m # ms)))"] by simp
  next
    case (Inr x)
    define c2 where "c2 = (if snd x then c1\<lparr>holding_msg_indices := holding_msg_indices c1 @ [i]\<rparr> else c1)"
    obtain r3 mgr3 c3 where ms: "mature_messages B sha now act frozen (Suc i) ms (mgr1, c2) = (r3, mgr3, c3)"
      by (cases "mature_messages B sha now act frozen (Suc i) ms (mgr1, c2)") auto
    have "R (length (concat (map tool_results ms))) mgr1 mgr3" by (rule Cons.IH [OF ms]) (use Cons.prems(2) in auto)
    moreover have "mgr' = mgr3" using Cons.prems(1) m Inr ms by (cases x) (auto simp: c2_def split: prod.splits sum.splits)
    ultimately show ?thesis using trans_step [OF R1] by simp
  qed
qed (simp add: refl_step)

lemma request_step:
  assumes "apply_maturation B sha loads now msgs frozen mgr = (r, mgr')" and "scan_activity loads msgs = Inr act"
    and "\<forall>(k, t) \<in> set (concat (map tool_results msgs)). P t"
  shows "R (length (concat (map tool_results msgs))) mgr mgr'"
proof (cases "mc_enabled (mm_config mgr)")
  case True
  obtain q mgr1 c1 where m: "mature_messages B sha now act frozen 0 msgs (mgr, no_counts) = (q, mgr1, c1)"
    by (cases "mature_messages B sha now act frozen 0 msgs (mgr, no_counts)") auto
  have "mgr' = mgr1" using assms(1,2) True m by (auto simp: apply_maturation_def split: sum.splits)
  then show ?thesis using messages_step [OF m assms(3)] by simp
next
  case False
  then have "mgr' = mgr" using assms(1) by (auto simp: apply_maturation_def)
  then show ?thesis by (simp add: refl_step)
qed

end

lemma request_unscanned:
  "apply_maturation B sha loads now msgs frozen mgr = (r, mgr') \<Longrightarrow> scan_activity loads msgs = Inl e \<Longrightarrow> mgr' = mgr"
  by (auto simp: apply_maturation_def split: if_splits)

section \<open>Matured reads stay\<close>

text \<open>Recorded markers are never changed, and the rest of the manager but its store is left alone.\<close>

definition grows :: "'b maturation_manager \<Rightarrow> 'b maturation_manager \<Rightarrow> bool" where
  "grows a b \<longleftrightarrow> map_of (mm_matured a) \<subseteq>\<^sub>m map_of (mm_matured b) \<and> mm_config b = mm_config a
     \<and> mm_booked b = mm_booked a \<and> mm_deltas b = mm_deltas a"

lemma grows_refl [simp]: "grows mgr mgr"
  by (simp add: grows_def)

lemma grows_trans: "grows a b \<Longrightarrow> grows b c \<Longrightarrow> grows a c"
  unfolding grows_def using map_le_trans by fastforce

lemma growsD: "grows a b \<Longrightarrow> map_of (mm_matured a) k = Some m \<Longrightarrow> map_of (mm_matured b) k = Some m"
  by (auto simp: grows_def map_le_def dom_def)

lemma handle_read_grows:
  assumes "handle_read B sha now act tc content (mgr, c) = (r, mgr', c')"
  shows "grows mgr mgr'"
  using assms
  by (auto simp: handle_read_def Let_def grows_def update_conv' map_le_def split: option.splits if_splits sum.splits prod.splits)

interpretation growth: pass_frame B sha now act "\<lambda>_. True" "\<lambda>_. grows" for B sha now act
  by unfold_locales (auto intro: handle_read_grows grows_trans)

section \<open>What becomes of the results of one call\<close>

text \<open>A message keeps everything but its content; the results of call \<open>k\<close> are answered as \<open>A\<close> says.\<close>

definition same_but_content :: "message \<Rightarrow> message \<Rightarrow> bool" where
  "same_but_content m m' \<longleftrightarrow> (\<forall>k. k \<noteq> u ''content'' \<longrightarrow> map_of m' k = map_of m k)"

definition answers :: "json \<Rightarrow> (pystr \<Rightarrow> pystr \<Rightarrow> bool) \<Rightarrow> (json \<times> pystr) list \<Rightarrow> (json \<times> pystr) list \<Rightarrow> bool" where
  "answers k A rs rs' \<longleftrightarrow> list_all2 (\<lambda>(i, t) (i', t'). i' = i \<and> (i = k \<longrightarrow> A t t')) rs rs'"

lemma same_but_content_refl [simp]: "same_but_content m m"
  by (simp add: same_but_content_def)

lemma same_but_content_dset: "same_but_content m (dset m ''content'' v)"
  by (simp add: same_but_content_def dset_def update_conv')

lemma message_frame:
  assumes "mature_message B sha now act msg P = (Inr (msg', h), P')"
  shows "same_but_content msg msg'"
  using assms
  by (auto simp: mature_message_def Let_def same_but_content_dset split: if_splits sum.splits bool.splits json.splits option.splits prod.splits)

lemma answers_append: "answers k A xs xs' \<Longrightarrow> answers k A ys ys' \<Longrightarrow> answers k A (xs @ ys) (xs' @ ys')"
  by (simp add: answers_def list_all2_appendI)

lemma answers_other: "\<forall>(i, t) \<in> set rs. i \<noteq> k \<Longrightarrow> answers k A rs rs"
  unfolding answers_def by (rule list.rel_refl_strong) auto

lemma is_read_call_Inr: "is_read_call act tc = Inr found \<longleftrightarrow> hashable tc \<and> found = (map_of (read_calls act) (key_norm tc) \<noteq> None)"
  by (auto simp: is_read_call_def)

lemma present_dget: "map_of d (u k) \<noteq> None \<Longrightarrow> dget_default d k x = dget d k"
  by (auto simp: dget_default_def dget_def)

text \<open>What the pass makes of a block: the block, or the block with the answer of \<open>handle_read\<close> as content.\<close>

lemma mature_block_cases:
  assumes "mature_block B sha now act b (mgr, c) = (Inr (b', h), mgr', c')"
  obtains (kept) "b' = b" "mgr' = mgr" "\<forall>(k, t) \<in> set (block_results b). map_of (read_calls act) k = None"
  | (read) d content q where "b = JObj d" "block_results b = [(key_norm (dget d ''tool_use_id''), content)]"
      "handle_read B sha now act (dget d ''tool_use_id'') content (mgr, c) = ((q, h), mgr', c')"
      "b' = (case q of Some new \<Rightarrow> JObj (dset d ''content'' (JStr new)) | None \<Rightarrow> b)"
      "block_results b' = [(key_norm (dget d ''tool_use_id''), case q of Some new \<Rightarrow> new | None \<Rightarrow> content)]"
proof (cases "\<exists>d content. b = JObj d \<and> dget d ''type'' = JStr (u ''tool_result'') \<and> dget d ''content'' = JStr content
    \<and> is_read_call act (dget_default d ''tool_use_id'' (JStr [])) = Inr True")
  case True
  then obtain d content where b: "b = JObj d" "dget d ''type'' = JStr (u ''tool_result'')" "dget d ''content'' = JStr content"
    "is_read_call act (dget_default d ''tool_use_id'' (JStr [])) = Inr True" by blast
  then have present: "map_of d (u ''tool_use_id'') \<noteq> None" using assms by (auto simp: mature_block_def split: if_splits)
  obtain q h1 mgr1 c1 where hr: "handle_read B sha now act (dget d ''tool_use_id'') content (mgr, c) = ((q, h1), mgr1, c1)"
    by (metis prod.exhaust)
  have e: "h = h1" "mgr' = mgr1" "c' = c1" "b' = (case q of Some new \<Rightarrow> JObj (dset d ''content'' (JStr new)) | None \<Rightarrow> b)"
    using assms b present hr by (auto simp: mature_block_def)
  have r: "block_results b = [(key_norm (dget d ''tool_use_id''), content)]"
    using b present by (simp add: block_results_def present_dget)
  have r': "block_results b' = [(key_norm (dget d ''tool_use_id''), case q of Some new \<Rightarrow> new | None \<Rightarrow> content)]"
    using b present e(4) by (cases q) (simp_all add: block_results_def present_dget)
  show ?thesis by (rule read [OF b(1) r _ e(4) r']) (simp add: hr e(1-3))
next
  case False
  have "b' = b \<and> mgr' = mgr \<and> (\<forall>(k, t) \<in> set (block_results b). map_of (read_calls act) k = None)"
  proof (cases "\<exists>d. b = JObj d \<and> dget d ''type'' = JStr (u ''tool_result'')")
    case True
    then obtain d where b: "b = JObj d" "dget d ''type'' = JStr (u ''tool_result'')" by blast
    let ?tc = "dget_default d ''tool_use_id'' (JStr [])"
    obtain found where f: "is_read_call act ?tc = Inr found"
      using assms b by (cases "is_read_call act ?tc") (auto simp: mature_block_def)
    show ?thesis
    proof (cases found)
      case True
      have no: "dget d ''content'' \<noteq> JStr s" for s
      proof
        assume c: "dget d ''content'' = JStr s"
        have "b = JObj d \<and> dget d ''type'' = JStr (u ''tool_result'') \<and> dget d ''content'' = JStr s \<and> is_read_call act ?tc = Inr True"
          using b c f True by simp
        with False show False by blast
      qed
      have "(case dget d ''content'' of JStr s \<Rightarrow> X s | _ \<Rightarrow> Y) = Y" for X and Y :: 'z
        using no by (simp split: json.split)
      then have "block_results b = []" "mature_block B sha now act b (mgr, c) = (Inr (b, False), mgr, c)"
        using b f True by (simp_all add: block_results_def mature_block_def)
      then show ?thesis using assms by simp
    next
      case False
      then have "b' = b \<and> mgr' = mgr" using assms b f by (simp add: mature_block_def)
      moreover have "map_of (read_calls act) (key_norm ?tc) = None" using f False unfolding is_read_call_Inr by blast
      ultimately show ?thesis using b by (cases "dget d ''content''") (auto simp: block_results_def)
    qed
  next
    case False
    then have "mature_block B sha now act b (mgr, c) = (Inr (b, False), mgr, c) \<and> block_results b = []"
      by (cases b) (simp_all add: mature_block_def block_results_def)
    then show ?thesis using assms by simp
  qed
  then have "b' = b" "mgr' = mgr" "\<forall>(k, t) \<in> set (block_results b). map_of (read_calls act) k = None" by simp_all
  then show ?thesis by (rule kept)
qed

locale read_answer =
  fixes B :: "'b backend_ops" and sha :: "pystr \<Rightarrow> pystr" and now :: real and act :: activity and k :: json
    and I :: "'b maturation_manager \<Rightarrow> bool" and A :: "'b maturation_manager \<Rightarrow> pystr \<Rightarrow> pystr \<Rightarrow> bool"
  assumes called: "I mgr \<Longrightarrow> map_of (read_calls act) k \<noteq> None"
    and keep: "I mgr \<Longrightarrow> handle_read B sha now act tc content (mgr, c) = (r, mgr', c') \<Longrightarrow> I mgr'"
    and answer: "I mgr \<Longrightarrow> key_norm tc = k \<Longrightarrow> handle_read B sha now act tc content (mgr, c) = ((q, h), mgr', c') \<Longrightarrow>
      A mgr' content (case q of Some new \<Rightarrow> new | None \<Rightarrow> content)"
    and stays: "I mgr \<Longrightarrow> handle_read B sha now act tc content (mgr, c) = (r, mgr', c') \<Longrightarrow> A mgr t t' \<Longrightarrow> A mgr' t t'"
begin

text \<open>What has been answered stays an answer while the pass goes on.\<close>

sublocale kept: pass_frame B sha now act "\<lambda>_. True" "\<lambda>_ a b. I a \<longrightarrow> I b \<and> (\<forall>t t'. A a t t' \<longrightarrow> A b t t')"
  by unfold_locales (blast intro: keep stays)+

lemma answers_kept: "answers k (A a) rs rs' \<Longrightarrow> (\<And>t t'. A a t t' \<Longrightarrow> A b t t') \<Longrightarrow> answers k (A b) rs rs'"
  unfolding answers_def by (erule list_all2_mono) auto

lemma block_answer:
  assumes "mature_block B sha now act b (mgr, c) = (Inr (b', h), mgr', c')" and "I mgr"
  shows "I mgr' \<and> answers k (A mgr') (block_results b) (block_results b')"
  using assms(1)
proof (cases rule: mature_block_cases)
  case kept
  then have "\<forall>(i, t) \<in> set (block_results b). i \<noteq> k" using called [OF assms(2)] by auto
  then show ?thesis using kept(1,2) assms(2) answers_other by simp
next
  case (read d content q)
  then show ?thesis
    using keep [OF assms(2) read(3)] answer [OF assms(2) _ read(3)] by (simp add: answers_def)
qed

lemma blocks_answer:
  assumes "mature_blocks B sha now act bs (mgr, c) = (Inr (bs', h), mgr', c')" and "I mgr"
  shows "I mgr' \<and> answers k (A mgr') (concat (map block_results bs)) (concat (map block_results bs'))"
  using assms
proof (induction bs arbitrary: mgr c bs' h)
  case (Cons b bs)
  obtain b1 h1 mgr1 c1 where b: "mature_block B sha now act b (mgr, c) = (Inr (b1, h1), mgr1, c1)"
    using Cons.prems(1) by (auto split: prod.splits sum.splits)
  then obtain bs1 h2 where bs: "mature_blocks B sha now act bs (mgr1, c1) = (Inr (bs1, h2), mgr', c')" and eq: "bs' = b1 # bs1"
    using Cons.prems(1) by (auto split: prod.splits sum.splits)
  note first = block_answer [OF b Cons.prems(2)]
  have "I mgr' \<and> (\<forall>t t'. A mgr1 t t' \<longrightarrow> A mgr' t t')" using kept.blocks_step [OF bs] first by simp
  then have "answers k (A mgr') (block_results b) (block_results b1)" using answers_kept first by blast
  then show ?case
    using first Cons.IH [OF bs] answers_append by (simp add: eq)
qed (simp add: answers_def)

lemma message_answer:
  assumes "mature_message B sha now act msg (mgr, c) = (Inr (msg', h), mgr', c')" and "I mgr"
  shows "I mgr' \<and> answers k (A mgr') (tool_results msg) (tool_results msg')"
proof (cases "dget_default msg ''role'' (JStr []) = JStr (u ''tool'')")
  case True
  let ?tc = "dget_default msg ''tool_call_id'' (JStr [])"
  obtain found where found: "is_read_call act ?tc = Inr found"
    using assms(1) True by (auto simp: mature_message_def Let_def split: sum.splits)
  show ?thesis
  proof (cases "found \<and> (\<exists>s. dget_default msg ''content'' (JStr []) = JStr s)")
    case rd: True
    then obtain s where s: "dget_default msg ''content'' (JStr []) = JStr s" by blast
    obtain q h1 mgr1 c1 where hr: "handle_read B sha now act ?tc s (mgr, c) = ((q, h1), mgr1, c1)" by (metis prod.exhaust)
    have msg': "msg' = (case q of Some new \<Rightarrow> dset msg ''content'' (JStr new) | None \<Rightarrow> msg)" "mgr' = mgr1"
      using assms(1) True found rd s hr by (auto simp: mature_message_def Let_def)
    have "tool_results msg = [(key_norm ?tc, s)]" "tool_results msg' = [(key_norm ?tc, case q of Some new \<Rightarrow> new | None \<Rightarrow> s)]"
      using True s msg' by (auto simp: tool_results_def split: option.splits)
    then show ?thesis
      using keep [OF assms(2) hr] answer [OF assms(2) _ hr] msg'(2) by (simp add: answers_def)
  next
    case False
    then have "msg' = msg" "mgr' = mgr"
      using assms(1) True found by (auto simp: mature_message_def Let_def split: bool.splits json.splits)
    moreover have "\<forall>(i, t) \<in> set (tool_results msg). i \<noteq> k"
      using False found called [OF assms(2)] True
      by (cases "dget_default msg ''content'' (JStr [])") (auto simp: tool_results_def is_read_call_Inr)
    ultimately show ?thesis using answers_other assms(2) by simp
  qed
next
  case nt: False
  show ?thesis
  proof (cases "\<exists>bs. dget_default msg ''content'' (JStr []) = JList bs")
    case True
    then obtain bs where bs: "dget_default msg ''content'' (JStr []) = JList bs" by blast
    obtain bs' h1 where mb: "mature_blocks B sha now act bs (mgr, c) = (Inr (bs', h1), mgr', c')"
      and msg': "msg' = (if bs' = bs then msg else dset msg ''content'' (JList bs'))"
      using assms(1) nt bs by (auto simp: mature_message_def Let_def split: prod.splits sum.splits)
    have "tool_results msg = concat (map block_results bs)" "tool_results msg' = concat (map block_results bs')"
      using nt bs msg' by (auto simp: tool_results_def)
    then show ?thesis using blocks_answer [OF mb assms(2)] by simp
  next
    case False
    then have "msg' = msg" "tool_results msg = []" "mgr' = mgr"
      using assms(1) nt by (auto simp: mature_message_def tool_results_def Let_def split: json.splits)
    then show ?thesis using assms(2) by (simp add: answers_def)
  qed
qed

lemma messages_answer:
  assumes "mature_messages B sha now act frozen i ms (mgr, c) = (Inr out, mgr', c')" and "I mgr"
  shows "I mgr' \<and> length out = length ms \<and> (\<forall>j < length ms. same_but_content (ms ! j) (out ! j) \<and>
    (if int (i + j) < frozen then out ! j = ms ! j else answers k (A mgr') (tool_results (ms ! j)) (tool_results (out ! j))))"
  using assms
proof (induction ms arbitrary: i mgr c out)
  case (Cons m ms)
  let ?step = "if int i < frozen then (Inr (m, False), mgr, c) else mature_message B sha now act m (mgr, c)"
  obtain m' h mgr1 c1 where m: "?step = (Inr (m', h), mgr1, c1)"
    using Cons.prems by (auto split: prod.splits sum.splits if_splits)
  then obtain out' c2 where ms: "mature_messages B sha now act frozen (Suc i) ms (mgr1, c2) = (Inr out', mgr', c')" and out: "out = m' # out'"
    using Cons.prems by (auto split: prod.splits sum.splits if_splits)
  have one: "I mgr1 \<and> same_but_content m m' \<and>
      (if int i < frozen then m' = m else answers k (A mgr1) (tool_results m) (tool_results m'))"
    using m message_answer [of m mgr c m' h mgr1 c1] message_frame [of B sha now act m _ m' h] Cons.prems(2) by (auto split: if_splits)
  have "\<forall>t t'. A mgr1 t t' \<longrightarrow> A mgr' t t'" using kept.messages_step [OF ms] one by auto
  then have first: "I mgr1 \<and> same_but_content m m' \<and>
      (if int i < frozen then m' = m else answers k (A mgr') (tool_results m) (tool_results m'))"
    using one answers_kept by (auto split: if_splits)
  note IH = Cons.IH [OF ms conjunct1 [OF first]]
  show ?case
  proof (intro conjI allI impI)
    show "I mgr'" "length out = length (m # ms)" using IH out by simp_all
  next
    fix j assume j: "j < length (m # ms)"
    show "same_but_content ((m # ms) ! j) (out ! j)"
      using j first IH out by (cases j) auto
    show "if int (i + j) < frozen then out ! j = (m # ms) ! j
      else answers k (A mgr') (tool_results ((m # ms) ! j)) (tool_results (out ! j))"
      using j first IH [THEN conjunct2, THEN conjunct2, rule_format, of "j - 1"] out by (cases j) auto
  qed
qed simp

lemma request_answer:
  assumes "apply_maturation B sha loads now msgs frozen mgr = (Inr (out, c), mgr')" and "scan_activity loads msgs = Inr act"
    and "mc_enabled (mm_config mgr)" and "I mgr"
  shows "I mgr' \<and> length out = length msgs \<and> (\<forall>j < length msgs. same_but_content (msgs ! j) (out ! j) \<and>
    (if int j < frozen then out ! j = msgs ! j else answers k (A mgr') (tool_results (msgs ! j)) (tool_results (out ! j))))"
proof -
  obtain c2 where "mature_messages B sha now act frozen 0 msgs (mgr, no_counts) = (Inr out, mgr', c2)"
    using assms(1-3) by (auto simp: apply_maturation_def split: sum.splits prod.splits)
  from messages_answer [OF this assms(4)] show ?thesis by simp
qed

end

text \<open>A matured read is answered with its marker.\<close>

definition matured_as :: "activity \<Rightarrow> json \<Rightarrow> matured_read \<Rightarrow> 'b maturation_manager \<Rightarrow> bool" where
  "matured_as act k m mgr \<longleftrightarrow> map_of (read_calls act) k \<noteq> None \<and> map_of (mm_matured mgr) k = Some m"

text \<open>The answer for a read: the recorded marker when there is one.\<close>

lemma handle_read_matured:
  assumes "map_of (mm_matured mgr) (key_norm tc) = Some m"
  shows "handle_read B sha now act tc content (mgr, c) =
    (if content = mr_marker m then ((None, False), mgr, c)
     else ((Some (mr_marker m), False), mgr, count_replacement content (mr_marker m) c))"
  using assms by (simp add: handle_read_def)

interpretation replay: read_answer B sha now act k "matured_as act k m" "\<lambda>_ _ t. t = mr_marker m" for B sha now act k m
proof unfold_locales
  fix mgr mgr' tc content c r c'
  assume "matured_as act k m mgr" and "handle_read B sha now act tc content (mgr, c) = (r, mgr', c')"
  then show "matured_as act k m mgr'"
    using growsD [OF handle_read_grows] unfolding matured_as_def by blast
next
  fix mgr mgr' tc content c q h c'
  assume "matured_as act k m mgr" and "key_norm tc = k"
    and "handle_read B sha now act tc content (mgr, c) = ((q, h), mgr', c')"
  then show "(case q of Some new \<Rightarrow> new | None \<Rightarrow> content) = mr_marker m"
    using handle_read_matured [of mgr tc m B sha now act content c] by (auto simp: matured_as_def split: if_splits)
qed (simp_all add: matured_as_def)

text \<open>A result that the pass changes becomes the marker it records for the call.\<close>

definition kept_or_recorded :: "json \<Rightarrow> 'b maturation_manager \<Rightarrow> pystr \<Rightarrow> pystr \<Rightarrow> bool" where
  "kept_or_recorded k mgr t t' \<longleftrightarrow> t' = t \<or> (\<exists>m. map_of (mm_matured mgr) k = Some m \<and> t' = mr_marker m)"

lemma handle_read_recorded:
  assumes "handle_read B sha now act tc content (mgr, c) = ((q, h), mgr', c')"
  shows "kept_or_recorded (key_norm tc) mgr' content (case q of Some new \<Rightarrow> new | None \<Rightarrow> content)"
  using assms
  by (auto simp: handle_read_def kept_or_recorded_def Let_def update_conv' split: option.splits if_splits sum.splits prod.splits)

interpretation trace: read_answer B sha now act k "\<lambda>_. map_of (read_calls act) k \<noteq> None" "kept_or_recorded k"
  for B sha now act k
proof unfold_locales
  fix mgr mgr' tc content c q h c'
  assume "key_norm tc = k" and "handle_read B sha now act tc content (mgr, c) = ((q, h), mgr', c')"
  then show "kept_or_recorded k mgr' content (case q of Some new \<Rightarrow> new | None \<Rightarrow> content)"
    using handle_read_recorded by blast
next
  fix mgr mgr' tc content c r c' t t'
  assume "handle_read B sha now act tc content (mgr, c) = (r, mgr', c')" and "kept_or_recorded k mgr t t'"
  then show "kept_or_recorded k mgr' t t'"
    using growsD [OF handle_read_grows] unfolding kept_or_recorded_def by blast
qed simp_all

section \<open>The life of a manager\<close>

text \<open>What happens to a manager between two requests: requests that fail or succeed, the accounting,
  other users of the CCR store, and a restart, which hands its state to a new manager. The ids of the
  calls are strings when the state is written.\<close>

definition string_ids :: "'b maturation_manager \<Rightarrow> bool" where
  "string_ids mgr \<longleftrightarrow> list_all (\<lambda>(k, _). is_str k) (mm_matured mgr)"

inductive later :: "'b maturation_manager \<Rightarrow> 'b maturation_manager \<Rightarrow> bool" where
  same: "later mgr mgr"
| request: "later mgr a \<Longrightarrow> apply_maturation B sha loads now msgs frozen a = (r, b) \<Longrightarrow> later mgr b"
| accounting: "later mgr a \<Longrightarrow> replayed_token_debt U F count original outbound a = (debt, b) \<Longrightarrow> later mgr b"
| other_users: "later mgr a \<Longrightarrow> later mgr (a\<lparr>mm_store := st\<rparr>)"
| restart: "later mgr a \<Longrightarrow> string_ids a \<Longrightarrow>
    restore_maturation (export_maturation F a) (new_maturation_manager (mm_config a) st) = Some b \<Longrightarrow> later mgr b"

lemma charge_result_matured:
  "mm_matured (fst (charge_result count fw P x)) = mm_matured (fst P) \<and> mm_config (fst (charge_result count fw P x)) = mm_config (fst P)
    \<and> mm_store (fst (charge_result count fw P x)) = mm_store (fst P)"
  by (cases P; cases x) (auto simp: charge_result_def Let_def split: option.splits)

lemma charge_results_matured:
  "mm_matured (fst (foldl (charge_result count fw) P xs)) = mm_matured (fst P)
    \<and> mm_config (fst (foldl (charge_result count fw) P xs)) = mm_config (fst P)"
  by (induction xs arbitrary: P) (simp_all add: charge_result_matured)

lemma debt_matured:
  "replayed_token_debt U F count original outbound a = (debt, b) \<Longrightarrow> mm_matured b = mm_matured a \<and> mm_config b = mm_config a"
  using charge_results_matured [of count _ "(a, 0)"]
  by (auto simp: replayed_token_debt_def Let_def split: if_splits prod.splits) (metis fst_conv)+

lemma all_some_map:
  "(\<And>x. x \<in> set xs \<Longrightarrow> f (g x) = Some (h x)) \<Longrightarrow> all_some f (map g xs) = Some (map h xs)"
  by (induction xs) auto

lemma restore_export:
  assumes "string_ids a"
  shows "restore_maturation (export_maturation F a) mgr =
    Some (mgr\<lparr>mm_matured := mm_matured a, mm_booked := sorted_list_of_set (set (mm_booked a)), mm_deltas := mm_deltas a\<rparr>)"
proof -
  have "all_some (\<lambda>(k, v). map_option (\<lambda>m. (JStr k, m)) (validate_pair v))
      (map (\<lambda>(k, m). (json_key F k, JList [JStr (mr_marker m), JStr (mr_hash m)])) (mm_matured a)) = Some (map (\<lambda>x. x) (mm_matured a))"
    by (rule all_some_map)
      (use assms in \<open>auto simp: string_ids_def list_all_iff validate_pair_def json_key_def is_str_def split: json.splits\<close>)
  moreover have "all_some (\<lambda>v. case v of JStr s \<Rightarrow> Some s | _ \<Rightarrow> None) (map JStr xs) = Some (map (\<lambda>x. x) xs)" for xs
    by (rule all_some_map) simp
  moreover have "all_some (\<lambda>(k, v). case v of JInt n \<Rightarrow> Some (k, n) | _ \<Rightarrow> None) (map (\<lambda>(k, n). (k, JInt n)) xs) = Some (map (\<lambda>x. x) xs)"
    for xs :: "(pystr \<times> int) list"
    by (rule all_some_map) auto
  ultimately show ?thesis
    by (simp add: restore_maturation_def export_maturation_def distinct_remdups_id)
qed

lemma later_matured:
  assumes "later mgr mgr1"
  shows "map_of (mm_matured mgr) \<subseteq>\<^sub>m map_of (mm_matured mgr1) \<and> mm_config mgr1 = mm_config mgr"
  using assms
proof induction
  case (request mgr a B sha loads now msgs frozen r b)
  then have "grows a b" using growth.request_step request_unscanned by (cases "scan_activity loads msgs") fastforce+
  with request.IH show ?case using map_le_trans by (fastforce simp: grows_def)
next
  case (accounting mgr a U F count original outbound debt b)
  then show ?case using debt_matured by metis
next
  case (restart mgr a F st b)
  then show ?case by (auto simp: restore_export new_maturation_manager_def)
qed auto

lemma answers_replay:
  "answers k (\<lambda>_ t. t = x) rs rs' \<Longrightarrow> map fst rs' = map fst rs \<and> (\<forall>t. (k, t) \<in> set rs' \<longrightarrow> t = x)"
  unfolding answers_def by (induction rule: list_all2_induct) auto

text \<open>A result that a request changed has its new text on record.\<close>

lemma replaced_is_recorded:
  assumes "apply_maturation B sha loads now msgs frozen mgr = (Inr (out, c), mgr')"
    and "scan_activity loads msgs = Inr act" and "map_of (read_calls act) k \<noteq> None"
    and i: "i < length msgs" and j: "j < length (tool_results (msgs ! i))"
    and t: "tool_results (msgs ! i) ! j = (k, t)" and x: "tool_results (out ! i) ! j = (k, x)" and ne: "x \<noteq> t"
  shows "\<exists>m. map_of (mm_matured mgr') k = Some m \<and> x = mr_marker m \<and> mc_enabled (mm_config mgr)"
proof -
  have en: "mc_enabled (mm_config mgr)"
  proof (rule ccontr)
    assume "\<not> mc_enabled (mm_config mgr)"
    then have "out = msgs" using assms(1) by (simp add: apply_maturation_def)
    then show False using t x ne by simp
  qed
  note a = trace.request_answer [OF assms(1,2) en, of k, OF assms(3)]
  have "out ! i \<noteq> msgs ! i" using t x ne by auto
  then have "answers k (kept_or_recorded k mgr') (tool_results (msgs ! i)) (tool_results (out ! i))"
    using a i by (auto split: if_splits)
  then have "kept_or_recorded k mgr' t x" using j t x by (auto simp: answers_def list_all2_conv_all_nth)
  then show ?thesis using ne en by (auto simp: kept_or_recorded_def)
qed

text \<open>C26: A matured read is replayed. Suppose a request has changed a result \<open>t\<close> of the read call
  \<open>k\<close> into the text \<open>x\<close>. Then after any number of requests, failures, accountings, changes of the
  store and restarts, a request in which the call still occurs sends exactly \<open>x\<close> for every result of
  the call outside the frozen prefix. The frozen prefix, the number of messages, their results' ids and
  all keys but \<open>content\<close> are kept, so the provider's cached prefix is not disturbed.\<close>

theorem matured_read_is_replayed:
  assumes "apply_maturation B0 sha0 loads0 now0 msgs0 frozen0 mgr0 = (Inr (out0, c0), mgr)"
    and "scan_activity loads0 msgs0 = Inr act0" and "map_of (read_calls act0) k \<noteq> None"
    and "i < length msgs0" and "j < length (tool_results (msgs0 ! i))"
    and "tool_results (msgs0 ! i) ! j = (k, t)" and "tool_results (out0 ! i) ! j = (k, x)" and "x \<noteq> t"
    and "later mgr mgr1"
    and "apply_maturation B sha loads now msgs frozen mgr1 = (Inr (out, c), mgr2)"
    and "scan_activity loads msgs = Inr act" and "map_of (read_calls act) k \<noteq> None"
  shows "length out = length msgs \<and>
    (\<forall>j < length msgs. same_but_content (msgs ! j) (out ! j) \<and>
       (if int j < frozen then out ! j = msgs ! j
        else map fst (tool_results (out ! j)) = map fst (tool_results (msgs ! j)) \<and>
             (\<forall>t. (k, t) \<in> set (tool_results (out ! j)) \<longrightarrow> t = x)))"
proof -
  obtain m where m: "map_of (mm_matured mgr) k = Some m" "x = mr_marker m" "mc_enabled (mm_config mgr0)"
    using replaced_is_recorded [OF assms(1-8)] by blast
  have "mm_config mgr = mm_config mgr0"
    using growth.request_step [OF assms(1,2)] by (simp add: grows_def)
  then have k1: "map_of (mm_matured mgr1) k = Some m" and en: "mc_enabled (mm_config mgr1)"
    using later_matured [OF assms(9)] m by (auto simp: map_le_def dom_def)
  have "matured_as act k m mgr1" using k1 assms(12) by (simp add: matured_as_def)
  from replay.request_answer [OF assms(10,11) en this] m(2) show ?thesis
    by (auto simp: answers_replay)
qed

section \<open>Active files\<close>

text \<open>That a message touches a file, read off the message.\<close>

definition call_touches :: "(pystr \<Rightarrow> json option) \<Rightarrow> pystr \<Rightarrow> json \<Rightarrow> bool" where
  "call_touches loads path tc \<longleftrightarrow> (\<exists>d func name t args. tc = JObj d \<and> dget d ''function'' = JObj func
     \<and> dget_default func ''name'' (JStr []) = JStr name \<and> is_touch_tool name
     \<and> dget_default func ''arguments'' (JStr (u ''{}'')) = JStr t \<and> loads t = Some (JObj args) \<and> touched_path args = Some path)"

definition block_touches :: "pystr \<Rightarrow> json \<Rightarrow> bool" where
  "block_touches path b \<longleftrightarrow> (\<exists>d name inp. b = JObj d \<and> dget d ''type'' = JStr (u ''tool_use'')
     \<and> dget_default d ''name'' (JStr []) = JStr name \<and> is_touch_tool name
     \<and> dget d ''input'' = JObj inp \<and> touched_path inp = Some path)"

definition touches :: "(pystr \<Rightarrow> json option) \<Rightarrow> pystr \<Rightarrow> message \<Rightarrow> bool" where
  "touches loads path msg \<longleftrightarrow> dget msg ''role'' = JStr (u ''assistant'') \<and> path \<noteq> [] \<and>
     ((\<exists>tcs tc. iter_or_empty (dget msg ''tool_calls'') = Inr tcs \<and> tc \<in> set tcs \<and> call_touches loads path tc)
      \<or> (\<exists>bs b. dget msg ''content'' = JList bs \<and> b \<in> set bs \<and> block_touches path b))"

definition assistant_messages :: "message list \<Rightarrow> nat" where
  "assistant_messages msgs = length (filter (\<lambda>m. dget m ''role'' = JStr (u ''assistant'')) msgs)"

lemma note_touch_effect:
  assumes "note_touch name fp i act = Inr act'"
  shows "assistant_count act' = assistant_count act"
    and "map_of (file_last_touch act') p = (if p = fp \<and> fp \<noteq> [] then Some (assistant_count act) else map_of (file_last_touch act) p)"
  using assms by (auto simp: note_touch_def Let_def update_conv' split: if_splits)

lemma touch_name_Inr: "touch_name v = Inr (Some name) \<longleftrightarrow> v = JStr name \<and> is_touch_tool name"
  by (auto simp: touch_name_def split: json.splits if_splits)

text \<open>The last touch of a file is kept, or becomes the current turn.\<close>

definition touch_step :: "pystr \<Rightarrow> activity \<Rightarrow> activity \<Rightarrow> bool" where
  "touch_step p a b \<longleftrightarrow> assistant_count b = assistant_count a \<and>
     (map_of (file_last_touch b) p = map_of (file_last_touch a) p \<or> map_of (file_last_touch b) p = Some (assistant_count a))"

lemma touch_step_refl [simp]: "touch_step p a a"
  by (simp add: touch_step_def)

lemma touch_step_note: "note_touch name fp i a = Inr b \<Longrightarrow> touch_step p a b"
  using note_touch_effect by (simp add: touch_step_def)

lemma scan_openai_call_cases:
  assumes "scan_openai_call loads a tc = Inr b"
  shows "b = a \<and> \<not> call_touches loads p tc \<or> (\<exists>name fp i. note_touch name fp i a = Inr b \<and> (call_touches loads p tc \<longrightarrow> p = fp))"
proof (cases "\<exists>p. call_touches loads p tc")
  case True
  then obtain p' where "call_touches loads p' tc" by blast
  then obtain d func name t args where c: "tc = JObj d" "dget d ''function'' = JObj func"
    "dget_default func ''name'' (JStr []) = JStr name" "is_touch_tool name"
    "dget_default func ''arguments'' (JStr (u ''{}'')) = JStr t" "loads t = Some (JObj args)" "touched_path args = Some p'"
    unfolding call_touches_def by blast
  have "touch_name (JStr name) = Inr (Some name)" using c(4) by (simp add: touch_name_Inr)
  then have "note_touch name p' (dget_default d ''id'' (JStr [])) a = Inr b"
    using assms c by (simp add: scan_openai_call_def)
  moreover have "p = p'" if "call_touches loads p tc" using that c by (auto simp: call_touches_def)
  ultimately show ?thesis by blast
next
  case False
  have "b = a"
  proof (rule ccontr)
    assume ne: "b \<noteq> a"
    then obtain d func where d: "tc = JObj d" "dget d ''function'' = JObj func"
      using assms by (auto simp: scan_openai_call_def split: json.splits)
    obtain nm where nm: "touch_name (dget_default func ''name'' (JStr [])) = Inr nm"
      using assms d by (cases "touch_name (dget_default func ''name'' (JStr []))") (auto simp: scan_openai_call_def)
    obtain name where "nm = Some name" using assms d nm ne by (cases nm) (auto simp: scan_openai_call_def)
    then have name: "dget_default func ''name'' (JStr []) = JStr name" "is_touch_tool name"
      using nm touch_name_Inr by metis+
    obtain t args where t: "dget_default func ''arguments'' (JStr (u ''{}'')) = JStr t" "loads t = Some (JObj args)"
      using assms d nm \<open>nm = Some name\<close> ne by (auto simp: scan_openai_call_def split: json.splits option.splits)
    obtain fp where "touched_path args = Some fp"
      using assms d nm \<open>nm = Some name\<close> ne t by (auto simp: scan_openai_call_def split: option.splits)
    then have "call_touches loads fp tc" using d name t by (auto simp: call_touches_def)
    with False show False by blast
  qed
  with False show ?thesis by blast
qed

lemma scan_block_cases:
  assumes "scan_block a tc = Inr b"
  shows "b = a \<and> \<not> block_touches p tc \<or> (\<exists>name fp i. note_touch name fp i a = Inr b \<and> (block_touches p tc \<longrightarrow> p = fp))"
proof (cases "\<exists>p. block_touches p tc")
  case True
  then obtain p' where "block_touches p' tc" by blast
  then obtain d name inp where c: "tc = JObj d" "dget d ''type'' = JStr (u ''tool_use'')"
    "dget_default d ''name'' (JStr []) = JStr name" "is_touch_tool name" "dget d ''input'' = JObj inp" "touched_path inp = Some p'"
    unfolding block_touches_def by blast
  have "touch_name (JStr name) = Inr (Some name)" using c(4) by (simp add: touch_name_Inr)
  then have "note_touch name p' (dget_default d ''id'' (JStr [])) a = Inr b" using assms c by (simp add: scan_block_def)
  moreover have "p = p'" if "block_touches p tc" using that c by (auto simp: block_touches_def)
  ultimately show ?thesis by blast
next
  case False
  have "b = a"
  proof (rule ccontr)
    assume ne: "b \<noteq> a"
    then obtain d where d: "tc = JObj d" "dget d ''type'' = JStr (u ''tool_use'')"
      using assms by (auto simp: scan_block_def split: json.splits if_splits)
    obtain nm where nm: "touch_name (dget_default d ''name'' (JStr [])) = Inr nm"
      using assms d by (cases "touch_name (dget_default d ''name'' (JStr []))") (auto simp: scan_block_def)
    obtain name where "nm = Some name" using assms d nm ne by (cases nm) (auto simp: scan_block_def)
    then have name: "dget_default d ''name'' (JStr []) = JStr name" "is_touch_tool name"
      using nm touch_name_Inr by metis+
    obtain inp where i: "dget d ''input'' = JObj inp"
      using assms d nm \<open>nm = Some name\<close> ne by (auto simp: scan_block_def split: json.splits)
    obtain fp where "touched_path inp = Some fp"
      using assms d nm \<open>nm = Some name\<close> ne i by (auto simp: scan_block_def split: option.splits)
    then have "block_touches fp tc" using d name i by (auto simp: block_touches_def)
    with False show False by blast
  qed
  with False show ?thesis by blast
qed

text \<open>Over the calls of one message.\<close>

lemma foldR_touch:
  assumes "foldR f a xs = Inr b"
    and step: "\<And>a x b. f a x = Inr b \<Longrightarrow> touch_step p a b \<and> (touch x \<longrightarrow> map_of (file_last_touch b) p = Some (assistant_count a))"
  shows "touch_step p a b \<and> ((\<exists>x \<in> set xs. touch x) \<longrightarrow> map_of (file_last_touch b) p = Some (assistant_count a))"
  using assms(1)
proof (induction xs arbitrary: a)
  case (Cons x xs)
  obtain a1 where a1: "f a x = Inr a1" "foldR f a1 xs = Inr b" using Cons.prems by (auto simp: bindR_eq_Inr)
  show ?case using step [OF a1(1)] Cons.IH [OF a1(2)] by (auto simp: touch_step_def)
qed simp

lemma scan_message_touch:
  assumes "scan_message loads a msg = Inr b"
  shows "if dget msg ''role'' = JStr (u ''assistant'')
    then assistant_count b = Suc (assistant_count a) \<and>
      (if touches loads p msg then map_of (file_last_touch b) p = Some (assistant_count b)
       else map_of (file_last_touch b) p = map_of (file_last_touch a) p \<or> map_of (file_last_touch b) p = Some (assistant_count b))
    else b = a"
proof (cases "dget msg ''role'' = JStr (u ''assistant'')")
  case True
  let ?a = "a\<lparr>assistant_count := Suc (assistant_count a)\<rparr>"
  obtain tcs a1 where tcs: "iter_or_empty (dget msg ''tool_calls'') = Inr tcs" "foldR (scan_openai_call loads) ?a tcs = Inr a1"
    and b: "(case dget msg ''content'' of JList bs \<Rightarrow> foldR scan_block a1 bs | _ \<Rightarrow> Inr a1) = Inr b"
    using assms True by (auto simp: scan_message_def bindR_eq_Inr)
  have s1: "touch_step p ?a a1 \<and> ((\<exists>x \<in> set tcs. call_touches loads p x \<and> p \<noteq> []) \<longrightarrow> map_of (file_last_touch a1) p = Some (assistant_count ?a))"
  proof (rule foldR_touch [OF tcs(2)])
    fix a x b assume "scan_openai_call loads a x = Inr b"
    from scan_openai_call_cases [OF this, of p]
    show "touch_step p a b \<and> (call_touches loads p x \<and> p \<noteq> [] \<longrightarrow> map_of (file_last_touch b) p = Some (assistant_count a))"
      using touch_step_note note_touch_effect(2) by (fastforce split: if_splits)
  qed
  have s2: "touch_step p a1 b \<and> ((\<exists>bs b'. dget msg ''content'' = JList bs \<and> b' \<in> set bs \<and> block_touches p b' \<and> p \<noteq> []) \<longrightarrow>
      map_of (file_last_touch b) p = Some (assistant_count a1))"
  proof (cases "\<exists>bs. dget msg ''content'' = JList bs")
    case True
    then obtain bs where bs: "dget msg ''content'' = JList bs" by blast
    have "touch_step p a1 b \<and> ((\<exists>x \<in> set bs. block_touches p x \<and> p \<noteq> []) \<longrightarrow> map_of (file_last_touch b) p = Some (assistant_count a1))"
    proof (rule foldR_touch)
      show "foldR scan_block a1 bs = Inr b" using b bs by simp
      fix a x b assume "scan_block a x = Inr b"
      from scan_block_cases [OF this, of p]
      show "touch_step p a b \<and> (block_touches p x \<and> p \<noteq> [] \<longrightarrow> map_of (file_last_touch b) p = Some (assistant_count a))"
        using touch_step_note note_touch_effect(2) by (fastforce split: if_splits)
    qed
    then show ?thesis using bs by auto
  next
    case False
    then have "b = a1" using b by (auto split: json.splits)
    then show ?thesis using False by auto
  qed
  show ?thesis
    using True s1 s2 tcs(1) by (auto simp: touch_step_def touches_def)
next
  case False
  then show ?thesis using assms by (simp add: scan_message_def)
qed

lemma scan_messages_count:
  "foldR (scan_message loads) a msgs = Inr b \<Longrightarrow> assistant_count b = assistant_count a + assistant_messages msgs"
proof (induction msgs arbitrary: a)
  case (Cons m msgs)
  then obtain a1 where a1: "scan_message loads a m = Inr a1" "foldR (scan_message loads) a1 msgs = Inr b"
    by (auto simp: bindR_eq_Inr)
  show ?case using scan_message_touch [OF a1(1)] Cons.IH [OF a1(2)] by (auto simp: assistant_messages_def split: if_splits)
qed (simp add: assistant_messages_def)

lemma scan_messages_recent:
  assumes "foldR (scan_message loads) a msgs = Inr b" and "map_of (file_last_touch a) p = Some t" and "t \<le> assistant_count a" and "t0 \<le> t"
  shows "\<exists>t'. map_of (file_last_touch b) p = Some t' \<and> t0 \<le> t'"
  using assms
proof (induction msgs arbitrary: a t)
  case (Cons m msgs)
  then obtain a1 where a1: "scan_message loads a m = Inr a1" "foldR (scan_message loads) a1 msgs = Inr b"
    by (auto simp: bindR_eq_Inr)
  note s = scan_message_touch [OF a1(1), of p]
  then obtain t1 where "map_of (file_last_touch a1) p = Some t1" "t1 \<le> assistant_count a1" "t0 \<le> t1"
    using Cons.prems by (auto split: if_splits)
  then show ?case using Cons.IH [OF a1(2)] by blast
qed simp

lemma foldR_append: "foldR f a (xs @ ys) = bindR (foldR f a xs) (\<lambda>b. foldR f b ys)"
  by (induction xs arbitrary: a) (auto simp: bindR_def split: sum.splits)

text \<open>A file touched within the last turns has a small quiet time.\<close>

lemma recent_touch:
  assumes "scan_activity loads (xs @ m # ys) = Inr act" and "touches loads p m"
  shows "\<exists>t. map_of (file_last_touch act) p = Some t \<and> int (assistant_count act) - int t \<le> int (assistant_messages ys)"
proof -
  let ?a0 = "\<lparr>read_calls = [], file_last_touch = [], assistant_count = 0\<rparr>"
  obtain a1 a2 where a: "foldR (scan_message loads) ?a0 xs = Inr a1" "scan_message loads a1 m = Inr a2"
    "foldR (scan_message loads) a2 ys = Inr act"
    using assms(1) by (auto simp: scan_activity_def foldR_append bindR_eq_Inr)
  have "dget m ''role'' = JStr (u ''assistant'')" using assms(2) by (simp add: touches_def)
  then have "map_of (file_last_touch a2) p = Some (assistant_count a2)"
    using scan_message_touch [OF a(2), of p] assms(2) by simp
  from scan_messages_recent [OF a(3) this order_refl order_refl]
  show ?thesis using scan_messages_count [OF a(3)] by auto
qed

definition held_active :: "maturation_config \<Rightarrow> activity \<Rightarrow> json \<Rightarrow> 'b maturation_manager \<Rightarrow> bool" where
  "held_active cfg act k mgr \<longleftrightarrow> map_of (read_calls act) k \<noteq> None \<and> map_of (mm_matured mgr) k = None \<and> mm_config mgr = cfg
     \<and> (\<forall>tc. key_norm tc = k \<longrightarrow> still_active cfg act tc)"

interpretation hold: read_answer B sha now act k "held_active cfg act k" "\<lambda>_ t t'. t' = t" for B sha now act k cfg
proof unfold_locales
  fix mgr mgr' tc content c r c'
  assume i: "held_active cfg act k mgr" and h: "handle_read B sha now act tc content (mgr, c) = (r, mgr', c')"
  have "map_of (mm_matured mgr') k = None"
  proof (cases "key_norm tc = k")
    case True
    then show ?thesis using i h by (auto simp: handle_read_def held_active_def split: if_splits)
  next
    case False
    then show ?thesis using i h
      by (auto simp: handle_read_def held_active_def Let_def update_conv' split: option.splits if_splits sum.splits prod.splits)
  qed
  then show "held_active cfg act k mgr'" using i handle_read_grows [OF h] by (simp add: held_active_def grows_def)
next
  fix mgr mgr' tc content c q h c'
  assume i: "held_active cfg act k mgr" and tc: "key_norm tc = k"
    and "handle_read B sha now act tc content (mgr, c) = ((q, h), mgr', c')"
  then have "q = None" by (auto simp: handle_read_def held_active_def split: if_splits)
  then show "(case q of Some new \<Rightarrow> new | None \<Rightarrow> content) = content" by simp
qed (simp_all add: held_active_def)

lemma answers_same: "answers k (\<lambda>t t'. t' = t) rs rs' \<Longrightarrow> filter (\<lambda>(i, t). i = k) rs' = filter (\<lambda>(i, t). i = k) rs"
  unfolding answers_def by (induction rule: list_all2_induct) auto

text \<open>C35: The file the model works with stays visible. As long as no marker is recorded for a read, one of
  the last \<open>quiesce_turns\<close> assistant messages reads or edits its file, and the read has not been held for
  \<open>max_hold_turns\<close>, a request of an enabled manager sends every result of that read as the client sent
  it and still records no marker for it. (A read that has matured keeps its marker when its file is
  touched again.)\<close>

theorem active_read_stays_verbatim:
  assumes "apply_maturation B sha loads now (xs @ m # ys) frozen mgr = (Inr (out, c), mgr')"
    and "mc_enabled (mm_config mgr)" and "map_of (mm_matured mgr) k = None"
    and "scan_activity loads (xs @ m # ys) = Inr act" and "map_of (read_calls act) k = Some (path, read_turn)"
    and "touches loads path m" and "int (assistant_messages ys) < quiesce_turns (mm_config mgr)"
    and "int (assistant_messages (xs @ m # ys)) - int read_turn < max_hold_turns (mm_config mgr)"
  shows "map_of (mm_matured mgr') k = None \<and> length out = length (xs @ m # ys) \<and>
    (\<forall>j < length out. filter (\<lambda>(i, t). i = k) (tool_results (out ! j)) = filter (\<lambda>(i, t). i = k) (tool_results ((xs @ m # ys) ! j)))"
proof -
  have "assistant_count act = assistant_messages (xs @ m # ys)"
    using scan_messages_count [of loads _ "xs @ m # ys" act] assms(4) by (auto simp: scan_activity_def)
  then have "held_active (mm_config mgr) act k mgr"
    using recent_touch [OF assms(4,6)] assms(3,5,7,8) by (auto simp: held_active_def still_active_def Let_def)
  note h = hold.request_answer [OF assms(1,4,2) this]
  have "filter (\<lambda>(i, t). i = k) (tool_results (out ! j)) = filter (\<lambda>(i, t). i = k) (tool_results ((xs @ m # ys) ! j))"
    if "j < length out" for j
  proof (cases "int j < frozen")
    case True
    then have "out ! j = (xs @ m # ys) ! j" using h that by simp
    then show ?thesis by simp
  next
    case False
    then have "answers k (\<lambda>t t'. t' = t) (tool_results ((xs @ m # ys) ! j)) (tool_results (out ! j))" using h that by simp
    then show ?thesis by (rule answers_same)
  qed
  moreover have "map_of (mm_matured mgr') k = None" using conjunct1 [OF h] by (simp add: held_active_def)
  ultimately show ?thesis using h by blast
qed

section \<open>Resolving the markers\<close>

text \<open>What a pass adds to the table was stored, and is still there.\<close>

definition stored_reads :: "(pystr \<Rightarrow> pystr) \<Rightarrow> real \<Rightarrow> nat \<Rightarrow> mem_store maturation_manager \<Rightarrow> mem_store maturation_manager \<Rightarrow> bool" where
  "stored_reads sha now n a b \<longleftrightarrow> (\<forall>hs m. resolved sha now UNIV (n + m) (mm_store a) hs \<longrightarrow>
     (\<exists>hs'. resolved sha now UNIV m (mm_store b) (hs @ hs') \<and>
        (\<forall>k x. map_of (mm_matured b) k = Some x \<longrightarrow> map_of (mm_matured a) k = Some x
           \<or> mr_hash x \<in> set hs' \<and> (\<exists>path. mr_marker x = matured_marker path (mr_hash x)))))"

lemma stored_reads_trans:
  assumes "stored_reads sha now m a b" and "stored_reads sha now n b c"
  shows "stored_reads sha now (m + n) a c"
  unfolding stored_reads_def
proof (intro allI impI)
  fix hs j assume "resolved sha now UNIV (m + n + j) (mm_store a) hs"
  then obtain h1 where h1: "resolved sha now UNIV (n + j) (mm_store b) (hs @ h1)"
    "\<And>k x. map_of (mm_matured b) k = Some x \<Longrightarrow> map_of (mm_matured a) k = Some x
       \<or> mr_hash x \<in> set h1 \<and> (\<exists>path. mr_marker x = matured_marker path (mr_hash x))"
    using assms(1) unfolding stored_reads_def by (metis add.assoc)
  obtain h2 where h2: "resolved sha now UNIV j (mm_store c) ((hs @ h1) @ h2)"
    "\<And>k x. map_of (mm_matured c) k = Some x \<Longrightarrow> map_of (mm_matured b) k = Some x
       \<or> mr_hash x \<in> set h2 \<and> (\<exists>path. mr_marker x = matured_marker path (mr_hash x))"
    using assms(2) h1(1) unfolding stored_reads_def by blast
  show "\<exists>hs'. resolved sha now UNIV j (mm_store c) (hs @ hs') \<and>
        (\<forall>k x. map_of (mm_matured c) k = Some x \<longrightarrow> map_of (mm_matured a) k = Some x
           \<or> mr_hash x \<in> set hs' \<and> (\<exists>path. mr_marker x = matured_marker path (mr_hash x)))"
    by (rule exI [of _ "h1 @ h2"]) (use h1(2) h2 in force)
qed

lemma stored_reads_mono: "stored_reads sha now m a b \<Longrightarrow> m \<le> n \<Longrightarrow> stored_reads sha now n a b"
  unfolding stored_reads_def by (meson add_le_mono1 resolved_mono)

lemma stored_reads_same:
  "mm_store b = mm_store a \<Longrightarrow> mm_matured b = mm_matured a \<Longrightarrow> stored_reads sha now n a b"
  unfolding stored_reads_def by (metis append_Nil2 le_add2 resolved_mono)

text \<open>A read that the pass replaces for the first time.\<close>

lemma handle_read_stored:
  assumes "handle_read memory_ops sha now act tc content (mgr, c) = (r, mgr', c')" and nb: "\<not> is_bare_marker content"
  shows "stored_reads sha now 1 mgr mgr'"
proof (cases "mm_store mgr' = mm_store mgr \<and> mm_matured mgr' = mm_matured mgr")
  case True
  then show ?thesis by (simp add: stored_reads_same)
next
  case False
  then have fresh: "map_of (mm_matured mgr) (key_norm tc) = None" "\<not> too_small_or_marker (mm_config mgr) content"
    "\<not> still_active (mm_config mgr) act tc" "mm_store mgr \<noteq> None \<longrightarrow> encoded_len content \<noteq> None"
    using assms(1) by (auto simp: handle_read_def store_def hash_key_of_def maturation_args_def encoded_len_def split: option.splits if_splits)
  let ?path = "fst (the (map_of (read_calls act) (key_norm tc)))" and ?h = "take 24 (sha content)"
  show ?thesis
    unfolding stored_reads_def
  proof (intro allI impI)
    fix hs m assume "resolved sha now UNIV (1 + m) (mm_store mgr) hs"
    then obtain s where s: "mm_store mgr = Some s" "resolved sha now UNIV (Suc m) (Some s) hs"
      unfolding resolved_def by auto
    obtain s' where s': "store memory_ops sha now s (maturation_args content tc) = (Inr ?h, s')" "resolved sha now UNIV m (Some s') (hs @ [?h])"
      using store_resolved [OF s(2), of "maturation_args content tc"] nb fresh(4) s(1) by (auto simp: maturation_args_def hash_key_of_def encoded_len_def split: if_splits)
    have m': "mm_store mgr' = Some s'"
      "mm_matured mgr' = AList.update (key_norm tc) \<lparr>mr_marker = matured_marker ?path ?h, mr_hash = ?h\<rparr> (mm_matured mgr)"
      using assms(1) fresh s(1) s'(1) by (auto simp: handle_read_def Let_def split: if_splits)
    show "\<exists>hs'. resolved sha now UNIV m (mm_store mgr') (hs @ hs') \<and>
        (\<forall>k x. map_of (mm_matured mgr') k = Some x \<longrightarrow> map_of (mm_matured mgr) k = Some x
           \<or> mr_hash x \<in> set hs' \<and> (\<exists>path. mr_marker x = matured_marker path (mr_hash x)))"
      by (rule exI [of _ "[?h]"]) (use s'(2) in \<open>auto simp: m' update_conv' split: if_splits\<close>)
  qed
qed

interpretation room: pass_frame memory_ops sha now act "\<lambda>t. \<not> is_bare_marker t" "stored_reads sha now" for sha now act
  by unfold_locales (auto intro: stored_reads_same stored_reads_trans stored_reads_mono handle_read_stored)

text \<open>Every new marker can be resolved. With the in-memory CCR store in any reachable state and room for
  the tool results of the conversation, each marker a request records, whether the request succeeds or
  fails half way, is the marker of a hash that the store it leaves answers with content of that digest,
  provided no tool result is itself a bare retrieval marker.\<close>

theorem matured_markers_resolve:
  assumes "apply_maturation memory_ops sha loads now msgs frozen mgr = (r, mgr')"
    and "mm_store mgr = Some s" and "reachable_store sha s" and "0 \<le> default_ttl s"
    and "int (mem_count (backend s)) + int (length (concat (map tool_results msgs))) \<le> max_entries s"
    and "\<forall>(i, t) \<in> set (concat (map tool_results msgs)). \<not> is_bare_marker t"
  shows "\<exists>s'. mm_store mgr' = Some s' \<and> (\<forall>k x. map_of (mm_matured mgr') k = Some x \<longrightarrow> map_of (mm_matured mgr) k = Some x
    \<or> (\<exists>path e s''. mr_marker x = matured_marker path (mr_hash x)
         \<and> retrieve memory_ops now s' (mr_hash x) q = (Some e, s'') \<and> take 24 (sha (original_content e)) = mr_hash x))"
proof (cases "scan_activity loads msgs")
  case (Inl e)
  then have "mgr' = mgr" using request_unscanned [OF assms(1)] by blast
  then show ?thesis using assms(2) by blast
next
  case (Inr act)
  let ?n = "length (concat (map tool_results msgs))"
  have "resolved sha now UNIV (?n + 0) (mm_store mgr) []"
    using assms(2-5) reachable_store_inv by (auto simp: resolved_def)
  with room.request_step [OF assms(1) Inr assms(6)] obtain hs' where hs': "resolved sha now UNIV 0 (mm_store mgr') ([] @ hs')"
    "\<And>k x. map_of (mm_matured mgr') k = Some x \<Longrightarrow> map_of (mm_matured mgr) k = Some x
       \<or> mr_hash x \<in> set hs' \<and> (\<exists>path. mr_marker x = matured_marker path (mr_hash x))"
    unfolding stored_reads_def by blast
  then obtain s' where s': "mm_store mgr' = Some s'" and all: "\<And>h. h \<in> set hs' \<Longrightarrow> \<exists>e. mem_get (backend s') h = Some e
      \<and> take 24 (sha (original_content e)) = h \<and> \<not> is_expired now e"
    unfolding resolved_def by auto
  have "\<exists>e s''. retrieve memory_ops now s' h q = (Some e, s'') \<and> take 24 (sha (original_content e)) = h" if "h \<in> set hs'" for h
    using all [OF that] retrieve_of_live [of s' h _ now q] by (metis record_access_frame(1))
  then show ?thesis using s' hs'(2) by blast
qed

section \<open>Booking a removal\<close>

text \<open>The tool results of the client's request that reach the provider as their marker.\<close>

definition removed_results :: "ucd \<Rightarrow> (rat \<Rightarrow> pystr) \<Rightarrow> 'b maturation_manager \<Rightarrow> message list \<Rightarrow> message list \<Rightarrow> (pystr \<times> pystr) list" where
  "removed_results U F mgr original outbound =
     filter (\<lambda>(i, t). case map_of (mm_matured mgr) (JStr i) of
         None \<Rightarrow> False
       | Some m \<Rightarrow> map_of (rev (iter_tool_results U F outbound)) i = Some (mr_marker m) \<and> t \<noteq> mr_marker m)
       (iter_tool_results U F original)"

text \<open>What the removal of one result saves, in tokens.\<close>

definition removal_saving :: "(pystr \<Rightarrow> int) \<Rightarrow> (pystr \<Rightarrow> pystr) \<Rightarrow> 'b maturation_manager \<Rightarrow> pystr \<Rightarrow> int" where
  "removal_saving count content mgr i =
     (case map_of (mm_matured mgr) (JStr i) of Some m \<Rightarrow> count (content i) - count (mr_marker m) | None \<Rightarrow> 0)"

text \<open>A bill: per request the tokens the plain comparison of original and forwarded messages books for
  removed results, less the debt. The client re-sends the same text for a call, once per request, and a
  marker is not longer than what it replaces.\<close>

inductive billed :: "ucd \<Rightarrow> (rat \<Rightarrow> pystr) \<Rightarrow> (pystr \<Rightarrow> int) \<Rightarrow> (pystr \<Rightarrow> pystr) \<Rightarrow> 'b maturation_manager \<Rightarrow> int \<Rightarrow> pystr set \<Rightarrow> bool"
  for U F count content where
  start: "billed U F count content (new_maturation_manager cfg st) 0 {}"
| pass: "billed U F count content a n S \<Longrightarrow> apply_maturation B sha loads now msgs frozen a = (r, b) \<Longrightarrow> billed U F count content b n S"
| account: "billed U F count content a n S \<Longrightarrow> replayed_token_debt U F count original outbound a = (debt, b) \<Longrightarrow>
    removed_results U F a original outbound = rs \<Longrightarrow> distinct (map fst rs) \<Longrightarrow>
    (\<And>i t. (i, t) \<in> set rs \<Longrightarrow> t = content i \<and> 0 \<le> removal_saving count content a i) \<Longrightarrow>
    billed U F count content b (n + (\<Sum>i \<leftarrow> map fst rs. removal_saving count content a i) - debt) (S \<union> fst ` set rs)"
| others: "billed U F count content a n S \<Longrightarrow> billed U F count content (a\<lparr>mm_store := st\<rparr>) n S"
| restarted: "billed U F count content a n S \<Longrightarrow> string_ids a \<Longrightarrow>
    restore_maturation (export_maturation F a) (new_maturation_manager (mm_config a) st) = Some b \<Longrightarrow> billed U F count content b n S"

definition deltas_ok :: "(pystr \<Rightarrow> int) \<Rightarrow> (pystr \<Rightarrow> pystr) \<Rightarrow> 'b maturation_manager \<Rightarrow> bool" where
  "deltas_ok count content mgr \<longleftrightarrow> (\<forall>i d. map_of (mm_deltas mgr) i = Some d \<longrightarrow>
     map_of (mm_matured mgr) (JStr i) \<noteq> None \<and> d = removal_saving count content mgr i)"

definition replaced_on_wire :: "(pystr \<Rightarrow> pystr option) \<Rightarrow> 'b maturation_manager \<Rightarrow> pystr \<times> pystr \<Rightarrow> bool" where
  "replaced_on_wire fw mgr x \<longleftrightarrow> (case map_of (mm_matured mgr) (JStr (fst x)) of
     None \<Rightarrow> False | Some m \<Rightarrow> fw (fst x) = Some (mr_marker m) \<and> snd x \<noteq> mr_marker m)"

lemma charge_result_skip: "\<not> replaced_on_wire fw mgr x \<Longrightarrow> charge_result count fw (mgr, d) x = (mgr, d)"
  by (cases x) (auto simp: charge_result_def replaced_on_wire_def split: option.splits)

lemma charge_result_replaced:
  assumes "replaced_on_wire fw mgr (i, content i)" and "0 \<le> removal_saving count content mgr i" and "deltas_ok count content mgr"
    and "charge_result count fw (mgr, d) (i, content i) = (mgr', d')"
  shows "set (mm_booked mgr') = insert i (set (mm_booked mgr)) \<and> mm_matured mgr' = mm_matured mgr \<and> deltas_ok count content mgr'
    \<and> d' = d + (if i \<in> set (mm_booked mgr) then removal_saving count content mgr i else 0)"
proof -
  obtain m where m: "map_of (mm_matured mgr) (JStr i) = Some m" "fw i = Some (mr_marker m)" "content i \<noteq> mr_marker m"
    using assms(1) by (auto simp: replaced_on_wire_def split: option.splits)
  then have sv: "removal_saving count content mgr i = count (content i) - count (mr_marker m)" by (simp add: removal_saving_def)
  show ?thesis
  proof (cases "i \<in> set (mm_booked mgr)")
    case False
    then have "mgr' = mgr\<lparr>mm_booked := i # mm_booked mgr\<rparr>" "d' = d" using assms(4) m by (auto simp: charge_result_def)
    then show ?thesis using assms(3) False by (simp add: deltas_ok_def removal_saving_def)
  next
    case True
    show ?thesis
    proof (cases "map_of (mm_deltas mgr) i")
      case None
      then have "mgr' = mgr\<lparr>mm_deltas := AList.update i (count (content i) - count (mr_marker m)) (mm_deltas mgr)\<rparr>"
        "d' = d + (count (content i) - count (mr_marker m))"
        using assms(2,4) m True sv by (auto simp: charge_result_def Let_def)
      then show ?thesis using assms(3) True sv m(1) by (auto simp: deltas_ok_def removal_saving_def update_conv')
    next
      case (Some dl)
      then have "mgr' = mgr" "d' = d + dl" using assms(4) m True by (auto simp: charge_result_def)
      then show ?thesis using assms(3) True Some by (auto simp: deltas_ok_def)
    qed
  qed
qed

lemma charge_results_sum:
  assumes "distinct (map fst (filter (replaced_on_wire fw mgr) xs))"
    and "\<And>i t. (i, t) \<in> set (filter (replaced_on_wire fw mgr) xs) \<Longrightarrow> t = content i \<and> 0 \<le> removal_saving count content mgr i"
    and "deltas_ok count content mgr" and "foldl (charge_result count fw) (mgr, d) xs = (mgr', d')"
  shows "set (mm_booked mgr') = set (mm_booked mgr) \<union> fst ` set (filter (replaced_on_wire fw mgr) xs)
    \<and> mm_matured mgr' = mm_matured mgr \<and> deltas_ok count content mgr'
    \<and> d' = d + (\<Sum>i \<in> fst ` set (filter (replaced_on_wire fw mgr) xs) \<inter> set (mm_booked mgr). removal_saving count content mgr i)"
  using assms
proof (induction xs arbitrary: mgr d)
  case (Cons x xs)
  show ?case
  proof (cases "replaced_on_wire fw mgr x")
    case False
    then have "filter (replaced_on_wire fw mgr) (x # xs) = filter (replaced_on_wire fw mgr) xs"
      "foldl (charge_result count fw) (mgr, d) xs = (mgr', d')"
      using Cons.prems(4) by (simp_all add: charge_result_skip)
    then show ?thesis using Cons.IH [of mgr d] Cons.prems(1-3) by simp
  next
    case True
    obtain i where x: "x = (i, content i)" and nn: "0 \<le> removal_saving count content mgr i"
      using True Cons.prems(2) [of "fst x" "snd x"] by (cases x) auto
    obtain mgr1 d1 where c1: "charge_result count fw (mgr, d) (i, content i) = (mgr1, d1)" by (meson surj_pair)
    note c = charge_result_replaced [OF True [unfolded x] nn Cons.prems(3) c1]
    let ?r = "filter (replaced_on_wire fw mgr) xs"
    have same: "replaced_on_wire fw mgr1 = replaced_on_wire fw mgr" "removal_saving count content mgr1 = removal_saving count content mgr"
      using c by (simp_all add: replaced_on_wire_def removal_saving_def fun_eq_iff)
    have new: "i \<notin> fst ` set ?r" "distinct (map fst ?r)" using Cons.prems(1) True x by auto
    have IH: "set (mm_booked mgr') = set (mm_booked mgr1) \<union> fst ` set ?r \<and> mm_matured mgr' = mm_matured mgr1 \<and> deltas_ok count content mgr'
        \<and> d' = d1 + (\<Sum>i \<in> fst ` set ?r \<inter> set (mm_booked mgr1). removal_saving count content mgr i)"
    proof (rule Cons.IH [of mgr1 d1, unfolded same])
      fix j t assume "(j, t) \<in> set ?r"
      then have "(j, t) \<in> set (filter (replaced_on_wire fw mgr) (x # xs))" by auto
      then show "t = content j \<and> 0 \<le> removal_saving count content mgr j" by (rule Cons.prems(2))
    qed (use new(2) c c1 Cons.prems(4) x in simp_all)
    have "fst ` set ?r \<inter> set (mm_booked mgr1) = fst ` set ?r \<inter> set (mm_booked mgr)" using c new(1) by auto
    moreover have "fst ` set (filter (replaced_on_wire fw mgr) (x # xs)) \<inter> set (mm_booked mgr) =
        (if i \<in> set (mm_booked mgr) then insert i (fst ` set ?r \<inter> set (mm_booked mgr)) else fst ` set ?r \<inter> set (mm_booked mgr))"
      using True x by auto
    ultimately show ?thesis using IH c new(1) True x by (auto split: if_splits)
  qed
qed simp

lemma removed_results_eq:
  "removed_results U F mgr original outbound =
     filter (replaced_on_wire (map_of (rev (iter_tool_results U F outbound))) mgr) (iter_tool_results U F original)"
  unfolding removed_results_def replaced_on_wire_def by (rule filter_cong) (auto split: option.splits)

definition bill_inv :: "(pystr \<Rightarrow> int) \<Rightarrow> (pystr \<Rightarrow> pystr) \<Rightarrow> 'b maturation_manager \<Rightarrow> int \<Rightarrow> pystr set \<Rightarrow> bool" where
  "bill_inv count content mgr n S \<longleftrightarrow> n = (\<Sum>i \<in> S. removal_saving count content mgr i) \<and> S = set (mm_booked mgr)
     \<and> (\<forall>i \<in> S. map_of (mm_matured mgr) (JStr i) \<noteq> None) \<and> deltas_ok count content mgr"

lemma bill_inv_grows:
  assumes "bill_inv count content a n S" and "map_of (mm_matured a) \<subseteq>\<^sub>m map_of (mm_matured b)"
    and "set (mm_booked b) = set (mm_booked a)" and "mm_deltas b = mm_deltas a"
  shows "bill_inv count content b n S"
proof -
  have sv: "map_of (mm_matured a) (JStr i) \<noteq> None \<Longrightarrow>
      map_of (mm_matured b) (JStr i) \<noteq> None \<and> removal_saving count content b i = removal_saving count content a i" for i
    using assms(2) by (auto simp: removal_saving_def map_le_def dom_def)
  have "(\<Sum>i \<in> S. removal_saving count content b i) = (\<Sum>i \<in> S. removal_saving count content a i)"
    by (rule sum.cong) (use assms(1) sv in \<open>auto simp: bill_inv_def\<close>)
  moreover have "deltas_ok count content b" using assms(1,4) sv unfolding bill_inv_def deltas_ok_def by metis
  ultimately show ?thesis using assms(1,3) sv by (auto simp: bill_inv_def)
qed

lemma bill_inv_account:
  assumes inv: "bill_inv count content a n S" and "replayed_token_debt U F count original outbound a = (debt, b)"
    and rs: "removed_results U F a original outbound = rs" and "distinct (map fst rs)"
    and ok: "\<And>i t. (i, t) \<in> set rs \<Longrightarrow> t = content i \<and> 0 \<le> removal_saving count content a i"
  shows "bill_inv count content b (n + (\<Sum>i \<leftarrow> map fst rs. removal_saving count content a i) - debt) (S \<union> fst ` set rs)"
proof (cases "mm_matured a = []")
  case True
  then have "debt = 0" "b = a" "rs = []" using assms(2) rs by (auto simp: replayed_token_debt_def removed_results_def)
  then show ?thesis using inv by simp
next
  case False
  let ?fw = "map_of (rev (iter_tool_results U F outbound))"
  have f: "foldl (charge_result count ?fw) (a, 0) (iter_tool_results U F original) = (b, debt)"
    using assms(2) False by (auto simp: replayed_token_debt_def Let_def split: prod.splits)
  have r: "filter (replaced_on_wire ?fw a) (iter_tool_results U F original) = rs" using rs by (simp add: removed_results_eq)
  have c: "set (mm_booked b) = set (mm_booked a) \<union> fst ` set rs \<and> mm_matured b = mm_matured a \<and> deltas_ok count content b
      \<and> debt = 0 + (\<Sum>i \<in> fst ` set rs \<inter> set (mm_booked a). removal_saving count content a i)"
    using charge_results_sum [of ?fw a "iter_tool_results U F original" content count 0 b debt, unfolded r] assms(4) ok inv f
    by (auto simp: bill_inv_def)
  have sv: "removal_saving count content b = removal_saving count content a"
    using c by (auto simp: removal_saving_def fun_eq_iff)
  have "(\<Sum>i \<leftarrow> map fst rs. removal_saving count content a i) = (\<Sum>i \<in> fst ` set rs. removal_saving count content a i)"
    by (simp only: sum_list_distinct_conv_sum_set [OF assms(4)] set_map)
  moreover have "(\<Sum>i \<in> S \<union> fst ` set rs. removal_saving count content a i) + (\<Sum>i \<in> S \<inter> fst ` set rs. removal_saving count content a i)
      = (\<Sum>i \<in> S. removal_saving count content a i) + (\<Sum>i \<in> fst ` set rs. removal_saving count content a i)"
    by (rule sum.union_inter) (use inv in \<open>auto simp: bill_inv_def\<close>)
  moreover have "map_of (mm_matured b) (JStr i) \<noteq> None" if "i \<in> S \<union> fst ` set rs" for i
    using that inv c by (auto simp: bill_inv_def r [symmetric] replaced_on_wire_def split: option.splits)
  ultimately show ?thesis using inv c sv by (auto simp: bill_inv_def Int_commute)
qed

text \<open>A removal is booked once. Over the life of a manager, requests, other users of the store and
  restarts in any order, the tokens booked as saved, the plain comparison of each request less the debt
  charged for it, are the savings of the results removed so far, each counted once however often the
  client sends it again.\<close>

theorem removal_books_once:
  assumes "billed U F count content mgr n S"
  shows "n = (\<Sum>i \<in> S. removal_saving count content mgr i) \<and> S = set (mm_booked mgr)"
proof -
  have "bill_inv count content mgr n S"
    using assms
  proof induction
    case (start cfg st)
    then show ?case by (simp add: bill_inv_def deltas_ok_def new_maturation_manager_def)
  next
    case (pass a n S B sha loads now msgs frozen r b)
    have "grows a b"
      using growth.request_step [OF pass.hyps(2)] request_unscanned [OF pass.hyps(2)] by (cases "scan_activity loads msgs") auto
    then show ?case using bill_inv_grows [OF pass.IH, of b] by (simp add: grows_def)
  next
    case (account a n S original outbound debt b rs)
    then show ?case using bill_inv_account by blast
  next
    case (others a n S st)
    then show ?case using bill_inv_grows [OF others.IH, of "a\<lparr>mm_store := st\<rparr>"] by simp
  next
    case (restarted a n S st b)
    then show ?case using bill_inv_grows [OF restarted.IH, of b] by (auto simp: restore_export new_maturation_manager_def)
  qed
  then show ?thesis by (simp add: bill_inv_def)
qed

section \<open>A conversation\<close>

text \<open>The assistant reads a file, the client answers, and the assistant goes on.\<close>

definition mat_cfg :: "int \<Rightarrow> maturation_config" where
  "mat_cfg quiet = \<lparr>mc_enabled = True, quiesce_turns = quiet, max_hold_turns = 9, mc_min_size = 4\<rparr>"

definition mat_call :: message where
  "mat_call = [(u ''role'', JStr (u ''assistant'')), (u ''content'', JList [JObj [(u ''type'', JStr (u ''tool_use'')),
     (u ''name'', JStr (u ''Read'')), (u ''id'', JStr (u ''r1'')), (u ''input'', JObj [(u ''path'', JStr (u ''a'')) ])]])]"

definition mat_result :: "pystr \<Rightarrow> message" where
  "mat_result t = [(u ''role'', JStr (u ''user'')), (u ''content'', JList [JObj [(u ''type'', JStr (u ''tool_result'')),
     (u ''tool_use_id'', JStr (u ''r1'')), (u ''content'', JStr t)]])]"

definition mat_reply :: message where
  "mat_reply = [(u ''role'', JStr (u ''assistant'')), (u ''content'', JStr (u ''done''))]"

definition mat_conv :: "pystr \<Rightarrow> message list" where
  "mat_conv t = [mat_call, mat_result t, mat_reply]"

definition mat_read :: matured_read where
  "mat_read = \<lparr>mr_marker = matured_marker (u ''a'') (u ''ab''), mr_hash = u ''ab''\<rparr>"

definition mat_act :: activity where
  "mat_act = \<lparr>read_calls = [(JStr (u ''r1''), (u ''a'', 1))], file_last_touch = [(u ''a'', 1)], assistant_count = 2\<rparr>"

lemma mat_scan: "scan_activity loads (mat_conv t) = Inr mat_act"
  by (simp add: scan_activity_def mat_conv_def scan_message_def mat_call_def mat_result_def mat_reply_def mat_act_def
      scan_block_def touch_name_def is_touch_tool_def touched_path_def note_touch_def is_read_tool_def iter_or_empty_def)

lemma mat_texts: "concat (map tool_results (mat_conv t)) = [(JStr (u ''r1''), t)]"
  by (simp add: tool_results_def block_results_def mat_conv_def mat_call_def mat_result_def mat_reply_def)

text \<open>The pass on it, from what it makes of the one read.\<close>

lemma mat_run:
  assumes "handle_read B sha now mat_act (JStr (u ''r1'')) t (mgr, no_counts) = ((q, h), mgr1, c1)" and "mc_enabled (mm_config mgr)"
  shows "\<exists>c. apply_maturation B sha loads now (mat_conv t) 0 mgr = (Inr (mat_conv (case q of Some new \<Rightarrow> new | None \<Rightarrow> t), c), mgr1)"
  using assms
  by (cases q; cases h)
    (simp_all add: apply_maturation_def mat_scan, simp_all add: mat_conv_def mature_message_def mat_call_def mat_result_def mat_reply_def mature_block_def is_read_call_def mat_act_def dset_def)

text \<open>A manager that has replaced the read, before and after a restart.\<close>

definition mat_mgr :: "mem_store maturation_manager" where
  "mat_mgr = (new_maturation_manager (mat_cfg 1) None)\<lparr>mm_matured := [(JStr (u ''r1''), mat_read)]\<rparr>"

lemma mat_mgr_later: "later mat_mgr mat_mgr"
proof (rule later.restart [OF later.same])
  show s: "string_ids mat_mgr" by (simp add: string_ids_def mat_mgr_def is_str_def)
  show "restore_maturation (export_maturation (\<lambda>_. []) mat_mgr) (new_maturation_manager (mm_config mat_mgr) None) = Some mat_mgr"
    by (simp add: restore_export [OF s]) (simp add: mat_mgr_def new_maturation_manager_def)
qed

lemma mat_marker_differs: "u ''text'' \<noteq> mr_marker mat_read" "u ''text'' \<noteq> matured_marker (u ''a'') (u ''ab'')"
  by (simp_all add: mat_read_def matured_marker_def u_def)

lemma mat_read_plain: "\<not> too_small_or_marker (mat_cfg n) (u ''text'')" "encoded_len (u ''text'') \<noteq> None" "\<not> is_bare_marker (u ''text'')"
  by (simp_all add: too_small_or_marker_def mat_cfg_def u_def startswith_def replace_surrogates_def is_surrogate_def
      utf8_width_def encoded_len_def is_bare_marker_def Let_def strip_def lstrip_def rstrip_def py_isspace_def)

lemma mat_active: "still_active (mat_cfg n) mat_act (JStr (u ''r1'')) \<longleftrightarrow> 1 < n"
  by (simp add: still_active_def mat_cfg_def mat_act_def)

definition mat_fresh :: "int \<Rightarrow> mem_store cstore option \<Rightarrow> mem_store maturation_manager" where
  "mat_fresh n st = new_maturation_manager (mat_cfg n) st"

lemma mat_fresh_simps: "mm_config (mat_fresh n st) = mat_cfg n" "mm_store (mat_fresh n st) = st" "mm_matured (mat_fresh n st) = []"
  "mc_enabled (mat_cfg n)" "quiesce_turns (mat_cfg n) = n" "max_hold_turns (mat_cfg n) = 9"
  by (simp_all add: mat_fresh_def new_maturation_manager_def mat_cfg_def)

lemma mat_first:
  "\<exists>c. apply_maturation memory_ops (\<lambda>_. u ''ab'') (\<lambda>_. None) 0 (mat_conv (u ''text'')) 0 (mat_fresh 1 None)
     = (Inr (mat_conv (mr_marker mat_read), c), mat_mgr)"
proof -
  have call: "fst (the (map_of (read_calls mat_act) (JStr (u ''r1'')))) = u ''a''" by (simp add: mat_act_def)
  have "\<exists>c1. handle_read memory_ops (\<lambda>_. u ''ab'') 0 mat_act (JStr (u ''r1'')) (u ''text'') (mat_fresh 1 None, no_counts)
      = ((Some (mr_marker mat_read), False), mat_mgr, c1)"
    using mat_read_plain(1) mat_active [of 1] call
    by (simp add: handle_read_def mat_fresh_simps Let_def) (simp add: mat_read_def mat_mgr_def mat_fresh_def new_maturation_manager_def)
  then obtain c1 where h: "handle_read memory_ops (\<lambda>_. u ''ab'') 0 mat_act (JStr (u ''r1'')) (u ''text'') (mat_fresh 1 None, no_counts)
      = ((Some (mr_marker mat_read), False), mat_mgr, c1)" by blast
  show ?thesis using mat_run [OF h, of "\<lambda>_. None"] by (simp add: mat_fresh_simps)
qed

theorem matured_read_is_replayed_witness:
  "\<exists>out0 c0 out c mgr2.
     apply_maturation memory_ops (\<lambda>_. u ''ab'') (\<lambda>_. None) 0 (mat_conv (u ''text'')) 0 (mat_fresh 1 None) = (Inr (out0, c0), mat_mgr)
     \<and> apply_maturation memory_ops (\<lambda>_. u ''cd'') (\<lambda>_. None) 9 (mat_conv (u ''text'')) 0 mat_mgr = (Inr (out, c), mgr2)
     \<and> tool_results (out0 ! 1) = [(JStr (u ''r1''), mr_marker mat_read)]
     \<and> tool_results (out ! 1) = [(JStr (u ''r1''), mr_marker mat_read)]"
proof -
  obtain c0 where run0: "apply_maturation memory_ops (\<lambda>_. u ''ab'') (\<lambda>_. None) 0 (mat_conv (u ''text'')) 0 (mat_fresh 1 None)
     = (Inr (mat_conv (mr_marker mat_read), c0), mat_mgr)" using mat_first by blast
  have hr: "\<exists>c1. handle_read memory_ops (\<lambda>_. u ''cd'') 9 mat_act (JStr (u ''r1'')) (u ''text'') (mat_mgr, no_counts)
      = ((Some (mr_marker mat_read), False), mat_mgr, c1)"
    using mat_marker_differs by (simp add: handle_read_def mat_mgr_def)
  have en: "mc_enabled (mm_config mat_mgr)" by (simp add: mat_mgr_def new_maturation_manager_def mat_cfg_def)
  obtain out c where run: "apply_maturation memory_ops (\<lambda>_. u ''cd'') (\<lambda>_. None) 9 (mat_conv (u ''text'')) 0 mat_mgr
      = (Inr (out, c), mat_mgr)"
    using mat_run hr en by blast
  have k: "map_of (read_calls mat_act) (JStr (u ''r1'')) \<noteq> None" by (simp add: mat_act_def)
  have tr: "tool_results (mat_conv t ! 1) = [(JStr (u ''r1''), t)]" for t
    by (simp add: mat_conv_def mat_result_def tool_results_def block_results_def)
  have l: "1 < length (mat_conv (u ''text''))" "0 < length (tool_results (mat_conv (u ''text'') ! 1))"
    by (simp_all add: mat_conv_def mat_result_def tool_results_def block_results_def)
  have "tool_results (mat_conv (u ''text'') ! 1) ! 0 = (JStr (u ''r1''), u ''text'')"
    "tool_results (mat_conv (mr_marker mat_read) ! 1) ! 0 = (JStr (u ''r1''), mr_marker mat_read)"
    unfolding tr by simp_all
  from matured_read_is_replayed [OF run0 mat_scan k l this mat_marker_differs(1) [symmetric] mat_mgr_later run mat_scan k,
      THEN conjunct2, rule_format, OF l(1)]
  have f: "map fst (tool_results (out ! 1)) = [JStr (u ''r1'')]"
    and a: "\<And>t. (JStr (u ''r1''), t) \<in> set (tool_results (out ! 1)) \<Longrightarrow> t = mr_marker mat_read"
    using tr [of "u ''text''"] by simp_all
  then have "tool_results (out ! 1) = [(JStr (u ''r1''), mr_marker mat_read)]"
    by (cases "tool_results (out ! 1)") auto
  with run0 run tr [of "mr_marker mat_read"] show ?thesis by blast
qed

theorem active_read_stays_verbatim_witness:
  "\<exists>out c mgr'. apply_maturation memory_ops (\<lambda>_. u ''ab'') (\<lambda>_. None) 0 (mat_conv (u ''text'')) 0 (mat_fresh 5 None) = (Inr (out, c), mgr')
     \<and> map_of (mm_matured mgr') (JStr (u ''r1'')) = None
     \<and> filter (\<lambda>(i, t). i = JStr (u ''r1'')) (tool_results (out ! 1)) = [(JStr (u ''r1''), u ''text'')]"
proof -
  have "\<exists>c1. handle_read memory_ops (\<lambda>_. u ''ab'') 0 mat_act (JStr (u ''r1'')) (u ''text'') (mat_fresh 5 None, no_counts)
      = ((None, True), mat_fresh 5 None, c1)"
    using mat_read_plain(1) mat_active [of 5] by (simp add: handle_read_def mat_fresh_simps)
  then obtain out c where "apply_maturation memory_ops (\<lambda>_. u ''ab'') (\<lambda>_. None) 0 (mat_conv (u ''text'')) 0 (mat_fresh 5 None)
      = (Inr (out, c), mat_fresh 5 None)"
    using mat_run mat_fresh_simps(1,4) by metis
  then have run: "apply_maturation memory_ops (\<lambda>_. u ''ab'') (\<lambda>_. None) 0 ([] @ mat_call # [mat_result (u ''text''), mat_reply]) 0 (mat_fresh 5 None)
      = (Inr (out, c), mat_fresh 5 None)"
    by (simp add: mat_conv_def)
  have scan: "scan_activity (\<lambda>_. None) ([] @ mat_call # [mat_result (u ''text''), mat_reply]) = Inr mat_act"
    using mat_scan by (simp add: mat_conv_def)
  have t: "touches (\<lambda>_. None) (u ''a'') mat_call"
    by (simp add: touches_def block_touches_def mat_call_def is_touch_tool_def touched_path_def)
  have n: "assistant_messages [mat_result (u ''text''), mat_reply] = 1" "assistant_messages ([] @ mat_call # [mat_result (u ''text''), mat_reply]) = 2"
    by (simp_all add: assistant_messages_def mat_call_def mat_result_def mat_reply_def)
  have call: "map_of (read_calls mat_act) (JStr (u ''r1'')) = Some (u ''a'', 1)" by (simp add: mat_act_def)
  have "map_of (mm_matured (mat_fresh 5 None)) (JStr (u ''r1'')) = None" by (simp add: mat_fresh_simps)
  note th = active_read_stays_verbatim [OF run _ this scan call t]
  have t1: "tool_results (mat_result (u ''text'')) = [(JStr (u ''r1''), u ''text'')]"
    by (simp add: mat_result_def tool_results_def block_results_def)
  have "length out = 3 \<and> filter (\<lambda>(i, t). i = JStr (u ''r1'')) (tool_results (out ! 1)) = [(JStr (u ''r1''), u ''text'')]"
    using th t1 n by (simp add: mat_fresh_simps)
  then show ?thesis using run by (intro exI [of _ out] exI [of _ c] exI [of _ "mat_fresh 5 None"]) (simp add: mat_conv_def mat_fresh_simps)
qed

theorem matured_markers_resolve_witness:
  "\<exists>out mgr' s' e s''. apply_maturation memory_ops (\<lambda>_. u ''ab'') (\<lambda>_. None) 0 (mat_conv (u ''text'')) 0 (mat_fresh 1 (Some demo_store0)) = (Inr out, mgr')
     \<and> map_of (mm_matured mgr') (JStr (u ''r1'')) = Some mat_read \<and> mm_store mgr' = Some s'
     \<and> retrieve memory_ops 0 s' (mr_hash mat_read) None = (Some e, s'')"
proof -
  let ?sha = "\<lambda>_::pystr. u ''ab''" and ?mgr = "mat_fresh 1 (Some demo_store0)"
  have reach: "reachable_store ?sha demo_store0" unfolding demo_store0_def by (rule reachable_store.start)
  have t: "take 24 (u ''ab'') = u ''ab''" by simp
  obtain s1 where s1: "store memory_ops ?sha 0 demo_store0 (maturation_args (u ''text'') (JStr (u ''r1''))) = (Inr (u ''ab''), s1)"
    using mem_store_result [OF reachable_store_inv [OF reach], of ?sha "maturation_args (u ''text'') (JStr (u ''r1''))" "u ''ab''" 0]
      mat_read_plain(2,3) t by (auto simp: maturation_args_def hash_key_of_def encoded_len_def split: if_splits)
  let ?mgr1 = "?mgr\<lparr>mm_store := Some s1, mm_matured := [(JStr (u ''r1''), mat_read)]\<rparr>"
  have call: "fst (the (map_of (read_calls mat_act) (JStr (u ''r1'')))) = u ''a''" by (simp add: mat_act_def)
  have "\<exists>c1. handle_read memory_ops ?sha 0 mat_act (JStr (u ''r1'')) (u ''text'') (?mgr, no_counts)
      = ((Some (mr_marker mat_read), False), ?mgr1, c1)"
    using mat_read_plain(1,2) mat_active [of 1] s1 call by (simp add: handle_read_def mat_fresh_simps Let_def mat_read_def)
  then obtain out where run: "apply_maturation memory_ops ?sha (\<lambda>_. None) 0 (mat_conv (u ''text'')) 0 ?mgr = (Inr out, ?mgr1)"
    using mat_run mat_fresh_simps(1,4) by metis
  have c: "0 \<le> default_ttl demo_store0"
    "int (mem_count (backend demo_store0)) + int (length (concat (map tool_results (mat_conv (u ''text''))))) \<le> max_entries demo_store0"
    "\<forall>(i, t) \<in> set (concat (map tool_results (mat_conv (u ''text'')))). \<not> is_bare_marker t"
    using mat_read_plain(3) by (simp_all add: mat_texts demo_store0_def new_store_def mem_defs del: map_concat)
  have st: "mm_store ?mgr = Some demo_store0" by (simp add: mat_fresh_simps)
  obtain s' where s': "mm_store ?mgr1 = Some s'" and all: "\<And>k x. map_of (mm_matured ?mgr1) k = Some x \<Longrightarrow> map_of (mm_matured ?mgr) k = Some x
    \<or> (\<exists>path e s''. mr_marker x = matured_marker path (mr_hash x)
         \<and> retrieve memory_ops 0 s' (mr_hash x) None = (Some e, s'') \<and> take 24 (?sha (original_content e)) = mr_hash x)"
    using matured_markers_resolve [OF run st reach c, of None] by blast
  have m: "map_of (mm_matured ?mgr1) (JStr (u ''r1'')) = Some mat_read" "map_of (mm_matured ?mgr) (JStr (u ''r1'')) = None"
    by (simp_all add: mat_fresh_simps)
  obtain e s'' where "retrieve memory_ops 0 s' (mr_hash mat_read) None = (Some e, s'')" using all [OF m(1)] m(2) by auto
  then show ?thesis using run m(1) s' by blast
qed

text \<open>Three requests: the first matures the read and books it, the second measures what it would book
  again, the third finds that figure in the table.\<close>

definition mat_tokens :: "pystr \<Rightarrow> int" where
  "mat_tokens t = (if t = u ''text'' then 9 else 2)"

lemma mat_debt:
  "replayed_token_debt ascii_ucd (\<lambda>_. []) mat_tokens (mat_conv (u ''text'')) (mat_conv (mr_marker mat_read)) mat_mgr
     = (0, mat_mgr\<lparr>mm_booked := [u ''r1'']\<rparr>)"
  "replayed_token_debt ascii_ucd (\<lambda>_. []) mat_tokens (mat_conv (u ''text'')) (mat_conv (mr_marker mat_read)) (mat_mgr\<lparr>mm_booked := [u ''r1'']\<rparr>)
     = (7, mat_mgr\<lparr>mm_booked := [u ''r1''], mm_deltas := [(u ''r1'', 7)]\<rparr>)"
  using mat_marker_differs
  by (simp_all add: replayed_token_debt_def iter_tool_results_def message_results_def mat_conv_def mat_call_def mat_result_def
      mat_reply_def str_id_def mat_mgr_def new_maturation_manager_def charge_result_def mat_tokens_def Let_def)

lemma mat_removed:
  assumes "mm_matured mgr = [(JStr (u ''r1''), mat_read)]"
  shows "removed_results ascii_ucd (\<lambda>_. []) mgr (mat_conv (u ''text'')) (mat_conv (mr_marker mat_read)) = [(u ''r1'', u ''text'')]"
  using mat_marker_differs assms
  by (simp add: removed_results_def iter_tool_results_def message_results_def mat_conv_def mat_call_def mat_result_def
      mat_reply_def str_id_def)

lemma mat_saving:
  assumes "mm_matured mgr = [(JStr (u ''r1''), mat_read)]"
  shows "removal_saving mat_tokens (\<lambda>_. u ''text'') mgr (u ''r1'') = 7"
  using mat_marker_differs assms by (auto simp: removal_saving_def mat_tokens_def)

lemma mat_matures:
  "\<exists>r. apply_maturation memory_ops (\<lambda>_. u ''ab'') (\<lambda>_. None) 0 (mat_conv (u ''text'')) 0 (mat_fresh 1 None) = (r, mat_mgr)"
proof -
  have t: "take 24 (u ''ab'') = u ''ab''" by simp
  have call: "fst (the (map_of (read_calls mat_act) (JStr (u ''r1'')))) = u ''a''" by (simp add: mat_act_def)
  have "\<exists>c1. handle_read memory_ops (\<lambda>_. u ''ab'') 0 mat_act (JStr (u ''r1'')) (u ''text'') (mat_fresh 1 None, no_counts)
      = ((Some (mr_marker mat_read), False), mat_mgr, c1)"
    using mat_read_plain(1) mat_active [of 1] call t
    by (simp add: handle_read_def mat_fresh_simps Let_def mat_read_def) (simp add: mat_fresh_def mat_mgr_def mat_read_def)
  then show ?thesis using mat_run mat_fresh_simps(1,4) by metis
qed

lemma mat_billed:
  "billed ascii_ucd (\<lambda>_. []) mat_tokens (\<lambda>_. u ''text'') (mat_mgr\<lparr>mm_booked := [u ''r1''], mm_deltas := [(u ''r1'', 7)]\<rparr>) 7 {u ''r1''}"
proof -
  have m: "mm_matured mat_mgr = [(JStr (u ''r1''), mat_read)]" "mm_matured (mat_mgr\<lparr>mm_booked := [u ''r1'']\<rparr>) = [(JStr (u ''r1''), mat_read)]"
    by (simp_all add: mat_mgr_def)
  have "billed ascii_ucd (\<lambda>_. []) mat_tokens (\<lambda>_. u ''text'') mat_mgr 0 {}"
    using billed.pass [OF billed.start] mat_matures unfolding mat_fresh_def by blast
  from billed.account [OF this mat_debt(1) mat_removed [OF m(1)]]
  have "billed ascii_ucd (\<lambda>_. []) mat_tokens (\<lambda>_. u ''text'') (mat_mgr\<lparr>mm_booked := [u ''r1'']\<rparr>) 7 {u ''r1''}"
    by (simp add: mat_saving [OF m(1)])
  from billed.account [OF this mat_debt(2) mat_removed [OF m(2)]]
  show ?thesis by (simp add: mat_saving [OF m(2)])
qed

theorem removal_books_once_witness:
  "(\<Sum>i \<in> {u ''r1''}. removal_saving mat_tokens (\<lambda>_. u ''text'') (mat_mgr\<lparr>mm_booked := [u ''r1''], mm_deltas := [(u ''r1'', 7)]\<rparr>) i) = 7"
  using removal_books_once [OF mat_billed] by simp

end
