(* ===== verification/Semantic_Cache.thy ===== *)
theory Semantic_Cache
  imports Json_Text
begin

text \<open>
  The response cache of the proxy: \<open>proxy/semantic_cache.py\<close>, the key policy
  \<open>proxy/semantic_cache_key_policy.py\<close> with the header names of
  \<open>proxy/internal_header_policy.py\<close> and the principal of \<open>proxy/identity.py\<close>, and the places in
  the two handlers that look a request up and store its reply. \<open>lower\<close> is \<open>str.lower\<close>, \<open>sha\<close> the
  SHA-256 hex digest of a text, \<open>mac\<close> the HMAC-SHA256 hex digest under the key of the process, \<open>F\<close>
  the text of a float, \<open>loads\<close> is \<open>json.loads\<close> on bytes (\<open>None\<close> for a \<open>ValueError\<close>). A header is a
  pair of name and value. Every method runs under the lock of the cache, so it is one step.
\<close>

datatype cache_error = ResolverRaised | UnresolvedPrincipal | CacheValueError | CacheKeyError

section \<open>Names of credential headers\<close>

definition credential_words :: "pystr list" where
  "credential_words = [u ''token'', u ''secret'', u ''password'', u ''passwd'', u ''credential'', u ''credentials'',
     u ''authorization'', u ''apikey'', u ''key'', u ''bearer'', u ''cookie'', u ''signature'']"

definition internal_prefix :: pystr where
  "internal_prefix = u ''x-headroom-''"

definition name_components :: "(pystr \<Rightarrow> pystr) \<Rightarrow> pystr \<Rightarrow> pystr list" where
  "name_components lower name =
     filter (\<lambda>p. p \<noteq> []) (split_on 45 (map (\<lambda>c. if c = 95 then 45 else c) (lower (strip name))))"

definition is_credential_tag_key :: "(pystr \<Rightarrow> pystr) \<Rightarrow> pystr \<Rightarrow> bool" where
  "is_credential_tag_key lower key =
     (let parts = name_components lower key;
          rest = (if take 2 parts = [u ''x'', u ''headroom''] then drop 2 parts else parts) in
      list_ex (\<lambda>p. p \<in> set credential_words) rest)"

definition normalise_name :: "(pystr \<Rightarrow> pystr) \<Rightarrow> pystr \<Rightarrow> pystr" where
  "normalise_name lower name = join (u ''-'') (name_components lower name)"

definition is_credential_header :: "(pystr \<Rightarrow> pystr) \<Rightarrow> pystr \<Rightarrow> bool" where
  "is_credential_header lower name =
     (let n = normalise_name lower name in
      n = u ''x-headroom-proxy-token''
      \<or> n \<in> set [u ''authorization'', u ''proxy-authorization'', u ''cookie'', u ''api-key'', u ''x-api-key'']
      \<or> (startswith n internal_prefix \<and> is_credential_tag_key lower n))"

datatype strip_mode = StripEnabled | StripDisabled

definition resolve_strip_internal_headers_mode :: "(pystr \<Rightarrow> pystr) \<Rightarrow> pystr option \<Rightarrow> cache_error + strip_mode" where
  "resolve_strip_internal_headers_mode lower raw =
     (let n = lower (strip (case raw of None \<Rightarrow> [] | Some s \<Rightarrow> s)) in
      if n = [] \<or> n = u ''enabled'' then Inr StripEnabled
      else if n = u ''disabled'' then Inr StripDisabled
      else Inl CacheValueError)"

definition strip_internal_headers :: "(pystr \<Rightarrow> pystr) \<Rightarrow> strip_mode \<Rightarrow> (pystr \<times> pystr) list \<Rightarrow> (pystr \<times> pystr) list" where
  "strip_internal_headers lower mode headers =
     (case mode of
        StripDisabled \<Rightarrow> headers
      | StripEnabled \<Rightarrow> filter (\<lambda>(k, v). \<not> startswith (lower k) internal_prefix) headers)"

section \<open>The partition of a caller\<close>

text \<open>The regular expression \<open>_CREDENTIAL_HEADER_RE\<close>; \<open>$\<close> also matches before a final newline.\<close>

definition credential_endings :: "pystr list" where
  "credential_endings = [u ''api-key'', u ''api_key'', u ''apikey'', u ''key'', u ''token'', u ''secret'', u ''account'',
     u ''account-id'', u ''account_id'', u ''organization'', u ''project'']"

definition ends_in_word :: "pystr \<Rightarrow> pystr \<Rightarrow> bool" where
  "ends_in_word s w \<longleftrightarrow> endswith s w \<and>
     (let p = take (length s - length w) s in p = [] \<or> last p \<in> {45, 95})"

definition has_credential_ending :: "pystr \<Rightarrow> bool" where
  "has_credential_ending s \<longleftrightarrow> list_ex (ends_in_word s) credential_endings
     \<or> (s \<noteq> [] \<and> last s = newline \<and> list_ex (ends_in_word (butlast s)) credential_endings)"

definition is_caller_credential :: "(pystr \<Rightarrow> pystr) \<Rightarrow> pystr \<Rightarrow> bool" where
  "is_caller_credential lower name =
     (let l = lower name in
      if startswith l internal_prefix \<or> l \<in> set [u ''idempotency-key'', u ''x-idempotency-key''] then False
      else is_credential_header lower l \<or> has_credential_ending l)"

definition partition_material :: "(pystr \<Rightarrow> pystr) \<Rightarrow> (pystr \<times> pystr) list \<Rightarrow> pystr option \<Rightarrow> (pystr \<times> pystr) list" where
  "partition_material lower headers who =
     map (\<lambda>(n, v). (u ''h:'' @ lower n, strip v)) (filter (\<lambda>(n, v). v \<noteq> [] \<and> is_caller_credential lower n) headers)
     @ (case who of Some (c # p) \<Rightarrow> [(u ''principal'', c # p)] | _ \<Rightarrow> [])"

definition material_text :: "(pystr \<times> pystr) list \<Rightarrow> pystr" where
  "material_text material = json_text True (\<lambda>_. []) (JList (map (\<lambda>(a, b). JList [JStr a, JStr b]) (sort material)))"

definition compute_cache_partition ::
    "(pystr \<Rightarrow> pystr) \<Rightarrow> (pystr \<Rightarrow> pystr) \<Rightarrow> (pystr \<times> pystr) list \<Rightarrow> pystr option \<Rightarrow> pystr" where
  "compute_cache_partition lower mac headers who =
     (let material = partition_material lower headers who in
      if material = [] then u ''anon'' else u ''p_'' @ take 32 (mac (material_text material)))"

text \<open>The identity resolver of an extension: it raises, or answers with a principal or none.\<close>

type_synonym 'r resolver = "('r \<Rightarrow> unit + pystr option) option"

definition resolve_authenticated_principal :: "'r resolver \<Rightarrow> 'r \<Rightarrow> cache_error + pystr option" where
  "resolve_authenticated_principal resolver request =
     (case resolver of
        None \<Rightarrow> Inr None
      | Some f \<Rightarrow>
          (case f request of
             Inl _ \<Rightarrow> Inl ResolverRaised
           | Inr (Some (c # p)) \<Rightarrow> Inr (Some (c # p))
           | Inr _ \<Rightarrow> Inl UnresolvedPrincipal))"

definition compute_request_cache_partition ::
    "(pystr \<Rightarrow> pystr) \<Rightarrow> (pystr \<Rightarrow> pystr) \<Rightarrow> 'r resolver \<Rightarrow> 'r \<Rightarrow> (pystr \<times> pystr) list \<Rightarrow> pystr option" where
  "compute_request_cache_partition lower mac resolver request headers =
     (case resolve_authenticated_principal resolver request of
        Inl _ \<Rightarrow> None
      | Inr who \<Rightarrow> Some (compute_cache_partition lower mac headers who))"

section \<open>The key of a request\<close>

fun strip_cc :: "bool \<Rightarrow> json \<Rightarrow> json" and strip_cc_items :: "json list \<Rightarrow> json list"
  and strip_cc_fields :: "bool \<Rightarrow> pydict \<Rightarrow> pydict" where
  "strip_cc preserve_key (JObj d) = JObj (strip_cc_fields preserve_key d)"
| "strip_cc preserve_key (JList xs) = JList (strip_cc_items xs)"
| "strip_cc preserve_key v = v"
| "strip_cc_items [] = []"
| "strip_cc_items (x # xs) = strip_cc False x # strip_cc_items xs"
| "strip_cc_fields preserve_key [] = []"
| "strip_cc_fields preserve_key ((k, v) # d) =
     (if k \<noteq> u ''cache_control'' \<or> preserve_key then [(k, strip_cc (k = u ''properties'') v)] else [])
     @ strip_cc_fields preserve_key d"

definition strip_cache_annotations :: "json \<Rightarrow> json" where
  "strip_cache_annotations v = strip_cc False v"

text \<open>What a handler passes to the cache. \<open>cq_fields\<close> are the keyword arguments, whose names differ from
  each other and from the parameters.\<close>

record cache_request =
  cq_partition :: pystr
  cq_model :: json
  cq_messages :: "json list"
  cq_fields :: pydict

definition key_object :: "cache_request \<Rightarrow> json" where
  "key_object q = JObj (foldl (\<lambda>d (k, v). AList.update k (strip_cache_annotations v) d)
     [(u ''partition'', JStr (cq_partition q)), (u ''model'', cq_model q),
      (u ''messages'', strip_cache_annotations (JList (cq_messages q)))] (cq_fields q))"

definition key_text :: "(rat \<Rightarrow> pystr) \<Rightarrow> cache_request \<Rightarrow> pystr" where
  "key_text F q = dumps_text F (sort_keys (key_object q))"

definition compute_semantic_cache_key :: "(pystr \<Rightarrow> pystr) \<Rightarrow> (rat \<Rightarrow> pystr) \<Rightarrow> cache_request \<Rightarrow> cache_error + pystr" where
  "compute_semantic_cache_key sha F q =
     (if cq_partition q = [] then Inl CacheValueError else Inr (take 32 (sha (key_text F q))))"

section \<open>The cache\<close>

record reply_entry =
  response_body :: "nat list"
  response_headers :: "(pystr \<times> pystr) list"
  created_at :: real
  entry_ttl :: int
  hit_count :: nat
  tokens_saved_per_hit :: int

record semantic_cache =
  sc_max_entries :: int
  sc_ttl_seconds :: int
  sc_entries :: "(pystr, reply_entry) odict"

definition new_semantic_cache :: "int \<Rightarrow> int \<Rightarrow> semantic_cache" where
  "new_semantic_cache mx ttl = \<lparr>sc_max_entries = mx, sc_ttl_seconds = ttl, sc_entries = []\<rparr>"

definition is_cacheable_reply :: "(nat list \<Rightarrow> json option) \<Rightarrow> nat list \<Rightarrow> bool" where
  "is_cacheable_reply loads body =
     (if body = [] then False
      else case loads body of
             None \<Rightarrow> True
           | Some (JObj d) \<Rightarrow> d \<noteq> [] \<and> dget d ''type'' \<noteq> JStr (u ''error'') \<and> dget d ''error'' = JNull
           | Some _ \<Rightarrow> False)"

definition cache_get ::
    "(pystr \<Rightarrow> pystr) \<Rightarrow> (rat \<Rightarrow> pystr) \<Rightarrow> real \<Rightarrow> cache_request \<Rightarrow> semantic_cache
       \<Rightarrow> (cache_error + reply_entry option) \<times> semantic_cache" where
  "cache_get sha F now q sc =
     (case compute_semantic_cache_key sha F q of
        Inl e \<Rightarrow> (Inl e, sc)
      | Inr key \<Rightarrow>
          (case map_of (sc_entries sc) key of
             None \<Rightarrow> (Inr None, sc)
           | Some entry \<Rightarrow>
               if now - created_at entry > real_of_int (entry_ttl entry)
               then (Inr None, sc\<lparr>sc_entries := AList.delete key (sc_entries sc)\<rparr>)
               else
                 let entry' = entry\<lparr>hit_count := Suc (hit_count entry)\<rparr> in
                 (Inr (Some entry'), sc\<lparr>sc_entries := move_to_end key (AList.update key entry' (sc_entries sc))\<rparr>)))"

text \<open>\<open>while len(d) >= n: d.popitem(last=False)\<close>; popping from an empty dictionary is a \<open>KeyError\<close>.\<close>

fun make_room :: "int \<Rightarrow> ('k, 'v) odict \<Rightarrow> ('k, 'v) odict option" where
  "make_room n [] = (if n \<le> 0 then None else Some [])"
| "make_room n (p # d) = (if n \<le> int (length (p # d)) then make_room n d else Some (p # d))"

definition cache_set ::
    "(pystr \<Rightarrow> pystr) \<Rightarrow> (rat \<Rightarrow> pystr) \<Rightarrow> (nat list \<Rightarrow> json option) \<Rightarrow> real \<Rightarrow> cache_request \<Rightarrow> nat list
       \<Rightarrow> (pystr \<times> pystr) list \<Rightarrow> int \<Rightarrow> semantic_cache \<Rightarrow> (cache_error + unit) \<times> semantic_cache" where
  "cache_set sha F loads now q body headers saved sc =
     (case compute_semantic_cache_key sha F q of
        Inl e \<Rightarrow> (Inl e, sc)
      | Inr key \<Rightarrow>
          if \<not> is_cacheable_reply loads body then (Inr (), sc)
          else
            (case make_room (sc_max_entries sc) (AList.delete key (sc_entries sc)) of
               None \<Rightarrow> (Inl CacheKeyError, sc\<lparr>sc_entries := []\<rparr>)
             | Some d \<Rightarrow>
                 (Inr (), sc\<lparr>sc_entries := AList.update key
                    \<lparr>response_body = body, response_headers = headers, created_at = now, entry_ttl = sc_ttl_seconds sc,
                     hit_count = 0, tokens_saved_per_hit = saved\<rparr> d\<rparr>)))"

definition cache_clear :: "semantic_cache \<Rightarrow> semantic_cache" where
  "cache_clear sc = sc\<lparr>sc_entries := []\<rparr>"

text \<open>\<open>stats\<close>: entries, capacity, hits and time to live.\<close>

definition reply_cache_stats :: "semantic_cache \<Rightarrow> nat \<times> int \<times> nat \<times> int" where
  "reply_cache_stats sc =
     (length (sc_entries sc), sc_max_entries sc, sum_list (map (hit_count \<circ> snd) (sc_entries sc)), sc_ttl_seconds sc)"

section \<open>The handlers\<close>

definition py_or :: "json \<Rightarrow> json \<Rightarrow> json" where
  "py_or a b = (if truthy a then a else b)"

definition anthropic_key_fields :: "json \<Rightarrow> pydict \<Rightarrow> pydict" where
  "anthropic_key_fields upstream_base_url body =
     [(u ''upstream_base_url'', upstream_base_url), (u ''system'', dget body ''system''), (u ''tools'', dget body ''tools''),
      (u ''tool_choice'', dget body ''tool_choice''), (u ''temperature'', dget body ''temperature''),
      (u ''top_p'', dget body ''top_p''), (u ''top_k'', dget body ''top_k''), (u ''max_tokens'', dget body ''max_tokens''),
      (u ''stop'', dget body ''stop_sequences''), (u ''thinking'', dget body ''thinking''),
      (u ''output_config'', dget body ''output_config'')]"

definition openai_key_fields :: "json \<Rightarrow> pydict \<Rightarrow> pydict" where
  "openai_key_fields upstream_base_url body =
     [(u ''upstream_base_url'', upstream_base_url), (u ''tools'', dget body ''tools''),
      (u ''tool_choice'', dget body ''tool_choice''), (u ''response_format'', dget body ''response_format''),
      (u ''parallel_tool_calls'', dget body ''parallel_tool_calls''), (u ''temperature'', dget body ''temperature''),
      (u ''top_p'', dget body ''top_p''),
      (u ''max_tokens'', py_or (dget body ''max_tokens'') (dget body ''max_completion_tokens'')),
      (u ''stop'', dget body ''stop''), (u ''seed'', dget body ''seed''),
      (u ''presence_penalty'', dget body ''presence_penalty''), (u ''frequency_penalty'', dget body ''frequency_penalty''),
      (u ''logit_bias'', dget body ''logit_bias''), (u ''n'', dget body ''n''), (u ''logprobs'', dget body ''logprobs''),
      (u ''top_logprobs'', dget body ''top_logprobs''), (u ''reasoning_effort'', dget body ''reasoning_effort''),
      (u ''verbosity'', dget body ''verbosity''), (u ''modalities'', dget body ''modalities'')]"

text \<open>A request is looked up, and its reply stored, only when it is not streamed and the partition of the
  caller is known. (The Anthropic handler also asks that it could decode the reply.)\<close>

definition handler_request :: "pystr \<Rightarrow> json \<Rightarrow> json list \<Rightarrow> pydict \<Rightarrow> cache_request" where
  "handler_request part model messages kwargs =
     \<lparr>cq_partition = part, cq_model = model, cq_messages = messages, cq_fields = kwargs\<rparr>"

definition handler_lookup ::
    "(pystr \<Rightarrow> pystr) \<Rightarrow> (rat \<Rightarrow> pystr) \<Rightarrow> real \<Rightarrow> bool \<Rightarrow> pystr option \<Rightarrow> json \<Rightarrow> json list \<Rightarrow> pydict \<Rightarrow> semantic_cache
       \<Rightarrow> (cache_error + reply_entry option) \<times> semantic_cache" where
  "handler_lookup sha F now stream part model messages kwargs sc =
     (case part of
        Some p \<Rightarrow> if stream then (Inr None, sc) else cache_get sha F now (handler_request p model messages kwargs) sc
      | None \<Rightarrow> (Inr None, sc))"

definition handler_store ::
    "(pystr \<Rightarrow> pystr) \<Rightarrow> (rat \<Rightarrow> pystr) \<Rightarrow> (nat list \<Rightarrow> json option) \<Rightarrow> real \<Rightarrow> bool \<Rightarrow> pystr option \<Rightarrow> int \<Rightarrow> json
       \<Rightarrow> json list \<Rightarrow> pydict \<Rightarrow> nat list \<Rightarrow> (pystr \<times> pystr) list \<Rightarrow> int \<Rightarrow> semantic_cache
       \<Rightarrow> (cache_error + unit) \<times> semantic_cache" where
  "handler_store sha F loads now stream part status model messages kwargs body headers saved sc =
     (case part of
        Some p \<Rightarrow>
          if stream \<or> status \<noteq> 200 then (Inr (), sc)
          else cache_set sha F loads now (handler_request p model messages kwargs) body headers saved sc
      | None \<Rightarrow> (Inr (), sc))"

end
