(* ===== verification/Json_Text_Props.thy ===== *)
theory Json_Text_Props
  imports Json_Text
begin

text \<open>
  A JSON text determines its value. The locale \<open>json_writer\<close> is about any writer of the shape of
  \<open>json.dumps\<close> that escapes what is not ASCII; it is interpreted by the compact writer and by the
  one with the default separators. Two conditions are needed. A float is written as no integer is, and
  differently from other floats. A string has no high surrogate next to a low one: \<open>json.loads\<close> never
  makes such a string, and \<open>json.dumps\<close> writes it as the single character they encode.
\<close>

section \<open>Numbers\<close>

definition number_char :: "nat \<Rightarrow> bool" where
  "number_char c \<longleftrightarrow> 48 \<le> c \<and> c \<le> 57 \<or> c \<in> {43, 45, 46, 101}"

definition float_repr_ok :: "(rat \<Rightarrow> pystr) \<Rightarrow> bool" where
  "float_repr_ok F \<longleftrightarrow> inj F \<and> (\<forall>f. (\<forall>c \<in> set (F f). number_char c) \<and> (\<exists>c \<in> set (F f). c \<in> {46, 101}))"

definition terminated :: "pystr \<Rightarrow> bool" where
  "terminated r \<longleftrightarrow> (case r of [] \<Rightarrow> True | c # _ \<Rightarrow> c \<in> {44, 93, 125})"

lemma terminated_simps [simp]: "terminated []" "terminated (c # r) \<longleftrightarrow> c \<in> {44, 93, 125}"
  by (simp_all add: terminated_def)

lemma show_int_chars: "c \<in> set (show_int i) \<Longrightarrow> 48 \<le> c \<and> c \<le> 57 \<or> c = 45"
  using show_nat_digits by (auto simp: show_int_def split: if_splits)

lemma show_int_inject: "show_int i = show_int j \<Longrightarrow> i = j"
proof -
  assume eq: "show_int i = show_int j"
  have no: "show_nat n \<noteq> 45 # xs" for n xs using show_nat_digits [of 45 n] by auto
  show ?thesis
    using eq no show_nat_inject [of "nat (- i)" "nat (- j)"] show_nat_inject [of "nat i" "nat j"]
    by (auto simp: show_int_def split: if_splits) (metis no)+
qed

lemma takeWhile_number:
  assumes "\<forall>c \<in> set a. number_char c" and "terminated r"
  shows "takeWhile number_char (a @ r) = a"
  using assms by (cases r) (auto simp: number_char_def takeWhile_append2 takeWhile_tail)

lemma number_split:
  assumes "a @ r = b @ r'" and "\<forall>c \<in> set a. number_char c" "\<forall>c \<in> set b. number_char c" and "terminated r" "terminated r'"
  shows "a = b \<and> r = r'"
  using takeWhile_number assms by (metis append_same_eq same_append_eq)

section \<open>Strings\<close>

definition utf16 :: "nat \<Rightarrow> nat list" where
  "utf16 c = (if c < 65536 then [c] else [55296 + (c - 65536) div 1024, 56320 + (c - 65536) mod 1024])"

lemma utf16_simps:
  "c < 65536 \<Longrightarrow> utf16 c = [c]"
  "\<not> c < 65536 \<Longrightarrow> utf16 c = [55296 + (c - 65536) div 1024, 56320 + (c - 65536) mod 1024]"
  by (simp_all add: utf16_def)

fun str_ok :: "pystr \<Rightarrow> bool" where
  "str_ok [] \<longleftrightarrow> True"
| "str_ok (c # s) \<longleftrightarrow> c < 1114112 \<and> str_ok s
     \<and> \<not> (55296 \<le> c \<and> c < 56320 \<and> (case s of [] \<Rightarrow> False | d # _ \<Rightarrow> 56320 \<le> d \<and> d < 57344))"

lemma utf16_units: "c < 1114112 \<Longrightarrow> w \<in> set (utf16 c) \<Longrightarrow> w < 65536"
  by (auto simp: utf16_def split: if_splits)

lemma utf16_inject:
  assumes "concat (map utf16 s) = concat (map utf16 t)" and "str_ok s" and "str_ok t"
  shows "s = t"
  using assms
proof (induction s arbitrary: t)
  case Nil
  then show ?case by (cases t) (auto simp: utf16_def split: if_splits)
next
  case (Cons c s)
  then obtain d t' where t: "t = d # t'" by (cases t) (auto simp: utf16_def split: if_splits)
  have pair: False
    if "65536 \<le> a" "a < 1114112" "b < 65536" "str_ok (b # y)" "utf16 a @ x = utf16 b @ concat (map utf16 y)" for a b x y
  proof -
    have b: "b = 55296 + (a - 65536) div 1024" and y: "concat (map utf16 y) = (56320 + (a - 65536) mod 1024) # x"
      using that by (auto simp: utf16_def)
    have hi: "55296 \<le> b" "b < 56320" using that(1,2) b by auto
    obtain e y' where e: "y = e # y'" using y by (cases y) auto
    have f: "56320 + (a - 65536) mod 1024 = (if e < 65536 then e else 55296 + (e - 65536) div 1024)"
      using y by (auto simp: e utf16_def split: if_splits)
    have "e < 1114112" using that(4) by (simp add: e)
    then have "(e - 65536) div 1024 < 1024" by (simp add: less_mult_imp_div_less)
    then have "e < 65536" using f by (cases "e < 65536") simp_all
    moreover have "(a - 65536) mod 1024 < 1024" by simp
    ultimately have "56320 \<le> e \<and> e < 57344" using f by simp
    then show False using that(4) hi by (simp add: e)
  qed
  show ?case
  proof (cases "c < 65536")
    case True
    have "utf16 d @ concat (map utf16 t') = utf16 c @ concat (map utf16 s)" using Cons.prems(1) by (simp add: t)
    then have "d < 65536" using pair [of d c s] True Cons.prems(2,3) by (cases "d < 65536") (auto simp: t)
    with True have "c = d \<and> concat (map utf16 s) = concat (map utf16 t')" using Cons.prems(1) by (simp add: t utf16_simps)
    then show ?thesis using Cons.IH [of t'] Cons.prems(2,3) by (simp add: t)
  next
    case False
    have "utf16 c @ concat (map utf16 s) = utf16 d @ concat (map utf16 t')" using Cons.prems(1) by (simp add: t)
    then have nd: "\<not> d < 65536" using pair [of c d t'] False Cons.prems(2,3) by (cases "d < 65536") (auto simp: t)
    then have "(c - 65536) div 1024 = (d - 65536) div 1024 \<and> (c - 65536) mod 1024 = (d - 65536) mod 1024
        \<and> concat (map utf16 s) = concat (map utf16 t')"
      using Cons.prems(1) False nd by (simp add: t utf16_simps)
    moreover from this have "c - 65536 = d - 65536" by (metis div_mult_mod_eq)
    ultimately have "c = d \<and> concat (map utf16 s) = concat (map utf16 t')" using False nd by simp
    then show ?thesis using Cons.IH [of t'] Cons.prems(2,3) by (simp add: t)
  qed
qed

lemma length_hex_padded [simp]: "length (hex_padded w c) = w"
  by (induction w arbitrary: c) auto

lemma hex_digit_inject: "a < 16 \<Longrightarrow> b < 16 \<Longrightarrow> hex_digit a = hex_digit b \<Longrightarrow> a = b"
  by (auto simp: hex_digit_def split: if_splits)

lemma hex_padded_inject: "hex_padded w c = hex_padded w d \<Longrightarrow> c < 16 ^ w \<Longrightarrow> d < 16 ^ w \<Longrightarrow> c = d"
proof (induction w arbitrary: c d)
  case (Suc w)
  have "c div 16 = d div 16" by (rule Suc.IH) (use Suc.prems in \<open>auto simp: less_mult_imp_div_less\<close>)
  moreover have "c mod 16 = d mod 16" using Suc.prems(1) hex_digit_inject [of "c mod 16" "d mod 16"] by simp
  ultimately show ?case by (metis div_mult_mod_eq)
qed simp

text \<open>The escape of one code unit; what follows can be told from it.\<close>

lemma escape_utf16: "c < 1114112 \<Longrightarrow> escape_char True c = concat (map (escape_char True) (utf16 c))"
proof (cases "c < 65536")
  case False
  assume "c < 1114112"
  then have "(c - 65536) div 1024 < 1024" by (simp add: less_mult_imp_div_less)
  then show ?thesis using False by (simp add: utf16_def escape_char_def)
qed (simp add: utf16_def)

lemma escape_start: "escape_char True w = x # xs \<Longrightarrow> x \<noteq> 34"
  by (auto simp: escape_char_def split: if_splits)

lemma escape_nonempty [simp]: "escape_char a w \<noteq> []"
  by (simp add: escape_char_def)

text \<open>The three forms: the character itself, a short escape, or four hexadecimal digits.\<close>

definition short_escape :: "nat \<Rightarrow> nat option" where
  "short_escape v = map_of [(34, 34), (92, 92), (8, 98), (12, 102), (10, 110), (13, 114), (9, 116)] v"

lemma escape_char_eq:
  assumes "v < 65536"
  shows "escape_char True v = (case short_escape v of Some c \<Rightarrow> [92, c]
    | None \<Rightarrow> if v < 32 \<or> 127 \<le> v then [92, 117] @ hex_padded 4 v else [v])"
  using assms by (simp add: escape_char_def short_escape_def)

lemma short_escape_Some: "short_escape v = Some c \<Longrightarrow> c \<noteq> 117"
  by (simp add: short_escape_def split: if_splits)

lemma short_escape_inject: "short_escape v = Some c \<Longrightarrow> short_escape w = Some c \<Longrightarrow> v = w"
  by (simp add: short_escape_def split: if_splits)

lemma escape_cases:
  assumes "v < 65536"
  obtains (plain) "escape_char True v = [v]" "v \<noteq> 92"
  | (short) c where "escape_char True v = [92, c]" "short_escape v = Some c" "c \<noteq> 117"
  | (hex) "escape_char True v = [92, 117] @ hex_padded 4 v"
proof (cases "short_escape v")
  case None
  then have "v \<noteq> 92" by (auto simp: short_escape_def)
  then show ?thesis using None plain hex escape_char_eq [OF assms] by (cases "v < 32 \<or> 127 \<le> v") auto
next
  case (Some c)
  then show ?thesis using short escape_char_eq [OF assms] short_escape_Some by simp
qed

lemma escape_split:
  assumes "escape_char True v @ r = escape_char True w @ r'" and "v < 65536" and "w < 65536"
  shows "v = w \<and> r = r'"
  using assms(2)
proof (cases rule: escape_cases)
  case plain
  from assms(3) show ?thesis by (cases rule: escape_cases) (use plain assms(1) in auto)
next
  case (short c)
  from assms(3) show ?thesis
  proof (cases rule: escape_cases)
    case plain
    then show ?thesis using short assms(1) by auto
  next
    case (short d)
    then have "c = d" "r = r'" using \<open>escape_char True v = [92, c]\<close> assms(1) by auto
    then show ?thesis using short_escape_inject \<open>short_escape v = Some c\<close> short(2) by blast
  next
    case hex
    then show ?thesis using short assms(1) by auto
  qed
next
  case hex
  from assms(3) show ?thesis
  proof (cases rule: escape_cases)
    case plain
    then show ?thesis using hex assms(1) by auto
  next
    case (short d)
    then show ?thesis using hex assms(1) by auto
  next
    case h: hex
    have "hex_padded 4 v @ r = hex_padded 4 w @ r'" using assms(1) hex h by simp
    then have "hex_padded 4 v = hex_padded 4 w \<and> r = r'" by (simp add: append_eq_append_conv)
    then show ?thesis using hex_padded_inject [of 4 v w] assms(2,3) by simp
  qed
qed

lemma units_split:
  assumes "concat (map (escape_char True) vs) @ 34 # r = concat (map (escape_char True) ws) @ 34 # r'"
    and "\<forall>v \<in> set vs. v < 65536" and "\<forall>w \<in> set ws. w < 65536"
  shows "vs = ws \<and> r = r'"
  using assms
proof (induction vs arbitrary: ws)
  case Nil
  then show ?case
  proof (cases ws)
    case (Cons w ws')
    obtain x xs where "escape_char True w = x # xs" by (cases "escape_char True w") auto
    then show ?thesis using Nil.prems(1) escape_start Cons by auto
  qed simp
next
  case (Cons v vs)
  show ?case
  proof (cases ws)
    case Nil
    obtain x xs where "escape_char True v = x # xs" by (cases "escape_char True v") auto
    then show ?thesis using Cons.prems(1) escape_start Nil by auto
  next
    case ws: (Cons w ws')
    have "v = w \<and> concat (map (escape_char True) vs) @ 34 # r = concat (map (escape_char True) ws') @ 34 # r'"
      using escape_split [of v "concat (map (escape_char True) vs) @ 34 # r" w] Cons.prems by (simp add: ws)
    then show ?thesis using Cons.IH [of ws'] Cons.prems(2,3) by (simp add: ws)
  qed
qed

lemma str_ok_below: "str_ok s \<Longrightarrow> c \<in> set s \<Longrightarrow> c < 1114112"
  by (induction s) auto

lemma json_string_units:
  assumes "str_ok s"
  shows "json_string True s = 34 # concat (map (escape_char True) (concat (map utf16 s))) @ [34]"
proof -
  have "concat (map (escape_char True) s) = concat (map (escape_char True) (concat (map utf16 s)))"
    using str_ok_below [OF assms] escape_utf16 by (induction s) auto
  then show ?thesis by (simp add: json_string_def)
qed

lemma json_string_split:
  assumes "json_string True s @ r = json_string True t @ r'" and "str_ok s" and "str_ok t"
  shows "s = t \<and> r = r'"
proof -
  have "concat (map utf16 s) = concat (map utf16 t) \<and> r = r'"
    by (rule units_split) (use assms str_ok_below utf16_units in \<open>auto simp: json_string_units\<close>)
  then show ?thesis using utf16_inject assms(2,3) by blast
qed

section \<open>Values\<close>

fun json_ok :: "json \<Rightarrow> bool" where
  "json_ok (JStr s) \<longleftrightarrow> str_ok s"
| "json_ok (JList xs) \<longleftrightarrow> (\<forall>x \<in> set xs. json_ok x)"
| "json_ok (JObj d) \<longleftrightarrow> (\<forall>(k, v) \<in> set d. str_ok k \<and> json_ok v)"
| "json_ok _ \<longleftrightarrow> True"

text \<open>A sequence of texts, separated by commas and closed by a bracket.\<close>

lemma join_split:
  assumes "join (44 # sep) (map f xs) @ c # r = join (44 # sep) (map f ys) @ c # r'"
    and "\<And>x y t t'. x \<in> set xs \<Longrightarrow> y \<in> set ys \<Longrightarrow> f x @ t = f y @ t' \<Longrightarrow> terminated t \<Longrightarrow> terminated t' \<Longrightarrow> x = y \<and> t = t'"
    and "\<And>x. x \<in> set xs \<union> set ys \<Longrightarrow> f x \<noteq> [] \<and> hd (f x) \<noteq> c" and "c \<in> {93, 125}"
  shows "xs = ys \<and> r = r'"
  using assms
proof (induction xs arbitrary: ys)
  case Nil
  show ?case
  proof (cases ys)
    case (Cons y ys')
    obtain z zs where y: "f y = z # zs" "z \<noteq> c" using Nil.prems(3) [of y] Cons by (cases "f y") auto
    have "join (44 # sep) (map f ys) @ c # r' = z # (case ys' of [] \<Rightarrow> zs | _ \<Rightarrow> zs @ 44 # sep @ join (44 # sep) (map f ys')) @ c # r'"
      using y Cons by (cases ys') auto
    then show ?thesis using Nil.prems(1) y(2) by simp
  qed (use Nil.prems(1) in simp)
next
  case (Cons x xs)
  define tl where "tl zs = (case zs of [] \<Rightarrow> [] | _ \<Rightarrow> 44 # sep @ join (44 # sep) (map f zs))" for zs
  have j: "join (44 # sep) (map f (z # zs)) = f z @ tl zs" for z zs by (cases zs) (auto simp: tl_def)
  have t: "terminated (tl zs @ c # q)" for zs q using Cons.prems(4) by (cases zs) (auto simp: tl_def)
  show ?case
  proof (cases ys)
    case Nil
    obtain z zs where "f x = z # zs" "z \<noteq> c" using Cons.prems(3) [of x] by (cases "f x") auto
    then show ?thesis using Cons.prems(1) Nil unfolding j by simp
  next
    case ys: (Cons y ys')
    have "f x @ tl xs @ c # r = f y @ tl ys' @ c # r'" using Cons.prems(1) by (simp only: ys j append.assoc)
    then have eq: "x = y" "tl xs @ c # r = tl ys' @ c # r'"
      using Cons.prems(2) [OF _ _ _ t t, of x y xs r ys' r'] ys by auto
    have tl: "xs \<noteq> [] \<longleftrightarrow> ys' \<noteq> []" using eq(2) Cons.prems(4) by (cases xs; cases ys') (auto simp: tl_def)
    have "xs = ys' \<and> r = r'"
    proof (cases "xs = []")
      case True
      then show ?thesis using tl eq(2) by (simp add: tl_def)
    next
      case False
      then have "join (44 # sep) (map f xs) @ c # r = join (44 # sep) (map f ys') @ c # r'"
        using tl eq(2) by (cases xs; cases ys') (auto simp: tl_def)
      then show ?thesis by (rule Cons.IH) (use Cons.prems(2-4) ys in auto)
    qed
    then show ?thesis using eq(1) ys by simp
  qed
qed

locale json_writer =
  fixes render :: "json \<Rightarrow> pystr" and F :: "rat \<Rightarrow> pystr" and sep :: pystr and colon :: pystr
  assumes text_atoms: "render JNull = u ''null''" "render (JBool b) = (if b then u ''true'' else u ''false'')"
      "render (JInt i) = show_int i" "render (JFloat f) = F f" "render (JStr s) = json_string True s"
    and text_list: "render (JList xs) = 91 # join (44 # sep) (map render xs) @ [93]"
    and text_dict: "render (JObj d) = 123 # join (44 # sep) (map (\<lambda>(k, v). json_string True k @ colon @ render v) d) @ [125]"
begin

lemma number_chars:
  "\<forall>c \<in> set (show_int i). number_char c" "show_int i \<noteq> []"
  "float_repr_ok F \<Longrightarrow> \<forall>c \<in> set (F f). number_char c" "float_repr_ok F \<Longrightarrow> F f \<noteq> []"
proof -
  show "\<forall>c \<in> set (show_int i). number_char c" using show_int_chars [of _ i] by (auto simp: number_char_def)
  show "show_int i \<noteq> []" by (simp add: show_int_def)
  assume fl: "float_repr_ok F"
  then show "\<forall>c \<in> set (F f). number_char c" by (simp add: float_repr_ok_def)
  obtain c where "c \<in> set (F f)" using fl unfolding float_repr_ok_def by blast
  then show "F f \<noteq> []" by auto
qed

lemma float_not_int: "float_repr_ok F \<Longrightarrow> F f \<noteq> show_int i"
proof
  assume "float_repr_ok F" and eq: "F f = show_int i"
  then obtain c where "c \<in> set (show_int i)" "c = 46 \<or> c = 101" unfolding float_repr_ok_def by (metis insertE singletonD)
  then show False using show_int_chars by fastforce
qed

text \<open>The first character tells the kind of a value.\<close>

definition kind :: "json \<Rightarrow> nat" where
  "kind v = (case v of JNull \<Rightarrow> 110 | JBool b \<Rightarrow> if b then 116 else 102 | JInt _ \<Rightarrow> 0 | JFloat _ \<Rightarrow> 0
     | JStr _ \<Rightarrow> 34 | JList _ \<Rightarrow> 91 | JObj _ \<Rightarrow> 123)"

lemma text_start:
  assumes fl: "float_repr_ok F"
  shows "\<exists>c t. render v = c # t \<and> (if number_char c then 0 else c) = kind v"
proof (cases v)
  case (JInt i)
  obtain c t where "show_int i = c # t" using number_chars(2) by (cases "show_int i") auto
  then show ?thesis using number_chars(1) [of i] by (simp add: JInt text_atoms kind_def)
next
  case (JFloat f)
  obtain c t where "F f = c # t" using number_chars(4) [of f] fl by (cases "F f") auto
  then show ?thesis using number_chars(3) [of f] fl by (simp add: JFloat text_atoms kind_def)
qed (auto simp: text_atoms text_list text_dict kind_def number_char_def u_def json_string_def)

lemma text_kind:
  assumes fl: "float_repr_ok F" and "render v @ r = render w @ r'"
  shows "kind v = kind w"
proof -
  obtain c t where "render v = c # t" "(if number_char c then 0 else c) = kind v" using text_start [OF fl] by blast
  moreover obtain d t' where "render w = d # t'" "(if number_char d then 0 else d) = kind w" using text_start [OF fl] by blast
  ultimately show ?thesis using assms(2) by auto
qed

lemma text_not_close: "float_repr_ok F \<Longrightarrow> render v \<noteq> [] \<and> hd (render v) \<notin> {93, 125}"
  using text_start [of v] by (cases v) (auto simp: kind_def number_char_def split: if_splits)

lemma text_split:
  assumes fl: "float_repr_ok F" and "render v @ r = render w @ r'" and "json_ok v" and "json_ok w" and "terminated r" and "terminated r'"
  shows "v = w \<and> r = r'"
  using assms(2-)
proof (induction v arbitrary: w r r')
  case JNull
  then show ?case using text_kind [OF fl JNull.prems(1)] by (cases w) (auto simp: kind_def text_atoms split: if_splits)
next
  case (JBool b)
  then show ?case using text_kind [OF fl JBool.prems(1)] by (cases w) (auto simp: kind_def text_atoms split: if_splits)
next
  case (JInt i)
  consider j where "w = JInt j" | f where "w = JFloat f"
    using text_kind [OF fl JInt.prems(1)] by (cases w) (auto simp: kind_def split: if_splits)
  then show ?case
  proof cases
    case 1
    then have "show_int i = show_int j \<and> r = r'"
      using number_split [OF _ number_chars(1) number_chars(1)] JInt.prems by (simp add: text_atoms)
    then show ?thesis using 1 show_int_inject by blast
  next
    case 2
    then have "show_int i = F f"
      using number_split [OF _ number_chars(1) number_chars(3) [OF fl]] JInt.prems by (simp add: text_atoms)
    then show ?thesis using float_not_int [OF fl] by metis
  qed
next
  case (JFloat f)
  consider j where "w = JInt j" | g where "w = JFloat g"
    using text_kind [OF fl JFloat.prems(1)] by (cases w) (auto simp: kind_def split: if_splits)
  then show ?case
  proof cases
    case 1
    then have "F f = show_int j"
      using number_split [OF _ number_chars(3) [OF fl] number_chars(1)] JFloat.prems by (simp add: text_atoms)
    then show ?thesis using float_not_int [OF fl] by metis
  next
    case 2
    then have "F f = F g \<and> r = r'"
      using number_split [OF _ number_chars(3) [OF fl] number_chars(3) [OF fl]] JFloat.prems by (simp add: text_atoms)
    then show ?thesis using 2 fl by (auto simp: float_repr_ok_def inj_def)
  qed
next
  case (JStr s)
  obtain t where w: "w = JStr t" using text_kind [OF fl JStr.prems(1)] by (cases w) (auto simp: kind_def split: if_splits)
  show ?case using json_string_split [of s r t r'] JStr.prems by (simp add: w text_atoms)
next
  case (JList xs)
  obtain ys where w: "w = JList ys" using text_kind [OF fl JList.prems(1)] by (cases w) (auto simp: kind_def split: if_splits)
  have "xs = ys \<and> r = r'"
  proof (rule join_split)
    show "join (44 # sep) (map render xs) @ 93 # r = join (44 # sep) (map render ys) @ 93 # r'"
      using JList.prems(1) by (simp add: w text_list)
    show "x = y \<and> t = t'" if "x \<in> set xs" "y \<in> set ys" "render x @ t = render y @ t'" "terminated t" "terminated t'" for x y t t'
      using JList.IH [OF that(1,3) _ _ that(4,5)] that(1,2) JList.prems(2,3) w by simp
    show "render x \<noteq> [] \<and> hd (render x) \<noteq> 93" for x using text_not_close [OF fl, of x] by simp
  qed simp
  then show ?case by (simp add: w)
next
  case (JObj d)
  obtain e where w: "w = JObj e" using text_kind [OF fl JObj.prems(1)] by (cases w) (auto simp: kind_def split: if_splits)
  let ?f = "\<lambda>(k, v). json_string True k @ colon @ render v"
  have "d = e \<and> r = r'"
  proof (rule join_split)
    show "join (44 # sep) (map ?f d) @ 125 # r = join (44 # sep) (map ?f e) @ 125 # r'"
      using JObj.prems(1) by (simp add: w text_dict)
    fix x y t t' assume x: "x \<in> set d" "y \<in> set e" and eq: "?f x @ t = ?f y @ t'" and tm: "terminated t" "terminated t'"
    obtain k v l z where p: "x = (k, v)" "y = (l, z)" by (cases x; cases y) auto
    have ok: "str_ok k" "json_ok v" "str_ok l" "json_ok z" using x JObj.prems(2,3) by (auto simp: p w)
    have kl: "k = l \<and> (colon @ render v) @ t = (colon @ render z) @ t'"
      by (rule json_string_split) (use eq ok in \<open>simp_all add: p\<close>)
    have "v = z \<and> t = t'" by (rule JObj.IH [OF x(1), of v]) (use kl ok tm p in auto)
    then show "x = y \<and> t = t'" using kl p by simp
  next
    show "?f x \<noteq> [] \<and> hd (?f x) \<noteq> 125" for x by (cases x) (auto simp: json_string_def)
  qed simp
  then show ?case by (simp add: w)
qed

lemma text_inject: "float_repr_ok F \<Longrightarrow> render v = render w \<Longrightarrow> json_ok v \<Longrightarrow> json_ok w \<Longrightarrow> v = w"
  using text_split [of v "[]" w "[]"] by simp

end

section \<open>The two writers\<close>

lemma items_text_map: "items_text a F xs = map (json_text a F) xs"
  by (induction xs) auto

lemma fields_text_map: "fields_text a F d = map (\<lambda>(k, v). json_string a k @ u '':'' @ json_text a F v) d"
  by (induction d) auto

lemma dumps_items_map: "dumps_items F xs = map (dumps_text F) xs"
  by (induction xs) auto

lemma dumps_fields_map: "dumps_fields F d = map (\<lambda>(k, v). json_string True k @ u '': '' @ dumps_text F v) d"
  by (induction d) auto

interpretation compact: json_writer "json_text True F" F "[]" "u '':''" for F
  by unfold_locales (simp_all add: items_text_map fields_text_map, simp_all add: u_def)

interpretation spaced: json_writer "dumps_text F" F "u '' ''" "u '': ''" for F
  by unfold_locales (simp_all add: dumps_items_map dumps_fields_map, simp_all add: u_def)

text \<open>A rendering of floats that meets the condition: numerator and denominator.\<close>

definition digits_ratio :: "rat \<Rightarrow> pystr" where
  "digits_ratio r = show_int (fst (quotient_of r)) @ 46 # show_int (snd (quotient_of r))"

lemma digits_ratio_ok: "float_repr_ok digits_ratio"
proof -
  have "r = s" if "digits_ratio r = digits_ratio s" for r s
  proof -
    have n: "46 \<notin> set (show_int i)" for i using show_int_chars [of 46 i] by auto
    have t: "takeWhile (\<lambda>c. c \<noteq> 46) (show_int i @ 46 # x) = show_int i" "dropWhile (\<lambda>c. c \<noteq> 46) (show_int i @ 46 # x) = 46 # x" for i x
      using n [of i] by (auto simp: takeWhile_append dropWhile_append)
    have "show_int (fst (quotient_of r)) = show_int (fst (quotient_of s)) \<and> show_int (snd (quotient_of r)) = show_int (snd (quotient_of s))"
      using that t unfolding digits_ratio_def by (metis list.inject)
    then show ?thesis using show_int_inject by (metis prod.collapse quotient_of_inject)
  qed
  then show ?thesis using show_int_chars by (fastforce simp: float_repr_ok_def inj_def digits_ratio_def number_char_def)
qed

end
