(* ===== verification/Semantic_Cache_Props.thy ===== *)
theory Semantic_Cache_Props
  imports Semantic_Cache Json_Text_Props "HOL-Library.Multiset"
begin

text \<open>
  Properties of the response cache. The key of a request determines the request up to prompt-cache
  annotations and the order of dictionary keys, so a cached reply is only replayed to a caller of the
  same partition with the same request; a partition determines the principal and the credentials. Each
  of these rests on the digests of the texts at hand being different, which is a hypothesis.
\<close>

section \<open>Sorted dictionaries\<close>

lemma sort_items_map: "sort_items xs = map sort_keys xs"
  by (induction xs) auto

lemma sort_fields_map: "sort_fields d = map (\<lambda>(k, v). (k, sort_keys v)) d"
  by (induction d) auto

lemma map_of_sort_fields: "map_of (sort_fields d) k = map_option sort_keys (map_of d k)"
  by (simp add: sort_fields_map map_of_map)

lemma fst_sort_fields [simp]: "map fst (sort_fields d) = map fst d"
  by (induction d) auto

lemma json_ok_sort_keys: "json_ok v \<Longrightarrow> json_ok (sort_keys v)"
proof (induction v)
  case (JObj d)
  have "json_ok (sort_keys v)" if "(k, v) \<in> set d" for k v using JObj.IH [OF that, of v] JObj.prems that by auto
  then show ?case using JObj.prems by (auto simp: sort_fields_map)
qed (auto simp: sort_items_map)

lemma map_of_sort_key: "distinct (map fst d) \<Longrightarrow> map_of (sort_key fst d) = map_of d"
proof (rule ext)
  fix k assume "distinct (map fst d)"
  moreover have "distinct (map fst (sort_key fst d))"
    using \<open>distinct (map fst d)\<close> by (simp add: distinct_map)
  ultimately show "map_of (sort_key fst d) k = map_of d k"
    by (metis map_of_eq_Some_iff not_None_eq set_sort)
qed

lemma sorted_dict_eq:
  assumes "distinct (map fst d)" and "distinct (map fst e)"
  shows "sort_key fst d = sort_key fst e \<longleftrightarrow> map_of d = map_of e"
proof
  assume "sort_key fst d = sort_key fst e"
  then show "map_of d = map_of e" using map_of_sort_key assms by metis
next
  assume "map_of d = map_of e"
  then have "set d = set e" using set_map_of_compr [OF assms(1)] set_map_of_compr [OF assms(2)] by simp
  then have "mset d = mset (sort_key fst e)" using assms by (metis distinct_map set_eq_iff_mset_eq_distinct mset_sort)
  then show "sort_key fst d = sort_key fst e"
    by (rule sort_key_inj_key_eq) (use assms in \<open>auto simp: distinct_map sorted_sort_key\<close>)
qed

lemma sort_keys_obj_eq:
  assumes "distinct (map fst d)" and "distinct (map fst e)"
  shows "sort_keys (JObj d) = sort_keys (JObj e) \<longleftrightarrow>
    (\<forall>k. map_option sort_keys (map_of d k) = map_option sort_keys (map_of e k))"
  using sorted_dict_eq [of "sort_fields d" "sort_fields e"] assms by (auto simp: fun_eq_iff map_of_sort_fields)

section \<open>What a key determines\<close>

definition key_names :: "pystr set" where
  "key_names = {u ''partition'', u ''model'', u ''messages''}"

text \<open>Dictionaries have each key once.\<close>

fun keys_ok :: "json \<Rightarrow> bool" where
  "keys_ok (JList xs) \<longleftrightarrow> (\<forall>x \<in> set xs. keys_ok x)"
| "keys_ok (JObj d) \<longleftrightarrow> distinct (map fst d) \<and> (\<forall>(k, v) \<in> set d. keys_ok v)"
| "keys_ok _ \<longleftrightarrow> True"

definition request_ok :: "cache_request \<Rightarrow> bool" where
  "request_ok q \<longleftrightarrow> str_ok (cq_partition q) \<and> json_ok (cq_model q) \<and> json_ok (JList (cq_messages q)) \<and> json_ok (JObj (cq_fields q))
     \<and> keys_ok (cq_model q) \<and> keys_ok (JList (cq_messages q)) \<and> keys_ok (JObj (cq_fields q)) \<and> key_names \<inter> fst ` set (cq_fields q) = {}"

text \<open>Sameness of JSON values, stated without reference to how the key is computed: equal, but for the
  order of the entries of a dictionary and for entries with a name in \<open>N\<close>. Such an entry counts like
  any other in a dictionary of properties (\<open>m\<close>), that is, one that is the value of an entry called
  \<open>properties\<close>.\<close>

inductive alike :: "pystr set \<Rightarrow> bool \<Rightarrow> json \<Rightarrow> json \<Rightarrow> bool" for N where
  scalars: "(\<forall>xs. v \<noteq> JList xs) \<Longrightarrow> (\<forall>d. v \<noteq> JObj d) \<Longrightarrow> alike N m v v"
| lists: "length xs = length ys \<Longrightarrow> (\<And>i. i < length xs \<Longrightarrow> alike N False (xs ! i) (ys ! i)) \<Longrightarrow>
    alike N m (JList xs) (JList ys)"
| dicts: "(\<And>k. k \<notin> N \<or> m \<Longrightarrow> map_of d k = None \<longleftrightarrow> map_of e k = None) \<Longrightarrow>
    (\<And>k v w. k \<notin> N \<or> m \<Longrightarrow> map_of d k = Some v \<Longrightarrow> map_of e k = Some w \<Longrightarrow> alike N (k = u ''properties'') v w) \<Longrightarrow>
    alike N m (JObj d) (JObj e)"

inductive_simps alike_simps [simp]:
  "alike N m (JList xs) w" "alike N m (JObj d) w" "alike N m (JStr t) w" "alike N m (JInt i) w" "alike N m (JFloat q) w"
  "alike N m (JBool b) w" "alike N m JNull w"

text \<open>A function that drops the entries with a name in \<open>N\<close> decides this relation, once the entries are
  sorted.\<close>

locale annotation_filter =
  fixes f :: "bool \<Rightarrow> json \<Rightarrow> json" and g :: "bool \<Rightarrow> pydict \<Rightarrow> pydict" and N :: "pystr set"
  assumes on_dict: "f m (JObj d) = JObj (g m d)"
    and on_list: "f m (JList xs) = JList (map (f False) xs)"
    and on_scalar: "(\<forall>xs. v \<noteq> JList xs) \<Longrightarrow> (\<forall>d. v \<noteq> JObj d) \<Longrightarrow> f m v = v"
    and entries: "map_of (g m d) k = (if k \<in> N \<and> \<not> m then None else map_option (f (k = u ''properties'')) (map_of d k))"
    and keys: "distinct (map fst d) \<Longrightarrow> distinct (map fst (g m d))"
begin

lemma scalar_same:
  assumes "\<forall>xs. v \<noteq> JList xs" and "\<forall>d. v \<noteq> JObj d"
  shows "sort_keys (f m v) = sort_keys (f m w) \<longleftrightarrow> v = w"
proof -
  have s: "sort_keys (f m v) = v" using on_scalar [OF assms] assms by (cases v) auto
  consider xs where "w = JList xs" | d where "w = JObj d" | "\<forall>xs. w \<noteq> JList xs" "\<forall>d. w \<noteq> JObj d" by blast
  then show ?thesis
  proof cases
    case 3
    then have "sort_keys (f m w) = w" using on_scalar [of w m] by (cases w) auto
    then show ?thesis by (simp add: s)
  qed (use assms in \<open>auto simp: s on_list on_dict\<close>)
qed

lemma filtered_same: "keys_ok v \<Longrightarrow> keys_ok w \<Longrightarrow> sort_keys (f m v) = sort_keys (f m w) \<longleftrightarrow> alike N m v w"
proof (induction v arbitrary: m w)
  case (JList xs)
  have IH: "sort_keys (f False x) = sort_keys (f False y) \<longleftrightarrow> alike N False x y" if "x \<in> set xs" "keys_ok y" for x y
    using JList.IH [OF that(1)] JList.prems(1) that by auto
  show ?case
  proof (cases w)
    case (JList ys)
    have "map sort_keys (map (f False) xs) = map sort_keys (map (f False) ys) \<longleftrightarrow>
        length xs = length ys \<and> (\<forall>i < length xs. sort_keys (f False (xs ! i)) = sort_keys (f False (ys ! i)))"
      by (auto simp: list_eq_iff_nth_eq)
    then show ?thesis using IH JList.prems(2) by (auto simp: JList on_list sort_items_map)
  next
    case (JObj e)
    then show ?thesis by (simp add: on_list on_dict)
  qed (simp_all add: on_list on_scalar)
next
  case (JObj d)
  have IH: "sort_keys (f q x) = sort_keys (f q y) \<longleftrightarrow> alike N q x y" if "map_of d k = Some x" "keys_ok y" for k q x y
    using JObj.IH [OF map_of_SomeD [OF that(1)], of x] JObj.prems(1) map_of_SomeD [OF that(1)] that by fastforce
  show ?case
  proof (cases w)
    case w: (JObj e)
    have ok: "keys_ok y" if "map_of e k = Some y" for k y using map_of_SomeD [OF that] JObj.prems(2) w by auto
    have dist: "distinct (map fst (g m d))" "distinct (map fst (g m e))"
      using keys [of d m] keys [of e m] JObj.prems w by simp_all
    have "sort_keys (f m (JObj d)) = sort_keys (f m w) \<longleftrightarrow>
        (\<forall>k. map_option sort_keys (map_of (g m d) k) = map_option sort_keys (map_of (g m e) k))"
      unfolding w on_dict by (rule sort_keys_obj_eq [OF dist])
    also have "\<dots> \<longleftrightarrow> (\<forall>k. k \<notin> N \<or> m \<longrightarrow> (map_of d k = None \<longleftrightarrow> map_of e k = None)
        \<and> (\<forall>x y. map_of d k = Some x \<longrightarrow> map_of e k = Some y \<longrightarrow>
             sort_keys (f (k = u ''properties'') x) = sort_keys (f (k = u ''properties'') y)))"
      by (rule iff_allI) (auto simp: entries option.map_comp split: option.splits)
    also have "\<dots> \<longleftrightarrow> alike N m (JObj d) w"
      using IH ok by (auto simp: w)
    finally show ?thesis .
  next
    case (JList ys)
    then show ?thesis by (simp add: on_list on_dict)
  qed (simp_all add: on_scalar on_dict)
next
  case JNull
  show ?case by (subst scalar_same) auto
next
  case (JBool b)
  show ?case by (subst scalar_same) auto
next
  case (JInt i)
  show ?case by (subst scalar_same) auto
next
  case (JFloat q)
  show ?case by (subst scalar_same) auto
next
  case (JStr t)
  show ?case by (subst scalar_same) auto
qed

end

definition annotation :: "pystr set" where
  "annotation = {u ''cache_control''}"

text \<open>The same request: the same partition, the same model up to the order of dictionary entries, and the
  same messages and keyword arguments up to that order and to annotations.\<close>

definition same_request :: "cache_request \<Rightarrow> cache_request \<Rightarrow> bool" where
  "same_request a b \<longleftrightarrow> cq_partition a = cq_partition b \<and> alike {} False (cq_model a) (cq_model b)
     \<and> alike annotation False (JList (cq_messages a)) (JList (cq_messages b))
     \<and> (\<forall>k. (map_of (cq_fields a) k = None \<longleftrightarrow> map_of (cq_fields b) k = None)
          \<and> (\<forall>v w. map_of (cq_fields a) k = Some v \<longrightarrow> map_of (cq_fields b) k = Some w \<longrightarrow> alike annotation False v w))"

lemma strip_cc_items_map: "strip_cc_items xs = map (strip_cc False) xs"
  by (induction xs) auto

lemma set_strip_cc_fields: "set (strip_cc_fields p d) \<subseteq> (\<lambda>(k, v). (k, strip_cc (k = u ''properties'') v)) ` set d"
  by (induction d) auto

lemma map_of_strip_cc_fields:
  "map_of (strip_cc_fields m d) k =
     (if k \<in> annotation \<and> \<not> m then None else map_option (strip_cc (k = u ''properties'')) (map_of d k))"
  by (induction d) (auto simp: annotation_def)

interpretation stripped: annotation_filter strip_cc strip_cc_fields annotation
proof unfold_locales
  fix m d assume "distinct (map fst (d :: pydict))"
  moreover have "map fst (strip_cc_fields m d) = filter (\<lambda>k. k \<notin> annotation \<or> m) (map fst d)"
    by (induction d) (auto simp: annotation_def)
  ultimately show "distinct (map fst (strip_cc_fields m d))" by simp
next
  fix v m assume "\<forall>xs. v \<noteq> JList xs" "\<forall>d. v \<noteq> JObj d"
  then show "strip_cc m v = v" by (cases v) auto
qed (simp_all add: strip_cc_items_map map_of_strip_cc_fields)

interpretation unstripped: annotation_filter "\<lambda>_ v. v" "\<lambda>_ d. d" "{}"
  by unfold_locales (simp_all add: option.map_ident)

lemma json_ok_strip: "json_ok v \<Longrightarrow> json_ok (strip_cc p v)"
proof (induction v arbitrary: p)
  case (JObj d)
  have "json_ok (strip_cc q v)" if "(k, v) \<in> set d" for k v q using JObj.IH [OF that, of v] JObj.prems that by auto
  then show ?case using JObj.prems set_strip_cc_fields [of p d] by fastforce
qed (auto simp: strip_cc_items_map)

definition key_dict :: "cache_request \<Rightarrow> pydict" where
  "key_dict q = foldl (\<lambda>d (k, v). AList.update k (strip_cache_annotations v) d)
     [(u ''partition'', JStr (cq_partition q)), (u ''model'', cq_model q),
      (u ''messages'', strip_cache_annotations (JList (cq_messages q)))] (cq_fields q)"

lemma key_text_dict: "key_text F q = dumps_text F (sort_keys (JObj (key_dict q)))"
  by (simp add: key_text_def key_object_def key_dict_def)

lemma map_of_foldl_update:
  "distinct (map fst fs) \<Longrightarrow>
   map_of (foldl (\<lambda>d (k, v). AList.update k (g v) d) d fs) k = (case map_of fs k of Some v \<Rightarrow> Some (g v) | None \<Rightarrow> map_of d k)"
proof (induction fs arbitrary: d)
  case (Cons f fs)
  obtain l v where f: "f = (l, v)" by (cases f)
  have "map_of fs l = None" using Cons.prems by (simp add: f map_of_eq_None_iff)
  then show ?case using Cons.IH [of "AList.update l (g v) d"] Cons.prems by (auto simp: f update_conv split: option.split)
qed simp

lemma distinct_foldl_update:
  "distinct (map fst d) \<Longrightarrow> distinct (map fst (foldl (\<lambda>d (k, v). AList.update k (g v) d) d fs))"
  by (induction fs arbitrary: d) (auto simp: distinct_update)

lemma set_update_insert: "set (AList.update k v d) \<subseteq> insert (k, v) (set d)"
  by (induction d) auto

lemma set_foldl_update:
  "set (foldl (\<lambda>d (k, v). AList.update k (g v) d) d fs) \<subseteq> set d \<union> (\<lambda>(k, v). (k, g v)) ` set fs"
proof (induction fs arbitrary: d)
  case (Cons f fs)
  obtain l v where f: "f = (l, v)" by (cases f)
  show ?case using Cons.IH [of "AList.update l (g v) d"] set_update_insert [of l "g v" d] by (auto simp: f)
qed simp

lemma map_of_key_dict:
  assumes "request_ok q"
  shows "map_of (key_dict q) k = (if k = u ''partition'' then Some (JStr (cq_partition q)) else if k = u ''model'' then Some (cq_model q)
    else if k = u ''messages'' then Some (strip_cache_annotations (JList (cq_messages q))) else map_option strip_cache_annotations (map_of (cq_fields q) k))"
proof -
  have "map_of (cq_fields q) (u ''partition'') = None" "map_of (cq_fields q) (u ''model'') = None" "map_of (cq_fields q) (u ''messages'') = None"
    using assms unfolding request_ok_def key_names_def map_of_eq_None_iff by blast+
  then show ?thesis using assms by (auto simp: key_dict_def map_of_foldl_update request_ok_def split: option.splits)
qed

lemma key_dict_at:
  assumes "request_ok q"
  shows "map_of (key_dict q) (u ''partition'') = Some (JStr (cq_partition q))" "map_of (key_dict q) (u ''model'') = Some (cq_model q)"
    "map_of (key_dict q) (u ''messages'') = Some (strip_cache_annotations (JList (cq_messages q)))"
    "k \<notin> key_names \<Longrightarrow> map_of (key_dict q) k = map_option strip_cache_annotations (map_of (cq_fields q) k)"
  using map_of_key_dict [OF assms] by (simp_all add: key_names_def)

lemma fields_at_name: "request_ok q \<Longrightarrow> k \<in> key_names \<Longrightarrow> map_of (cq_fields q) k = None"
  unfolding request_ok_def map_of_eq_None_iff by blast

lemma key_dict_ok:
  assumes "request_ok q"
  shows "distinct (map fst (key_dict q))" and "json_ok (JObj (key_dict q))"
proof -
  show "distinct (map fst (key_dict q))" unfolding key_dict_def by (rule distinct_foldl_update) simp
  have q: "str_ok (cq_partition q)" "json_ok (cq_model q)" "json_ok (JList (cq_messages q))" "json_ok (JObj (cq_fields q))"
    using assms by (simp_all add: request_ok_def)
  have "json_ok (strip_cache_annotations (JList (cq_messages q)))" using json_ok_strip [OF q(3)] by (simp add: strip_cache_annotations_def)
  moreover have "str_ok (u ''partition'')" "str_ok (u ''model'')" "str_ok (u ''messages'')" by (simp_all add: u_def)
  ultimately have base: "str_ok k \<and> json_ok v" if "(k, v) \<in> set [(u ''partition'', JStr (cq_partition q)), (u ''model'', cq_model q),
      (u ''messages'', strip_cache_annotations (JList (cq_messages q)))]" for k v
    using that q(1,2) by auto
  have "str_ok k \<and> json_ok v" if "(k, v) \<in> (\<lambda>(k, v). (k, strip_cache_annotations v)) ` set (cq_fields q)" for k v
    using that q(4) json_ok_strip by (auto simp: strip_cache_annotations_def)
  then have "str_ok k \<and> json_ok v" if "(k, v) \<in> set (key_dict q)" for k v
    using that base set_foldl_update [of strip_cache_annotations
        "[(u ''partition'', JStr (cq_partition q)), (u ''model'', cq_model q), (u ''messages'', strip_cache_annotations (JList (cq_messages q)))]" "cq_fields q"]
    unfolding key_dict_def by blast
  then show "json_ok (JObj (key_dict q))" by auto
qed

text \<open>What the key compares is sameness.\<close>

lemma same_request_stripped:
  assumes "request_ok a" and "request_ok b"
  shows "same_request a b \<longleftrightarrow> cq_partition a = cq_partition b \<and> sort_keys (cq_model a) = sort_keys (cq_model b)
     \<and> sort_keys (strip_cache_annotations (JList (cq_messages a))) = sort_keys (strip_cache_annotations (JList (cq_messages b)))
     \<and> (\<forall>k. map_option (sort_keys \<circ> strip_cache_annotations) (map_of (cq_fields a) k) =
            map_option (sort_keys \<circ> strip_cache_annotations) (map_of (cq_fields b) k))"
proof -
  have ok: "keys_ok (cq_model q)" "keys_ok (JList (cq_messages q))" "\<And>k v. map_of (cq_fields q) k = Some v \<Longrightarrow> keys_ok v"
    if "request_ok q" for q
    using that by (auto simp: request_ok_def dest!: map_of_SomeD)
  have field: "sort_keys (strip_cache_annotations v) = sort_keys (strip_cache_annotations w) \<longleftrightarrow> alike annotation False v w"
    if "map_of (cq_fields a) k = Some v" "map_of (cq_fields b) k = Some w" for k v w
    unfolding strip_cache_annotations_def using ok(3) assms that by (intro stripped.filtered_same) blast+
  have "sort_keys (cq_model a) = sort_keys (cq_model b) \<longleftrightarrow> alike {} False (cq_model a) (cq_model b)"
    by (rule unstripped.filtered_same) (use ok assms in blast)+
  moreover have "sort_keys (strip_cache_annotations (JList (cq_messages a))) = sort_keys (strip_cache_annotations (JList (cq_messages b)))
      \<longleftrightarrow> alike annotation False (JList (cq_messages a)) (JList (cq_messages b))"
    unfolding strip_cache_annotations_def by (rule stripped.filtered_same) (use ok assms in blast)+
  moreover have "map_option (sort_keys \<circ> strip_cache_annotations) (map_of (cq_fields a) k) =
            map_option (sort_keys \<circ> strip_cache_annotations) (map_of (cq_fields b) k) \<longleftrightarrow>
      (map_of (cq_fields a) k = None \<longleftrightarrow> map_of (cq_fields b) k = None)
          \<and> (\<forall>v w. map_of (cq_fields a) k = Some v \<longrightarrow> map_of (cq_fields b) k = Some w \<longrightarrow> alike annotation False v w)" for k
    using field [of k] by (cases "map_of (cq_fields a) k"; cases "map_of (cq_fields b) k") simp_all
  ultimately show ?thesis unfolding same_request_def by presburger
qed

lemma key_text_eq:
  assumes "request_ok a" and "request_ok b" and "float_repr_ok F"
  shows "key_text F a = key_text F b \<longleftrightarrow> same_request a b"
proof -
  have "key_text F a = key_text F b \<longleftrightarrow> sort_keys (JObj (key_dict a)) = sort_keys (JObj (key_dict b))"
    unfolding key_text_dict
    by (rule iffI [OF spaced.text_inject [OF assms(3) _ json_ok_sort_keys [OF key_dict_ok(2) [OF assms(1)]]
          json_ok_sort_keys [OF key_dict_ok(2) [OF assms(2)]]] arg_cong])
  also have "\<dots> \<longleftrightarrow> (\<forall>k. map_option sort_keys (map_of (key_dict a) k) = map_option sort_keys (map_of (key_dict b) k))"
    by (rule sort_keys_obj_eq) (rule key_dict_ok(1) [OF assms(1)], rule key_dict_ok(1) [OF assms(2)])
  also have "\<dots> \<longleftrightarrow> same_request a b"
  proof
    assume h: "\<forall>k. map_option sort_keys (map_of (key_dict a) k) = map_option sort_keys (map_of (key_dict b) k)"
    have "map_option (sort_keys \<circ> strip_cache_annotations) (map_of (cq_fields a) k) = map_option (sort_keys \<circ> strip_cache_annotations) (map_of (cq_fields b) k)" for k
    proof (cases "k \<in> key_names")
      case True
      then show ?thesis using fields_at_name [OF assms(1)] fields_at_name [OF assms(2)] by simp
    next
      case False
      then show ?thesis using h [rule_format, of k] key_dict_at(4) [OF assms(1)] key_dict_at(4) [OF assms(2)]
        by (simp add: option.map_comp)
    qed
    then show "same_request a b" unfolding same_request_stripped [OF assms(1,2)]
      using h [rule_format, of "u ''partition''"] h [rule_format, of "u ''model''"] h [rule_format, of "u ''messages''"]
      by (simp add: key_dict_at(1-3) assms)
  next
    assume "same_request a b"
    note same = this [unfolded same_request_stripped [OF assms(1,2)]]
    show "\<forall>k. map_option sort_keys (map_of (key_dict a) k) = map_option sort_keys (map_of (key_dict b) k)"
    proof
      fix k
      show "map_option sort_keys (map_of (key_dict a) k) = map_option sort_keys (map_of (key_dict b) k)"
      proof (cases "k \<in> key_names")
        case True
        then show ?thesis using same key_dict_at(1-3) [OF assms(1)] key_dict_at(1-3) [OF assms(2)]
          by (auto simp: key_names_def)
      next
        case False
        then show ?thesis using same key_dict_at(4) [OF assms(1) False] key_dict_at(4) [OF assms(2) False]
          by (simp add: option.map_comp)
      qed
    qed
  qed
  finally show ?thesis .
qed

section \<open>The table\<close>

lemma make_room_drop: "0 < n \<Longrightarrow> make_room n d = Some (drop (Suc (length d) - nat n) d)"
proof (induction d)
  case (Cons p d)
  show ?case
  proof (cases "n \<le> int (length (p # d))")
    case True
    then have "Suc (length (p # d)) - nat n = Suc (Suc (length d) - nat n)" using Cons.prems by simp
    then show ?thesis using Cons True by simp
  qed (use Cons in simp)
qed simp

lemma make_room_None: "make_room n d = None \<longleftrightarrow> n \<le> 0"
proof -
  have "n \<le> 0 \<Longrightarrow> make_room n d = None" by (induction d) auto
  then show ?thesis using make_room_drop [of n d] by (cases "n \<le> 0") auto
qed

lemma update_append: "k \<notin> fst ` set d \<Longrightarrow> AList.update k v d = d @ [(k, v)]"
  by (induction d) auto

lemma delete_split:
  "k' \<noteq> k \<Longrightarrow> AList.delete k' (xs @ (k, e) # ys) = AList.delete k' xs @ (k, e) # AList.delete k' ys"
  by (simp add: AList.delete_eq)

lemma touch_entry:
  assumes "map_of d k \<noteq> None"
  shows "move_to_end k (AList.update k e d) = AList.delete k d @ [(k, e)]"
proof -
  have "AList.delete k (AList.update k e d) = AList.delete k d" by (induction d) auto
  then show ?thesis by (simp add: move_to_end_def update_conv')
qed

text \<open>The table after a call.\<close>

lemma cache_get_cases:
  assumes "cache_get sha F now q sc = (r, sc')"
  obtains (same) "sc' = sc" "\<forall>e. r \<noteq> Inr (Some e)"
  | (expired) k e where "compute_semantic_cache_key sha F q = Inr k" "map_of (sc_entries sc) k = Some e" "r = Inr None"
      "now - created_at e > real_of_int (entry_ttl e)" "sc' = sc\<lparr>sc_entries := AList.delete k (sc_entries sc)\<rparr>"
  | (hit) k e where "compute_semantic_cache_key sha F q = Inr k" "map_of (sc_entries sc) k = Some e"
      "r = Inr (Some (e\<lparr>hit_count := Suc (hit_count e)\<rparr>))" "now - created_at e \<le> real_of_int (entry_ttl e)"
      "sc' = sc\<lparr>sc_entries := AList.delete k (sc_entries sc) @ [(k, e\<lparr>hit_count := Suc (hit_count e)\<rparr>)]\<rparr>"
proof (cases "compute_semantic_cache_key sha F q")
  case (Inl x)
  then show ?thesis using assms same by (auto simp: cache_get_def)
next
  case (Inr k)
  show ?thesis
  proof (cases "map_of (sc_entries sc) k")
    case None
    then show ?thesis using assms Inr same by (auto simp: cache_get_def)
  next
    case (Some e)
    then have t: "move_to_end k (AList.update k x (sc_entries sc)) = AList.delete k (sc_entries sc) @ [(k, x)]" for x
      by (simp add: touch_entry)
    show ?thesis
    proof (cases "now - created_at e > real_of_int (entry_ttl e)")
      case True
      then show ?thesis using expired [OF Inr Some] assms Inr Some by (simp add: cache_get_def)
    next
      case False
      then show ?thesis using hit [OF Inr Some] assms Inr Some t by (simp add: cache_get_def Let_def)
    qed
  qed
qed

definition new_entry :: "real \<Rightarrow> int \<Rightarrow> nat list \<Rightarrow> (pystr \<times> pystr) list \<Rightarrow> int \<Rightarrow> reply_entry" where
  "new_entry now ttl body headers saved = \<lparr>response_body = body, response_headers = headers, created_at = now, entry_ttl = ttl,
     hit_count = 0, tokens_saved_per_hit = saved\<rparr>"

lemma cache_set_cases:
  assumes "cache_set sha F loads now q body headers saved sc = (r, sc')"
  obtains (same) "sc' = sc" "compute_semantic_cache_key sha F q = Inl CacheValueError \<and> r = Inl CacheValueError
      \<or> \<not> is_cacheable_reply loads body \<and> r = Inr ()"
  | (full) k where "compute_semantic_cache_key sha F q = Inr k" "is_cacheable_reply loads body" "sc_max_entries sc \<le> 0"
      "r = Inl CacheKeyError" "sc' = sc\<lparr>sc_entries := []\<rparr>"
  | (added) k where "compute_semantic_cache_key sha F q = Inr k" "is_cacheable_reply loads body" "0 < sc_max_entries sc" "r = Inr ()"
      "sc' = sc\<lparr>sc_entries := drop (Suc (length (AList.delete k (sc_entries sc))) - nat (sc_max_entries sc)) (AList.delete k (sc_entries sc))
         @ [(k, new_entry now (sc_ttl_seconds sc) body headers saved)]\<rparr>"
proof (cases "compute_semantic_cache_key sha F q")
  case (Inl x)
  then have "x = CacheValueError" by (auto simp: compute_semantic_cache_key_def split: if_splits)
  then show ?thesis using assms same Inl by (simp add: cache_set_def)
next
  case (Inr k)
  show ?thesis
  proof (cases "is_cacheable_reply loads body")
    case False
    then show ?thesis using assms Inr same by (simp add: cache_set_def)
  next
    case True
    let ?d = "AList.delete k (sc_entries sc)"
    show ?thesis
    proof (cases "0 < sc_max_entries sc")
      case False
      then have "make_room (sc_max_entries sc) ?d = None" by (simp add: make_room_None)
      then show ?thesis using full [OF Inr True] assms Inr True False by (simp add: cache_set_def)
    next
      case pos: True
      have "k \<notin> fst ` set (drop n ?d)" for n using set_drop_subset [of n ?d] by (auto simp: AList.delete_eq)
      then show ?thesis using added [OF Inr True pos] assms Inr True
        by (simp add: cache_set_def make_room_drop [OF pos] update_append new_entry_def)
    qed
  qed
qed

section \<open>The life of a cache\<close>

text \<open>Any sequence of lookups, stores and clears on a new cache, with the replies it was given.\<close>

type_synonym past_reply = "real \<times> cache_request \<times> nat list \<times> (pystr \<times> pystr) list"

inductive cache_life :: "(pystr \<Rightarrow> pystr) \<Rightarrow> (rat \<Rightarrow> pystr) \<Rightarrow> (nat list \<Rightarrow> json option) \<Rightarrow> int \<Rightarrow> int \<Rightarrow> semantic_cache \<Rightarrow> past_reply list \<Rightarrow> bool"
  for sha F loads mx ttl where
  created: "cache_life sha F loads mx ttl (new_semantic_cache mx ttl) []"
| looked: "cache_life sha F loads mx ttl sc h \<Longrightarrow> cache_get sha F now q sc = (r, sc') \<Longrightarrow> cache_life sha F loads mx ttl sc' h"
| stored: "cache_life sha F loads mx ttl sc h \<Longrightarrow> cache_set sha F loads now q body headers saved sc = (r, sc') \<Longrightarrow>
    cache_life sha F loads mx ttl sc' ((now, q, body, headers) # h)"
| cleared: "cache_life sha F loads mx ttl sc h \<Longrightarrow> cache_life sha F loads mx ttl (cache_clear sc) h"

definition entry_from :: "(pystr \<Rightarrow> pystr) \<Rightarrow> (rat \<Rightarrow> pystr) \<Rightarrow> (nat list \<Rightarrow> json option) \<Rightarrow> int \<Rightarrow> past_reply list \<Rightarrow> pystr \<Rightarrow> reply_entry \<Rightarrow> bool" where
  "entry_from sha F loads ttl h k e \<longleftrightarrow> is_cacheable_reply loads (response_body e) \<and> entry_ttl e = ttl
     \<and> (\<exists>q. (created_at e, q, response_body e, response_headers e) \<in> set h \<and> compute_semantic_cache_key sha F q = Inr k)"

lemma entry_from_more: "entry_from sha F loads ttl h k e \<Longrightarrow> entry_from sha F loads ttl (x # h) k e"
  by (auto simp: entry_from_def)

lemma entry_from_hit: "entry_from sha F loads ttl h k (e\<lparr>hit_count := n\<rparr>) = entry_from sha F loads ttl h k e"
  by (simp add: entry_from_def)

definition reply_cache_inv :: "(pystr \<Rightarrow> pystr) \<Rightarrow> (rat \<Rightarrow> pystr) \<Rightarrow> (nat list \<Rightarrow> json option) \<Rightarrow> int \<Rightarrow> int \<Rightarrow> semantic_cache \<Rightarrow> past_reply list \<Rightarrow> bool" where
  "reply_cache_inv sha F loads mx ttl sc h \<longleftrightarrow> sc_max_entries sc = mx \<and> sc_ttl_seconds sc = ttl \<and> distinct (map fst (sc_entries sc))
     \<and> length (sc_entries sc) \<le> nat mx \<and> (\<forall>(k, e) \<in> set (sc_entries sc). entry_from sha F loads ttl h k e)"

lemma set_delete: "set (AList.delete k d) \<subseteq> set d" "k \<notin> fst ` set (AList.delete k d)" "length (AList.delete k d) \<le> length d"
  by (auto simp: AList.delete_eq)

lemma cache_inv_get:
  assumes "reply_cache_inv sha F loads mx ttl sc h" and "cache_get sha F now q sc = (r, sc')"
  shows "reply_cache_inv sha F loads mx ttl sc' h"
  using assms(2)
proof (cases rule: cache_get_cases)
  case same
  then show ?thesis using assms(1) by simp
next
  case (expired k e)
  then show ?thesis using assms(1) set_delete [of k "sc_entries sc"] by (auto simp: reply_cache_inv_def distinct_delete)
next
  case (hit k e)
  have "(k, e) \<in> set (sc_entries sc)" using hit(2) by (rule map_of_SomeD)
  then have "entry_from sha F loads ttl h k e" using assms(1) by (auto simp: reply_cache_inv_def)
  moreover have "length (AList.delete k (sc_entries sc)) < length (sc_entries sc)"
    using \<open>(k, e) \<in> set (sc_entries sc)\<close> by (auto simp: AList.delete_eq intro: length_filter_less)
  ultimately show ?thesis
    using assms(1) set_delete [of k "sc_entries sc"] hit(5) by (auto simp: reply_cache_inv_def distinct_delete entry_from_hit)
qed

lemma cache_inv_set:
  assumes "reply_cache_inv sha F loads mx ttl sc h" and "cache_set sha F loads now q body headers saved sc = (r, sc')"
  shows "reply_cache_inv sha F loads mx ttl sc' ((now, q, body, headers) # h)"
  using assms(2)
proof (cases rule: cache_set_cases)
  case same
  then show ?thesis using assms(1) entry_from_more by (fastforce simp: reply_cache_inv_def)
next
  case (full k)
  then show ?thesis using assms(1) by (simp add: reply_cache_inv_def)
next
  case (added k)
  let ?d = "AList.delete k (sc_entries sc)"
  let ?n = "Suc (length ?d) - nat (sc_max_entries sc)"
  have e: "entry_from sha F loads ttl ((now, q, body, headers) # h) k (new_entry now ttl body headers saved)"
    using added(1,2) by (auto simp: entry_from_def new_entry_def)
  have sub: "set (drop ?n ?d) \<subseteq> set (sc_entries sc)" using set_drop_subset set_delete(1) by fastforce
  have old: "entry_from sha F loads ttl ((now, q, body, headers) # h) k' e'" if "(k', e') \<in> set (drop ?n ?d)" for k' e'
    using that sub assms(1) entry_from_more unfolding reply_cache_inv_def by fastforce
  have i: "sc_max_entries sc = mx" "sc_ttl_seconds sc = ttl" "distinct (map fst (sc_entries sc))"
    using assms(1) by (simp_all add: reply_cache_inv_def)
  have ents: "sc_entries sc' = drop ?n ?d @ [(k, new_entry now ttl body headers saved)]" using added(5) i(2) by simp
  have "distinct (map fst (drop ?n ?d))" using i(3) by (simp add: distinct_delete distinct_fst_drop)
  moreover have "k \<notin> fst ` set (drop ?n ?d)"
    using image_mono [OF set_drop_subset [of ?n ?d], of fst] set_delete(2) [of k "sc_entries sc"] by blast
  ultimately have "distinct (map fst (sc_entries sc'))" by (simp add: ents)
  moreover have "length (sc_entries sc') \<le> nat mx" using added(3) i(1) by (simp add: ents)
  moreover have "\<forall>(k', e') \<in> set (sc_entries sc'). entry_from sha F loads ttl ((now, q, body, headers) # h) k' e'"
  proof
    fix p assume "p \<in> set (sc_entries sc')"
    then have "p \<in> set (drop ?n ?d) \<or> p = (k, new_entry now ttl body headers saved)" by (auto simp: ents)
    then show "case p of (k', e') \<Rightarrow> entry_from sha F loads ttl ((now, q, body, headers) # h) k' e'"
      using old e by (cases p) blast
  qed
  ultimately show ?thesis using added(5) i(1,2) by (simp add: reply_cache_inv_def)
qed

lemma cache_life_inv: "cache_life sha F loads mx ttl sc h \<Longrightarrow> reply_cache_inv sha F loads mx ttl sc h"
proof (induction rule: cache_life.induct)
  case created
  then show ?case by (simp add: reply_cache_inv_def new_semantic_cache_def)
next
  case (looked sc h now q r sc')
  then show ?case using cache_inv_get by blast
next
  case (stored sc h now q body headers saved r sc')
  then show ?case using cache_inv_set by blast
next
  case (cleared sc h)
  then show ?case by (simp add: reply_cache_inv_def cache_clear_def)
qed

text \<open>C28: The key is exact. Two requests have the same key if and only if they come from the same partition
  with the same model, messages and keyword fields, up to the order of dictionary entries and, in the
  messages and fields, up to every entry called \<open>cache_control\<close>, wherever it stands, except in a
  dictionary that is itself the value of an entry called \<open>properties\<close>; provided the digests of
  their texts differ when the texts do. (So user data called \<open>cache_control\<close> does not count, see
  below.)\<close>

theorem cache_key_exact:
  assumes "request_ok a" and "request_ok b" and "float_repr_ok F" and "cq_partition a \<noteq> []" and "cq_partition b \<noteq> []"
    and "take 32 (sha (key_text F a)) = take 32 (sha (key_text F b)) \<longrightarrow> key_text F a = key_text F b"
  shows "compute_semantic_cache_key sha F a = compute_semantic_cache_key sha F b \<longleftrightarrow> same_request a b"
proof -
  have "compute_semantic_cache_key sha F a = compute_semantic_cache_key sha F b \<longleftrightarrow> key_text F a = key_text F b"
    using assms(4-6) by (auto simp: compute_semantic_cache_key_def)
  then show ?thesis using key_text_eq [OF assms(1-3)] by blast
qed

text \<open>C13: A cached reply stays with its caller. Whatever was looked up and stored before, a hit returns body
  and headers of a reply that was stored, at most \<open>ttl\<close> seconds earlier, for a request of the same
  partition with the same model, messages and fields up to the order of dictionary entries and the
  entries called \<open>cache_control\<close> outside \<open>properties\<close>, and that is no error.\<close>

theorem cached_reply_isolated:
  assumes "cache_life sha F loads mx ttl sc h" and "cache_get sha F now q sc = (Inr (Some e), sc')"
    and "request_ok q" and "float_repr_ok F" and "\<forall>(t, q', b, hd) \<in> set h. request_ok q' \<and>
      (take 32 (sha (key_text F q')) = take 32 (sha (key_text F q)) \<longrightarrow> key_text F q' = key_text F q)"
  shows "\<exists>t q'. (t, q', response_body e, response_headers e) \<in> set h \<and> same_request q' q \<and> now - t \<le> real_of_int ttl
    \<and> is_cacheable_reply loads (response_body e)"
  using assms(2)
proof (cases rule: cache_get_cases)
  case (hit k e0)
  have inv: "reply_cache_inv sha F loads mx ttl sc h" by (rule cache_life_inv [OF assms(1)])
  then have "entry_from sha F loads ttl h k e0" using map_of_SomeD [OF hit(2)] by (auto simp: reply_cache_inv_def)
  then obtain q' where q': "(created_at e0, q', response_body e0, response_headers e0) \<in> set h" "compute_semantic_cache_key sha F q' = Inr k"
    "is_cacheable_reply loads (response_body e0)" "entry_ttl e0 = ttl"
    unfolding entry_from_def by blast
  have "take 32 (sha (key_text F q')) = take 32 (sha (key_text F q))"
    using q'(2) hit(1) by (auto simp: compute_semantic_cache_key_def split: if_splits)
  then have "same_request q' q" using assms(3-5) q'(1) key_text_eq by fastforce
  moreover have "response_body e = response_body e0" "response_headers e = response_headers e0" using hit(3) by simp_all
  ultimately show ?thesis using q' hit(4) by auto
qed simp_all

text \<open>The cache is bounded and holds no errors. After any sequence of calls it has at most
  \<open>max_entries\<close> entries with different keys, each of them a cacheable reply that was stored with its time
  to live.\<close>

theorem semantic_cache_bounded:
  assumes "cache_life sha F loads mx ttl sc h"
  shows "length (sc_entries sc) \<le> nat mx \<and> distinct (map fst (sc_entries sc)) \<and>
    (\<forall>(k, e) \<in> set (sc_entries sc). is_cacheable_reply loads (response_body e) \<and> entry_ttl e = ttl)"
  using cache_life_inv [OF assms] by (auto simp: reply_cache_inv_def entry_from_def)

section \<open>Errors\<close>

text \<open>When a store fails. Storing raises \<open>KeyError\<close> exactly for a cacheable reply of a request with a
  partition when the cache was configured for no entries, and then it has emptied the cache; it raises
  \<open>ValueError\<close> exactly without a partition, as a lookup does, and changes nothing.\<close>

theorem cache_set_errors:
  "fst (cache_set sha F loads now q body headers saved sc) =
     (if cq_partition q = [] then Inl CacheValueError
      else if is_cacheable_reply loads body \<and> sc_max_entries sc \<le> 0 then Inl CacheKeyError else Inr ())
   \<and> snd (cache_set sha F loads now q body headers saved sc) =
     (if cq_partition q = [] \<or> \<not> is_cacheable_reply loads body then sc
      else if sc_max_entries sc \<le> 0 then cache_clear sc
      else snd (cache_set sha F loads now q body headers saved sc))
   \<and> (fst (cache_get sha F now q sc) = Inl CacheValueError \<longleftrightarrow> cq_partition q = [])"
proof (cases "sc_max_entries sc \<le> 0")
  case True
  then have "make_room (sc_max_entries sc) d = None" for d :: "(pystr, reply_entry) odict" by (simp add: make_room_None)
  then show ?thesis using True
    by (simp add: cache_set_def cache_get_def compute_semantic_cache_key_def cache_clear_def Let_def split: option.split)
next
  case False
  then show ?thesis
    by (simp add: cache_set_def cache_get_def compute_semantic_cache_key_def make_room_drop Let_def split: option.split)
qed

section \<open>Recently stored replies\<close>

datatype reply_op = Lookup cache_request | Store cache_request "nat list" "(pystr \<times> pystr) list" int | Clear

definition run_op :: "(pystr \<Rightarrow> pystr) \<Rightarrow> (rat \<Rightarrow> pystr) \<Rightarrow> (nat list \<Rightarrow> json option) \<Rightarrow> real \<times> reply_op \<Rightarrow> semantic_cache \<Rightarrow> semantic_cache" where
  "run_op sha F loads = (\<lambda>(now, op) sc. case op of
     Lookup q \<Rightarrow> snd (cache_get sha F now q sc)
   | Store q body headers saved \<Rightarrow> snd (cache_set sha F loads now q body headers saved sc)
   | Clear \<Rightarrow> cache_clear sc)"

text \<open>The key an operation is about, when it has one.\<close>

definition op_keys :: "(pystr \<Rightarrow> pystr) \<Rightarrow> (rat \<Rightarrow> pystr) \<Rightarrow> reply_op \<Rightarrow> pystr set" where
  "op_keys sha F op = {k. case op of Lookup q \<Rightarrow> compute_semantic_cache_key sha F q = Inr k
     | Store q _ _ _ \<Rightarrow> compute_semantic_cache_key sha F q = Inr k | Clear \<Rightarrow> False}"

text \<open>What must not happen to an entry: being cleared, replaced, or looked up after its time.\<close>

definition spares :: "(pystr \<Rightarrow> pystr) \<Rightarrow> (rat \<Rightarrow> pystr) \<Rightarrow> pystr \<Rightarrow> real \<Rightarrow> real \<times> reply_op \<Rightarrow> bool" where
  "spares sha F k deadline = (\<lambda>(now, op). case op of
     Lookup q \<Rightarrow> compute_semantic_cache_key sha F q = Inr k \<longrightarrow> now \<le> deadline
   | Store q _ _ _ \<Rightarrow> compute_semantic_cache_key sha F q \<noteq> Inr k
   | Clear \<Rightarrow> False)"

text \<open>The entry is in the table, and what was used after it is among the keys \<open>K\<close>.\<close>

definition held_entry :: "pystr \<Rightarrow> (nat list \<times> (pystr \<times> pystr) list \<times> real \<times> int) \<Rightarrow> pystr set \<Rightarrow> semantic_cache \<Rightarrow> bool" where
  "held_entry k v K sc \<longleftrightarrow> distinct (map fst (sc_entries sc)) \<and> (\<exists>xs e ys. sc_entries sc = xs @ (k, e) # ys
     \<and> (response_body e, response_headers e, created_at e, entry_ttl e) = v \<and> fst ` set ys \<subseteq> K)"

lemma held_entryI:
  "distinct (map fst (sc_entries sc)) \<Longrightarrow> sc_entries sc = xs @ (k, e) # ys \<Longrightarrow>
   (response_body e, response_headers e, created_at e, entry_ttl e) = v \<Longrightarrow> fst ` set ys \<subseteq> K \<Longrightarrow> held_entry k v K sc"
  unfolding held_entry_def by blast

lemma held_entry_lookup:
  assumes "held_entry k v K sc"
  shows "\<exists>e. map_of (sc_entries sc) k = Some e \<and> (response_body e, response_headers e, created_at e, entry_ttl e) = v"
proof -
  obtain xs e ys where e: "distinct (map fst (sc_entries sc))" "sc_entries sc = xs @ (k, e) # ys"
    "(response_body e, response_headers e, created_at e, entry_ttl e) = v"
    using assms unfolding held_entry_def by blast
  then have "map_of (sc_entries sc) k = Some e" by (intro map_of_is_SomeI) simp_all
  with e(3) show ?thesis by blast
qed

lemma distinct_append_new:
  "distinct (map fst d) \<Longrightarrow> distinct (map fst (AList.delete k d @ [(k, e)]))"
  using set_delete(2) [of k d] by (simp add: distinct_delete)

lemma held_get:
  assumes held: "held_entry k v K sc" and v: "v = (body, headers, t0, ttl)" and "k \<notin> K"
    and get: "cache_get sha F now q sc = (r, sc')"
    and keys: "\<And>k'. compute_semantic_cache_key sha F q = Inr k' \<Longrightarrow> k' = k \<and> now \<le> t0 + ttl \<or> k' \<in> K"
  shows "held_entry k v K sc'"
  using get
proof (cases rule: cache_get_cases)
  case same
  then show ?thesis using held by simp
next
  case (expired k' e')
  have "k' \<noteq> k"
  proof
    assume "k' = k"
    then have "created_at e' = t0" "entry_ttl e' = ttl" using held_entry_lookup [OF held] expired(2) v by auto
    then show False using keys [OF expired(1)] expired(4) \<open>k' = k\<close> assms(3) by auto
  qed
  obtain xs e ys where e: "distinct (map fst (sc_entries sc))" "sc_entries sc = xs @ (k, e) # ys"
    "(response_body e, response_headers e, created_at e, entry_ttl e) = v" "fst ` set ys \<subseteq> K"
    using held unfolding held_entry_def by blast
  have "sc_entries sc' = AList.delete k' xs @ (k, e) # AList.delete k' ys"
    using expired(5) delete_split [OF \<open>k' \<noteq> k\<close>] e(2) by simp
  moreover have "distinct (map fst (sc_entries sc'))" using e(1) expired(5) by (simp add: distinct_delete)
  moreover have "fst ` set (AList.delete k' ys) \<subseteq> K" using image_mono [OF set_delete(1) [of k' ys], of fst] e(4) by blast
  ultimately show ?thesis using held_entryI [of sc'] e(3) by blast
next
  case (hit k' e')
  obtain xs e ys where e: "distinct (map fst (sc_entries sc))" "sc_entries sc = xs @ (k, e) # ys"
    "(response_body e, response_headers e, created_at e, entry_ttl e) = v" "fst ` set ys \<subseteq> K"
    using held unfolding held_entry_def by blast
  have d: "distinct (map fst (sc_entries sc'))" using distinct_append_new [OF e(1)] hit(5) by simp
  show ?thesis
  proof (cases "k' = k")
    case True
    have "(response_body e', response_headers e', created_at e', entry_ttl e') = v"
      using held_entry_lookup [OF held] hit(2) True by auto
    then show ?thesis using held_entryI [OF d, of "AList.delete k (sc_entries sc)" k] hit(5) True by simp
  next
    case False
    have "sc_entries sc' = AList.delete k' xs @ (k, e) # (AList.delete k' ys @ [(k', e'\<lparr>hit_count := Suc (hit_count e')\<rparr>)])"
      using hit(5) delete_split [OF False] e(2) by simp
    moreover have "k' \<in> K" using keys [OF hit(1)] False by blast
    then have "fst ` set (AList.delete k' ys @ [(k', e'\<lparr>hit_count := Suc (hit_count e')\<rparr>)]) \<subseteq> K"
      using image_mono [OF set_delete(1) [of k' ys], of fst] e(4) by auto
    ultimately show ?thesis using held_entryI [OF d] e(3) by blast
  qed
qed

lemma held_set:
  assumes held: "held_entry k v K sc" and "finite K" and "int (card K) < sc_max_entries sc"
    and set: "cache_set sha F loads now q body headers saved sc = (r, sc')"
    and keys: "\<And>k'. compute_semantic_cache_key sha F q = Inr k' \<Longrightarrow> k' \<noteq> k \<and> k' \<in> K"
  shows "held_entry k v K sc'"
  using set
proof (cases rule: cache_set_cases)
  case same
  then show ?thesis using held by simp
next
  case (full k')
  then show ?thesis using assms(3) by simp
next
  case (added k')
  obtain xs e ys where e: "distinct (map fst (sc_entries sc))" "sc_entries sc = xs @ (k, e) # ys"
    "(response_body e, response_headers e, created_at e, entry_ttl e) = v" "fst ` set ys \<subseteq> K"
    using held unfolding held_entry_def by blast
  have k': "k' \<noteq> k" "k' \<in> K" using keys [OF added(1)] by simp_all
  let ?d = "AList.delete k' (sc_entries sc)" and ?ys = "AList.delete k' ys" and ?new = "(k', new_entry now (sc_ttl_seconds sc) body headers saved)"
  let ?n = "Suc (length ?d) - nat (sc_max_entries sc)"
  have d: "?d = AList.delete k' xs @ (k, e) # ?ys" using delete_split [OF k'(1)] e(2) by simp
  have sub: "fst ` set ?ys \<subseteq> K - {k'}"
    using image_mono [OF set_delete(1) [of k' ys], of fst] e(4) set_delete(2) [of k' ys] by blast
  have "distinct (map fst ?ys)" using e(1,2) by (simp add: distinct_delete)
  then have "length ?ys = card (fst ` set ?ys)" by (metis distinct_card length_map set_map)
  also have "\<dots> \<le> card (K - {k'})" by (rule card_mono) (use assms(2) sub in auto)
  also have "\<dots> = card K - 1" using assms(2) k'(2) by simp
  finally have "length ?ys \<le> card K - 1" .
  moreover have "0 < card K" using assms(2) k'(2) by (auto simp: card_gt_0_iff)
  ultimately have "?n \<le> length (AList.delete k' xs)" using assms(3) d by simp
  then have ents: "sc_entries sc' = drop ?n (AList.delete k' xs) @ (k, e) # (?ys @ [?new])" using added(5) d by simp
  have "distinct (map fst (drop ?n ?d))" using e(1) by (simp add: distinct_delete distinct_fst_drop)
  moreover have "k' \<notin> fst ` set (drop ?n ?d)"
    using image_mono [OF set_drop_subset [of ?n ?d], of fst] set_delete(2) [of k' "sc_entries sc"] by blast
  ultimately have "distinct (map fst (sc_entries sc'))" using added(5) by simp
  moreover have "fst ` set (?ys @ [?new]) \<subseteq> K" using sub k'(2) by auto
  ultimately show ?thesis using held_entryI [of sc'] ents e(3) by blast
qed

lemma max_entries_kept: "sc_max_entries (run_op sha F loads x sc) = sc_max_entries sc"
  by (cases x) (auto simp: run_op_def cache_get_def cache_set_def cache_clear_def Let_def split: reply_op.splits sum.splits option.splits)

lemma held_run:
  assumes "held_entry k v K sc" and "v = (body, headers, t0, ttl)" and "k \<notin> K" and "finite K" and "int (card K) < sc_max_entries sc"
    and "\<forall>(now, op) \<in> set ops. spares sha F k (t0 + ttl) (now, op) \<and> op_keys sha F op - {k} \<subseteq> K"
  shows "held_entry k v K (fold (run_op sha F loads) ops sc)"
  using assms(1,5,6)
proof (induction ops arbitrary: sc)
  case (Cons x ops)
  obtain now op where x: "x = (now, op)" by (cases x)
  have ok: "spares sha F k (t0 + ttl) (now, op)" "op_keys sha F op - {k} \<subseteq> K" using Cons.prems(3) x by auto
  have "held_entry k v K (run_op sha F loads x sc)"
  proof (cases op)
    case (Lookup q)
    obtain r sc' where g: "cache_get sha F now q sc = (r, sc')" by (metis prod.exhaust)
    have "held_entry k v K sc'"
      by (rule held_get [OF Cons.prems(1) assms(2,3) g]) (use ok Lookup in \<open>auto simp: spares_def op_keys_def\<close>)
    then show ?thesis using g by (simp add: x Lookup run_op_def)
  next
    case (Store q body' headers' saved)
    obtain r sc' where g: "cache_set sha F loads now q body' headers' saved sc = (r, sc')" by (metis prod.exhaust)
    have "held_entry k v K sc'"
      by (rule held_set [OF Cons.prems(1) assms(4) Cons.prems(2) g]) (use ok Store in \<open>auto simp: spares_def op_keys_def\<close>)
    then show ?thesis using g by (simp add: x Store run_op_def)
  next
    case Clear
    then show ?thesis using ok by (simp add: spares_def)
  qed
  then show ?case using Cons.IH [of "run_op sha F loads x sc"] Cons.prems(2,3) by (simp add: max_entries_kept)
qed simp

text \<open>C40: A stored reply is replayed. After a cacheable reply was stored, any operations that do not clear
  or replace it and use fewer than \<open>max_entries\<close> other keys leave it there: until its time to live has
  passed, the same request is answered with that reply.\<close>

theorem stored_reply_replayed:
  assumes "cache_life sha F loads mx ttl sc h" and "compute_semantic_cache_key sha F q = Inr k" and "is_cacheable_reply loads body"
    and "\<forall>x \<in> set ops. spares sha F k (t0 + ttl) x" and "int (card (\<Union>x \<in> set ops. op_keys sha F (snd x) - {k})) < mx"
    and "now \<le> t0 + ttl"
  shows "\<exists>e sc'. cache_get sha F now q (fold (run_op sha F loads) ops (snd (cache_set sha F loads t0 q body headers saved sc))) = (Inr (Some e), sc')
    \<and> response_body e = body \<and> response_headers e = headers"
proof -
  let ?K = "\<Union>x \<in> set ops. op_keys sha F (snd x) - {k}" and ?v = "(body, headers, t0, ttl)"
  obtain r sc1 where set: "cache_set sha F loads t0 q body headers saved sc = (r, sc1)" by (metis prod.exhaust)
  have inv: "sc_max_entries sc = mx" "sc_ttl_seconds sc = ttl" "0 < mx"
    using cache_life_inv [OF assms(1)] assms(5) by (simp_all add: reply_cache_inv_def)
  have inv1: "sc_max_entries sc1 = mx" "distinct (map fst (sc_entries sc1))"
    using cache_life_inv [OF cache_life.stored [OF assms(1) set]] by (simp_all add: reply_cache_inv_def)
  from set have "held_entry k ?v ?K sc1"
  proof (cases rule: cache_set_cases)
    case (added k')
    then have "k' = k" using assms(2) by simp
    then have "sc_entries sc1 = drop (Suc (length (AList.delete k (sc_entries sc))) - nat (sc_max_entries sc)) (AList.delete k (sc_entries sc))
        @ (k, new_entry t0 ttl body headers saved) # []" using added(5) inv(2) by simp
    from held_entryI [OF inv1(2) this] show ?thesis by (simp add: new_entry_def)
  qed (use assms(2,3) inv in auto)
  moreover have "finite (op_keys sha F op)" for op
  proof -
    have "op_keys sha F op \<subseteq> (case op of Lookup q \<Rightarrow> {k. compute_semantic_cache_key sha F q = Inr k}
        | Store q _ _ _ \<Rightarrow> {k. compute_semantic_cache_key sha F q = Inr k} | Clear \<Rightarrow> {})"
      by (cases op) (auto simp: op_keys_def)
    moreover have "finite {k. compute_semantic_cache_key sha F q = Inr k}" for q
      by (cases "compute_semantic_cache_key sha F q") auto
    ultimately show ?thesis by (cases op) (auto intro: finite_subset)
  qed
  then have "finite ?K" by auto
  ultimately have "held_entry k ?v ?K (fold (run_op sha F loads) ops sc1)"
    using held_run [of k ?v ?K sc1 body headers t0 ttl ops sha F loads] assms(4,5) inv1(1) by fastforce
  from held_entry_lookup [OF this] obtain e where e: "map_of (sc_entries (fold (run_op sha F loads) ops sc1)) k = Some e"
    "response_body e = body" "response_headers e = headers" "created_at e = t0" "entry_ttl e = ttl" by auto
  obtain r2 sc2 where g: "cache_get sha F now q (fold (run_op sha F loads) ops sc1) = (r2, sc2)" by (metis prod.exhaust)
  have "\<exists>e. r2 = Inr (Some e) \<and> response_body e = body \<and> response_headers e = headers"
    using g e assms(2,6) by (auto simp: cache_get_def Let_def split: if_splits)
  then show ?thesis using g set by auto
qed

section \<open>Callers\<close>

text \<open>The credentials of a caller: the names in lower case and the values that are sent upstream.\<close>

definition caller_credentials :: "(pystr \<Rightarrow> pystr) \<Rightarrow> (pystr \<times> pystr) list \<Rightarrow> (pystr \<times> pystr) list" where
  "caller_credentials lower headers = map (\<lambda>(n, v). (lower n, strip v)) (filter (\<lambda>(n, v). v \<noteq> [] \<and> is_caller_credential lower n) headers)"

definition principal_part :: "pystr option \<Rightarrow> (pystr \<times> pystr) list" where
  "principal_part p = (case p of Some (c # s) \<Rightarrow> [(u ''principal'', c # s)] | _ \<Rightarrow> [])"

lemma partition_material_eq:
  "partition_material lower headers p = map (\<lambda>(n, v). (u ''h:'' @ n, v)) (caller_credentials lower headers) @ principal_part p"
  unfolding partition_material_def caller_credentials_def principal_part_def by (simp add: case_prod_beta comp_def)

lemma material_text_any: "material_text m = json_text True F (JList (map (\<lambda>(a, b). JList [JStr a, JStr b]) (sort m)))"
  by (simp add: material_text_def items_text_map case_prod_beta comp_def)

lemma material_text_inject:
  assumes "material_text m = material_text m'" and "\<forall>(a, b) \<in> set m \<union> set m'. str_ok a \<and> str_ok b"
  shows "mset m = mset m'"
proof -
  let ?j = "\<lambda>m. JList (map (\<lambda>(a, b). JList [JStr a, JStr b]) (sort m))"
  have "json_text True digits_ratio (?j m) = json_text True digits_ratio (?j m')"
    using assms(1) unfolding material_text_any [of _ digits_ratio] .
  moreover have "json_ok (?j m)" "json_ok (?j m')" using assms(2) by fastforce+
  ultimately have "?j m = ?j m'" using compact.text_inject [OF digits_ratio_ok] by blast
  then have "map (\<lambda>(a, b). JList [JStr a, JStr b]) (sort m) = map (\<lambda>(a, b). JList [JStr a, JStr b]) (sort m')" by simp
  moreover have "inj (\<lambda>(a, b). JList [JStr a, JStr b])" by (auto simp: inj_def)
  ultimately have "sort m = sort m'" by (metis inj_map_eq_map)
  then show ?thesis by (metis mset_sort)
qed

lemma material_text_mset: "mset m = mset m' \<Longrightarrow> material_text m = material_text m'"
  unfolding material_text_def by (metis sorted_list_of_multiset_mset)

lemma material_mset:
  "mset (map (\<lambda>(n, v). (u ''h:'' @ n, v)) c @ principal_part p) = mset (map (\<lambda>(n, v). (u ''h:'' @ n, v)) c' @ principal_part p')
    \<longleftrightarrow> mset c = mset c' \<and> principal_part p = principal_part p'"
proof -
  let ?h = "\<lambda>(n :: pystr, v :: pystr). (u ''h:'' @ n, v)"
  let ?P = "\<lambda>x. fst x = u ''principal''"
  have no: "\<not> ?P (?h x)" for x by (cases x) (simp add: u_def)
  have f: "mset (filter ?P (map ?h c @ principal_part p)) = mset (principal_part p)"
    "mset (filter (\<lambda>x. \<not> ?P x) (map ?h c @ principal_part p)) = image_mset ?h (mset c)" for c p
  proof -
    have c: "filter ?P (map ?h c) = []" "filter (\<lambda>x. \<not> ?P x) (map ?h c) = map ?h c" using no by (auto simp: filter_empty_conv filter_id_conv)
    have p: "filter ?P (principal_part p) = principal_part p" "filter (\<lambda>x. \<not> ?P x) (principal_part p) = []"
      by (auto simp: principal_part_def split: option.split list.split)
    show "mset (filter ?P (map ?h c @ principal_part p)) = mset (principal_part p)"
      "mset (filter (\<lambda>x. \<not> ?P x) (map ?h c @ principal_part p)) = image_mset ?h (mset c)"
      unfolding filter_append c p by simp_all
  qed
  have inj: "inj ?h" by (auto simp: inj_def)
  have single: "mset (principal_part p) = mset (principal_part p') \<longleftrightarrow> principal_part p = principal_part p'"
    by (auto simp: principal_part_def split: option.split list.split)
  show ?thesis
  proof
    assume eq: "mset (map ?h c @ principal_part p) = mset (map ?h c' @ principal_part p')"
    have e: "mset (filter Q (map ?h c @ principal_part p)) = mset (filter Q (map ?h c' @ principal_part p'))" for Q
      unfolding mset_filter eq ..
    have "image_mset ?h (mset c) = image_mset ?h (mset c')" using f(2) [of c p] f(2) [of c' p'] e by metis
    then have "mset c = mset c'" using multiset.inj_map [OF inj] by (auto dest: injD)
    moreover have "mset (principal_part p) = mset (principal_part p')" using f(1) [of c p] f(1) [of c' p'] e by metis
    ultimately show "mset c = mset c' \<and> principal_part p = principal_part p'" using single by blast
  qed simp
qed

text \<open>Names of credential headers, listed independently of the code: the well-known ones, and the names
  that end in a word for a secret or an account; internal headers and idempotency keys are none.\<close>

definition listed_credential :: "pystr \<Rightarrow> bool" where
  "listed_credential n \<longleftrightarrow>
     (n \<in> {u ''authorization'', u ''proxy-authorization'', u ''cookie'', u ''api-key'', u ''x-api-key''}
      \<or> (\<exists>w \<in> {''api-key'', ''api_key'', ''apikey'', ''key'', ''token'', ''secret'', ''account'', ''account-id'', ''account_id'',
             ''organization'', ''project''}. n = u w \<or> (\<exists>p. n = p @ u (''-'' @ w) \<or> n = p @ u (''_'' @ w))))
     \<and> \<not> startswith n (u ''x-headroom-'') \<and> n \<notin> {u ''idempotency-key'', u ''x-idempotency-key''}"

text \<open>The values a request gives under a name, in whatever case, without surrounding white space.\<close>

definition header_values :: "(pystr \<Rightarrow> pystr) \<Rightarrow> pystr \<Rightarrow> (pystr \<times> pystr) list \<Rightarrow> pystr multiset" where
  "header_values lower n headers = mset (map (\<lambda>(k, v). strip v) (filter (\<lambda>(k, v). lower k = n \<and> v \<noteq> []) headers))"

lemma ends_in_wordI: "s = w \<or> (\<exists>p. s = p @ 45 # w \<or> s = p @ 95 # w) \<Longrightarrow> ends_in_word s w"
  by (auto simp: ends_in_word_def endswith_def Let_def)

lemma listed_is_credential:
  assumes "listed_credential (lower k)" and ascii: "\<And>s. \<forall>c \<in> set s. c < 128 \<Longrightarrow> lower s = ascii_lower s"
  shows "is_caller_credential lower k"
proof -
  have l: "lower (u s) = ascii_lower (u s)" if "\<forall>c \<in> set (u s). c < 128" for s using ascii that by blast
  have known: "is_credential_header lower n"
    if "n \<in> {u ''authorization'', u ''proxy-authorization'', u ''cookie'', u ''api-key'', u ''x-api-key''}" for n
    using that l [of "''authorization''"] l [of "''proxy-authorization''"] l [of "''cookie''"] l [of "''api-key''"] l [of "''x-api-key''"]
    by (auto simp: is_credential_header_def normalise_name_def name_components_def Let_def u_def strip_def lstrip_def rstrip_def
        py_isspace_def ascii_lower_def ascii_lower_char_def)
  have "has_credential_ending n" if "w \<in> {''api-key'', ''api_key'', ''apikey'', ''key'', ''token'', ''secret'', ''account'', ''account-id'', ''account_id'',
             ''organization'', ''project''}" "n = u w \<or> (\<exists>p. n = p @ u (''-'' @ w) \<or> n = p @ u (''_'' @ w))" for n w
  proof -
    have "u (''-'' @ w) = 45 # u w" "u (''_'' @ w) = 95 # u w" by (simp_all add: u_def)
    then have "ends_in_word n (u w)" using that(2) by (intro ends_in_wordI) auto
    moreover have "u w \<in> set credential_endings" using that(1) by (auto simp: credential_endings_def)
    ultimately show ?thesis by (auto simp: has_credential_ending_def list_ex_iff)
  qed
  with known assms(1) show ?thesis
    unfolding listed_credential_def is_caller_credential_def Let_def internal_prefix_def by auto
qed

lemma values_of_credentials:
  assumes "listed_credential n" and "\<And>s. \<forall>c \<in> set s. c < 128 \<Longrightarrow> lower s = ascii_lower s"
  shows "header_values lower n headers = image_mset snd (filter_mset (\<lambda>x. fst x = n) (mset (caller_credentials lower headers)))"
proof -
  have "filter (\<lambda>x. fst x = n) (caller_credentials lower headers)
      = map (\<lambda>(k, v). (lower k, strip v)) (filter (\<lambda>(k, v). lower k = n \<and> v \<noteq> []) headers)"
    using listed_is_credential [OF _ assms(2)] assms(1) by (induction headers) (auto simp: caller_credentials_def)
  then have "filter_mset (\<lambda>x. fst x = n) (mset (caller_credentials lower headers))
      = mset (map (\<lambda>(k, v). (lower k, strip v)) (filter (\<lambda>(k, v). lower k = n \<and> v \<noteq> []) headers))"
    by (metis mset_filter)
  then show ?thesis by (simp add: header_values_def image_mset.compositionality comp_def case_prod_unfold)
qed

text \<open>C29: A partition is one caller. When the principals of two requests are known, their partitions are
  equal if and only if they have the same principal and the same credential headers with the same values,
  in any order, provided the digests of the two texts differ when the texts do. In particular callers
  of one partition agree on the values of each listed credential header: \<open>Authorization\<close>,
  \<open>Proxy-Authorization\<close>, \<open>Cookie\<close>, \<open>Api-Key\<close>, \<open>X-Api-Key\<close> and the names that end in a word
  for a key, token, secret, account, organization or project, in upper or lower case (\<open>str.lower\<close> being
  the usual function on ASCII).\<close>

theorem partition_exact:
  assumes "compute_request_cache_partition lower mac resolver r hs = Some x" and "resolve_authenticated_principal resolver r = Inr p"
    and "compute_request_cache_partition lower mac resolver r' hs' = Some x'" and "resolve_authenticated_principal resolver r' = Inr p'"
    and "\<forall>(n, v) \<in> set (caller_credentials lower hs) \<union> set (caller_credentials lower hs'). str_ok n \<and> str_ok v"
    and "str_ok (case p of Some s \<Rightarrow> s | None \<Rightarrow> [])" and "str_ok (case p' of Some s \<Rightarrow> s | None \<Rightarrow> [])"
    and "take 32 (mac (material_text (partition_material lower hs p))) = take 32 (mac (material_text (partition_material lower hs' p'))) \<longrightarrow>
      material_text (partition_material lower hs p) = material_text (partition_material lower hs' p')"
    and "\<And>s. \<forall>c \<in> set s. c < 128 \<Longrightarrow> lower s = ascii_lower s"
  shows "(x = x' \<longleftrightarrow> p = p' \<and> mset (caller_credentials lower hs) = mset (caller_credentials lower hs'))
    \<and> (x = x' \<longrightarrow> (\<forall>n. listed_credential n \<longrightarrow> header_values lower n hs = header_values lower n hs'))"
proof -
  let ?m = "partition_material lower hs p" and ?m' = "partition_material lower hs' p'"
  have x: "x = compute_cache_partition lower mac hs p" "x' = compute_cache_partition lower mac hs' p'"
    using assms(1-4) by (simp_all add: compute_request_cache_partition_def)
  have named: "q \<noteq> Some []" if "resolve_authenticated_principal resolver z = Inr q" for z q
    using that by (auto simp: resolve_authenticated_principal_def split: option.splits sum.splits list.splits)
  have pp: "principal_part p = principal_part p' \<longleftrightarrow> p = p'"
    using named [OF assms(2)] named [OF assms(4)] by (auto simp: principal_part_def split: option.splits list.splits)
  have ok: "\<forall>(a, b) \<in> set ?m \<union> set ?m'. str_ok a \<and> str_ok b"
  proof -
    have "str_ok (u ''h:'' @ n)" if "str_ok n" for n using that by (simp add: u_def)
    moreover have "str_ok (u ''principal'')" by (simp add: u_def)
    ultimately show ?thesis
      using assms(5-7) by (auto simp: partition_material_eq principal_part_def split: option.splits list.splits)
  qed
  have "x = x' \<longleftrightarrow> mset ?m = mset ?m'"
  proof (cases "?m = [] \<or> ?m' = []")
    case True
    have "u ''anon'' \<noteq> u ''p_'' @ s" for s by (simp add: u_def)
    moreover from this have "u ''p_'' @ s \<noteq> u ''anon''" for s by metis
    ultimately show ?thesis using True x by (auto simp: compute_cache_partition_def Let_def)
  next
    case False
    then have "x = x' \<longleftrightarrow> material_text ?m = material_text ?m'" using x assms(8) by (auto simp: compute_cache_partition_def Let_def)
    then show ?thesis using material_text_inject [OF _ ok] material_text_mset by blast
  qed
  then have "x = x' \<longleftrightarrow> p = p' \<and> mset (caller_credentials lower hs) = mset (caller_credentials lower hs')"
    unfolding partition_material_eq material_mset pp by blast
  moreover have "header_values lower n hs = header_values lower n hs'"
    if "listed_credential n" "mset (caller_credentials lower hs) = mset (caller_credentials lower hs')" for n
    using values_of_credentials [OF that(1) assms(9)] that(2) by simp
  ultimately show ?thesis by blast
qed

section \<open>User data under the name of an annotation\<close>

text \<open>A tool input is not part of the key when it is called \<open>cache_control\<close>. Two requests that differ
  only in the value a tool call of the conversation passes under that name, which the model sees, have
  the same key, so the second is answered with the reply to the first.\<close>

theorem input_named_cache_control_ignored:
  assumes "cq_messages a = xs @ JObj [(u ''role'', JStr (u ''assistant'')), (u ''content'', JList (bs @
      JObj [(u ''type'', JStr (u ''tool_use'')), (u ''id'', i), (u ''name'', n), (u ''input'', JObj (d @ (u ''cache_control'', v) # e))] # cs))] # ys"
    and "b = a\<lparr>cq_messages := xs @ JObj [(u ''role'', JStr (u ''assistant'')), (u ''content'', JList (bs @
      JObj [(u ''type'', JStr (u ''tool_use'')), (u ''id'', i), (u ''name'', n), (u ''input'', JObj (d @ (u ''cache_control'', w) # e))] # cs))] # ys\<rparr>"
  shows "compute_semantic_cache_key sha F b = compute_semantic_cache_key sha F a \<and>
    cache_get sha F now b sc = cache_get sha F now a sc"
proof -
  have app: "strip_cc_fields p (d1 @ d2) = strip_cc_fields p d1 @ strip_cc_fields p d2" for p d1 d2
    by (induction d1) auto
  have "strip_cache_annotations (JList (cq_messages b)) = strip_cache_annotations (JList (cq_messages a))"
    by (simp add: assms strip_cache_annotations_def strip_cc_items_map app)
  moreover have "cq_partition b = cq_partition a" "cq_model b = cq_model a" "cq_fields b = cq_fields a" by (simp_all add: assms(2))
  ultimately have "compute_semantic_cache_key sha F b = compute_semantic_cache_key sha F a"
    by (simp add: compute_semantic_cache_key_def key_text_def key_object_def)
  then show ?thesis by (simp add: cache_get_def)
qed

section \<open>A shared proxy\<close>

text \<open>Two callers ask the same; the digest tells the text of a request from all others.\<close>

definition ask :: "pystr \<Rightarrow> cache_request" where
  "ask part = handler_request part (JStr (u ''m'')) [JObj [(u ''role'', JStr (u ''user'')), (u ''content'', JStr (u ''hi''))]]
     [(u ''system'', JNull)]"

definition tell_apart :: "cache_request \<Rightarrow> pystr \<Rightarrow> pystr" where
  "tell_apart q x = (if x = key_text digits_ratio q then [0] else [1])"

lemma tell_apart_key: "compute_semantic_cache_key (tell_apart q) digits_ratio q = (if cq_partition q = [] then Inl CacheValueError else Inr [0])"
  by (simp add: compute_semantic_cache_key_def tell_apart_def)

lemma tell_apart_ok: "take 32 (tell_apart q x) = take 32 (tell_apart q (key_text digits_ratio q)) \<longrightarrow> x = key_text digits_ratio q"
  by (simp add: tell_apart_def)

lemma ask_ok: "request_ok (ask (u ''p_1''))" "request_ok (ask (u ''p_2''))" "cq_partition (ask part) = part"
  by (simp_all add: request_ok_def ask_def handler_request_def key_names_def) (simp_all add: u_def)

theorem cache_key_exact_witness:
  "compute_semantic_cache_key (tell_apart (ask (u ''p_1''))) digits_ratio (ask (u ''p_2''))
     \<noteq> compute_semantic_cache_key (tell_apart (ask (u ''p_1''))) digits_ratio (ask (u ''p_1''))"
proof -
  have "u ''p_1'' \<noteq> ([] :: pystr)" "u ''p_2'' \<noteq> ([] :: pystr)" "u ''p_2'' \<noteq> u ''p_1''" by simp_all
  then show ?thesis
    using cache_key_exact [OF ask_ok(2) ask_ok(1) digits_ratio_ok _ _ tell_apart_ok] by (simp add: ask_ok(3) same_request_def)
qed

definition shop_cache :: semantic_cache where
  "shop_cache = snd (cache_set (tell_apart (ask (u ''p_1''))) digits_ratio (\<lambda>_. None) 0 (ask (u ''p_1'')) [65] [] 0 (new_semantic_cache 2 60))"

lemma shop_cache_life:
  "cache_life (tell_apart (ask (u ''p_1''))) digits_ratio (\<lambda>_. None) 2 60 shop_cache [(0, ask (u ''p_1''), [65], [])]"
  unfolding shop_cache_def by (rule cache_life.stored [OF cache_life.created prod.collapse [symmetric]])

lemma shop_key: "compute_semantic_cache_key (tell_apart (ask (u ''p_1''))) digits_ratio (ask (u ''p_1'')) = Inr [0]"
  by (simp add: tell_apart_key ask_ok(3))

lemma shop_entries: "sc_entries shop_cache = [([0], new_entry 0 60 [65] [] 0)]"
  by (simp add: shop_cache_def cache_set_def shop_key is_cacheable_reply_def new_semantic_cache_def new_entry_def)

theorem cached_reply_isolated_witness:
  "\<exists>e sc'. cache_get (tell_apart (ask (u ''p_1''))) digits_ratio 5 (ask (u ''p_1'')) shop_cache = (Inr (Some e), sc') \<and> response_body e = [65]"
proof -
  let ?h = "[(0, ask (u ''p_1''), [65], [])] :: past_reply list"
  obtain e sc' where g: "cache_get (tell_apart (ask (u ''p_1''))) digits_ratio 5 (ask (u ''p_1'')) shop_cache = (Inr (Some e), sc')"
    by (simp add: cache_get_def shop_key shop_entries Let_def new_entry_def)
  have "\<forall>(t, q', b, hd) \<in> set ?h. request_ok q' \<and>
      (take 32 (tell_apart (ask (u ''p_1'')) (key_text digits_ratio q')) = take 32 (tell_apart (ask (u ''p_1'')) (key_text digits_ratio (ask (u ''p_1''))))
        \<longrightarrow> key_text digits_ratio q' = key_text digits_ratio (ask (u ''p_1'')))"
    using ask_ok(1) by simp
  from cached_reply_isolated [OF shop_cache_life g ask_ok(1) digits_ratio_ok this] have "response_body e = [65]" by auto
  with g show ?thesis by blast
qed

theorem semantic_cache_bounded_witness:
  "length (sc_entries shop_cache) \<le> 2 \<and> distinct (map fst (sc_entries shop_cache))"
  using semantic_cache_bounded [OF shop_cache_life] by simp

theorem stored_reply_replayed_witness:
  "\<exists>e sc'. cache_get (tell_apart (ask (u ''p_1''))) digits_ratio 60 (ask (u ''p_1''))
      (fold (run_op (tell_apart (ask (u ''p_1''))) digits_ratio (\<lambda>_. None))
        [(1, Store (ask (u ''p_2'')) [66] [] 0), (2, Lookup (ask (u ''p_1'')))]
        (snd (cache_set (tell_apart (ask (u ''p_1''))) digits_ratio (\<lambda>_. None) 0 (ask (u ''p_1'')) [65] [] 0 (new_semantic_cache 2 60))))
      = (Inr (Some e), sc') \<and> response_body e = [65] \<and> response_headers e = []"
proof -
  let ?sha = "tell_apart (ask (u ''p_1''))" and ?ops = "[(1, Store (ask (u ''p_2'')) [66] [] 0), (2, Lookup (ask (u ''p_1'')))] :: (real \<times> reply_op) list"
  have "same_request (ask (u ''p_2'')) (ask (u ''p_1'')) \<longleftrightarrow> False" by (simp add: same_request_def ask_ok(3))
  then have "key_text digits_ratio (ask (u ''p_2'')) \<noteq> key_text digits_ratio (ask (u ''p_1''))"
    using key_text_eq [OF ask_ok(2,1) digits_ratio_ok] by blast
  then have k2: "compute_semantic_cache_key ?sha digits_ratio (ask (u ''p_2'')) = Inr [1]"
    by (simp add: compute_semantic_cache_key_def tell_apart_def ask_ok(3))
  have s: "\<forall>x \<in> set ?ops. spares ?sha digits_ratio [0] (0 + (60 :: int)) x"
    by (simp add: spares_def k2)
  have "(\<Union>x \<in> set ?ops. op_keys ?sha digits_ratio (snd x) - {[0]}) = {[1]}"
    by (simp add: op_keys_def k2 shop_key)
  then have c: "int (card (\<Union>x \<in> set ?ops. op_keys ?sha digits_ratio (snd x) - {[0]})) < 2" by simp
  have b: "is_cacheable_reply (\<lambda>_. None) [65]" by (simp add: is_cacheable_reply_def)
  show ?thesis using stored_reply_replayed [OF cache_life.created shop_key b s c, of 60 "[]" 0] by simp
qed

definition caller_headers :: "string \<Rightarrow> (pystr \<times> pystr) list" where
  "caller_headers v = [(u ''Authorization'', u v)]"

lemma authorization_listed: "listed_credential (u ''authorization'')"
  by (simp add: listed_credential_def startswith_def) (simp add: u_def)

lemma authorization_lower: "ascii_lower (u ''Authorization'') = u ''authorization''"
  by (simp add: ascii_lower_def ascii_lower_char_def u_def)

lemma caller_headers_credentials:
  "v \<noteq> [] \<Longrightarrow> caller_credentials ascii_lower (caller_headers v) = [(u ''authorization'', strip (u v))]"
  using listed_is_credential [of ascii_lower "u ''Authorization''"] authorization_listed
  by (simp add: caller_credentials_def caller_headers_def authorization_lower)

theorem partition_exact_witness:
  "compute_request_cache_partition ascii_lower (\<lambda>x. if x = material_text (partition_material ascii_lower (caller_headers ''a'') None) then [0] else [1])
      None () (caller_headers ''a'')
   \<noteq> compute_request_cache_partition ascii_lower (\<lambda>x. if x = material_text (partition_material ascii_lower (caller_headers ''a'') None) then [0] else [1])
      None () (caller_headers ''b'')"
proof -
  let ?mac = "\<lambda>x. if x = material_text (partition_material ascii_lower (caller_headers ''a'') None) then [0] else [1 :: nat]"
  have st: "strip (u ''a'') = u ''a''" "strip (u ''b'') = u ''b''"
    by (simp_all add: strip_def lstrip_def rstrip_def py_isspace_def u_def)
  have c: "caller_credentials ascii_lower (caller_headers ''a'') = [(u ''authorization'', u ''a'')]"
    "caller_credentials ascii_lower (caller_headers ''b'') = [(u ''authorization'', u ''b'')]"
    using caller_headers_credentials [of "''a''"] caller_headers_credentials [of "''b''"] st by simp_all
  have p: "resolve_authenticated_principal None () = Inr None" by (simp add: resolve_authenticated_principal_def)
  obtain x y where x: "compute_request_cache_partition ascii_lower ?mac None () (caller_headers ''a'') = Some x"
    and y: "compute_request_cache_partition ascii_lower ?mac None () (caller_headers ''b'') = Some y"
    by (simp add: compute_request_cache_partition_def p)
  have ok: "\<forall>(n, v) \<in> set (caller_credentials ascii_lower (caller_headers ''a'')) \<union> set (caller_credentials ascii_lower (caller_headers ''b'')).
      str_ok n \<and> str_ok v"
    unfolding c by (simp add: u_def)
  have "x = y \<longrightarrow> (\<forall>n. listed_credential n \<longrightarrow> header_values ascii_lower n (caller_headers ''a'') = header_values ascii_lower n (caller_headers ''b''))"
    by (rule conjunct2 [OF partition_exact [OF x p y p ok]]) simp_all
  moreover have "header_values ascii_lower (u ''authorization'') (caller_headers ''a'') \<noteq> header_values ascii_lower (u ''authorization'') (caller_headers ''b'')"
    by (simp add: header_values_def caller_headers_def authorization_lower st)
  ultimately have "x \<noteq> y" using authorization_listed by blast
  then show ?thesis using x y by simp
qed

definition fetch_call :: "string \<Rightarrow> cache_request" where
  "fetch_call policy = handler_request (u ''anon'') (JStr (u ''m'')) ([] @ JObj [(u ''role'', JStr (u ''assistant'')), (u ''content'', JList ([] @
      JObj [(u ''type'', JStr (u ''tool_use'')), (u ''id'', JStr (u ''t1'')), (u ''name'', JStr (u ''fetch'')),
        (u ''input'', JObj ([] @ (u ''cache_control'', JStr (u policy)) # []))] # []))] # []) []"

theorem input_named_cache_control_ignored_witness:
  "cq_messages (fetch_call ''no-store'') \<noteq> cq_messages (fetch_call ''public'')
   \<and> compute_semantic_cache_key (\<lambda>x. x) digits_ratio (fetch_call ''no-store'') = compute_semantic_cache_key (\<lambda>x. x) digits_ratio (fetch_call ''public'')"
proof -
  have m: "cq_messages (fetch_call policy) = [] @ JObj [(u ''role'', JStr (u ''assistant'')), (u ''content'', JList ([] @
      JObj [(u ''type'', JStr (u ''tool_use'')), (u ''id'', JStr (u ''t1'')), (u ''name'', JStr (u ''fetch'')),
        (u ''input'', JObj ([] @ (u ''cache_control'', JStr (u policy)) # []))] # []))] # []" for policy
    by (simp add: fetch_call_def handler_request_def)
  have b: "fetch_call ''no-store'' = fetch_call ''public''\<lparr>cq_messages := cq_messages (fetch_call ''no-store'')\<rparr>"
    by (simp add: fetch_call_def handler_request_def)
  have "cq_messages (fetch_call ''no-store'') \<noteq> cq_messages (fetch_call ''public'')" unfolding m by simp
  then show ?thesis using input_named_cache_control_ignored [OF m b [unfolded m]] by blast
qed

end
