(* ===== verification/Response_Handler.thy ===== *)
theory Response_Handler
  imports Session_Sticky Compression_Store Json_Text
begin

text \<open>
  What happens when the model calls the retrieval tool (\<open>ccr/tool_calls.py\<close>,
  \<open>parse_tool_call\<close> of \<open>ccr/tool_injection.py\<close>, \<open>CCRResponseHandler\<close> of
  \<open>ccr/response_handler.py\<close>): the calls of a response are split into retrievals and others, each
  retrieval is answered from the CCR store, the conversation is continued with the answers, and
  this is repeated up to \<open>max_retrieval_rounds\<close> times.

  An object of a response is identified by its position in the list that holds it, since the
  objects \<open>json.loads\<close> builds are distinct: \<open>drop_tool_calls\<close>, which compares by
  \<open>id()\<close>, removes positions. \<open>api_call_fn\<close> is an argument: a function of the messages, the
  tools, the store and the state \<open>'w\<close> of everything else, so that other requests may use the store
  while the call is awaited. It gets the messages by value; the code passes the list it goes on
  extending, which the callers serialise at once. Each store method reads the clock \<open>ru_clock\<close> once, at successive
  indices. Logging, and the handler for event streams (\<open>StreamingCCRHandler\<close>, which the proxy does
  not use), are left out.
\<close>

section \<open>Environment\<close>

datatype provider = Anthropic | OpenAI | Google | OpenAIResponses | OtherProvider

text \<open>\<open>json.loads\<close> (\<open>None\<close> for \<open>JSONDecodeError\<close>), \<open>str.lower\<close>, \<open>str()\<close> of a
  float, a list or a dictionary, and \<open>float.__repr__\<close>.\<close>

record reply_env =
  re_loads :: "pystr \<Rightarrow> json option"
  re_lower :: "pystr \<Rightarrow> pystr"
  re_str :: "json \<Rightarrow> pystr"
  re_float :: "rat \<Rightarrow> pystr"

definition py_str :: "reply_env \<Rightarrow> json \<Rightarrow> pystr" where
  "py_str E v =
     (case v of JStr s \<Rightarrow> s | JNull \<Rightarrow> u ''None'' | JBool b \<Rightarrow> u (if b then ''True'' else ''False'')
      | JInt i \<Rightarrow> show_int i | _ \<Rightarrow> re_str E v)"

text \<open>\<open>v or {}\<close>.\<close>

definition or_dict :: "json \<Rightarrow> json" where
  "or_dict v = (if truthy v then v else JObj [])"

section \<open>Tool calls of a response\<close>

type_synonym placed = "nat \<times> json"

definition has_function_call :: "json \<Rightarrow> bool" where
  "has_function_call b = (case b of JObj d \<Rightarrow> map_of d (u ''functionCall'') \<noteq> None | _ \<Rightarrow> False)"

definition extract_tool_calls :: "provider \<Rightarrow> pydict \<Rightarrow> placed list" where
  "extract_tool_calls p r =
     (case p of
        Anthropic \<Rightarrow>
          (case dget r ''content'' of
             JList bs \<Rightarrow> filter (\<lambda>(i, b). is_block ''tool_use'' b) (enumerate 0 bs) | _ \<Rightarrow> [])
      | OpenAI \<Rightarrow>
          (case dget r ''choices'' of
             JList (JObj c # _) \<Rightarrow>
               (case dget c ''message'' of
                  JObj m \<Rightarrow> (case dget m ''tool_calls'' of JList cs \<Rightarrow> enumerate 0 cs | _ \<Rightarrow> [])
                | _ \<Rightarrow> [])
           | _ \<Rightarrow> [])
      | Google \<Rightarrow>
          (case dget r ''candidates'' of
             JList (JObj c # _) \<Rightarrow>
               (case dget c ''content'' of
                  JObj m \<Rightarrow>
                    (case dget m ''parts'' of
                       JList ps \<Rightarrow> filter (\<lambda>(i, b). has_function_call b) (enumerate 0 ps)
                     | _ \<Rightarrow> [])
                | _ \<Rightarrow> [])
           | _ \<Rightarrow> [])
      | OpenAIResponses \<Rightarrow>
          (case dget r ''output'' of
             JList bs \<Rightarrow> filter (\<lambda>(i, b). is_block ''function_call'' b) (enumerate 0 bs) | _ \<Rightarrow> [])
      | OtherProvider \<Rightarrow> [])"

text \<open>\<open>[x for x in xs if id(x) not in drop]\<close>.\<close>

definition drop_at :: "nat list \<Rightarrow> json list \<Rightarrow> json list" where
  "drop_at ps xs = map snd (filter (\<lambda>(i, x). i \<notin> set ps) (enumerate 0 xs))"

text \<open>\<open>drop_tool_calls\<close>; \<open>None\<close> is the \<open>response\<close> object itself, given back unchanged.\<close>

definition drop_tool_calls :: "provider \<Rightarrow> pydict \<Rightarrow> nat list \<Rightarrow> pydict option" where
  "drop_tool_calls p r ps =
     (case p of
        Anthropic \<Rightarrow>
          (case dget r ''content'' of
             JList bs \<Rightarrow> Some (dset r ''content'' (JList (drop_at ps bs))) | _ \<Rightarrow> None)
      | OpenAI \<Rightarrow>
          (case dget r ''choices'' of
             JList (JObj c # cs) \<Rightarrow>
               (case dget c ''message'' of
                  JObj m \<Rightarrow>
                    (case dget m ''tool_calls'' of
                       JList ts \<Rightarrow>
                         Some (dset r ''choices'' (JList (JObj (dset c ''message''
                           (JObj (dset m ''tool_calls'' (JList (drop_at ps ts))))) # cs)))
                     | _ \<Rightarrow> None)
                | _ \<Rightarrow> None)
           | _ \<Rightarrow> None)
      | _ \<Rightarrow> None)"

text \<open>\<open>is_ccr_tool_call\<close>: the name at the top, under \<open>function\<close> or under
  \<open>functionCall\<close>; the later ones are looked at only when the earlier ones differ.\<close>

definition names_ccr_under :: "string \<Rightarrow> pydict \<Rightarrow> py_error + bool" where
  "names_ccr_under k d =
     (case or_dict (dget d k) of
        JObj f \<Rightarrow> Inr (dget f ''name'' = JStr CCR_TOOL_NAME) | _ \<Rightarrow> Inl PyAttributeError)"

definition is_ccr_tool_call :: "json \<Rightarrow> py_error + bool" where
  "is_ccr_tool_call c =
     (case c of
        JObj d \<Rightarrow>
          if dget d ''name'' = JStr CCR_TOOL_NAME then Inr True
          else bindR (names_ccr_under ''function'' d) (\<lambda>b.
                 if b then Inr True else names_ccr_under ''functionCall'' d)
      | _ \<Rightarrow> Inl PyAttributeError)"

fun any_ccr_tool_call :: "placed list \<Rightarrow> py_error + bool" where
  "any_ccr_tool_call [] = Inr False"
| "any_ccr_tool_call ((i, c) # cs) =
     bindR (is_ccr_tool_call c) (\<lambda>b. if b then Inr True else any_ccr_tool_call cs)"

definition has_ccr_tool_calls :: "provider \<Rightarrow> pydict \<Rightarrow> py_error + bool" where
  "has_ccr_tool_calls p r = any_ccr_tool_call (extract_tool_calls p r)"

text \<open>\<open>has_ccr_retrieve_tool\<close>: whether a tool list, in either shape, defines the retrieval tool.\<close>

definition has_ccr_retrieve_tool :: "json \<Rightarrow> bool" where
  "has_ccr_retrieve_tool tools =
     (case tools of
        JList ts \<Rightarrow>
          list_ex (\<lambda>t. case t of
            JObj d \<Rightarrow>
              dget d ''name'' = JStr CCR_TOOL_NAME
              \<or> (case dget d ''function'' of JObj f \<Rightarrow> dget f ''name'' = JStr CCR_TOOL_NAME | _ \<Rightarrow> False)
          | _ \<Rightarrow> False) ts
      | _ \<Rightarrow> False)"

text \<open>\<open>parse_tool_call\<close>: the name and the input of a call, then the hash in the input. A
  \<open>JSONDecodeError\<close> or \<open>TypeError\<close> of \<open>json.loads\<close> leaves an empty input.\<close>

definition load_arguments :: "reply_env \<Rightarrow> json \<Rightarrow> json" where
  "load_arguments E v =
     (case v of JStr s \<Rightarrow> (case re_loads E s of Some j \<Rightarrow> j | None \<Rightarrow> JObj []) | _ \<Rightarrow> JObj [])"

definition name_and_input :: "reply_env \<Rightarrow> provider \<Rightarrow> pydict \<Rightarrow> py_error + json \<times> json" where
  "name_and_input E p d =
     (case p of
        Anthropic \<Rightarrow> Inr (dget d ''name'', dget_default d ''input'' (JObj []))
      | OpenAI \<Rightarrow>
          (case or_dict (dget d ''function'') of
             JObj f \<Rightarrow> Inr (dget f ''name'', load_arguments E (dget_default f ''arguments'' (JStr (u ''{}''))))
           | _ \<Rightarrow> Inl PyAttributeError)
      | Google \<Rightarrow>
          (case or_dict (dget d ''functionCall'') of
             JObj f \<Rightarrow> Inr (dget f ''name'', dget_default f ''args'' (JObj []))
           | _ \<Rightarrow> Inl PyAttributeError)
      | OpenAIResponses \<Rightarrow>
          Inr (dget d ''name'', load_arguments E (dget_default d ''arguments'' (JStr (u ''{}''))))
      | OtherProvider \<Rightarrow>
          Inr (dget d ''name'', dget_default d ''input'' (dget_default d ''args'' (JObj []))))"

definition lower_hex :: "pystr \<Rightarrow> bool" where
  "lower_hex s \<longleftrightarrow> (\<forall>c \<in> set s. c \<in> set (u ''0123456789abcdef''))"

definition hash_of_input :: "reply_env \<Rightarrow> json \<Rightarrow> pystr option" where
  "hash_of_input E v =
     (case v of
        JObj a \<Rightarrow>
          (case dget a ''hash'' of
             JStr h \<Rightarrow>
               if length h \<in> {12, 24} \<and> lower_hex (re_lower E h) then Some (re_lower E h) else None
           | _ \<Rightarrow> None)
      | _ \<Rightarrow> None)"

definition parse_tool_call :: "reply_env \<Rightarrow> provider \<Rightarrow> json \<Rightarrow> py_error + pystr option" where
  "parse_tool_call E p c =
     (case c of
        JObj d \<Rightarrow>
          bindR (name_and_input E p d) (\<lambda>(n, v).
            Inr (if n \<noteq> JStr CCR_TOOL_NAME then None else hash_of_input E v))
      | _ \<Rightarrow> Inl PyAttributeError)"

definition tool_call_id_for_provider :: "reply_env \<Rightarrow> provider \<Rightarrow> pydict \<Rightarrow> pystr" where
  "tool_call_id_for_provider E p d =
     (case p of
        Google \<Rightarrow>
          (case dget_default d ''functionCall'' (JObj []) of
             JObj f \<Rightarrow>
               if truthy (dget f ''id'') then py_str E (dget f ''id'')
               else py_str E (dget_default f ''name'' (JStr CCR_TOOL_NAME))
           | _ \<Rightarrow> CCR_TOOL_NAME)
      | OpenAIResponses \<Rightarrow> py_str E (dget_default d ''call_id'' (dget_default d ''id'' (JStr [])))
      | _ \<Rightarrow> py_str E (dget_default d ''id'' (JStr [])))"

record retrieval_call =
  cc_id :: pystr
  cc_hash :: pystr
  cc_tool_name :: "pystr option"

definition dict_of :: "json \<Rightarrow> pydict" where
  "dict_of c = (case c of JObj d \<Rightarrow> d | _ \<Rightarrow> [])"

definition ccr_call_of :: "reply_env \<Rightarrow> provider \<Rightarrow> json \<Rightarrow> pystr \<Rightarrow> retrieval_call" where
  "ccr_call_of E p c k =
     \<lparr>cc_id = tool_call_id_for_provider E p (dict_of c), cc_hash = k,
      cc_tool_name =
        (if p = Google then
           (case dget_default (dict_of c) ''functionCall'' (JObj []) of
              JObj f \<Rightarrow>
                if truthy (dget f ''id'')
                then Some (py_str E (dget_default f ''name'' (JStr CCR_TOOL_NAME))) else None
            | _ \<Rightarrow> None)
         else None)\<rparr>"

fun parse_calls :: "reply_env \<Rightarrow> provider \<Rightarrow> placed list \<Rightarrow> py_error + retrieval_call list \<times> placed list" where
  "parse_calls E p [] = Inr ([], [])"
| "parse_calls E p ((i, c) # cs) =
     bindR (parse_tool_call E p c) (\<lambda>h.
       bindR (parse_calls E p cs) (\<lambda>(ccr, others).
         Inr (case h of
                None \<Rightarrow> (ccr, (i, c) # others)
              | Some k \<Rightarrow> (ccr_call_of E p c k # ccr, others))))"

definition parse_ccr_tool_calls ::
  "reply_env \<Rightarrow> provider \<Rightarrow> pydict \<Rightarrow> py_error + retrieval_call list \<times> placed list" where
  "parse_ccr_tool_calls E p r = parse_calls E p (extract_tool_calls p r)"

datatype residual_status = Resolved | SkippedMixed | ResidualError

definition residual_ccr_status :: "reply_env \<Rightarrow> provider \<Rightarrow> pydict \<Rightarrow> py_error + residual_status" where
  "residual_ccr_status E p r =
     bindR (parse_ccr_tool_calls E p r) (\<lambda>(ccr, others).
       Inr (if ccr = [] then Resolved else if others \<noteq> [] then SkippedMixed else ResidualError))"

section \<open>One retrieval\<close>

record ccr_result =
  cr_id :: pystr
  cr_content :: pystr
  cr_success :: bool
  cr_items :: int
  cr_tool_name :: "pystr option"

text \<open>\<open>f"{x:.0f}"\<close>: to the nearest integer, halves to the even one, with the sign of \<open>x\<close>.\<close>

definition round_half_even :: "real \<Rightarrow> int" where
  "round_half_even x =
     (let f = \<lfloor>x\<rfloor>; d = x - real_of_int f in
      if d < 1 / 2 then f else if d > 1 / 2 then f + 1 else if even f then f else f + 1)"

definition show_rounded :: "real \<Rightarrow> pystr" where
  "show_rounded x = (let n = round_half_even x in if n = 0 \<and> x < 0 then u ''-0'' else show_int n)"

definition format_retrieval_miss_detail :: "entry_status \<Rightarrow> pystr" where
  "format_retrieval_miss_detail st =
     (let missing = (\<lambda>dttl. u ''Entry not found (CCR TTL: '' @ show_int dttl @ u '' seconds)'') in
      case st of
        Missing dttl \<Rightarrow> missing dttl
      | Status expired ttl dttl created expires age \<Rightarrow>
          if expired
          then u ''Entry expired (CCR TTL: '' @ show_int ttl @ u '' seconds; age: ''
               @ show_rounded age @ u '' seconds)''
          else missing dttl)"

definition status_text :: "entry_status \<Rightarrow> json" where
  "status_text st =
     JStr (u (case st of Missing _ \<Rightarrow> ''missing''
                       | Status expired _ _ _ _ _ \<Rightarrow> if expired then ''expired'' else ''available''))"

text \<open>\<open>json.dumps(d, indent=2)\<close> of a dictionary whose values are no lists or dictionaries.\<close>

definition indented_text :: "reply_env \<Rightarrow> pydict \<Rightarrow> pystr" where
  "indented_text E d =
     u ''{'' @ [10] @ u ''  '' @ join (u '','' @ [10] @ u ''  '') (dumps_fields (re_float E) d)
     @ [10] @ u ''}''"

definition hit_text :: "reply_env \<Rightarrow> pystr \<Rightarrow> pystr \<Rightarrow> int \<Rightarrow> pystr" where
  "hit_text E k original items =
     indented_text E [(u ''hash'', JStr k), (u ''original_content'', JStr original),
       (u ''original_item_count'', JInt items)]"

definition miss_text :: "reply_env \<Rightarrow> pystr \<Rightarrow> entry_status \<Rightarrow> json \<Rightarrow> pystr" where
  "miss_text E k st ttl =
     indented_text E [(u ''error'', JStr (format_retrieval_miss_detail st)), (u ''hash'', JStr k),
       (u ''status'', status_text st), (u ''ttl_seconds'', ttl)]"

definition is_available :: "entry_status \<Rightarrow> bool" where
  "is_available st = (case st of Missing _ \<Rightarrow> False | Status expired _ _ _ _ _ \<Rightarrow> \<not> expired)"

text \<open>\<open>_execute_retrieval\<close>; the second component counts the clock readings. The store that is
  modelled raises nothing, so the branch for an exception of the store is not taken.\<close>

definition execute_retrieval ::
  "reply_env \<Rightarrow> 'b backend_ops \<Rightarrow> (nat \<Rightarrow> real) \<Rightarrow> retrieval_call \<Rightarrow> 'b cstore \<times> nat
    \<Rightarrow> ccr_result \<times> 'b cstore \<times> nat" where
  "execute_retrieval E B clock c w =
     (case w of (s, n) \<Rightarrow>
        let k = cc_hash c;
            result = (\<lambda>txt ok items.
              \<lparr>cr_id = cc_id c, cr_content = txt, cr_success = ok, cr_items = items,
               cr_tool_name = cc_tool_name c\<rparr>);
            (st, s1) = get_entry_status B (clock n) s k True in
        if \<not> is_available st then
          (result (miss_text E k st
             (JInt (case st of Missing dttl \<Rightarrow> dttl | Status _ ttl _ _ _ _ \<Rightarrow> ttl))) False 0,
           s1, n + 1)
        else
          case retrieve B (clock (n + 1)) s1 k None of
            (Some e, s2) \<Rightarrow>
              (result (hit_text E k (original_content e) (original_item_count e)) True
                 (original_item_count e), s2, n + 2)
          | (None, s2) \<Rightarrow>
              (case get_entry_status B (clock (n + 2)) s2 k True of
                 (st2, s3) \<Rightarrow>
                   (result (miss_text E k st2
                      (case st2 of Missing _ \<Rightarrow> JNull | Status _ ttl _ _ _ _ \<Rightarrow> JInt ttl)) False 0,
                    s3, n + 3)))"

fun execute_all ::
  "reply_env \<Rightarrow> 'b backend_ops \<Rightarrow> (nat \<Rightarrow> real) \<Rightarrow> retrieval_call list \<Rightarrow> 'b cstore \<times> nat
    \<Rightarrow> ccr_result list \<times> 'b cstore \<times> nat" where
  "execute_all E B clock [] w = ([], w)"
| "execute_all E B clock (c # cs) w =
     (case execute_retrieval E B clock c w of
        (r, w1) \<Rightarrow> (case execute_all E B clock cs w1 of (rs, w2) \<Rightarrow> (r # rs, w2)))"

section \<open>The continuation\<close>

text \<open>\<open>_extract_assistant_message\<close>. A Responses turn is a list of items under a marker key.\<close>

definition extract_assistant_message :: "provider \<Rightarrow> pydict \<Rightarrow> py_error + pydict" where
  "extract_assistant_message p r =
     (case p of
        Anthropic \<Rightarrow>
          Inr [(u ''role'', JStr (u ''assistant'')), (u ''content'', dget_default r ''content'' (JList []))]
      | OpenAI \<Rightarrow>
          (case (case dget r ''choices'' of
                   JList (JObj c # _) \<Rightarrow> dget_default c ''message'' (JObj []) | _ \<Rightarrow> JObj []) of
             JObj m \<Rightarrow>
               Inr [(u ''role'', JStr (u ''assistant'')), (u ''content'', dget m ''content''),
                    (u ''tool_calls'', dget m ''tool_calls'')]
           | _ \<Rightarrow> Inl PyAttributeError)
      | OpenAIResponses \<Rightarrow>
          Inr [(u ''_openai_responses_output_items'',
                case dget r ''output'' of JList xs \<Rightarrow> JList xs | _ \<Rightarrow> JList [])]
      | Google \<Rightarrow>
          bindR
            (if truthy (dget_default r ''candidates'' (JList [])) then
               (case dget r ''candidates'' of
                  JList (JObj c # _) \<Rightarrow>
                    (case dget_default c ''content'' (JObj []) of
                       JObj m \<Rightarrow> Inr (dget_default m ''parts'' (JList [])) | _ \<Rightarrow> Inl PyAttributeError)
                | JList _ \<Rightarrow> Inl PyAttributeError
                | JStr _ \<Rightarrow> Inl PyAttributeError
                | JObj _ \<Rightarrow> Inl PyKeyError
                | _ \<Rightarrow> Inl PyTypeError)
             else Inr (JList []))
            (\<lambda>parts. Inr [(u ''role'', JStr (u ''model'')), (u ''parts'', parts)])
      | OtherProvider \<Rightarrow>
          Inr [(u ''role'', JStr (u ''assistant'')), (u ''content'', dget_default r ''content'' (JStr []))])"

definition function_response :: "reply_env \<Rightarrow> ccr_result \<Rightarrow> json" where
  "function_response E r =
     (let name = (case cr_tool_name r of Some n \<Rightarrow> if n \<noteq> [] then n else cr_id r | None \<Rightarrow> cr_id r);
          data = (case re_loads E (cr_content r) of
                    Some j \<Rightarrow> j | None \<Rightarrow> JObj [(u ''content'', JStr (cr_content r))]) in
      JObj [(u ''functionResponse'',
        JObj ([(u ''name'', JStr name), (u ''response'', data)]
          @ (case cr_tool_name r of
               Some n \<Rightarrow> if n \<noteq> [] \<and> cr_id r \<noteq> n then [(u ''id'', JStr (cr_id r))] else []
             | None \<Rightarrow> [])))])"

definition create_tool_result_message :: "reply_env \<Rightarrow> provider \<Rightarrow> ccr_result list \<Rightarrow> pydict" where
  "create_tool_result_message E p rs =
     (case p of
        Anthropic \<Rightarrow>
          [(u ''role'', JStr (u ''user'')),
           (u ''content'', JList (map (\<lambda>r. JObj [(u ''type'', JStr (u ''tool_result'')),
              (u ''tool_use_id'', JStr (cr_id r)), (u ''content'', JStr (cr_content r))]) rs))]
      | OpenAI \<Rightarrow>
          [(u ''_openai_tool_results'',
            JList (map (\<lambda>r. JObj [(u ''role'', JStr (u ''tool'')), (u ''tool_call_id'', JStr (cr_id r)),
              (u ''content'', JStr (cr_content r))]) rs))]
      | OpenAIResponses \<Rightarrow>
          [(u ''_openai_responses_tool_results'',
            JList (map (\<lambda>r. JObj [(u ''type'', JStr (u ''function_call_output'')),
              (u ''call_id'', JStr (cr_id r)), (u ''output'', JStr (cr_content r))]) rs))]
      | Google \<Rightarrow>
          [(u ''role'', JStr (u ''user'')), (u ''parts'', JList (map (function_response E) rs))]
      | OtherProvider \<Rightarrow>
          [(u ''role'', JStr (u ''tool'')),
           (u ''content'', JStr (dumps_text (re_float E)
              (JList (map (\<lambda>r. JObj [(u ''tool_call_id'', JStr (cr_id r)),
                 (u ''result'', JStr (cr_content r))]) rs))))])"

text \<open>The list under a marker key is added item by item, any other message as one item.\<close>

definition items_under :: "string \<Rightarrow> pydict \<Rightarrow> json list option" where
  "items_under k msg = (case map_of msg (u k) of Some (JList xs) \<Rightarrow> Some xs | _ \<Rightarrow> None)"

definition said_items :: "pydict \<Rightarrow> json list" where
  "said_items msg =
     (case items_under ''_openai_responses_output_items'' msg of Some xs \<Rightarrow> xs | None \<Rightarrow> [JObj msg])"

definition answer_items :: "provider \<Rightarrow> pydict \<Rightarrow> json list" where
  "answer_items p msg =
     (case (if p = OpenAI then items_under ''_openai_tool_results'' msg else None) of
        Some xs \<Rightarrow> xs
      | None \<Rightarrow> (case items_under ''_openai_responses_tool_results'' msg of Some xs \<Rightarrow> xs | None \<Rightarrow> [JObj msg]))"

section \<open>The loop\<close>

record ccr_config =
  cfg_enabled :: bool
  cfg_max_retrieval_rounds :: int

text \<open>How a continuation call fails: with an HTTP status, or with another exception.\<close>

datatype api_error = HttpStatus int | CallFailed

type_synonym ('b, 'w) api_call =
  "json list \<Rightarrow> json \<Rightarrow> 'b cstore \<times> 'w \<Rightarrow> (api_error + pydict) \<times> 'b cstore \<times> 'w"

text \<open>Whether a response is the object \<open>handle_response\<close> was given, or one the API answered.\<close>

datatype origin = Argument | Answer

text \<open>A ghost record of each API call: the messages it was given and what came of it.\<close>

record exchange =
  ex_request :: "json list"
  ex_answer :: "api_error + pydict"

record ('b, 'w) ccr_world =
  w_store :: "'b cstore"
  w_outside :: 'w
  w_reads :: nat
  w_retrieval_count :: nat
  w_exchanges :: "exchange list"

text \<open>What does not change during a call of \<open>handle_response\<close>.\<close>

record ('b, 'w) ccr_run =
  ru_env :: reply_env
  ru_backend :: "'b backend_ops"
  ru_clock :: "nat \<Rightarrow> real"
  ru_api :: "('b, 'w) api_call"
  ru_provider :: provider
  ru_tools :: json
  ru_config :: ccr_config

record ('b, 'w) loop_state =
  ls_rounds :: int
  ls_origin :: origin
  ls_response :: pydict
  ls_messages :: "json list"
  ls_world :: "('b, 'w) ccr_world"

text \<open>What a round starts with: nothing to do (\<open>None\<close>), or the retrievals of the response and the
  turn that goes into the conversation, the response without the client calls that have not run.\<close>

definition plan_round :: "reply_env \<Rightarrow> provider \<Rightarrow> pydict \<Rightarrow> py_error + (retrieval_call list \<times> pydict) option" where
  "plan_round E p r =
     bindR (parse_ccr_tool_calls E p r) (\<lambda>(ccr, others).
       if ccr = [] then Inr None
       else if others = [] then Inr (Some (ccr, r))
       else bindR (any_ccr_tool_call others) (\<lambda>b.
         Inr (if b then None
              else map_option (Pair ccr) (drop_tool_calls p r (map fst others)))))"

text \<open>The retrievals of a round and the messages of its continuation.\<close>

definition serve_round ::
  "('b, 'w) ccr_run \<Rightarrow> retrieval_call list \<Rightarrow> pydict \<Rightarrow> ('b, 'w) loop_state \<Rightarrow> (py_error + json list) \<times> ('b, 'w) ccr_world"
where
  "serve_round R ccr turn st =
     (let w = ls_world st;
          (results, s1, n1) = execute_all (ru_env R) (ru_backend R) (ru_clock R) ccr (w_store w, w_reads w);
          w1 = w\<lparr>w_store := s1, w_reads := n1, w_retrieval_count := w_retrieval_count w + length ccr\<rparr> in
      (bindR (extract_assistant_message (ru_provider R) turn) (\<lambda>msg.
         Inr (ls_messages st @ said_items msg
              @ answer_items (ru_provider R) (create_tool_result_message (ru_env R) (ru_provider R) results))),
       w1))"

definition call_api ::
  "('b, 'w) ccr_run \<Rightarrow> json list \<Rightarrow> ('b, 'w) ccr_world \<Rightarrow> (api_error + pydict) \<times> ('b, 'w) ccr_world" where
  "call_api R msgs w =
     (case ru_api R msgs (ru_tools R) (w_store w, w_outside w) of
        (a, s, x) \<Rightarrow>
          (a, w\<lparr>w_store := s, w_outside := x,
                w_exchanges := w_exchanges w @ [\<lparr>ex_request = msgs, ex_answer = a\<rparr>]\<rparr>))"

text \<open>The \<open>while\<close> loop. A failed continuation gives back the response the round began with, whether
  or not the round had left out client calls.\<close>

function ccr_rounds ::
  "('b, 'w) ccr_run \<Rightarrow> ('b, 'w) loop_state \<Rightarrow> (py_error + origin \<times> pydict) \<times> ('b, 'w) ccr_world" where
  "ccr_rounds R st =
     (if ls_rounds st < cfg_max_retrieval_rounds (ru_config R) then
        (case plan_round (ru_env R) (ru_provider R) (ls_response st) of
           Inl e \<Rightarrow> (Inl e, ls_world st)
         | Inr None \<Rightarrow> (Inr (ls_origin st, ls_response st), ls_world st)
         | Inr (Some (ccr, turn)) \<Rightarrow>
             (case serve_round R ccr turn st of
                (Inl e, w1) \<Rightarrow> (Inl e, w1)
              | (Inr msgs, w1) \<Rightarrow>
                  (case call_api R msgs w1 of
                     (Inl _, w2) \<Rightarrow> (Inr (ls_origin st, ls_response st), w2)
                   | (Inr r, w2) \<Rightarrow>
                       ccr_rounds R \<lparr>ls_rounds = ls_rounds st + 1, ls_origin = Answer, ls_response = r,
                         ls_messages = msgs, ls_world = w2\<rparr>)))
      else (Inr (ls_origin st, ls_response st), ls_world st))"
  by pat_completeness auto

termination
  by (relation "measure (\<lambda>(R, st). nat (cfg_max_retrieval_rounds (ru_config R) - ls_rounds st))") auto

declare ccr_rounds.simps [simp del]

definition handle_response ::
  "('b, 'w) ccr_run \<Rightarrow> pydict \<Rightarrow> json list \<Rightarrow> ('b, 'w) ccr_world
    \<Rightarrow> (py_error + origin \<times> pydict) \<times> ('b, 'w) ccr_world" where
  "handle_response R response messages w =
     (if \<not> cfg_enabled (ru_config R) then (Inr (Argument, response), w)
      else ccr_rounds R \<lparr>ls_rounds = 0, ls_origin = Argument, ls_response = response,
             ls_messages = messages, ls_world = w\<rparr>)"

text \<open>\<open>get_stats\<close>.\<close>

definition handler_stats :: "ccr_config \<Rightarrow> ('b, 'w) ccr_world \<Rightarrow> nat \<times> bool \<times> int" where
  "handler_stats cfg w = (w_retrieval_count w, cfg_enabled cfg, cfg_max_retrieval_rounds cfg)"

section \<open>Where the chat completions handler uses it\<close>

text \<open>The direct chat path: \<open>None\<close> forwards the upstream reply byte for byte, \<open>Some r\<close> replaces it.
  An exception also forwards the reply; one that \<open>has_ccr_tool_calls\<close> raises is not caught.\<close>

definition continuation_status_failed :: "exchange list \<Rightarrow> bool" where
  "continuation_status_failed xs \<longleftrightarrow> (\<exists>x \<in> set xs. case ex_answer x of Inl (HttpStatus _) \<Rightarrow> True | _ \<Rightarrow> False)"

definition resolve_direct_chat ::
  "('b, 'w) ccr_run \<Rightarrow> pydict \<Rightarrow> json list \<Rightarrow> ('b, 'w) ccr_world \<Rightarrow> (py_error + pydict option) \<times> ('b, 'w) ccr_world"
where
  "resolve_direct_chat R reply messages w =
     (if reply = [] then (Inr None, w)
      else case has_ccr_tool_calls OpenAI reply of
        Inl e \<Rightarrow> (Inl e, w)
      | Inr False \<Rightarrow> (Inr None, w)
      | Inr True \<Rightarrow>
          (case handle_response (R\<lparr>ru_provider := OpenAI\<rparr>) reply messages w of
             (Inl e, w1) \<Rightarrow> (Inr None, w1)
           | (Inr (o1, r), w1) \<Rightarrow>
               (Inr (if continuation_status_failed (drop (length (w_exchanges w)) (w_exchanges w1))
                        \<or> o1 = Argument
                     then None else Some r), w1)))"

end
