(* ===== verification/Response_Handler_Props.thy ===== *)
theory Response_Handler_Props
  imports Response_Handler Compression_Store_Props Json_Text_Props
begin

text \<open>
  Correctness of the retrieval loop: it stops after at most \<open>max_retrieval_rounds\<close> calls, every
  request it makes answers every tool call of the turn it continues, what it returns is the model's
  own turn, the calls that remain are accounted for, and a stored original reaches the model. The
  loop is a function; \<open>answered_round\<close> and \<open>stops\<close> are its steps as relations, and the theorems are
  invariants of its runs.
\<close>

section \<open>Splitting the calls\<close>

lemma enumerate_snd [simp]: "map snd (enumerate n xs) = xs"
  by (simp add: enumerate_eq_zip)

lemma map_snd_filter: "map snd (filter (\<lambda>(i, x). P x) ps) = filter P (map snd ps)"
  by (induction ps) auto

lemma filter_drop_at:
  "filter P (drop_at qs xs) = map snd (filter (\<lambda>(i, x). i \<notin> set qs) (filter (\<lambda>(i, x). P x) (enumerate 0 xs)))"
proof -
  have "filter P (map snd (filter (\<lambda>(i, x). i \<notin> set qs) ps))
      = map snd (filter (\<lambda>(i, x). i \<notin> set qs) (filter (\<lambda>(i, x). P x) ps))" for ps :: "placed list"
    by (induction ps) auto
  then show ?thesis by (simp add: drop_at_def)
qed

text \<open>What is parsed depends on the calls, not on where they stand.\<close>

lemma parse_calls_place:
  "parse_calls E p cs = Inr (ccr, others) \<Longrightarrow> map snd cs' = map snd cs
    \<Longrightarrow> \<exists>others'. parse_calls E p cs' = Inr (ccr, others') \<and> map snd others' = map snd others"
proof (induction cs arbitrary: ccr others cs')
  case (Cons a cs)
  obtain i c where a: "a = (i, c)" by (cases a)
  obtain j cs1 where cs': "cs' = (j, c) # cs1" "map snd cs1 = map snd cs"
    using Cons.prems(2) a by (cases cs') auto
  from Cons.prems(1) a obtain h ccr1 others1 where h: "parse_tool_call E p c = Inr h"
    and rest: "parse_calls E p cs = Inr (ccr1, others1)"
    and res: "(ccr, others) = (case h of None \<Rightarrow> (ccr1, (i, c) # others1) | Some k \<Rightarrow> (ccr_call_of E p c k # ccr1, others1))"
    by (auto simp: bindR_def split: sum.splits option.splits)
  from Cons.IH [OF rest cs'(2)] obtain others2
    where "parse_calls E p cs1 = Inr (ccr1, others2)" "map snd others2 = map snd others1" by blast
  then show ?case using h res cs' by (cases h) auto
qed simp

lemma parse_calls_subset: "parse_calls E p cs = Inr (ccr, others) \<Longrightarrow> set others \<subseteq> set cs"
  by (induction cs arbitrary: ccr others) (force simp: bindR_def split: sum.splits option.splits)+

text \<open>Without the other calls, the retrievals are what is left.\<close>

lemma parse_calls_drop:
  assumes "parse_calls E p cs = Inr (ccr, others)" and "distinct (map fst cs)"
  shows "parse_calls E p (filter (\<lambda>(i, x). i \<notin> set (map fst others)) cs) = Inr (ccr, [])"
  using assms
proof (induction cs arbitrary: ccr others)
  case (Cons a cs)
  obtain i c where a: "a = (i, c)" by (cases a)
  from Cons.prems(1) a obtain h ccr1 others1 where h: "parse_tool_call E p c = Inr h"
    and rest: "parse_calls E p cs = Inr (ccr1, others1)"
    and res: "(ccr, others) = (case h of None \<Rightarrow> (ccr1, (i, c) # others1) | Some k \<Rightarrow> (ccr_call_of E p c k # ccr1, others1))"
    by (auto simp: bindR_def split: sum.splits option.splits)
  have d: "distinct (map fst cs)" "i \<notin> fst ` set cs" using Cons.prems(2) a by auto
  have sub: "fst ` set others1 \<subseteq> fst ` set cs" using parse_calls_subset [OF rest] by blast
  have IH: "parse_calls E p (filter (\<lambda>(i, x). i \<notin> set (map fst others1)) cs) = Inr (ccr1, [])"
    by (rule Cons.IH [OF rest d(1)])
  show ?case
  proof (cases h)
    case None
    then have o: "ccr = ccr1" "others = (i, c) # others1" using res by simp_all
    have "filter (\<lambda>(j, x). j \<notin> set (map fst others)) (a # cs)
        = filter (\<lambda>(j, x). j \<notin> set (map fst others1)) cs"
      using d(2) o a by (auto intro!: filter_cong simp: rev_image_eqI)
    then show ?thesis using IH o by simp
  next
    case (Some k)
    then have o: "ccr = ccr_call_of E p c k # ccr1" "others = others1" using res by simp_all
    have "i \<notin> set (map fst others1)" using sub d(2) by auto
    then show ?thesis using IH o a h Some by simp
  qed
qed simp

lemma ccr_call_id [simp]: "cc_id (ccr_call_of E p c k) = tool_call_id_for_provider E p (dict_of c)"
  by (simp add: ccr_call_of_def)

text \<open>Calls that are all retrievals have the identifiers of the retrievals.\<close>

lemma parse_calls_ids:
  "parse_calls E p cs = Inr (ccr, []) \<Longrightarrow>
    map (tool_call_id_for_provider E p \<circ> dict_of \<circ> snd) cs = map cc_id ccr"
  by (induction cs arbitrary: ccr) (auto simp: bindR_def split: sum.splits option.splits)

lemma distinct_placed: "distinct (map fst (filter P (enumerate 0 xs)))"
  by (rule distinct_map_filter) simp

lemma extract_distinct: "distinct (map fst (extract_tool_calls p r))"
  by (cases p) (simp_all add: extract_tool_calls_def distinct_placed split: json.split list.split)

section \<open>The turn that goes into the conversation\<close>

text \<open>The tool calls an item of a conversation makes, by their identifiers, and the identifiers an
  item answers.\<close>

definition item_calls :: "reply_env \<Rightarrow> provider \<Rightarrow> json \<Rightarrow> pystr list" where
  "item_calls E p x =
     (let ids = map (tool_call_id_for_provider E p \<circ> dict_of);
          entries = (\<lambda>k. case dget (dict_of x) k of JList ys \<Rightarrow> ys | _ \<Rightarrow> []) in
      case p of
        Anthropic \<Rightarrow> ids (filter (is_block ''tool_use'') (entries ''content''))
      | OpenAI \<Rightarrow> ids (entries ''tool_calls'')
      | Google \<Rightarrow> ids (filter has_function_call (entries ''parts''))
      | OpenAIResponses \<Rightarrow> ids (filter (is_block ''function_call'') [x])
      | OtherProvider \<Rightarrow> [])"

definition item_answers :: "provider \<Rightarrow> json \<Rightarrow> json list" where
  "item_answers p x =
     (let entries = (\<lambda>k. case dget (dict_of x) k of JList ys \<Rightarrow> ys | _ \<Rightarrow> []) in
      case p of
        Anthropic \<Rightarrow>
          map (\<lambda>b. dget (dict_of b) ''tool_use_id'') (filter (is_block ''tool_result'') (entries ''content''))
      | OpenAI \<Rightarrow>
          if dget (dict_of x) ''role'' = JStr (u ''tool'') then [dget (dict_of x) ''tool_call_id''] else []
      | Google \<Rightarrow>
          map (\<lambda>b. let f = dict_of (dget (dict_of b) ''functionResponse'') in dget_default f ''id'' (dget f ''name''))
            (entries ''parts'')
      | OpenAIResponses \<Rightarrow>
          if is_block ''function_call_output'' x then [dget (dict_of x) ''call_id''] else []
      | OtherProvider \<Rightarrow> [])"

text \<open>A turn that makes calls, and answers to exactly these calls in their order.\<close>

definition well_answered :: "reply_env \<Rightarrow> provider \<Rightarrow> json list \<Rightarrow> json list \<Rightarrow> bool" where
  "well_answered E p said answers \<longleftrightarrow>
     concat (map (item_calls E p) said) \<noteq> []
     \<and> concat (map (item_answers p) answers) = map JStr (concat (map (item_calls E p) said))"

lemma dict_of_simps [simp]: "dict_of (JObj d) = d" "dict_of JNull = []" "dict_of (JStr s) = []"
  by (simp_all add: dict_of_def)

lemma calls_of_enumerate: "map (f \<circ> dict_of \<circ> snd) (enumerate n xs) = map (f \<circ> dict_of) xs"
proof -
  have "map (f \<circ> dict_of) (map snd (enumerate n xs)) = map (f \<circ> dict_of) xs" by simp
  then show ?thesis by (simp only: map_map)
qed

lemma calls_of_placed:
  "map (f \<circ> dict_of \<circ> snd) (filter (\<lambda>(i, x). P x) (enumerate n xs)) = map (f \<circ> dict_of) (filter P xs)"
proof -
  have "map (f \<circ> dict_of) (map snd (filter (\<lambda>(i, x). P x) (enumerate n xs))) = map (f \<circ> dict_of) (filter P xs)"
    by (simp add: map_snd_filter)
  then show ?thesis by (simp only: map_map)
qed

lemma function_response_id:
  "dget_default (dict_of (dget (dict_of (function_response E r)) ''functionResponse'')) ''id''
     (dget (dict_of (dget (dict_of (function_response E r)) ''functionResponse'')) ''name'') = JStr (cr_id r)"
  by (auto simp: function_response_def Let_def split: option.splits)

text \<open>The message made of a turn makes the calls of the turn.\<close>

lemma assistant_message_calls:
  assumes "extract_tool_calls p turn \<noteq> []"
  shows "\<exists>msg. extract_assistant_message p turn = Inr msg
    \<and> concat (map (item_calls E p) (said_items msg))
      = map (tool_call_id_for_provider E p \<circ> dict_of \<circ> snd) (extract_tool_calls p turn)"
proof (cases p)
  case Anthropic
  with assms obtain bs where bs: "dget turn ''content'' = JList bs"
    by (auto simp: extract_tool_calls_def split: json.splits)
  then have "dget_default turn ''content'' (JList []) = JList bs"
    by (auto simp: dget_def dget_default_def split: option.splits)
  then show ?thesis using Anthropic bs
    by (simp add: extract_tool_calls_def extract_assistant_message_def said_items_def items_under_def
        item_calls_def Let_def calls_of_placed)
next
  case OpenAI
  with assms obtain c cs m ts where "dget turn ''choices'' = JList (JObj c # cs)"
    "dget c ''message'' = JObj m" "dget m ''tool_calls'' = JList ts"
    by (auto simp: extract_tool_calls_def split: json.splits list.splits)
  moreover from this have "dget_default c ''message'' (JObj []) = JObj m"
    by (auto simp: dget_def dget_default_def split: option.splits)
  ultimately show ?thesis using OpenAI
    by (simp add: extract_tool_calls_def extract_assistant_message_def said_items_def items_under_def
        item_calls_def Let_def calls_of_enumerate)
next
  case Google
  with assms obtain c cs m ps where ps: "dget turn ''candidates'' = JList (JObj c # cs)"
    "dget c ''content'' = JObj m" "dget m ''parts'' = JList ps"
    by (auto simp: extract_tool_calls_def split: json.splits list.splits)
  moreover from this have "dget_default turn ''candidates'' (JList []) = JList (JObj c # cs)"
    "dget_default c ''content'' (JObj []) = JObj m" "dget_default m ''parts'' (JList []) = JList ps"
    by (auto simp: dget_def dget_default_def split: option.splits)
  ultimately show ?thesis using Google
    by (simp add: extract_tool_calls_def extract_assistant_message_def said_items_def items_under_def
        item_calls_def Let_def calls_of_placed)
next
  case OpenAIResponses
  with assms obtain xs where xs: "dget turn ''output'' = JList xs"
    by (auto simp: extract_tool_calls_def split: json.splits)
  have "concat (map (item_calls E OpenAIResponses) xs)
      = map (tool_call_id_for_provider E OpenAIResponses \<circ> dict_of) (filter (is_block ''function_call'') xs)"
    by (induction xs) (simp_all add: item_calls_def)
  then show ?thesis using OpenAIResponses xs
    by (simp add: extract_tool_calls_def extract_assistant_message_def said_items_def items_under_def
        calls_of_placed)
qed (use assms in \<open>simp add: extract_tool_calls_def\<close>)

lemma answers_ids:
  assumes "p \<noteq> OtherProvider"
  shows "concat (map (item_answers p) (answer_items p (create_tool_result_message E p rs)))
    = map (JStr \<circ> cr_id) rs"
proof (cases p)
  case Anthropic
  then show ?thesis
    by (simp add: answer_items_def create_tool_result_message_def items_under_def item_answers_def filter_map comp_def)
next
  case OpenAI
  then show ?thesis
    by (simp add: answer_items_def create_tool_result_message_def items_under_def item_answers_def comp_def)
next
  case Google
  then show ?thesis
    by (simp add: answer_items_def create_tool_result_message_def items_under_def item_answers_def comp_def
        function_response_id)
next
  case OpenAIResponses
  then show ?thesis
    by (simp add: answer_items_def create_tool_result_message_def items_under_def item_answers_def comp_def)
qed (use assms in simp)

text \<open>What is extracted from a response without some of its calls.\<close>

lemma extract_dropped:
  assumes "drop_tool_calls p r ps = Some turn"
  shows "map snd (extract_tool_calls p turn)
    = map snd (filter (\<lambda>(i, x). i \<notin> set ps) (extract_tool_calls p r))"
proof (cases p)
  case Anthropic
  then show ?thesis using assms
    by (auto simp: drop_tool_calls_def extract_tool_calls_def map_snd_filter filter_drop_at split: json.splits)
next
  case OpenAI
  with assms obtain c cs m ts where "dget r ''choices'' = JList (JObj c # cs)"
    "dget c ''message'' = JObj m" "dget m ''tool_calls'' = JList ts"
    by (auto simp: drop_tool_calls_def split: json.splits list.splits)
  with assms OpenAI show ?thesis
    by (auto simp: drop_tool_calls_def extract_tool_calls_def drop_at_def)
qed (use assms in \<open>simp_all add: drop_tool_calls_def\<close>)

text \<open>The turn of a planned round makes the retrievals and no other call.\<close>

lemma planned_turn:
  assumes "plan_round E p r = Inr (Some (ccr, turn))"
  shows "parse_ccr_tool_calls E p turn = Inr (ccr, [])" and "ccr \<noteq> []"
proof -
  from assms obtain others where parse: "parse_ccr_tool_calls E p r = Inr (ccr, others)" and ne: "ccr \<noteq> []"
    and turn: "others = [] \<and> turn = r \<or> drop_tool_calls p r (map fst others) = Some turn"
    by (auto simp: plan_round_def bindR_def split: sum.splits prod.splits if_splits)
  show "ccr \<noteq> []" by (rule ne)
  from turn show "parse_ccr_tool_calls E p turn = Inr (ccr, [])"
  proof
    assume "drop_tool_calls p r (map fst others) = Some turn"
    then have "map snd (extract_tool_calls p turn)
        = map snd (filter (\<lambda>(i, x). i \<notin> set (map fst others)) (extract_tool_calls p r))"
      by (rule extract_dropped)
    then show ?thesis
      using parse parse_calls_drop [OF _ extract_distinct] parse_calls_place [of E p _ ccr "[]" "extract_tool_calls p turn"]
      unfolding parse_ccr_tool_calls_def by fastforce
  qed (use parse in simp)
qed

text \<open>Independently of the code: what a response \<open>r\<close> becomes as a turn of the conversation. It is the
  model's content blocks (Anthropic), content and tool calls (OpenAI), parts (Google) or output items
  (Responses) as they were, less the calls of client tools that stand next to retrievals.\<close>

definition asks :: "reply_env \<Rightarrow> provider \<Rightarrow> json \<Rightarrow> bool" where
  "asks E p c \<longleftrightarrow> (case parse_tool_call E p c of Inr (Some k) \<Rightarrow> True | _ \<Rightarrow> False)"

inductive turn_of :: "reply_env \<Rightarrow> provider \<Rightarrow> pydict \<Rightarrow> json list \<Rightarrow> bool" for E where
  anthropic: "dget r ''content'' = JList bs \<Longrightarrow>
    turn_of E Anthropic r [JObj [(u ''role'', JStr (u ''assistant'')),
      (u ''content'', JList (filter (\<lambda>b. is_block ''tool_use'' b \<longrightarrow> asks E Anthropic b) bs))]]"
| openai: "dget r ''choices'' = JList (JObj c # cs) \<Longrightarrow> dget c ''message'' = JObj m \<Longrightarrow> dget m ''tool_calls'' = JList ts \<Longrightarrow>
    turn_of E OpenAI r [JObj [(u ''role'', JStr (u ''assistant'')), (u ''content'', dget m ''content''),
      (u ''tool_calls'', JList (filter (asks E OpenAI) ts))]]"
| google: "dget r ''candidates'' = JList (JObj c # cs) \<Longrightarrow> dget c ''content'' = JObj m \<Longrightarrow> dget m ''parts'' = JList ps \<Longrightarrow>
    \<forall>x \<in> set ps. has_function_call x \<longrightarrow> asks E Google x \<Longrightarrow>
    turn_of E Google r [JObj [(u ''role'', JStr (u ''model'')), (u ''parts'', JList ps)]]"
| responses: "dget r ''output'' = JList xs \<Longrightarrow> \<forall>x \<in> set xs. is_block ''function_call'' x \<longrightarrow> asks E OpenAIResponses x \<Longrightarrow>
    turn_of E OpenAIResponses r xs"

inductive_cases turn_ofE: "turn_of E p r said"

lemma parse_calls_others:
  "parse_calls E p cs = Inr (ccr, others) \<Longrightarrow> others = filter (\<lambda>(i, c). \<not> asks E p c) cs"
  by (induction cs arbitrary: ccr others) (auto simp: bindR_eq_Inr asks_def split: option.splits)

lemma drop_at_filter: "drop_at (map fst (filter (\<lambda>(i, c). Q c) (enumerate 0 xs))) xs = filter (\<lambda>c. \<not> Q c) xs"
proof -
  have "i \<in> set (map fst (filter (\<lambda>(i, c). Q c) (enumerate 0 xs))) \<longleftrightarrow> Q x" if "(i, x) \<in> set (enumerate 0 xs)" for i x
    using that by (force simp: in_set_enumerate_eq)
  then have "filter (\<lambda>(i, x). i \<notin> set (map fst (filter (\<lambda>(i, c). Q c) (enumerate 0 xs)))) (enumerate 0 xs)
      = filter (\<lambda>(i, x). \<not> Q x) (enumerate 0 xs)"
    by (intro filter_cong) auto
  then show ?thesis by (simp add: drop_at_def map_snd_filter)
qed

lemma filter_all: "\<forall>x \<in> set xs. P x \<Longrightarrow> filter P xs = xs"
  by simp

lemma planned_turn_of:
  assumes plan: "plan_round E p r = Inr (Some (ccr, turn))" and msg: "extract_assistant_message p turn = Inr msg"
  shows "turn_of E p r (said_items msg)"
proof -
  from plan obtain others where parse: "parse_calls E p (extract_tool_calls p r) = Inr (ccr, others)" and ne: "ccr \<noteq> []"
    and turn: "others = [] \<and> turn = r \<or> drop_tool_calls p r (map fst others) = Some turn"
    by (auto simp: plan_round_def parse_ccr_tool_calls_def bindR_def split: sum.splits prod.splits if_splits)
  have calls: "extract_tool_calls p r \<noteq> []" using parse ne by auto
  note others = parse_calls_others [OF parse]
  show ?thesis
  proof (cases p)
    case Anthropic
    with calls obtain bs where bs: "dget r ''content'' = JList bs"
      by (auto simp: extract_tool_calls_def split: json.splits)
    then have o: "others = filter (\<lambda>(i, b). is_block ''tool_use'' b \<and> \<not> asks E p b) (enumerate 0 bs)"
      using others Anthropic by (simp add: extract_tool_calls_def filter_filter case_prod_unfold conj_commute)
    have kept: "drop_at (map fst others) bs = filter (\<lambda>b. is_block ''tool_use'' b \<longrightarrow> asks E p b) bs"
      unfolding o drop_at_filter by (rule filter_cong) auto
    have "dget turn ''content'' = JList (drop_at (map fst others) bs)"
      using turn bs Anthropic by (auto simp: drop_tool_calls_def drop_at_def)
    then have "dget_default turn ''content'' (JList []) = JList (drop_at (map fst others) bs)"
      by (auto simp: dget_def dget_default_def split: option.splits)
    then have "said_items msg = [JObj [(u ''role'', JStr (u ''assistant'')),
        (u ''content'', JList (filter (\<lambda>b. is_block ''tool_use'' b \<longrightarrow> asks E p b) bs))]]"
      using msg Anthropic kept by (auto simp: extract_assistant_message_def said_items_def items_under_def)
    then show ?thesis using anthropic [of r bs E, OF bs] Anthropic by simp
  next
    case OpenAI
    with calls obtain c cs m ts where r: "dget r ''choices'' = JList (JObj c # cs)"
      "dget c ''message'' = JObj m" "dget m ''tool_calls'' = JList ts"
      by (auto simp: extract_tool_calls_def split: json.splits list.splits)
    then have "others = filter (\<lambda>(i, b). \<not> asks E p b) (enumerate 0 ts)"
      using others OpenAI by (simp add: extract_tool_calls_def)
    then have kept: "drop_at (map fst others) ts = filter (asks E p) ts" by (simp add: drop_at_filter)
    obtain c' m' where t: "dget turn ''choices'' = JList (JObj c' # cs)" "dget c' ''message'' = JObj m'"
      "dget m' ''tool_calls'' = JList (drop_at (map fst others) ts)" "dget m' ''content'' = dget m ''content''"
      using turn r OpenAI by (auto simp: drop_tool_calls_def drop_at_def)
    then have "dget_default c' ''message'' (JObj []) = JObj m'"
      by (auto simp: dget_def dget_default_def split: option.splits)
    then have "said_items msg = [JObj [(u ''role'', JStr (u ''assistant'')), (u ''content'', dget m ''content''),
        (u ''tool_calls'', JList (filter (asks E p) ts))]]"
      using msg OpenAI kept t by (auto simp: extract_assistant_message_def said_items_def items_under_def)
    then show ?thesis using openai [OF r, of E] OpenAI by simp
  next
    case Google
    with calls obtain c cs m ps where r: "dget r ''candidates'' = JList (JObj c # cs)"
      "dget c ''content'' = JObj m" "dget m ''parts'' = JList ps"
      by (auto simp: extract_tool_calls_def split: json.splits list.splits)
    moreover from this have "dget_default r ''candidates'' (JList []) = JList (JObj c # cs)"
      "dget_default c ''content'' (JObj []) = JObj m" "dget_default m ''parts'' (JList []) = JList ps"
      by (auto simp: dget_def dget_default_def split: option.splits)
    moreover have none: "others = []" "turn = r" using turn Google by (auto simp: drop_tool_calls_def)
    ultimately have said: "said_items msg = [JObj [(u ''role'', JStr (u ''model'')), (u ''parts'', JList ps)]]"
      using msg Google by (auto simp: extract_assistant_message_def said_items_def items_under_def)
    have "\<forall>x \<in> set (map snd (extract_tool_calls p r)). asks E p x"
      using others none by (auto dest!: sym [of "[]"] simp: filter_empty_conv)
    then have "\<forall>x \<in> set ps. has_function_call x \<longrightarrow> asks E Google x"
      using r Google by (simp add: extract_tool_calls_def map_snd_filter)
    then show ?thesis using google [OF r] said Google by simp
  next
    case OpenAIResponses
    with calls obtain xs where xs: "dget r ''output'' = JList xs"
      by (auto simp: extract_tool_calls_def split: json.splits)
    have none: "others = []" "turn = r" using turn OpenAIResponses by (auto simp: drop_tool_calls_def)
    then have said: "said_items msg = xs"
      using msg xs OpenAIResponses by (auto simp: extract_assistant_message_def said_items_def items_under_def)
    have "\<forall>x \<in> set (map snd (extract_tool_calls p r)). asks E p x"
      using others none by (auto dest!: sym [of "[]"] simp: filter_empty_conv)
    then have "\<forall>x \<in> set xs. is_block ''function_call'' x \<longrightarrow> asks E OpenAIResponses x"
      using xs OpenAIResponses by (simp add: extract_tool_calls_def map_snd_filter)
    then show ?thesis using responses [OF xs] said OpenAIResponses by simp
  qed (use calls in \<open>simp add: extract_tool_calls_def\<close>)
qed

section \<open>The steps of the loop\<close>

text \<open>What a round does, as relations: a round whose continuation is answered leads to the next one,
  and the loop stops in one of five ways.\<close>

inductive answered_round :: "('b, 'w) ccr_run \<Rightarrow> ('b, 'w) loop_state \<Rightarrow> ('b, 'w) loop_state \<Rightarrow> bool" for R where
  answered: "ls_rounds st < cfg_max_retrieval_rounds (ru_config R) \<Longrightarrow>
    plan_round (ru_env R) (ru_provider R) (ls_response st) = Inr (Some (ccr, turn)) \<Longrightarrow>
    serve_round R ccr turn st = (Inr msgs, w1) \<Longrightarrow> call_api R msgs w1 = (Inr r, w2) \<Longrightarrow>
    answered_round R st \<lparr>ls_rounds = ls_rounds st + 1, ls_origin = Answer, ls_response = r,
      ls_messages = msgs, ls_world = w2\<rparr>"

inductive stops ::
  "('b, 'w) ccr_run \<Rightarrow> ('b, 'w) loop_state \<Rightarrow> py_error + origin \<times> pydict \<Rightarrow> ('b, 'w) ccr_world \<Rightarrow> bool" for R st where
  exhausted: "\<not> ls_rounds st < cfg_max_retrieval_rounds (ru_config R) \<Longrightarrow>
    stops R st (Inr (ls_origin st, ls_response st)) (ls_world st)"
| idle: "plan_round (ru_env R) (ru_provider R) (ls_response st) = Inr None \<Longrightarrow>
    stops R st (Inr (ls_origin st, ls_response st)) (ls_world st)"
| malformed: "plan_round (ru_env R) (ru_provider R) (ls_response st) = Inl e \<Longrightarrow>
    stops R st (Inl e) (ls_world st)"
| no_message: "plan_round (ru_env R) (ru_provider R) (ls_response st) = Inr (Some (ccr, turn)) \<Longrightarrow>
    serve_round R ccr turn st = (Inl e, w1) \<Longrightarrow> stops R st (Inl e) w1"
| call_failed: "ls_rounds st < cfg_max_retrieval_rounds (ru_config R) \<Longrightarrow>
    plan_round (ru_env R) (ru_provider R) (ls_response st) = Inr (Some (ccr, turn)) \<Longrightarrow>
    serve_round R ccr turn st = (Inr msgs, w1) \<Longrightarrow> call_api R msgs w1 = (Inl a, w2) \<Longrightarrow>
    stops R st (Inr (ls_origin st, ls_response st)) w2"

inductive_cases stopsE: "stops R st res w"
inductive_cases answered_roundE: "answered_round R st st'"

text \<open>The loop is a run of the step relation to a stop.\<close>

lemma answered_round_same: "answered_round R st st' \<Longrightarrow> ccr_rounds R st' = ccr_rounds R st"
  by (erule answered_roundE) (subst (2) ccr_rounds.simps, simp)

lemma answered_or_stops:
  "(\<exists>st'. answered_round R st st') \<or> stops R st (fst (ccr_rounds R st)) (snd (ccr_rounds R st))"
proof (cases "ls_rounds st < cfg_max_retrieval_rounds (ru_config R)")
  case False
  then show ?thesis by (subst (1 2) ccr_rounds.simps) (simp add: exhausted)
next
  case lt: True
  show ?thesis
  proof (cases "\<exists>ccr turn. plan_round (ru_env R) (ru_provider R) (ls_response st) = Inr (Some (ccr, turn))")
    case False
    then show ?thesis using lt
      by (subst (1 2) ccr_rounds.simps) (auto intro: malformed idle split: sum.split option.split)
  next
    case True
    then obtain ccr turn where plan: "plan_round (ru_env R) (ru_provider R) (ls_response st) = Inr (Some (ccr, turn))"
      by blast
    obtain m w1 where m: "serve_round R ccr turn st = (m, w1)" by (cases "serve_round R ccr turn st")
    show ?thesis
    proof (cases m)
      case (Inl e)
      then show ?thesis using lt plan m by (subst (1 2) ccr_rounds.simps) (simp add: no_message)
    next
      case (Inr msgs)
      obtain a w2 where a: "call_api R msgs w1 = (a, w2)" by (cases "call_api R msgs w1")
      show ?thesis
      proof (cases a)
        case (Inl e)
        then show ?thesis using lt plan m \<open>m = Inr msgs\<close> a
          by (subst (1 2) ccr_rounds.simps) (simp add: call_failed)
      next
        case (Inr r)
        then show ?thesis using answered [OF lt plan] m \<open>m = Inr msgs\<close> a by blast
      qed
    qed
  qed
qed

lemma ccr_rounds_run:
  "\<exists>st'. (answered_round R)\<^sup>*\<^sup>* st st' \<and> stops R st' (fst (ccr_rounds R st)) (snd (ccr_rounds R st))"
proof (induction "nat (cfg_max_retrieval_rounds (ru_config R) - ls_rounds st)" arbitrary: st rule: less_induct)
  case less
  show ?case
  proof (cases "\<exists>st1. answered_round R st st1")
    case True
    then obtain st1 where st1: "answered_round R st st1" by blast
    then have "nat (cfg_max_retrieval_rounds (ru_config R) - ls_rounds st1)
        < nat (cfg_max_retrieval_rounds (ru_config R) - ls_rounds st)"
      by (auto elim!: answered_roundE)
    from less [OF this] st1 show ?thesis
      by (metis answered_round_same converse_rtranclp_into_rtranclp)
  qed (use answered_or_stops [of R st] in blast)
qed

lemma handle_response_run:
  assumes "handle_response R response messages w = (res, w')" and "cfg_enabled (ru_config R)"
  obtains st where "(answered_round R)\<^sup>*\<^sup>* \<lparr>ls_rounds = 0, ls_origin = Argument, ls_response = response,
      ls_messages = messages, ls_world = w\<rparr> st" and "stops R st res w'"
  using assms ccr_rounds_run [of R "\<lparr>ls_rounds = 0, ls_origin = Argument, ls_response = response,
      ls_messages = messages, ls_world = w\<rparr>"] by (auto simp: handle_response_def)

section \<open>The dialogue\<close>

text \<open>The response in hand after some exchanges.\<close>

definition in_hand :: "origin \<times> pydict \<Rightarrow> exchange list \<Rightarrow> origin \<times> pydict" where
  "in_hand held xs = foldl (\<lambda>h x. case ex_answer x of Inr r \<Rightarrow> (Answer, r) | Inl _ \<Rightarrow> h) held xs"

lemma in_hand_simps [simp]:
  "in_hand h [] = h"
  "in_hand h (xs @ [x]) = (case ex_answer x of Inr r \<Rightarrow> (Answer, r) | Inl _ \<Rightarrow> in_hand h xs)"
  by (simp_all add: in_hand_def split: sum.split)

text \<open>\<open>dialogue E p held messages xs msgs\<close>: the exchanges \<open>xs\<close> continue the conversation \<open>messages\<close>,
  the response \<open>held\<close> being in hand; every request is the conversation so far with the turn of the
  response in hand and its answers, and \<open>msgs\<close> is the conversation in the end.\<close>

inductive dialogue :: "reply_env \<Rightarrow> provider \<Rightarrow> origin \<times> pydict \<Rightarrow> json list \<Rightarrow> exchange list \<Rightarrow> json list \<Rightarrow> bool"
  for E p held messages where
  begins: "dialogue E p held messages [] messages"
| continues: "dialogue E p held messages xs msgs \<Longrightarrow> turn_of E p (snd (in_hand held xs)) said \<Longrightarrow>
    well_answered E p said answers \<Longrightarrow> ex_request x = msgs @ said @ answers \<Longrightarrow>
    dialogue E p held messages (xs @ [x]) (msgs @ said @ answers)"

lemma dialogue_none: "dialogue E p held messages [] msgs \<Longrightarrow> msgs = messages"
  by (cases rule: dialogue.cases) auto

lemma dialogue_one:
  assumes "dialogue E p held messages [x] msgs"
  obtains said answers where "turn_of E p (snd held) said" and "well_answered E p said answers"
    and "ex_request x = messages @ said @ answers"
  using assms
proof cases
  case (continues xs ms said answers x')
  then have "xs = []" "x' = x" by auto
  with continues have "ms = messages" using dialogue_none by blast
  then show ?thesis using continues \<open>xs = []\<close> \<open>x' = x\<close> that by simp
qed

lemma execute_all_ids: "map cr_id (fst (execute_all E B clock cs w)) = map cc_id cs"
proof (induction cs arbitrary: w)
  case (Cons c cs)
  have "cr_id (fst (execute_retrieval E B clock c w)) = cc_id c"
    by (simp add: execute_retrieval_def Let_def split: prod.split option.split)
  with Cons show ?case by (simp add: split_beta)
qed simp

lemma extract_other [simp]: "extract_tool_calls OtherProvider r = []"
  by (simp add: extract_tool_calls_def)

lemma serve_round_answers:
  assumes plan: "plan_round (ru_env R) (ru_provider R) (ls_response st) = Inr (Some (ccr, turn))"
  obtains said answers w1 where "serve_round R ccr turn st = (Inr (ls_messages st @ said @ answers), w1)"
    "well_answered (ru_env R) (ru_provider R) said answers" "w_exchanges w1 = w_exchanges (ls_world st)"
    "turn_of (ru_env R) (ru_provider R) (ls_response st) said"
    "answers = answer_items (ru_provider R) (create_tool_result_message (ru_env R) (ru_provider R)
       (fst (execute_all (ru_env R) (ru_backend R) (ru_clock R) ccr (w_store (ls_world st), w_reads (ls_world st)))))"
proof -
  let ?E = "ru_env R" and ?p = "ru_provider R"
  have ccr: "parse_calls ?E ?p (extract_tool_calls ?p turn) = Inr (ccr, [])" "ccr \<noteq> []"
    using planned_turn [OF plan] by (simp_all add: parse_ccr_tool_calls_def)
  then have ne: "extract_tool_calls ?p turn \<noteq> []" by auto
  then have p: "?p \<noteq> OtherProvider" by auto
  from assistant_message_calls [OF ne, of ?E] obtain msg where msg: "extract_assistant_message ?p turn = Inr msg"
    and calls: "concat (map (item_calls ?E ?p) (said_items msg)) = map cc_id ccr"
    using parse_calls_ids [OF ccr(1)] by (auto simp: comp_assoc)
  let ?rs = "fst (execute_all ?E (ru_backend R) (ru_clock R) ccr (w_store (ls_world st), w_reads (ls_world st)))"
  let ?answers = "answer_items ?p (create_tool_result_message ?E ?p ?rs)"
  have "concat (map (item_answers ?p) ?answers) = map JStr (map cc_id ccr)"
    unfolding answers_ids [OF p]
    by (simp only: execute_all_ids [of ?E "ru_backend R" "ru_clock R" ccr "(w_store (ls_world st), w_reads (ls_world st))", symmetric] map_map)
  then have "well_answered ?E ?p (said_items msg) ?answers"
    using calls ccr(2) by (simp add: well_answered_def)
  moreover have "turn_of ?E ?p (ls_response st) (said_items msg)" by (rule planned_turn_of [OF plan msg])
  moreover obtain m w1 where sv: "serve_round R ccr turn st = (m, w1)" by (cases "serve_round R ccr turn st")
  moreover from sv have "m = Inr (ls_messages st @ said_items msg @ ?answers)"
    and "w_exchanges w1 = w_exchanges (ls_world st)"
    by (auto simp: serve_round_def msg split_beta Let_def)
  ultimately show ?thesis using that by blast
qed

lemma call_api_exchange:
  "call_api R msgs w = (a, w2) \<Longrightarrow> w_exchanges w2 = w_exchanges w @ [\<lparr>ex_request = msgs, ex_answer = a\<rparr>]"
  by (auto simp: call_api_def split: prod.splits)

text \<open>What holds after every answered round.\<close>

definition round_inv :: "('b, 'w) ccr_run \<Rightarrow> ('b, 'w) loop_state \<Rightarrow> exchange list \<Rightarrow> ('b, 'w) loop_state \<Rightarrow> bool" where
  "round_inv R st0 xs st \<longleftrightarrow>
     w_exchanges (ls_world st) = w_exchanges (ls_world st0) @ xs
     \<and> ls_rounds st = ls_rounds st0 + int (length xs)
     \<and> (xs = [] \<or> ls_rounds st \<le> cfg_max_retrieval_rounds (ru_config R))
     \<and> dialogue (ru_env R) (ru_provider R) (ls_origin st0, ls_response st0) (ls_messages st0) xs (ls_messages st)
     \<and> (ls_origin st, ls_response st) = in_hand (ls_origin st0, ls_response st0) xs"

lemma answered_round_inv:
  assumes "answered_round R st st'" and "round_inv R st0 xs st"
  obtains x r where "round_inv R st0 (xs @ [x]) st'" "ex_answer x = Inr r"
  using assms(1)
proof cases
  case (answered ccr turn msgs w1 r w2)
  obtain said answers w1' where sv: "serve_round R ccr turn st = (Inr (ls_messages st @ said @ answers), w1')"
    and wa: "well_answered (ru_env R) (ru_provider R) said answers"
    and tu: "turn_of (ru_env R) (ru_provider R) (ls_response st) said"
    and ex: "w_exchanges w1' = w_exchanges (ls_world st)"
    using serve_round_answers [OF answered(3)] by blast
  then have msgs: "msgs = ls_messages st @ said @ answers" "w1' = w1" using answered(4) by simp_all
  let ?x = "\<lparr>ex_request = msgs, ex_answer = Inr r\<rparr> :: exchange"
  have "w_exchanges w2 = w_exchanges (ls_world st) @ [?x]"
    using call_api_exchange [OF answered(5)] ex msgs by simp
  moreover have "dialogue (ru_env R) (ru_provider R) (ls_origin st0, ls_response st0) (ls_messages st0) (xs @ [?x]) msgs"
    using assms(2) wa tu unfolding msgs(1)
    by (intro continues) (simp_all add: round_inv_def flip: prod.inject, metis snd_conv)
  ultimately have "round_inv R st0 (xs @ [?x]) st'"
    using assms(2) answered(1,2) by (simp add: round_inv_def)
  then show ?thesis by (rule that) simp
qed

lemma answered_rounds_inv:
  "(answered_round R)\<^sup>*\<^sup>* st0 st \<Longrightarrow> \<exists>xs. round_inv R st0 xs st \<and> (\<forall>x \<in> set xs. \<exists>r. ex_answer x = Inr r)"
proof (induction rule: rtranclp_induct)
  case base
  have "round_inv R st0 [] st0" by (simp add: round_inv_def begins)
  then show ?case by (metis empty_iff list.set(1))
next
  case (step st st')
  then obtain xs where xs: "round_inv R st0 xs st" "\<forall>x \<in> set xs. \<exists>r. ex_answer x = Inr r" by blast
  from answered_round_inv [OF step(2) xs(1)] obtain x r
    where "round_inv R st0 (xs @ [x]) st'" "ex_answer x = Inr r" by blast
  with xs(2) show ?case by (intro exI [of _ "xs @ [x]"]) simp
qed

text \<open>A call of \<open>handle_response\<close>, whatever its result: the exchanges it adds and why it stopped.\<close>

definition stopped_for :: "('b, 'w) ccr_run \<Rightarrow> pydict \<Rightarrow> exchange list \<Rightarrow> bool" where
  "stopped_for R r xs \<longleftrightarrow>
     \<not> cfg_enabled (ru_config R) \<or> cfg_max_retrieval_rounds (ru_config R) \<le> int (length xs)
     \<or> plan_round (ru_env R) (ru_provider R) r = Inr None
     \<or> (xs \<noteq> [] \<and> (\<exists>e. ex_answer (List.last xs) = Inl e))"

definition outcome ::
  "('b, 'w) ccr_run \<Rightarrow> origin \<times> pydict \<Rightarrow> exchange list \<Rightarrow> py_error + origin \<times> pydict \<Rightarrow> bool" where
  "outcome R held xs res =
     (case res of Inr h \<Rightarrow> h = in_hand held xs \<and> stopped_for R (snd h) xs
      | Inl e \<Rightarrow> plan_round (ru_env R) (ru_provider R) (snd (in_hand held xs)) = Inl e)"

lemma stops_spec:
  assumes stop: "stops R st res w'" and inv: "round_inv R st0 xs0 st" and st0: "ls_rounds st0 = 0"
    and ans: "\<forall>x \<in> set xs0. \<exists>r. ex_answer x = Inr r"
  obtains xs msgs where "w_exchanges w' = w_exchanges (ls_world st0) @ xs"
    "int (length xs) \<le> max 0 (cfg_max_retrieval_rounds (ru_config R))"
    "dialogue (ru_env R) (ru_provider R) (ls_origin st0, ls_response st0) (ls_messages st0) xs msgs"
    "outcome R (ls_origin st0, ls_response st0) xs res" "\<forall>x \<in> set (butlast xs). \<exists>r. ex_answer x = Inr r"
proof -
  have held: "in_hand (ls_origin st0, ls_response st0) xs0 = (ls_origin st, ls_response st)"
    and len: "int (length xs0) \<le> max 0 (cfg_max_retrieval_rounds (ru_config R))"
    and ex: "w_exchanges (ls_world st) = w_exchanges (ls_world st0) @ xs0"
    and dlg: "dialogue (ru_env R) (ru_provider R) (ls_origin st0, ls_response st0) (ls_messages st0) xs0 (ls_messages st)"
    and n: "ls_rounds st = int (length xs0)"
    using inv st0 by (auto simp: round_inv_def)
  from stop show ?thesis
  proof cases
    case (no_message ccr turn e)
    then show ?thesis using serve_round_answers [OF no_message(2)] by auto
  next
    case (call_failed ccr turn msgs w1 a)
    obtain said answers where sv: "msgs = ls_messages st @ said @ answers" "w_exchanges w1 = w_exchanges (ls_world st)"
      and wa: "well_answered (ru_env R) (ru_provider R) said answers"
      and tu: "turn_of (ru_env R) (ru_provider R) (ls_response st) said"
      using serve_round_answers [OF call_failed(3)] call_failed(4) by (metis Inr_inject prod.inject)
    let ?x = "\<lparr>ex_request = msgs, ex_answer = Inl a\<rparr> :: exchange"
    show ?thesis
    proof (rule that [of "xs0 @ [?x]" msgs])
      show "w_exchanges w' = w_exchanges (ls_world st0) @ xs0 @ [?x]"
        using call_api_exchange [OF call_failed(5)] sv ex by simp
      show "dialogue (ru_env R) (ru_provider R) (ls_origin st0, ls_response st0) (ls_messages st0) (xs0 @ [?x]) msgs"
        using dlg wa tu held unfolding sv(1) by (intro continues) simp_all
    qed (use call_failed(1,2) held n ans in \<open>simp_all add: stopped_for_def outcome_def\<close>)
  qed (rule that [of xs0 "ls_messages st"]; use held n ex len dlg ans in \<open>auto simp: stopped_for_def outcome_def dest: in_set_butlastD\<close>)+
qed

lemma handle_response_spec:
  assumes h: "handle_response R response messages w = (res, w')"
  obtains xs msgs where "w_exchanges w' = w_exchanges w @ xs"
    "int (length xs) \<le> max 0 (cfg_max_retrieval_rounds (ru_config R))"
    "dialogue (ru_env R) (ru_provider R) (Argument, response) messages xs msgs"
    "outcome R (Argument, response) xs res" "\<forall>x \<in> set (butlast xs). \<exists>r. ex_answer x = Inr r"
    "\<not> cfg_enabled (ru_config R) \<Longrightarrow> xs = []"
proof (cases "cfg_enabled (ru_config R)")
  case False
  then show ?thesis using h
    by (intro that [of "[]" messages]) (auto simp: handle_response_def stopped_for_def outcome_def begins)
next
  case True
  let ?st0 = "\<lparr>ls_rounds = 0, ls_origin = Argument, ls_response = response, ls_messages = messages, ls_world = w\<rparr>"
  from handle_response_run [OF h True] obtain st where run: "(answered_round R)\<^sup>*\<^sup>* ?st0 st"
    and stop: "stops R st res w'" by blast
  from answered_rounds_inv [OF run] obtain xs0 where inv: "round_inv R ?st0 xs0 st"
    and ans: "\<forall>x \<in> set xs0. \<exists>r. ex_answer x = Inr r" by blast
  show ?thesis
    by (rule stops_spec [OF stop inv _ ans]) (use True that in simp_all)
qed

lemma ccr_rounds_extends: "\<exists>rest. w_exchanges (snd (ccr_rounds R st)) = w_exchanges (ls_world st) @ rest"
proof -
  obtain st' where run: "(answered_round R)\<^sup>*\<^sup>* st st'" and stop: "stops R st' (fst (ccr_rounds R st)) (snd (ccr_rounds R st))"
    using ccr_rounds_run by blast
  obtain xs where "round_inv R st xs st'" using answered_rounds_inv [OF run] by blast
  then have "w_exchanges (ls_world st') = w_exchanges (ls_world st) @ xs" by (simp add: round_inv_def)
  moreover from stop have "\<exists>ys. w_exchanges (snd (ccr_rounds R st)) = w_exchanges (ls_world st') @ ys"
  proof cases
    case (no_message ccr turn e)
    then show ?thesis using serve_round_answers [OF no_message(2)] by auto
  next
    case (call_failed ccr turn msgs w1 a)
    then show ?thesis using serve_round_answers [OF call_failed(3)] call_api_exchange [OF call_failed(5)]
      by (metis prod.inject)
  qed simp_all
  ultimately show ?thesis by auto
qed

text \<open>Calls that were extracted can be left out.\<close>

lemma extracted_droppable:
  assumes "extract_tool_calls p r \<noteq> []" and "p \<in> {Anthropic, OpenAI}"
  shows "drop_tool_calls p r ps \<noteq> None"
  using assms(2)
proof (elim insertE)
  assume "p = Anthropic"
  then show ?thesis using assms(1) by (auto simp: extract_tool_calls_def drop_tool_calls_def split: json.splits)
next
  assume p: "p = OpenAI"
  with assms(1) obtain c cs m ts where "dget r ''choices'' = JList (JObj c # cs)"
    "dget c ''message'' = JObj m" "dget m ''tool_calls'' = JList ts"
    by (auto simp: extract_tool_calls_def split: json.splits list.splits)
  then show ?thesis using p by (simp add: drop_tool_calls_def)
qed simp

lemma any_ccr_tool_call_True: "any_ccr_tool_call cs = Inr True \<Longrightarrow> \<exists>c \<in> set (map snd cs). is_ccr_tool_call c = Inr True"
  by (induction cs rule: any_ccr_tool_call.induct) (auto simp: bindR_eq_Inr split: if_splits)

lemma any_ccr_tool_call_False: "any_ccr_tool_call cs = Inr False \<Longrightarrow> \<forall>c \<in> set (map snd cs). is_ccr_tool_call c = Inr False"
  by (induction cs rule: any_ccr_tool_call.induct) (auto simp: bindR_eq_Inr split: if_splits)

lemma parse_calls_none: "parse_calls E p cs = Inr ([], others) \<Longrightarrow> others = cs"
  by (induction cs arbitrary: others) (auto simp: bindR_def split: sum.splits option.splits)

section \<open>What a retrieval reads\<close>

text \<open>\<open>serves s k original items until\<close>: the store has an entry for \<open>k\<close> with this original and this
  number of items, which expires after \<open>until\<close>.\<close>

definition serves :: "mem_store cstore \<Rightarrow> pystr \<Rightarrow> pystr \<Rightarrow> int \<Rightarrow> real \<Rightarrow> bool" where
  "serves s k original items until \<longleftrightarrow>
     (\<exists>e. mem_get (backend s) k = Some e \<and> original_content e = original
        \<and> original_item_count e = items \<and> expiration_time e = until)"

lemma serves_drop [simp]:
  "serves (drop_expired memory_ops s k') k original items until
    \<longleftrightarrow> k \<noteq> k' \<and> serves s k original items until"
  by (simp add: serves_def drop_expired_def mem_get_def mem_delete_def delete_conv')

lemma expired_status: "(now - created_at e > real_of_int (ce_ttl e)) = is_expired now e"
  by (simp add: is_expired_def)

lemma status_keeps:
  assumes "serves s k original items until" and "now \<le> until"
  shows "serves (snd (get_entry_status memory_ops now s k' c)) k original items until"
proof (cases "mem_get (backend s) k'")
  case (Some e)
  have "k \<noteq> k'" if "is_expired now e" using that Some assms by (auto simp: serves_def expired_iff)
  then show ?thesis using Some assms(1) by (simp add: get_entry_status_def Let_def expired_status)
qed (use assms in \<open>simp add: get_entry_status_def\<close>)

lemma retrieve_keeps:
  assumes "serves s k original items until" and "now \<le> until"
  shows "serves (snd (retrieve memory_ops now s k' q)) k original items until"
proof (cases "mem_get (backend s) k'")
  case (Some e)
  show ?thesis
  proof (cases "is_expired now e")
    case True
    then have "k \<noteq> k'" using Some assms by (auto simp: serves_def expired_iff)
    then show ?thesis using Some True assms(1) by (simp add: retrieve_def)
  next
    case False
    from retrieve_live [OF Some False, of q] obtain s' where
      "retrieve memory_ops now s k' q = (Some (record_access now q e), s')"
      "mem_get (backend s') = (mem_get (backend s))(k' \<mapsto> record_access now q e)" by blast
    then show ?thesis using Some assms(1) by (auto simp: serves_def expiration_time_def)
  qed
qed (use assms in \<open>simp add: retrieve_def\<close>)

lemma execute_keeps:
  assumes "serves s k original items until" and "\<And>m. clock m \<le> until"
  shows "serves (fst (snd (execute_retrieval E memory_ops clock c (s, n)))) k original items until"
proof -
  let ?s1 = "snd (get_entry_status memory_ops (clock n) s (cc_hash c) True)"
  let ?s2 = "snd (retrieve memory_ops (clock (n + 1)) ?s1 (cc_hash c) None)"
  have 1: "serves ?s1 k original items until" by (rule status_keeps [OF assms])
  have 2: "serves ?s2 k original items until" by (rule retrieve_keeps [OF 1 assms(2)])
  have 3: "serves (snd (get_entry_status memory_ops (clock (n + 2)) ?s2 (cc_hash c) True)) k original items until"
    by (rule status_keeps [OF 2 assms(2)])
  show ?thesis using 1 2 3
    by (auto simp: execute_retrieval_def Let_def split_beta split: option.split)
qed

lemma execute_serves:
  assumes "serves s (cc_hash c) original items until" and "\<And>m. clock m \<le> until"
  shows "fst (execute_retrieval E memory_ops clock c (s, n)) =
    \<lparr>cr_id = cc_id c, cr_content = hit_text E (cc_hash c) original items, cr_success = True,
     cr_items = items, cr_tool_name = cc_tool_name c\<rparr>"
proof -
  from assms(1) obtain e where e: "mem_get (backend s) (cc_hash c) = Some e" "original_content e = original"
    "original_item_count e = items" "expiration_time e = until" by (auto simp: serves_def)
  then have live: "\<not> is_expired (clock m) e" for m using assms(2) [of m] by (simp add: expired_iff)
  have st: "get_entry_status memory_ops (clock n) s (cc_hash c) True = (Status False (ce_ttl e) (default_ttl s)
      (created_at e) (created_at e + real_of_int (ce_ttl e)) (clock n - created_at e), s)"
    using e(1) live [of n] by (simp add: get_entry_status_def Let_def expired_status)
  obtain s' where "retrieve memory_ops (clock (n + 1)) s (cc_hash c) None = (Some (record_access (clock (n + 1)) None e), s')"
    using retrieve_live [OF e(1) live] by blast
  then show ?thesis using st e by (simp add: execute_retrieval_def is_available_def)
qed

lemma execute_all_serves:
  assumes "serves s k original items until" and "\<And>m. clock m \<le> until"
    and "i < length cs" and "cc_hash (cs ! i) = k"
  shows "fst (execute_all E memory_ops clock cs (s, n)) ! i =
    \<lparr>cr_id = cc_id (cs ! i), cr_content = hit_text E k original items, cr_success = True,
     cr_items = items, cr_tool_name = cc_tool_name (cs ! i)\<rparr>"
  using assms
proof (induction cs arbitrary: s n i)
  case (Cons c cs)
  obtain r s1 n1 where r: "execute_retrieval E memory_ops clock c (s, n) = (r, s1, n1)"
    by (cases "execute_retrieval E memory_ops clock c (s, n)")
  have k: "serves s1 k original items until"
    using execute_keeps [where clock = clock, OF Cons.prems(1,2), where E = E and c = c and n = n] r by simp
  show ?case
  proof (cases i)
    case 0
    then show ?thesis using execute_serves [where clock = clock and c = c and s = s and n = n and E = E, OF _ Cons.prems(2)] Cons.prems(1,4) r
      by (simp add: split_beta)
  next
    case (Suc j)
    then show ?thesis using Cons.IH [OF k Cons.prems(2), where n = n1 and i = j] Cons.prems(3,4) r by (simp add: split_beta)
  qed
qed simp

lemma length_execute_all [simp]: "length (fst (execute_all E B clock cs w)) = length cs"
  using arg_cong [OF execute_all_ids, of length E B clock cs w] by simp

text \<open>The text of a hit determines the hash, the original and the number of items.\<close>

lemma hit_text_inject:
  assumes "hit_text E k x i = hit_text E k' y j" and "str_ok k" "str_ok k'" "str_ok x" "str_ok y"
  shows "k = k' \<and> x = y \<and> i = j"
proof -
  let ?key = "\<lambda>n. json_string True (u n) @ u '': ''"
  let ?sep = "u '','' @ [10] @ u ''  ''"
  let ?rest2 = "\<lambda>n. ?sep @ ?key ''original_item_count'' @ show_int n @ [10] @ u ''}''"
  let ?rest1 = "\<lambda>z n. ?sep @ ?key ''original_content'' @ json_string True z @ ?rest2 n"
  have t: "hit_text E h z n = u ''{'' @ [10] @ u ''  '' @ ?key ''hash'' @ json_string True h @ ?rest1 z n"
    for h z n by (simp add: hit_text_def indented_text_def)
  have "json_string True k @ ?rest1 x i = json_string True k' @ ?rest1 y j"
    using assms(1) by (simp only: t append_assoc same_append_eq)
  from json_string_split [OF this assms(2,3)] have k: "k = k'" and r: "?rest1 x i = ?rest1 y j" by blast+
  from r have "json_string True x @ ?rest2 i = json_string True y @ ?rest2 j"
    by (simp only: append_assoc same_append_eq)
  from json_string_split [OF this assms(4,5)] have x: "x = y" and "?rest2 i = ?rest2 j" by blast+
  then have "show_int i = show_int j" by (simp only: append_assoc same_append_eq append_same_eq)
  then show ?thesis using k x show_int_inject by blast
qed

lemma stored_serves:
  assumes "reachable_store sha s" and "store memory_ops sha now s a = (Inr k, s1)"
    and "\<not> is_bare_marker (a_original a)"
  shows "serves s1 k (a_original a) (a_original_item_count a)
    (now + real_of_int (case a_ttl a of Some t \<Rightarrow> t | None \<Rightarrow> default_ttl s))"
proof -
  obtain k' where k': "hash_key_of sha (a_original a) (a_explicit_hash a) = Inr k'"
    using assms(2) by (auto simp: store_def split: sum.splits)
  obtain s' b1 where "store memory_ops sha now s a = (Inr k', s')"
    and "mem_get (backend s') = (mem_get b1)(k' \<mapsto> entry_of now (default_ttl s) k' a)"
    using mem_store_result [OF reachable_store_inv [OF assms(1)] k' assms(3)] by metis
  then show ?thesis using assms(2) by (simp add: serves_def entry_of_def expiration_time_def)
qed

section \<open>A concrete run\<close>

text \<open>A store with one original, and an API that calls the retrieval tool in upper case next to a
  client tool and then answers with text.\<close>

definition call_args :: store_args where
  "call_args = (demo_args ''aa'' 1000)\<lparr>a_original := u ''line'', a_explicit_hash := Some (u ''abcdefabcdef'')\<rparr>"

definition call_env :: reply_env where
  "call_env = \<lparr>re_loads = (\<lambda>s. Some (JObj [(u ''hash'', JStr (u ''abcdefabcdef''))])), re_lower = ascii_lower,
     re_str = (\<lambda>v. []), re_float = digits_ratio\<rparr>"

definition mixed_reply :: pydict where
  "mixed_reply = [(u ''content'', JList
     [JObj [(u ''type'', JStr (u ''tool_use'')), (u ''id'', JStr (u ''t1'')), (u ''name'', JStr (u ''Bash'')),
        (u ''input'', JObj [])],
      JObj [(u ''type'', JStr (u ''tool_use'')), (u ''id'', JStr (u ''t2'')),
        (u ''name'', JStr (u ''headroom_retrieve'')),
        (u ''input'', JObj [(u ''hash'', JStr (u ''ABCDEFABCDEF''))])]])]"

definition call_run :: "(mem_store, unit) api_call \<Rightarrow> (mem_store, unit) ccr_run" where
  "call_run api = \<lparr>ru_env = call_env, ru_backend = memory_ops, ru_clock = (\<lambda>n. 5), ru_api = api,
     ru_provider = Anthropic, ru_tools = JNull,
     ru_config = \<lparr>cfg_enabled = True, cfg_max_retrieval_rounds = 3\<rparr>\<rparr>"

definition done_api :: "(mem_store, unit) api_call" where
  "done_api msgs tools sx = (Inr [(u ''content'', JList [])], sx)"

definition call_world :: "(mem_store, unit) ccr_world" where
  "call_world = \<lparr>w_store = snd (store memory_ops id 0 demo0 call_args), w_outside = (), w_reads = 0,
     w_retrieval_count = 0, w_exchanges = []\<rparr>"

lemma call_run_simps [simp]:
  "ru_env (call_run api) = call_env" "ru_backend (call_run api) = memory_ops" "ru_clock (call_run api) n = 5"
  "ru_api (call_run api) = api" "ru_provider (call_run api) = Anthropic" "ru_tools (call_run api) = JNull"
  "cfg_enabled (ru_config (call_run api))" "cfg_max_retrieval_rounds (ru_config (call_run api)) = 3"
  by (simp_all add: call_run_def)

lemma call_key:
  "hash_key_of id (a_original call_args) (a_explicit_hash call_args) = Inr (u ''abcdefabcdef'')"
  "\<not> is_bare_marker (a_original call_args)"
  by (simp_all add: call_args_def hash_key_of_def is_hex_def ascii_lower_def ascii_lower_char_def u_def
      is_bare_marker_def Let_def strip_def lstrip_def rstrip_def py_isspace_def startswith_def)

lemma lower_demo: "lower_hex (u ''abcdefabcdef'')"
  "ascii_lower (u ''ABCDEFABCDEF'') = u ''abcdefabcdef''"
  by (simp_all add: lower_hex_def ascii_lower_def ascii_lower_char_def u_def)

lemma mixed_plan:
  "plan_round call_env Anthropic mixed_reply = Inr (Some
     ([\<lparr>cc_id = u ''t2'', cc_hash = u ''abcdefabcdef'', cc_tool_name = None\<rparr>],
      dset mixed_reply ''content'' (JList [JObj [(u ''type'', JStr (u ''tool_use'')), (u ''id'', JStr (u ''t2'')),
        (u ''name'', JStr (u ''headroom_retrieve'')),
        (u ''input'', JObj [(u ''hash'', JStr (u ''ABCDEFABCDEF''))])]])))"
  by (simp add: plan_round_def parse_ccr_tool_calls_def extract_tool_calls_def mixed_reply_def parse_tool_call_def
      name_and_input_def CCR_TOOL_NAME_def hash_of_input_def call_env_def lower_demo ccr_call_of_def
      tool_call_id_for_provider_def py_str_def dict_of_def is_ccr_tool_call_def names_ccr_under_def or_dict_def
      drop_tool_calls_def drop_at_def)

lemma failing_run:
  "handle_response (call_run (\<lambda>msgs tools sx. (Inl CallFailed, sx))) mixed_reply [] call_world =
    (Inr (Argument, mixed_reply),
     snd (handle_response (call_run (\<lambda>msgs tools sx. (Inl CallFailed, sx))) mixed_reply [] call_world))"
  by (simp add: handle_response_def ccr_rounds.simps mixed_plan serve_round_def Let_def split_beta
      extract_assistant_message_def call_api_def)

section \<open>The loop is correct\<close>

text \<open>C36: \<open>handle_response\<close> returns after at most \<open>max_retrieval_rounds\<close> calls of the API,
  whatever the API answers, and makes none when handling is disabled or the response has no retrieval
  call: then it returns the response it was given.\<close>

theorem retrieval_rounds_bounded:
  assumes "handle_response R response messages w = (res, w')"
  shows "\<exists>xs. w_exchanges w' = w_exchanges w @ xs
    \<and> int (length xs) \<le> max 0 (cfg_max_retrieval_rounds (ru_config R))
    \<and> (\<not> cfg_enabled (ru_config R) \<or> residual_ccr_status (ru_env R) (ru_provider R) response = Inr Resolved
        \<longrightarrow> xs = [] \<and> res = Inr (Argument, response))"
proof -
  obtain xs where xs: "w_exchanges w' = w_exchanges w @ xs"
    "int (length xs) \<le> max 0 (cfg_max_retrieval_rounds (ru_config R))"
    using handle_response_spec [OF assms] by blast
  have "res = Inr (Argument, response) \<and> w' = w"
    if "\<not> cfg_enabled (ru_config R) \<or> residual_ccr_status (ru_env R) (ru_provider R) response = Inr Resolved"
  proof (cases "cfg_enabled (ru_config R)")
    case True
    then have "plan_round (ru_env R) (ru_provider R) response = Inr None"
      using that by (auto simp: residual_ccr_status_def plan_round_def bindR_def split: sum.splits if_splits)
    then show ?thesis using assms True by (auto simp: handle_response_def ccr_rounds.simps split: if_splits)
  qed (use assms in \<open>auto simp: handle_response_def\<close>)
  with xs show ?thesis by auto
qed

theorem retrieval_rounds_bounded_witness:
  "\<exists>xs. w_exchanges (snd (handle_response (call_run done_api) mixed_reply [] call_world)) = w_exchanges call_world @ xs
    \<and> int (length xs) \<le> 3"
  using retrieval_rounds_bounded [of "call_run done_api" mixed_reply "[]" call_world, OF prod.collapse [symmetric]]
  by auto

text \<open>C9: every request \<open>handle_response\<close> makes is the conversation so far, the turn of the response in
  hand (the given one, later the last one the API answered), and answers to exactly the tool calls of
  this turn, in their order. The turn has all that the response in hand said, text and thinking
  included (the content blocks, the content and tool calls of the message, the parts, or the output
  items, depending on the provider), less the client calls that stood next to the retrievals. So
  whatever the API answers, no continuation has a call without an answer, and none loses anything else.\<close>

theorem every_call_answered:
  assumes "handle_response R response messages w = (res, w')"
  shows "\<exists>xs msgs. w_exchanges w' = w_exchanges w @ xs
    \<and> dialogue (ru_env R) (ru_provider R) (Argument, response) messages xs msgs"
  using handle_response_spec [OF assms] by metis

definition retrieval_block :: json where
  "retrieval_block = JObj [(u ''type'', JStr (u ''tool_use'')), (u ''id'', JStr (u ''t2'')),
     (u ''name'', JStr (u ''headroom_retrieve'')), (u ''input'', JObj [(u ''hash'', JStr (u ''ABCDEFABCDEF''))])]"

definition chatty_reply :: pydict where
  "chatty_reply = [(u ''content'', JList [JObj [(u ''type'', JStr (u ''text'')), (u ''text'', JStr (u ''Let me see.''))],
     JObj [(u ''type'', JStr (u ''tool_use'')), (u ''id'', JStr (u ''t1'')), (u ''name'', JStr (u ''Bash'')), (u ''input'', JObj [])],
     retrieval_block])]"

lemma chatty_plan:
  "\<exists>ccr turn. plan_round call_env Anthropic chatty_reply = Inr (Some (ccr, turn))"
  by (simp add: plan_round_def parse_ccr_tool_calls_def extract_tool_calls_def chatty_reply_def retrieval_block_def parse_tool_call_def
      name_and_input_def CCR_TOOL_NAME_def hash_of_input_def call_env_def lower_demo ccr_call_of_def
      tool_call_id_for_provider_def py_str_def dict_of_def is_ccr_tool_call_def names_ccr_under_def or_dict_def
      drop_tool_calls_def drop_at_def)

lemma chatty_asks:
  "\<not> asks call_env Anthropic (JObj [(u ''type'', JStr (u ''tool_use'')), (u ''id'', JStr (u ''t1'')), (u ''name'', JStr (u ''Bash'')), (u ''input'', JObj [])])"
  "asks call_env Anthropic retrieval_block"
  by (simp_all add: asks_def parse_tool_call_def name_and_input_def retrieval_block_def CCR_TOOL_NAME_def hash_of_input_def
      call_env_def lower_demo)

lemma one_request:
  assumes "plan_round call_env Anthropic r = Inr (Some (ccr, turn))" and "0 < length ccr"
  shows "length (w_exchanges (snd (handle_response (call_run (\<lambda>msgs tools sx. (Inl CallFailed, sx))) r [] call_world))) = 1"
proof -
  let ?R = "call_run (\<lambda>msgs tools sx. (Inl CallFailed, sx))"
  let ?st = "\<lparr>ls_rounds = 0, ls_origin = Argument, ls_response = r, ls_messages = [], ls_world = call_world\<rparr>"
  have plan: "plan_round (ru_env ?R) (ru_provider ?R) (ls_response ?st) = Inr (Some (ccr, turn))" using assms by simp
  obtain said answers w1 where sv: "serve_round ?R ccr turn ?st = (Inr (said @ answers), w1)" "w_exchanges w1 = []"
    by (rule serve_round_answers [OF plan]) (simp add: call_world_def)
  show ?thesis using assms(1) sv by (simp add: handle_response_def ccr_rounds.simps call_api_def)
qed

lemma chatty_returned:
  "\<exists>w'. handle_response (call_run (\<lambda>msgs tools sx. (Inl CallFailed, sx))) chatty_reply [] call_world = (Inr (Argument, chatty_reply), w')"
proof -
  let ?R = "call_run (\<lambda>msgs tools sx. (Inl CallFailed, sx))"
  let ?st = "\<lparr>ls_rounds = 0, ls_origin = Argument, ls_response = chatty_reply, ls_messages = [], ls_world = call_world\<rparr>"
  obtain ccr turn where p: "plan_round call_env Anthropic chatty_reply = Inr (Some (ccr, turn))" using chatty_plan by blast
  then have plan: "plan_round (ru_env ?R) (ru_provider ?R) (ls_response ?st) = Inr (Some (ccr, turn))" by simp
  obtain said answers w1 where "serve_round ?R ccr turn ?st = (Inr (said @ answers), w1)"
    by (rule serve_round_answers [OF plan]) simp
  then show ?thesis using p by (simp add: handle_response_def ccr_rounds.simps call_api_def)
qed

theorem every_call_answered_witness:
  "\<exists>x answers. w_exchanges (snd (handle_response (call_run (\<lambda>msgs tools sx. (Inl CallFailed, sx))) chatty_reply [] call_world)) = [x]
    \<and> ex_request x = JObj [(u ''role'', JStr (u ''assistant'')), (u ''content'', JList
         [JObj [(u ''type'', JStr (u ''text'')), (u ''text'', JStr (u ''Let me see.''))], retrieval_block])] # answers
    \<and> concat (map (item_answers Anthropic) answers) = [JStr (u ''t2'')]"
proof -
  let ?R = "call_run (\<lambda>msgs tools sx. (Inl CallFailed, sx))"
  obtain ccr turn where plan: "plan_round call_env Anthropic chatty_reply = Inr (Some (ccr, turn))" using chatty_plan by blast
  obtain x where x: "w_exchanges (snd (handle_response ?R chatty_reply [] call_world)) = [x]"
    using one_request [OF plan] planned_turn(2) [OF plan] by (auto simp: length_Suc_conv)
  obtain msgs where d: "dialogue call_env Anthropic (Argument, chatty_reply) [] [x] msgs"
    using every_call_answered [of ?R chatty_reply "[]" call_world, OF prod.collapse [symmetric]] x
    by (auto simp: call_world_def)
  then obtain said answers where t: "turn_of call_env Anthropic chatty_reply said" "well_answered call_env Anthropic said answers"
    "ex_request x = said @ answers"
    by (rule dialogue_one) simp
  from t(1) have said: "said = [JObj [(u ''role'', JStr (u ''assistant'')), (u ''content'', JList
         [JObj [(u ''type'', JStr (u ''text'')), (u ''text'', JStr (u ''Let me see.''))], retrieval_block])]]"
    using chatty_asks by (elim turn_ofE) (auto simp: chatty_reply_def)
  moreover have "concat (map (item_calls call_env Anthropic) said) = [u ''t2'']"
    by (simp add: said item_calls_def retrieval_block_def tool_call_id_for_provider_def py_str_def)
  ultimately show ?thesis using x t(2,3) by (auto simp: well_answered_def)
qed

text \<open>C27: what \<open>handle_response\<close> returns is the response it was given, as it was, or verbatim the last
  response the API answered: never the turn whose client calls were left out. It is the given one
  exactly when no continuation was answered, and only the last continuation can have failed.\<close>

theorem returned_turn_verbatim:
  assumes "handle_response R response messages w = (Inr (o1, r), w')"
  shows "\<exists>xs. w_exchanges w' = w_exchanges w @ xs \<and> (o1, r) = in_hand (Argument, response) xs
    \<and> (\<forall>x \<in> set (butlast xs). \<exists>r. ex_answer x = Inr r)"
  by (rule handle_response_spec [OF assms]) (auto simp: outcome_def)

theorem returned_turn_verbatim_witness:
  "\<exists>o1 r w'. handle_response (call_run (\<lambda>msgs tools sx. (Inl CallFailed, sx))) mixed_reply [] call_world = (Inr (o1, r), w')
    \<and> (\<exists>xs. w_exchanges w' = w_exchanges call_world @ xs \<and> (o1, r) = in_hand (Argument, mixed_reply) xs)"
  using returned_turn_verbatim [OF failing_run] failing_run by blast

text \<open>C33: when a call that names the retrieval tool remains in the response \<open>handle_response\<close>
  returns, there is a reason: handling is disabled, the rounds are used up, the last continuation
  failed, or the turn cannot be continued, because one of its calls that name the tool (this one or
  another) has no hash that could be retrieved, or because calls of other tools stand next to it and
  the provider is neither Anthropic nor OpenAI. So \<open>residual_ccr_status\<close> gives \<open>error\<close> only for the
  first three.\<close>

theorem residual_calls_explained:
  assumes "handle_response R response messages w = (Inr (o1, r), w')"
    and "c \<in> set (map snd (extract_tool_calls (ru_provider R) r))" and "is_ccr_tool_call c = Inr True"
  shows "\<exists>xs. w_exchanges w' = w_exchanges w @ xs
    \<and> (\<not> cfg_enabled (ru_config R)
       \<or> cfg_max_retrieval_rounds (ru_config R) \<le> int (length xs)
       \<or> (xs \<noteq> [] \<and> (\<exists>e. ex_answer (List.last xs) = Inl e))
       \<or> residual_ccr_status (ru_env R) (ru_provider R) r \<noteq> Inr ResidualError
         \<and> ((\<exists>c' \<in> set (map snd (extract_tool_calls (ru_provider R) r)).
               is_ccr_tool_call c' = Inr True \<and> \<not> asks (ru_env R) (ru_provider R) c')
            \<or> ru_provider R \<notin> {Anthropic, OpenAI}
              \<and> (\<exists>c' \<in> set (map snd (extract_tool_calls (ru_provider R) r)). is_ccr_tool_call c' = Inr False)))"
proof -
  let ?E = "ru_env R" and ?p = "ru_provider R"
  obtain xs where xs: "w_exchanges w' = w_exchanges w @ xs" and why: "stopped_for R r xs"
    by (rule handle_response_spec [OF assms(1)]) (auto simp: outcome_def)
  have "residual_ccr_status ?E ?p r \<noteq> Inr ResidualError
      \<and> ((\<exists>c' \<in> set (map snd (extract_tool_calls ?p r)). is_ccr_tool_call c' = Inr True \<and> \<not> asks ?E ?p c')
         \<or> ?p \<notin> {Anthropic, OpenAI} \<and> (\<exists>c' \<in> set (map snd (extract_tool_calls ?p r)). is_ccr_tool_call c' = Inr False))"
    if plan: "plan_round ?E ?p r = Inr None"
  proof -
    obtain ccr others where parse: "parse_ccr_tool_calls ?E ?p r = Inr (ccr, others)"
      and o: "ccr = [] \<or> others \<noteq> [] \<and> (any_ccr_tool_call others = Inr True
          \<or> any_ccr_tool_call others = Inr False \<and> drop_tool_calls ?p r (map fst others) = None)"
      using plan by (auto simp: plan_round_def bindR_def split: sum.splits if_splits)
    have others: "set (map snd others) = {x \<in> set (map snd (extract_tool_calls ?p r)). \<not> asks ?E ?p x}"
      using parse_calls_others parse unfolding parse_ccr_tool_calls_def by (force simp: image_iff)
    have status: "residual_ccr_status ?E ?p r \<noteq> Inr ResidualError"
      using parse o by (auto simp: residual_ccr_status_def bindR_def)
    from o consider (none) "ccr = []" | (named) "any_ccr_tool_call others = Inr True"
      | (stuck) "others \<noteq> []" "any_ccr_tool_call others = Inr False" "drop_tool_calls ?p r (map fst others) = None" by metis
    then show ?thesis
    proof cases
      case none
      then have "map snd others = map snd (extract_tool_calls ?p r)"
        using parse_calls_none [of ?E ?p "extract_tool_calls ?p r" others] parse by (simp add: parse_ccr_tool_calls_def)
      then have "\<not> asks ?E ?p c" using others assms(2) by auto
      then show ?thesis using status assms(2,3) by blast
    next
      case named
      then obtain c' where "c' \<in> set (map snd others)" "is_ccr_tool_call c' = Inr True" using any_ccr_tool_call_True by blast
      then show ?thesis using status others by blast
    next
      case stuck
      then obtain c' where "c' \<in> set (map snd others)" "is_ccr_tool_call c' = Inr False"
        using any_ccr_tool_call_False by (cases others) auto
      moreover have "extract_tool_calls ?p r \<noteq> []" using assms(2) by auto
      then have "?p \<notin> {Anthropic, OpenAI}" using extracted_droppable stuck(3) by blast
      ultimately show ?thesis using status others by blast
    qed
  qed
  with why xs show ?thesis unfolding stopped_for_def by blast
qed

theorem residual_calls_explained_witness:
  "\<exists>xs. w_exchanges (snd (handle_response (call_run (\<lambda>msgs tools sx. (Inl CallFailed, sx))) chatty_reply [] call_world)) = xs
    \<and> is_ccr_tool_call retrieval_block = Inr True \<and> (3 \<le> int (length xs) \<or> xs \<noteq> [] \<and> (\<exists>e. ex_answer (List.last xs) = Inl e))"
proof -
  let ?R = "call_run (\<lambda>msgs tools sx. (Inl CallFailed, sx))"
  obtain ccr turn where plan: "plan_round call_env Anthropic chatty_reply = Inr (Some (ccr, turn))" using chatty_plan by blast
  obtain x where x: "w_exchanges (snd (handle_response ?R chatty_reply [] call_world)) = [x]"
    using one_request [OF plan] planned_turn(2) [OF plan] by (auto simp: length_Suc_conv)
  obtain w' where run: "handle_response ?R chatty_reply [] call_world = (Inr (Argument, chatty_reply), w')"
    using chatty_returned by blast
  have b: "retrieval_block \<in> set (map snd (extract_tool_calls (ru_provider ?R) chatty_reply))" "is_ccr_tool_call retrieval_block = Inr True"
    by (simp_all add: extract_tool_calls_def chatty_reply_def retrieval_block_def is_ccr_tool_call_def CCR_TOOL_NAME_def)
  have others: "is_ccr_tool_call (JObj [(u ''type'', JStr (u ''tool_use'')), (u ''id'', JStr (u ''t1'')), (u ''name'', JStr (u ''Bash'')), (u ''input'', JObj [])]) = Inr False"
    by (simp add: is_ccr_tool_call_def CCR_TOOL_NAME_def names_ccr_under_def or_dict_def)
  have "\<forall>c' \<in> set (map snd (extract_tool_calls Anthropic chatty_reply)). is_ccr_tool_call c' = Inr True \<longrightarrow> asks call_env Anthropic c'"
    using chatty_asks others by (simp add: extract_tool_calls_def chatty_reply_def)
  then show ?thesis
    using residual_calls_explained [OF run b] x b(2) run by (auto simp: call_world_def)
qed

text \<open>C4: a stored original reaches the model: when the model calls the retrieval tool with the hash
  \<open>store\<close> returned, alone or next to client calls that can be left out, then within the time to live
  the first request \<open>handle_response\<close> makes answers this call with the text of a hit that holds the
  original, whatever the other calls of the turn ask for; and no other original has this text.\<close>

theorem retrieval_served:
  assumes "reachable_store sha s" and "store memory_ops sha now s a = (Inr k, s1)"
    and "\<not> is_bare_marker (a_original a)"
    and "ru_backend R = memory_ops" and "w_store w = s1" and "cfg_enabled (ru_config R)"
    and "0 < cfg_max_retrieval_rounds (ru_config R)"
    and "plan_round (ru_env R) (ru_provider R) response = Inr (Some (ccr, turn))"
    and "i < length ccr" and "cc_hash (ccr ! i) = k"
    and "\<And>m. ru_clock R m - now \<le> real_of_int (case a_ttl a of Some t \<Rightarrow> t | None \<Rightarrow> default_ttl s)"
    and "str_ok k" and "str_ok (a_original a)"
    and "handle_response R response messages w = (res, w')"
  shows "\<exists>x rest said results. w_exchanges w' = w_exchanges w @ x # rest
    \<and> ex_request x = messages @ said
        @ answer_items (ru_provider R) (create_tool_result_message (ru_env R) (ru_provider R) results)
    \<and> map cr_id results = map cc_id ccr \<and> cr_success (results ! i)
    \<and> cr_content (results ! i) = hit_text (ru_env R) k (a_original a) (a_original_item_count a)
    \<and> (\<forall>y j. str_ok y \<longrightarrow> hit_text (ru_env R) k y j = cr_content (results ! i) \<longrightarrow> y = a_original a)"
proof -
  let ?until = "now + real_of_int (case a_ttl a of Some t \<Rightarrow> t | None \<Rightarrow> default_ttl s)"
  let ?E = "ru_env R" and ?p = "ru_provider R"
  let ?results = "fst (execute_all ?E memory_ops (ru_clock R) ccr (s1, w_reads w))"
  let ?st0 = "\<lparr>ls_rounds = 0, ls_origin = Argument, ls_response = response, ls_messages = messages, ls_world = w\<rparr>"
  have clock: "ru_clock R m \<le> ?until" for m using assms(11) [of m] by simp
  have "serves s1 k (a_original a) (a_original_item_count a) ?until"
    using stored_serves [OF assms(1-3)] .
  from execute_all_serves [where clock = "ru_clock R", OF this clock assms(9,10), of ?E "w_reads w"]
  have hit: "cr_success (?results ! i)"
    "cr_content (?results ! i) = hit_text ?E k (a_original a) (a_original_item_count a)" by simp_all
  have plan: "plan_round ?E ?p (ls_response ?st0) = Inr (Some (ccr, turn))" using assms(8) by simp
  obtain said w1 where sv: "serve_round R ccr turn ?st0 = (Inr (messages @ said
      @ answer_items ?p (create_tool_result_message ?E ?p ?results)), w1)" "w_exchanges w1 = w_exchanges w"
    by (rule serve_round_answers [OF plan]) (use assms(4,5) in simp)
  let ?msgs = "messages @ said @ answer_items ?p (create_tool_result_message ?E ?p ?results)"
  obtain b w2 where b: "call_api R ?msgs w1 = (b, w2)" by (cases "call_api R ?msgs w1")
  have "\<exists>rest. w_exchanges w' = w_exchanges w2 @ rest"
  proof (cases b)
    case (Inl e)
    then have "handle_response R response messages w = (Inr (Argument, response), w2)"
      using assms(6-8) sv b by (simp add: handle_response_def ccr_rounds.simps [of R ?st0])
    then show ?thesis using assms(14) by simp
  next
    case (Inr r)
    then have "ccr_rounds R \<lparr>ls_rounds = 1, ls_origin = Answer, ls_response = r, ls_messages = ?msgs, ls_world = w2\<rparr>
        = (res, w')"
      using assms(6-8,14) sv b by (simp add: handle_response_def ccr_rounds.simps [of R ?st0])
    then show ?thesis using ccr_rounds_extends by (metis loop_state.select_convs(5) snd_conv)
  qed
  then obtain rest where "w_exchanges w' = w_exchanges w @ \<lparr>ex_request = ?msgs, ex_answer = b\<rparr> # rest"
    using call_api_exchange [OF b] sv(2) by auto
  moreover have "map cr_id ?results = map cc_id ccr" by (rule execute_all_ids)
  moreover have "\<forall>y j. str_ok y \<longrightarrow> hit_text ?E k y j = cr_content (?results ! i) \<longrightarrow> y = a_original a"
    using hit hit_text_inject assms(12,13) by metis
  ultimately show ?thesis using hit by (intro exI conjI) (assumption | simp)+
qed

theorem retrieval_served_witness:
  "\<exists>x rest said results. w_exchanges (snd (handle_response (call_run done_api) mixed_reply [] call_world)) = x # rest
    \<and> ex_request x = said @ answer_items Anthropic (create_tool_result_message call_env Anthropic results)
    \<and> map cr_id results = [u ''t2'']
    \<and> cr_content (results ! 0) = hit_text call_env (u ''abcdefabcdef'') (u ''line'') 0"
proof -
  have st: "store memory_ops id 0 demo0 call_args = (Inr (u ''abcdefabcdef''), w_store call_world)"
    using mem_store_result [OF reachable_store_inv [OF demo_reachable(1) [of id]] call_key, where now = 0]
    by (metis call_world_def ccr_world.select_convs(1) snd_conv)
  have ok: "str_ok (u ''abcdefabcdef'')" "str_ok (a_original call_args)" by (simp_all add: u_def call_args_def)
  have args: "a_ttl call_args = Some 1000" "a_original call_args = u ''line''" "a_original_item_count call_args = 0"
    by (simp_all add: call_args_def demo_args_def)
  have world: "w_exchanges call_world = []" by (simp add: call_world_def)
  show ?thesis
    using retrieval_served [OF demo_reachable(1) st call_key(2), of "call_run done_api" call_world mixed_reply _ _ 0,
        OF _ _ _ _ _ _ _ _ ok prod.collapse [symmetric], where messages = "[]"] mixed_plan
    by (simp add: args world) (elim exE conjE, intro exI conjI, assumption+)
qed

section \<open>Where the direct chat path stops short\<close>

text \<open>The direct chat path takes a returned response that is not the reply itself for a resolved one.
  When the rounds are used up this is not so: the last answer of the API replaces the reply although
  it still calls the retrieval tool.\<close>

definition asking_reply :: pydict where
  "asking_reply = [(u ''choices'', JList [JObj [(u ''message'', JObj [(u ''tool_calls'', JList
     [JObj [(u ''id'', JStr (u ''t1'')), (u ''function'', JObj [(u ''name'', JStr (u ''headroom_retrieve'')),
        (u ''arguments'', JStr (u ''hash''))])]])])]])]"

definition asking_api :: "(mem_store, unit) api_call" where
  "asking_api msgs tools sx = (Inr asking_reply, sx)"

definition asking_run :: "(mem_store, unit) ccr_run" where
  "asking_run = (call_run asking_api)\<lparr>ru_provider := OpenAI, ru_config := \<lparr>cfg_enabled = True, cfg_max_retrieval_rounds = 1\<rparr>\<rparr>"

lemma asking_call: "parse_ccr_tool_calls call_env OpenAI asking_reply =
    Inr ([\<lparr>cc_id = u ''t1'', cc_hash = u ''abcdefabcdef'', cc_tool_name = None\<rparr>], [])"
proof -
  have "ascii_lower (u ''abcdefabcdef'') = u ''abcdefabcdef''"
    by (simp add: ascii_lower_def ascii_lower_char_def u_def)
  then show ?thesis
    by (simp add: parse_ccr_tool_calls_def extract_tool_calls_def asking_reply_def parse_tool_call_def
        name_and_input_def CCR_TOOL_NAME_def hash_of_input_def call_env_def lower_demo ccr_call_of_def
        tool_call_id_for_provider_def py_str_def dict_of_def or_dict_def load_arguments_def)
qed

theorem direct_chat_returns_unresolved:
  "\<exists>r w'. resolve_direct_chat asking_run asking_reply [] call_world = (Inr (Some r), w')
    \<and> residual_ccr_status call_env OpenAI r = Inr ResidualError"
proof -
  have plan: "plan_round call_env OpenAI asking_reply =
      Inr (Some ([\<lparr>cc_id = u ''t1'', cc_hash = u ''abcdefabcdef'', cc_tool_name = None\<rparr>], asking_reply))"
    by (simp add: plan_round_def asking_call)
  have has: "has_ccr_tool_calls OpenAI asking_reply = Inr True"
    by (simp add: has_ccr_tool_calls_def extract_tool_calls_def asking_reply_def is_ccr_tool_call_def
        names_ccr_under_def or_dict_def CCR_TOOL_NAME_def)
  have msg: "\<exists>m. extract_assistant_message OpenAI asking_reply = Inr m"
    by (simp add: extract_assistant_message_def asking_reply_def dget_default_def)
  then obtain m where m: "extract_assistant_message OpenAI asking_reply = Inr m" by blast
  obtain w' where h: "handle_response asking_run asking_reply [] call_world = (Inr (Answer, asking_reply), w')"
    and x: "\<exists>x. w_exchanges w' = [x] \<and> ex_answer x = Inr asking_reply"
    by (simp add: handle_response_def ccr_rounds.simps asking_run_def call_run_def plan serve_round_def m
        Let_def split_beta call_api_def asking_api_def call_world_def)
  have "asking_run\<lparr>ru_provider := OpenAI\<rparr> = asking_run" by (simp add: asking_run_def)
  then have "resolve_direct_chat asking_run asking_reply [] call_world = (Inr (Some asking_reply), w')"
    using h x has by (auto simp: resolve_direct_chat_def continuation_status_failed_def call_world_def asking_reply_def)
  moreover have "residual_ccr_status call_env OpenAI asking_reply = Inr ResidualError"
    by (simp add: residual_ccr_status_def asking_call)
  ultimately show ?thesis by blast
qed

end
