(* ===== verification/Spec2Isabelle.thy ===== *)
theory Spec2Isabelle
  imports Compression_Store_Props Compression_Cache_Props Cross_Turn_Dedup_Props Read_Lifecycle_Props
    Session_Sticky_Props Rate_Limiter_Props Sse_Buffer_Props Prefix_Replay_Props
    Prefix_Sessions_Props Prefix_State_Props Lossless_Compaction_Props Read_Maturation_Props
    Semantic_Cache_Props Response_Handler_Props
begin

text \<open>
  A verification development for headroom, the context-compression proxy for LLM clients (the
  Python package under \<open>src/upstream-python/headroom\<close>, to which all paths below are relative).

  \<^bold>\<open>The program.\<close> A client's request passes through the proxy on its way to a provider. Transforms
  shorten what is in the message list: tool outputs are compressed, spans that repeat an earlier
  output are replaced by pointers, outputs of file reads that are out of date by markers. The
  originals go into the CCR store, and a retrieval tool is added to the request so that the model
  can ask for them. Providers cache prompts by their exact prefix, so what was sent on one turn has
  to be sent again on the next: caches replay the compressed forms, and trackers keep injected tools
  and beta headers the same for the whole session. Requests are rate limited, and the provider's
  event stream is parsed as its bytes arrive.

  \<^bold>\<open>Theories and sources.\<close>
  \<^item> \<open>Prelude\<close>: strings, ordered dictionaries, heaps, splitting and stripping; the shared lemmas.
  \<^item> \<open>Json\<close>, \<open>Py_Text\<close>: JSON values with Python's equality and dictionary access;
    decimal rendering, \<open>repr\<close>, UTF-8 encoding. \<open>Json_Text\<close>: what \<open>json.dumps\<close> writes;
    \<open>Json_Text_Props\<close> shows, in the locale \<open>json_writer\<close>, that a text determines its value.
  \<^item> \<open>Store_Backend\<close> (\<open>cache/backends/base.py\<close>, \<open>memory.py\<close>): the backend
    protocol as the locale \<open>ccr_backend\<close>, interpreted by the in-memory backend.
    \<open>Compression_Store\<close> (\<open>cache/compression_store.py\<close>): the store, over any backend.
    \<open>Compression_Store_Correct\<close> holds the lemmas proved in the locale,
    \<open>Compression_Store_Props\<close> the properties: what is stored is retrieved until it expires or is
    evicted, the heaps cover the entries, the victim of an eviction is the oldest, the capacity
    bound, export and import, errors, and feedback events.
  \<^item> \<open>Compression_Cache\<close> (\<open>cache/compression_cache.py\<close>): the replay cache. Its properties:
    a result seen on one turn is replayed byte for byte on the next, replay is a pure function of the
    cached map, the size and accounting invariant, the frozen prefix, the deferral window.
  \<^item> \<open>Cross_Turn_Dedup\<close> (\<open>transforms/cross_turn_dedup.py\<close>): folding of repeated spans.
    Its properties: adding blocks never changes the output of earlier ones, pointers can be expanded
    to the original text, no block grows; with the inputs on which the first two fail.
  \<^item> \<open>Read_Lifecycle\<close> (\<open>transforms/read_lifecycle.py\<close>): stale and superseded file
    reads, on top of the store. Its properties: the classification is sound and complete, cached
    messages stay, markers resolve in the store, nothing is replaced when the store refuses.
  \<^item> \<open>Read_Maturation\<close> (\<open>transforms/read_maturation.py\<close>): outputs of file reads are
    replaced once the file has been quiet. A replaced read is answered with the same marker on all later
    requests, restarts included; the read of an active file stays verbatim; markers resolve in the store;
    the accounting books each removal once.
  \<^item> \<open>Session_Lru\<close>: the bounded per-session table shared by the session components, and the
    locale \<open>session_lru\<close>: a session that is kept in the table is served as if it were alone.
    \<open>Session_Sticky\<close> (\<open>proxy/ccr_session_tracker.py\<close>, \<open>tool_injection_tracker.py\<close>,
    \<open>tool_injection_policy.py\<close>, \<open>beta_header_merge.py\<close>, \<open>beta_header_policy.py\<close>,
    and the injection functions of \<open>helpers.py\<close>): tools and beta headers stay the same or only grow.
    \<open>Rate_Limiter\<close> (\<open>proxy/rate_limiter.py\<close>, \<open>rate_limit_policy.py\<close>): at most
    \<open>rate\<close> requests plus the refill are admitted in any window, and a refused client that waits
    as told is admitted. All four tables are interpretations of the locale.
  \<^item> \<open>Prefix_Replay\<close> (\<open>cache/prefix_tracker.py\<close>, the functions on messages): the
    canonical form in which histories are compared is characterised by the re-encodings it ignores;
    the cache-stable split and the overlay of the cached prefix forward only messages that belong at
    their positions; markers stay within the client's budget.
    \<open>Prefix_Sessions\<close> (same file, \<open>PrefixCacheTracker\<close> and \<open>SessionTrackerStore\<close>): what a
    conversation remembers of its last turns and how a request finds the conversation it continues.
    Lineages are matched by canonical prefixes; a request touches one tracker only, a turn that was
    answered can be resumed after any number of forks, and the store stays bounded.
    \<open>Prefix_State\<close> (same file, \<open>save_state\<close>, \<open>load_state\<close>, \<open>encode_shared\<close>,
    \<open>decode_shared\<close> and their helpers): what the store writes for the next process. A turn that was
    answered resumes its state after a restart, everything that is written is read back, the CCR
    markers of a restored conversation resolve, and a file that cannot be read changes nothing.
  \<^item> \<open>Lossless_Compaction\<close> (\<open>transforms/lossless_compaction.py\<close>): the folds of logs, search
    results, path listings and configuration. The locale \<open>line_fold\<close> is the contract of a fold and its
    inverse, with five interpretations: what is not answered unchanged can be restored exactly, content
    without marker-like lines is always folded, and the self-check expands any count it reads.
  \<^item> \<open>Semantic_Cache\<close> (\<open>proxy/semantic_cache.py\<close>, \<open>semantic_cache_key_policy.py\<close>,
    \<open>internal_header_policy.py\<close>, the lookup and store sites of the handlers): the cache of provider replies.
    A reply is only replayed to the same caller with the same request, within its time to live; keys and
    partitions determine what they were computed from; a stored reply is kept while fewer than the capacity
    of other keys are used.
  \<^item> \<open>Response_Handler\<close> (\<open>ccr/tool_calls.py\<close>, \<open>ccr/response_handler.py\<close>, \<open>parse_tool_call\<close> of
    \<open>ccr/tool_injection.py\<close>, the direct chat path of \<open>proxy/handlers/openai.py\<close>): what happens when
    the model calls the retrieval tool. The loop of continuations is a function with a measure; its
    rounds are the step relation \<open>answered_round\<close>, and the theorems are invariants of its runs. It
    makes at most \<open>max_retrieval_rounds\<close> calls, every request answers every tool call of the turn it
    continues, what is returned is the model's own turn, the calls that remain have a reason, and a
    stored original reaches the model.
  \<^item> \<open>Sse_Buffer\<close> (\<open>proxy/sse_byte_buffer_policy.py\<close>): the result does not depend on
    how the stream is cut into chunks, and well-formed streams are parsed to the events sent.

  \<^bold>\<open>Conventions.\<close> A \<open>str\<close> is a list of code points, a \<open>dict\<close> an association list in
  insertion order, a \<open>heapq\<close> the sorted list of its elements, a time a real number. State is
  passed explicitly; an exception is the \<open>Inl\<close> of a sum, next to the state it leaves where the
  caller can observe it. Every method runs under its object's lock, so a method is one step and a
  run is a sequence of steps. Parameters stand for what is not in the sources: the hash functions,
  \<open>json.loads\<close> and \<open>json.dumps\<close>, the clock, the Unicode character database. No definition
  uses fuel: loops are structural recursions or have termination proofs.

  \<^bold>\<open>Not modelled.\<close> Logging, metrics, telemetry exporters and dashboards (they do not influence
  the requests); the HTTP and WebSocket handlers, the command line, installers and integrations (I/O
  on third-party objects); the compressors that use learned models, parsers or the Rust extension;
  the SQL and Redis backends and the memory subsystem (external databases); the Rust port under
  \<open>src/crates\<close>. BM25 search in the store uses a scorer from the relevance package and is left
  out.
\<close>

end
